(* ===== verification/Go_Prelude.thy ===== *)
theory Go_Prelude
  imports Main "HOL-Library.Multiset" "HOL-Library.Sublist"
begin

text \<open>
  Shared vocabulary of the development: the parts of Go and of its standard library that the
  modelled code uses, as executable functions on \<^typ>\<open>string\<close> (a Go string is a byte
  sequence, and a \<^typ>\<open>char\<close> is a byte), on finite maps with Go's zero-value lookup, and on
  three-way comparators; and the generic lemmas on them that the components share.

  \<^item> \<open>strings\<close>: \<open>HasPrefix\<close>, \<open>HasSuffix\<close>, \<open>TrimPrefix\<close>, \<open>TrimSuffix\<close>, \<open>Contains\<close>, \<open>Cut\<close>,
    \<open>Split\<close>, \<open>Join\<close>, \<open>TrimLeft\<close>, \<open>ReplaceAll\<close> with an empty replacement, \<open>Compare\<close>.
  \<^item> \<open>path/filepath\<close> on Unix: \<open>Base\<close>, \<open>Ext\<close>, \<open>IsAbs\<close>.
  \<^item> maps: \<open>mget\<close> is the lookup \<open>m[k]\<close> of a map to numbers (zero when absent), \<open>minc\<close> is
    \<open>m[k]++\<close>.
  \<^item> sorting: \<open>stable_sort\<close> is \<open>sort.Stable\<close>; the locale \<open>three_way\<close> is the contract of a
    comparator handed to \<open>slices.SortFunc\<close>.
  \<^item> logging: a call of the logger is a value of \<open>log_call\<close>.
\<close>

named_theorems go_simps \<open>unfolding rules of the standard-library vocabulary\<close>

section \<open>Strings\<close>

definition HasPrefix :: "string \<Rightarrow> string \<Rightarrow> bool" where
  "HasPrefix s p \<longleftrightarrow> take (length p) s = p"

definition HasSuffix :: "string \<Rightarrow> string \<Rightarrow> bool" where
  "HasSuffix s p \<longleftrightarrow> length p \<le> length s \<and> drop (length s - length p) s = p"

definition TrimPrefix :: "string \<Rightarrow> string \<Rightarrow> string" where
  "TrimPrefix s p = (if HasPrefix s p then drop (length p) s else s)"

definition TrimSuffix :: "string \<Rightarrow> string \<Rightarrow> string" where
  "TrimSuffix s p = (if HasSuffix s p then take (length s - length p) s else s)"

text \<open>\<open>TrimLeft s cs\<close> and \<open>TrimRight s cs\<close>: the cut set is a set of single-byte characters.\<close>

definition TrimLeft :: "string \<Rightarrow> string \<Rightarrow> string" where
  "TrimLeft s cs = dropWhile (\<lambda>c. c \<in> set cs) s"

definition TrimRight :: "string \<Rightarrow> string \<Rightarrow> string" where
  "TrimRight s cs = rev (dropWhile (\<lambda>c. c \<in> set cs) (rev s))"

definition Trim :: "string \<Rightarrow> string \<Rightarrow> string" where
  "Trim s cs = TrimRight (TrimLeft s cs) cs"

text \<open>\<open>Index s p\<close>: the offset of the first occurrence of \<open>p\<close>, \<^const>\<open>None\<close> for Go's \<open>-1\<close>.\<close>

fun Index :: "string \<Rightarrow> string \<Rightarrow> nat option" where
  "Index [] p = (if p = [] then Some 0 else None)"
| "Index (c # s) p = (if HasPrefix (c # s) p then Some 0 else map_option Suc (Index s p))"

definition Contains :: "string \<Rightarrow> string \<Rightarrow> bool" where
  "Contains s p \<longleftrightarrow> Index s p \<noteq> None"

text \<open>\<open>Cut s sep\<close>: the text before and after the first separator and whether there is one.\<close>

definition Cut :: "string \<Rightarrow> string \<Rightarrow> string \<times> string \<times> bool" where
  "Cut s sep = (case Index s sep of
       None \<Rightarrow> (s, [], False)
     | Some i \<Rightarrow> (take i s, drop (i + length sep) s, True))"

text \<open>\<open>Split s c\<close>: splitting at a single-byte separator; never the empty list.\<close>

fun Split :: "string \<Rightarrow> char \<Rightarrow> string list" where
  "Split [] d = [[]]"
| "Split (c # s) d = (if c = d then [] # Split s d
     else (case Split s d of [] \<Rightarrow> [[c]] | w # ws \<Rightarrow> (c # w) # ws))"

fun Join :: "string list \<Rightarrow> string \<Rightarrow> string" where
  "Join [] sep = []"
| "Join [s] sep = s"
| "Join (s # t # ss) sep = s @ sep @ Join (t # ss) sep"

text \<open>\<open>RemoveAll s old\<close> is \<open>strings.ReplaceAll(s, old, "")\<close>: leftmost occurrences, not
  overlapping; with an empty \<open>old\<close> the empty replacement is inserted everywhere, that is nowhere.\<close>

function RemoveAll :: "string \<Rightarrow> string \<Rightarrow> string" where
  "RemoveAll [] old = []"
| "RemoveAll (c # s) old =
     (if old \<noteq> [] \<and> HasPrefix (c # s) old then RemoveAll (drop (length old) (c # s)) old
      else c # RemoveAll s old)"
  by pat_completeness auto
termination
  by (relation "measure (\<lambda>(s, old). length s)") (auto simp: neq_Nil_conv)

text \<open>\<open>Count s p\<close>: the number of non-overlapping occurrences of a non-empty \<open>p\<close>; for an empty
  \<open>p\<close> Go returns the number of code points plus one, here for single-byte text.\<close>

function CountOcc :: "string \<Rightarrow> string \<Rightarrow> nat" where
  "CountOcc [] p = 0"
| "CountOcc (c # s) p =
     (if p \<noteq> [] \<and> HasPrefix (c # s) p then Suc (CountOcc (drop (length p) (c # s)) p)
      else CountOcc s p)"
  by pat_completeness auto
termination
  by (relation "measure (\<lambda>(s, old). length s)") (auto simp: neq_Nil_conv)

definition Count :: "string \<Rightarrow> string \<Rightarrow> nat" where
  "Count s p = (if p = [] then length s + 1 else CountOcc s p)"

lemmas [go_simps] = HasPrefix_def HasSuffix_def TrimPrefix_def TrimSuffix_def TrimLeft_def
  TrimRight_def Trim_def Contains_def Cut_def Count_def

lemma HasPrefix_iff_prefix: "HasPrefix s p \<longleftrightarrow> prefix p s"
  by (auto simp: HasPrefix_def prefix_def) (metis append_take_drop_id)

lemma HasPrefix_append [simp]: "HasPrefix (p @ s) p"
  by (simp add: HasPrefix_def)

lemma HasPrefix_Nil [simp]: "HasPrefix s []"
  by (simp add: HasPrefix_def)

lemma Nil_HasPrefix [simp]: "HasPrefix [] p \<longleftrightarrow> p = []"
  by (auto simp: HasPrefix_def)

lemma Contains_iff_sublist: "Contains s p \<longleftrightarrow> sublist p s"
proof (induction s)
  case Nil
  then show ?case by (simp add: Contains_def)
next
  case (Cons c s)
  then show ?case
    by (simp add: Contains_def HasPrefix_iff_prefix sublist_Cons_right)
qed

lemma Split_not_Nil [simp]: "Split s d \<noteq> []"
  by (induction s) (auto split: list.splits)

lemma Nil_not_Split [simp]: "[] \<noteq> Split s d"
  using Split_not_Nil [of s d] by metis

text \<open>Splitting and joining with the same separator is the identity.\<close>

lemma Join_Cons: "ss \<noteq> [] \<Longrightarrow> Join (s # ss) sep = s @ sep @ Join ss sep"
  by (cases ss) auto

lemma Join_Split: "Join (Split s d) [d] = s"
proof (induction s)
  case (Cons c s)
  then show ?case
    by (cases "Split s d"; cases "tl (Split s d)") (auto simp: Join_Cons)
qed simp

lemma Split_no_sep: "w \<in> set (Split s d) \<Longrightarrow> d \<notin> set w"
proof (induction s arbitrary: w)
  case (Cons c s)
  then show ?case
    by (cases "Split s d") (auto split: if_splits)
qed simp

lemma RemoveAll_Nil_old [simp]: "RemoveAll s [] = s"
  by (induction s) auto

section \<open>Unix file paths\<close>

definition slash :: char where "slash = CHR ''/''"

definition FilepathBase :: "string \<Rightarrow> string" where
  "FilepathBase path =
     (if path = [] then ''.''
      else let p = TrimRight path ''/'' in
        if p = [] then ''/'' else last (Split p slash))"

text \<open>\<open>filepath.Ext\<close>: from the last dot of the last element on, empty when there is none.\<close>

fun ext_rev :: "string \<Rightarrow> string \<Rightarrow> string" where
  "ext_rev acc [] = []"
| "ext_rev acc (c # cs) =
     (if c = slash then [] else if c = CHR ''.'' then c # acc else ext_rev (c # acc) cs)"

definition FilepathExt :: "string \<Rightarrow> string" where
  "FilepathExt path = ext_rev [] (rev path)"

definition FilepathIsAbs :: "string \<Rightarrow> bool" where
  "FilepathIsAbs path \<longleftrightarrow> HasPrefix path ''/''"

lemmas [go_simps] = FilepathBase_def FilepathExt_def FilepathIsAbs_def slash_def

section \<open>Maps with a zero value\<close>

definition mget :: "('k \<rightharpoonup> int) \<Rightarrow> 'k \<Rightarrow> int" where
  "mget m k = (case m k of None \<Rightarrow> 0 | Some v \<Rightarrow> v)"

definition minc :: "('k \<rightharpoonup> int) \<Rightarrow> 'k \<Rightarrow> ('k \<rightharpoonup> int)" where
  "minc m k = m(k \<mapsto> mget m k + 1)"

lemma mget_empty [simp]: "mget Map.empty k = 0"
  by (simp add: mget_def)

lemma mget_upd [simp]: "mget (m(k \<mapsto> v)) j = (if j = k then v else mget m j)"
  by (simp add: mget_def)

lemma mget_minc [simp]: "mget (minc m k) j = mget m j + (if j = k then 1 else 0)"
  by (simp add: minc_def)

lemma dom_minc [simp]: "dom (minc m k) = insert k (dom m)"
  by (simp add: minc_def)

text \<open>A Go map is visited in an unspecified order: an enumeration of its keys, each once.\<close>

definition enumerates :: "('k \<rightharpoonup> 'v) \<Rightarrow> 'k list \<Rightarrow> bool" where
  "enumerates m ks \<longleftrightarrow> distinct ks \<and> set ks = dom m"

section \<open>Three-way comparison\<close>

definition cmp_int :: "int \<Rightarrow> int \<Rightarrow> int" where
  "cmp_int a b = (if a < b then -1 else if a > b then 1 else 0)"

fun cmp_string :: "string \<Rightarrow> string \<Rightarrow> int" where
  "cmp_string [] [] = 0"
| "cmp_string [] (b # bs) = -1"
| "cmp_string (a # as) [] = 1"
| "cmp_string (a # as) (b # bs) =
     (if (of_char a :: nat) < of_char b then -1
      else if (of_char a :: nat) > of_char b then 1 else cmp_string as bs)"

text \<open>
  The contract of a comparator on a set \<open>A\<close> of values: the sign of \<open>cmp b a\<close> is opposite to the
  sign of \<open>cmp a b\<close>, and ``not greater'' is transitive. On \<open>A\<close> it is then a total preorder, what
  \<open>slices.SortFunc\<close> requires (``a strict weak ordering'').
\<close>

locale three_way =
  fixes cmp :: "'a \<Rightarrow> 'a \<Rightarrow> int" and A :: "'a set"
  assumes opposite: "a \<in> A \<Longrightarrow> b \<in> A \<Longrightarrow> sgn (cmp b a) = - sgn (cmp a b)"
    and le_trans: "a \<in> A \<Longrightarrow> b \<in> A \<Longrightarrow> c \<in> A \<Longrightarrow> cmp a b \<le> 0 \<Longrightarrow> cmp b c \<le> 0 \<Longrightarrow> cmp a c \<le> 0"
begin

lemma refl_zero: "a \<in> A \<Longrightarrow> cmp a a = 0"
  using opposite [of a a] by (simp add: sgn_if split: if_splits)

lemma total: "a \<in> A \<Longrightarrow> b \<in> A \<Longrightarrow> cmp a b \<le> 0 \<or> cmp b a \<le> 0"
  using opposite [of a b] by (auto simp: sgn_if split: if_splits)

lemma zero_sym: "a \<in> A \<Longrightarrow> b \<in> A \<Longrightarrow> cmp a b = 0 \<longleftrightarrow> cmp b a = 0"
  using opposite [of a b] by (auto simp: sgn_if split: if_splits)

lemma flip_le: "a \<in> A \<Longrightarrow> b \<in> A \<Longrightarrow> cmp a b \<le> 0 \<longleftrightarrow> 0 \<le> cmp b a"
  using opposite [of a b] by (auto simp: sgn_if split: if_splits)

lemma flip_less: "a \<in> A \<Longrightarrow> b \<in> A \<Longrightarrow> cmp a b < 0 \<longleftrightarrow> 0 < cmp b a"
  using opposite [of a b] by (auto simp: sgn_if split: if_splits)

lemma less_le_trans:
  assumes "a \<in> A" "b \<in> A" "c \<in> A" "cmp a b < 0" "cmp b c \<le> 0"
  shows "cmp a c < 0"
proof (rule ccontr)
  assume "\<not> cmp a c < 0"
  then have "cmp c a \<le> 0" using assms flip_le by (meson not_less)
  then have "cmp b a \<le> 0" using assms le_trans by blast
  then show False using assms flip_less by force
qed

lemma le_less_trans:
  assumes "a \<in> A" "b \<in> A" "c \<in> A" "cmp a b \<le> 0" "cmp b c < 0"
  shows "cmp a c < 0"
proof (rule ccontr)
  assume "\<not> cmp a c < 0"
  then have "cmp c a \<le> 0" using assms flip_le by (meson not_less)
  then have "cmp c b \<le> 0" using assms le_trans by blast
  then show False using assms flip_less by force
qed

end

interpretation int_cmp: three_way cmp_int UNIV
  by unfold_locales (auto simp: cmp_int_def split: if_splits)

lemma cmp_string_opposite: "cmp_string b a = - cmp_string a b"
  by (induction a b rule: cmp_string.induct) auto

lemma cmp_string_le_trans:
  "cmp_string a b \<le> 0 \<Longrightarrow> cmp_string b c \<le> 0 \<Longrightarrow> cmp_string a c \<le> 0"
proof (induction a b arbitrary: c rule: cmp_string.induct)
  case (2 b bs)
  then show ?case by (cases c) auto
next
  case (4 a as b bs)
  define na nb where "na = (of_char a :: nat)" and "nb = (of_char b :: nat)"
  show ?case
  proof (cases c)
    case (Cons d ds)
    have ab: "na < nb \<or> na = nb \<and> cmp_string as bs \<le> 0"
      using "4.prems"(1) by (simp add: na_def nb_def split: if_splits)
    have bd: "nb < of_char d \<or> nb = of_char d \<and> cmp_string bs ds \<le> 0"
      using "4.prems"(2) Cons by (simp add: nb_def split: if_splits)
    have "na < of_char d \<or> na = of_char d \<and> cmp_string as ds \<le> 0"
      using ab bd "4.IH" [of ds] by (auto simp: na_def nb_def)
    then show ?thesis using Cons by (auto simp: na_def)
  qed (use "4.prems" in simp)
next
  case 1
  then show ?case by (cases c) auto
qed auto

interpretation string_cmp: three_way cmp_string UNIV
proof unfold_locales
  show "sgn (cmp_string b a) = - sgn (cmp_string a b)" for a b
    by (simp add: cmp_string_opposite [of b a] sgn_minus)
qed (rule cmp_string_le_trans)

lemma cmp_string_zero_iff: "cmp_string a b = 0 \<longleftrightarrow> a = b"
proof (induction a b rule: cmp_string.induct)
  case (4 a as b bs)
  have "(of_char a :: nat) = of_char b \<longleftrightarrow> a = b" by simp
  with 4 show ?case by (cases "(of_char a :: nat) = of_char b") auto
qed auto

section \<open>Stable sorting\<close>

text \<open>\<open>sort.Stable\<close> on a total preorder given by \<open>Less\<close>: the result is determined, so the model
  is the insertion sort that moves an element before the first one that is not less than it.\<close>

fun insert_stable :: "('a \<Rightarrow> 'a \<Rightarrow> bool) \<Rightarrow> 'a \<Rightarrow> 'a list \<Rightarrow> 'a list" where
  "insert_stable lt x [] = [x]"
| "insert_stable lt x (y # ys) = (if lt y x then y # insert_stable lt x ys else x # y # ys)"

definition stable_sort :: "('a \<Rightarrow> 'a \<Rightarrow> bool) \<Rightarrow> 'a list \<Rightarrow> 'a list" where
  "stable_sort lt xs = foldr (insert_stable lt) xs []"

lemma mset_insert_stable [simp]: "mset (insert_stable lt x xs) = add_mset x (mset xs)"
  by (induction xs) auto

lemma mset_stable_sort [simp]: "mset (stable_sort lt xs) = mset xs"
  by (induction xs) (auto simp: stable_sort_def)

lemma set_stable_sort [simp]: "set (stable_sort lt xs) = set xs"
  by (metis mset_stable_sort set_mset_mset)

lemma length_stable_sort [simp]: "length (stable_sort lt xs) = length xs"
  by (metis mset_stable_sort size_mset)

lemma set_insert_stable [simp]: "set (insert_stable lt x xs) = insert x (set xs)"
  by (induction xs) auto

text \<open>The elements of one class of the preorder keep their order.\<close>

lemma filter_insert_stable:
  assumes "\<And>y. P y \<Longrightarrow> P x \<Longrightarrow> \<not> lt y x"
  shows "filter P (insert_stable lt x xs) = (if P x then x # filter P xs else filter P xs)"
  using assms by (induction xs) auto

lemma stable_sort_keeps_class:
  assumes "\<And>x y. P x \<Longrightarrow> P y \<Longrightarrow> \<not> lt y x"
  shows "filter P (stable_sort lt xs) = filter P xs"
  using assms by (induction xs) (auto simp: stable_sort_def filter_insert_stable)

text \<open>A comparison that is only lawful between different elements sorts a list without repetitions.\<close>

lemma sorted_insert_stable_on:
  assumes asym: "\<And>a b. a \<in> A \<Longrightarrow> b \<in> A \<Longrightarrow> a \<noteq> b \<Longrightarrow> lt a b \<Longrightarrow> \<not> lt b a"
    and trans: "\<And>a b c. a \<in> A \<Longrightarrow> b \<in> A \<Longrightarrow> c \<in> A \<Longrightarrow> a \<noteq> b \<Longrightarrow> b \<noteq> c \<Longrightarrow> a \<noteq> c \<Longrightarrow>
      \<not> lt b a \<Longrightarrow> \<not> lt c b \<Longrightarrow> \<not> lt c a"
  shows "sorted_wrt (\<lambda>a b. \<not> lt b a) ys \<Longrightarrow> distinct (x # ys) \<Longrightarrow> set (x # ys) \<subseteq> A \<Longrightarrow>
    sorted_wrt (\<lambda>a b. \<not> lt b a) (insert_stable lt x ys)"
proof (induction ys)
  case (Cons y ys)
  show ?case
  proof (cases "lt y x")
    case True
    then have "\<not> lt x y" using asym Cons.prems by auto
    with True Cons show ?thesis by auto
  next
    case False
    have "\<not> lt z x" if "z \<in> set ys" for z
      using that Cons.prems False trans [of x y z] by auto
    with False Cons.prems show ?thesis by auto
  qed
qed simp

lemma distinct_stable_sort [simp]: "distinct (stable_sort lt xs) = distinct xs"
  by (metis card_distinct distinct_card length_stable_sort set_stable_sort)

lemma sorted_stable_sort_on:
  assumes "\<And>a b. a \<in> A \<Longrightarrow> b \<in> A \<Longrightarrow> a \<noteq> b \<Longrightarrow> lt a b \<Longrightarrow> \<not> lt b a"
    and "\<And>a b c. a \<in> A \<Longrightarrow> b \<in> A \<Longrightarrow> c \<in> A \<Longrightarrow> a \<noteq> b \<Longrightarrow> b \<noteq> c \<Longrightarrow> a \<noteq> c \<Longrightarrow>
      \<not> lt b a \<Longrightarrow> \<not> lt c b \<Longrightarrow> \<not> lt c a"
  shows "distinct xs \<Longrightarrow> set xs \<subseteq> A \<Longrightarrow> sorted_wrt (\<lambda>a b. \<not> lt b a) (stable_sort lt xs)"
proof (induction xs)
  case (Cons x xs)
  have "stable_sort lt (x # xs) = insert_stable lt x (stable_sort lt xs)" by (simp add: stable_sort_def)
  moreover have "sorted_wrt (\<lambda>a b. \<not> lt b a) (insert_stable lt x (stable_sort lt xs))"
    by (rule sorted_insert_stable_on [OF assms]) (use Cons in auto)
  ultimately show ?case by simp
qed (simp add: stable_sort_def)

text \<open>An element that is above all others ends up last.\<close>

lemma sorted_last:
  assumes "sorted_wrt (\<lambda>a b. \<not> lt b a) xs" "distinct xs" "m \<in> set xs" "\<And>x. x \<in> set xs \<Longrightarrow> x \<noteq> m \<Longrightarrow> lt x m"
  shows "last xs = m"
  using assms
proof (induction xs)
  case (Cons x xs)
  show ?case
  proof (cases "x = m")
    case True
    have "xs = []"
    proof (rule ccontr)
      assume "xs \<noteq> []"
      then have h: "hd xs \<in> set xs" by simp
      then have "hd xs \<noteq> m" using Cons.prems(2) True by auto
      then have "lt (hd xs) m" using Cons.prems(4) [of "hd xs"] h by simp
      then show False using Cons.prems(1) True h by auto
    qed
    then show ?thesis using True by simp
  next
    case False
    then show ?thesis using Cons by auto
  qed
qed simp

locale less_preorder =
  fixes lt :: "'a \<Rightarrow> 'a \<Rightarrow> bool"
  assumes less_asym: "lt a b \<Longrightarrow> \<not> lt b a"
    and nless_trans: "\<not> lt b a \<Longrightarrow> \<not> lt c b \<Longrightarrow> \<not> lt c a"
begin

lemma sorted_insert_stable:
  "sorted_wrt (\<lambda>a b. \<not> lt b a) xs \<Longrightarrow> sorted_wrt (\<lambda>a b. \<not> lt b a) (insert_stable lt x xs)"
proof (induction xs)
  case (Cons y ys)
  show ?case
  proof (cases "lt y x")
    case True
    with Cons show ?thesis by (auto dest: less_asym)
  next
    case False
    with Cons.prems have "\<not> lt z x" if "z \<in> set ys" for z
      using that nless_trans [of y x z] by simp
    with False Cons.prems show ?thesis by auto
  qed
qed simp

lemma sorted_stable_sort: "sorted_wrt (\<lambda>a b. \<not> lt b a) (stable_sort lt xs)"
  by (induction xs) (auto simp: stable_sort_def sorted_insert_stable)

lemma stable_sort_id: "sorted_wrt (\<lambda>a b. \<not> lt b a) xs \<Longrightarrow> stable_sort lt xs = xs"
proof (induction xs)
  case (Cons x xs)
  then have "stable_sort lt xs = xs" by simp
  with Cons.prems show ?case
    by (cases xs) (auto simp: stable_sort_def)
qed (simp add: stable_sort_def)

end

section \<open>Logging\<close>

text \<open>A call of the logger: its level, its format string and its arguments as text; numbers are
  kept as numbers.\<close>

datatype log_arg = LStr string | LInt int

datatype log_call = Infof string "log_arg list" | Warnf string "log_arg list" | Errorf string "log_arg list"

section \<open>Sequences of issues, options and sums\<close>

lemma mset_filter_subset: "mset (filter P xs) \<subseteq># mset xs"
  by (simp add: mset_filter multiset_filter_subset)

lemma subseq_mset: "subseq xs ys \<Longrightarrow> mset xs \<subseteq># mset ys"
  by (induction rule: list_emb.induct) (auto intro: subset_mset.order_trans)

lemma subseq_set: "subseq xs ys \<Longrightarrow> set xs \<subseteq> set ys"
  by (metis mset_subset_eqD set_mset_mset subseq_mset subsetI)

lemma count_list_filter: "count_list (filter P xs) x = (if P x then count_list xs x else 0)"
  by (induction xs) auto

section \<open>Computations with errors, state and fuel\<close>

text \<open>\<open>None\<close> is the answer of a computation that runs out of fuel. A step that fails ends the computation with its error; an error can be wrapped.\<close>

definition thenR :: "(('e + 'a) \<times> 's) option \<Rightarrow> ('a \<Rightarrow> 's \<Rightarrow> (('e + 'b) \<times> 's) option) \<Rightarrow> (('e + 'b) \<times> 's) option" where
  "thenR r k = (case r of
       None \<Rightarrow> None
     | Some (Inl e, s) \<Rightarrow> Some (Inl e, s)
     | Some (Inr a, s) \<Rightarrow> k a s)"

definition mapErr :: "('e \<Rightarrow> 'f) \<Rightarrow> (('e + 'a) \<times> 's) option \<Rightarrow> (('f + 'a) \<times> 's) option" where
  "mapErr f r = map_option (map_prod (map_sum f id) id) r"

lemma thenR_cong [fundef_cong]:
  "r = r' \<Longrightarrow> (\<And>a s. r' = Some (Inr a, s) \<Longrightarrow> k a s = k' a s) \<Longrightarrow> thenR r k = thenR r' k'"
  by (auto simp: thenR_def split: option.splits sum.splits prod.splits)

lemma thenR_simps [simp]:
  "thenR None k = None" "thenR (Some (Inl e, s)) k = Some (Inl e, s)" "thenR (Some (Inr a, s)) k = k a s"
  by (simp_all add: thenR_def)

end
