(* ===== verification/Result_Issue.thy ===== *)
theory Result_Issue
  imports Go_Prelude
begin

text \<open>
  The issue of a linter (\<open>pkg/result/issue.go\<close>) and the four helpers every processor of the
  result pipeline is written with (\<open>pkg/result/processors/issues.go\<close>). The closures handed to
  the helpers read and write the state of their processor, so a helper threads that state.

  The locales at the end are the contracts of the \<open>Processor\<close> interface
  (\<open>pkg/result/processors/processor.go\<close>): a processor never invents issues
  (\<open>shrinking_processor\<close>), a filter returns some of the issues it was given
  (\<open>filter_processor\<close>), and a filter built on the ``safe'' helpers keeps every issue of
  \<open>typecheck\<close> (\<open>typecheck_safe\<close>).
\<close>

section \<open>Issues\<close>

record Range =
  From :: int
  To :: int

record Position =
  Filename :: string
  Offset :: int
  Line :: int
  Column :: int

text \<open>\<open>analysis.TextEdit\<close> and \<open>analysis.SuggestedFix\<close>, the data linters hand over.\<close>

record TextEdit =
  EditPos :: int
  EditEnd :: int
  NewText :: string

record SuggestedFix =
  Message :: string
  TextEdits :: "TextEdit list"

text \<open>\<open>Pkg\<close> is a pointer to the package of the issue: a reference number.\<close>

record Issue =
  FromLinter :: string
  Text :: string
  Severity :: string
  SourceLines :: "string list"
  Pkg :: "nat option"
  Pos :: Position
  LineRange :: "Range option"
  HunkPos :: int
  SuggestedFixes :: "SuggestedFix list"
  ExpectNoLint :: bool
  ExpectedNoLintLinter :: string
  WorkingDirectoryRelativePath :: string
  RelativePath :: string

definition FilePath :: "Issue \<Rightarrow> string" where
  "FilePath i = Filename (Pos i)"

definition issueLine :: "Issue \<Rightarrow> int" where
  "issueLine i = Line (Pos i)"

definition issueColumn :: "Issue \<Rightarrow> int" where
  "issueColumn i = Column (Pos i)"

definition GetLineRange :: "Issue \<Rightarrow> Range" where
  "GetLineRange i = (case LineRange i of
       None \<Rightarrow> \<lparr>From = issueLine i, To = issueLine i\<rparr>
     | Some r \<Rightarrow> (if From r = 0 then \<lparr>From = issueLine i, To = issueLine i\<rparr> else r))"

definition Description :: "Issue \<Rightarrow> string" where
  "Description i = FromLinter i @ '': '' @ Text i"

text \<open>The upper-case hexadecimal form of a byte string (\<open>%X\<close>).\<close>

definition hexDigit :: "nat \<Rightarrow> char" where
  "hexDigit n = (if n < 10 then char_of (48 + n) else char_of (55 + n))"

definition hexUpper :: "string \<Rightarrow> string" where
  "hexUpper s = concat (map (\<lambda>c. [hexDigit (of_char c div 16), hexDigit (of_char c mod 16)]) s)"

text \<open>The digest function is a parameter.\<close>

definition Fingerprint :: "(string \<Rightarrow> string) \<Rightarrow> Issue \<Rightarrow> string" where
  "Fingerprint md5 i =
     (let firstLine = (case SourceLines i of [] \<Rightarrow> [] | l # _ \<Rightarrow> l)
      in hexUpper (md5 (FilePath i @ Text i @ firstLine)))"

lemmas [go_simps] = FilePath_def issueLine_def issueColumn_def

text \<open>An issue with a linter, a text, a file and a line, used by concrete instances.\<close>

definition mkIssue :: "string \<Rightarrow> string \<Rightarrow> string \<Rightarrow> int \<Rightarrow> Issue" where
  "mkIssue linter text file line =
     \<lparr>FromLinter = linter, Text = text, Severity = [], SourceLines = [], Pkg = None,
      Pos = \<lparr>Filename = file, Offset = 0, Line = line, Column = 1\<rparr>, LineRange = None, HunkPos = 0,
      SuggestedFixes = [], ExpectNoLint = False, ExpectedNoLintLinter = [],
      WorkingDirectoryRelativePath = file, RelativePath = file\<rparr>"

section \<open>The helpers of the processors\<close>

definition typeCheckName :: string where
  "typeCheckName = ''typecheck''"

abbreviation is_typecheck :: "Issue \<Rightarrow> bool" where
  "is_typecheck i \<equiv> FromLinter i = typeCheckName"

fun filterIssues :: "('s \<Rightarrow> Issue \<Rightarrow> bool \<times> 's) \<Rightarrow> 's \<Rightarrow> Issue list \<Rightarrow> Issue list \<times> 's" where
  "filterIssues f s [] = ([], s)"
| "filterIssues f s (i # is) =
     (if is_typecheck i then (let (r, s') = filterIssues f s is in (i # r, s'))
      else (let (ok, s1) = f s i; (r, s2) = filterIssues f s1 is
            in (if ok then i # r else r, s2)))"

fun filterIssuesUnsafe :: "('s \<Rightarrow> Issue \<Rightarrow> bool \<times> 's) \<Rightarrow> 's \<Rightarrow> Issue list \<Rightarrow> Issue list \<times> 's" where
  "filterIssuesUnsafe f s [] = ([], s)"
| "filterIssuesUnsafe f s (i # is) =
     (let (ok, s1) = f s i; (r, s2) = filterIssuesUnsafe f s1 is
      in (if ok then i # r else r, s2))"

text \<open>
  The errors of processors: an issue that could not be filtered (with the error of the closure),
  a sort order that is not supported, changes that could not be computed.
\<close>

datatype proc_error =
    CantFilterIssue Issue string
  | UnsupportedSortOrder string
  | CantPrepareDiff string

text \<open>On the first error of the closure the result is that error, with the issue, and no issues.\<close>

fun filterIssuesErr ::
  "('s \<Rightarrow> Issue \<Rightarrow> (string + bool) \<times> 's) \<Rightarrow> 's \<Rightarrow> Issue list \<Rightarrow> (proc_error + Issue list) \<times> 's" where
  "filterIssuesErr f s [] = (Inr [], s)"
| "filterIssuesErr f s (i # is) =
     (if is_typecheck i then
        (case filterIssuesErr f s is of
           (Inl e, s') \<Rightarrow> (Inl e, s')
         | (Inr r, s') \<Rightarrow> (Inr (i # r), s'))
      else
        (case f s i of
           (Inl e, s1) \<Rightarrow> (Inl (CantFilterIssue i e), s1)
         | (Inr ok, s1) \<Rightarrow>
             (case filterIssuesErr f s1 is of
                (Inl e, s2) \<Rightarrow> (Inl e, s2)
              | (Inr r, s2) \<Rightarrow> (Inr (if ok then i # r else r), s2))))"

text \<open>The closure of \<open>transformIssues\<close> returns \<^const>\<open>None\<close> for Go's \<open>nil\<close>.\<close>

fun transformIssues :: "('s \<Rightarrow> Issue \<Rightarrow> Issue option \<times> 's) \<Rightarrow> 's \<Rightarrow> Issue list \<Rightarrow> Issue list \<times> 's" where
  "transformIssues f s [] = ([], s)"
| "transformIssues f s (i # is) =
     (let (n, s1) = f s i; (r, s2) = transformIssues f s1 is
      in (case n of None \<Rightarrow> r | Some j \<Rightarrow> j # r, s2))"

section \<open>Facts about the helpers\<close>

lemma filterIssues_subseq: "filterIssues f s is = (os, s') \<Longrightarrow> subseq os is"
  by (induction f s "is" arbitrary: os s' rule: filterIssues.induct)
     (auto simp: Let_def split: prod.splits if_splits)

lemma filterIssuesUnsafe_subseq: "filterIssuesUnsafe f s is = (os, s') \<Longrightarrow> subseq os is"
  by (induction f s "is" arbitrary: os s' rule: filterIssuesUnsafe.induct)
     (auto simp: Let_def split: prod.splits if_splits)

lemma filterIssuesErr_subseq: "filterIssuesErr f s is = (Inr os, s') \<Longrightarrow> subseq os is"
  by (induction f s "is" arbitrary: os s' rule: filterIssuesErr.induct)
     (auto split: prod.splits sum.splits if_splits)

lemma filterIssues_keeps_typecheck:
  "filterIssues f s is = (os, s') \<Longrightarrow> filter is_typecheck os = filter is_typecheck is"
  by (induction f s "is" arbitrary: os s' rule: filterIssues.induct)
     (auto simp: Let_def split: prod.splits if_splits)

lemma filterIssuesErr_keeps_typecheck:
  "filterIssuesErr f s is = (Inr os, s') \<Longrightarrow> filter is_typecheck os = filter is_typecheck is"
  by (induction f s "is" arbitrary: os s' rule: filterIssuesErr.induct)
     (auto split: prod.splits sum.splits if_splits)

lemma transformIssues_length: "transformIssues f s is = (os, s') \<Longrightarrow> length os \<le> length is"
  by (induction f s "is" arbitrary: os s' rule: transformIssues.induct)
     (fastforce simp: Let_def split: prod.splits option.splits)+

text \<open>A closure that only reads its state filters or maps the list.\<close>

lemma filterIssues_pure:
  "(\<And>i. f s i = (p i, s)) \<Longrightarrow> filterIssues f s is = (filter (\<lambda>i. is_typecheck i \<or> p i) is, s)"
  by (induction "is") auto

lemma filterIssuesUnsafe_pure:
  "(\<And>i. f s i = (p i, s)) \<Longrightarrow> filterIssuesUnsafe f s is = (filter p is, s)"
  by (induction "is") auto

lemma filterIssuesErr_pure:
  "(\<And>i. f s i = (Inr (p i), s)) \<Longrightarrow>
   filterIssuesErr f s is = (Inr (filter (\<lambda>i. is_typecheck i \<or> p i) is), s)"
  by (induction "is") auto

lemma transformIssues_pure:
  "(\<And>i. f s i = (g i, s)) \<Longrightarrow> transformIssues f s is = (List.map_filter g is, s)"
  by (induction "is") (auto simp: map_filter_simps split: option.splits)

lemma transformIssues_total:
  "(\<And>i. f s i = (Some (g i), s)) \<Longrightarrow> transformIssues f s is = (map g is, s)"
  by (induction "is") auto

text \<open>A closure whose answer is determined by an invariant of its state.\<close>

lemma filterIssues_by_inv:
  assumes step: "\<And>s i. Q s \<Longrightarrow> fst (f s i) = P i \<and> Q (snd (f s i))"
  shows "Q s \<Longrightarrow> fst (filterIssues f s is) = filter (\<lambda>i. is_typecheck i \<or> P i) is"
  by (induction "is" arbitrary: s) (simp_all add: Let_def case_prod_unfold step)

lemma filterIssuesErr_by_inv:
  assumes step: "\<And>s i. Q s \<Longrightarrow> fst (f s i) = Inr (P i) \<and> Q (snd (f s i))"
  shows "Q s \<Longrightarrow> fst (filterIssuesErr f s is) = Inr (filter (\<lambda>i. is_typecheck i \<or> P i) is)"
proof (induction "is" arbitrary: s)
  case (Cons i "is")
  then have "fst (filterIssuesErr f (snd (f s i)) is) = Inr (filter (\<lambda>i. is_typecheck i \<or> P i) is)"
    and "fst (filterIssuesErr f s is) = Inr (filter (\<lambda>i. is_typecheck i \<or> P i) is)"
    using step by blast+
  then show ?case
    using step [OF Cons.prems, of i] by (auto simp: case_prod_unfold split: sum.split)
qed simp

text \<open>The same for the issues of one class only, when the closure has no errors.\<close>

lemma filterIssuesErr_class:
  assumes total: "\<And>s i. \<exists>ok. fst (f s i) = Inr ok"
    and keep: "\<And>s i. Q s \<Longrightarrow> i \<in> set is \<Longrightarrow> Q (snd (f s i))"
    and ans: "\<And>s i. Q s \<Longrightarrow> i \<in> set is \<Longrightarrow> S i \<Longrightarrow> fst (f s i) = Inr (P i)"
  shows "Q s \<Longrightarrow> \<exists>os s'. filterIssuesErr f s is = (Inr os, s') \<and> Q s' \<and>
           filter S os = filter (\<lambda>i. S i \<and> (is_typecheck i \<or> P i)) is"
  using keep ans
proof (induction "is" arbitrary: s)
  case (Cons i "is")
  obtain ok s1 where r: "f s i = (Inr ok, s1)"
    using total [of s i] by (metis prod.collapse)
  have q1: "Q s1" using Cons.prems(2) [OF Cons.prems(1), of i] r by simp
  have "\<exists>os s'. filterIssuesErr f t is = (Inr os, s') \<and> Q s' \<and>
           filter S os = filter (\<lambda>i. S i \<and> (is_typecheck i \<or> P i)) is" if "Q t" for t
    by (rule Cons.IH [OF that]) (simp_all add: Cons.prems(2,3))
  from this [OF q1] this [OF Cons.prems(1)] obtain os s' qs t where
    *: "filterIssuesErr f s1 is = (Inr os, s')" "Q s'"
      "filter S os = filter (\<lambda>i. S i \<and> (is_typecheck i \<or> P i)) is"
      "filterIssuesErr f s is = (Inr qs, t)" "Q t"
      "filter S qs = filter (\<lambda>i. S i \<and> (is_typecheck i \<or> P i)) is" by blast
  have "S i \<Longrightarrow> ok = P i" using r Cons.prems(3) [OF Cons.prems(1), of i] by simp
  with r * show ?case by (cases "is_typecheck i") simp_all
qed simp

lemma filterIssuesErr_append:
  "filterIssuesErr f s xs = (Inr os, s1) \<Longrightarrow> filterIssuesErr f s1 ys = (Inr qs, s2) \<Longrightarrow>
   filterIssuesErr f s (xs @ ys) = (Inr (os @ qs), s2)"
proof (induction xs arbitrary: s os)
  case (Cons x xs)
  show ?case
  proof (cases "is_typecheck x")
    case True
    then obtain r where "filterIssuesErr f s xs = (Inr r, s1)" "os = x # r"
      using Cons.prems(1) by (auto split: prod.splits sum.splits)
    with Cons.IH [OF _ Cons.prems(2)] True show ?thesis by simp
  next
    case False
    then obtain ok s0 r where "f s x = (Inr ok, s0)" "filterIssuesErr f s0 xs = (Inr r, s1)"
      "os = (if ok then x # r else r)"
      using Cons.prems(1) by (auto split: prod.splits sum.splits)
    with Cons.IH [OF _ Cons.prems(2)] False show ?thesis by simp
  qed
qed simp

lemma transformIssues_by_inv:
  assumes step: "\<And>s i. Q s \<Longrightarrow> fst (f s i) = Some (g i) \<and> Q (snd (f s i))"
  shows "Q s \<Longrightarrow> fst (transformIssues f s is) = map g is"
  by (induction "is" arbitrary: s) (simp_all add: Let_def case_prod_unfold step)

text \<open>Invariants of the threaded state.\<close>

lemma filterIssuesUnsafe_state_inv:
  assumes step: "\<And>s i. Q s \<Longrightarrow> Q (snd (f s i))"
  shows "Q s \<Longrightarrow> Q (snd (filterIssuesUnsafe f s is))"
  by (induction "is" arbitrary: s) (simp_all add: Let_def case_prod_unfold step)

lemma filterIssues_state_inv:
  assumes step: "\<And>s i. Q s \<Longrightarrow> Q (snd (f s i))"
  shows "Q s \<Longrightarrow> Q (snd (filterIssues f s is))"
  by (induction "is" arbitrary: s) (simp_all add: Let_def case_prod_unfold step)

lemma filterIssuesErr_state_inv:
  assumes step: "\<And>s i. Q s \<Longrightarrow> Q (snd (f s i))"
  shows "Q s \<Longrightarrow> Q (snd (filterIssuesErr f s is))"
proof (induction "is" arbitrary: s)
  case (Cons i "is")
  then show ?case
    using step [of s i] by (auto simp: case_prod_unfold split: sum.split)
qed simp

lemma transformIssues_state_inv:
  assumes step: "\<And>s i. Q s \<Longrightarrow> Q (snd (f s i))"
  shows "Q s \<Longrightarrow> Q (snd (transformIssues f s is))"
  by (induction "is" arbitrary: s) (simp_all add: Let_def case_prod_unfold step)

section \<open>Contracts of the Processor interface\<close>

locale shrinking_processor =
  fixes Process :: "'s \<Rightarrow> Issue list \<Rightarrow> (proc_error + Issue list) \<times> 's"
  assumes shrinks: "Process s is = (Inr os, s') \<Longrightarrow> length os \<le> length is"
begin

lemma nothing_from_nothing: "Process s [] = (Inr os, s') \<Longrightarrow> os = []"
  using shrinks [of s "[]" os s'] by simp

end

locale filter_processor =
  fixes Process :: "'s \<Rightarrow> Issue list \<Rightarrow> (proc_error + Issue list) \<times> 's"
  assumes selects: "Process s is = (Inr os, s') \<Longrightarrow> mset os \<subseteq># mset is"
begin

lemma selects_length: "Process s is = (Inr os, s') \<Longrightarrow> length os \<le> length is"
  using selects [of s "is" os s'] by (metis size_mset size_mset_mono)

lemma selects_member: "Process s is = (Inr os, s') \<Longrightarrow> i \<in> set os \<Longrightarrow> i \<in> set is"
  using selects [of s "is" os s'] by (metis mset_subset_eqD set_mset_mset)

end

sublocale filter_processor \<subseteq> shrinking_processor
  by unfold_locales (rule selects_length)

locale typecheck_safe = filter_processor Process
  for Process :: "'s \<Rightarrow> Issue list \<Rightarrow> (proc_error + Issue list) \<times> 's" +
  assumes keeps_typecheck:
    "Process s is = (Inr os, s') \<Longrightarrow> filter_mset is_typecheck (mset os) = filter_mset is_typecheck (mset is)"
begin

lemma typecheck_survives:
  assumes "Process s is = (Inr os, s')" "i \<in> set is" "is_typecheck i"
  shows "i \<in> set os"
proof -
  have "i \<in># filter_mset is_typecheck (mset is)" using assms by simp
  then have "i \<in># filter_mset is_typecheck (mset os)" using keeps_typecheck [OF assms(1)] by simp
  then show ?thesis by simp
qed

end

end
