(* ===== verification/Limits.thy ===== *)
theory Limits
  imports Result_Issue
begin

text \<open>
  The processors that limit how many issues are shown: \<open>max_same_issues.go\<close>,
  \<open>max_from_linter.go\<close>, \<open>max_per_file_from_linter.go\<close> and \<open>uniq_by_line.go\<close> of
  \<open>pkg/result/processors\<close>. Each keeps counters per key (the text, the linter, the file and the
  linter, the file and the line) and lets an issue pass while there is room for its key.

  The locale \<open>keyed_limiter\<close> states that contract over an abstract ``room'' per key; its
  lemmas say which issues survive: for every key the first ones, as many as there was room for.
  All four processors are interpretations.
\<close>

section \<open>The contract of a limiter\<close>

locale keyed_limiter =
  fixes pass :: "'s \<Rightarrow> Issue \<Rightarrow> bool \<times> 's"
    and limited :: "'s \<Rightarrow> Issue \<Rightarrow> bool"
    and key :: "Issue \<Rightarrow> 'k"
    and room :: "'s \<Rightarrow> 'k \<Rightarrow> nat"
    and inv :: "'s \<Rightarrow> bool"
  assumes pass_limited: "inv s \<Longrightarrow> limited s i \<Longrightarrow> fst (pass s i) \<longleftrightarrow> 0 < room s (key i)"
    and pass_unlimited: "inv s \<Longrightarrow> \<not> limited s i \<Longrightarrow> fst (pass s i)"
    and room_pass: "inv s \<Longrightarrow> room (snd (pass s i)) k = room s k - (if limited s i \<and> k = key i then 1 else 0)"
    and limited_pass: "inv s \<Longrightarrow> limited (snd (pass s i)) j = limited s j"
    and inv_pass: "inv s \<Longrightarrow> inv (snd (pass s i))"
begin

lemma limit_take:
  assumes "inv s"
  shows "filter (\<lambda>i. limited s i \<and> key i = k) (fst (filterIssuesUnsafe pass s is)) =
         take (room s k) (filter (\<lambda>i. limited s i \<and> key i = k) is)"
  using assms
proof (induction "is" arbitrary: s)
  case (Cons i "is")
  let ?s = "snd (pass s i)"
  have IH: "filter (\<lambda>i. limited s i \<and> key i = k) (fst (filterIssuesUnsafe pass ?s is)) =
      take (room ?s k) (filter (\<lambda>i. limited s i \<and> key i = k) is)"
    using Cons.IH [OF inv_pass [OF Cons.prems]] by (simp add: limited_pass [OF Cons.prems])
  show ?case
  proof (cases "limited s i \<and> key i = k")
    case True
    then show ?thesis
      using IH pass_limited [OF Cons.prems, of i] room_pass [OF Cons.prems, of i k]
      by (cases "room s k") (simp_all add: Let_def case_prod_unfold)
  next
    case False
    then show ?thesis
      using IH room_pass [OF Cons.prems, of i k] by (auto simp: Let_def case_prod_unfold)
  qed
qed simp

lemma unlimited_kept:
  assumes "inv s"
  shows "filter (\<lambda>i. \<not> limited s i) (fst (filterIssuesUnsafe pass s is)) = filter (\<lambda>i. \<not> limited s i) is"
  using assms
proof (induction "is" arbitrary: s)
  case (Cons i "is")
  let ?s = "snd (pass s i)"
  have IH: "filter (\<lambda>i. \<not> limited s i) (fst (filterIssuesUnsafe pass ?s is)) = filter (\<lambda>i. \<not> limited s i) is"
    using Cons.IH [OF inv_pass [OF Cons.prems]] by (simp add: limited_pass [OF Cons.prems])
  then show ?case
    using pass_unlimited [OF Cons.prems, of i] by (auto simp: Let_def case_prod_unfold)
qed simp

lemma limit_count:
  assumes "inv s"
  shows "length (filter (\<lambda>i. limited s i \<and> key i = k) (fst (filterIssuesUnsafe pass s is))) \<le> room s k"
  by (simp add: limit_take [OF assms])

lemma inv_run: "inv s \<Longrightarrow> inv (snd (filterIssuesUnsafe pass s is))"
  by (rule filterIssuesUnsafe_state_inv) (auto intro: inv_pass)

end

section \<open>MaxSameIssues\<close>

record MaxSameIssues =
  textCounter :: "string \<rightharpoonup> int"
  sameLimit :: int

definition NewMaxSameIssues :: "int \<Rightarrow> MaxSameIssues" where
  "NewMaxSameIssues limit = \<lparr>textCounter = Map.empty, sameLimit = limit\<rparr>"

definition MaxSameIssues_pass :: "MaxSameIssues \<Rightarrow> Issue \<Rightarrow> bool \<times> MaxSameIssues" where
  "MaxSameIssues_pass p i =
     (let p' = p\<lparr>textCounter := minc (textCounter p) (Text i)\<rparr>
      in (mget (textCounter p') (Text i) \<le> sameLimit p', p'))"

definition MaxSameIssues_Process ::
  "MaxSameIssues \<Rightarrow> Issue list \<Rightarrow> (proc_error + Issue list) \<times> MaxSameIssues" where
  "MaxSameIssues_Process p is =
     (if sameLimit p \<le> 0 then (Inr is, p)
      else let (os, p') = filterIssuesUnsafe MaxSameIssues_pass p is in (Inr os, p'))"

text \<open>
  \<open>walkStringToIntMapSortedByValue\<close>: \<open>ks\<close> is the order in which the map is visited and
  \<open>sortSlice\<close> the sorting function, which is not stable; the entries are handed to \<open>walk\<close> in the
  order of the sorted slice.
\<close>

type_synonym kv = "string \<times> int"

definition walkStringToIntMapSortedByValue ::
  "((kv \<Rightarrow> kv \<Rightarrow> bool) \<Rightarrow> kv list \<Rightarrow> kv list) \<Rightarrow> string list \<Rightarrow> (string \<rightharpoonup> int)
    \<Rightarrow> (string \<Rightarrow> int \<Rightarrow> log_call list) \<Rightarrow> log_call list" where
  "walkStringToIntMapSortedByValue sortSlice ks m walk =
     concat (map (\<lambda>(k, v). walk k v) (sortSlice (\<lambda>a b. snd a > snd b) (map (\<lambda>k. (k, mget m k)) ks)))"

definition MaxSameIssues_Finish ::
  "((kv \<Rightarrow> kv \<Rightarrow> bool) \<Rightarrow> kv list \<Rightarrow> kv list) \<Rightarrow> string list \<Rightarrow> MaxSameIssues \<Rightarrow> log_call list" where
  "MaxSameIssues_Finish sortSlice ks p =
     walkStringToIntMapSortedByValue sortSlice ks (textCounter p) (\<lambda>text count.
       if count > sameLimit p
       then [Infof ''%d/%d issues with text %q were hidden, use --max-same-issues''
               [LInt (count - sameLimit p), LInt count, LStr text]]
       else [])"

section \<open>MaxFromLinter\<close>

record MaxFromLinter =
  linterCounter :: "string \<rightharpoonup> int"
  linterLimit :: int

definition NewMaxFromLinter :: "int \<Rightarrow> MaxFromLinter" where
  "NewMaxFromLinter limit = \<lparr>linterCounter = Map.empty, linterLimit = limit\<rparr>"

definition MaxFromLinter_pass :: "MaxFromLinter \<Rightarrow> Issue \<Rightarrow> bool \<times> MaxFromLinter" where
  "MaxFromLinter_pass p i =
     (let p' = p\<lparr>linterCounter := minc (linterCounter p) (FromLinter i)\<rparr>
      in (mget (linterCounter p') (FromLinter i) \<le> linterLimit p', p'))"

definition MaxFromLinter_Process ::
  "MaxFromLinter \<Rightarrow> Issue list \<Rightarrow> (proc_error + Issue list) \<times> MaxFromLinter" where
  "MaxFromLinter_Process p is =
     (if linterLimit p \<le> 0 then (Inr is, p)
      else let (os, p') = filterIssuesUnsafe MaxFromLinter_pass p is in (Inr os, p'))"

definition MaxFromLinter_Finish ::
  "((kv \<Rightarrow> kv \<Rightarrow> bool) \<Rightarrow> kv list \<Rightarrow> kv list) \<Rightarrow> string list \<Rightarrow> MaxFromLinter \<Rightarrow> log_call list" where
  "MaxFromLinter_Finish sortSlice ks p =
     walkStringToIntMapSortedByValue sortSlice ks (linterCounter p) (\<lambda>linter count.
       if count > linterLimit p
       then [Infof ''%d/%d issues from linter %s were hidden, use --max-issues-per-linter''
               [LInt (count - linterLimit p), LInt count, LStr linter]]
       else [])"

section \<open>MaxPerFileFromLinter\<close>

type_synonym fileLinterCounter = "string \<rightharpoonup> (string \<rightharpoonup> int)"

text \<open>\<open>getCounter\<close> stores an empty inner map on the first access of a file.\<close>

definition fileLinterCounter_getCounter ::
  "fileLinterCounter \<Rightarrow> Issue \<Rightarrow> (string \<rightharpoonup> int) \<times> fileLinterCounter" where
  "fileLinterCounter_getCounter f i = (case f (FilePath i) of
       None \<Rightarrow> (Map.empty, f(FilePath i \<mapsto> Map.empty))
     | Some lc \<Rightarrow> (lc, f))"

definition fileLinterCounter_GetCount ::
  "fileLinterCounter \<Rightarrow> Issue \<Rightarrow> int \<times> fileLinterCounter" where
  "fileLinterCounter_GetCount f i =
     (let (lc, f') = fileLinterCounter_getCounter f i in (mget lc (FromLinter i), f'))"

definition fileLinterCounter_Increment :: "fileLinterCounter \<Rightarrow> Issue \<Rightarrow> fileLinterCounter" where
  "fileLinterCounter_Increment f i =
     (let (lc, f') = fileLinterCounter_getCounter f i in f'(FilePath i \<mapsto> minc lc (FromLinter i)))"

record MaxPerFileFromLinter =
  flCounter :: fileLinterCounter
  maxPerFileFromLinterConfig :: "string \<rightharpoonup> int"

definition NewMaxPerFileFromLinter :: "bool \<Rightarrow> MaxPerFileFromLinter" where
  "NewMaxPerFileFromLinter needFix =
     \<lparr>flCounter = Map.empty,
      maxPerFileFromLinterConfig =
        (if needFix then Map.empty
         else map_of (map (\<lambda>f. (f, 1))
           [''gofmt'', ''gofumpt'', ''goimports'', ''gci'', ''golines'', ''swaggo'']))\<rparr>"

definition MaxPerFileFromLinter_pass ::
  "MaxPerFileFromLinter \<Rightarrow> Issue \<Rightarrow> bool \<times> MaxPerFileFromLinter" where
  "MaxPerFileFromLinter_pass p i =
     (let limit = mget (maxPerFileFromLinterConfig p) (FromLinter i) in
      if limit = 0 then (True, p)
      else let (n, f) = fileLinterCounter_GetCount (flCounter p) i; p' = p\<lparr>flCounter := f\<rparr> in
        if n \<ge> limit then (False, p')
        else (True, p'\<lparr>flCounter := fileLinterCounter_Increment f i\<rparr>))"

definition MaxPerFileFromLinter_Process ::
  "MaxPerFileFromLinter \<Rightarrow> Issue list \<Rightarrow> (proc_error + Issue list) \<times> MaxPerFileFromLinter" where
  "MaxPerFileFromLinter_Process p is =
     (let (os, p') = filterIssuesUnsafe MaxPerFileFromLinter_pass p is in (Inr os, p'))"

section \<open>UniqByLine\<close>

type_synonym fileLineCounter = "string \<rightharpoonup> (int \<rightharpoonup> int)"

definition uniqByLineLimit :: int where
  "uniqByLineLimit = 1"

definition fileLineCounter_getCounter ::
  "fileLineCounter \<Rightarrow> Issue \<Rightarrow> (int \<rightharpoonup> int) \<times> fileLineCounter" where
  "fileLineCounter_getCounter f i = (case f (FilePath i) of
       None \<Rightarrow> (Map.empty, f(FilePath i \<mapsto> Map.empty))
     | Some lc \<Rightarrow> (lc, f))"

definition fileLineCounter_GetCount ::
  "fileLineCounter \<Rightarrow> Issue \<Rightarrow> int \<times> fileLineCounter" where
  "fileLineCounter_GetCount f i =
     (let (lc, f') = fileLineCounter_getCounter f i in (mget lc (issueLine i), f'))"

definition fileLineCounter_Increment :: "fileLineCounter \<Rightarrow> Issue \<Rightarrow> fileLineCounter" where
  "fileLineCounter_Increment f i =
     (let (lc, f') = fileLineCounter_getCounter f i in f'(FilePath i \<mapsto> minc lc (issueLine i)))"

record UniqByLine =
  lineCounter :: fileLineCounter
  uniqEnabled :: bool

definition NewUniqByLine :: "bool \<Rightarrow> UniqByLine" where
  "NewUniqByLine enable = \<lparr>lineCounter = Map.empty, uniqEnabled = enable\<rparr>"

definition UniqByLine_shouldPassIssue :: "UniqByLine \<Rightarrow> Issue \<Rightarrow> bool \<times> UniqByLine" where
  "UniqByLine_shouldPassIssue p i =
     (let (n, f) = fileLineCounter_GetCount (lineCounter p) i; p' = p\<lparr>lineCounter := f\<rparr> in
      if n = uniqByLineLimit then (False, p')
      else (True, p'\<lparr>lineCounter := fileLineCounter_Increment f i\<rparr>))"

definition UniqByLine_Process ::
  "UniqByLine \<Rightarrow> Issue list \<Rightarrow> (proc_error + Issue list) \<times> UniqByLine" where
  "UniqByLine_Process p is =
     (if \<not> uniqEnabled p then (Inr is, p)
      else let (os, p') = filterIssuesUnsafe UniqByLine_shouldPassIssue p is in (Inr os, p'))"

section \<open>The processors satisfy the contract\<close>

lemma New_limits [simp]:
  "textCounter (NewMaxSameIssues limit) = Map.empty" "sameLimit (NewMaxSameIssues limit) = limit"
  "linterCounter (NewMaxFromLinter limit) = Map.empty" "linterLimit (NewMaxFromLinter limit) = limit"
  "flCounter (NewMaxPerFileFromLinter needFix) = Map.empty"
  "lineCounter (NewUniqByLine enable) = Map.empty" "uniqEnabled (NewUniqByLine enable) = enable"
  by (simp_all add: NewMaxSameIssues_def NewMaxFromLinter_def NewMaxPerFileFromLinter_def NewUniqByLine_def)

text \<open>A nested map of counters: the number stored under a file and an inner key.\<close>

definition nget :: "(string \<rightharpoonup> ('k \<rightharpoonup> int)) \<Rightarrow> string \<times> 'k \<Rightarrow> int" where
  "nget f fk = (case f (fst fk) of None \<Rightarrow> 0 | Some lc \<Rightarrow> mget lc (snd fk))"

lemma fileLinterCounter_GetCount_simps [simp]:
  "fst (fileLinterCounter_GetCount f i) = nget f (FilePath i, FromLinter i)"
  "nget (snd (fileLinterCounter_GetCount f i)) = nget f"
  by (auto simp: fileLinterCounter_GetCount_def fileLinterCounter_getCounter_def nget_def fun_eq_iff
      split: option.splits)

lemma fileLinterCounter_Increment_nget [simp]:
  "nget (fileLinterCounter_Increment f i) fk =
   nget f fk + (if fk = (FilePath i, FromLinter i) then 1 else 0)"
  by (auto simp: fileLinterCounter_Increment_def fileLinterCounter_getCounter_def nget_def prod_eq_iff
      split: option.splits)

lemma fileLineCounter_GetCount_simps [simp]:
  "fst (fileLineCounter_GetCount f i) = nget f (FilePath i, issueLine i)"
  "nget (snd (fileLineCounter_GetCount f i)) = nget f"
  by (auto simp: fileLineCounter_GetCount_def fileLineCounter_getCounter_def nget_def fun_eq_iff
      split: option.splits)

lemma fileLineCounter_Increment_nget [simp]:
  "nget (fileLineCounter_Increment f i) fk =
   nget f fk + (if fk = (FilePath i, issueLine i) then 1 else 0)"
  by (auto simp: fileLineCounter_Increment_def fileLineCounter_getCounter_def nget_def prod_eq_iff
      split: option.splits)

interpretation same: keyed_limiter MaxSameIssues_pass "\<lambda>p i. True" Text
  "\<lambda>p t. nat (sameLimit p - mget (textCounter p) t)" "\<lambda>p. True"
  by unfold_locales (auto simp: MaxSameIssues_pass_def Let_def)

interpretation fromLinter: keyed_limiter MaxFromLinter_pass "\<lambda>p i. True" FromLinter
  "\<lambda>p l. nat (linterLimit p - mget (linterCounter p) l)" "\<lambda>p. True"
  by unfold_locales (auto simp: MaxFromLinter_pass_def Let_def)

interpretation perFile: keyed_limiter MaxPerFileFromLinter_pass
  "\<lambda>p i. mget (maxPerFileFromLinterConfig p) (FromLinter i) \<noteq> 0"
  "\<lambda>i. (FilePath i, FromLinter i)"
  "\<lambda>p fk. nat (mget (maxPerFileFromLinterConfig p) (snd fk) - nget (flCounter p) fk)" "\<lambda>p. True"
  by unfold_locales
    (auto simp: MaxPerFileFromLinter_pass_def Let_def case_prod_unfold)

interpretation uniq: keyed_limiter UniqByLine_shouldPassIssue "\<lambda>p i. True"
  "\<lambda>i. (FilePath i, issueLine i)" "\<lambda>p fk. nat (uniqByLineLimit - nget (lineCounter p) fk)"
  "\<lambda>p. \<forall>fk. nget (lineCounter p) fk \<le> uniqByLineLimit"
proof unfold_locales
  fix p :: UniqByLine and i
  assume inv: "\<forall>fk. nget (lineCounter p) fk \<le> uniqByLineLimit"
  then have "nget (lineCounter p) (FilePath i, issueLine i) \<le> uniqByLineLimit" by blast
  then show "fst (UniqByLine_shouldPassIssue p i) \<longleftrightarrow>
      0 < nat (uniqByLineLimit - nget (lineCounter p) (FilePath i, issueLine i))"
    by (auto simp: UniqByLine_shouldPassIssue_def Let_def case_prod_unfold)
  show "\<forall>fk. nget (lineCounter (snd (UniqByLine_shouldPassIssue p i))) fk \<le> uniqByLineLimit"
  proof
    fix fk
    show "nget (lineCounter (snd (UniqByLine_shouldPassIssue p i))) fk \<le> uniqByLineLimit"
      using inv [rule_format, of fk]
      by (auto simp: UniqByLine_shouldPassIssue_def Let_def case_prod_unfold)
  qed
qed (auto simp: UniqByLine_shouldPassIssue_def Let_def case_prod_unfold)

lemma MaxSameIssues_run_limit [simp]:
  "sameLimit (snd (filterIssuesUnsafe MaxSameIssues_pass p is)) = sameLimit p"
  by (rule filterIssuesUnsafe_state_inv [where Q = "\<lambda>q. sameLimit q = sameLimit p"])
     (auto simp: MaxSameIssues_pass_def Let_def)

lemma MaxSameIssues_run_counter:
  "mget (textCounter (snd (filterIssuesUnsafe MaxSameIssues_pass p is))) t =
   mget (textCounter p) t + int (length (filter (\<lambda>i. Text i = t) is))"
  by (induction "is" arbitrary: p) (auto simp: Let_def case_prod_unfold MaxSameIssues_pass_def)

lemma MaxSameIssues_run_dom:
  "dom (textCounter (snd (filterIssuesUnsafe MaxSameIssues_pass p is))) =
   dom (textCounter p) \<union> Text ` set is"
  by (induction "is" arbitrary: p) (auto simp: Let_def case_prod_unfold MaxSameIssues_pass_def)

text \<open>All four are filters in the sense of the pipeline.\<close>

lemma limiter_selects:
  "subseq (fst (filterIssuesUnsafe f s is)) is"
  by (rule filterIssuesUnsafe_subseq [of f s "is" _ "snd (filterIssuesUnsafe f s is)"]) simp

interpretation same_filter: filter_processor MaxSameIssues_Process
  by unfold_locales
     (auto simp: MaxSameIssues_Process_def Let_def case_prod_unfold intro: subseq_mset limiter_selects split: if_splits)

interpretation fromLinter_filter: filter_processor MaxFromLinter_Process
  by unfold_locales
     (auto simp: MaxFromLinter_Process_def Let_def case_prod_unfold intro: subseq_mset limiter_selects split: if_splits)

interpretation perFile_filter: filter_processor MaxPerFileFromLinter_Process
  by unfold_locales
     (auto simp: MaxPerFileFromLinter_Process_def Let_def case_prod_unfold intro: subseq_mset limiter_selects)

interpretation uniq_filter: filter_processor UniqByLine_Process
  by unfold_locales
     (auto simp: UniqByLine_Process_def Let_def case_prod_unfold intro: subseq_mset limiter_selects split: if_splits)

section \<open>Properties\<close>

text \<open>
  With a positive limit, \<open>MaxSameIssues\<close> returns a subsequence of the issues in which, for
  every text, exactly the first \<open>limit\<close> issues with that text remain (all of them when there are
  fewer), in their order.
\<close>

theorem max_same_issues_keeps_first:
  assumes "0 < limit"
    and "MaxSameIssues_Process (NewMaxSameIssues limit) is = (Inr os, p')"
  shows "subseq os is \<and>
    (\<forall>t. filter (\<lambda>i. Text i = t) os = take (nat limit) (filter (\<lambda>i. Text i = t) is))"
proof -
  have os: "os = fst (filterIssuesUnsafe MaxSameIssues_pass (NewMaxSameIssues limit) is)"
    using assms by (auto simp: MaxSameIssues_Process_def Let_def case_prod_unfold)
  show ?thesis
    using same.limit_take [where s = "NewMaxSameIssues limit"] limiter_selects
    by (auto simp: os)
qed

theorem max_same_issues_keeps_first_witness:
  "\<exists>os p'. MaxSameIssues_Process (NewMaxSameIssues 1)
       [mkIssue ''a'' ''t'' ''f.go'' 1, mkIssue ''b'' ''t'' ''f.go'' 2] = (Inr os, p') \<and>
     filter (\<lambda>i. Text i = ''t'') os = [mkIssue ''a'' ''t'' ''f.go'' 1]"
proof -
  let ?is = "[mkIssue ''a'' ''t'' ''f.go'' 1, mkIssue ''b'' ''t'' ''f.go'' 2]"
  obtain os p' where r: "MaxSameIssues_Process (NewMaxSameIssues 1) ?is = (Inr os, p')"
    by (simp add: MaxSameIssues_Process_def Let_def case_prod_unfold)
  show ?thesis
    using r max_same_issues_keeps_first [OF _ r] by (auto simp: mkIssue_def)
qed

text \<open>
  After one run, \<open>MaxSameIssues.Finish\<close> logs a line for a text exactly when issues with that
  text were dropped, and the line states how many were dropped and how many there were. The
  sorting function and the order in which the counters are visited are arbitrary.
\<close>

theorem max_same_issues_reports_hidden:
  assumes "0 < limit"
    and "MaxSameIssues_Process (NewMaxSameIssues limit) is = (Inr os, p')"
    and "enumerates (textCounter p') ks"
    and "\<And>lt kvs. set (sortSlice lt kvs) = set kvs"
  shows "set (MaxSameIssues_Finish sortSlice ks p') =
    {Infof ''%d/%d issues with text %q were hidden, use --max-same-issues'' [LInt hidden, LInt total, LStr t]
     | hidden total t. total = int (length (filter (\<lambda>i. Text i = t) is)) \<and>
         hidden = total - int (length (filter (\<lambda>i. Text i = t) os)) \<and> 0 < hidden}"
proof -
  have run: "filterIssuesUnsafe MaxSameIssues_pass (NewMaxSameIssues limit) is = (os, p')"
    using assms(1,2) by (auto simp: MaxSameIssues_Process_def split: prod.splits)
  then have os: "os = fst (filterIssuesUnsafe MaxSameIssues_pass (NewMaxSameIssues limit) is)"
    by simp
  define tot where "tot t = int (length (filter (\<lambda>i. Text i = t) is))" for t
  have ctr: "mget (textCounter p') t = tot t" for t
    using MaxSameIssues_run_counter [of "NewMaxSameIssues limit" "is" t]
    by (simp add: run tot_def)
  have lim: "sameLimit p' = limit"
    using MaxSameIssues_run_limit [of "NewMaxSameIssues limit" "is"] by (simp add: run)
  have dom: "set ks = Text ` set is"
    using MaxSameIssues_run_dom [of "NewMaxSameIssues limit" "is"] assms(3)
    by (simp add: run enumerates_def)
  have "filter (\<lambda>i. Text i = t) os = take (nat limit) (filter (\<lambda>i. Text i = t) is)" for t
    using same.limit_take [where s = "NewMaxSameIssues limit" and k = t] os by simp
  then have kept: "int (length (filter (\<lambda>i. Text i = t) os)) = min (tot t) limit" for t
    using assms(1) by (simp add: tot_def)
  have "t \<in> set ks" if "tot t > limit" for t
  proof -
    have "filter (\<lambda>i. Text i = t) is \<noteq> []"
      using that assms(1) by (auto simp: tot_def)
    then show ?thesis by (auto simp: dom filter_empty_conv)
  qed
  then have "set (MaxSameIssues_Finish sortSlice ks p') =
     {Infof ''%d/%d issues with text %q were hidden, use --max-same-issues''
        [LInt (tot t - limit), LInt (tot t), LStr t] | t. tot t > limit}"
    by (auto simp: MaxSameIssues_Finish_def walkStringToIntMapSortedByValue_def assms(4) ctr lim
        split: if_splits)
  also have "\<dots> = {Infof ''%d/%d issues with text %q were hidden, use --max-same-issues''
       [LInt hidden, LInt total, LStr t] | hidden total t. total = tot t \<and>
         hidden = total - int (length (filter (\<lambda>i. Text i = t) os)) \<and> 0 < hidden}"
    by (force simp: kept min_def)
  finally show ?thesis by (simp add: tot_def)
qed

theorem max_same_issues_reports_hidden_witness:
  "\<exists>os p'. MaxSameIssues_Process (NewMaxSameIssues 1)
       [mkIssue ''a'' ''t'' ''f.go'' 1, mkIssue ''b'' ''t'' ''f.go'' 2] = (Inr os, p') \<and>
     Infof ''%d/%d issues with text %q were hidden, use --max-same-issues'' [LInt 1, LInt 2, LStr ''t'']
       \<in> set (MaxSameIssues_Finish stable_sort [''t''] p')"
proof -
  let ?is = "[mkIssue ''a'' ''t'' ''f.go'' 1, mkIssue ''b'' ''t'' ''f.go'' 2]"
  let ?os = "[mkIssue ''a'' ''t'' ''f.go'' 1]"
  obtain p' where r: "MaxSameIssues_Process (NewMaxSameIssues 1) ?is = (Inr ?os, p')"
    and d: "dom (textCounter p') = {''t''}"
    by (auto simp: MaxSameIssues_Process_def MaxSameIssues_pass_def mkIssue_def)
  have "enumerates (textCounter p') [''t'']" by (simp add: enumerates_def d)
  then show ?thesis
    using r max_same_issues_reports_hidden [OF _ r, of "[''t'']" stable_sort] by (auto simp: mkIssue_def)
qed

text \<open>
  \<open>MaxPerFileFromLinter\<close> returns a subsequence of the issues; without fixing, a file keeps
  exactly its first issue of each formatter; every issue of another linter is kept, and
  with fixing every issue is kept.
\<close>

theorem max_per_file_one_per_formatter:
  assumes "MaxPerFileFromLinter_Process (NewMaxPerFileFromLinter needFix) is = (Inr os, p')"
    and "formatters = {''gofmt'', ''gofumpt'', ''goimports'', ''gci'', ''golines'', ''swaggo''}"
  shows "subseq os is \<and> (needFix \<longrightarrow> os = is) \<and>
    filter (\<lambda>i. FromLinter i \<notin> formatters) os = filter (\<lambda>i. FromLinter i \<notin> formatters) is \<and>
    (\<not> needFix \<longrightarrow> (\<forall>f. \<forall>l \<in> formatters. filter (\<lambda>i. FilePath i = f \<and> FromLinter i = l) os =
       take 1 (filter (\<lambda>i. FilePath i = f \<and> FromLinter i = l) is)))"
proof -
  define p where "p = NewMaxPerFileFromLinter needFix"
  have os: "os = fst (filterIssuesUnsafe MaxPerFileFromLinter_pass p is)"
    using assms(1) by (auto simp: p_def MaxPerFileFromLinter_Process_def Let_def case_prod_unfold)
  have cfg: "mget (maxPerFileFromLinterConfig p) l = (if \<not> needFix \<and> l \<in> formatters then 1 else 0)" for l
    by (simp add: p_def NewMaxPerFileFromLinter_def assms(2) mget_def)
  have unlimited: "mget (maxPerFileFromLinterConfig p) l = 0 \<longleftrightarrow> needFix \<or> l \<notin> formatters" for l
    by (simp add: cfg)
  have unl: "filter (\<lambda>i. needFix \<or> FromLinter i \<notin> formatters) os =
             filter (\<lambda>i. needFix \<or> FromLinter i \<notin> formatters) is"
    using perFile.unlimited_kept [where s = p] by (simp add: os unlimited)
  have lim: "filter (\<lambda>i. FilePath i = f \<and> FromLinter i = l) os =
       take 1 (filter (\<lambda>i. FilePath i = f \<and> FromLinter i = l) is)"
    if "\<not> needFix" "l \<in> formatters" for f l
  proof -
    have eq: "mget (maxPerFileFromLinterConfig p) (FromLinter i) \<noteq> 0 \<and> (FilePath i, FromLinter i) = (f, l)
        \<longleftrightarrow> FilePath i = f \<and> FromLinter i = l" for i
      using that by (auto simp: unlimited)
    have room: "nat (mget (maxPerFileFromLinterConfig p) (snd (f, l)) - nget (flCounter p) (f, l)) = 1"
      using that cfg [of l] by (simp add: p_def nget_def)
    show ?thesis
      using perFile.limit_take [where s = p and k = "(f, l)"] unfolding eq room os by simp
  qed
  show ?thesis using unl lim limiter_selects by (cases needFix) (auto simp: os)
qed

theorem max_per_file_one_per_formatter_witness:
  "\<exists>os p'. MaxPerFileFromLinter_Process (NewMaxPerFileFromLinter False)
       [mkIssue ''gofmt'' ''t'' ''f.go'' 1, mkIssue ''gofmt'' ''u'' ''f.go'' 2] = (Inr os, p') \<and>
     filter (\<lambda>i. FilePath i = ''f.go'' \<and> FromLinter i = ''gofmt'') os = [mkIssue ''gofmt'' ''t'' ''f.go'' 1]"
proof -
  let ?is = "[mkIssue ''gofmt'' ''t'' ''f.go'' 1, mkIssue ''gofmt'' ''u'' ''f.go'' 2]"
  obtain os p' where r: "MaxPerFileFromLinter_Process (NewMaxPerFileFromLinter False) ?is = (Inr os, p')"
    by (simp add: MaxPerFileFromLinter_Process_def Let_def case_prod_unfold)
  show ?thesis
    using r max_per_file_one_per_formatter [OF r refl] by (auto simp: mkIssue_def FilePath_def)
qed

text \<open>
  When enabled, \<open>UniqByLine\<close> returns a subsequence of the issues with exactly one issue, the
  first one, for every file and line that has an issue.
\<close>

theorem uniq_by_line_first_of_each_line:
  assumes "UniqByLine_Process (NewUniqByLine True) is = (Inr os, p')"
  shows "subseq os is \<and>
    (\<forall>f l. filter (\<lambda>i. FilePath i = f \<and> issueLine i = l) os =
             take 1 (filter (\<lambda>i. FilePath i = f \<and> issueLine i = l) is))"
proof -
  have os: "os = fst (filterIssuesUnsafe UniqByLine_shouldPassIssue (NewUniqByLine True) is)"
    using assms by (auto simp: UniqByLine_Process_def Let_def case_prod_unfold)
  show ?thesis
    using uniq.limit_take [where s = "NewUniqByLine True"] limiter_selects
    by (auto simp: os nget_def uniqByLineLimit_def)
qed

theorem uniq_by_line_first_of_each_line_witness:
  "\<exists>os p'. UniqByLine_Process (NewUniqByLine True)
       [mkIssue ''a'' ''t'' ''f.go'' 1, mkIssue ''b'' ''u'' ''f.go'' 1] = (Inr os, p') \<and>
     filter (\<lambda>i. FilePath i = ''f.go'' \<and> issueLine i = 1) os = [mkIssue ''a'' ''t'' ''f.go'' 1]"
proof -
  let ?is = "[mkIssue ''a'' ''t'' ''f.go'' 1, mkIssue ''b'' ''u'' ''f.go'' 1]"
  obtain os p' where r: "UniqByLine_Process (NewUniqByLine True) ?is = (Inr os, p')"
    by (simp add: UniqByLine_Process_def Let_def case_prod_unfold)
  show ?thesis
    using r uniq_by_line_first_of_each_line [OF r] by (auto simp: mkIssue_def FilePath_def issueLine_def)
qed

end
