(* ===== verification/Fs_Cache.thy ===== *)
theory Fs_Cache
  imports Go_Prelude
begin

text \<open>
  The file cache and the line cache (\<open>pkg/fsutils/filecache.go\<close>, \<open>linecache.go\<close>). The line cache
  reads through the file cache, and the processors of a run share both, so the two maps form one
  record \<open>Caches\<close>. The file system is a parameter: \<^term>\<open>fs path\<close> is the content of a file,
  \<^const>\<open>None\<close> when reading it fails.

  The caches are a snapshot: the lemmas show that a line, once a file was read, does not depend on
  later writes to the file.
\<close>

type_synonym files = "string \<rightharpoonup> string"

datatype fs_error =
    CantReadFile string
  | InvalidLineIndex int
  | LineIndexOutOfRange int int

record Caches =
  fcFiles :: "string \<rightharpoonup> string"
  lcFiles :: "string \<rightharpoonup> string list"

definition NewFileCache :: "string \<rightharpoonup> string" where
  "NewFileCache = Map.empty"

definition NewLineCache :: "(string \<rightharpoonup> string) \<Rightarrow> Caches" where
  "NewLineCache fc = \<lparr>fcFiles = fc, lcFiles = Map.empty\<rparr>"

definition GetFileBytes :: "files \<Rightarrow> Caches \<Rightarrow> string \<Rightarrow> (fs_error + string) \<times> Caches" where
  "GetFileBytes fs c filePath = (case fcFiles c filePath of
       Some cachedBytes \<Rightarrow> (Inr cachedBytes, c)
     | None \<Rightarrow> (case fs filePath of
           None \<Rightarrow> (Inl (CantReadFile filePath), c)
         | Some fileBytes \<Rightarrow> (Inr fileBytes, c\<lparr>fcFiles := (fcFiles c)(filePath \<mapsto> fileBytes)\<rparr>)))"

definition newline :: char where
  "newline = CHR 0x0A"

definition carriageReturn :: char where
  "carriageReturn = CHR 0x0D"

definition getFileCache :: "files \<Rightarrow> Caches \<Rightarrow> string \<Rightarrow> (fs_error + string list) \<times> Caches" where
  "getFileCache fs c filePath = (case lcFiles c filePath of
       Some loadedFc \<Rightarrow> (Inr loadedFc, c)
     | None \<Rightarrow> (case GetFileBytes fs c filePath of
           (Inl e, c1) \<Rightarrow> (Inl e, c1)
         | (Inr fileBytes, c1) \<Rightarrow>
             (let fc = Split fileBytes newline
              in (Inr fc, c1\<lparr>lcFiles := (lcFiles c1)(filePath \<mapsto> fc)\<rparr>))))"

definition getRawLine :: "files \<Rightarrow> Caches \<Rightarrow> string \<Rightarrow> int \<Rightarrow> (fs_error + string) \<times> Caches" where
  "getRawLine fs c filePath index0 = (case getFileCache fs c filePath of
       (Inl e, c1) \<Rightarrow> (Inl e, c1)
     | (Inr fc, c1) \<Rightarrow>
         (if index0 < 0 then (Inl (InvalidLineIndex index0), c1)
          else if index0 \<ge> int (length fc) then (Inl (LineIndexOutOfRange index0 (int (length fc))), c1)
          else (Inr (fc ! nat index0), c1)))"

definition GetLine :: "files \<Rightarrow> Caches \<Rightarrow> string \<Rightarrow> int \<Rightarrow> (fs_error + string) \<times> Caches" where
  "GetLine fs c filePath index1 =
     (let index1 = (if index1 = 0 then 1 else index1) in
      case getRawLine fs c filePath (index1 + - 1) of
        (Inl e, c1) \<Rightarrow> (Inl e, c1)
      | (Inr rawLine, c1) \<Rightarrow> (Inr (Trim rawLine [carriageReturn]), c1))"

section \<open>The caches are a coherent snapshot\<close>

text \<open>Every cached list of lines is the split of the cached bytes of its file.\<close>

definition caches_ok :: "Caches \<Rightarrow> bool" where
  "caches_ok c \<longleftrightarrow> (\<forall>f ls. lcFiles c f = Some ls \<longrightarrow>
     (\<exists>b. fcFiles c f = Some b \<and> ls = Split b newline))"

text \<open>What a reader sees: the cached bytes, else the file.\<close>

definition snapshot :: "files \<Rightarrow> Caches \<Rightarrow> files" where
  "snapshot fs c f = (case fcFiles c f of Some b \<Rightarrow> Some b | None \<Rightarrow> fs f)"

text \<open>The specification of reading a line from given contents.\<close>

definition line_of :: "files \<Rightarrow> string \<Rightarrow> int \<Rightarrow> fs_error + string" where
  "line_of fs f n = (case fs f of
       None \<Rightarrow> Inl (CantReadFile f)
     | Some b \<Rightarrow>
         (let ls = Split b newline; k = (if n = 0 then 0 else n - 1) in
          if k < 0 then Inl (InvalidLineIndex k)
          else if k \<ge> int (length ls) then Inl (LineIndexOutOfRange k (int (length ls)))
          else Inr (Trim (ls ! nat k) [carriageReturn])))"

lemma caches_ok_empty [simp]: "caches_ok (NewLineCache fc)"
  by (simp add: caches_ok_def NewLineCache_def)

lemma snapshot_lcFiles [simp]: "snapshot fs (c\<lparr>lcFiles := m\<rparr>) = snapshot fs c"
  by (simp add: snapshot_def fun_eq_iff)

lemma caches_okD:
  "caches_ok c \<Longrightarrow> lcFiles c f = Some ls \<Longrightarrow> \<exists>b. fcFiles c f = Some b \<and> ls = Split b newline"
  by (auto simp: caches_ok_def)

lemma GetFileBytes_fst:
  "fst (GetFileBytes fs c f) = (case snapshot fs c f of None \<Rightarrow> Inl (CantReadFile f) | Some b \<Rightarrow> Inr b)"
  by (simp add: GetFileBytes_def snapshot_def split: option.splits)

lemma GetFileBytes_snapshot [simp]: "snapshot fs (snd (GetFileBytes fs c f)) = snapshot fs c"
  by (auto simp: GetFileBytes_def snapshot_def fun_eq_iff split: option.splits)

lemma GetFileBytes_ok: "caches_ok c \<Longrightarrow> caches_ok (snd (GetFileBytes fs c f))"
  by (auto simp: GetFileBytes_def caches_ok_def split: option.splits) (metis option.distinct(1))

lemma GetFileBytes_caches: "fst (GetFileBytes fs c f) = Inr b \<Longrightarrow> fcFiles (snd (GetFileBytes fs c f)) f = Some b"
  by (auto simp: GetFileBytes_def split: option.splits)

lemma getFileCache_spec:
  assumes "caches_ok c"
  shows "fst (getFileCache fs c f) =
      (case snapshot fs c f of None \<Rightarrow> Inl (CantReadFile f) | Some b \<Rightarrow> Inr (Split b newline))"
    and "caches_ok (snd (getFileCache fs c f))"
    and "snapshot fs (snd (getFileCache fs c f)) = snapshot fs c"
proof -
  obtain r c1 where g: "GetFileBytes fs c f = (r, c1)" by fastforce
  have r: "r = (case snapshot fs c f of None \<Rightarrow> Inl (CantReadFile f) | Some b \<Rightarrow> Inr b)"
    and snap: "snapshot fs c1 = snapshot fs c"
    and ok1: "caches_ok c1"
    using GetFileBytes_fst [of fs c f] GetFileBytes_snapshot [of fs c f] GetFileBytes_ok [OF assms, of fs f]
    by (simp_all add: g)
  have cached: "r = Inr b \<Longrightarrow> fcFiles c1 f = Some b" for b
    using GetFileBytes_caches [of fs c f b] by (simp add: g)
  show "fst (getFileCache fs c f) =
      (case snapshot fs c f of None \<Rightarrow> Inl (CantReadFile f) | Some b \<Rightarrow> Inr (Split b newline))"
  proof (cases "lcFiles c f")
    case None
    then show ?thesis using r by (auto simp: getFileCache_def g Let_def split: option.splits)
  next
    case (Some ls)
    with caches_okD [OF assms] obtain b where "fcFiles c f = Some b" "ls = Split b newline" by blast
    with Some show ?thesis by (simp add: getFileCache_def snapshot_def)
  qed
  show "caches_ok (snd (getFileCache fs c f))"
    using assms ok1 cached
    by (auto simp: getFileCache_def g Let_def caches_ok_def split: option.splits sum.splits)
  show "snapshot fs (snd (getFileCache fs c f)) = snapshot fs c"
    using snap by (auto simp: getFileCache_def g Let_def split: option.splits sum.splits)
qed

lemma getRawLine_snd: "snd (getRawLine fs c f k) = snd (getFileCache fs c f)"
  by (auto simp: getRawLine_def split: prod.splits sum.splits)

lemma GetLine_snd: "snd (GetLine fs c f n) = snd (getFileCache fs c f)"
  using getRawLine_snd [of fs c f] by (auto simp: GetLine_def Let_def split: prod.splits sum.splits) (metis snd_conv)+

lemma GetLine_ok [simp]: "caches_ok c \<Longrightarrow> caches_ok (snd (GetLine fs c f n))"
  by (simp add: GetLine_snd getFileCache_spec(2))

lemma GetLine_snapshot [simp]: "caches_ok c \<Longrightarrow> snapshot fs (snd (GetLine fs c f n)) = snapshot fs c"
  by (simp add: GetLine_snd getFileCache_spec(3))

lemma GetLine_fst:
  assumes "caches_ok c"
  shows "fst (GetLine fs c f n) = line_of (snapshot fs c) f n"
  using getFileCache_spec(1) [OF assms, of fs f]
  by (auto simp: GetLine_def getRawLine_def line_of_def Let_def split: option.splits prod.splits sum.splits)

section \<open>Properties\<close>

text \<open>
  In coherent caches a read through the line cache gives the requested line of the file's
  snapshot (line 0 is line 1, carriage returns at the ends are removed, an index out of range and
  an unreadable file are errors), leaves the caches coherent, and changes no file's snapshot.
\<close>

theorem get_line_reads_snapshot:
  assumes "caches_ok c"
  shows "fst (GetLine fs c f n) = line_of (snapshot fs c) f n \<and>
         caches_ok (snd (GetLine fs c f n)) \<and>
         snapshot fs (snd (GetLine fs c f n)) = snapshot fs c"
  using assms by (simp add: GetLine_fst)

theorem get_line_reads_snapshot_witness:
  "fst (GetLine [''a.go'' \<mapsto> [CHR ''x'', CHR 0x0D, CHR 0x0A, CHR ''y'']] (NewLineCache NewFileCache) ''a.go'' 1)
     = Inr ''x''"
  using get_line_reads_snapshot [OF caches_ok_empty, of "[''a.go'' \<mapsto> [CHR ''x'', CHR 0x0D, CHR 0x0A, CHR ''y'']]"
      NewFileCache "''a.go''" 1]
  by (simp add: line_of_def snapshot_def NewLineCache_def NewFileCache_def newline_def carriageReturn_def
      Trim_def TrimLeft_def TrimRight_def)

text \<open>
  Once a line of a file was read, every line of that file reads the same whatever is written to
  the file system afterwards.
\<close>

theorem get_line_stable_after_write:
  assumes "caches_ok c"
    and "GetLine fs c f n = (Inr l, c1)"
  shows "fst (GetLine fs' c1 f m) = fst (GetLine fs c1 f m)"
proof -
  have ok: "caches_ok c1" using GetLine_ok [OF assms(1), of fs f n] by (simp add: assms(2))
  obtain b where "fcFiles c1 f = Some b"
  proof -
    have c1: "c1 = snd (getFileCache fs c f)" using GetLine_snd [of fs c f n] by (simp add: assms(2))
    have "fst (getFileCache fs c f) \<noteq> Inl e" for e
      using assms(2) by (auto simp: GetLine_def getRawLine_def Let_def split: prod.splits sum.splits if_splits)
    then obtain ls where "fst (getFileCache fs c f) = Inr ls" by (cases "fst (getFileCache fs c f)") auto
    then have "\<exists>b. fcFiles c1 f = Some b"
      using assms(1) unfolding c1 getFileCache_def caches_ok_def
      by (auto simp: Let_def dest: GetFileBytes_caches [of fs c f]
          split: option.splits prod.splits sum.splits) (metis GetFileBytes_caches fst_conv snd_conv)
    then show ?thesis using that by blast
  qed
  then have "snapshot fs' c1 f = snapshot fs c1 f" by (simp add: snapshot_def)
  then show ?thesis by (simp add: GetLine_fst [OF ok] line_of_def)
qed

theorem get_line_stable_after_write_witness:
  "\<exists>c1. GetLine [''a.go'' \<mapsto> ''x''] (NewLineCache NewFileCache) ''a.go'' 1 = (Inr ''x'', c1) \<and>
     fst (GetLine Map.empty c1 ''a.go'' 1) = fst (GetLine [''a.go'' \<mapsto> ''x''] c1 ''a.go'' 1)"
proof -
  have "fst (GetLine [''a.go'' \<mapsto> ''x''] (NewLineCache NewFileCache) ''a.go'' 1) = Inr ''x''"
    by (simp add: GetLine_fst [OF caches_ok_empty])
       (simp add: line_of_def snapshot_def NewLineCache_def NewFileCache_def
        newline_def carriageReturn_def Trim_def TrimLeft_def TrimRight_def)
  then obtain c1 where r: "GetLine [''a.go'' \<mapsto> ''x''] (NewLineCache NewFileCache) ''a.go'' 1 = (Inr ''x'', c1)"
    by (metis prod.collapse)
  show ?thesis using r get_line_stable_after_write [OF caches_ok_empty r] by blast
qed

end
