(* ===== verification/Rules.thy ===== *)
theory Rules
  imports Result_Issue Fs_Cache
begin

text \<open>
  The rule engine: the configured rules with their validation (\<open>pkg/config/base_rule.go\<close>,
  \<open>linters_exclusions.go\<close>, \<open>severity.go\<close>), the compiled rules (\<open>pkg/result/processors/base_rule.go\<close>)
  and the three processors that use them: \<open>exclusion_rules.go\<close> with \<open>exclusion_presets.go\<close>,
  \<open>exclusion_paths.go\<close> and \<open>severity.go\<close>.

  The regular-expression engine is a parameter: \<open>reOK p\<close> says that a pattern compiles and
  \<open>reMatch p s\<close> that the compiled pattern matches \<open>s\<close>; a compiled expression is represented by its
  pattern. \<open>quote\<close> is the \<open>%q\<close> form of a string. A rule with a source pattern reads the line of the
  issue through the shared line cache, which is threaded.
\<close>

section \<open>Configuration of rules\<close>

record BaseRule =
  cfgLinters :: "string list"
  cfgPath :: string
  cfgPathExcept :: string
  cfgText :: string
  cfgSource :: string
  cfgInternalReference :: string

record SeverityRule = BaseRule +
  cfgSeverity :: string

datatype rule_error =
    InvalidPathRegex
  | InvalidPathExceptRegex
  | InvalidTextRegex
  | InvalidSourceRegex
  | PathAndPathExcept
  | TooFewConditions nat
  | SeverityNotSet
  | NoDefaultSeverity
  | RuleError nat rule_error
  | InvalidPreset string

type_synonym validation = "rule_error option"

definition validateOptionalRegex :: "(string \<Rightarrow> bool) \<Rightarrow> string \<Rightarrow> bool" where
  "validateOptionalRegex reOK value \<longleftrightarrow> value = [] \<or> reOK value"

definition nonBlankConditions :: "('a BaseRule_scheme) \<Rightarrow> nat" where
  "nonBlankConditions b =
     (if length (cfgLinters b) > 0 then 1 else 0)
   + (if cfgPath b \<noteq> [] \<or> cfgPathExcept b \<noteq> [] then 1 else 0)
   + (if cfgText b \<noteq> [] then 1 else 0)
   + (if cfgSource b \<noteq> [] then 1 else 0)"

definition BaseRule_Validate :: "(string \<Rightarrow> bool) \<Rightarrow> ('a BaseRule_scheme) \<Rightarrow> nat \<Rightarrow> validation" where
  "BaseRule_Validate reOK b minConditionsCount =
     (if \<not> validateOptionalRegex reOK (cfgPath b) then Some InvalidPathRegex
      else if \<not> validateOptionalRegex reOK (cfgPathExcept b) then Some InvalidPathExceptRegex
      else if \<not> validateOptionalRegex reOK (cfgText b) then Some InvalidTextRegex
      else if \<not> validateOptionalRegex reOK (cfgSource b) then Some InvalidSourceRegex
      else if cfgPath b \<noteq> [] \<and> cfgPathExcept b \<noteq> [] then Some PathAndPathExcept
      else if nonBlankConditions b < minConditionsCount then Some (TooFewConditions minConditionsCount)
      else None)"

definition excludeRuleMinConditionsCount :: nat where
  "excludeRuleMinConditionsCount = 2"

definition severityRuleMinConditionsCount :: nat where
  "severityRuleMinConditionsCount = 1"

definition ExcludeRule_Validate :: "(string \<Rightarrow> bool) \<Rightarrow> BaseRule \<Rightarrow> validation" where
  "ExcludeRule_Validate reOK e = BaseRule_Validate reOK e excludeRuleMinConditionsCount"

definition SeverityRule_Validate :: "(string \<Rightarrow> bool) \<Rightarrow> SeverityRule \<Rightarrow> validation" where
  "SeverityRule_Validate reOK s =
     (if cfgSeverity s = [] then Some SeverityNotSet
      else BaseRule_Validate reOK s severityRuleMinConditionsCount)"

text \<open>The loop over numbered rules: the first invalid rule, with its number.\<close>

fun validateRules :: "('r \<Rightarrow> validation) \<Rightarrow> nat \<Rightarrow> 'r list \<Rightarrow> validation" where
  "validateRules v n [] = None"
| "validateRules v n (r # rs) = (case v r of Some e \<Rightarrow> Some (RuleError n e) | None \<Rightarrow> validateRules v (Suc n) rs)"

record LinterExclusions =
  Generated :: string
  WarnUnused :: bool
  Presets :: "string list"
  ExclRules :: "BaseRule list"
  Paths :: "string list"
  PathsExcept :: "string list"

definition allPresets :: "string list" where
  "allPresets = [''comments'', ''std-error-handling'', ''common-false-positives'', ''legacy'']"

definition LinterExclusions_Validate :: "(string \<Rightarrow> bool) \<Rightarrow> LinterExclusions \<Rightarrow> validation" where
  "LinterExclusions_Validate reOK e =
     (case validateRules (ExcludeRule_Validate reOK) 0 (ExclRules e) of
        Some err \<Rightarrow> Some err
      | None \<Rightarrow> (case List.find (\<lambda>p. p \<notin> set allPresets) (Presets e) of
            Some preset \<Rightarrow> Some (InvalidPreset preset)
          | None \<Rightarrow> None))"

record SeverityConfig =
  DefaultSeverity :: string
  SeverityRules :: "SeverityRule list"

definition Severity_Validate :: "(string \<Rightarrow> bool) \<Rightarrow> SeverityConfig \<Rightarrow> validation" where
  "Severity_Validate reOK s =
     (if length (SeverityRules s) > 0 \<and> DefaultSeverity s = [] then Some NoDefaultSeverity
      else validateRules (SeverityRule_Validate reOK) 0 (SeverityRules s))"

section \<open>Compiled rules\<close>

record baseRule =
  reText :: "string option"
  reSource :: "string option"
  rePath :: "string option"
  rePathExcept :: "string option"
  ruleLinters :: "string list"

text \<open>\<open>NormalizePathInRegex\<close> is the identity on Unix.\<close>

definition NormalizePathInRegex :: "string \<Rightarrow> string" where
  "NormalizePathInRegex path = path"

text \<open>\<open>regexp.MustCompile\<close> panics on an invalid pattern: \<^const>\<open>None\<close>.\<close>

definition MustCompile :: "(string \<Rightarrow> bool) \<Rightarrow> string \<Rightarrow> string option" where
  "MustCompile reOK p = (if reOK p then Some p else None)"

definition compileOptional :: "(string \<Rightarrow> bool) \<Rightarrow> string \<Rightarrow> string \<Rightarrow> string option option" where
  "compileOptional reOK value pattern =
     (if value = [] then Some None else map_option Some (MustCompile reOK pattern))"

definition newBaseRule :: "(string \<Rightarrow> bool) \<Rightarrow> ('a BaseRule_scheme) \<Rightarrow> string \<Rightarrow> baseRule option" where
  "newBaseRule reOK rule pre =
     Option.bind (compileOptional reOK (cfgText rule) (pre @ cfgText rule)) (\<lambda>t.
     Option.bind (compileOptional reOK (cfgSource rule) (pre @ cfgSource rule)) (\<lambda>s.
     Option.bind (compileOptional reOK (cfgPath rule) (NormalizePathInRegex (cfgPath rule))) (\<lambda>p.
     Option.bind (compileOptional reOK (cfgPathExcept rule) (NormalizePathInRegex (cfgPathExcept rule))) (\<lambda>x.
       Some \<lparr>reText = t, reSource = s, rePath = p, rePathExcept = x, ruleLinters = cfgLinters rule\<rparr>))))"

definition baseRule_isEmpty :: "baseRule \<Rightarrow> bool" where
  "baseRule_isEmpty r \<longleftrightarrow> reText r = None \<and> reSource r = None \<and> rePath r = None \<and>
     rePathExcept r = None \<and> length (ruleLinters r) = 0"

definition matchLinter :: "baseRule \<Rightarrow> Issue \<Rightarrow> bool" where
  "matchLinter r issue \<longleftrightarrow> FromLinter issue \<in> set (ruleLinters r)"

definition matchSource ::
  "(string \<Rightarrow> string \<Rightarrow> bool) \<Rightarrow> files \<Rightarrow> string \<Rightarrow> Issue \<Rightarrow> Caches \<Rightarrow> bool \<times> Caches" where
  "matchSource reMatch fs source issue c =
     (case GetLine fs c (FilePath issue) (issueLine issue) of
        (Inl e, c1) \<Rightarrow> (False, c1)
      | (Inr sourceLine, c1) \<Rightarrow> (reMatch source sourceLine, c1))"

definition reFails :: "(string \<Rightarrow> string \<Rightarrow> bool) \<Rightarrow> string option \<Rightarrow> string \<Rightarrow> bool" where
  "reFails reMatch r s \<longleftrightarrow> (case r of None \<Rightarrow> False | Some p \<Rightarrow> \<not> reMatch p s)"

definition baseRule_match ::
  "(string \<Rightarrow> string \<Rightarrow> bool) \<Rightarrow> files \<Rightarrow> baseRule \<Rightarrow> Issue \<Rightarrow> Caches \<Rightarrow> bool \<times> Caches" where
  "baseRule_match reMatch fs r issue c =
     (if baseRule_isEmpty r then (False, c)
      else if reFails reMatch (reText r) (Text issue) then (False, c)
      else if reFails reMatch (rePath r) (RelativePath issue) then (False, c)
      else if (case rePathExcept r of None \<Rightarrow> False | Some p \<Rightarrow> reMatch p (RelativePath issue)) then (False, c)
      else if length (ruleLinters r) \<noteq> 0 \<and> \<not> matchLinter r issue then (False, c)
      else (case reSource r of
              None \<Rightarrow> (True, c)
            | Some p \<Rightarrow> (let (ok, c1) = matchSource reMatch fs p issue c
                         in if \<not> ok then (False, c1) else (True, c1))))"

text \<open>\<open>parseRules\<close>: a panic of one constructor is a panic of the loop.\<close>

fun parseRules :: "('r \<Rightarrow> string \<Rightarrow> 'v option) \<Rightarrow> string \<Rightarrow> 'r list \<Rightarrow> 'v list option" where
  "parseRules newFn pre [] = Some []"
| "parseRules newFn pre (r # rs) =
     Option.bind (newFn r pre) (\<lambda>v. map_option (Cons v) (parseRules newFn pre rs))"

text \<open>What it means that a rule applies to an issue, given the contents of the files.\<close>

definition rule_applies :: "(string \<Rightarrow> string \<Rightarrow> bool) \<Rightarrow> files \<Rightarrow> baseRule \<Rightarrow> Issue \<Rightarrow> bool" where
  "rule_applies reMatch contents r issue \<longleftrightarrow>
     \<not> baseRule_isEmpty r \<and>
     (\<forall>p. reText r = Some p \<longrightarrow> reMatch p (Text issue)) \<and>
     (\<forall>p. rePath r = Some p \<longrightarrow> reMatch p (RelativePath issue)) \<and>
     (\<forall>p. rePathExcept r = Some p \<longrightarrow> \<not> reMatch p (RelativePath issue)) \<and>
     (ruleLinters r \<noteq> [] \<longrightarrow> FromLinter issue \<in> set (ruleLinters r)) \<and>
     (\<forall>p. reSource r = Some p \<longrightarrow>
        (\<exists>l. line_of contents (FilePath issue) (issueLine issue) = Inr l \<and> reMatch p l))"

lemma matchSource_caches:
  assumes "caches_ok c"
  shows "caches_ok (snd (matchSource reMatch fs p issue c))"
    and "snapshot fs (snd (matchSource reMatch fs p issue c)) = snapshot fs c"
  using GetLine_ok [OF assms] GetLine_snapshot [OF assms]
  by (auto simp: matchSource_def split: prod.splits sum.splits) (metis snd_conv)+

lemma baseRule_match_caches:
  assumes "caches_ok c"
  shows "caches_ok (snd (baseRule_match reMatch fs r issue c))"
    and "snapshot fs (snd (baseRule_match reMatch fs r issue c)) = snapshot fs c"
  using matchSource_caches [OF assms]
  by (auto simp: baseRule_match_def Let_def assms case_prod_unfold split: option.splits)

lemma baseRule_match_applies:
  assumes "caches_ok c"
  shows "fst (baseRule_match reMatch fs r issue c) \<longleftrightarrow> rule_applies reMatch (snapshot fs c) r issue"
proof -
  have src: "fst (matchSource reMatch fs p issue c) \<longleftrightarrow>
      (\<exists>l. line_of (snapshot fs c) (FilePath issue) (issueLine issue) = Inr l \<and> reMatch p l)" for p
  proof -
    obtain r c1 where g: "GetLine fs c (FilePath issue) (issueLine issue) = (r, c1)" by fastforce
    then have "line_of (snapshot fs c) (FilePath issue) (issueLine issue) = r"
      using GetLine_fst [OF assms, of fs "FilePath issue" "issueLine issue"] by simp
    then show ?thesis by (cases r) (auto simp: matchSource_def g)
  qed
  show ?thesis
    using src
    by (auto simp: baseRule_match_def rule_applies_def reFails_def matchLinter_def Let_def case_prod_unfold
        split: option.splits)
qed

section \<open>Exclusion presets\<close>

definition excRule :: "string \<Rightarrow> string \<Rightarrow> string \<Rightarrow> BaseRule" where
  "excRule text linter ref =
     \<lparr>cfgLinters = [linter], cfgPath = [], cfgPathExcept = [], cfgText = text, cfgSource = [],
      cfgInternalReference = ref\<rparr>"

abbreviation bslash :: string where "bslash \<equiv> [CHR 0x5C]"
abbreviation dquote :: string where "dquote \<equiv> [CHR 0x22]"

definition LinterExclusionPresets :: "string \<rightharpoonup> BaseRule list" where
  "LinterExclusionPresets = map_of [
    (''comments'',
      [excRule ''(ST1000|ST1020|ST1021|ST1022)'' ''staticcheck'' ''EXC0011'',
       excRule (''exported (.+) should have comment( '' @ bslash @ ''(or a comment on this block'' @ bslash @
         '')'' @ '')? or be unexported'') ''revive'' ''EXC0012'',
       excRule (''package comment should be of the form '' @ dquote @ ''(.+)...'' @ dquote) ''revive'' ''EXC0013'',
       excRule (''comment on exported (.+) should be of the form '' @ dquote @ ''(.+)...'' @ dquote) ''revive'' ''EXC0014'',
       excRule ''should have a package comment'' ''revive'' ''EXC0015'']),
    (''std-error-handling'',
      [excRule (''(?i)Error return value of .((os'' @ bslash @ ''.)?std(out|err)'' @ bslash @ ''..*|.*Close'' @
         ''|.*Flush|os'' @ bslash @ ''.Remove(All)?|.*print(f|ln)?|os'' @ bslash @ ''.(Un)?Setenv). is not checked'')
         ''errcheck'' ''EXC0001'']),
    (''common-false-positives'',
      [excRule ''G103: Use of unsafe calls should be audited'' ''gosec'' ''EXC0006'',
       excRule ''G204: Subprocess launched with variable'' ''gosec'' ''EXC0007'',
       excRule ''G304: Potential file inclusion via variable'' ''gosec'' ''EXC0010'']),
    (''legacy'',
      [excRule ''(possible misuse of unsafe.Pointer|should have signature)'' ''govet'' ''EXC0004'',
       excRule ''SA4011'' ''staticcheck'' ''EXC0005'',
       excRule ''G104'' ''gosec'' ''EXC0008'',
       excRule ''(G301|G302|G307): Expect (directory permissions to be 0750|file permissions to be 0600) or less''
         ''gosec'' ''EXC0009''])]"

definition getLinterExclusionPresets :: "string list \<Rightarrow> BaseRule list" where
  "getLinterExclusionPresets names =
     concat (map (\<lambda>name. case LinterExclusionPresets name of Some p \<Rightarrow> p | None \<Rightarrow> []) names)"

section \<open>ExclusionRules\<close>

record excludeRule =
  excBase :: baseRule
  internalReference :: string

definition newExcludeRule :: "(string \<Rightarrow> bool) \<Rightarrow> BaseRule \<Rightarrow> string \<Rightarrow> excludeRule option" where
  "newExcludeRule reOK rule pre =
     map_option (\<lambda>b. \<lparr>excBase = b, internalReference = cfgInternalReference rule\<rparr>) (newBaseRule reOK rule pre)"

definition optMsg :: "(string \<Rightarrow> string) \<Rightarrow> string \<Rightarrow> string option \<Rightarrow> string list" where
  "optMsg quote label r = (case r of
       None \<Rightarrow> []
     | Some p \<Rightarrow> (if p \<noteq> [] then [label @ '': '' @ quote p] else []))"

definition excludeRule_String :: "(string \<Rightarrow> string) \<Rightarrow> excludeRule \<Rightarrow> string" where
  "excludeRule_String quote e =
     (let b = excBase e in
      Join (optMsg quote ''Text'' (reText b) @ optMsg quote ''Source'' (reSource b) @
            optMsg quote ''Path'' (rePath b) @ optMsg quote ''Path Except'' (rePathExcept b) @
            (if length (ruleLinters b) > 0
             then [''Linters: '' @ quote (Join (ruleLinters b) '', '')] else [])) '', '')"

record ExclusionRules =
  erWarnUnused :: bool
  skippedCounter :: "string \<rightharpoonup> int"
  erRules :: "excludeRule list"

definition initSkipped :: "(string \<Rightarrow> string) \<Rightarrow> excludeRule list \<Rightarrow> (string \<rightharpoonup> int)" where
  "initSkipped quote rules =
     foldl (\<lambda>m rule. if internalReference rule = [] then m(excludeRule_String quote rule \<mapsto> 0) else m)
       Map.empty rules"

definition NewExclusionRules ::
  "(string \<Rightarrow> bool) \<Rightarrow> (string \<Rightarrow> string) \<Rightarrow> LinterExclusions \<Rightarrow> ExclusionRules option" where
  "NewExclusionRules reOK quote cfg =
     (let excludeRules = ExclRules cfg @ getLinterExclusionPresets (Presets cfg) in
      map_option (\<lambda>rules. \<lparr>erWarnUnused = WarnUnused cfg, skippedCounter = initSkipped quote rules, erRules = rules\<rparr>)
        (parseRules (newExcludeRule reOK) [] excludeRules))"

text \<open>The closure of \<open>Process\<close>: the first rule that matches drops the issue, and is counted unless
  it comes from a preset.\<close>

fun ExclusionRules_scan ::
  "(string \<Rightarrow> string \<Rightarrow> bool) \<Rightarrow> (string \<Rightarrow> string) \<Rightarrow> files \<Rightarrow> excludeRule list \<Rightarrow> Issue
    \<Rightarrow> ExclusionRules \<times> Caches \<Rightarrow> bool \<times> (ExclusionRules \<times> Caches)" where
  "ExclusionRules_scan reMatch quote fs [] issue (p, c) = (True, (p, c))"
| "ExclusionRules_scan reMatch quote fs (rule # rules) issue (p, c) =
     (let (m, c1) = baseRule_match reMatch fs (excBase rule) issue c in
      if \<not> m then ExclusionRules_scan reMatch quote fs rules issue (p, c1)
      else (False,
        (if internalReference rule = []
         then p\<lparr>skippedCounter := minc (skippedCounter p) (excludeRule_String quote rule)\<rparr> else p, c1)))"

definition ExclusionRules_Process ::
  "(string \<Rightarrow> string \<Rightarrow> bool) \<Rightarrow> (string \<Rightarrow> string) \<Rightarrow> files \<Rightarrow> ExclusionRules \<times> Caches \<Rightarrow> Issue list
    \<Rightarrow> (proc_error + Issue list) \<times> (ExclusionRules \<times> Caches)" where
  "ExclusionRules_Process reMatch quote fs s issues =
     (if length (erRules (fst s)) = 0 then (Inr issues, s)
      else let (os, s') = filterIssues (\<lambda>s issue. ExclusionRules_scan reMatch quote fs (erRules (fst s)) issue s) s issues
           in (Inr os, s'))"

text \<open>\<open>ks\<close> is the order in which the counters are visited.\<close>

definition ExclusionRules_Finish :: "string list \<Rightarrow> ExclusionRules \<Rightarrow> log_call list" where
  "ExclusionRules_Finish ks p =
     map (\<lambda>rule. let count = mget (skippedCounter p) rule in
       if erWarnUnused p \<and> count = 0
       then Warnf ''Skipped %d issues by rules: [%s]'' [LInt count, LStr rule]
       else Infof ''Skipped %d issues by rules: [%s]'' [LInt count, LStr rule]) ks"

section \<open>ExclusionPaths\<close>

text \<open>The counters are maps from compiled expressions, one object per configured pattern: the
  key is the position of the pattern.\<close>

record ExclusionPaths =
  pathPatterns :: "string list"
  pathExceptPatterns :: "string list"
  epWarnUnused :: bool
  excludedPathCounter :: "nat \<rightharpoonup> int"
  excludedPathExceptCounter :: "nat \<rightharpoonup> int"

fun compilePatterns :: "(string \<Rightarrow> bool) \<Rightarrow> string list \<Rightarrow> string + string list" where
  "compilePatterns reOK [] = Inr []"
| "compilePatterns reOK (p # ps) =
     (let p = NormalizePathInRegex p in
      if \<not> reOK p then Inl p
      else (case compilePatterns reOK ps of Inl e \<Rightarrow> Inl e | Inr rs \<Rightarrow> Inr (p # rs)))"

definition zeroCounter :: "string list \<Rightarrow> (nat \<rightharpoonup> int)" where
  "zeroCounter ps n = (if n < length ps then Some 0 else None)"

definition NewExclusionPaths :: "(string \<Rightarrow> bool) \<Rightarrow> LinterExclusions \<Rightarrow> string + ExclusionPaths" where
  "NewExclusionPaths reOK cfg =
     (case compilePatterns reOK (Paths cfg) of
        Inl e \<Rightarrow> Inl e
      | Inr pp \<Rightarrow> (case compilePatterns reOK (PathsExcept cfg) of
            Inl e \<Rightarrow> Inl e
          | Inr pe \<Rightarrow> Inr \<lparr>pathPatterns = pp, pathExceptPatterns = pe, epWarnUnused = WarnUnused cfg,
              excludedPathCounter = zeroCounter pp, excludedPathExceptCounter = zeroCounter pe\<rparr>))"

text \<open>The two loops of \<open>shouldPassIssue\<close>: the first matching pattern; all matching ``except'' patterns.\<close>

fun firstMatch :: "(string \<Rightarrow> string \<Rightarrow> bool) \<Rightarrow> string \<Rightarrow> nat \<Rightarrow> string list \<Rightarrow> nat option" where
  "firstMatch reMatch s n [] = None"
| "firstMatch reMatch s n (p # ps) = (if reMatch p s then Some n else firstMatch reMatch s (Suc n) ps)"

fun countMatches ::
  "(string \<Rightarrow> string \<Rightarrow> bool) \<Rightarrow> string \<Rightarrow> nat \<Rightarrow> string list \<Rightarrow> (nat \<rightharpoonup> int) \<Rightarrow> bool \<times> (nat \<rightharpoonup> int)" where
  "countMatches reMatch s n [] m = (False, m)"
| "countMatches reMatch s n (p # ps) m =
     (if \<not> reMatch p s then countMatches reMatch s (Suc n) ps m
      else let (_, m') = countMatches reMatch s (Suc n) ps (minc m n) in (True, m'))"

definition ExclusionPaths_shouldPassIssue ::
  "(string \<Rightarrow> string \<Rightarrow> bool) \<Rightarrow> ExclusionPaths \<Rightarrow> Issue \<Rightarrow> bool \<times> ExclusionPaths" where
  "ExclusionPaths_shouldPassIssue reMatch p issue =
     (case firstMatch reMatch (RelativePath issue) 0 (pathPatterns p) of
        Some n \<Rightarrow> (False, p\<lparr>excludedPathCounter := minc (excludedPathCounter p) n\<rparr>)
      | None \<Rightarrow>
          (if length (pathExceptPatterns p) = 0 then (True, p)
           else let (matched, m) = countMatches reMatch (RelativePath issue) 0 (pathExceptPatterns p)
                                     (excludedPathExceptCounter p)
                in (matched, p\<lparr>excludedPathExceptCounter := m\<rparr>)))"

definition ExclusionPaths_Process ::
  "(string \<Rightarrow> string \<Rightarrow> bool) \<Rightarrow> ExclusionPaths \<Rightarrow> Issue list \<Rightarrow> (proc_error + Issue list) \<times> ExclusionPaths" where
  "ExclusionPaths_Process reMatch p issues =
     (if length (pathPatterns p) = 0 \<and> length (pathExceptPatterns p) = 0 then (Inr issues, p)
      else let (os, p') = filterIssues (ExclusionPaths_shouldPassIssue reMatch) p issues in (Inr os, p'))"

definition ExclusionPaths_Finish :: "nat list \<Rightarrow> nat list \<Rightarrow> ExclusionPaths \<Rightarrow> log_call list" where
  "ExclusionPaths_Finish ks ks' p =
     map (\<lambda>n. let count = mget (excludedPathCounter p) n in
       if epWarnUnused p \<and> count = 0
       then Warnf ''The pattern %q match no issues'' [LStr (pathPatterns p ! n)]
       else Infof ''Skipped %d issues by pattern %q'' [LInt count, LStr (pathPatterns p ! n)]) ks @
     concat (map (\<lambda>n. if epWarnUnused p \<and> mget (excludedPathExceptCounter p) n = 0
       then [Warnf ''The pattern %q match no issues'' [LStr (pathExceptPatterns p ! n)]] else []) ks')"

section \<open>Severity\<close>

record severityRule =
  sevBase :: baseRule
  sevSeverity :: string

record SeverityProc =
  defaultSeverity :: string
  sevRules :: "severityRule list"

definition severityFromLinter :: string where
  "severityFromLinter = ''@linter''"

definition newSeverityRule :: "(string \<Rightarrow> bool) \<Rightarrow> SeverityRule \<Rightarrow> string \<Rightarrow> severityRule option" where
  "newSeverityRule reOK rule pre =
     map_option (\<lambda>b. \<lparr>sevBase = b, sevSeverity = cfgSeverity rule\<rparr>) (newBaseRule reOK rule pre)"

definition NewSeverity :: "(string \<Rightarrow> bool) \<Rightarrow> SeverityConfig \<Rightarrow> SeverityProc option" where
  "NewSeverity reOK cfg =
     map_option (\<lambda>rules. \<lparr>defaultSeverity = DefaultSeverity cfg, sevRules = rules\<rparr>)
       (parseRules (newSeverityRule reOK) [] (SeverityRules cfg))"

text \<open>\<open>cmp.Or\<close>: the first argument that is not the zero value.\<close>

definition cmpOr :: "string \<Rightarrow> string \<Rightarrow> string" where
  "cmpOr a b = (if a \<noteq> [] then a else b)"

fun Severity_transform_rules ::
  "(string \<Rightarrow> string \<Rightarrow> bool) \<Rightarrow> files \<Rightarrow> string \<Rightarrow> severityRule list \<Rightarrow> Issue \<Rightarrow> Caches \<Rightarrow> Issue \<times> Caches" where
  "Severity_transform_rules reMatch fs dflt [] issue c =
     (if dflt \<noteq> severityFromLinter then issue\<lparr>Severity := dflt\<rparr> else issue, c)"
| "Severity_transform_rules reMatch fs dflt (rule # rules) issue c =
     (let (m, c1) = baseRule_match reMatch fs (sevBase rule) issue c in
      if m then
        (if sevSeverity rule = severityFromLinter \<or> (sevSeverity rule = [] \<and> dflt = severityFromLinter)
         then issue else issue\<lparr>Severity := cmpOr (sevSeverity rule) dflt\<rparr>, c1)
      else Severity_transform_rules reMatch fs dflt rules issue c1)"

definition Severity_transform ::
  "(string \<Rightarrow> string \<Rightarrow> bool) \<Rightarrow> files \<Rightarrow> SeverityProc \<times> Caches \<Rightarrow> Issue \<Rightarrow> Issue option \<times> (SeverityProc \<times> Caches)" where
  "Severity_transform reMatch fs s issue =
     (let (p, c) = s; (i, c1) = Severity_transform_rules reMatch fs (defaultSeverity p) (sevRules p) issue c
      in (Some i, (p, c1)))"

definition Severity_Process ::
  "(string \<Rightarrow> string \<Rightarrow> bool) \<Rightarrow> files \<Rightarrow> SeverityProc \<times> Caches \<Rightarrow> Issue list
    \<Rightarrow> (proc_error + Issue list) \<times> (SeverityProc \<times> Caches)" where
  "Severity_Process reMatch fs s issues =
     (if length (sevRules (fst s)) = 0 \<and> defaultSeverity (fst s) = [] then (Inr issues, s)
      else let (os, s') = transformIssues (Severity_transform reMatch fs) s issues in (Inr os, s'))"

section \<open>What the processors decide\<close>

text \<open>The first rule that applies to an issue.\<close>

definition first_rule ::
  "(string \<Rightarrow> string \<Rightarrow> bool) \<Rightarrow> files \<Rightarrow> excludeRule list \<Rightarrow> Issue \<Rightarrow> excludeRule option" where
  "first_rule reMatch contents rules issue =
     List.find (\<lambda>r. rule_applies reMatch contents (excBase r) issue) rules"

lemma ExclusionRules_scan_spec:
  assumes "caches_ok c" and "contents = snapshot fs c"
  shows "(fst (ExclusionRules_scan reMatch quote fs rules issue (p, c)) \<longleftrightarrow>
           first_rule reMatch contents rules issue = None) \<and>
     fst (snd (ExclusionRules_scan reMatch quote fs rules issue (p, c))) =
           (case first_rule reMatch contents rules issue of
              Some r \<Rightarrow> if internalReference r = []
                then p\<lparr>skippedCounter := minc (skippedCounter p) (excludeRule_String quote r)\<rparr> else p
            | None \<Rightarrow> p) \<and>
     caches_ok (snd (snd (ExclusionRules_scan reMatch quote fs rules issue (p, c)))) \<and>
     snapshot fs (snd (snd (ExclusionRules_scan reMatch quote fs rules issue (p, c)))) = contents"
  using assms
proof (induction rules arbitrary: c)
  case (Cons r rules)
  let ?m = "baseRule_match reMatch fs (excBase r) issue c"
  note caches = baseRule_match_caches [OF Cons.prems(1), where reMatch = reMatch and r = "excBase r" and issue = issue]
  note app = baseRule_match_applies [OF Cons.prems(1), of reMatch fs "excBase r" issue]
  show ?case
  proof (cases "fst ?m")
    case True
    then show ?thesis using app caches Cons.prems by (auto simp: first_rule_def case_prod_unfold Let_def)
  next
    case False
    then show ?thesis using app caches Cons.prems Cons.IH [of "snd ?m"]
      by (simp add: first_rule_def case_prod_unfold Let_def)
  qed
qed (auto simp: first_rule_def)

lemma firstMatch_None: "firstMatch reMatch s n ps = None \<longleftrightarrow> (\<forall>p \<in> set ps. \<not> reMatch p s)"
  by (induction ps arbitrary: n) auto

lemma countMatches_fst: "fst (countMatches reMatch s n ps m) \<longleftrightarrow> (\<exists>p \<in> set ps. reMatch p s)"
  by (induction ps arbitrary: n m) (auto simp: case_prod_unfold Let_def)

definition path_passes :: "(string \<Rightarrow> string \<Rightarrow> bool) \<Rightarrow> string list \<Rightarrow> string list \<Rightarrow> Issue \<Rightarrow> bool" where
  "path_passes reMatch excl except i \<longleftrightarrow>
     (\<forall>p \<in> set excl. \<not> reMatch p (RelativePath i)) \<and>
     (except = [] \<or> (\<exists>p \<in> set except. reMatch p (RelativePath i)))"

lemma ExclusionPaths_shouldPassIssue_spec:
  "fst (ExclusionPaths_shouldPassIssue reMatch p i) \<longleftrightarrow>
     path_passes reMatch (pathPatterns p) (pathExceptPatterns p) i"
  "pathPatterns (snd (ExclusionPaths_shouldPassIssue reMatch p i)) = pathPatterns p"
  "pathExceptPatterns (snd (ExclusionPaths_shouldPassIssue reMatch p i)) = pathExceptPatterns p"
proof -
  show "fst (ExclusionPaths_shouldPassIssue reMatch p i) \<longleftrightarrow>
     path_passes reMatch (pathPatterns p) (pathExceptPatterns p) i"
  proof (cases "firstMatch reMatch (RelativePath i) 0 (pathPatterns p)")
    case None
    then have "\<forall>q \<in> set (pathPatterns p). \<not> reMatch q (RelativePath i)" by (simp add: firstMatch_None)
    with None show ?thesis
      by (auto simp: ExclusionPaths_shouldPassIssue_def path_passes_def countMatches_fst case_prod_unfold Let_def)
  next
    case (Some n)
    then have "\<not> (\<forall>q \<in> set (pathPatterns p). \<not> reMatch q (RelativePath i))"
      by (metis firstMatch_None option.distinct(1))
    with Some show ?thesis by (simp add: ExclusionPaths_shouldPassIssue_def path_passes_def)
  qed
qed (auto simp: ExclusionPaths_shouldPassIssue_def case_prod_unfold Let_def split: option.splits)

text \<open>The severity an issue gets, given the contents of the files.\<close>

fun severity_for ::
  "(string \<Rightarrow> string \<Rightarrow> bool) \<Rightarrow> files \<Rightarrow> string \<Rightarrow> severityRule list \<Rightarrow> Issue \<Rightarrow> string" where
  "severity_for reMatch contents dflt rules i =
     (let chosen = (case List.find (\<lambda>r. rule_applies reMatch contents (sevBase r) i) rules of
                      Some r \<Rightarrow> cmpOr (sevSeverity r) dflt | None \<Rightarrow> dflt)
      in if chosen = severityFromLinter then Severity i else chosen)"

lemma Severity_transform_rules_spec:
  assumes "caches_ok c"
  shows "fst (Severity_transform_rules reMatch fs dflt rules i c) =
           i\<lparr>Severity := severity_for reMatch (snapshot fs c) dflt rules i\<rparr> \<and>
     caches_ok (snd (Severity_transform_rules reMatch fs dflt rules i c)) \<and>
     snapshot fs (snd (Severity_transform_rules reMatch fs dflt rules i c)) = snapshot fs c"
  using assms
proof (induction rules arbitrary: c)
  case (Cons r rules)
  let ?m = "baseRule_match reMatch fs (sevBase r) i c"
  note caches = baseRule_match_caches [OF Cons.prems(1), where reMatch = reMatch and r = "sevBase r" and issue = i]
  note app = baseRule_match_applies [OF Cons.prems(1), of reMatch fs "sevBase r" i]
  show ?case
  proof (cases "fst ?m")
    case True
    then show ?thesis using app caches
      by (auto simp: case_prod_unfold Let_def cmpOr_def severityFromLinter_def)
  next
    case False
    then show ?thesis using app caches Cons.IH [of "snd ?m"] by (simp add: case_prod_unfold Let_def)
  qed
qed (auto simp: severityFromLinter_def)

section \<open>Contracts of the pipeline\<close>

lemma filterIssues_mset:
  "mset (fst (filterIssues f s issues)) \<subseteq># mset issues"
  "filter is_typecheck (fst (filterIssues f s issues)) = filter is_typecheck issues"
  using filterIssues_subseq [of f s issues "fst (filterIssues f s issues)" "snd (filterIssues f s issues)"]
    filterIssues_keeps_typecheck [of f s issues "fst (filterIssues f s issues)" "snd (filterIssues f s issues)"]
  by (simp_all add: subseq_mset)

lemma filter_typecheck_mset:
  "filter is_typecheck xs = filter is_typecheck ys \<Longrightarrow>
   filter_mset is_typecheck (mset xs) = filter_mset is_typecheck (mset ys)"
  by (metis mset_filter)

interpretation exclusionRules: typecheck_safe "ExclusionRules_Process reMatch quote fs"
  by unfold_locales
     (auto simp: ExclusionRules_Process_def Let_def case_prod_unfold filterIssues_mset
       intro: filter_typecheck_mset split: if_splits)

interpretation exclusionPaths: typecheck_safe "ExclusionPaths_Process reMatch"
  by unfold_locales
     (auto simp: ExclusionPaths_Process_def Let_def case_prod_unfold filterIssues_mset
       intro: filter_typecheck_mset split: if_splits)

interpretation severity: shrinking_processor "Severity_Process reMatch fs"
proof unfold_locales
  fix s :: "SeverityProc \<times> Caches" and issues os s'
  assume "Severity_Process reMatch fs s issues = (Inr os, s')"
  then show "length os \<le> length issues"
    using transformIssues_length [of "Severity_transform reMatch fs" s issues]
    by (auto simp: Severity_Process_def split: if_splits prod.splits)
qed

section \<open>Properties\<close>

text \<open>
  A compiled rule matches an issue exactly when it has at least one condition and every
  condition it has holds: the text, the path, not the excepted path, the linter, and the source line
  of the issue in the snapshot of the file; a line that cannot be read does not match. Matching keeps
  the caches coherent and no file's snapshot changes.
\<close>

theorem rule_matches_iff_conditions:
  assumes "caches_ok c"
  shows "(fst (baseRule_match reMatch fs r issue c) \<longleftrightarrow> rule_applies reMatch (snapshot fs c) r issue) \<and>
         caches_ok (snd (baseRule_match reMatch fs r issue c)) \<and>
         snapshot fs (snd (baseRule_match reMatch fs r issue c)) = snapshot fs c"
  using assms by (simp add: baseRule_match_applies baseRule_match_caches)

theorem rule_matches_iff_conditions_witness:
  "\<not> fst (baseRule_match (=) Map.empty
      \<lparr>reText = Some ''t'', reSource = Some ''x'', rePath = None, rePathExcept = None, ruleLinters = [''a'']\<rparr>
      (mkIssue ''a'' ''t'' ''f.go'' 1) (NewLineCache NewFileCache))"
  using rule_matches_iff_conditions [OF caches_ok_empty, of "(=)" Map.empty
      "\<lparr>reText = Some ''t'', reSource = Some ''x'', rePath = None, rePathExcept = None, ruleLinters = [''a'']\<rparr>"
      "mkIssue ''a'' ''t'' ''f.go'' 1" NewFileCache]
  by (simp add: rule_applies_def line_of_def snapshot_def NewLineCache_def NewFileCache_def)

text \<open>
  \<open>ExclusionRules\<close> keeps exactly the issues to which no rule applies and the issues of
  \<open>typecheck\<close>, in their order; and the counter of a rule text grows by the number of issues dropped
  whose first applicable rule is a configured rule (not one of a preset) with that text.
\<close>

theorem exclusion_rules_drop_and_count:
  assumes "caches_ok c"
    and "ExclusionRules_Process reMatch quote fs (p, c) issues = (Inr os, (p', c'))"
  shows "os = filter (\<lambda>i. is_typecheck i \<or>
             (\<forall>r \<in> set (erRules p). \<not> rule_applies reMatch (snapshot fs c) (excBase r) i)) issues \<and>
    mget (skippedCounter p') k = mget (skippedCounter p) k + int (length (filter (\<lambda>i. \<not> is_typecheck i \<and>
      (case first_rule reMatch (snapshot fs c) (erRules p) i of
         Some r \<Rightarrow> internalReference r = [] \<and> excludeRule_String quote r = k | None \<Rightarrow> False)) issues))"
proof (cases "erRules p = []")
  case True
  then show ?thesis using assms(2) by (simp add: ExclusionRules_Process_def first_rule_def)
next
  case False
  define f where "f s issue = ExclusionRules_scan reMatch quote fs (erRules (fst s)) issue s" for s issue
  define Q where "Q s \<longleftrightarrow> erRules (fst s) = erRules p \<and> caches_ok (snd s) \<and> snapshot fs (snd s) = snapshot fs c"
    for s :: "ExclusionRules \<times> Caches"
  let ?first = "first_rule reMatch (snapshot fs c) (erRules p)"
  have run: "os = fst (filterIssues f (p, c) issues)" "p' = fst (snd (filterIssues f (p, c) issues))"
    using assms(2) False by (auto simp: ExclusionRules_Process_def f_def [abs_def] Let_def case_prod_unfold)
  have step: "fst (f s i) = (?first i = None) \<and> Q (snd (f s i)) \<and>
      mget (skippedCounter (fst (snd (f s i)))) k = mget (skippedCounter (fst s)) k +
        (case ?first i of Some r \<Rightarrow> if internalReference r = [] \<and> excludeRule_String quote r = k then 1 else 0
                        | None \<Rightarrow> 0)" if "Q s" for s i
    using that ExclusionRules_scan_spec [of "snd s" "snapshot fs c" fs reMatch quote "erRules p" i "fst s"]
    by (auto simp: Q_def f_def split: option.splits)
  have Q0: "Q (p, c)" using assms(1) by (simp add: Q_def)
  have "fst (filterIssues f (p, c) issues) = filter (\<lambda>i. is_typecheck i \<or> ?first i = None) issues"
    using step by (intro filterIssues_by_inv [of Q, OF _ Q0]) blast
  moreover have "mget (skippedCounter (fst (snd (filterIssues f s issues)))) k =
      mget (skippedCounter (fst s)) k + int (length (filter (\<lambda>i. \<not> is_typecheck i \<and>
      (case ?first i of Some r \<Rightarrow> internalReference r = [] \<and> excludeRule_String quote r = k | None \<Rightarrow> False)) issues))"
    if "Q s" for s
    using that
  proof (induction issues arbitrary: s)
    case (Cons i issues)
    show ?case
      using step [OF Cons.prems, of i] Cons.IH [of s] Cons.IH [of "snd (f s i)"] Cons.prems
      by (auto simp: Let_def case_prod_unfold split: option.splits)
  qed simp
  moreover have "?first i = None \<longleftrightarrow> (\<forall>r \<in> set (erRules p). \<not> rule_applies reMatch (snapshot fs c) (excBase r) i)" for i
    by (auto simp: first_rule_def find_None_iff)
  ultimately show ?thesis
    using Q0 by (simp add: run)
qed

theorem exclusion_rules_drop_and_count_witness:
  "\<exists>os p' c'. ExclusionRules_Process (=) id Map.empty
      (\<lparr>erWarnUnused = False, skippedCounter = Map.empty,
        erRules = [\<lparr>excBase = \<lparr>reText = Some ''t'', reSource = None, rePath = None, rePathExcept = None,
          ruleLinters = [''a'']\<rparr>, internalReference = []\<rparr>]\<rparr>, NewLineCache NewFileCache)
      [mkIssue ''a'' ''t'' ''f.go'' 1] = (Inr os, (p', c')) \<and>
      os = [] \<and> mget (skippedCounter p') ''Text: t, Linters: a'' = 1"
proof -
  let ?rule = "\<lparr>excBase = \<lparr>reText = Some ''t'', reSource = None, rePath = None, rePathExcept = None,
          ruleLinters = [''a'']\<rparr>, internalReference = []\<rparr>"
  let ?p = "\<lparr>erWarnUnused = False, skippedCounter = Map.empty, erRules = [?rule]\<rparr>"
  let ?run = "ExclusionRules_Process (=) id Map.empty (?p, NewLineCache NewFileCache) [mkIssue ''a'' ''t'' ''f.go'' 1]"
  obtain os s' where "?run = (Inr os, s')"
    by (simp add: ExclusionRules_Process_def Let_def case_prod_unfold)
  then obtain p' c' where r: "?run = (Inr os, (p', c'))" by (cases s') auto
  show ?thesis
    using r exclusion_rules_drop_and_count [OF caches_ok_empty r, of "''Text: t, Linters: a''"]
    by (auto simp: rule_applies_def first_rule_def baseRule_isEmpty_def mkIssue_def typeCheckName_def
        excludeRule_String_def optMsg_def)
qed

lemma newBaseRule_of_valid:
  "BaseRule_Validate reOK b n = None \<Longrightarrow> \<exists>r. newBaseRule reOK b [] = Some r"
  by (auto simp: BaseRule_Validate_def newBaseRule_def compileOptional_def MustCompile_def
      validateOptionalRegex_def NormalizePathInRegex_def split: if_splits)

lemma parseRules_total: "(\<And>r. r \<in> set rs \<Longrightarrow> newFn r pre \<noteq> None) \<Longrightarrow> \<exists>vs. parseRules newFn pre rs = Some vs"
  by (induction rs) fastforce+

lemma validateRules_None: "validateRules v n rs = None \<longleftrightarrow> (\<forall>r \<in> set rs. v r = None)"
  by (induction rs arbitrary: n) (auto split: option.splits)

text \<open>
  Rules that pass the validation of the configuration compile: building the processors of
  exclusion rules and of severities from a validated configuration never panics, provided the
  patterns of the presets are themselves valid regular expressions.
\<close>

theorem validated_rules_never_panic:
  assumes "LinterExclusions_Validate reOK excl = None"
    and "Severity_Validate reOK sev = None"
    and "\<And>name rules r. LinterExclusionPresets name = Some rules \<Longrightarrow> r \<in> set rules \<Longrightarrow> reOK (cfgText r)"
  shows "(\<exists>p. NewExclusionRules reOK quote excl = Some p) \<and> (\<exists>p. NewSeverity reOK sev = Some p)"
proof -
  have preset: "newExcludeRule reOK r [] \<noteq> None" if "r \<in> set (getLinterExclusionPresets names)" for r names
  proof -
    from that obtain name where "r \<in> set (case LinterExclusionPresets name of Some p \<Rightarrow> p | None \<Rightarrow> [])"
      unfolding getLinterExclusionPresets_def by auto
    then obtain rules where n: "LinterExclusionPresets name = Some rules" "r \<in> set rules"
      by (cases "LinterExclusionPresets name") auto
    moreover from n have "cfgSource r = [] \<and> cfgPath r = [] \<and> cfgPathExcept r = []"
      by (auto simp: LinterExclusionPresets_def excRule_def split: if_splits)
    ultimately show ?thesis
      using assms(3) [OF n] by (simp add: newExcludeRule_def newBaseRule_def compileOptional_def MustCompile_def)
  qed
  have "ExcludeRule_Validate reOK r = None" if "r \<in> set (ExclRules excl)" for r
    using assms(1) that by (auto simp: LinterExclusions_Validate_def validateRules_None split: option.splits)
  then have "newExcludeRule reOK r [] \<noteq> None" if "r \<in> set (ExclRules excl)" for r
    using newBaseRule_of_valid that by (fastforce simp: ExcludeRule_Validate_def newExcludeRule_def)
  with preset have "\<exists>vs. parseRules (newExcludeRule reOK) [] (ExclRules excl @ getLinterExclusionPresets (Presets excl)) = Some vs"
    by (intro parseRules_total) auto
  then have 1: "\<exists>p. NewExclusionRules reOK quote excl = Some p"
    unfolding NewExclusionRules_def Let_def by auto
  have "SeverityRule_Validate reOK r = None" if "r \<in> set (SeverityRules sev)" for r
    using assms(2) that by (auto simp: Severity_Validate_def validateRules_None split: if_splits)
  then have "newSeverityRule reOK r [] \<noteq> None" if "r \<in> set (SeverityRules sev)" for r
    using newBaseRule_of_valid that by (fastforce simp: SeverityRule_Validate_def newSeverityRule_def split: if_splits)
  then have "\<exists>p. NewSeverity reOK sev = Some p"
    using parseRules_total [of "SeverityRules sev" "newSeverityRule reOK" "[]"] by (auto simp: NewSeverity_def)
  with 1 show ?thesis by blast
qed

theorem validated_rules_never_panic_witness:
  "\<exists>p. NewExclusionRules (\<lambda>p. p \<noteq> ''('') id
      \<lparr>Generated = [], WarnUnused = False, Presets = [''legacy''],
       ExclRules = [\<lparr>cfgLinters = [''a''], cfgPath = [], cfgPathExcept = [], cfgText = ''t'', cfgSource = [],
         cfgInternalReference = []\<rparr>], Paths = [], PathsExcept = []\<rparr> = Some p"
proof -
  let ?excl = "\<lparr>Generated = [], WarnUnused = False, Presets = [''legacy''],
       ExclRules = [\<lparr>cfgLinters = [''a''], cfgPath = [], cfgPathExcept = [], cfgText = ''t'', cfgSource = [],
         cfgInternalReference = []\<rparr>], Paths = [], PathsExcept = []\<rparr>"
  have v: "LinterExclusions_Validate (\<lambda>p. p \<noteq> ''('') ?excl = None"
    by (simp add: LinterExclusions_Validate_def ExcludeRule_Validate_def BaseRule_Validate_def
        validateOptionalRegex_def nonBlankConditions_def excludeRuleMinConditionsCount_def allPresets_def)
  have s: "Severity_Validate (\<lambda>p. p \<noteq> ''('') \<lparr>DefaultSeverity = [], SeverityRules = []\<rparr> = None"
    by (simp add: Severity_Validate_def)
  have "LinterExclusionPresets name = Some rules \<Longrightarrow> r \<in> set rules \<Longrightarrow> cfgText r \<noteq> ''(''" for name rules r
    by (auto simp: LinterExclusionPresets_def excRule_def split: if_splits)
  with validated_rules_never_panic [OF v s] show ?thesis by blast
qed

text \<open>
  \<open>ExclusionPaths\<close> keeps exactly the issues of \<open>typecheck\<close> and the issues whose relative path
  matches none of the excluded patterns and, if there are ``except'' patterns, at least one of those.
\<close>

theorem exclusion_paths_keep:
  assumes "ExclusionPaths_Process reMatch p issues = (Inr os, p')"
  shows "os = filter (\<lambda>i. is_typecheck i \<or>
      ((\<forall>q \<in> set (pathPatterns p). \<not> reMatch q (RelativePath i)) \<and>
       (pathExceptPatterns p = [] \<or> (\<exists>q \<in> set (pathExceptPatterns p). reMatch q (RelativePath i))))) issues"
proof (cases "pathPatterns p = [] \<and> pathExceptPatterns p = []")
  case True
  then show ?thesis using assms by (simp add: ExclusionPaths_Process_def)
next
  case False
  define Q where "Q q \<longleftrightarrow> pathPatterns q = pathPatterns p \<and> pathExceptPatterns q = pathExceptPatterns p"
    for q :: ExclusionPaths
  have "fst (filterIssues (ExclusionPaths_shouldPassIssue reMatch) p issues) =
      filter (\<lambda>i. is_typecheck i \<or> path_passes reMatch (pathPatterns p) (pathExceptPatterns p) i) issues"
    by (rule filterIssues_by_inv [of Q]) (auto simp: Q_def ExclusionPaths_shouldPassIssue_spec)
  then show ?thesis
    using assms False by (auto simp: ExclusionPaths_Process_def Let_def case_prod_unfold path_passes_def)
qed

theorem exclusion_paths_keep_witness:
  "\<exists>os p'. ExclusionPaths_Process (=)
      \<lparr>pathPatterns = [''f.go''], pathExceptPatterns = [], epWarnUnused = False,
       excludedPathCounter = Map.empty, excludedPathExceptCounter = Map.empty\<rparr>
      [mkIssue ''a'' ''t'' ''f.go'' 1, mkIssue ''a'' ''t'' ''g.go'' 1] = (Inr os, p') \<and>
      os = [mkIssue ''a'' ''t'' ''g.go'' 1]"
proof -
  let ?p = "\<lparr>pathPatterns = [''f.go''], pathExceptPatterns = [], epWarnUnused = False,
       excludedPathCounter = Map.empty, excludedPathExceptCounter = Map.empty\<rparr>"
  obtain os p' where r: "ExclusionPaths_Process (=) ?p
      [mkIssue ''a'' ''t'' ''f.go'' 1, mkIssue ''a'' ''t'' ''g.go'' 1] = (Inr os, p')"
    by (simp add: ExclusionPaths_Process_def Let_def case_prod_unfold)
  show ?thesis
    using r exclusion_paths_keep [OF r] by (auto simp: mkIssue_def typeCheckName_def)
qed

text \<open>
  \<open>Severity\<close> changes nothing but the severity of issues: each issue gets the severity of
  the first rule that applies to it, or the default when that is empty or no rule applies, and keeps
  the severity of its linter when the chosen one is \<open>@linter\<close>; without rules and default nothing
  changes.
\<close>

theorem severity_of_first_rule:
  assumes "caches_ok c"
    and "Severity_Process reMatch fs (p, c) issues = (Inr os, s')"
  shows "os = (if sevRules p = [] \<and> defaultSeverity p = [] then issues
    else map (\<lambda>i. i\<lparr>Severity :=
      (let chosen = (case List.find (\<lambda>r. rule_applies reMatch (snapshot fs c) (sevBase r) i) (sevRules p) of
                       Some r \<Rightarrow> if sevSeverity r \<noteq> [] then sevSeverity r else defaultSeverity p
                     | None \<Rightarrow> defaultSeverity p)
       in if chosen = ''@linter'' then Severity i else chosen)\<rparr>) issues)"
proof (cases "sevRules p = [] \<and> defaultSeverity p = []")
  case True
  then show ?thesis using assms(2) by (simp add: Severity_Process_def)
next
  case False
  define Q where "Q s \<longleftrightarrow> fst s = p \<and> caches_ok (snd s) \<and> snapshot fs (snd s) = snapshot fs c"
    for s :: "SeverityProc \<times> Caches"
  have "fst (transformIssues (Severity_transform reMatch fs) (p, c) issues) =
      map (\<lambda>i. i\<lparr>Severity := severity_for reMatch (snapshot fs c) (defaultSeverity p) (sevRules p) i\<rparr>) issues"
  proof (rule transformIssues_by_inv [of Q])
    fix s i
    assume "Q s"
    then show "fst (Severity_transform reMatch fs s i) =
        Some (i\<lparr>Severity := severity_for reMatch (snapshot fs c) (defaultSeverity p) (sevRules p) i\<rparr>) \<and>
        Q (snd (Severity_transform reMatch fs s i))"
      using Severity_transform_rules_spec [of "snd s" reMatch fs "defaultSeverity p" "sevRules p" i]
      by (auto simp: Q_def Severity_transform_def case_prod_unfold Let_def)
  qed (simp add: Q_def assms(1))
  moreover have "os = fst (transformIssues (Severity_transform reMatch fs) (p, c) issues)"
    using assms(2) False by (auto simp: Severity_Process_def Let_def case_prod_unfold)
  ultimately show ?thesis
    unfolding severity_for.simps cmpOr_def severityFromLinter_def by (simp only: if_not_P [OF False])
qed

theorem severity_of_first_rule_witness:
  "\<exists>os s'. Severity_Process (=) Map.empty
      (\<lparr>defaultSeverity = ''low'', sevRules = [\<lparr>sevBase = \<lparr>reText = Some ''t'', reSource = None, rePath = None,
         rePathExcept = None, ruleLinters = []\<rparr>, sevSeverity = ''high''\<rparr>]\<rparr>, NewLineCache NewFileCache)
      [mkIssue ''a'' ''t'' ''f.go'' 1, mkIssue ''a'' ''u'' ''f.go'' 1] = (Inr os, s') \<and>
      map Severity os = [''high'', ''low'']"
proof -
  let ?p = "\<lparr>defaultSeverity = ''low'', sevRules = [\<lparr>sevBase = \<lparr>reText = Some ''t'', reSource = None, rePath = None,
         rePathExcept = None, ruleLinters = []\<rparr>, sevSeverity = ''high''\<rparr>]\<rparr>"
  obtain os s' where r: "Severity_Process (=) Map.empty (?p, NewLineCache NewFileCache)
      [mkIssue ''a'' ''t'' ''f.go'' 1, mkIssue ''a'' ''u'' ''f.go'' 1] = (Inr os, s')"
    by (simp add: Severity_Process_def Let_def case_prod_unfold)
  show ?thesis
    using r severity_of_first_rule [OF caches_ok_empty r]
    by (auto simp: mkIssue_def rule_applies_def baseRule_isEmpty_def)
qed

end
