(* ===== verification/Nolint.thy ===== *)
theory Nolint
  imports Result_Issue
begin

text \<open>
  The \<open>nolint\<close> filter (\<open>pkg/result/processors/nolint_filter.go\<close>): issues on a line covered by a
  \<open>//nolint\<close> directive for their linter are dropped, and the issues of \<open>nolintlint\<close> about unused
  directives are dropped when the directive suppressed something.

  The parser of Go files, the linter database, the set of enabled linters and the Unicode functions
  on strings are parameters (\<open>NolintEnv\<close>): a parsed file is its comment groups and the nodes in the
  order in which \<open>ast.Walk\<close> visits them, with their positions.

  A directive owns the set of linters it suppressed something from (\<open>matchedIssueFromLinter\<close>). An
  expanded range is a copy of the directive's range that shares this map, so ranges refer to it: the
  reference is the position of the directive in its file, and \<open>matched\<close> is the store of the maps of
  all files.
\<close>

section \<open>Model\<close>

record CommentGroup =
  cgLine :: int
  cgColumn :: int
  cgEndLine :: int
  cgTexts :: "string list"

record AstNode =
  nodeLine :: int
  nodeColumn :: int
  nodeEndLine :: int

record AstFile =
  astComments :: "CommentGroup list"
  astNodes :: "AstNode list"

record NolintEnv =
  parseFile :: "string \<Rightarrow> AstFile option"
  lcNames :: "string \<Rightarrow> string list"
  enabledLinters :: "string \<Rightarrow> bool"
  toLower :: "string \<Rightarrow> string"
  trimSpace :: "string \<Rightarrow> string"

record ignoredRange =
  irLinters :: "string list"
  irMatched :: nat
  irFrom :: int
  irTo :: int
  irCol :: int
  irOriginal :: "nat option"

record NolintFilter =
  fileCache :: "string \<rightharpoonup> ignoredRange list"
  matched :: "string \<times> nat \<Rightarrow> string set"
  unknownLintersSet :: "string list"

definition nolintlintName :: string where
  "nolintlintName = ''nolintlint''"

abbreviation is_nolintlint :: "Issue \<Rightarrow> bool" where
  "is_nolintlint i \<equiv> FromLinter i = nolintlintName"

definition NewNolintFilter :: NolintFilter where
  "NewNolintFilter = \<lparr>fileCache = Map.empty, matched = (\<lambda>_. {}), unknownLintersSet = []\<rparr>"

definition ignoredRange_doesMatch :: "string set \<Rightarrow> ignoredRange \<Rightarrow> Issue \<Rightarrow> bool" where
  "ignoredRange_doesMatch matchedIssueFromLinter r issue =
     (if issueLine issue < irFrom r \<or> issueLine issue > irTo r then False
      else if length (irLinters r) = 0 \<and> \<not> is_nolintlint issue \<or> FromLinter issue \<in> set (irLinters r) then True
      else if is_nolintlint issue \<and> ExpectNoLint issue then
        (if ExpectedNoLintLinter issue \<noteq> [] then ExpectedNoLintLinter issue \<in> matchedIssueFromLinter
         else matchedIssueFromLinter \<noteq> {})
      else False)"

text \<open>The expression \<open>^nolint( |:|$)\<close>.\<close>

definition nolintPattern :: "string \<Rightarrow> bool" where
  "nolintPattern text \<longleftrightarrow> HasPrefix text ''nolint'' \<and>
     (case drop 6 text of [] \<Rightarrow> True | ch # _ \<Rightarrow> ch = CHR '' '' \<or> ch = CHR '':'')"

definition addUnknown :: "string \<Rightarrow> string list \<Rightarrow> string list" where
  "addUnknown name unk = (if name \<in> set unk then unk else unk @ [name])"

text \<open>The loop over the items of a directive: \<^const>\<open>None\<close> stands for a range for all linters.\<close>

fun directiveLinters ::
  "NolintEnv \<Rightarrow> string list \<Rightarrow> string list \<Rightarrow> string list \<Rightarrow> string list option \<times> string list" where
  "directiveLinters env [] linters unk = (Some linters, unk)"
| "directiveLinters env (item # items) linters unk =
     (let linterName = toLower env (trimSpace env item) in
      if linterName = ''all'' then (None, [])
      else if lcNames env linterName = [] then
        directiveLinters env items (linters @ [linterName]) (addUnknown linterName unk)
      else directiveLinters env items (linters @ lcNames env linterName) unk)"

definition buildRange :: "CommentGroup \<Rightarrow> nat \<Rightarrow> string list \<Rightarrow> ignoredRange" where
  "buildRange g ref linters =
     \<lparr>irLinters = linters, irMatched = ref, irFrom = cgLine g, irTo = cgEndLine g, irCol = cgColumn g,
      irOriginal = None\<rparr>"

definition extractInlineRangeFromComment ::
  "NolintEnv \<Rightarrow> string \<Rightarrow> CommentGroup \<Rightarrow> nat \<Rightarrow> string list \<Rightarrow> ignoredRange option \<times> string list" where
  "extractInlineRangeFromComment env text g ref unk =
     (let text = TrimLeft text ''/ '' in
      if \<not> nolintPattern text then (None, unk)
      else if HasPrefix text ''nolint:all'' \<or> \<not> HasPrefix text ''nolint:'' then
        (Some (buildRange g ref []), unk)
      else
        (let (text, _, _) = Cut text ''//'';
             (linters, unk') = directiveLinters env (Split (TrimPrefix text ''nolint:'') CHR '','') [] unk
         in (Some (buildRange g ref (case linters of None \<Rightarrow> [] | Some ls \<Rightarrow> ls)), unk')))"

text \<open>The two nested loops over comment groups and comments; \<open>ret\<close> holds the ranges found so far,
  so its length is the reference of the next one.\<close>

fun extractComments ::
  "NolintEnv \<Rightarrow> CommentGroup \<Rightarrow> string list \<Rightarrow> ignoredRange list \<Rightarrow> string list \<Rightarrow> ignoredRange list \<times> string list" where
  "extractComments env g [] ret unk = (ret, unk)"
| "extractComments env g (c # cs) ret unk =
     (case extractInlineRangeFromComment env c g (length ret) unk of
        (None, unk') \<Rightarrow> extractComments env g cs ret unk'
      | (Some ir, unk') \<Rightarrow> extractComments env g cs (ret @ [ir]) unk')"

fun extractFileCommentsInlineRanges ::
  "NolintEnv \<Rightarrow> CommentGroup list \<Rightarrow> ignoredRange list \<Rightarrow> string list \<Rightarrow> ignoredRange list \<times> string list" where
  "extractFileCommentsInlineRanges env [] ret unk = (ret, unk)"
| "extractFileCommentsInlineRanges env (g # gs) ret unk =
     (let (ret', unk') = extractComments env g (cgTexts g) ret unk
      in extractFileCommentsInlineRanges env gs ret' unk')"

definition rangeExpander_Visit :: "ignoredRange list \<Rightarrow> AstNode \<Rightarrow> ignoredRange list" where
  "rangeExpander_Visit inlineRanges node =
     (case List.find (\<lambda>r. irTo r = nodeLine node - 1 \<and> nodeColumn node = irCol r) inlineRanges of
        None \<Rightarrow> []
      | Some foundRange \<Rightarrow>
          [foundRange\<lparr>irOriginal := (case irOriginal foundRange of None \<Rightarrow> Some (irMatched foundRange) | o' \<Rightarrow> o'),
             irTo := (if irTo foundRange < nodeEndLine node then nodeEndLine node else irTo foundRange)\<rparr>])"

definition buildIgnoredRangesForFile ::
  "NolintEnv \<Rightarrow> AstFile \<Rightarrow> string list \<Rightarrow> ignoredRange list \<times> string list" where
  "buildIgnoredRangesForFile env f unk =
     (let (inlineRanges, unk') = extractFileCommentsInlineRanges env (astComments f) [] unk in
      if length inlineRanges = 0 then ([], unk')
      else (inlineRanges @ concat (map (rangeExpander_Visit inlineRanges) (astNodes f)), unk'))"

definition getOrCreateFileData :: "NolintEnv \<Rightarrow> NolintFilter \<Rightarrow> Issue \<Rightarrow> ignoredRange list \<times> NolintFilter" where
  "getOrCreateFileData env p issue =
     (case fileCache p (FilePath issue) of
        Some fd \<Rightarrow> (fd, p)
      | None \<Rightarrow>
          (case parseFile env (FilePath issue) of
             None \<Rightarrow> ([], p\<lparr>fileCache := (fileCache p)(FilePath issue \<mapsto> [])\<rparr>)
           | Some f \<Rightarrow>
               (let (ranges, unk) = buildIgnoredRangesForFile env f (unknownLintersSet p)
                in (ranges, p\<lparr>fileCache := (fileCache p)(FilePath issue \<mapsto> ranges), unknownLintersSet := unk\<rparr>))))"

definition mark :: "string \<times> nat \<Rightarrow> string \<Rightarrow> NolintFilter \<Rightarrow> NolintFilter" where
  "mark ref linter p = p\<lparr>matched := (matched p)(ref := insert linter (matched p ref))\<rparr>"

fun scanRanges :: "ignoredRange list \<Rightarrow> Issue \<Rightarrow> NolintFilter \<Rightarrow> bool \<times> NolintFilter" where
  "scanRanges [] issue p = (True, p)"
| "scanRanges (ir # irs) issue p =
     (if \<not> ignoredRange_doesMatch (matched p (FilePath issue, irMatched ir)) ir issue
      then scanRanges irs issue p
      else
        (let p1 = mark (FilePath issue, irMatched ir) (FromLinter issue) p;
             p2 = (case irOriginal ir of
                     None \<Rightarrow> p1
                   | Some ref \<Rightarrow> mark (FilePath issue, ref) (FromLinter issue) p1)
         in (False, p2)))"

definition NolintFilter_shouldPassIssue ::
  "NolintEnv \<Rightarrow> NolintFilter \<Rightarrow> Issue \<Rightarrow> (string + bool) \<times> NolintFilter" where
  "NolintFilter_shouldPassIssue env p issue =
     (if is_nolintlint issue \<and> ExpectNoLint issue \<and> ExpectedNoLintLinter issue \<noteq> [] \<and>
         \<not> enabledLinters env (ExpectedNoLintLinter issue)
      then (Inr False, p)
      else
        (let (fd, p1) = getOrCreateFileData env p issue; (ok, p2) = scanRanges fd issue p1
         in (Inr ok, p2)))"

definition sortWithNolintlintLast :: "Issue list \<Rightarrow> Issue list" where
  "sortWithNolintlintLast issues = stable_sort (\<lambda>a b. \<not> is_nolintlint a \<and> is_nolintlint b) issues"

definition NolintFilter_Process ::
  "NolintEnv \<Rightarrow> NolintFilter \<Rightarrow> Issue list \<Rightarrow> (proc_error + Issue list) \<times> NolintFilter" where
  "NolintFilter_Process env p issues =
     filterIssuesErr (NolintFilter_shouldPassIssue env) p (sortWithNolintlintLast issues)"

definition NolintFilter_Finish :: "NolintFilter \<Rightarrow> log_call list" where
  "NolintFilter_Finish p =
     (if length (unknownLintersSet p) = 0 then []
      else [Warnf ''Found unknown linters in //nolint directives: %s''
              [LStr (Join (stable_sort (\<lambda>a b. cmp_string a b < 0) (unknownLintersSet p)) '', '')]])"

section \<open>The ranges of a file\<close>

text \<open>The ranges of a file depend only on its parse: the set of unknown linters is an output.\<close>

definition fileRanges :: "NolintEnv \<Rightarrow> string \<Rightarrow> ignoredRange list" where
  "fileRanges env file =
     (case parseFile env file of None \<Rightarrow> [] | Some f \<Rightarrow> fst (buildIgnoredRangesForFile env f []))"

definition covers :: "ignoredRange \<Rightarrow> Issue \<Rightarrow> bool" where
  "covers r i \<longleftrightarrow> irFrom r \<le> issueLine i \<and> issueLine i \<le> irTo r \<and>
     (irLinters r = [] \<or> FromLinter i \<in> set (irLinters r))"

text \<open>The range that suppresses an issue: the first of its file that covers it.\<close>

definition hit :: "NolintEnv \<Rightarrow> Issue \<Rightarrow> ignoredRange option" where
  "hit env i = List.find (\<lambda>r. covers r i) (fileRanges env (FilePath i))"

lemma directiveLinters_unk: "fst (directiveLinters env items ls unk) = fst (directiveLinters env items ls unk')"
proof (induction items arbitrary: ls unk unk')
  case (Cons item items)
  show ?case
    unfolding directiveLinters.simps Let_def if_distrib [of fst] fst_conv
    by (intro if_cong refl Cons.IH)
qed simp

lemma extractInline_unk:
  "fst (extractInlineRangeFromComment env text g ref unk) = fst (extractInlineRangeFromComment env text g ref unk')"
  by (auto simp: extractInlineRangeFromComment_def Let_def case_prod_unfold directiveLinters_unk [of _ _ _ unk unk'])

lemma extractComments_unk: "fst (extractComments env g cs ret unk) = fst (extractComments env g cs ret unk')"
proof (induction cs arbitrary: ret unk unk')
  case (Cons c cs)
  show ?case
    using extractInline_unk [of env c g "length ret" unk unk'] Cons.IH
    by (auto split: prod.splits option.splits)
qed simp

lemma extractFile_unk:
  "fst (extractFileCommentsInlineRanges env gs ret unk) = fst (extractFileCommentsInlineRanges env gs ret unk')"
proof (induction gs arbitrary: ret unk unk')
  case (Cons g gs)
  show ?case
    using extractComments_unk [of env g "cgTexts g" ret unk unk'] Cons.IH
    by (simp add: Let_def case_prod_unfold)
qed simp

lemma buildIgnored_unk: "fst (buildIgnoredRangesForFile env f unk) = fst (buildIgnoredRangesForFile env f unk')"
  using extractFile_unk [of env "astComments f" "[]" unk unk']
  by (simp add: buildIgnoredRangesForFile_def Let_def case_prod_unfold)

text \<open>An expanded range refers to the map of the directive it expands.\<close>

definition own_ref :: "ignoredRange \<Rightarrow> bool" where
  "own_ref r \<longleftrightarrow> irOriginal r = None \<or> irOriginal r = Some (irMatched r)"

lemma extractInline_own_ref:
  "extractInlineRangeFromComment env text g ref unk = (Some r, unk') \<Longrightarrow> irOriginal r = None"
  by (auto simp: extractInlineRangeFromComment_def buildRange_def Let_def split: prod.splits if_splits)

lemma extractComments_own_ref:
  "list_all (\<lambda>r. irOriginal r = None) ret \<Longrightarrow>
   list_all (\<lambda>r. irOriginal r = None) (fst (extractComments env g cs ret unk))"
proof (induction cs arbitrary: ret unk)
  case (Cons c cs)
  obtain o' unk' where e: "extractInlineRangeFromComment env c g (length ret) unk = (o', unk')"
    by (meson surj_pair)
  show ?case
    using Cons e by (cases o') (auto dest: extractInline_own_ref)
qed simp

lemma extractFile_own_ref:
  "list_all (\<lambda>r. irOriginal r = None) ret \<Longrightarrow>
   list_all (\<lambda>r. irOriginal r = None) (fst (extractFileCommentsInlineRanges env gs ret unk))"
proof (induction gs arbitrary: ret unk)
  case (Cons g gs)
  then show ?case using extractComments_own_ref [of ret env g "cgTexts g" unk]
    by (simp add: Let_def case_prod_unfold)
qed simp

lemma Visit_own_ref:
  "list_all (\<lambda>r. irOriginal r = None) rs \<Longrightarrow> r \<in> set (rangeExpander_Visit rs node) \<Longrightarrow> own_ref r"
  by (cases "List.find (\<lambda>r. irTo r = nodeLine node - 1 \<and> nodeColumn node = irCol r) rs")
     (auto simp: rangeExpander_Visit_def own_ref_def list_all_iff find_Some_iff)

lemma fileRanges_own_ref: "r \<in> set (fileRanges env file) \<Longrightarrow> own_ref r"
proof -
  assume r: "r \<in> set (fileRanges env file)"
  then obtain f where f: "parseFile env file = Some f"
    by (cases "parseFile env file") (auto simp: fileRanges_def)
  let ?rs = "fst (extractFileCommentsInlineRanges env (astComments f) [] [])"
  have all: "list_all (\<lambda>r. irOriginal r = None) ?rs"
    by (rule extractFile_own_ref) simp
  have "r \<in> set ?rs \<or> (\<exists>n. r \<in> set (rangeExpander_Visit ?rs n))"
    using r f by (auto simp: fileRanges_def buildIgnoredRangesForFile_def Let_def case_prod_unfold split: if_splits)
  then show ?thesis
    using all Visit_own_ref [OF all] by (auto simp: list_all_iff own_ref_def)
qed

section \<open>The cache of ranges\<close>

definition nolint_ok :: "NolintEnv \<Rightarrow> NolintFilter \<Rightarrow> bool" where
  "nolint_ok env p \<longleftrightarrow> (\<forall>file fd. fileCache p file = Some fd \<longrightarrow> fd = fileRanges env file)"

lemma nolint_ok_New: "nolint_ok env NewNolintFilter"
  by (simp add: nolint_ok_def NewNolintFilter_def)

lemma getOrCreateFileData_ok:
  assumes "nolint_ok env p"
  shows "\<exists>p1. getOrCreateFileData env p issue = (fileRanges env (FilePath issue), p1) \<and>
           nolint_ok env p1 \<and> matched p1 = matched p"
  using assms buildIgnored_unk [of env _ "unknownLintersSet p" "[]"]
  by (auto simp: getOrCreateFileData_def nolint_ok_def fileRanges_def Let_def case_prod_unfold
      split: option.splits)

lemma mark_simps [simp]:
  "fileCache (mark k l p) = fileCache p"
  "matched (mark k l p) k' = (if k' = k then insert l (matched p k) else matched p k')"
  "mark k l (mark k l p) = mark k l p"
  by (auto simp: mark_def)

lemma nolint_ok_mark [simp]: "nolint_ok env (mark k l p) = nolint_ok env p"
  by (simp add: nolint_ok_def)

text \<open>The scan marks the directive of the first range that matches.\<close>

lemma scanRanges_find:
  "(\<And>r. r \<in> set rs \<Longrightarrow> own_ref r) \<Longrightarrow>
   scanRanges rs i p =
     (case List.find (\<lambda>r. ignoredRange_doesMatch (matched p (FilePath i, irMatched r)) r i) rs of
        None \<Rightarrow> (True, p)
      | Some r \<Rightarrow> (False, mark (FilePath i, irMatched r) (FromLinter i) p))"
proof (induction rs)
  case (Cons r rs)
  have "irOriginal r = None \<or> irOriginal r = Some (irMatched r)"
    using Cons.prems [of r] by (simp add: own_ref_def)
  with Cons show ?case by (auto simp: Let_def)
qed simp

lemma doesMatch_plain: "\<not> is_nolintlint i \<Longrightarrow> ignoredRange_doesMatch m r i = covers r i"
  by (auto simp: ignoredRange_doesMatch_def covers_def)

lemma shouldPass_total: "\<exists>ok. fst (NolintFilter_shouldPassIssue env p i) = Inr ok"
  by (auto simp: NolintFilter_shouldPassIssue_def Let_def case_prod_unfold)

section \<open>Sorting with nolintlint last\<close>

interpretation nolintlintLast: less_preorder "\<lambda>a b. \<not> is_nolintlint a \<and> is_nolintlint b"
  by unfold_locales auto

lemma sorted_partition:
  "sorted_wrt (\<lambda>a b. \<not> (\<not> P b \<and> P a)) xs \<Longrightarrow> xs = filter (\<lambda>x. \<not> P x) xs @ filter P xs"
proof (induction xs)
  case (Cons x xs)
  show ?case
  proof (cases "P x")
    case True
    with Cons.prems have "filter (\<lambda>x. \<not> P x) xs = []" "filter P xs = xs"
      by (auto simp: filter_empty_conv filter_id_conv)
    with True show ?thesis by simp
  qed (use Cons in auto)
qed simp

lemma sortWithNolintlintLast_partition:
  "sortWithNolintlintLast issues = filter (\<lambda>i. \<not> is_nolintlint i) issues @ filter is_nolintlint issues"
proof -
  let ?lt = "\<lambda>a b. \<not> is_nolintlint a \<and> is_nolintlint b" and ?xs = "sortWithNolintlintLast issues"
  have "?xs = filter (\<lambda>i. \<not> is_nolintlint i) ?xs @ filter is_nolintlint ?xs"
    by (rule sorted_partition) (use nolintlintLast.sorted_stable_sort in \<open>simp add: sortWithNolintlintLast_def\<close>)
  moreover have "filter (\<lambda>i. \<not> is_nolintlint i) ?xs = filter (\<lambda>i. \<not> is_nolintlint i) issues"
    "filter is_nolintlint ?xs = filter is_nolintlint issues"
    unfolding sortWithNolintlintLast_def by (rule stable_sort_keeps_class, simp)+
  ultimately show ?thesis by simp
qed

section \<open>The two phases of the filter\<close>

text \<open>What the issues of the first phase mark.\<close>

definition marks :: "NolintEnv \<Rightarrow> Issue set \<Rightarrow> string \<times> nat \<Rightarrow> string set" where
  "marks env J k = {FromLinter j | j. j \<in> J \<and> \<not> is_typecheck j \<and>
     (\<exists>r. hit env j = Some r \<and> k = (FilePath j, irMatched r))}"

lemma marks_insert:
  "marks env (insert i J) k =
     (if \<not> is_typecheck i \<and> (\<exists>r. hit env i = Some r \<and> k = (FilePath i, irMatched r))
      then insert (FromLinter i) (marks env J k) else marks env J k)"
  by (auto simp: marks_def)

lemma shouldPass_plain:
  assumes ok: "nolint_ok env p" and plain: "\<not> is_nolintlint i"
  shows "\<exists>p1. NolintFilter_shouldPassIssue env p i = (Inr (hit env i = None), p1) \<and> nolint_ok env p1 \<and>
    matched p1 = (\<lambda>k. if \<exists>r. hit env i = Some r \<and> k = (FilePath i, irMatched r)
                      then insert (FromLinter i) (matched p k) else matched p k)"
proof -
  obtain p1 where g: "getOrCreateFileData env p i = (fileRanges env (FilePath i), p1)"
    "nolint_ok env p1" "matched p1 = matched p"
    using getOrCreateFileData_ok [OF ok] by blast
  have "scanRanges (fileRanges env (FilePath i)) i p1 =
    (case hit env i of None \<Rightarrow> (True, p1)
     | Some r \<Rightarrow> (False, mark (FilePath i, irMatched r) (FromLinter i) p1))"
    unfolding hit_def using plain
    by (subst scanRanges_find) (auto simp: doesMatch_plain fileRanges_own_ref)
  with g plain show ?thesis
    by (cases "hit env i") (auto simp: NolintFilter_shouldPassIssue_def fun_eq_iff)
qed

lemma plain_phase:
  assumes "nolint_ok env p" "\<forall>i\<in>set issues. \<not> is_nolintlint i"
  shows "\<exists>p'. filterIssuesErr (NolintFilter_shouldPassIssue env) p issues =
      (Inr (filter (\<lambda>i. is_typecheck i \<or> hit env i = None) issues), p') \<and>
    nolint_ok env p' \<and> (\<forall>k. matched p' k = matched p k \<union> marks env (set issues) k)"
  using assms
proof (induction issues arbitrary: p)
  case Nil
  then show ?case by (simp add: marks_def)
next
  case (Cons i issues)
  obtain p1 where p1: "NolintFilter_shouldPassIssue env p i = (Inr (hit env i = None), p1)" "nolint_ok env p1"
    "matched p1 = (\<lambda>k. if \<exists>r. hit env i = Some r \<and> k = (FilePath i, irMatched r)
                      then insert (FromLinter i) (matched p k) else matched p k)"
    using shouldPass_plain Cons.prems by force
  define s where "s = (if is_typecheck i then p else p1)"
  have "nolint_ok env s" using p1 Cons.prems by (simp add: s_def)
  then obtain p' where p': "filterIssuesErr (NolintFilter_shouldPassIssue env) s issues =
      (Inr (filter (\<lambda>i. is_typecheck i \<or> hit env i = None) issues), p')" "nolint_ok env p'"
    "\<forall>k. matched p' k = matched s k \<union> marks env (set issues) k"
    using Cons.IH [of s] Cons.prems by auto
  moreover have "matched s k \<union> marks env (set issues) k = matched p k \<union> marks env (set (i # issues)) k" for k
    using p1(3) by (auto simp: s_def marks_insert)
  ultimately show ?case
    using p1(1) unfolding s_def by (cases "is_typecheck i") (auto simp: s_def)
qed

text \<open>A \<open>nolintlint\<close> issue about an unused directive for an enabled linter.\<close>

definition expects :: "NolintEnv \<Rightarrow> Issue \<Rightarrow> bool" where
  "expects env i \<longleftrightarrow> is_nolintlint i \<and> ExpectNoLint i \<and> ExpectedNoLintLinter i \<noteq> [] \<and>
     ExpectedNoLintLinter i \<noteq> nolintlintName \<and> enabledLinters env (ExpectedNoLintLinter i)"

definition used :: "NolintEnv \<Rightarrow> (string \<times> nat \<Rightarrow> string set) \<Rightarrow> Issue \<Rightarrow> bool" where
  "used env m i \<longleftrightarrow> (\<exists>r \<in> set (fileRanges env (FilePath i)). irFrom r \<le> issueLine i \<and> issueLine i \<le> irTo r \<and>
     (nolintlintName \<in> set (irLinters r) \<or> ExpectedNoLintLinter i \<in> m (FilePath i, irMatched r)))"

lemma shouldPass_nolintlint:
  assumes ok: "nolint_ok env p" and n: "is_nolintlint i"
  shows "\<exists>ok p1. NolintFilter_shouldPassIssue env p i = (Inr ok, p1) \<and> nolint_ok env p1 \<and>
    (\<forall>k. matched p1 k - {nolintlintName} = matched p k - {nolintlintName}) \<and>
    (expects env i \<longrightarrow> ok = (\<not> used env (matched p) i))"
proof -
  obtain p1 where g: "getOrCreateFileData env p i = (fileRanges env (FilePath i), p1)"
    "nolint_ok env p1" "matched p1 = matched p"
    using getOrCreateFileData_ok [OF ok] by blast
  let ?P = "\<lambda>r. ignoredRange_doesMatch (matched p (FilePath i, irMatched r)) r i"
  have scan: "scanRanges (fileRanges env (FilePath i)) i p1 =
    (case List.find ?P (fileRanges env (FilePath i)) of None \<Rightarrow> (True, p1)
     | Some r \<Rightarrow> (False, mark (FilePath i, irMatched r) (FromLinter i) p1))"
    by (subst scanRanges_find) (auto simp: fileRanges_own_ref g)
  have "List.find ?P (fileRanges env (FilePath i)) = None \<longleftrightarrow> \<not> used env (matched p) i" if "expects env i"
  proof -
    have "?P r \<longleftrightarrow> irFrom r \<le> issueLine i \<and> issueLine i \<le> irTo r \<and>
     (nolintlintName \<in> set (irLinters r) \<or> ExpectedNoLintLinter i \<in> matched p (FilePath i, irMatched r))" for r
      using that by (auto simp: expects_def ignoredRange_doesMatch_def)
    then show ?thesis by (auto simp: find_None_iff used_def)
  qed
  with g scan n ok show ?thesis
    by (cases "List.find ?P (fileRanges env (FilePath i))")
       (auto simp: NolintFilter_shouldPassIssue_def expects_def)
qed

lemma used_cong:
  assumes "\<And>k. m k - {nolintlintName} = m' k - {nolintlintName}" "expects env i"
  shows "used env m i = used env m' i"
proof -
  have "L \<in> m k \<longleftrightarrow> L \<in> m' k" if "L \<noteq> nolintlintName" for L k
    using assms(1) [of k] that by blast
  with assms(2) show ?thesis by (simp add: used_def expects_def)
qed

lemma nolintlint_phase:
  assumes ok: "nolint_ok env p" and all: "\<forall>i\<in>set issues. is_nolintlint i"
  shows "\<exists>os p'. filterIssuesErr (NolintFilter_shouldPassIssue env) p issues = (Inr os, p') \<and>
    filter (expects env) os = filter (\<lambda>i. expects env i \<and> (is_typecheck i \<or> \<not> used env (matched p) i)) issues"
proof -
  let ?Q = "\<lambda>s. nolint_ok env s \<and> (\<forall>k. matched s k - {nolintlintName} = matched p k - {nolintlintName})"
  have step: "?Q (snd (NolintFilter_shouldPassIssue env s i)) \<and>
      (expects env i \<longrightarrow> fst (NolintFilter_shouldPassIssue env s i) = Inr (\<not> used env (matched p) i))"
    if q: "?Q s" and i: "i \<in> set issues" for s i
  proof -
    obtain ok p1 where "NolintFilter_shouldPassIssue env s i = (Inr ok, p1)" "nolint_ok env p1"
      "\<forall>k. matched p1 k - {nolintlintName} = matched s k - {nolintlintName}"
      "expects env i \<longrightarrow> ok = (\<not> used env (matched s) i)"
      using shouldPass_nolintlint [of env s i] q i all by blast
    moreover have "expects env i \<Longrightarrow> used env (matched s) i = used env (matched p) i"
      using q by (intro used_cong) blast+
    ultimately show ?thesis using q by simp
  qed
  have "\<exists>os p'. filterIssuesErr (NolintFilter_shouldPassIssue env) p issues = (Inr os, p') \<and> ?Q p' \<and>
    filter (expects env) os = filter (\<lambda>i. expects env i \<and> (is_typecheck i \<or> \<not> used env (matched p) i)) issues"
    by (rule filterIssuesErr_class [where Q = ?Q, OF shouldPass_total]) (use step ok in auto)
  then show ?thesis by blast
qed

text \<open>The run as a whole: the issues of other linters first, those of \<open>nolintlint\<close> after them.\<close>

lemma Process_phases:
  assumes ok: "nolint_ok env p"
  obtains qs p' where
    "NolintFilter_Process env p issues =
       (Inr (filter (\<lambda>i. \<not> is_nolintlint i \<and> (is_typecheck i \<or> hit env i = None)) issues @ qs), p')"
    "filter (expects env) qs = filter (\<lambda>i. expects env i \<and>
       \<not> used env (\<lambda>k. matched p k \<union> marks env {j \<in> set issues. \<not> is_nolintlint j} k) i) issues"
    "\<forall>i \<in> set qs. is_nolintlint i"
proof -
  let ?f = "NolintFilter_shouldPassIssue env"
  let ?xs = "filter (\<lambda>i. \<not> is_nolintlint i) issues" and ?ys = "filter is_nolintlint issues"
  obtain p1 where 1: "filterIssuesErr ?f p ?xs = (Inr (filter (\<lambda>i. is_typecheck i \<or> hit env i = None) ?xs), p1)"
    "nolint_ok env p1" "matched p1 = (\<lambda>k. matched p k \<union> marks env {j \<in> set issues. \<not> is_nolintlint j} k)"
    using plain_phase [OF ok, of ?xs] by (auto simp: fun_eq_iff)
  obtain qs p' where 2: "filterIssuesErr ?f p1 ?ys = (Inr qs, p')"
    "filter (expects env) qs = filter (\<lambda>i. expects env i \<and> (is_typecheck i \<or> \<not> used env (matched p1) i)) ?ys"
    using nolintlint_phase [OF 1(2), of ?ys] by auto
  have "filter (\<lambda>i. expects env i \<and> (is_typecheck i \<or> \<not> used env (matched p1) i)) ?ys =
        filter (\<lambda>i. expects env i \<and> \<not> used env (matched p1) i) issues"
    by (auto simp: expects_def nolintlintName_def typeCheckName_def intro!: filter_cong)
  moreover have "\<forall>i \<in> set qs. is_nolintlint i"
    using subseq_set [OF filterIssuesErr_subseq [OF 2(1)]] by auto
  moreover have "filter (\<lambda>i. is_typecheck i \<or> hit env i = None) ?xs =
      filter (\<lambda>i. \<not> is_nolintlint i \<and> (is_typecheck i \<or> hit env i = None)) issues"
    by (auto intro!: filter_cong)
  ultimately show ?thesis
    using that filterIssuesErr_append [OF 1(1) 2(1)] 2(2) 1(3)
    by (simp add: NolintFilter_Process_def sortWithNolintlintLast_partition)
qed

lemma hit_None: "hit env i = None \<longleftrightarrow> (\<forall>r \<in> set (fileRanges env (FilePath i)). \<not> covers r i)"
  by (auto simp: hit_def find_None_iff)

lemma NolintFilter_Process_selects:
  "NolintFilter_Process env p issues = (Inr os, p') \<Longrightarrow> mset os \<subseteq># mset issues"
  using subseq_mset [OF filterIssuesErr_subseq, of "NolintFilter_shouldPassIssue env" p "sortWithNolintlintLast issues"]
  by (simp add: NolintFilter_Process_def sortWithNolintlintLast_def)

lemma NolintFilter_Process_typecheck:
  assumes "NolintFilter_Process env p issues = (Inr os, p')"
  shows "filter_mset is_typecheck (mset os) = filter_mset is_typecheck (mset issues)"
proof -
  have "filter is_typecheck os = filter is_typecheck (sortWithNolintlintLast issues)"
    using assms by (auto simp: NolintFilter_Process_def intro: filterIssuesErr_keeps_typecheck)
  then have "mset (filter is_typecheck os) = mset (filter is_typecheck (sortWithNolintlintLast issues))" by simp
  then show ?thesis by (simp add: sortWithNolintlintLast_def mset_filter)
qed

interpretation nolintFilter: typecheck_safe "NolintFilter_Process env"
  by unfold_locales (fact NolintFilter_Process_selects, fact NolintFilter_Process_typecheck)

section \<open>Properties\<close>

text \<open>C38: The nolint filter never fails, and of the issues of linters other than \<open>nolintlint\<close> it keeps,
  in their order and ahead of the \<open>nolintlint\<close> ones, exactly the type-checking errors and those that no
  range of their file covers: a range covers an issue whose line it spans when it names no linter or
  names the issue's linter.\<close>

theorem nolint_suppresses_covered_issues:
  assumes "nolint_ok env p"
  shows "\<exists>qs p'. NolintFilter_Process env p issues =
      (Inr (filter (\<lambda>i. \<not> is_nolintlint i \<and>
          (is_typecheck i \<or> (\<forall>r \<in> set (fileRanges env (FilePath i)). \<not> covers r i))) issues @ qs), p') \<and>
    (\<forall>i \<in> set qs. is_nolintlint i \<and> i \<in> set issues)"
proof -
  obtain qs p' where *: "NolintFilter_Process env p issues =
      (Inr (filter (\<lambda>i. \<not> is_nolintlint i \<and> (is_typecheck i \<or> hit env i = None)) issues @ qs), p')"
      "\<forall>i \<in> set qs. is_nolintlint i"
    by (rule Process_phases [OF assms, of issues]) blast
  moreover have "i \<in> set issues" if "i \<in> set qs" for i
    using nolintFilter.selects_member [OF *(1), of i] that by simp
  ultimately show ?thesis by (auto simp: hit_None)
qed

text \<open>An environment with one file, whose function on lines 2 to 4 is under a directive for one linter.\<close>

definition exampleFile :: AstFile where
  "exampleFile =
     \<lparr>astComments = [\<lparr>cgLine = 1, cgColumn = 1, cgEndLine = 1, cgTexts = [''//nolint:errcheck // why'']\<rparr>],
      astNodes = [\<lparr>nodeLine = 2, nodeColumn = 1, nodeEndLine = 4\<rparr>]\<rparr>"

definition exampleEnv :: NolintEnv where
  "exampleEnv =
     \<lparr>parseFile = (\<lambda>file. if file = ''a.go'' then Some exampleFile else None),
      lcNames = (\<lambda>n. if n = ''errcheck'' then [n] else []),
      enabledLinters = (\<lambda>n. n = ''errcheck''), toLower = id, trimSpace = (\<lambda>s. Trim s '' '')\<rparr>"

lemma example_ranges:
  "fileRanges exampleEnv ''a.go'' =
     [\<lparr>irLinters = [''errcheck''], irMatched = 0, irFrom = 1, irTo = 1, irCol = 1, irOriginal = None\<rparr>,
      \<lparr>irLinters = [''errcheck''], irMatched = 0, irFrom = 1, irTo = 4, irCol = 1, irOriginal = Some 0\<rparr>]"
  by code_simp

theorem nolint_suppresses_covered_issues_witness:
  "fst (NolintFilter_Process exampleEnv NewNolintFilter
     [mkIssue ''errcheck'' ''e'' ''a.go'' 3, mkIssue ''lll'' ''l'' ''a.go'' 3, mkIssue ''errcheck'' ''e'' ''a.go'' 5]) =
   Inr [mkIssue ''lll'' ''l'' ''a.go'' 3, mkIssue ''errcheck'' ''e'' ''a.go'' 5]"
proof -
  let ?is = "[mkIssue ''errcheck'' ''e'' ''a.go'' 3, mkIssue ''lll'' ''l'' ''a.go'' 3, mkIssue ''errcheck'' ''e'' ''a.go'' 5]"
  obtain qs p' where *: "NolintFilter_Process exampleEnv NewNolintFilter ?is =
      (Inr (filter (\<lambda>i. \<not> is_nolintlint i \<and>
          (is_typecheck i \<or> (\<forall>r \<in> set (fileRanges exampleEnv (FilePath i)). \<not> covers r i))) ?is @ qs), p')"
      "\<forall>i \<in> set qs. is_nolintlint i \<and> i \<in> set ?is"
    using nolint_suppresses_covered_issues [OF nolint_ok_New] by blast
  have "\<forall>i \<in> set ?is. \<not> is_nolintlint i" by (simp add: mkIssue_def nolintlintName_def)
  with *(2) have "qs = []" by (metis list.set_intros(1) neq_Nil_conv)
  with *(1) show ?thesis
    by (simp add: mkIssue_def nolintlintName_def typeCheckName_def FilePath_def example_ranges covers_def issueLine_def)
qed

text \<open>C2: An unused directive is reported, a used one is not. A \<open>nolintlint\<close> issue that expects its directive to
  suppress something from an enabled linter survives the filter exactly when no range over its line names
  \<open>nolintlint\<close> or belongs to a directive that suppressed an issue of that linter: that is the first
  covering range of some issue of this linter in this file, wherever \<open>nolintlint\<close> issues stand in the input.\<close>

theorem nolint_reports_unused_directive:
  assumes "NolintFilter_Process env NewNolintFilter issues = (Inr os, p')"
    and "is_nolintlint i" "ExpectNoLint i" "ExpectedNoLintLinter i = L"
    and "L \<noteq> []" "L \<noteq> nolintlintName" "L \<noteq> typeCheckName" "enabledLinters env L"
  shows "i \<in> set os \<longleftrightarrow> i \<in> set issues \<and>
    \<not> (\<exists>r \<in> set (fileRanges env (FilePath i)). irFrom r \<le> issueLine i \<and> issueLine i \<le> irTo r \<and>
         (nolintlintName \<in> set (irLinters r) \<or>
          (\<exists>j \<in> set issues. FromLinter j = L \<and> FilePath j = FilePath i \<and>
             (\<exists>r'. hit env j = Some r' \<and> irMatched r' = irMatched r))))"
proof -
  let ?m = "\<lambda>k. matched NewNolintFilter k \<union> marks env {j \<in> set issues. \<not> is_nolintlint j} k"
  obtain qs where os: "os = filter (\<lambda>i. \<not> is_nolintlint i \<and> (is_typecheck i \<or> hit env i = None)) issues @ qs"
    and qs: "filter (expects env) qs = filter (\<lambda>i. expects env i \<and> \<not> used env ?m i) issues"
    by (rule Process_phases [OF nolint_ok_New [of env], of issues]) (use assms(1) in simp)
  have e: "expects env i" using assms by (simp add: expects_def)
  have "L \<in> ?m (FilePath i, ref) \<longleftrightarrow> (\<exists>j \<in> set issues. FromLinter j = L \<and> FilePath j = FilePath i \<and>
             (\<exists>r'. hit env j = Some r' \<and> irMatched r' = ref))" for ref
    using assms(6,7) by (auto simp: marks_def NewNolintFilter_def)
  then have u: "used env ?m i \<longleftrightarrow> (\<exists>r \<in> set (fileRanges env (FilePath i)). irFrom r \<le> issueLine i \<and> issueLine i \<le> irTo r \<and>
         (nolintlintName \<in> set (irLinters r) \<or>
          (\<exists>j \<in> set issues. FromLinter j = L \<and> FilePath j = FilePath i \<and>
             (\<exists>r'. hit env j = Some r' \<and> irMatched r' = irMatched r))))"
    by (simp add: used_def assms(4))
  have "i \<in> set os \<longleftrightarrow> i \<in> set (filter (expects env) qs)"
    using os e assms(2) by auto
  then have "i \<in> set os \<longleftrightarrow> i \<in> set issues \<and> \<not> used env ?m i" using qs e by simp
  then show ?thesis unfolding u .
qed

theorem nolint_reports_unused_directive_witness:
  "let i = mkIssue ''nolintlint'' ''unused'' ''a.go'' 1\<lparr>ExpectNoLint := True, ExpectedNoLintLinter := ''errcheck''\<rparr>;
       j = mkIssue ''errcheck'' ''e'' ''a.go'' 3
   in (\<exists>os p'. NolintFilter_Process exampleEnv NewNolintFilter [i, j] = (Inr os, p') \<and> i \<notin> set os) \<and>
      (\<exists>os p'. NolintFilter_Process exampleEnv NewNolintFilter [i] = (Inr os, p') \<and> i \<in> set os)"
proof -
  define i where "i = mkIssue ''nolintlint'' ''unused'' ''a.go'' 1\<lparr>ExpectNoLint := True, ExpectedNoLintLinter := ''errcheck''\<rparr>"
  define j where "j = mkIssue ''errcheck'' ''e'' ''a.go'' 3"
  have i: "is_nolintlint i" "ExpectNoLint i" "ExpectedNoLintLinter i = ''errcheck''" "enabledLinters exampleEnv ''errcheck''"
    "FilePath i = ''a.go''" "issueLine i = 1" "FilePath j = ''a.go''" "issueLine j = 3" "FromLinter j = ''errcheck''"
    "FromLinter i = ''nolintlint''"
    by (simp_all add: i_def j_def mkIssue_def nolintlintName_def FilePath_def issueLine_def exampleEnv_def)
  have main: "i \<in> set os \<longleftrightarrow> i \<in> set issues \<and>
    \<not> (\<exists>r \<in> set (fileRanges exampleEnv (FilePath i)). irFrom r \<le> issueLine i \<and> issueLine i \<le> irTo r \<and>
         (nolintlintName \<in> set (irLinters r) \<or>
          (\<exists>j \<in> set issues. FromLinter j = ''errcheck'' \<and> FilePath j = FilePath i \<and>
             (\<exists>r'. hit exampleEnv j = Some r' \<and> irMatched r' = irMatched r))))"
    if "NolintFilter_Process exampleEnv NewNolintFilter issues = (Inr os, p')" for issues os p'
    using nolint_reports_unused_directive [OF that i(1,2,3)] i(4) by (simp add: nolintlintName_def typeCheckName_def)
  obtain os p' where 1: "NolintFilter_Process exampleEnv NewNolintFilter [i, j] = (Inr os, p')"
    by (rule Process_phases [OF nolint_ok_New]) blast
  obtain qs q' where 2: "NolintFilter_Process exampleEnv NewNolintFilter [i] = (Inr qs, q')"
    by (rule Process_phases [OF nolint_ok_New]) blast
  have "i \<notin> set os" using main [OF 1] i by (simp add: example_ranges hit_def covers_def)
  moreover have "i \<in> set qs" using main [OF 2] i by (simp add: example_ranges nolintlintName_def)
  ultimately show ?thesis using 1 2 unfolding Let_def i_def j_def by blast
qed

text \<open>A directive item \<open>all\<close> after other items turns the directive into one for all linters and forgets every
  unknown linter recorded so far, those of other directives and files included; without such an item every
  unknown item is recorded and the earlier ones are kept.\<close>

theorem directive_all_resets_unknown:
  "directiveLinters env items linters unk =
     (let names = map (\<lambda>item. toLower env (trimSpace env item)) items in
      if ''all'' \<in> set names then (None, [])
      else (Some (linters @ concat (map (\<lambda>n. if lcNames env n = [] then [n] else lcNames env n) names)),
            fold addUnknown (filter (\<lambda>n. lcNames env n = []) names) unk))"
  by (induction env items linters unk rule: directiveLinters.induct) (auto simp: Let_def)

end
