(* ===== verification/Sort_Results.thy ===== *)
theory Sort_Results
  imports Result_Issue
begin

text \<open>
  Sorting of the issues (\<open>pkg/result/processors/sort_results.go\<close>): comparators by file name, line,
  column, linter and severity, merged in the order of the configuration, handed to
  \<open>slices.SortFunc\<close>. Its documented contract is a parameter (\<open>SortFunc_contract\<close>): it permutes, and
  it sorts when the comparator is a strict weak ordering on the elements. The locale \<open>three_way\<close>
  is interpreted on the comparators, on the issues for which they satisfy that requirement.
\<close>

section \<open>Model\<close>

definition orderNameFile :: string where "orderNameFile = ''file''"
definition orderNameLinter :: string where "orderNameLinter = ''linter''"
definition orderNameSeverity :: string where "orderNameSeverity = ''severity''"

type_synonym issueComparator = "Issue \<Rightarrow> Issue \<Rightarrow> int"

definition numericCompare :: "int \<Rightarrow> int \<Rightarrow> int" where
  "numericCompare a b = (if a \<le> 0 \<or> b \<le> 0 then 0 else cmp_int a b)"

definition classic :: "string list" where
  "classic = [''low'', ''medium'', ''high'', ''warning'', ''error'']"

text \<open>\<open>slices.Index\<close>, with \<open>-1\<close> for a value that is not in the list.\<close>

fun slicesIndex :: "'a list \<Rightarrow> 'a \<Rightarrow> int" where
  "slicesIndex [] x = -1"
| "slicesIndex (y # ys) x = (if y = x then 0 else if slicesIndex ys x = -1 then -1 else slicesIndex ys x + 1)"

definition severityCompare :: "string \<Rightarrow> string \<Rightarrow> int" where
  "severityCompare a b =
     (if a \<in> set classic \<and> b \<in> set classic then cmp_int (slicesIndex classic a) (slicesIndex classic b)
      else if a \<in> set classic then 1
      else if b \<in> set classic then -1
      else cmp_string a b)"

definition byFileName :: issueComparator where
  "byFileName a b = cmp_string (FilePath a) (FilePath b)"

definition byLine :: issueComparator where
  "byLine a b = numericCompare (issueLine a) (issueLine b)"

definition byColumn :: issueComparator where
  "byColumn a b = numericCompare (issueColumn a) (issueColumn b)"

definition byLinter :: issueComparator where
  "byLinter a b = cmp_string (FromLinter a) (FromLinter b)"

definition bySeverity :: issueComparator where
  "bySeverity a b = severityCompare (Severity a) (Severity b)"

fun mergeComparators :: "issueComparator list \<Rightarrow> issueComparator" where
  "mergeComparators [] a b = 0"
| "mergeComparators (c # comps) a b =
     (let i = c a b in if i \<noteq> 0 then i else mergeComparators comps a b)"

text \<open>The processor: the table of comparators and the sort order of the shared output configuration,
  which the first run fills in when it is empty.\<close>

record SortResults =
  cmps :: "string \<rightharpoonup> issueComparator list"
  SortOrder :: "string list"

definition NewSortResults :: "string list \<Rightarrow> SortResults" where
  "NewSortResults order =
     \<lparr>cmps = [orderNameFile \<mapsto> [byFileName, byLine, byColumn], orderNameLinter \<mapsto> [byLinter],
              orderNameSeverity \<mapsto> [bySeverity]],
      SortOrder = order\<rparr>"

fun collectComparators ::
  "(string \<rightharpoonup> issueComparator list) \<Rightarrow> string list \<Rightarrow> issueComparator list \<Rightarrow> proc_error + issueComparator list" where
  "collectComparators table [] acc = Inr acc"
| "collectComparators table (name # names) acc =
     (case table name of
        None \<Rightarrow> Inl (UnsupportedSortOrder name)
      | Some c \<Rightarrow> collectComparators table names (acc @ c))"

definition SortResults_Process ::
  "(issueComparator \<Rightarrow> Issue list \<Rightarrow> Issue list) \<Rightarrow> SortResults \<Rightarrow> Issue list \<Rightarrow>
   (proc_error + Issue list) \<times> SortResults" where
  "SortResults_Process SortFunc p issues =
     (let p = (if length (SortOrder p) = 0 then p\<lparr>SortOrder := [orderNameLinter, orderNameFile]\<rparr> else p)
      in (case collectComparators (cmps p) (SortOrder p) [] of
            Inl e \<Rightarrow> (Inl e, p)
          | Inr cs \<Rightarrow> (Inr (SortFunc (mergeComparators cs) issues), p)))"

text \<open>The documented contract of \<open>slices.SortFunc\<close>.\<close>

definition SortFunc_contract :: "(('a \<Rightarrow> 'a \<Rightarrow> int) \<Rightarrow> 'a list \<Rightarrow> 'a list) \<Rightarrow> bool" where
  "SortFunc_contract SortFunc \<longleftrightarrow>
     (\<forall>cmp xs. mset (SortFunc cmp xs) = mset xs \<and>
        (three_way cmp (set xs) \<longrightarrow> sorted_wrt (\<lambda>a b. cmp a b \<le> 0) (SortFunc cmp xs)))"

section \<open>The comparators are lawful\<close>

lemma three_way_image:
  assumes "three_way cmp B" "\<And>a. a \<in> A \<Longrightarrow> f a \<in> B"
  shows "three_way (\<lambda>a b. cmp (f a) (f b)) A"
proof (unfold_locales, goal_cases)
  case (1 a b)
  then show ?case by (intro three_way.opposite [OF assms(1)] assms(2))
next
  case (2 a b c)
  then show ?case by (intro three_way.le_trans [OF assms(1), of "f a" "f b" "f c"] assms(2))
qed

lemma three_way_subset: "three_way cmp B \<Longrightarrow> A \<subseteq> B \<Longrightarrow> three_way cmp A"
  using three_way_image [of cmp B A "\<lambda>a. a"] by blast

lemma slicesIndex_nonneg: "x \<in> set ys \<Longrightarrow> 0 \<le> slicesIndex ys x"
  by (induction ys) auto

interpretation severity_cmp: three_way severityCompare UNIV
proof unfold_locales
  fix a b c
  show "sgn (severityCompare b a) = - sgn (severityCompare a b)"
    using int_cmp.opposite [of "slicesIndex classic a" "slicesIndex classic b"] string_cmp.opposite [of a b]
    by (simp add: severityCompare_def)
  show "severityCompare a c \<le> 0" if "severityCompare a b \<le> 0" "severityCompare b c \<le> 0"
    using that int_cmp.le_trans [of "slicesIndex classic a" "slicesIndex classic b" "slicesIndex classic c"]
      string_cmp.le_trans [of a b c]
    by (auto simp: severityCompare_def split: if_splits)
qed

interpretation numeric_cmp: three_way numericCompare "{n. 0 < n}"
  by unfold_locales (auto simp: numericCompare_def cmp_int_def split: if_splits)

definition positioned :: "Issue set" where
  "positioned = {i. 0 < issueLine i \<and> 0 < issueColumn i}"

interpretation byFileName: three_way byFileName positioned
  unfolding byFileName_def by (rule three_way_image [OF string_cmp.three_way_axioms]) simp

interpretation byLine: three_way byLine positioned
  unfolding byLine_def by (rule three_way_image [OF numeric_cmp.three_way_axioms]) (simp add: positioned_def)

interpretation byColumn: three_way byColumn positioned
  unfolding byColumn_def by (rule three_way_image [OF numeric_cmp.three_way_axioms]) (simp add: positioned_def)

interpretation byLinter: three_way byLinter positioned
  unfolding byLinter_def by (rule three_way_image [OF string_cmp.three_way_axioms]) simp

interpretation bySeverity: three_way bySeverity positioned
  unfolding bySeverity_def by (rule three_way_image [OF severity_cmp.three_way_axioms]) simp

text \<open>Comparing by one lawful comparator and then by another is lawful.\<close>

lemma three_way_lex:
  assumes "three_way c1 A" "three_way c2 A"
  shows "three_way (\<lambda>a b. if c1 a b \<noteq> 0 then c1 a b else c2 a b) A"
proof (unfold_locales, goal_cases)
  case (1 a b)
  then show ?case
    using three_way.opposite [OF assms(1), of a b] three_way.opposite [OF assms(2), of a b]
      three_way.zero_sym [OF assms(1), of a b] by simp
next
  case (2 a b c)
  note A = 2(1,2,3)
  have ab: "c1 a b < 0 \<or> c1 a b = 0 \<and> c2 a b \<le> 0" and bc: "c1 b c < 0 \<or> c1 b c = 0 \<and> c2 b c \<le> 0"
    using 2(4,5) by (auto split: if_splits)
  show ?case
  proof (cases "c1 a b < 0 \<or> c1 b c < 0")
    case True
    then have "c1 a c < 0"
      using ab bc A three_way.less_le_trans [OF assms(1), of a b c] three_way.le_less_trans [OF assms(1), of a b c]
      by force
    then show ?thesis by simp
  next
    case False
    then have z: "c1 a b = 0" "c1 b c = 0" "c2 a b \<le> 0" "c2 b c \<le> 0" using ab bc by auto
    then have "c1 b a = 0" "c1 c b = 0" using A three_way.zero_sym [OF assms(1)] by blast+
    then have "c1 a c \<le> 0" "c1 c a \<le> 0"
      using z A three_way.le_trans [OF assms(1), of a b c] three_way.le_trans [OF assms(1), of c b a] by auto
    moreover have "c1 a c \<le> 0 \<longleftrightarrow> 0 \<le> c1 c a" "c1 c a \<le> 0 \<longleftrightarrow> 0 \<le> c1 a c"
      using A three_way.flip_le [OF assms(1)] by blast+
    ultimately have "c1 a c = 0" by linarith
    then show ?thesis using z A three_way.le_trans [OF assms(2), of a b c] by simp
  qed
qed

lemma three_way_merge: "(\<And>c. c \<in> set cs \<Longrightarrow> three_way c A) \<Longrightarrow> three_way (mergeComparators cs) A"
proof (induction cs)
  case Nil
  then show ?case by unfold_locales auto
next
  case (Cons c cs)
  have "mergeComparators (c # cs) = (\<lambda>a b. if c a b \<noteq> 0 then c a b else mergeComparators cs a b)"
    by (simp add: fun_eq_iff Let_def)
  with Cons show ?case using three_way_lex [of c A "mergeComparators cs"] by simp
qed

lemma collectComparators_Inr:
  "collectComparators table names acc = Inr cs \<Longrightarrow>
   set cs = set acc \<union> (\<Union>n \<in> set names. set (the (table n)))"
  by (induction table names acc rule: collectComparators.induct) (auto split: option.splits)

lemma collectComparators_error:
  "(\<exists>e. collectComparators table names acc = Inl e) \<longleftrightarrow> (\<exists>n \<in> set names. table n = None)"
  by (induction table names acc rule: collectComparators.induct) (auto split: option.splits)

lemma order_names_distinct [simp]:
  "orderNameFile \<noteq> orderNameLinter" "orderNameFile \<noteq> orderNameSeverity" "orderNameLinter \<noteq> orderNameSeverity"
  "orderNameLinter \<noteq> orderNameFile" "orderNameSeverity \<noteq> orderNameFile" "orderNameSeverity \<noteq> orderNameLinter"
  by (simp_all add: orderNameFile_def orderNameLinter_def orderNameSeverity_def)

lemma NewSortResults_lawful:
  assumes "collectComparators (cmps (NewSortResults order)) names [] = Inr cs" "c \<in> set cs"
  shows "three_way c positioned"
proof -
  obtain n ds where n: "n \<in> set names" "cmps (NewSortResults order) n = Some ds" "c \<in> set ds"
  proof -
    obtain n where n: "n \<in> set names" "c \<in> set (the (cmps (NewSortResults order) n))"
      using collectComparators_Inr [OF assms(1)] assms(2) by auto
    moreover have "cmps (NewSortResults order) n \<noteq> None"
      using collectComparators_error [of "cmps (NewSortResults order)" names "[]"] assms(1) n(1) by auto
    ultimately show ?thesis using that by auto
  qed
  then have "c = byFileName \<or> c = byLine \<or> c = byColumn \<or> c = byLinter \<or> c = bySeverity"
    by (auto simp: NewSortResults_def split: if_splits)
  then show ?thesis
    using byFileName.three_way_axioms byLine.three_way_axioms byColumn.three_way_axioms
      byLinter.three_way_axioms bySeverity.three_way_axioms by blast
qed

lemma mergeComparators_default:
  "mergeComparators [byLinter, byFileName, byLine, byColumn] a b =
     (if byLinter a b \<noteq> 0 then byLinter a b else if byFileName a b \<noteq> 0 then byFileName a b
      else if byLine a b \<noteq> 0 then byLine a b else byColumn a b)"
  by (simp add: Let_def)

section \<open>The documented order\<close>

text \<open>What the criteria mean, field by field: a file criterion compares path, line and column, the known severities come after all
  others and in the order low, medium, high, warning, error, and texts are compared byte by byte.\<close>

definition severityRank :: "string \<Rightarrow> nat" where
  "severityRank s = (if s = ''low'' then 1 else if s = ''medium'' then 2 else if s = ''high'' then 3
     else if s = ''warning'' then 4 else if s = ''error'' then 5 else 0)"

definition earlierBy :: "string \<Rightarrow> Issue \<Rightarrow> Issue \<Rightarrow> bool" where
  "earlierBy name a b \<longleftrightarrow>
     (if name = ''file'' then cmp_string (FilePath a) (FilePath b) < 0 \<or> FilePath a = FilePath b \<and>
        (issueLine a < issueLine b \<or> issueLine a = issueLine b \<and> issueColumn a < issueColumn b)
      else if name = ''linter'' then cmp_string (FromLinter a) (FromLinter b) < 0
      else severityRank (Severity a) < severityRank (Severity b) \<or>
        severityRank (Severity a) = 0 \<and> severityRank (Severity b) = 0 \<and> cmp_string (Severity a) (Severity b) < 0)"

definition alikeBy :: "string \<Rightarrow> Issue \<Rightarrow> Issue \<Rightarrow> bool" where
  "alikeBy name a b \<longleftrightarrow>
     (if name = ''file'' then FilePath a = FilePath b \<and> issueLine a = issueLine b \<and> issueColumn a = issueColumn b
      else if name = ''linter'' then FromLinter a = FromLinter b
      else Severity a = Severity b)"

text \<open>The first criterion that tells two issues apart decides.\<close>

fun inConfiguredOrder :: "string list \<Rightarrow> Issue \<Rightarrow> Issue \<Rightarrow> bool" where
  "inConfiguredOrder [] a b \<longleftrightarrow> True"
| "inConfiguredOrder (name # names) a b \<longleftrightarrow> earlierBy name a b \<or> alikeBy name a b \<and> inConfiguredOrder names a b"

lemma merge_append: "mergeComparators (xs @ ys) a b = (if mergeComparators xs a b \<noteq> 0 then mergeComparators xs a b else mergeComparators ys a b)"
  by (induction xs) (simp_all add: Let_def)

lemma collectComparators_concat:
  "collectComparators table names acc = Inr cs \<Longrightarrow> cs = acc @ concat (map (\<lambda>n. the (table n)) names) \<and> (\<forall>n \<in> set names. table n \<noteq> None)"
  by (induction table names acc rule: collectComparators.induct) (auto split: option.splits)

lemma collectComparators_first_unknown:
  "collectComparators table names acc = Inl e \<Longrightarrow> \<exists>n. find (\<lambda>n. table n = None) names = Some n \<and> e = UnsupportedSortOrder n"
  by (induction table names acc rule: collectComparators.induct) (auto split: option.splits)

lemma classic_rank: "s \<in> set classic \<longleftrightarrow> severityRank s \<noteq> 0"
  unfolding classic_def severityRank_def by simp

lemma classic_index: "severityRank s \<noteq> 0 \<Longrightarrow> slicesIndex classic s = int (severityRank s) - 1"
  unfolding severityRank_def classic_def by (simp split: if_splits)

lemma severityRank_inject: "severityRank a \<noteq> 0 \<Longrightarrow> severityRank a = severityRank b \<longleftrightarrow> a = b"
  unfolding severityRank_def by (simp split: if_splits)

lemma severityCompare_cases:
  "severityCompare a b =
     (if severityRank a = 0 \<and> severityRank b = 0 then cmp_string a b else cmp_int (int (severityRank a)) (int (severityRank b)))"
  unfolding severityCompare_def by (simp add: classic_rank classic_index cmp_int_def)

lemma cmp_string_self: "cmp_string s s = 0"
  by (simp add: cmp_string_zero_iff)

lemma severityCompare_rank:
  "severityCompare a b < 0 \<longleftrightarrow> severityRank a < severityRank b \<or> severityRank a = 0 \<and> severityRank b = 0 \<and> cmp_string a b < 0"
  "severityCompare a b = 0 \<longleftrightarrow> a = b"
proof -
  show "severityCompare a b < 0 \<longleftrightarrow> severityRank a < severityRank b \<or> severityRank a = 0 \<and> severityRank b = 0 \<and> cmp_string a b < 0"
    by (auto simp: severityCompare_cases cmp_int_def)
  show "severityCompare a b = 0 \<longleftrightarrow> a = b"
    using severityRank_inject [of a b] severityRank_inject [of b a] by (auto simp: severityCompare_cases cmp_int_def cmp_string_zero_iff)
qed

text \<open>The comparators of each criterion, and what their results mean.\<close>

lemma criterion_comparators:
  "the (cmps (NewSortResults order) ''file'') = [byFileName, byLine, byColumn]"
  "the (cmps (NewSortResults order) ''linter'') = [byLinter]"
  "the (cmps (NewSortResults order) ''severity'') = [bySeverity]"
  by (simp_all add: NewSortResults_def orderNameFile_def orderNameLinter_def orderNameSeverity_def)

lemma numericCompare_sign:
  assumes "0 < m" "0 < n"
  shows "numericCompare m n < 0 \<longleftrightarrow> m < n" "numericCompare m n = 0 \<longleftrightarrow> m = n"
  using assms by (auto simp: numericCompare_def cmp_int_def)

lemma merge_three_sign:
  "mergeComparators [c, d, e] a b < 0 \<longleftrightarrow> c a b < 0 \<or> c a b = 0 \<and> (d a b < 0 \<or> d a b = 0 \<and> e a b < 0)"
  "mergeComparators [c, d, e] a b = 0 \<longleftrightarrow> c a b = 0 \<and> d a b = 0 \<and> e a b = 0"
  by (auto simp: Let_def)

lemma file_criterion:
  assumes "a \<in> positioned" "b \<in> positioned"
  shows "mergeComparators [byFileName, byLine, byColumn] a b < 0 \<longleftrightarrow> earlierBy ''file'' a b"
    and "mergeComparators [byFileName, byLine, byColumn] a b = 0 \<longleftrightarrow> alikeBy ''file'' a b"
  using assms
  by (simp_all only: merge_three_sign byFileName_def byLine_def byColumn_def earlierBy_def alikeBy_def positioned_def
      numericCompare_sign cmp_string_zero_iff mem_Collect_eq if_True simp_thms)

lemma criterion_meaning:
  assumes "name \<in> {''file'', ''linter'', ''severity''}" "a \<in> positioned" "b \<in> positioned"
  shows "mergeComparators (the (cmps (NewSortResults order) name)) a b < 0 \<longleftrightarrow> earlierBy name a b"
    and "mergeComparators (the (cmps (NewSortResults order) name)) a b = 0 \<longleftrightarrow> alikeBy name a b"
proof -
  consider "name = ''file''" | "name = ''linter''" | "name = ''severity''" using assms(1) by blast
  then have "(mergeComparators (the (cmps (NewSortResults order) name)) a b < 0 \<longleftrightarrow> earlierBy name a b) \<and>
    (mergeComparators (the (cmps (NewSortResults order) name)) a b = 0 \<longleftrightarrow> alikeBy name a b)"
  proof cases
    case 1
    then show ?thesis using file_criterion [OF assms(2,3)] by (simp only: criterion_comparators)
  next
    case 2
    then show ?thesis by (simp add: criterion_comparators byLinter_def earlierBy_def alikeBy_def cmp_string_zero_iff cmp_string_self)
  next
    case 3
    then show ?thesis using severityCompare_rank [of "Severity a" "Severity b"]
      by (auto simp: criterion_comparators bySeverity_def earlierBy_def alikeBy_def Let_def)
  qed
  then show "mergeComparators (the (cmps (NewSortResults order) name)) a b < 0 \<longleftrightarrow> earlierBy name a b"
    and "mergeComparators (the (cmps (NewSortResults order) name)) a b = 0 \<longleftrightarrow> alikeBy name a b" by blast+
qed

lemma merge_meaning:
  assumes "set names \<subseteq> {''file'', ''linter'', ''severity''}" "a \<in> positioned" "b \<in> positioned"
  shows "mergeComparators (concat (map (\<lambda>n. the (cmps (NewSortResults order) n)) names)) a b \<le> 0 \<longleftrightarrow> inConfiguredOrder names a b"
  using assms(1)
proof (induction names)
  case (Cons n names)
  note c = criterion_meaning [of n a b order]
  show ?case using Cons c assms(2,3) by (auto simp: merge_append)
qed simp

section \<open>Properties\<close>


lemma stable_sort_contract: "SortFunc_contract (\<lambda>cmp xs. stable_sort (\<lambda>a b. cmp a b < 0) xs)"
proof -
  have "sorted_wrt (\<lambda>a b. cmp a b \<le> 0) (stable_sort (\<lambda>a b. cmp a b < 0) xs)"
    if tw: "three_way cmp (set xs)" for cmp :: "'a \<Rightarrow> 'a \<Rightarrow> int" and xs
  proof -
    have le: "\<not> cmp b a < 0 \<longleftrightarrow> cmp a b \<le> 0" if "a \<in> set xs" "b \<in> set xs" for a b
      using three_way.flip_le [OF tw, of a b] that by auto
    have ins: "sorted_wrt (\<lambda>a b. cmp a b \<le> 0) (insert_stable (\<lambda>a b. cmp a b < 0) x ys)"
      if "sorted_wrt (\<lambda>a b. cmp a b \<le> 0) ys" "x \<in> set xs" "set ys \<subseteq> set xs" for x ys
      using that
    proof (induction ys)
      case (Cons y ys)
      show ?case
      proof (cases "cmp y x < 0")
        case False
        then have "cmp x y \<le> 0" using Cons.prems le by simp
        moreover have "cmp x z \<le> 0" if "z \<in> set ys" for z
          using Cons.prems that three_way.le_trans [OF tw, of x y z] \<open>cmp x y \<le> 0\<close> by auto
        ultimately show ?thesis using Cons.prems False by auto
      qed (use Cons in auto)
    qed simp
    have "set ys \<subseteq> set xs \<Longrightarrow> sorted_wrt (\<lambda>a b. cmp a b \<le> 0) (stable_sort (\<lambda>a b. cmp a b < 0) ys)" for ys
    proof (induction ys)
      case (Cons y ys)
      have "stable_sort (\<lambda>a b. cmp a b < 0) (y # ys) =
          insert_stable (\<lambda>a b. cmp a b < 0) y (stable_sort (\<lambda>a b. cmp a b < 0) ys)"
        by (simp add: stable_sort_def)
      then show ?case using ins Cons by simp
    qed (simp add: stable_sort_def)
    then show ?thesis by blast
  qed
  then show ?thesis by (simp add: SortFunc_contract_def)
qed


text \<open>With no configured order the issues are sorted by linter, then file, then line, then column, and the
  configuration keeps that order for later runs.\<close>

theorem sort_results_default_order:
  assumes "SortFunc_contract SortFunc" "\<forall>i \<in> set issues. 0 < issueLine i \<and> 0 < issueColumn i"
  shows "\<exists>os. SortResults_Process SortFunc (NewSortResults []) issues = (Inr os, NewSortResults [''linter'', ''file'']) \<and>
    mset os = mset issues \<and>
    sorted_wrt (\<lambda>a b. cmp_string (FromLinter a) (FromLinter b) < 0 \<or> FromLinter a = FromLinter b \<and>
      (cmp_string (FilePath a) (FilePath b) < 0 \<or> FilePath a = FilePath b \<and>
        (issueLine a < issueLine b \<or> issueLine a = issueLine b \<and> issueColumn a \<le> issueColumn b))) os"
proof -
  let ?cs = "[byLinter, byFileName, byLine, byColumn]"
  let ?os = "SortFunc (mergeComparators ?cs) issues"
  have collect: "collectComparators (cmps (NewSortResults [])) [orderNameLinter, orderNameFile] [] = Inr ?cs"
    by (simp add: NewSortResults_def)
  have tw: "three_way (mergeComparators ?cs) (set issues)"
    by (rule three_way_subset [OF three_way_merge [OF NewSortResults_lawful [OF collect]]])
       (use assms(2) in \<open>auto simp: positioned_def\<close>)
  have m: "mset ?os = mset issues" and s: "sorted_wrt (\<lambda>a b. mergeComparators ?cs a b \<le> 0) ?os"
    using assms(1) tw unfolding SortFunc_contract_def by blast+
  have set: "set ?os = set issues" using m by (metis set_mset_mset)
  have "sorted_wrt (\<lambda>a b. cmp_string (FromLinter a) (FromLinter b) < 0 \<or> FromLinter a = FromLinter b \<and>
      (cmp_string (FilePath a) (FilePath b) < 0 \<or> FilePath a = FilePath b \<and>
        (issueLine a < issueLine b \<or> issueLine a = issueLine b \<and> issueColumn a \<le> issueColumn b))) ?os"
  proof (rule sorted_wrt_mono_rel [OF _ s])
    fix a b assume ab: "a \<in> set ?os" "b \<in> set ?os" and le: "mergeComparators ?cs a b \<le> 0"
    have pos: "0 < issueLine a" "0 < issueLine b" "0 < issueColumn a" "0 < issueColumn b"
      using ab assms(2) unfolding set by blast+
    have "byLinter a b < 0 \<or> byLinter a b = 0 \<and> (byFileName a b < 0 \<or> byFileName a b = 0 \<and>
        (byLine a b < 0 \<or> byLine a b = 0 \<and> byColumn a b \<le> 0))"
      using le unfolding mergeComparators_default by (auto split: if_splits)
    then show "cmp_string (FromLinter a) (FromLinter b) < 0 \<or> FromLinter a = FromLinter b \<and>
      (cmp_string (FilePath a) (FilePath b) < 0 \<or> FilePath a = FilePath b \<and>
        (issueLine a < issueLine b \<or> issueLine a = issueLine b \<and> issueColumn a \<le> issueColumn b))"
      using pos by (auto simp: byLinter_def byFileName_def byLine_def byColumn_def numericCompare_def
          cmp_string_zero_iff cmp_int_def split: if_splits)
  qed
  moreover have "SortResults_Process SortFunc (NewSortResults []) issues = (Inr ?os, NewSortResults [''linter'', ''file''])"
    using collect by (simp add: SortResults_Process_def NewSortResults_def orderNameFile_def orderNameLinter_def)
  ultimately show ?thesis using m by blast
qed

theorem sort_results_default_order_witness:
  "let SortFunc = (\<lambda>cmp xs. stable_sort (\<lambda>a b. cmp a b < 0) xs); a = mkIssue ''l'' ''t'' ''a.go'' 3; b = mkIssue ''k'' ''t'' ''b.go'' 2
   in \<exists>os. SortResults_Process SortFunc (NewSortResults []) [a, b] = (Inr os, NewSortResults [''linter'', ''file'']) \<and>
        mset os = mset [a, b]"
  unfolding Let_def
  using sort_results_default_order [OF stable_sort_contract, of "[mkIssue ''l'' ''t'' ''a.go'' 3, mkIssue ''k'' ''t'' ''b.go'' 2]"]
  by (auto simp: mkIssue_def issueLine_def issueColumn_def)

text \<open>Without the requirement on positions the comparator by file is not an ordering: an issue without a line is
  equal to two issues that are not equal, so the requirement of \<open>slices.SortFunc\<close> is not met.\<close>

theorem zero_line_breaks_ordering:
  "\<not> three_way (mergeComparators [byFileName, byLine, byColumn])
     {mkIssue ''l'' ''t'' ''a.go'' 1, mkIssue ''l'' ''t'' ''a.go'' 0, mkIssue ''l'' ''t'' ''a.go'' 2}"
proof -
  have "mergeComparators [byFileName, byLine, byColumn] (mkIssue ''l'' ''t'' ''a.go'' 2) (mkIssue ''l'' ''t'' ''a.go'' 0) \<le> 0 \<and>
    mergeComparators [byFileName, byLine, byColumn] (mkIssue ''l'' ''t'' ''a.go'' 0) (mkIssue ''l'' ''t'' ''a.go'' 1) \<le> 0 \<and>
    \<not> mergeComparators [byFileName, byLine, byColumn] (mkIssue ''l'' ''t'' ''a.go'' 2) (mkIssue ''l'' ''t'' ''a.go'' 1) \<le> 0"
    by (simp add: Let_def byFileName_def byLine_def byColumn_def mkIssue_def FilePath_def issueLine_def issueColumn_def
        numericCompare_def cmp_int_def)
  then show ?thesis unfolding three_way_def by blast
qed

end
