(* ===== verification/Filepath.thy ===== *)
theory Filepath
  imports Go_Prelude
begin

text \<open>
  The lexical functions of \<open>path/filepath\<close> on Unix that the path processors call: \<open>Clean\<close>, \<open>Join\<close>,
  \<open>Abs\<close>, \<open>Dir\<close> and \<open>Rel\<close>, on the elements of a path. The working directory of the process is a
  parameter of \<open>Abs\<close>. The main fact is that joining a directory with the path of a file relative to
  it gives the file back.
\<close>

section \<open>Definitions\<close>

text \<open>The elements of a cleaned path on a stack: an empty element and a dot are dropped, two dots
  remove the last element unless there is none to remove.\<close>

fun cleanElems :: "bool \<Rightarrow> string list \<Rightarrow> string list \<Rightarrow> string list" where
  "cleanElems rooted [] acc = rev acc"
| "cleanElems rooted (e # es) acc =
     (if e = '''' \<or> e = ''.'' then cleanElems rooted es acc
      else if e = ''..'' then
        (case acc of
           [] \<Rightarrow> (if rooted then cleanElems rooted es [] else cleanElems rooted es [''..''])
         | last' # rest \<Rightarrow>
             (if last' = ''..'' then cleanElems rooted es (''..'' # acc) else cleanElems rooted es rest))
      else cleanElems rooted es (e # acc))"

definition pathElems :: "string \<Rightarrow> string list" where
  "pathElems path = cleanElems (FilepathIsAbs path) (Split path slash) []"

definition fromElems :: "bool \<Rightarrow> string list \<Rightarrow> string" where
  "fromElems rooted es = (if rooted then slash # Join es ''/'' else if es = [] then ''.'' else Join es ''/'')"

definition Clean :: "string \<Rightarrow> string" where
  "Clean path = fromElems (FilepathIsAbs path) (pathElems path)"

definition FilepathJoin :: "string list \<Rightarrow> string" where
  "FilepathJoin elems = (case dropWhile (\<lambda>e. e = []) elems of [] \<Rightarrow> [] | es \<Rightarrow> Clean (Join es ''/''))"

text \<open>\<open>Abs\<close> fails when the working directory cannot be determined; errors are their text.\<close>

definition FilepathAbs :: "string + string \<Rightarrow> string \<Rightarrow> string + string" where
  "FilepathAbs wd path =
     (if FilepathIsAbs path then Inr (Clean path)
      else (case wd of Inl err \<Rightarrow> Inl err | Inr d \<Rightarrow> Inr (FilepathJoin [d, path])))"

definition FilepathDir :: "string \<Rightarrow> string" where
  "FilepathDir path = Clean (rev (dropWhile (\<lambda>c. c \<noteq> slash) (rev path)))"

fun stripCommon :: "string list \<Rightarrow> string list \<Rightarrow> string list \<times> string list" where
  "stripCommon (b # bs) (t # ts) = (if b = t then stripCommon bs ts else (b # bs, t # ts))"
| "stripCommon bs ts = (bs, ts)"

definition relError :: "string \<Rightarrow> string \<Rightarrow> string" where
  "relError basepath targpath = ''Rel: can't make '' @ targpath @ '' relative to '' @ basepath"

definition FilepathRel :: "string \<Rightarrow> string \<Rightarrow> string + string" where
  "FilepathRel basepath targpath =
     (if Clean targpath = Clean basepath then Inr ''.''
      else if FilepathIsAbs basepath \<noteq> FilepathIsAbs targpath then Inl (relError basepath targpath)
      else
        (let (bs, ts) = stripCommon (pathElems basepath) (pathElems targpath)
         in if bs \<noteq> [] \<and> hd bs = ''..'' then Inl (relError basepath targpath)
            else Inr (Join (replicate (length bs) ''..'' @ ts) ''/'')))"

section \<open>Cleaned paths\<close>

lemma FilepathIsAbs_iff: "FilepathIsAbs path \<longleftrightarrow> (\<exists>s. path = slash # s)"
  by (cases path) (auto simp: FilepathIsAbs_def HasPrefix_def slash_def)

definition plain :: "string \<Rightarrow> bool" where
  "plain e \<longleftrightarrow> e \<noteq> '''' \<and> e \<noteq> ''.'' \<and> e \<noteq> ''..'' \<and> slash \<notin> set e"

text \<open>The elements of an absolute cleaned path are plain.\<close>

lemma cleanElems_plain:
  "(\<And>e. e \<in> set es \<Longrightarrow> slash \<notin> set e) \<Longrightarrow> list_all plain acc \<Longrightarrow> list_all plain (cleanElems True es acc)"
proof (induction es arbitrary: acc)
  case (Cons e es)
  have "slash \<notin> set e" using Cons.prems(1) by simp
  moreover have "cleanElems True (e # es) acc \<in> {cleanElems True es acc, cleanElems True es (tl acc)} \<or>
      cleanElems True (e # es) acc = cleanElems True es (e # acc) \<and> e \<notin> {'''', ''.'', ''..''}"
    using Cons.prems(2) by (cases acc) (simp_all add: plain_def)
  moreover have "list_all plain (cleanElems True es acc)" "list_all plain (cleanElems True es (tl acc))"
    using Cons.IH [of acc] Cons.IH [of "tl acc"] Cons.prems by (cases acc; simp)+
  moreover have "plain e \<Longrightarrow> list_all plain (cleanElems True es (e # acc))"
    using Cons.IH [of "e # acc"] Cons.prems by simp
  moreover have "e \<notin> {'''', ''.'', ''..''} \<Longrightarrow> slash \<notin> set e \<Longrightarrow> plain e" by (simp add: plain_def)
  ultimately show ?case by (metis insert_iff singletonD)
qed (simp add: list_all_iff)

lemma pathElems_plain: "FilepathIsAbs path \<Longrightarrow> list_all plain (pathElems path)"
  unfolding pathElems_def using cleanElems_plain [of "Split path slash" "[]"] Split_no_sep by simp

lemma cleanElems_push: "list_all plain es \<Longrightarrow> cleanElems r (es @ fs) acc = cleanElems r fs (rev es @ acc)"
  by (induction es arbitrary: acc) (auto simp: plain_def)

lemma cleanElems_id: "list_all plain es \<Longrightarrow> cleanElems r es [] = es"
  using cleanElems_push [of es r "[]" "[]"] by simp

lemma cleanElems_pop:
  "list_all plain up \<Longrightarrow> cleanElems r (replicate (length up) ''..'' @ fs) (up @ acc) = cleanElems r fs acc"
  by (induction up) (auto simp: plain_def)

lemma Split_append_sep: "Split (a @ [d] @ b) d = Split a d @ Split b d"
  by (induction a) (auto split: list.splits)

lemma Split_single: "d \<notin> set w \<Longrightarrow> Split w d = [w]"
  by (induction w) auto

lemma Split_Join: "es \<noteq> [] \<Longrightarrow> (\<And>e. e \<in> set es \<Longrightarrow> d \<notin> set e) \<Longrightarrow> Split (Join es [d]) d = es"
proof (induction es)
  case (Cons e es)
  show ?case
  proof (cases "es = []")
    case True
    with Cons.prems show ?thesis by (simp add: Split_single)
  next
    case False
    with Cons show ?thesis by (simp add: Join_Cons Split_append_sep [simplified] Split_single)
  qed
qed simp

lemma Split_Join_slash:
  "es \<noteq> [] \<Longrightarrow> (\<And>e. e \<in> set es \<Longrightarrow> slash \<notin> set e) \<Longrightarrow> Split (Join es ''/'') slash = es"
  using Split_Join [of es slash] by (simp add: slash_def)

text \<open>The cleaned form of an absolute path keeps its elements and is its own cleaned form.\<close>

lemma pathElems_rooted:
  assumes "list_all plain es"
  shows "pathElems (slash # Join es ''/'') = es" "FilepathIsAbs (slash # Join es ''/'')"
proof -
  have "Split (Join es ''/'') slash = (if es = [] then [''''] else es)"
    using assms Split_Join_slash [of es] by (auto simp: list_all_iff plain_def)
  then show "pathElems (slash # Join es ''/'') = es"
    using assms cleanElems_id [of es]
    by (simp add: pathElems_def FilepathIsAbs_def HasPrefix_def slash_def)
  show "FilepathIsAbs (slash # Join es ''/'')"
    by (simp add: FilepathIsAbs_def HasPrefix_def slash_def)
qed

lemma Clean_abs:
  assumes "FilepathIsAbs path"
  shows "Clean path = slash # Join (pathElems path) ''/''"
  using assms by (simp add: Clean_def fromElems_def)

lemma Clean_idem_abs: "FilepathIsAbs path \<Longrightarrow> Clean (Clean path) = Clean path"
  using pathElems_rooted [OF pathElems_plain, of path] by (simp add: Clean_def fromElems_def)

lemma Clean_IsAbs: "FilepathIsAbs path \<Longrightarrow> FilepathIsAbs (Clean path)"
  using pathElems_rooted [OF pathElems_plain, of path] by (simp add: Clean_abs)

lemma FilepathAbs_IsAbs: "FilepathIsAbs d \<Longrightarrow> FilepathAbs (Inr d) path = Inr p \<Longrightarrow> FilepathIsAbs p"
proof -
  assume d: "FilepathIsAbs d" and p: "FilepathAbs (Inr d) path = Inr p"
  have "FilepathIsAbs (Join [d, path] ''/'')"
    using d by (auto simp: FilepathIsAbs_iff)
  moreover have "d \<noteq> []" using d by (auto simp: FilepathIsAbs_def)
  ultimately show ?thesis
    using p Clean_IsAbs by (auto simp: FilepathAbs_def FilepathJoin_def split: if_splits)
qed

section \<open>Relative paths\<close>

lemma stripCommon_split:
  "stripCommon bs ts = (bs', ts') \<Longrightarrow> \<exists>pre. bs = pre @ bs' \<and> ts = pre @ ts'"
proof (induction bs ts arbitrary: bs' ts' rule: stripCommon.induct)
  case (1 b bs t ts)
  show ?case
  proof (cases "b = t")
    case True
    then obtain pre where "bs = pre @ bs'" "ts = pre @ ts'" using 1 by auto
    then show ?thesis using True by (intro exI [of _ "b # pre"]) simp
  qed (use 1 in auto)
qed auto

text \<open>Joining a directory with a path of plain and parent elements.\<close>

lemma pathElems_Join:
  assumes d: "FilepathIsAbs d" and es: "es \<noteq> []" "\<And>e. e \<in> set es \<Longrightarrow> slash \<notin> set e"
  shows "FilepathJoin [d, Join es ''/''] = slash # Join (cleanElems True (Split d slash @ es) []) ''/''"
proof -
  have ne: "d \<noteq> []" using d by (auto simp: FilepathIsAbs_def)
  have abs: "FilepathIsAbs (d @ ''/'' @ Join es ''/'')" using d by (auto simp: FilepathIsAbs_iff)
  have "pathElems (d @ ''/'' @ Join es ''/'') = cleanElems True (Split d slash @ es) []"
    using abs Split_append_sep [of d slash "Join es ''/''"] Split_Join_slash [OF es]
    by (simp add: pathElems_def slash_def)
  then show ?thesis using ne abs by (simp add: FilepathJoin_def Clean_def fromElems_def)
qed

lemma cleanElems_append:
  "list_all plain (cleanElems True es acc) \<Longrightarrow>
   cleanElems True (es @ fs) acc = cleanElems True fs (rev (cleanElems True es acc))"
  by (induction "True" es acc rule: cleanElems.induct) (auto split: list.splits)

lemma Rel_Join:
  assumes base: "FilepathIsAbs base" and targ: "FilepathIsAbs targ" and rel: "FilepathRel base targ = Inr r"
  shows "FilepathJoin [base, r] = Clean targ"
proof (cases "Clean targ = Clean base")
  case True
  then have "r = ''.''" using rel by (simp add: FilepathRel_def)
  then have "FilepathJoin [base, r] = slash # Join (cleanElems True (Split base slash @ [''.'']) []) ''/''"
    using pathElems_Join [OF base, of "[''.'']"] by (simp add: slash_def)
  also have "cleanElems True (Split base slash @ [''.'']) [] = pathElems base"
    using cleanElems_append [of "Split base slash" "[]" "[''.'']"] pathElems_plain [OF base] base
    by (simp add: pathElems_def)
  finally show ?thesis using True base by (simp add: Clean_abs)
next
  case False
  obtain bs ts where st: "stripCommon (pathElems base) (pathElems targ) = (bs, ts)" by fastforce
  obtain pre where pre: "pathElems base = pre @ bs" "pathElems targ = pre @ ts"
    using stripCommon_split [OF st] by blast
  let ?es = "replicate (length bs) ''..'' @ ts"
  have r: "r = Join ?es ''/''" using rel False base targ st by (auto simp: FilepathRel_def split: if_splits)
  have pl: "list_all plain pre" "list_all plain bs" "list_all plain ts"
    using pathElems_plain [OF base] pathElems_plain [OF targ] pre by simp_all
  have ne: "?es \<noteq> []"
    using False pre base targ by (auto simp: Clean_abs)
  have ns: "slash \<notin> set e" if "e \<in> set ?es" for e
  proof -
    have "e = ''..'' \<or> plain e" using that pl(3) by (auto simp: list_all_iff)
    then show ?thesis by (auto simp: plain_def) (simp add: slash_def)
  qed
  have "cleanElems True (Split base slash @ ?es) [] = cleanElems True ?es (rev (pathElems base))"
    using cleanElems_append [of "Split base slash" "[]" ?es] pathElems_plain [OF base] base
    by (simp add: pathElems_def)
  also have "\<dots> = cleanElems True ts (rev pre)"
    using cleanElems_pop [of "rev bs" True ts "rev pre"] pl(2) pre(1) by simp
  also have "\<dots> = pathElems targ"
    using cleanElems_push [of ts True "[]" "rev pre"] pl(3) pre(2) by simp
  finally show ?thesis
    using pathElems_Join [OF base ne ns] r targ by (simp add: Clean_abs)
qed

text \<open>Between absolute paths there is always a relative one.\<close>

lemma Rel_total:
  assumes base: "FilepathIsAbs base" and targ: "FilepathIsAbs targ"
  shows "\<exists>r. FilepathRel base targ = Inr r"
proof -
  obtain bs ts where st: "stripCommon (pathElems base) (pathElems targ) = (bs, ts)" by fastforce
  obtain pre where "pathElems base = pre @ bs" using stripCommon_split [OF st] by blast
  then have "list_all plain bs" using pathElems_plain [OF base] by simp
  then show ?thesis using st base targ by (cases bs) (auto simp: FilepathRel_def plain_def)
qed

end
