(* ===== verification/Path_Processors.thy ===== *)
theory Path_Processors
  imports Result_Issue Filepath
begin

text \<open>
  The processors that work on the path of an issue (\<open>pkg/result/processors\<close>: \<open>path_absoluter.go\<close>,
  \<open>cgo.go\<close>, \<open>filename_unadjuster.go\<close>, \<open>invalid_issue.go\<close>, \<open>path_relativity.go\<close>,
  \<open>path_shortener.go\<close>, \<open>path_prettifier.go\<close>). The working directory is a parameter, an error or a
  path; the Go parser of the unadjuster is a parameter that gives, for a file, its adjusted and
  unadjusted name and the unadjusted positions of its offsets. The calls of the logger are part of
  the state.
\<close>

section \<open>PathAbsoluter\<close>

definition PathAbsoluter_transform ::
  "string + string \<Rightarrow> log_call list \<Rightarrow> Issue \<Rightarrow> Issue option \<times> log_call list" where
  "PathAbsoluter_transform wd log issue =
     (if FilepathIsAbs (FilePath issue) then (Some issue, log)
      else (case FilepathAbs wd (FilePath issue) of
              Inl err \<Rightarrow>
                (None, log @ [Warnf ''failed to get absolute path for %q: %v'' [LStr (FilePath issue), LStr err]])
            | Inr absPath \<Rightarrow> (Some (issue\<lparr>Pos := (Pos issue)\<lparr>Filename := absPath\<rparr>\<rparr>), log)))"

definition PathAbsoluter_Process ::
  "string + string \<Rightarrow> log_call list \<Rightarrow> Issue list \<Rightarrow> (proc_error + Issue list) \<times> log_call list" where
  "PathAbsoluter_Process wd log issues =
     (let (os, log') = transformIssues (PathAbsoluter_transform wd) log issues in (Inr os, log'))"

section \<open>Cgo\<close>

record Cgo =
  goCacheDir :: string

definition Cgo_shouldPassIssue :: "Cgo \<Rightarrow> Issue \<Rightarrow> (string + bool) \<times> Cgo" where
  "Cgo_shouldPassIssue p issue =
     (if goCacheDir p \<noteq> [] \<and> HasPrefix (FilePath issue) (goCacheDir p) then (Inr False, p)
      else if FilepathBase (FilePath issue) = ''_cgo_gotypes.go'' then (Inr False, p)
      else (Inr True, p))"

definition Cgo_Process :: "Cgo \<Rightarrow> Issue list \<Rightarrow> (proc_error + Issue list) \<times> Cgo" where
  "Cgo_Process p issues = filterIssuesErr Cgo_shouldPassIssue p issues"

section \<open>InvalidIssue\<close>

definition isGoFile :: "string \<Rightarrow> bool" where
  "isGoFile name \<longleftrightarrow> FilepathExt name = ''.go''"

definition InvalidIssue_shouldPassIssue ::
  "log_call list \<Rightarrow> Issue \<Rightarrow> (string + bool) \<times> log_call list" where
  "InvalidIssue_shouldPassIssue log issue =
     (if FilePath issue = [] then
        (Inr False, log @ [Warnf ''no file path for the issue: probably a bug inside the linter %q: %#v''
                             [LStr (FromLinter issue), LStr (Text issue)]])
      else if FilepathBase (FilePath issue) = ''go.mod'' then (Inr True, log)
      else if \<not> isGoFile (FilePath issue) then
        (Inr False, log @ [Infof ''issue related to file %s is skipped'' [LStr (FilePath issue)]])
      else (Inr True, log))"

definition InvalidIssue_Process ::
  "log_call list \<Rightarrow> Issue list \<Rightarrow> (proc_error + Issue list) \<times> log_call list" where
  "InvalidIssue_Process log issues =
     (let (tcIssues, log') = filterIssuesUnsafe (\<lambda>s i. (is_typecheck i, s)) log issues in
      if length tcIssues > 0 then (Inr tcIssues, log')
      else filterIssuesErr InvalidIssue_shouldPassIssue log issues)"

section \<open>PathRelativity\<close>

record PathRelativity =
  relLog :: "log_call list"
  basePath :: string
  workingDirectory :: string

definition NewPathRelativity :: "string + string \<Rightarrow> string \<Rightarrow> string + PathRelativity" where
  "NewPathRelativity getwd base =
     (case getwd of
        Inl err \<Rightarrow> Inl (''error getting working directory: '' @ err)
      | Inr wd \<Rightarrow> Inr \<lparr>relLog = [], basePath = base, workingDirectory = wd\<rparr>)"

definition relWarn :: "string \<Rightarrow> string \<Rightarrow> PathRelativity \<Rightarrow> PathRelativity" where
  "relWarn what err p = p\<lparr>relLog := relLog p @ [Warnf (''Getting relative path ('' @ what @ ''): %v'') [LStr err]]\<rparr>"

definition PathRelativity_transform :: "PathRelativity \<Rightarrow> Issue \<Rightarrow> Issue option \<times> PathRelativity" where
  "PathRelativity_transform p issue =
     (case FilepathRel (basePath p) (FilePath issue) of
        Inl err \<Rightarrow> (None, relWarn ''basepath'' err p)
      | Inr rel \<Rightarrow>
          (case FilepathRel (workingDirectory p) (FilePath issue) of
             Inl err \<Rightarrow> (None, relWarn ''wd'' err p)
           | Inr wdRel \<Rightarrow> (Some (issue\<lparr>RelativePath := rel, WorkingDirectoryRelativePath := wdRel\<rparr>), p)))"

definition PathRelativity_Process ::
  "PathRelativity \<Rightarrow> Issue list \<Rightarrow> (proc_error + Issue list) \<times> PathRelativity" where
  "PathRelativity_Process p issues =
     (let (os, p') = transformIssues PathRelativity_transform p issues in (Inr os, p'))"

section \<open>PathShortener\<close>

text \<open>The constructor panics when the working directory is unknown (\<^const>\<open>None\<close>).\<close>

definition NewPathShortener :: "string + string \<Rightarrow> string option" where
  "NewPathShortener getwd = (case getwd of Inl _ \<Rightarrow> None | Inr wd \<Rightarrow> Some wd)"

definition PathShortener_Process :: "string \<Rightarrow> Issue list \<Rightarrow> (proc_error + Issue list) \<times> string" where
  "PathShortener_Process wd issues =
     (let (os, wd') = transformIssues
            (\<lambda>wd i. (Some (i\<lparr>Text := RemoveAll (RemoveAll (Text i) (wd @ ''/'')) wd\<rparr>), wd)) wd issues
      in (Inr os, wd'))"

section \<open>PathPrettifier\<close>

record PathPrettifier =
  PathMode :: string
  PathPrefix :: string

definition OutputPathModeAbsolute :: string where
  "OutputPathModeAbsolute = ''abs''"

definition PathPrettifier_transform :: "PathPrettifier \<Rightarrow> Issue \<Rightarrow> Issue option \<times> PathPrettifier" where
  "PathPrettifier_transform p issue =
     (Some (issue\<lparr>Pos := (Pos issue)\<lparr>Filename :=
        (if PathPrefix p = [] then RelativePath issue else FilepathJoin [PathPrefix p, RelativePath issue])\<rparr>\<rparr>), p)"

definition PathPrettifier_Process ::
  "PathPrettifier \<Rightarrow> Issue list \<Rightarrow> (proc_error + Issue list) \<times> PathPrettifier" where
  "PathPrettifier_Process p issues =
     (if PathMode p = OutputPathModeAbsolute then (Inr issues, p)
      else (let (os, p') = transformIssues PathPrettifier_transform p issues in (Inr os, p')))"

section \<open>FilenameUnadjuster\<close>

record ParsedFile =
  adjustedName :: string
  unadjustedName :: string
  unadjustedAt :: "(int \<Rightarrow> Position) option"

text \<open>A mapper gives the unadjusted position and what it logs.\<close>

type_synonym posMapper = "Position \<Rightarrow> Position \<times> log_call list"

type_synonym adjustMap = "string \<rightharpoonup> posMapper"

definition processUnadjusterFile ::
  "(string \<Rightarrow> ParsedFile option) \<Rightarrow> string \<Rightarrow> adjustMap \<Rightarrow> adjustMap" where
  "processUnadjusterFile parse filename m =
     (case parse filename of
        None \<Rightarrow> m
      | Some f \<Rightarrow>
          if adjustedName f = [] then m
          else if unadjustedName f = [] \<or> unadjustedName f = adjustedName f then m
          else if \<not> HasSuffix (unadjustedName f) ''.go'' then m
          else m(adjustedName f \<mapsto>
            (\<lambda>adjustedPos.
               (case unadjustedAt f of
                  None \<Rightarrow> (adjustedPos, [Warnf ''Failed to get token file for %s'' [LStr (adjustedName f)]])
                | Some positionFor \<Rightarrow> (positionFor (Offset adjustedPos), [])))))"

definition processUnadjusterPkg ::
  "(string \<Rightarrow> ParsedFile option) \<Rightarrow> string list \<Rightarrow> adjustMap \<Rightarrow> adjustMap" where
  "processUnadjusterPkg parse compiledGoFiles m = fold (processUnadjusterFile parse) compiledGoFiles m"

text \<open>\<open>slices.Chunk\<close> panics on a size below one (\<^const>\<open>None\<close>).\<close>

function chunkList :: "nat \<Rightarrow> 'a list \<Rightarrow> 'a list list" where
  "chunkList n xs = (if n = 0 \<or> xs = [] then [] else take n xs # chunkList n (drop n xs))"
  by pat_completeness auto
termination
  by (relation "measure (\<lambda>(n, xs). length xs)") auto

declare chunkList.simps [simp del]

definition slicesChunk :: "'a list \<Rightarrow> nat \<Rightarrow> 'a list list option" where
  "slicesChunk xs n = (if n < 1 then None else Some (chunkList n xs))"

definition unadjusterChunks :: "string list list \<Rightarrow> string list list list option" where
  "unadjusterChunks pkgs = slicesChunk pkgs (length pkgs div 2000 + 1)"

record FilenameUnadjuster =
  unadjusterMap :: adjustMap
  unadjusterLog :: "log_call list"
  loggedUnadjustments :: "string set"

text \<open>
  One goroutine per chunk parses its files and enters them under the lock of the map: \<open>order\<close> is the
  order in which the files of all packages are entered, any interleaving of the chunks.
\<close>

definition NewFilenameUnadjuster ::
  "(string \<Rightarrow> ParsedFile option) \<Rightarrow> string list \<Rightarrow> FilenameUnadjuster" where
  "NewFilenameUnadjuster parse order =
     (let m = fold (processUnadjusterFile parse) order Map.empty in
      \<lparr>unadjusterMap = m,
       unadjusterLog = [Infof ''Pre-built %d adjustments in %s'' [LInt (int (card (dom m)))]],
       loggedUnadjustments = {}\<rparr>)"

definition posArgs :: "Position \<Rightarrow> log_arg list" where
  "posArgs pos = [LStr (Filename pos), LInt (Line pos), LInt (Column pos)]"

definition FilenameUnadjuster_transform ::
  "FilenameUnadjuster \<Rightarrow> Issue \<Rightarrow> Issue option \<times> FilenameUnadjuster" where
  "FilenameUnadjuster_transform p issue =
     (case unadjusterMap p (FilePath issue) of
        None \<Rightarrow> (Some issue, p)
      | Some mapper \<Rightarrow>
          (let (newPos, log) = mapper (Pos issue);
               newIssue = issue\<lparr>Pos := newPos\<rparr>;
               p = p\<lparr>unadjusterLog := unadjusterLog p @ log\<rparr>;
               p = (if Filename (Pos issue) \<in> loggedUnadjustments p then p
                    else p\<lparr>unadjusterLog := unadjusterLog p @
                             [Infof ''Unadjusted from %v to %v'' (posArgs (Pos issue) @ posArgs newPos)],
                           loggedUnadjustments := insert (Filename (Pos issue)) (loggedUnadjustments p)\<rparr>)
           in (Some newIssue, p)))"

definition FilenameUnadjuster_Process ::
  "FilenameUnadjuster \<Rightarrow> Issue list \<Rightarrow> (proc_error + Issue list) \<times> FilenameUnadjuster" where
  "FilenameUnadjuster_Process p issues =
     (let (os, p') = transformIssues FilenameUnadjuster_transform p issues in (Inr os, p'))"

section \<open>Contracts\<close>

lemma transform_shrinks:
  "(let (os, s') = transformIssues f s issues in (Inr os, s')) = (Inr qs, t) \<Longrightarrow> length qs \<le> length issues"
  using transformIssues_length [of f s issues "fst (transformIssues f s issues)" "snd (transformIssues f s issues)"]
  by (auto simp: Let_def case_prod_unfold)

interpretation absoluter: shrinking_processor "PathAbsoluter_Process wd"
  by unfold_locales (simp only: PathAbsoluter_Process_def transform_shrinks)

interpretation relativity: shrinking_processor PathRelativity_Process
  by unfold_locales (simp only: PathRelativity_Process_def transform_shrinks)

interpretation shortener: shrinking_processor PathShortener_Process
  by unfold_locales (simp only: PathShortener_Process_def transform_shrinks)

interpretation prettifier: shrinking_processor PathPrettifier_Process
  by unfold_locales (simp only: PathPrettifier_Process_def transform_shrinks split: if_splits, auto)

interpretation unadjuster: shrinking_processor FilenameUnadjuster_Process
  by unfold_locales (simp only: FilenameUnadjuster_Process_def transform_shrinks)

interpretation cgo: typecheck_safe Cgo_Process
proof unfold_locales
  fix s issues os s'
  assume r: "Cgo_Process s issues = (Inr os, s')"
  show "mset os \<subseteq># mset issues"
    using subseq_mset [OF filterIssuesErr_subseq [OF r [unfolded Cgo_Process_def]]] .
  show "filter_mset is_typecheck (mset os) = filter_mset is_typecheck (mset issues)"
    using filterIssuesErr_keeps_typecheck [OF r [unfolded Cgo_Process_def]] by (simp flip: mset_filter)
qed

lemma InvalidIssue_Process_cases:
  "InvalidIssue_Process log issues =
     (if \<exists>i \<in> set issues. is_typecheck i then (Inr (filter is_typecheck issues), log)
      else filterIssuesErr InvalidIssue_shouldPassIssue log issues)"
proof -
  have "filterIssuesUnsafe (\<lambda>s i. (is_typecheck i, s)) log issues = (filter is_typecheck issues, log)"
    by (rule filterIssuesUnsafe_pure) simp
  then show ?thesis by (auto simp: InvalidIssue_Process_def filter_empty_conv)
qed

interpretation invalidIssue: typecheck_safe InvalidIssue_Process
proof unfold_locales
  fix s issues os s'
  assume r: "InvalidIssue_Process s issues = (Inr os, s')"
  show "mset os \<subseteq># mset issues"
    using r subseq_mset [OF filterIssuesErr_subseq, of InvalidIssue_shouldPassIssue s issues os s']
    by (auto simp: InvalidIssue_Process_cases mset_filter_subset split: if_splits)
  show "filter_mset is_typecheck (mset os) = filter_mset is_typecheck (mset issues)"
    using r filterIssuesErr_keeps_typecheck [of InvalidIssue_shouldPassIssue s issues os s']
    by (auto simp: InvalidIssue_Process_cases simp flip: mset_filter split: if_splits)
qed

section \<open>Chunks and interleavings of the unadjuster\<close>

lemma concat_chunkList: "n \<noteq> 0 \<Longrightarrow> concat (chunkList n xs) = xs"
  by (induction n xs rule: chunkList.induct) (subst chunkList.simps, auto)

lemma length_chunkList: "n \<noteq> 0 \<Longrightarrow> length (chunkList n xs) = (length xs + n - 1) div n"
proof (induction n xs rule: chunkList.induct)
  case (1 n xs)
  show ?case
  proof (cases xs)
    case Nil
    then show ?thesis using 1 by (subst chunkList.simps) simp
  next
    case (Cons x xs')
    then have "length (chunkList n xs) = Suc ((length xs - n + n - 1) div n)"
      using 1 by (subst chunkList.simps) simp
    moreover have "Suc ((length xs - n + n - 1) div n) = (length xs + n - 1) div n"
    proof (cases "n \<le> length xs")
      case True
      have "length xs + n - 1 = (length xs - 1) + n" using Cons by simp
      then show ?thesis using True div_add_self2 [OF "1.prems", of "length xs - 1"] by simp
    next
      case False
      have "length xs + n - 1 = (length xs - 1) + n" using Cons by simp
      moreover have "(length xs - 1) div n = 0" using False by simp
      moreover have "(length xs - n + n - 1) div n = 0" using False "1.prems" by simp
      ultimately show ?thesis using div_add_self2 [OF "1.prems", of "length xs - 1"] by simp
    qed
    ultimately show ?thesis by simp
  qed
qed

text \<open>A file that is entered in the map, under its adjusted name.\<close>

definition entered :: "(string \<Rightarrow> ParsedFile option) \<Rightarrow> string \<Rightarrow> string option" where
  "entered parse file =
     (case parse file of
        None \<Rightarrow> None
      | Some f \<Rightarrow>
          if adjustedName f \<noteq> [] \<and> unadjustedName f \<noteq> [] \<and> unadjustedName f \<noteq> adjustedName f \<and>
             HasSuffix (unadjustedName f) ''.go''
          then Some (adjustedName f) else None)"

lemma processUnadjusterFile_entered:
  "\<exists>mapper. processUnadjusterFile parse file = (\<lambda>m. case entered parse file of None \<Rightarrow> m | Some a \<Rightarrow> m(a \<mapsto> mapper))"
  by (cases "parse file") (auto simp: processUnadjusterFile_def entered_def fun_eq_iff)

text \<open>Files with different adjusted names can be entered in either order.\<close>

lemma processUnadjusterFile_commute:
  assumes "x = y \<or> entered parse x = None \<or> entered parse x \<noteq> entered parse y"
  shows "processUnadjusterFile parse x \<circ> processUnadjusterFile parse y =
         processUnadjusterFile parse y \<circ> processUnadjusterFile parse x"
proof -
  obtain f where f: "processUnadjusterFile parse x = (\<lambda>m. case entered parse x of None \<Rightarrow> m | Some a \<Rightarrow> m(a \<mapsto> f))"
    using processUnadjusterFile_entered by blast
  obtain g where g: "processUnadjusterFile parse y = (\<lambda>m. case entered parse y of None \<Rightarrow> m | Some a \<Rightarrow> m(a \<mapsto> g))"
    using processUnadjusterFile_entered by blast
  show ?thesis
  proof (cases "x = y")
    case False
    then show ?thesis
      using assms unfolding f g
      by (cases "entered parse x"; cases "entered parse y") (auto simp: fun_eq_iff)
  qed simp
qed

section \<open>Properties\<close>

text \<open>As soon as one issue is a type-checking error the invalid-issue filter returns the type-checking errors and
  nothing else; otherwise it returns exactly the issues of \<open>go.mod\<close> and of files with the extension \<open>.go\<close>.
  It never fails.\<close>

theorem invalid_issue_keeps:
  "fst (InvalidIssue_Process log issues) =
     Inr (if \<exists>i \<in> set issues. is_typecheck i then filter is_typecheck issues
          else filter (\<lambda>i. FilePath i \<noteq> [] \<and>
                 (FilepathBase (FilePath i) = ''go.mod'' \<or> FilepathExt (FilePath i) = ''.go'')) issues)"
proof (cases "\<exists>i \<in> set issues. is_typecheck i")
  case False
  let ?P = "\<lambda>i. FilePath i \<noteq> [] \<and> (FilepathBase (FilePath i) = ''go.mod'' \<or> FilepathExt (FilePath i) = ''.go'')"
  have "fst (filterIssuesErr InvalidIssue_shouldPassIssue log issues) = Inr (filter (\<lambda>i. is_typecheck i \<or> ?P i) issues)"
    by (rule filterIssuesErr_by_inv [where Q = "\<lambda>_. True"])
       (simp_all add: InvalidIssue_shouldPassIssue_def isGoFile_def)
  moreover have "filter (\<lambda>i. is_typecheck i \<or> ?P i) issues = filter ?P issues"
    using False by (auto intro: filter_cong)
  ultimately show ?thesis using False by (auto simp: InvalidIssue_Process_cases)
qed (auto simp: InvalidIssue_Process_cases)

text \<open>With an absolute base path and working directory, the relativity processor drops no issue with an absolute
  path; the relative paths it computes lead back to the file when joined with the base path and with the
  working directory, and after the prettifier with no prefix the displayed file name does so too.\<close>

theorem relative_paths_lead_back:
  assumes "FilepathIsAbs base" "FilepathIsAbs wd" "NewPathRelativity (Inr wd) base = Inr p"
    and "\<forall>i \<in> set issues. FilepathIsAbs (FilePath i)" "PathMode q \<noteq> ''abs''" "PathPrefix q = []"
  shows "\<exists>os qs. PathRelativity_Process p issues = (Inr os, p) \<and>
    list_all2 (\<lambda>i j. FilePath j = FilePath i \<and>
       FilepathJoin [base, RelativePath j] = Clean (FilePath i) \<and>
       FilepathJoin [wd, WorkingDirectoryRelativePath j] = Clean (FilePath i)) issues os \<and>
    PathPrettifier_Process q os = (Inr qs, q) \<and>
    list_all2 (\<lambda>i j. FilepathJoin [base, FilePath j] = Clean (FilePath i)) issues qs"
proof -
  have p: "p = \<lparr>relLog = [], basePath = base, workingDirectory = wd\<rparr>"
    using assms(3) by (simp add: NewPathRelativity_def)
  let ?rel = "\<lambda>d i. case FilepathRel d (FilePath i) of Inr r \<Rightarrow> r | Inl _ \<Rightarrow> []"
  let ?g = "\<lambda>i. i\<lparr>RelativePath := ?rel base i, WorkingDirectoryRelativePath := ?rel wd i\<rparr>"
  let ?h = "\<lambda>i. i\<lparr>Pos := (Pos i)\<lparr>Filename := RelativePath i\<rparr>\<rparr>"
  have rel: "FilepathRel d (FilePath i) = Inr (?rel d i) \<and> FilepathJoin [d, ?rel d i] = Clean (FilePath i)"
    if "FilepathIsAbs d" "i \<in> set issues" for d i
    using Rel_total [of d "FilePath i"] Rel_Join [of d "FilePath i"] that assms(4) by auto
  have step: "PathRelativity_transform p i = (Some (?g i), p)" if i: "i \<in> set issues" for i
  proof -
    obtain r1 r2 where "FilepathRel base (FilePath i) = Inr r1" "FilepathRel wd (FilePath i) = Inr r2"
      using rel [OF assms(1) i] rel [OF assms(2) i] by blast
    then show ?thesis by (simp add: PathRelativity_transform_def p)
  qed
  have 1: "transformIssues PathRelativity_transform p xs = (map ?g xs, p)" if "set xs \<subseteq> set issues" for xs
    using that by (induction xs) (simp_all add: step)
  have 2: "transformIssues PathPrettifier_transform q xs = (map ?h xs, q)" for xs
    by (rule transformIssues_total) (simp add: PathPrettifier_transform_def assms(6))
  have "list_all2 (\<lambda>i j. FilePath j = FilePath i \<and> FilepathJoin [base, RelativePath j] = Clean (FilePath i) \<and>
       FilepathJoin [wd, WorkingDirectoryRelativePath j] = Clean (FilePath i)) issues (map ?g issues)"
    using rel [OF assms(1)] rel [OF assms(2)]
    by (simp add: list_all2_map2 list_all2_same FilePath_def)
  moreover have "list_all2 (\<lambda>i j. FilepathJoin [base, FilePath j] = Clean (FilePath i)) issues (map ?h (map ?g issues))"
    using rel [OF assms(1)] by (simp add: list_all2_map2 list_all2_same FilePath_def)
  ultimately show ?thesis
    using 1 [of issues] 2 assms(5)
    by (simp add: PathRelativity_Process_def PathPrettifier_Process_def OutputPathModeAbsolute_def)
qed

theorem relative_paths_lead_back_witness:
  "\<exists>os qs. PathRelativity_Process \<lparr>relLog = [], basePath = ''/r/b'', workingDirectory = ''/r''\<rparr>
      [mkIssue ''l'' ''t'' ''/r/c/x.go'' 1] = (Inr os, \<lparr>relLog = [], basePath = ''/r/b'', workingDirectory = ''/r''\<rparr>) \<and>
    PathPrettifier_Process \<lparr>PathMode = [], PathPrefix = []\<rparr> os = (Inr qs, \<lparr>PathMode = [], PathPrefix = []\<rparr>) \<and>
    map (\<lambda>j. FilepathJoin [''/r/b'', FilePath j]) qs = [''/r/c/x.go'']"
proof -
  let ?p = "\<lparr>relLog = [], basePath = ''/r/b'', workingDirectory = ''/r''\<rparr>"
  let ?q = "\<lparr>PathMode = [], PathPrefix = []\<rparr>"
  let ?i = "mkIssue ''l'' ''t'' ''/r/c/x.go'' 1"
  obtain os qs where "PathRelativity_Process ?p [?i] = (Inr os, ?p)"
    "PathPrettifier_Process ?q os = (Inr qs, ?q)"
    "list_all2 (\<lambda>i j. FilepathJoin [''/r/b'', FilePath j] = Clean (FilePath i)) [?i] qs"
    using relative_paths_lead_back [of "''/r/b''" "''/r''" ?p "[?i]" ?q]
    by (auto simp: FilepathIsAbs_def HasPrefix_def NewPathRelativity_def mkIssue_def FilePath_def)
  moreover have "Clean ''/r/c/x.go'' = ''/r/c/x.go''" by code_simp
  moreover have "FilePath ?i = ''/r/c/x.go''" by (simp add: mkIssue_def FilePath_def)
  ultimately show ?thesis by (cases qs) auto
qed

text \<open>The packages are distributed over at most 2000 goroutines without losing, repeating or reordering any, and
  whatever the interleaving of the goroutines, files with different adjusted names give the same map.\<close>

theorem unadjuster_deterministic:
  "(\<exists>chunks. unadjusterChunks pkgs = Some chunks \<and> concat chunks = pkgs \<and> length chunks \<le> 2000) \<and>
   (mset order1 = mset order2 \<longrightarrow>
    (\<forall>x \<in> set order1. \<forall>y \<in> set order1. x \<noteq> y \<longrightarrow> entered parse x \<noteq> None \<longrightarrow> entered parse x \<noteq> entered parse y) \<longrightarrow>
    NewFilenameUnadjuster parse order1 = NewFilenameUnadjuster parse order2)"
proof (intro conjI impI)
  define k where "k = length pkgs div 2000"
  have "length pkgs < 2000 * k + 2000" by (simp add: k_def)
  then have "length pkgs + (k + 1) - 1 < 2001 * (k + 1)" by simp
  then have "(length pkgs + (k + 1) - 1) div (k + 1) < 2001" by (simp add: div_less_iff_less_mult)
  then have "(length pkgs + (length pkgs div 2000 + 1) - 1) div (length pkgs div 2000 + 1) \<le> 2000"
    by (simp add: k_def)
  then show "\<exists>chunks. unadjusterChunks pkgs = Some chunks \<and> concat chunks = pkgs \<and> length chunks \<le> 2000"
    by (simp add: unadjusterChunks_def slicesChunk_def concat_chunkList length_chunkList)
next
  assume m: "mset order1 = mset order2"
    and d: "\<forall>x \<in> set order1. \<forall>y \<in> set order1. x \<noteq> y \<longrightarrow> entered parse x \<noteq> None \<longrightarrow> entered parse x \<noteq> entered parse y"
  have "fold (processUnadjusterFile parse) order1 = fold (processUnadjusterFile parse) order2"
    by (rule fold_multiset_equiv [OF _ m]) (use d processUnadjusterFile_commute in blast)
  then show "NewFilenameUnadjuster parse order1 = NewFilenameUnadjuster parse order2"
    by (simp add: NewFilenameUnadjuster_def)
qed

theorem unadjuster_deterministic_witness:
  "let parse = (\<lambda>file. Some \<lparr>adjustedName = ''/t/'' @ file, unadjustedName = ''/s/'' @ file, unadjustedAt = None\<rparr>)
   in entered parse ''a.go'' = Some ''/t/a.go'' \<and>
      NewFilenameUnadjuster parse [''a.go'', ''b.go''] = NewFilenameUnadjuster parse [''b.go'', ''a.go'']"
proof -
  let ?parse = "\<lambda>file. Some \<lparr>adjustedName = ''/t/'' @ file, unadjustedName = ''/s/'' @ file, unadjustedAt = None\<rparr>"
  have e: "entered ?parse ''a.go'' = Some ''/t/a.go''" "entered ?parse ''b.go'' = Some ''/t/b.go''"
    by (simp_all add: entered_def HasSuffix_def)
  show ?thesis
    using unadjuster_deterministic [of "[]" "[''a.go'', ''b.go'']" "[''b.go'', ''a.go'']" ?parse] e
    by (simp add: Let_def)
qed

end
