(* ===== verification/Source_Processors.thy ===== *)
theory Source_Processors
  imports Fs_Cache Result_Issue
begin

text \<open>
  The processors that look at the source of an issue: the filter of generated files
  (\<open>exclusion_generated_file_filter.go\<close>, \<open>exclusion_generated_file_matcher.go\<close>), the source lines
  (\<open>source_code.go\<close>) and the restriction to new code (\<open>diff.go\<close>), all in \<open>pkg/result/processors\<close>.

  Parameters: the Go parser with \<open>PackageClauseOnly\<close>, which gives the comment groups of a file as text
  or an error, \<open>ast.IsGenerated\<close> on the parsed file, the Unicode functions on strings, and the checker
  of \<open>revgrep\<close>.
\<close>

section \<open>Generated files\<close>

record ParsedHeader =
  commentTexts :: "string list"
  astIsGenerated :: bool

record GenEnv =
  parseHeader :: "string \<Rightarrow> string + ParsedHeader"
  lower :: "string \<Rightarrow> string"
  trimWs :: "string \<Rightarrow> string"

definition genCodeGenerated :: string where "genCodeGenerated = ''code generated''"
definition genDoNotEdit :: string where "genDoNotEdit = ''do not edit''"
definition genAutoFile :: string where "genAutoFile = ''autogenerated file''"
definition genSwaggerCodegen :: string where "genSwaggerCodegen = ''* generated by: swagger codegen ''"

definition GeneratedModeLax :: string where "GeneratedModeLax = ''lax''"
definition GeneratedModeStrict :: string where "GeneratedModeStrict = ''strict''"
definition GeneratedModeDisable :: string where "GeneratedModeDisable = ''disable''"

definition isGeneratedFileLax :: "GenEnv \<Rightarrow> string \<Rightarrow> bool" where
  "isGeneratedFileLax env doc =
     (let doc = lower env doc
      in list_ex (\<lambda>marker. Contains doc marker) [genCodeGenerated, genDoNotEdit, genAutoFile, genSwaggerCodegen])"

definition isGeneratedFileStrict :: "ParsedHeader \<Rightarrow> bool" where
  "isGeneratedFileStrict file = (if length (commentTexts file) = 0 then False else astIsGenerated file)"

definition getComments :: "GenEnv \<Rightarrow> ParsedHeader \<Rightarrow> string" where
  "getComments env file = Join (map (trimWs env) (commentTexts file)) [CHR 0x0A]"

definition IsGeneratedFile :: "GenEnv \<Rightarrow> string \<Rightarrow> string \<Rightarrow> string + bool" where
  "IsGeneratedFile env mode filepath =
     (if mode = GeneratedModeDisable then Inr False
      else (case parseHeader env filepath of
              Inl err \<Rightarrow> Inl (''failed to parse file: '' @ err)
            | Inr file \<Rightarrow>
                if mode = GeneratedModeStrict then Inr (isGeneratedFileStrict file)
                else Inr (isGeneratedFileLax env (getComments env file))))"

text \<open>The cached summary of a file is whether it is generated.\<close>

record GeneratedFileFilter =
  genMode :: string
  fileSummaryCache :: "string \<rightharpoonup> bool"

definition NewGeneratedFileFilter :: "string \<Rightarrow> GeneratedFileFilter" where
  "NewGeneratedFileFilter mode = \<lparr>genMode = mode, fileSummaryCache = Map.empty\<rparr>"

definition GeneratedFileFilter_shouldPassIssue ::
  "GenEnv \<Rightarrow> GeneratedFileFilter \<Rightarrow> Issue \<Rightarrow> (string + bool) \<times> GeneratedFileFilter" where
  "GeneratedFileFilter_shouldPassIssue env p issue =
     (if FilepathBase (FilePath issue) = ''go.mod'' then (Inr True, p)
      else (case fileSummaryCache p (FilePath issue) of
              Some generated \<Rightarrow> (Inr (\<not> generated), p)
            | None \<Rightarrow>
                (case IsGeneratedFile env (genMode p) (FilePath issue) of
                   Inl err \<Rightarrow>
                     (Inl (''failed to get doc ('' @ genMode p @ '') of file '' @ FilePath issue @ '': '' @ err),
                      p\<lparr>fileSummaryCache := (fileSummaryCache p)(FilePath issue \<mapsto> False)\<rparr>)
                 | Inr generated \<Rightarrow>
                     (Inr (\<not> generated),
                      p\<lparr>fileSummaryCache := (fileSummaryCache p)(FilePath issue \<mapsto> generated)\<rparr>))))"

definition GeneratedFileFilter_Process ::
  "GenEnv \<Rightarrow> GeneratedFileFilter \<Rightarrow> Issue list \<Rightarrow> (proc_error + Issue list) \<times> GeneratedFileFilter" where
  "GeneratedFileFilter_Process env p issues =
     (if genMode p = GeneratedModeDisable then (Inr issues, p)
      else filterIssuesErr (GeneratedFileFilter_shouldPassIssue env) p issues)"

section \<open>Source lines\<close>

text \<open>The loop over the lines of the range; the number of a line that cannot be read is
  the error (the text of the error of the cache is left out of the log).\<close>

function sourceLines :: "files \<Rightarrow> string \<Rightarrow> int \<Rightarrow> int \<Rightarrow> string list \<Rightarrow> Caches \<Rightarrow> (int + string list) \<times> Caches" where
  "sourceLines fs file lineNumber to acc c =
     (if lineNumber > to then (Inr acc, c)
      else (case GetLine fs c file lineNumber of
              (Inl err, c') \<Rightarrow> (Inl lineNumber, c')
            | (Inr line, c') \<Rightarrow> sourceLines fs file (lineNumber + 1) to (acc @ [line]) c'))"
  by pat_completeness auto
termination
  by (relation "measure (\<lambda>(fs, file, lineNumber, to, acc, c). nat (to + 1 - lineNumber))") auto

declare sourceLines.simps [simp del]

definition SourceCode_transform ::
  "files \<Rightarrow> log_call list \<times> Caches \<Rightarrow> Issue \<Rightarrow> Issue option \<times> (log_call list \<times> Caches)" where
  "SourceCode_transform fs s issue =
     (let (log, c) = s; lineRange = GetLineRange issue in
      case sourceLines fs (FilePath issue) (From lineRange) (To lineRange) (SourceLines issue) c of
        (Inl lineNumber, c') \<Rightarrow>
          (Some issue, (log @ [Warnf ''Failed to get line %d for file %s: %s''
                                 [LInt lineNumber, LStr (FilePath issue)]], c'))
      | (Inr ls, c') \<Rightarrow> (Some (issue\<lparr>SourceLines := ls\<rparr>), (log, c')))"

definition SourceCode_Process ::
  "files \<Rightarrow> log_call list \<times> Caches \<Rightarrow> Issue list \<Rightarrow> (proc_error + Issue list) \<times> (log_call list \<times> Caches)" where
  "SourceCode_Process fs s issues =
     (let (os, s') = transformIssues (SourceCode_transform fs) s issues in (Inr os, s'))"

section \<open>New code only\<close>

record IssuesConfig =
  cfgDiff :: bool
  DiffFromRevision :: string
  DiffFromMergeBase :: string
  DiffPatchFilePath :: string
  WholeFiles :: bool

text \<open>What the checker of \<open>revgrep\<close> is built from.\<close>

record CheckerArgs =
  Patch :: "string option"
  RevisionFrom :: string
  MergeBase :: string
  CheckerWholeFiles :: bool

text \<open>A prepared checker tells for a path and a line the position in the hunk and whether it is new.\<close>

type_synonym checker = "string \<Rightarrow> int \<Rightarrow> int \<times> bool"

record DiffEnv =
  getenvPatch :: string
  readFile :: "string \<Rightarrow> string + string"
  prepareChecker :: "CheckerArgs \<Rightarrow> string + checker"

definition prepareDiff :: "DiffEnv \<Rightarrow> IssuesConfig \<Rightarrow> string + checker option" where
  "prepareDiff env cfg =
     (let patch = getenvPatch env in
      if \<not> cfgDiff cfg \<and> DiffFromRevision cfg = [] \<and> DiffFromMergeBase cfg = [] \<and> DiffPatchFilePath cfg = [] \<and> patch = []
      then Inr None
      else
        (let reader =
           (if DiffPatchFilePath cfg \<noteq> [] then
              (case readFile env (DiffPatchFilePath cfg) of
                 Inl err \<Rightarrow> Inl (''can't read from patch file '' @ DiffPatchFilePath cfg @ '': '' @ err)
               | Inr content \<Rightarrow> Inr (Some content))
            else if patch \<noteq> [] then Inr (Some patch)
            else Inr None)
         in case reader of
              Inl err \<Rightarrow> Inl err
            | Inr patchReader \<Rightarrow>
                (case prepareChecker env
                        \<lparr>Patch = patchReader, RevisionFrom = DiffFromRevision cfg, MergeBase = DiffFromMergeBase cfg,
                         CheckerWholeFiles = WholeFiles cfg\<rparr> of
                   Inl err \<Rightarrow> Inl (''can't prepare diff by revgrep: '' @ err)
                 | Inr chk \<Rightarrow> Inr (Some chk))))"

text \<open>The results per configuration (configurations are identified by their address), computed once.\<close>

type_synonym preparedDiffs = "nat \<rightharpoonup> (string + checker option)"

definition PrepareDiff ::
  "DiffEnv \<Rightarrow> nat \<times> IssuesConfig \<Rightarrow> preparedDiffs \<Rightarrow> (string + checker option) \<times> preparedDiffs" where
  "PrepareDiff env cfg cache =
     (case cache (fst cfg) of
        Some prepared \<Rightarrow> (prepared, cache)
      | None \<Rightarrow> (let prepared = prepareDiff env (snd cfg) in (prepared, cache(fst cfg \<mapsto> prepared))))"

definition Diff_transform :: "checker \<Rightarrow> preparedDiffs \<Rightarrow> Issue \<Rightarrow> Issue option \<times> preparedDiffs" where
  "Diff_transform chk s issue =
     (if is_typecheck issue then (Some issue, s)
      else (let (hunkPos, isNew) = chk (WorkingDirectoryRelativePath issue) (issueLine issue) in
            if \<not> isNew then (None, s) else (Some (issue\<lparr>HunkPos := hunkPos\<rparr>), s)))"

definition Diff_Process ::
  "DiffEnv \<Rightarrow> nat \<times> IssuesConfig \<Rightarrow> preparedDiffs \<Rightarrow> Issue list \<Rightarrow> (proc_error + Issue list) \<times> preparedDiffs" where
  "Diff_Process env cfg cache issues =
     (case PrepareDiff env cfg cache of
        (Inl err, cache') \<Rightarrow> (Inl (CantPrepareDiff err), cache')
      | (Inr None, cache') \<Rightarrow> (Inr issues, cache')
      | (Inr (Some chk), cache') \<Rightarrow>
          (let (os, cache'') = transformIssues (Diff_transform chk) cache' issues in (Inr os, cache'')))"

section \<open>Contracts\<close>

lemma GeneratedFileFilter_cases:
  "GeneratedFileFilter_Process env p issues = (Inr os, p') \<Longrightarrow>
   os = issues \<or> filterIssuesErr (GeneratedFileFilter_shouldPassIssue env) p issues = (Inr os, p')"
  by (auto simp: GeneratedFileFilter_Process_def split: if_splits)

interpretation generated: typecheck_safe "GeneratedFileFilter_Process env"
proof unfold_locales
  fix s issues os s'
  assume "GeneratedFileFilter_Process env s issues = (Inr os, s')"
  then consider "os = issues" | "filterIssuesErr (GeneratedFileFilter_shouldPassIssue env) s issues = (Inr os, s')"
    using GeneratedFileFilter_cases by blast
  note c = this
  show "mset os \<subseteq># mset issues"
    using c subseq_mset [OF filterIssuesErr_subseq] by cases auto
  show "filter_mset is_typecheck (mset os) = filter_mset is_typecheck (mset issues)"
    using c
  proof cases
    case 2
    then show ?thesis using filterIssuesErr_keeps_typecheck [OF 2] by (simp flip: mset_filter)
  qed simp
qed

lemma transform_pair_shrinks: "transformIssues f s issues = (os, s') \<Longrightarrow> length os \<le> length issues"
  by (rule transformIssues_length)

interpretation sourceCode: shrinking_processor "SourceCode_Process fs"
  by unfold_locales (auto simp: SourceCode_Process_def dest: transform_pair_shrinks split: prod.splits)

interpretation diff: shrinking_processor "Diff_Process env cfg"
  by unfold_locales
     (auto simp: Diff_Process_def dest: transform_pair_shrinks split: prod.splits sum.splits option.splits)

section \<open>Properties\<close>

text \<open>The issues whose file the filter of generated files looks at, and its answer.\<close>

definition looksAt :: "Issue \<Rightarrow> bool" where
  "looksAt i \<longleftrightarrow> \<not> is_typecheck i \<and> FilepathBase (FilePath i) \<noteq> ''go.mod''"

definition summaries_ok :: "GenEnv \<Rightarrow> GeneratedFileFilter \<Rightarrow> bool" where
  "summaries_ok env p \<longleftrightarrow> (\<forall>f g. fileSummaryCache p f = Some g \<longrightarrow> IsGeneratedFile env (genMode p) f = Inr g)"

lemma generated_scan:
  assumes "summaries_ok env p"
  shows "fst (filterIssuesErr (GeneratedFileFilter_shouldPassIssue env) p issues) =
    (case List.find (\<lambda>i. looksAt i \<and> isl (IsGeneratedFile env (genMode p) (FilePath i))) issues of
       Some i \<Rightarrow> Inl (CantFilterIssue i (''failed to get doc ('' @ genMode p @ '') of file '' @ FilePath i @ '': '' @
                     projl (IsGeneratedFile env (genMode p) (FilePath i))))
     | None \<Rightarrow> Inr (filter (\<lambda>i. looksAt i \<longrightarrow> IsGeneratedFile env (genMode p) (FilePath i) \<noteq> Inr True) issues))"
  using assms
proof (induction issues arbitrary: p)
  case (Cons i issues)
  let ?g = "IsGeneratedFile env (genMode p) (FilePath i)"
  show ?case
  proof (cases "looksAt i")
    case False
    then have "is_typecheck i \<or> GeneratedFileFilter_shouldPassIssue env p i = (Inr True, p)"
      by (auto simp: looksAt_def GeneratedFileFilter_shouldPassIssue_def)
    then show ?thesis
      using Cons.IH [OF Cons.prems] False by (auto simp: case_prod_unfold split: sum.split option.split)
  next
    case True
    show ?thesis
    proof (cases ?g)
      case (Inl err)
      then have "fileSummaryCache p (FilePath i) = None"
        using Cons.prems by (cases "fileSummaryCache p (FilePath i)") (auto simp: summaries_ok_def)
      then show ?thesis
        using Inl True by (simp add: GeneratedFileFilter_shouldPassIssue_def looksAt_def)
    next
      case (Inr b)
      define p1 where "p1 = snd (GeneratedFileFilter_shouldPassIssue env p i)"
      have f: "GeneratedFileFilter_shouldPassIssue env p i = (Inr (\<not> b), p1)"
        using Inr True Cons.prems
        by (auto simp: GeneratedFileFilter_shouldPassIssue_def looksAt_def p1_def summaries_ok_def split: option.split)
      have p1: "summaries_ok env p1" "genMode p1 = genMode p"
        using Inr Cons.prems
        by (auto simp: p1_def GeneratedFileFilter_shouldPassIssue_def summaries_ok_def split: option.split)
      show ?thesis
        using Cons.IH [OF p1(1)] p1(2) f Inr True
        by (auto simp: looksAt_def case_prod_unfold split: sum.split option.split)
    qed
  qed
qed simp

text \<open>The filter of generated files, when not disabled, fails at the first issue whose file cannot be parsed and
  otherwise keeps exactly the type-checking errors, the issues of \<open>go.mod\<close> and those of files that are not
  generated in the configured mode; each answer is that of the matcher on the file, cached or not.\<close>

theorem generated_filter_keeps:
  assumes "mode \<noteq> ''disable''"
  shows "fst (GeneratedFileFilter_Process env (NewGeneratedFileFilter mode) issues) =
    (case List.find (\<lambda>i. looksAt i \<and> isl (IsGeneratedFile env mode (FilePath i))) issues of
       Some i \<Rightarrow> Inl (CantFilterIssue i (''failed to get doc ('' @ mode @ '') of file '' @ FilePath i @ '': '' @
                     projl (IsGeneratedFile env mode (FilePath i))))
     | None \<Rightarrow> Inr (filter (\<lambda>i. looksAt i \<longrightarrow> IsGeneratedFile env mode (FilePath i) \<noteq> Inr True) issues))"
proof -
  have "summaries_ok env (NewGeneratedFileFilter mode)"
    by (simp add: summaries_ok_def NewGeneratedFileFilter_def)
  note scan = generated_scan [OF this, of issues]
  have mode: "genMode (NewGeneratedFileFilter mode) = mode" by (simp add: NewGeneratedFileFilter_def)
  show ?thesis
    using scan assms unfolding GeneratedFileFilter_Process_def mode GeneratedModeDisable_def by simp
qed

theorem generated_filter_keeps_witness:
  "let env = \<lparr>parseHeader = (\<lambda>f. Inr \<lparr>commentTexts = (if f = ''g.go'' then [''Code generated by x''] else []),
                                     astIsGenerated = False\<rparr>),
              lower = (\<lambda>s. map (\<lambda>c. if c = CHR ''C'' then CHR ''c'' else c) s), trimWs = id\<rparr>
   in fst (GeneratedFileFilter_Process env (NewGeneratedFileFilter ''lax'')
        [mkIssue ''l'' ''t'' ''g.go'' 1, mkIssue ''l'' ''t'' ''h.go'' 1]) = Inr [mkIssue ''l'' ''t'' ''h.go'' 1]"
proof -
  define env where "env = \<lparr>parseHeader = (\<lambda>f. Inr \<lparr>commentTexts = (if f = ''g.go'' then [''Code generated by x''] else []),
                                     astIsGenerated = False\<rparr>),
              lower = (\<lambda>s. map (\<lambda>c. if c = CHR ''C'' then CHR ''c'' else c) s), trimWs = id\<rparr>"
  have g: "IsGeneratedFile env ''lax'' ''g.go'' = Inr True" "IsGeneratedFile env ''lax'' ''h.go'' = Inr False"
    unfolding env_def by code_simp+
  have files: "FilePath (mkIssue ''l'' ''t'' f 1) = f" "FromLinter (mkIssue ''l'' ''t'' f 1) = ''l''" for f
    by (simp_all add: mkIssue_def FilePath_def)
  have base: "FilepathBase ''g.go'' \<noteq> ''go.mod''" "FilepathBase ''h.go'' \<noteq> ''go.mod''" by code_simp+
  show ?thesis
    unfolding Let_def env_def [symmetric]
    using generated_filter_keeps [of "''lax''" env "[mkIssue ''l'' ''t'' ''g.go'' 1, mkIssue ''l'' ''t'' ''h.go'' 1]"] g base
    by (simp add: looksAt_def files typeCheckName_def)
qed

text \<open>The lines of a range in a snapshot, all of them or an error.\<close>

definition readable :: "files \<Rightarrow> string \<Rightarrow> int list \<Rightarrow> bool" where
  "readable fs file ns \<longleftrightarrow> (\<forall>n \<in> set ns. \<not> isl (line_of fs file n))"

lemma sourceLines_spec:
  assumes "caches_ok c"
  shows "(readable (snapshot fs c) fl [a..b] \<longrightarrow>
           fst (sourceLines fs fl a b acc c) = Inr (acc @ map (\<lambda>n. projr (line_of (snapshot fs c) fl n)) [a..b])) \<and>
         (\<not> readable (snapshot fs c) fl [a..b] \<longrightarrow> isl (fst (sourceLines fs fl a b acc c))) \<and>
         caches_ok (snd (sourceLines fs fl a b acc c)) \<and>
         snapshot fs (snd (sourceLines fs fl a b acc c)) = snapshot fs c"
  using assms
proof (induction fs fl a b acc c rule: sourceLines.induct)
  case (1 fs fl a b acc c)
  show ?case
  proof (cases "a > b")
    case True
    then show ?thesis using "1.prems" by (subst (1 2 3 4) sourceLines.simps) (simp add: readable_def)
  next
    case False
    obtain x c1 where g: "GetLine fs c fl a = (x, c1)" by fastforce
    have c1: "caches_ok c1" "snapshot fs c1 = snapshot fs c" "line_of (snapshot fs c) fl a = x"
      using GetLine_ok [OF "1.prems", of fs fl a] GetLine_snapshot [OF "1.prems", of fs fl a]
        GetLine_fst [OF "1.prems", of fs fl a] g by simp_all
    have up: "[a..b] = a # [a + 1..b]" using False by (simp add: upto_rec1)
    show ?thesis
    proof (cases x)
      case (Inl e)
      then have "sourceLines fs fl a b acc c = (Inl a, c1)" using False g by (subst sourceLines.simps) simp
      then show ?thesis using c1 Inl by (simp add: readable_def up)
    next
      case (Inr l)
      then have "sourceLines fs fl a b acc c = sourceLines fs fl (a + 1) b (acc @ [l]) c1"
        using False g by (subst sourceLines.simps) simp
      then show ?thesis
        using "1.IH" [OF False g [symmetric] Inr c1(1)] c1 Inr
        by (auto simp: readable_def up)
    qed
  qed
qed

text \<open>The source-code processor keeps every issue in its order and changes only its source lines: it appends the
  lines of the issue's range in the snapshot of the file, or leaves the issue as it is when one of them cannot be read.\<close>

theorem source_code_appends_range:
  assumes "caches_ok c"
  shows "fst (SourceCode_Process fs (log, c) issues) =
    Inr (map (\<lambda>i. let ns = [From (GetLineRange i)..To (GetLineRange i)] in
                  if readable (snapshot fs c) (FilePath i) ns
                  then i\<lparr>SourceLines := SourceLines i @ map (\<lambda>n. projr (line_of (snapshot fs c) (FilePath i) n)) ns\<rparr>
                  else i) issues)"
proof -
  let ?Q = "\<lambda>s :: log_call list \<times> Caches. caches_ok (snd s) \<and> snapshot fs (snd s) = snapshot fs c"
  let ?g = "\<lambda>i. let ns = [From (GetLineRange i)..To (GetLineRange i)] in
                  if readable (snapshot fs c) (FilePath i) ns
                  then i\<lparr>SourceLines := SourceLines i @ map (\<lambda>n. projr (line_of (snapshot fs c) (FilePath i) n)) ns\<rparr>
                  else i"
  have "fst (SourceCode_transform fs s i) = Some (?g i) \<and> ?Q (snd (SourceCode_transform fs s i))" if q: "?Q s" for s i
  proof -
    obtain l d where s: "s = (l, d)" by fastforce
    obtain r d' where r: "sourceLines fs (FilePath i) (From (GetLineRange i)) (To (GetLineRange i)) (SourceLines i) d = (r, d')"
      by fastforce
    show ?thesis
      using sourceLines_spec [of d fs "FilePath i" "From (GetLineRange i)" "To (GetLineRange i)" "SourceLines i"] q r s
      by (cases r) (auto simp: SourceCode_transform_def Let_def)
  qed
  then have "fst (transformIssues (SourceCode_transform fs) (log, c) issues) = map ?g issues"
    by (rule transformIssues_by_inv [where Q = ?Q]) (use assms in simp_all)
  then show ?thesis by (simp add: SourceCode_Process_def case_prod_unfold)
qed

theorem source_code_appends_range_witness:
  "fst (SourceCode_Process [''a.go'' \<mapsto> ''x''] ([], NewLineCache NewFileCache) [mkIssue ''l'' ''t'' ''a.go'' 1]) =
     Inr [mkIssue ''l'' ''t'' ''a.go'' 1\<lparr>SourceLines := [''x'']\<rparr>]"
proof -
  have l: "line_of (snapshot [''a.go'' \<mapsto> ''x''] (NewLineCache NewFileCache)) ''a.go'' 1 = Inr ''x''"
    by (simp add: line_of_def snapshot_def NewLineCache_def NewFileCache_def
        newline_def carriageReturn_def Trim_def TrimLeft_def TrimRight_def)
  show ?thesis
    unfolding source_code_appends_range [OF caches_ok_empty]
    using l by (simp add: mkIssue_def FilePath_def GetLineRange_def issueLine_def readable_def Let_def)
qed

text \<open>The changes are computed at most once per configuration: after the first call, package selection and issue
  filtering see the same checker or the same error whatever the environment has become. With a checker the
  processor keeps exactly the type-checking errors and the issues on new lines, which get their position in the hunk.\<close>

theorem diff_keeps_new_issues:
  assumes "PrepareDiff env (addr, cfg) cache = (r, cache1)"
  shows "PrepareDiff env' (addr, cfg') cache1 = (r, cache1) \<and>
    Diff_Process env' (addr, cfg') cache1 issues =
      (case r of
         Inl err \<Rightarrow> (Inl (CantPrepareDiff err), cache1)
       | Inr None \<Rightarrow> (Inr issues, cache1)
       | Inr (Some chk) \<Rightarrow>
           (Inr (map (\<lambda>i. if is_typecheck i then i else i\<lparr>HunkPos := fst (chk (WorkingDirectoryRelativePath i) (issueLine i))\<rparr>)
                  (filter (\<lambda>i. is_typecheck i \<or> snd (chk (WorkingDirectoryRelativePath i) (issueLine i))) issues)), cache1))"
proof -
  have r: "PrepareDiff env' (addr, cfg') cache1 = (r, cache1)"
    using assms by (auto simp: PrepareDiff_def Let_def split: option.splits)
  have t: "transformIssues (Diff_transform chk) s xs =
    (map (\<lambda>i. if is_typecheck i then i else i\<lparr>HunkPos := fst (chk (WorkingDirectoryRelativePath i) (issueLine i))\<rparr>)
       (filter (\<lambda>i. is_typecheck i \<or> snd (chk (WorkingDirectoryRelativePath i) (issueLine i))) xs), s)" for chk s xs
    by (induction xs) (auto simp: Diff_transform_def Let_def case_prod_unfold)
  show ?thesis using r t by (auto simp: Diff_Process_def split: sum.split option.split)
qed

theorem diff_keeps_new_issues_witness:
  "let env = \<lparr>getenvPatch = ''p'', readFile = Inr, prepareChecker = (\<lambda>_. Inr (\<lambda>f n. (7, n = 2)))\<rparr>;
       cfg = \<lparr>cfgDiff = False, DiffFromRevision = [], DiffFromMergeBase = [], DiffPatchFilePath = [], WholeFiles = False\<rparr>
   in \<exists>cache1. PrepareDiff env (0, cfg) Map.empty = (Inr (Some (\<lambda>f n. (7, n = 2))), cache1) \<and>
        fst (Diff_Process env (0, cfg) cache1 [mkIssue ''l'' ''t'' ''a.go'' 1, mkIssue ''l'' ''t'' ''a.go'' 2]) =
        Inr [mkIssue ''l'' ''t'' ''a.go'' 2\<lparr>HunkPos := 7\<rparr>]"
proof -
  define env where "env = \<lparr>getenvPatch = ''p'', readFile = Inr, prepareChecker = (\<lambda>_. Inr (\<lambda>(f::string) (n::int). (7::int, n = 2)))\<rparr>"
  define cfg where "cfg = \<lparr>cfgDiff = False, DiffFromRevision = [], DiffFromMergeBase = [], DiffPatchFilePath = [], WholeFiles = False\<rparr>"
  obtain cache1 where r: "PrepareDiff env (0, cfg) Map.empty = (Inr (Some (\<lambda>f n. (7, n = 2))), cache1)"
    by (simp add: PrepareDiff_def prepareDiff_def env_def Let_def)
  show ?thesis
    unfolding Let_def env_def [symmetric] cfg_def [symmetric]
    using r diff_keeps_new_issues [OF r, of env cfg "[mkIssue ''l'' ''t'' ''a.go'' 1, mkIssue ''l'' ''t'' ''a.go'' 2]"]
    by (auto simp: mkIssue_def typeCheckName_def issueLine_def)
qed

end
