(* ===== verification/Text_Edits.thy ===== *)
theory Text_Edits
  imports Go_Prelude
begin

text \<open>
  Edits of a text (\<open>internal/x/tools/diff/diff.go\<close>): an edit replaces a byte range, \<open>Apply\<close> sorts,
  validates and applies a sequence of edits, \<open>lineEdits\<close> widens edits to whole lines.

  \<open>Apply\<close> is proved equal to applying the edits one by one from the last to the first, and \<open>lineEdits\<close>
  to keep the result of \<open>Apply\<close>. The size check of \<open>Apply\<close>, a panic in the code, is an error value and
  proved impossible.
\<close>

section \<open>Model\<close>

record Edit =
  Start :: int
  End :: int
  New :: string

datatype diff_error = OutOfBoundsEdits | OverlappingEdits | WrongSizePanic

definition editsLess :: "Edit \<Rightarrow> Edit \<Rightarrow> bool" where
  "editsLess a b =
     (let c = Start a - Start b in if c \<noteq> 0 then c < 0 else End a < End b)"

definition SortEdits :: "Edit list \<Rightarrow> Edit list" where
  "SortEdits edits = stable_sort editsLess edits"

text \<open>\<open>sort.IsSorted\<close>: no element is less than the one before it.\<close>

fun IsSortedEdits :: "Edit list \<Rightarrow> bool" where
  "IsSortedEdits (a # b # es) = (\<not> editsLess b a \<and> IsSortedEdits (b # es))"
| "IsSortedEdits _ = True"

fun validateLoop :: "string \<Rightarrow> Edit list \<Rightarrow> int \<Rightarrow> int \<Rightarrow> diff_error + int" where
  "validateLoop src [] size' lastEnd = Inr size'"
| "validateLoop src (edit # edits) size' lastEnd =
     (if \<not> (0 \<le> Start edit \<and> Start edit \<le> End edit \<and> End edit \<le> int (length src)) then Inl OutOfBoundsEdits
      else if Start edit < lastEnd then Inl OverlappingEdits
      else validateLoop src edits (size' + (int (length (New edit)) + Start edit - End edit)) (End edit))"

definition validate :: "string \<Rightarrow> Edit list \<Rightarrow> diff_error + Edit list \<times> int" where
  "validate src edits =
     (let edits = (if \<not> IsSortedEdits edits then SortEdits edits else edits)
      in case validateLoop src edits (int (length src)) 0 of
           Inl err \<Rightarrow> Inl err
         | Inr size' \<Rightarrow> Inr (edits, size'))"

text \<open>The slice \<open>s[a:b]\<close>, for bounds that are in range.\<close>

definition slice :: "string \<Rightarrow> int \<Rightarrow> int \<Rightarrow> string" where
  "slice s a b = take (nat (b - a)) (drop (nat a) s)"

fun applyLoop :: "string \<Rightarrow> Edit list \<Rightarrow> string \<Rightarrow> int \<Rightarrow> string \<times> int" where
  "applyLoop src [] out lastEnd = (out, lastEnd)"
| "applyLoop src (edit # edits) out lastEnd =
     (let out = (if lastEnd < Start edit then out @ slice src lastEnd (Start edit) else out)
      in applyLoop src edits (out @ New edit) (End edit))"

definition Apply :: "string \<Rightarrow> Edit list \<Rightarrow> diff_error + string" where
  "Apply src edits =
     (case validate src edits of
        Inl err \<Rightarrow> Inl err
      | Inr (edits, size') \<Rightarrow>
          (let (out, lastEnd) = applyLoop src edits [] 0;
               out = out @ slice src lastEnd (int (length src))
           in if int (length out) \<noteq> size' then Inl WrongSizePanic else Inr out))"

definition nl :: char where "nl = CHR 0x0A"

definition LastIndexByte :: "string \<Rightarrow> char \<Rightarrow> int" where
  "LastIndexByte s c = int (length (dropWhile (\<lambda>d. d \<noteq> c) (rev s))) - 1"

definition IndexByte :: "string \<Rightarrow> char \<Rightarrow> int" where
  "IndexByte s c = (if c \<in> set s then int (length (takeWhile (\<lambda>d. d \<noteq> c) s)) else -1)"

definition at :: "string \<Rightarrow> int \<Rightarrow> char" where
  "at s i = s ! nat i"

definition expandEdit :: "Edit \<Rightarrow> string \<Rightarrow> Edit" where
  "expandEdit edit src =
     (let start = Start edit;
          delta = start - 1 - LastIndexByte (slice src 0 start) nl;
          edit1 = (if delta > 0 then edit\<lparr>Start := Start edit - delta, New := slice src (start - delta) start @ New edit\<rparr>
                   else edit);
          end' = End edit1;
          edit2 = (if end' > 0 \<and> at src (end' - 1) \<noteq> nl \<or> New edit1 \<noteq> [] \<and> last (New edit1) \<noteq> nl
                   then (let k = IndexByte (slice src end' (int (length src))) nl in
                         if k < 0 then edit1\<lparr>End := int (length src)\<rparr>
                         else edit1\<lparr>End := end' + k + 1\<rparr>)
                   else edit1)
      in edit2\<lparr>New := New edit2 @ slice src end' (End edit2)\<rparr>)"

text \<open>The test of the fast path, and the loop of the slow path.\<close>

definition misaligned :: "string \<Rightarrow> Edit \<Rightarrow> bool" where
  "misaligned src edit \<longleftrightarrow>
     Start edit \<ge> int (length src) \<or>
     Start edit > 0 \<and> at src (Start edit - 1) \<noteq> nl \<or>
     End edit > 0 \<and> at src (End edit - 1) \<noteq> nl \<or>
     New edit \<noteq> [] \<and> last (New edit) \<noteq> nl"

fun expandLoop :: "string \<Rightarrow> Edit \<Rightarrow> Edit list \<Rightarrow> Edit list \<Rightarrow> Edit list" where
  "expandLoop src prev [] expanded = expanded @ [expandEdit prev src]"
| "expandLoop src prev (edit # edits) expanded =
     (let between = slice src (End prev) (Start edit) in
      if nl \<notin> set between then
        expandLoop src (prev\<lparr>New := New prev @ between @ New edit, End := End edit\<rparr>) edits expanded
      else expandLoop src edit edits (expanded @ [expandEdit prev src]))"

definition lineEdits :: "string \<Rightarrow> Edit list \<Rightarrow> diff_error + Edit list" where
  "lineEdits src edits =
     (case validate src edits of
        Inl err \<Rightarrow> Inl err
      | Inr (edits, _) \<Rightarrow>
          if \<not> list_ex (misaligned src) edits then Inr edits
          else (case edits of [] \<Rightarrow> Inr edits | e # es \<Rightarrow> Inr (expandLoop src e es [])))"

section \<open>Valid sequences of edits\<close>

interpretation editOrder: less_preorder editsLess
  by unfold_locales (auto simp: editsLess_def Let_def split: if_splits)

lemma IsSortedEdits_iff: "IsSortedEdits es \<longleftrightarrow> sorted_wrt (\<lambda>a b. \<not> editsLess b a) es"
proof (induction es rule: IsSortedEdits.induct)
  case (1 a b es)
  then show ?case using editOrder.nless_trans [of b a] by auto
qed auto

lemma validate_sorts:
  "validate src edits =
     (case validateLoop src (SortEdits edits) (int (length src)) 0 of
        Inl err \<Rightarrow> Inl err | Inr size' \<Rightarrow> Inr (SortEdits edits, size'))"
proof -
  have "(if \<not> IsSortedEdits edits then SortEdits edits else edits) = SortEdits edits"
    by (simp add: IsSortedEdits_iff SortEdits_def editOrder.stable_sort_id)
  then show ?thesis unfolding validate_def Let_def by (simp only:)
qed

definition inBounds :: "string \<Rightarrow> Edit \<Rightarrow> bool" where
  "inBounds src e \<longleftrightarrow> 0 \<le> Start e \<and> Start e \<le> End e \<and> End e \<le> int (length src)"

text \<open>In order from \<open>pos\<close> on, in range and not overlapping.\<close>

fun chain :: "string \<Rightarrow> int \<Rightarrow> Edit list \<Rightarrow> bool" where
  "chain src pos [] \<longleftrightarrow> True"
| "chain src pos (e # es) \<longleftrightarrow> pos \<le> Start e \<and> inBounds src e \<and> chain src (End e) es"

definition sizeAfter :: "Edit list \<Rightarrow> int \<Rightarrow> int" where
  "sizeAfter es n = foldl (\<lambda>n e. n + (int (length (New e)) + Start e - End e)) n es"

lemma validateLoop_chain:
  "validateLoop src es n pos = (if chain src pos es then Inr (sizeAfter es n) else validateLoop src es n pos) \<and>
   (\<not> chain src pos es \<longrightarrow> isl (validateLoop src es n pos))"
  by (induction src es n pos rule: validateLoop.induct) (auto simp: sizeAfter_def inBounds_def)

lemma validate_Inr:
  "validate src edits = Inr (es, n) \<longleftrightarrow>
     es = SortEdits edits \<and> chain src 0 es \<and> n = sizeAfter es (int (length src))"
  using validateLoop_chain [of src "SortEdits edits" "int (length src)" 0]
  by (cases "chain src 0 (SortEdits edits)"; cases "validateLoop src (SortEdits edits) (int (length src)) 0")
     (auto simp: validate_sorts)

lemma validate_isl: "isl (validate src edits) \<longleftrightarrow> \<not> chain src 0 (SortEdits edits)"
  using validate_Inr [of src edits "SortEdits edits" "sizeAfter (SortEdits edits) (int (length src))"]
  by (cases "validate src edits") (auto simp: validate_Inr)

lemma chain_bounds: "chain src pos es \<Longrightarrow> e \<in> set es \<Longrightarrow> pos \<le> Start e \<and> inBounds src e"
proof (induction es arbitrary: pos)
  case (Cons a es)
  from Cons.prems(1) have "pos \<le> Start a" "Start a \<le> End a" "inBounds src a" "chain src (End a) es"
    by (simp_all add: inBounds_def)
  with Cons.prems(2) Cons.IH [of "End a"] show ?case by auto
qed simp

lemma chain_sorted: "chain src pos es \<Longrightarrow> sorted_wrt (\<lambda>a b. \<not> editsLess b a) es"
proof (induction es arbitrary: pos)
  case (Cons e es)
  have "\<not> editsLess b e" if "b \<in> set es" for b
    using chain_bounds [of src "End e" es b] that Cons.prems by (auto simp: editsLess_def inBounds_def Let_def)
  with Cons show ?case by auto
qed simp

lemma SortEdits_chain: "chain src pos es \<Longrightarrow> SortEdits es = es"
  using chain_sorted by (auto simp: SortEdits_def editOrder.stable_sort_id)

section \<open>The text after the edits\<close>

text \<open>The result from position \<open>pos\<close> on.\<close>

fun res :: "string \<Rightarrow> int \<Rightarrow> Edit list \<Rightarrow> string" where
  "res src pos [] = slice src pos (int (length src))"
| "res src pos (e # es) = slice src pos (Start e) @ New e @ res src (End e) es"

lemma slice_length [simp]:
  "0 \<le> a \<Longrightarrow> a \<le> b \<Longrightarrow> b \<le> int (length s) \<Longrightarrow> length (slice s a b) = nat (b - a)"
  by (simp add: slice_def)

lemma slice_empty [simp]: "b \<le> a \<Longrightarrow> slice s a b = []"
  by (simp add: slice_def)

lemma slice_split: "0 \<le> a \<Longrightarrow> a \<le> b \<Longrightarrow> b \<le> c \<Longrightarrow> slice s a c = slice s a b @ slice s b c"
proof -
  assume h: "0 \<le> a" "a \<le> b" "b \<le> c"
  have c: "nat (c - a) = nat (b - a) + nat (c - b)" and b: "nat b = nat (b - a) + nat a"
    using h by (simp_all add: nat_add_distrib [symmetric] eq_nat_nat_iff)
  show ?thesis unfolding slice_def c b by (simp add: take_add)
qed

lemma slice_to_end: "0 \<le> a \<Longrightarrow> slice s a (int (length s)) = drop (nat a) s"
  by (simp add: slice_def nat_diff_distrib')

lemma slice_from_0: "slice s 0 b = take (nat b) s"
  by (simp add: slice_def)

lemma applyLoop_res:
  "fst (applyLoop src es out pos) @ slice src (snd (applyLoop src es out pos)) (int (length src)) = out @ res src pos es"
  by (induction src es out pos rule: applyLoop.induct) (simp_all add: Let_def)

lemma res_length:
  "chain src pos es \<Longrightarrow> 0 \<le> pos \<Longrightarrow> pos \<le> int (length src) \<Longrightarrow>
   int (length (res src pos es)) + pos = sizeAfter es (int (length src))"
proof (induction es arbitrary: pos)
  case (Cons e es)
  have lin: "sizeAfter es (n + d) = sizeAfter es n + d" for n d
    unfolding sizeAfter_def
  proof (induction es arbitrary: n)
    case (Cons a es)
    have "n + d + (int (length (New a)) + Start a - End a) = n + (int (length (New a)) + Start a - End a) + d" by simp
    then show ?case using Cons.IH [of "n + (int (length (New a)) + Start a - End a)"] by (simp only: foldl.simps)
  qed simp
  have "int (length (res src (End e) es)) + End e = sizeAfter es (int (length src))"
    using Cons by (auto simp: inBounds_def)
  moreover have "sizeAfter (e # es) (int (length src)) =
      sizeAfter es (int (length src)) + (int (length (New e)) + Start e - End e)"
    using lin by (simp add: sizeAfter_def)
  ultimately show ?case using Cons.prems by (auto simp: inBounds_def)
qed (simp add: sizeAfter_def)

lemma Apply_res:
  "chain src 0 (SortEdits edits) \<Longrightarrow> Apply src edits = Inr (res src 0 (SortEdits edits))"
proof -
  assume ch: "chain src 0 (SortEdits edits)"
  then have v: "validate src edits = Inr (SortEdits edits, sizeAfter (SortEdits edits) (int (length src)))"
    by (simp add: validate_Inr)
  show ?thesis
    using applyLoop_res [of src "SortEdits edits" "[]" 0] res_length [OF ch]
    unfolding Apply_def v case_prod_unfold Let_def sum.case fst_conv snd_conv by simp
qed

lemma Apply_isl: "isl (Apply src edits) \<longleftrightarrow> \<not> chain src 0 (SortEdits edits)"
proof (cases "chain src 0 (SortEdits edits)")
  case False
  then obtain e where "validate src edits = Inl e" using validate_isl [of src edits] by (cases "validate src edits") auto
  then show ?thesis using False by (simp add: Apply_def)
qed (simp add: Apply_res)

text \<open>Applying the edits one by one from the last to the first.\<close>

definition splice :: "Edit \<Rightarrow> string \<Rightarrow> string" where
  "splice e s = take (nat (Start e)) s @ New e @ drop (nat (End e)) s"

lemma foldr_splice:
  "chain src pos es \<Longrightarrow> 0 \<le> pos \<Longrightarrow> pos \<le> int (length src) \<Longrightarrow>
   foldr splice es src = take (nat pos) src @ res src pos es"
proof (induction es arbitrary: pos)
  case Nil
  then show ?case by (simp add: slice_to_end)
next
  case (Cons e es)
  have b: "pos \<le> Start e" "0 \<le> Start e" "Start e \<le> End e" "End e \<le> int (length src)"
    using Cons.prems by (auto simp: inBounds_def)
  let ?t = "foldr splice es src"
  have t: "?t = take (nat (End e)) src @ res src (End e) es"
    using Cons.IH [of "End e"] Cons.prems b by auto
  have "nat (Start e) \<le> nat (End e)" "nat (End e) \<le> length src" using b by auto
  then have "take (nat (Start e)) ?t = take (nat (Start e)) src" "drop (nat (End e)) ?t = res src (End e) es"
    by (simp_all add: t min_def)
  moreover have "take (nat (Start e)) src = take (nat pos) src @ slice src pos (Start e)"
    using slice_split [of 0 pos "Start e" src] b Cons.prems(2) by (simp add: slice_from_0)
  ultimately show ?case by (simp add: splice_def [of e])
qed

section \<open>Widening to whole lines\<close>

text \<open>The start of the line of a position, and the end to which \<open>expandEdit\<close> moves.\<close>

definition lineStart :: "string \<Rightarrow> int \<Rightarrow> int" where
  "lineStart src p = LastIndexByte (slice src 0 p) nl + 1"

lemma LastIndexByte_bounds: "-1 \<le> LastIndexByte s c" "LastIndexByte s c < int (length s)"
proof -
  show "-1 \<le> LastIndexByte s c" by (simp add: LastIndexByte_def)
  have "length (dropWhile (\<lambda>d. d \<noteq> c) (rev s)) \<le> length s"
    using length_dropWhile_le [of "\<lambda>d. d \<noteq> c" "rev s"] by simp
  then show "LastIndexByte s c < int (length s)" unfolding LastIndexByte_def by linarith
qed

lemma LastIndexByte_append:
  "c \<in> set t \<Longrightarrow> LastIndexByte (s @ t) c = int (length s) + LastIndexByte t c \<and> 0 \<le> LastIndexByte t c"
proof -
  assume c: "c \<in> set t"
  then have "dropWhile (\<lambda>d. d \<noteq> c) (rev t @ rev s) = dropWhile (\<lambda>d. d \<noteq> c) (rev t) @ rev s"
    by (intro dropWhile_append1 [of c]) auto
  moreover have "dropWhile (\<lambda>d. d \<noteq> c) (rev t) \<noteq> []" using c by (simp add: dropWhile_eq_Nil_conv)
  ultimately show ?thesis by (simp add: LastIndexByte_def)
qed

lemma LastIndexByte_at: "0 \<le> LastIndexByte s c \<Longrightarrow> s ! nat (LastIndexByte s c) = c"
proof -
  assume "0 \<le> LastIndexByte s c"
  then have ne: "dropWhile (\<lambda>d. d \<noteq> c) (rev s) \<noteq> []" by (auto simp: LastIndexByte_def)
  have "rev s = takeWhile (\<lambda>d. d \<noteq> c) (rev s) @ dropWhile (\<lambda>d. d \<noteq> c) (rev s)" by simp
  then have s: "s = rev (dropWhile (\<lambda>d. d \<noteq> c) (rev s)) @ rev (takeWhile (\<lambda>d. d \<noteq> c) (rev s))"
    by (metis rev_append rev_rev_ident)
  let ?d = "dropWhile (\<lambda>d. d \<noteq> c) (rev s)"
  have "s ! (length ?d - 1) = rev ?d ! (length ?d - 1)"
    using ne by (subst s) (simp add: nth_append)
  also have "\<dots> = hd ?d" using ne by (simp add: rev_nth hd_conv_nth)
  also have "\<dots> = c" using hd_dropWhile [OF ne] by simp
  finally show ?thesis by (simp add: LastIndexByte_def nat_diff_distrib')
qed

lemma lineStart_bounds: "0 \<le> p \<Longrightarrow> p \<le> int (length src) \<Longrightarrow> 0 \<le> lineStart src p \<and> lineStart src p \<le> p"
  using LastIndexByte_bounds [of "slice src 0 p" nl] by (simp add: lineStart_def)

lemma lineStart_at:
  assumes "0 \<le> p" "p \<le> int (length src)" "lineStart src p \<noteq> 0"
  shows "at src (lineStart src p - 1) = nl"
proof -
  have b: "0 \<le> LastIndexByte (slice src 0 p) nl" "LastIndexByte (slice src 0 p) nl < p"
    using assms LastIndexByte_bounds [of "slice src 0 p" nl] by (simp_all add: lineStart_def)
  have "slice src 0 p ! nat (LastIndexByte (slice src 0 p) nl) = nl" by (rule LastIndexByte_at [OF b(1)])
  then show ?thesis using b by (simp add: at_def lineStart_def slice_from_0)
qed

text \<open>With a newline between two positions, the line of the second starts after the first newline.\<close>

lemma lineStart_after:
  assumes "0 \<le> a" "a \<le> p" "p \<le> int (length src)" "nl \<in> set (slice src a p)"
  shows "a + IndexByte (slice src a (int (length src))) nl + 1 \<le> lineStart src p"
    and "0 \<le> IndexByte (slice src a (int (length src))) nl"
proof -
  let ?t = "slice src a p"
  have split: "slice src 0 p = slice src 0 a @ ?t" using slice_split [of 0 a p src] assms by simp
  have rest: "slice src a (int (length src)) = ?t @ slice src p (int (length src))"
    using slice_split [of a p "int (length src)" src] assms by simp
  have idx: "IndexByte (slice src a (int (length src))) nl = int (length (takeWhile (\<lambda>d. d \<noteq> nl) ?t))"
    using assms(4) by (simp add: IndexByte_def rest takeWhile_append1 [of nl])
  have last: "LastIndexByte (slice src 0 p) nl = a + LastIndexByte ?t nl" "0 \<le> LastIndexByte ?t nl"
    using LastIndexByte_append [OF assms(4), of "slice src 0 a"] assms by (simp_all add: split)
  have "int (length (takeWhile (\<lambda>d. d \<noteq> nl) ?t)) \<le> LastIndexByte ?t nl"
  proof (rule ccontr)
    assume "\<not> ?thesis"
    then have "nat (LastIndexByte ?t nl) < length (takeWhile (\<lambda>d. d \<noteq> nl) ?t)" using last(2) by linarith
    then have "takeWhile (\<lambda>d. d \<noteq> nl) ?t ! nat (LastIndexByte ?t nl) \<noteq> nl"
      using nth_mem set_takeWhileD by (metis (mono_tags, lifting))
    moreover have "takeWhile (\<lambda>d. d \<noteq> nl) ?t ! nat (LastIndexByte ?t nl) = ?t ! nat (LastIndexByte ?t nl)"
      by (rule takeWhile_nth) fact
    ultimately show False using LastIndexByte_at [OF last(2)] by simp
  qed
  then show "a + IndexByte (slice src a (int (length src))) nl + 1 \<le> lineStart src p"
    using idx last by (simp add: lineStart_def)
  show "0 \<le> IndexByte (slice src a (int (length src))) nl" by (simp add: idx)
qed

text \<open>An edit of whole lines: it starts and ends at line starts and its text ends with a newline, or it
  reaches the end of the text.\<close>

definition wholeLines :: "string \<Rightarrow> Edit \<Rightarrow> bool" where
  "wholeLines src e \<longleftrightarrow> (Start e = 0 \<or> at src (Start e - 1) = nl) \<and>
     (End e = int (length src) \<or>
      (End e = 0 \<or> at src (End e - 1) = nl) \<and> (New e = [] \<or> last (New e) = nl))"

lemma IndexByte_at:
  assumes "0 \<le> a" "a \<le> int (length src)" "0 \<le> IndexByte (slice src a (int (length src))) nl"
  shows "at src (a + IndexByte (slice src a (int (length src))) nl) = nl"
    and "a + IndexByte (slice src a (int (length src))) nl < int (length src)"
proof -
  let ?t = "slice src a (int (length src))"
  have mem: "nl \<in> set ?t" using assms(3) by (auto simp: IndexByte_def split: if_splits)
  have t: "?t = drop (nat a) src" by (rule slice_to_end [OF assms(1)])
  let ?k = "length (takeWhile (\<lambda>d. d \<noteq> nl) ?t)"
  have k: "?k < length ?t"
    using mem by (metis (mono_tags, lifting) length_takeWhile_le linorder_not_less nless_le takeWhile_eq_all_conv
        takeWhile_eq_take take_all)
  have "?t ! ?k = nl" using nth_length_takeWhile [OF k] by simp
  moreover have "IndexByte ?t nl = int ?k" using mem by (simp add: IndexByte_def)
  ultimately show "at src (a + IndexByte ?t nl) = nl" "a + IndexByte ?t nl < int (length src)"
    using k assms(1) by (simp_all add: t at_def nat_add_distrib)
qed

lemma expandEdit_form:
  assumes e: "inBounds src e"
  obtains t where
    "expandEdit e src = \<lparr>Start = lineStart src (Start e), End = t,
       New = slice src (lineStart src (Start e)) (Start e) @ New e @ slice src (End e) t\<rparr>"
    "End e \<le> t" "t \<le> int (length src)"
    "0 \<le> IndexByte (slice src (End e) (int (length src))) nl \<Longrightarrow>
       t \<le> End e + IndexByte (slice src (End e) (int (length src))) nl + 1"
    "wholeLines src (expandEdit e src)"
proof -
  define st where "st = lineStart src (Start e)"
  define e1 where "e1 = \<lparr>Start = st, End = End e, New = slice src st (Start e) @ New e\<rparr>"
  define k where "k = IndexByte (slice src (End e) (int (length src))) nl"
  define ext where "ext \<longleftrightarrow> End e > 0 \<and> at src (End e - 1) \<noteq> nl \<or> New e1 \<noteq> [] \<and> last (New e1) \<noteq> nl"
  define t where "t = (if ext then (if k < 0 then int (length src) else End e + k + 1) else End e)"
  have b: "0 \<le> Start e" "Start e \<le> End e" "End e \<le> int (length src)" "0 \<le> End e" using e by (auto simp: inBounds_def)
  have st: "0 \<le> st" "st \<le> Start e" "st \<noteq> 0 \<Longrightarrow> at src (st - 1) = nl"
    using lineStart_bounds [of "Start e" src] lineStart_at [of "Start e" src] b by (auto simp: st_def)
  have delta: "Start e - 1 - LastIndexByte (slice src 0 (Start e)) nl = Start e - st" by (simp add: st_def lineStart_def)
  have form: "expandEdit e src = e1\<lparr>End := t, New := New e1 @ slice src (End e) t\<rparr>"
  proof -
    have "(if Start e - st > 0 then e\<lparr>Start := Start e - (Start e - st), New := slice src (Start e - (Start e - st)) (Start e) @ New e\<rparr>
           else e) = e1"
      using st(2) by (simp add: e1_def)
    then show ?thesis
      unfolding expandEdit_def Let_def delta by (simp add: t_def ext_def k_def e1_def) auto
  qed
  have k: "0 \<le> k \<Longrightarrow> at src (End e + k) = nl \<and> End e + k < int (length src)"
    using IndexByte_at [of "End e" src] b by (simp add: k_def)
  have tb: "End e \<le> t" "t \<le> int (length src)" "0 \<le> k \<Longrightarrow> t \<le> End e + k + 1"
    using k b by (auto simp: t_def)
  have lastnl: "last (slice src (End e) t) = nl \<and> slice src (End e) t \<noteq> []" if "ext" "0 \<le> k"
  proof -
    have t: "t = End e + k + 1" using that by (simp add: t_def)
    have l: "length (slice src (End e) t) = nat (k + 1)" using tb b t by simp
    have le: "nat (End e) \<le> length src" using b by simp
    have "slice src (End e) t ! nat k = nl"
      using le k [OF that(2)] that(2) b by (simp add: slice_def t at_def nat_add_distrib)
    moreover have "nat k = length (slice src (End e) t) - 1" using l that(2) by simp
    ultimately show ?thesis using l that(2) by (metis last_conv_nth length_greater_0_conv zero_less_nat_eq zless_add1_eq order_le_less)
  qed
  have "wholeLines src (expandEdit e src)"
  proof (cases "t = int (length src)")
    case True
    then show ?thesis using st(3) by (auto simp: wholeLines_def form e1_def)
  next
    case False
    show ?thesis
    proof (cases ext)
      case True
      with False have k0: "0 \<le> k" by (auto simp: t_def split: if_splits)
      then have "at src (t - 1) = nl" using k True by (simp add: t_def)
      then show ?thesis using st(3) lastnl [OF True k0] by (auto simp: wholeLines_def form e1_def)
    next
      case noext: False
      then have "t = End e" "End e = 0 \<or> at src (End e - 1) = nl" "New e1 = [] \<or> last (New e1) = nl"
        using b by (auto simp: t_def ext_def)
      then show ?thesis using st(3) by (auto simp: wholeLines_def form e1_def)
    qed
  qed
  then show ?thesis
    using that [of t] tb form by (simp add: e1_def st_def k_def)
qed

lemma expandLoop_acc: "expandLoop src prev es acc = acc @ expandLoop src prev es []"
proof (induction es arbitrary: prev acc)
  case (Cons e es)
  show ?case
    using Cons.IH [of _ acc] Cons.IH [of e "acc @ [expandEdit prev src]"] Cons.IH [of e "[expandEdit prev src]"]
    by (simp add: Let_def)
qed simp

lemma expandLoop_res:
  assumes "inBounds src prev" "chain src (End prev) es" "0 \<le> lb" "lb \<le> lineStart src (Start prev)"
  shows "chain src lb (expandLoop src prev es []) \<and>
         res src lb (expandLoop src prev es []) = res src lb (prev # es) \<and>
         list_all (wholeLines src) (expandLoop src prev es [])"
  using assms
proof (induction es arbitrary: prev lb)
  case Nil
  obtain t where t: "expandEdit prev src = \<lparr>Start = lineStart src (Start prev), End = t,
       New = slice src (lineStart src (Start prev)) (Start prev) @ New prev @ slice src (End prev) t\<rparr>"
    "End prev \<le> t" "t \<le> int (length src)" "wholeLines src (expandEdit prev src)"
    using expandEdit_form [OF Nil.prems(1)] by metis
  have ls: "0 \<le> lineStart src (Start prev)" "lineStart src (Start prev) \<le> Start prev"
    using lineStart_bounds [of "Start prev" src] Nil.prems(1) by (auto simp: inBounds_def)
  have "slice src lb (Start prev) = slice src lb (lineStart src (Start prev)) @ slice src (lineStart src (Start prev)) (Start prev)"
    using slice_split [of lb "lineStart src (Start prev)" "Start prev" src] Nil.prems ls by simp
  moreover have "slice src (End prev) (int (length src)) = slice src (End prev) t @ slice src t (int (length src))"
    using slice_split [of "End prev" t "int (length src)" src] t Nil.prems(1) by (simp add: inBounds_def)
  ultimately show ?case using t ls Nil.prems by (simp add: inBounds_def)
next
  case (Cons e es)
  have e: "inBounds src e" "End prev \<le> Start e" "chain src (End e) es" using Cons.prems(2) by auto
  show ?case
  proof (cases "nl \<in> set (slice src (End prev) (Start e))")
    case False
    let ?p = "prev\<lparr>New := New prev @ slice src (End prev) (Start e) @ New e, End := End e\<rparr>"
    have "inBounds src ?p" using e Cons.prems(1) by (auto simp: inBounds_def)
    with Cons.IH [of ?p lb] Cons.prems e False show ?thesis by (simp add: Let_def)
  next
    case True
    obtain t where t: "expandEdit prev src = \<lparr>Start = lineStart src (Start prev), End = t,
       New = slice src (lineStart src (Start prev)) (Start prev) @ New prev @ slice src (End prev) t\<rparr>"
      "End prev \<le> t" "t \<le> int (length src)"
      "0 \<le> IndexByte (slice src (End prev) (int (length src))) nl \<Longrightarrow>
         t \<le> End prev + IndexByte (slice src (End prev) (int (length src))) nl + 1"
      "wholeLines src (expandEdit prev src)"
      using expandEdit_form [OF Cons.prems(1)] by metis
    have ls: "0 \<le> lineStart src (Start prev)" "lineStart src (Start prev) \<le> Start prev"
      using lineStart_bounds [of "Start prev" src] Cons.prems(1) by (auto simp: inBounds_def)
    have te: "t \<le> lineStart src (Start e)"
      using t(4) lineStart_after [of "End prev" "Start e" src] True e Cons.prems(1) by (auto simp: inBounds_def)
    have t0: "0 \<le> t" "lineStart src (Start e) \<le> Start e"
      using t(2) lineStart_bounds [of "Start e" src] e Cons.prems(1) by (auto simp: inBounds_def)
    have IH: "chain src t (expandLoop src e es [])" "res src t (expandLoop src e es []) = res src t (e # es)"
      "list_all (wholeLines src) (expandLoop src e es [])"
      using Cons.IH [OF e(1,3) t0(1) te] by blast+
    have "slice src lb (Start prev) = slice src lb (lineStart src (Start prev)) @ slice src (lineStart src (Start prev)) (Start prev)"
      using slice_split [of lb "lineStart src (Start prev)" "Start prev" src] Cons.prems ls by simp
    moreover have "slice src (End prev) (Start e) = slice src (End prev) t @ slice src t (Start e)"
      using slice_split [of "End prev" t "Start e" src] t te t0 Cons.prems(1) by (simp add: inBounds_def)
    moreover have "expandLoop src prev (e # es) [] = expandEdit prev src # expandLoop src e es []"
      using True expandLoop_acc [of src e es "[expandEdit prev src]"] by (simp add: Let_def)
    ultimately show ?thesis using t ls IH Cons.prems by (simp add: inBounds_def)
  qed
qed

section \<open>Properties\<close>


text \<open>C6: Widening edits to whole lines fails exactly when applying them fails; otherwise it gives valid edits, each of
  whole lines, with the same result.\<close>

theorem line_edits_keep_result:
  "(case lineEdits src edits of
      Inl err \<Rightarrow> Apply src edits = Inl err
    | Inr es \<Rightarrow> Apply src es = Apply src edits \<and> \<not> isl (Apply src edits) \<and> list_all (wholeLines src) es)"
proof (cases "validate src edits")
  case (Inl err)
  then show ?thesis by (simp add: lineEdits_def Apply_def)
next
  case (Inr r)
  obtain es n where r: "r = (es, n)" by fastforce
  then have es: "es = SortEdits edits" "chain src 0 es" using Inr by (auto simp: validate_Inr)
  have ok: "Apply src edits = Inr (res src 0 es)" using Apply_res [of src edits] es by simp
  show ?thesis
  proof (cases "list_ex (misaligned src) es")
    case False
    have "list_all (wholeLines src) es"
    proof -
      have "wholeLines src e" if "e \<in> set es" for e
        using False that chain_bounds [OF es(2) that]
        by (auto simp: list_ex_iff misaligned_def wholeLines_def inBounds_def)
      then show ?thesis by (simp add: list_all_iff)
    qed
    moreover have "Apply src es = Inr (res src 0 es)" using Apply_res [of src es] SortEdits_chain [OF es(2)] es(2) by simp
    ultimately show ?thesis using False Inr r ok by (simp add: lineEdits_def)
  next
    case True
    then obtain p ps where ps: "es = p # ps" by (cases es) auto
    have p: "inBounds src p" "chain src (End p) ps" using es(2) ps by simp_all
    have ls: "0 \<le> lineStart src (Start p)" using lineStart_bounds [of "Start p" src] p(1) by (auto simp: inBounds_def)
    let ?out = "expandLoop src p ps []"
    have out: "chain src 0 ?out" "res src 0 ?out = res src 0 es" "list_all (wholeLines src) ?out"
      using expandLoop_res [OF p _ ls] ps by auto
    have "Apply src ?out = Inr (res src 0 es)"
      using Apply_res [of src ?out] SortEdits_chain [OF out(1)] out by simp
    then show ?thesis using True Inr r ok ps out(3) by (simp add: lineEdits_def)
  qed
qed

end
