(* ===== verification/Fixer.thy ===== *)
theory Fixer
  imports Text_Edits Fs_Cache Result_Issue "HOL-Library.List_Lexorder" "HOL-Library.Char_ord"
begin

text \<open>
  Automatic fixes: the chain of formatters (\<open>pkg/goformatters/meta_formatter.go\<close>) and the fixer
  (\<open>pkg/result/processors/fixer.go\<close>), which groups the suggested edits of the issues by file and linter,
  drops the linters whose edits conflict, applies the others through the file cache and writes the files.

  Parameters: the formatters themselves, \<open>go/format\<close>, the outcome of writing a file, and the order in
  which Go visits the keys of a map (\<open>keys\<close>: the place in the code and the path give the visit), whose
  law is \<open>visits_all\<close>. The text of the conflict report is left out of the log.
\<close>

section \<open>The chain of formatters\<close>

record Formatter =
  fmtName :: string
  fmtFormat :: "string \<Rightarrow> string \<Rightarrow> string + string"

definition gofmtName :: string where "gofmtName = ''gofmt''"
definition gofumptName :: string where "gofumptName = ''gofumpt''"
definition goimportsName :: string where "goimportsName = ''goimports''"
definition gciName :: string where "gciName = ''gci''"
definition golinesName :: string where "golinesName = ''golines''"
definition swaggoName :: string where "swaggoName = ''swaggo''"

definition IsFormatter :: "string \<Rightarrow> bool" where
  "IsFormatter name \<longleftrightarrow> name \<in> set [gofmtName, gofumptName, goimportsName, gciName, golinesName, swaggoName]"

text \<open>\<open>newFmt name\<close> constructs the formatter; only that of \<open>gci\<close> can fail.\<close>

definition NewMetaFormatter ::
  "(string \<Rightarrow> Formatter) \<Rightarrow> string + Formatter \<Rightarrow> string list \<Rightarrow> string + Formatter list" where
  "NewMetaFormatter newFmt newGci enable =
     (case List.find (\<lambda>f. \<not> IsFormatter f) enable of
        Some f \<Rightarrow> Inl (''invalid formatter '' @ f)
      | None \<Rightarrow>
          (let fs = concat (map (\<lambda>n. if n \<in> set enable then [newFmt n] else [])
                              [gofmtName, gofumptName, goimportsName, swaggoName]);
               gl = (if golinesName \<in> set enable then [newFmt golinesName] else [])
           in if gciName \<in> set enable then
                (case newGci of
                   Inl err \<Rightarrow> Inl (''gci: creating formatter: '' @ err)
                 | Inr f \<Rightarrow> Inr (fs @ [f] @ gl))
              else Inr (fs @ gl)))"

fun runFormatters :: "Formatter list \<Rightarrow> string \<Rightarrow> string \<Rightarrow> log_call list \<Rightarrow> string \<times> log_call list" where
  "runFormatters [] filename data log = (data, log)"
| "runFormatters (f # fs) filename data log =
     (case fmtFormat f filename data of
        Inl err \<Rightarrow>
          runFormatters fs filename data
            (log @ [Warnf ''(%s) formatting file %s: %v'' [LStr (fmtName f), LStr filename, LStr err]])
      | Inr formatted \<Rightarrow> runFormatters fs filename formatted log)"

definition MetaFormatter_Format ::
  "(string \<Rightarrow> string + string) \<Rightarrow> Formatter list \<Rightarrow> string \<Rightarrow> string \<Rightarrow> log_call list \<Rightarrow> string \<times> log_call list" where
  "MetaFormatter_Format formatSource formatters filename src log =
     (if length formatters = 0 then
        (case formatSource src of
           Inl err \<Rightarrow> (src, log @ [Warnf ''(fmt) formatting file %s: %v'' [LStr filename, LStr err]])
         | Inr data \<Rightarrow> (data, log))
      else runFormatters formatters filename src log)"

section \<open>Validation of edits\<close>

definition skipNoTextEdit :: "Issue \<Rightarrow> bool" where
  "skipNoTextEdit issue \<longleftrightarrow>
     length (SuggestedFixes issue) = length (filter (\<lambda>sf. length (TextEdits sf) = 0) (SuggestedFixes issue))"

text \<open>The loop over adjacent edits: the edits without repetition and the index of the last conflict.\<close>

fun uniqueLoop :: "Edit \<Rightarrow> Edit list \<Rightarrow> int \<Rightarrow> Edit list \<Rightarrow> int \<Rightarrow> Edit list \<times> int" where
  "uniqueLoop prev [] i unique invalid = (unique, invalid)"
| "uniqueLoop prev (cur # es) i unique invalid =
     (if Start prev = Start cur \<and> End prev = End cur \<and> New prev = New cur
      then uniqueLoop cur es (i + 1) unique invalid
      else uniqueLoop cur es (i + 1) (unique @ [cur]) (if End prev > Start cur then i else invalid))"

definition validateEdits :: "Edit list \<Rightarrow> Edit list \<times> int" where
  "validateEdits edits =
     (case SortEdits edits of [] \<Rightarrow> ([], -1) | e # es \<Rightarrow> uniqueLoop e es 1 [e] (-1))"

section \<open>The fixer\<close>

datatype fix_error =
    InvalidFix string int int
  | ReadError string
  | ApplyError string diff_error
  | WriteError string string

type_synonym linterEdits = "string \<rightharpoonup> Edit list"

record Collected =
  editsByLinter :: "string \<rightharpoonup> linterEdits"
  notFixableIssues :: "Issue list"
  toBeFormattedFiles :: "string set"

definition formatterNames :: "string list" where
  "formatterNames = [gofumptName, goimportsName, gofmtName, gciName, golinesName, swaggoName]"

definition addEdit :: "string \<Rightarrow> string \<Rightarrow> Edit \<Rightarrow> (string \<rightharpoonup> linterEdits) \<Rightarrow> (string \<rightharpoonup> linterEdits)" where
  "addEdit path linter edit m =
     (let lm = (case m path of None \<Rightarrow> Map.empty | Some lm \<Rightarrow> lm);
          old = (case lm linter of None \<Rightarrow> [] | Some es \<Rightarrow> es)
      in m(path \<mapsto> lm(linter \<mapsto> old @ [edit])))"

fun addTextEdits ::
  "Issue \<Rightarrow> TextEdit list \<Rightarrow> (string \<rightharpoonup> linterEdits) \<Rightarrow> fix_error + (string \<rightharpoonup> linterEdits)" where
  "addTextEdits issue [] m = Inr m"
| "addTextEdits issue (te # tes) m =
     (if EditPos te > EditEnd te then Inl (InvalidFix (FromLinter issue) (EditPos te) (EditEnd te))
      else addTextEdits issue tes
             (addEdit (FilePath issue) (FromLinter issue)
                \<lparr>Start = EditPos te, End = EditEnd te, New = NewText te\<rparr> m))"

fun collectLoop :: "Issue list \<Rightarrow> Collected \<Rightarrow> fix_error + Collected" where
  "collectLoop [] st = Inr st"
| "collectLoop (issue # issues) st =
     (if FromLinter issue \<in> set formatterNames then
        collectLoop issues (st\<lparr>toBeFormattedFiles := insert (FilePath issue) (toBeFormattedFiles st)\<rparr>)
      else if SuggestedFixes issue = [] \<or> skipNoTextEdit issue then
        collectLoop issues (st\<lparr>notFixableIssues := notFixableIssues st @ [issue]\<rparr>)
      else
        (case addTextEdits issue (concat (map TextEdits (SuggestedFixes issue))) (editsByLinter st) of
           Inl err \<Rightarrow> Inl err
         | Inr m \<Rightarrow> collectLoop issues (st\<lparr>editsByLinter := m\<rparr>)))"

definition emptyCollected :: Collected where
  "emptyCollected = \<lparr>editsByLinter = Map.empty, notFixableIssues = [], toBeFormattedFiles = {}\<rparr>"

text \<open>The linters with conflicting edits of their own. The validation sorts the edits of each linter in
  place, so later steps see them sorted.\<close>

definition selfConflicts :: "string list \<Rightarrow> linterEdits \<Rightarrow> string set" where
  "selfConflicts linters lm = {l \<in> set linters. snd (validateEdits (the (lm l))) > 0}"

definition sortedEdits :: "linterEdits \<Rightarrow> linterEdits" where
  "sortedEdits lm = (\<lambda>l. map_option SortEdits (lm l))"

text \<open>The linters in their pairs, as the two nested loops over the indices visit them.\<close>

definition linterPairs :: "string list \<Rightarrow> (string \<times> string) list" where
  "linterPairs linters = concat (map (\<lambda>j. map (\<lambda>k. (linters ! j, linters ! k)) [0..<j]) [0..<length linters])"

definition pairStep :: "string \<Rightarrow> linterEdits \<Rightarrow> string \<times> string \<Rightarrow> string set \<times> log_call list \<Rightarrow> string set \<times> log_call list" where
  "pairStep path lm pr st =
     (let (x, y) = (if cmp_string (fst pr) (snd pr) > 0 then (snd pr, fst pr) else pr);
          (excludedLinters, log) = st
      in if x \<in> excludedLinters \<or> y \<in> excludedLinters then st
         else if snd (validateEdits (the (lm x) @ the (lm y))) > 0 then
           (insert x excludedLinters,
            log @ [Warnf ''Changes related to %q are skipped for the file %q due to conflicts with %q.''
                     [LStr x, LStr path, LStr y]])
         else st)"

definition excludeConflicts :: "string \<Rightarrow> string list \<Rightarrow> linterEdits \<Rightarrow> log_call list \<Rightarrow> string set \<times> log_call list" where
  "excludeConflicts path linters lm log =
     (let self = selfConflicts linters lm;
          log1 = log @ map (\<lambda>l. Warnf ''Changes related to %q are skipped for the file %q: %v'' [LStr l, LStr path])
                         (filter (\<lambda>l. l \<in> self) linters)
      in fold (pairStep path (sortedEdits lm)) (linterPairs linters) (self, log1))"

type_synonym visits = "nat \<Rightarrow> string \<Rightarrow> string set \<Rightarrow> string list"

definition visits_all :: "visits \<Rightarrow> bool" where
  "visits_all keys \<longleftrightarrow> (\<forall>site path A. finite A \<longrightarrow> distinct (keys site path A) \<and> set (keys site path A) = A)"

definition pathEdits :: "visits \<Rightarrow> string \<Rightarrow> linterEdits \<Rightarrow> log_call list \<Rightarrow> Edit list \<times> log_call list" where
  "pathEdits keys path lm log =
     (let (excluded, log1) = excludeConflicts path (keys 1 path (dom lm)) lm log;
          edits = concat (map (\<lambda>l. if l \<in> excluded then [] else the (sortedEdits lm l)) (keys 2 path (dom lm)))
      in (fst (validateEdits edits), log1))"

text \<open>\<open>writeError\<close>: for a path, the content of the file and the text to be written, the error of \<open>os.WriteFile\<close>, if any, and what the file
  holds after the failure, which can be the old content, a part of the text, or nothing.\<close>

record FixEnv =
  fixKeys :: visits
  formatFile :: "string \<Rightarrow> string \<Rightarrow> log_call list \<Rightarrow> string \<times> log_call list"
  writeError :: "string \<Rightarrow> string option \<Rightarrow> string \<Rightarrow> (string \<times> string option) option"

record FixState =
  fixFiles :: files
  fixCaches :: Caches
  fixLog :: "log_call list"
  fixErrors :: "fix_error list"
  formattedFiles :: "string list"

definition writeFile :: "FixEnv \<Rightarrow> string \<Rightarrow> string \<Rightarrow> FixState \<Rightarrow> bool \<times> FixState" where
  "writeFile env path out st =
     (case writeError env path (fixFiles st path) out of
        Some (err, left) \<Rightarrow> (False, st\<lparr>fixErrors := fixErrors st @ [WriteError path err], fixFiles := (fixFiles st)(path := left)\<rparr>)
      | None \<Rightarrow> (True, st\<lparr>fixFiles := (fixFiles st)(path \<mapsto> out)\<rparr>))"

definition applyPath :: "FixEnv \<Rightarrow> (string \<rightharpoonup> Edit list) \<Rightarrow> string \<Rightarrow> FixState \<Rightarrow> FixState" where
  "applyPath env editsByPath path st =
     (case GetFileBytes (fixFiles st) (fixCaches st) path of
        (Inl err, c) \<Rightarrow> st\<lparr>fixCaches := c, fixErrors := fixErrors st @ [ReadError path]\<rparr>
      | (Inr contents, c) \<Rightarrow>
          (case Apply contents (the (editsByPath path)) of
             Inl err \<Rightarrow> st\<lparr>fixCaches := c, fixErrors := fixErrors st @ [ApplyError path err]\<rparr>
           | Inr out \<Rightarrow>
               (let (out, log) = formatFile env path out (fixLog st);
                    (ok, st) = writeFile env path out (st\<lparr>fixCaches := c, fixLog := log\<rparr>)
                in if ok then st\<lparr>formattedFiles := formattedFiles st @ [path]\<rparr> else st)))"

definition formatPath :: "FixEnv \<Rightarrow> string \<Rightarrow> FixState \<Rightarrow> FixState" where
  "formatPath env path st =
     (if path \<in> set (formattedFiles st) then st
      else (case GetFileBytes (fixFiles st) (fixCaches st) path of
              (Inl err, c) \<Rightarrow> st\<lparr>fixCaches := c, fixLog := fixLog st @ [Warnf ''Error reading file %s: %v'' [LStr path]]\<rparr>
            | (Inr content, c) \<Rightarrow>
                (let (out, log) = formatFile env path content (fixLog st)
                 in snd (writeFile env path out (st\<lparr>fixCaches := c, fixLog := log\<rparr>)))))"

text \<open>The edits of all files, visiting the files in order.\<close>

fun groupPaths ::
  "visits \<Rightarrow> (string \<rightharpoonup> linterEdits) \<Rightarrow> string list \<Rightarrow> (string \<rightharpoonup> Edit list) \<Rightarrow> log_call list \<Rightarrow>
   (string \<rightharpoonup> Edit list) \<times> log_call list" where
  "groupPaths keys m [] acc log = (acc, log)"
| "groupPaths keys m (path # paths) acc log =
     (let (es, log') = pathEdits keys path (the (m path)) log
      in groupPaths keys m paths (acc(path \<mapsto> es)) log')"

definition Fixer_process :: "FixEnv \<Rightarrow> FixState \<Rightarrow> Issue list \<Rightarrow> Issue list \<times> FixState" where
  "Fixer_process env st issues =
     (case collectLoop issues emptyCollected of
        Inl err \<Rightarrow> ([], st\<lparr>fixErrors := fixErrors st @ [err]\<rparr>)
      | Inr col \<Rightarrow>
          (let (editsByPath, log) =
                 groupPaths (fixKeys env) (editsByLinter col)
                   (fixKeys env 0 [] (dom (editsByLinter col))) Map.empty (fixLog st);
               st = st\<lparr>fixLog := log, formattedFiles := []\<rparr>;
               st = fold (applyPath env editsByPath) (fixKeys env 3 [] (dom editsByPath)) st;
               st = fold (formatPath env) (fixKeys env 4 [] (toBeFormattedFiles col)) st
           in (notFixableIssues col, st)))"

text \<open>The processor; an error of the fixing is only logged.\<close>

definition Fixer_Process ::
  "FixEnv \<Rightarrow> bool \<Rightarrow> FixState \<Rightarrow> Issue list \<Rightarrow> (proc_error + Issue list) \<times> FixState" where
  "Fixer_Process env needFix st issues =
     (if \<not> needFix then (Inr issues, st)
      else
        (let st = st\<lparr>fixLog := fixLog st @ [Infof ''Applying suggested fixes'' []], fixErrors := []\<rparr>;
             (notFixable, st) = Fixer_process env st issues;
             st = (if fixErrors st = [] then st
                   else st\<lparr>fixLog := fixLog st @ [Warnf ''Failed to fix issues: %v'' []]\<rparr>)
         in (Inr notFixable, st)))"

section \<open>Conflicts\<close>

text \<open>Two edits are compatible when they are equal or one ends before the other starts.\<close>

definition compat :: "Edit \<Rightarrow> Edit \<Rightarrow> bool" where
  "compat a b \<longleftrightarrow> a = b \<or> End a \<le> Start b \<or> End b \<le> Start a"

definition forward :: "Edit \<Rightarrow> bool" where
  "forward e \<longleftrightarrow> Start e \<le> End e"

lemma edit_eq: "Start a = Start b \<and> End a = End b \<and> New a = New b \<longleftrightarrow> a = (b :: Edit)"
  by (cases a; cases b) auto

lemma compat_sorted:
  "\<not> editsLess b a \<Longrightarrow> forward a \<Longrightarrow> forward b \<Longrightarrow> compat a b \<longleftrightarrow> a = b \<or> End a \<le> Start b"
  by (auto simp: compat_def editsLess_def forward_def Let_def split: if_splits)

text \<open>Adjacent edits of a sorted list that are not equal do not overlap.\<close>

fun adjacent :: "Edit \<Rightarrow> Edit list \<Rightarrow> bool" where
  "adjacent a [] \<longleftrightarrow> True"
| "adjacent a (b # es) \<longleftrightarrow> (a = b \<or> End a \<le> Start b) \<and> adjacent b es"

lemma uniqueLoop_snd:
  "0 < i \<Longrightarrow> (snd (uniqueLoop a es i u iv) > 0 \<longleftrightarrow> iv > 0 \<or> \<not> adjacent a es)"
proof (induction es arbitrary: a i u iv)
  case (Cons b es)
  then show ?case by (auto simp: edit_eq)
qed simp

lemma adjacent_all:
  assumes "sorted_wrt (\<lambda>a b. \<not> editsLess b a) (a # es)" "list_all forward (a # es)" "adjacent a es" "b \<in> set es"
  shows "a = b \<or> End a \<le> Start b"
  using assms
proof (induction es arbitrary: a)
  case (Cons c es)
  show ?case
  proof (cases "a = c")
    case True
    then show ?thesis using Cons by auto
  next
    case False
    then have "End a \<le> Start c" using Cons.prems(3) by auto
    moreover have "Start c \<le> Start b"
      using Cons.prems(1,4) by (auto simp: editsLess_def Let_def split: if_splits)
    ultimately show ?thesis by simp
  qed
qed simp

lemma adjacent_iff_compat:
  assumes "sorted_wrt (\<lambda>a b. \<not> editsLess b a) (a # es)" "list_all forward (a # es)"
  shows "adjacent a es \<longleftrightarrow> (\<forall>x \<in> set (a # es). \<forall>y \<in> set (a # es). compat x y)"
  using assms
proof (induction es arbitrary: a)
  case Nil
  then show ?case by (simp add: compat_def)
next
  case (Cons b es)
  have sorted: "sorted_wrt (\<lambda>a b. \<not> editsLess b a) (b # es)" "list_all forward (b # es)" using Cons.prems by auto
  have c: "compat a y \<longleftrightarrow> a = y \<or> End a \<le> Start y" if "y \<in> set (b # es)" for y
    using Cons.prems that by (intro compat_sorted) (auto simp: list_all_iff)
  have sym: "compat x y \<longleftrightarrow> compat y x" for x y by (auto simp: compat_def)
  have refl: "compat x x" for x by (simp add: compat_def)
  have "(\<forall>x \<in> set (a # b # es). \<forall>y \<in> set (a # b # es). compat x y) \<longleftrightarrow>
        (\<forall>y \<in> set (b # es). compat a y) \<and> (\<forall>x \<in> set (b # es). \<forall>y \<in> set (b # es). compat x y)"
    using sym refl by (simp only: list.set ball_simps) blast
  also have "\<dots> \<longleftrightarrow> adjacent a (b # es)"
    using Cons.IH [OF sorted] c adjacent_all [OF Cons.prems] by auto
  finally show ?case by blast
qed

lemma SortEdits_props:
  "set (SortEdits es) = set es" "sorted_wrt (\<lambda>a b. \<not> editsLess b a) (SortEdits es)" "SortEdits es = [] \<longleftrightarrow> es = []"
  using editOrder.sorted_stable_sort [of es] length_stable_sort [of editsLess es]
  by (auto simp: SortEdits_def simp del: length_stable_sort)

text \<open>The validation finds a conflict exactly when two edits are not compatible.\<close>

lemma validateEdits_conflict:
  assumes "list_all forward es"
  shows "snd (validateEdits es) > 0 \<longleftrightarrow> (\<exists>x \<in> set es. \<exists>y \<in> set es. \<not> compat x y)"
proof (cases "SortEdits es")
  case Nil
  then show ?thesis using SortEdits_props [of es] by (simp add: validateEdits_def)
next
  case (Cons e r)
  have "list_all forward (e # r)" "set (e # r) = set es"
    using assms SortEdits_props(1) [of es] Cons by (auto simp: list_all_iff)
  moreover have "sorted_wrt (\<lambda>a b. \<not> editsLess b a) (e # r)" using SortEdits_props(2) [of es] Cons by simp
  ultimately have "adjacent e r \<longleftrightarrow> (\<forall>x \<in> set es. \<forall>y \<in> set es. compat x y)"
    using adjacent_iff_compat [of e r] by simp
  then show ?thesis using Cons uniqueLoop_snd [of 1 e r "[e]" "-1"] by (auto simp: validateEdits_def)
qed

lemma uniqueLoop_fst:
  assumes "adjacent a es" "list_all forward (a # es)" "u \<noteq> []" "last u = a" "sorted_wrt (\<lambda>a b. End a \<le> Start b) u"
    "list_all forward u"
  shows "sorted_wrt (\<lambda>a b. End a \<le> Start b) (fst (uniqueLoop a es i u iv)) \<and>
         set (fst (uniqueLoop a es i u iv)) = set u \<union> set es"
  using assms
proof (induction es arbitrary: a i u iv)
  case (Cons b es)
  show ?case
  proof (cases "a = b")
    case True
    then have "uniqueLoop a (b # es) i u iv = uniqueLoop b es (i + 1) u iv" by simp
    moreover have "b \<in> set u" using Cons.prems(3,4) True last_in_set by blast
    ultimately show ?thesis using Cons.IH [of b u "i + 1" iv] Cons.prems True by auto
  next
    case False
    let ?iv = "if End a > Start b then i else iv"
    have step: "uniqueLoop a (b # es) i u iv = uniqueLoop b es (i + 1) (u @ [b]) ?iv" using False by (simp add: edit_eq)
    have ab: "End a \<le> Start b" using Cons.prems(1) False by simp
    have "End x \<le> Start b" if "x \<in> set u" for x
    proof -
      obtain v where v: "u = v @ [a]" using Cons.prems(3,4) by (metis append_butlast_last_id)
      show ?thesis
      proof (cases "x = a")
        case False
        then have "End x \<le> Start a" using that Cons.prems(5) v by (auto simp: sorted_wrt_append)
        moreover have "Start a \<le> End a" using Cons.prems(2) by (simp add: forward_def)
        ultimately show ?thesis using ab by simp
      qed (use ab in simp)
    qed
    then have "sorted_wrt (\<lambda>a b. End a \<le> Start b) (u @ [b])" using Cons.prems(5) by (simp add: sorted_wrt_append)
    then show ?thesis using Cons.IH [of b "u @ [b]" "i + 1" ?iv] Cons.prems step by auto
  qed
qed simp

lemma validateEdits_fst:
  assumes "list_all forward es" "\<And>x y. x \<in> set es \<Longrightarrow> y \<in> set es \<Longrightarrow> compat x y"
  shows "sorted_wrt (\<lambda>a b. End a \<le> Start b) (fst (validateEdits es))" "set (fst (validateEdits es)) = set es"
proof -
  have "sorted_wrt (\<lambda>a b. End a \<le> Start b) (fst (validateEdits es)) \<and> set (fst (validateEdits es)) = set es"
  proof (cases "SortEdits es")
    case Nil
    then show ?thesis using SortEdits_props [of es] by (simp add: validateEdits_def)
  next
    case (Cons e r)
    have s: "set (e # r) = set es" using SortEdits_props(1) [of es] Cons by simp
    have f: "list_all forward (e # r)" using assms(1) s by (simp only: list_all_iff)
    have "\<forall>x \<in> set (e # r). \<forall>y \<in> set (e # r). compat x y" unfolding s using assms(2) by blast
    moreover have "sorted_wrt (\<lambda>a b. \<not> editsLess b a) (e # r)" using SortEdits_props(2) [of es] Cons by simp
    ultimately have "adjacent e r" using adjacent_iff_compat [OF _ f] by blast
    then show ?thesis
      using uniqueLoop_fst [of e r "[e]" 1 "-1"] f s Cons by (auto simp: validateEdits_def)
  qed
  then show "sorted_wrt (\<lambda>a b. End a \<le> Start b) (fst (validateEdits es))" "set (fst (validateEdits es)) = set es"
    by blast+
qed

section \<open>Excluding linters\<close>

lemma sortedEdits_simps [simp]:
  "dom (sortedEdits lm) = dom lm" "lm l = Some es \<Longrightarrow> sortedEdits lm l = Some (SortEdits es)"
  by (auto simp: sortedEdits_def)

text \<open>The pair of linters has been found compatible.\<close>

definition okPair :: "linterEdits \<Rightarrow> string \<Rightarrow> string \<Rightarrow> bool" where
  "okPair lm a b \<longleftrightarrow>
     (\<forall>e \<in> set (the (lm a)) \<union> set (the (lm b)). \<forall>f \<in> set (the (lm a)) \<union> set (the (lm b)). compat e f)"

lemma okPair_sym: "okPair lm a b = okPair lm b a"
  by (simp add: okPair_def Un_commute)

lemma pairStep_grows: "fst st \<subseteq> fst (pairStep path lm pr st)"
  by (auto simp: pairStep_def Let_def case_prod_unfold)

lemma pairStep_ok:
  assumes "list_all forward (the (lm (fst pr)))" "list_all forward (the (lm (snd pr)))"
    and "fst pr \<notin> fst (pairStep path lm pr st)" "snd pr \<notin> fst (pairStep path lm pr st)"
  shows "okPair lm (fst pr) (snd pr)"
proof -
  define x where "x = (if cmp_string (fst pr) (snd pr) > 0 then snd pr else fst pr)"
  define y where "y = (if cmp_string (fst pr) (snd pr) > 0 then fst pr else snd pr)"
  have step: "pairStep path lm pr st =
    (if x \<in> fst st \<or> y \<in> fst st then st
     else if snd (validateEdits (the (lm x) @ the (lm y))) > 0 then
       (insert x (fst st), snd st @ [Warnf ''Changes related to %q are skipped for the file %q due to conflicts with %q.''
          [LStr x, LStr path, LStr y]])
     else st)"
    by (auto simp: pairStep_def x_def y_def Let_def case_prod_unfold)
  have f: "list_all forward (the (lm x) @ the (lm y))" using assms(1,2) by (auto simp: x_def y_def)
  have "x \<notin> fst (pairStep path lm pr st)" "y \<notin> fst (pairStep path lm pr st)"
    using assms(3,4) by (auto simp: x_def y_def)
  then have "\<not> snd (validateEdits (the (lm x) @ the (lm y))) > 0" by (auto simp: step split: if_splits)
  then have "okPair lm x y" using validateEdits_conflict [OF f] by (simp add: okPair_def)
  then show ?thesis using okPair_sym by (auto simp: x_def y_def split: if_splits)
qed

lemma fold_pairStep:
  assumes "\<And>pr. pr \<in> set prs \<Longrightarrow> list_all forward (the (lm (fst pr))) \<and> list_all forward (the (lm (snd pr)))"
  shows "fst st \<subseteq> fst (fold (pairStep path lm) prs st) \<and>
    (\<forall>pr \<in> set prs. fst pr \<notin> fst (fold (pairStep path lm) prs st) \<longrightarrow>
       snd pr \<notin> fst (fold (pairStep path lm) prs st) \<longrightarrow> okPair lm (fst pr) (snd pr))"
  using assms
proof (induction prs arbitrary: st)
  case (Cons pr prs)
  let ?st = "pairStep path lm pr st"
  have IH: "fst ?st \<subseteq> fst (fold (pairStep path lm) prs ?st)"
    "\<forall>pr \<in> set prs. fst pr \<notin> fst (fold (pairStep path lm) prs ?st) \<longrightarrow>
       snd pr \<notin> fst (fold (pairStep path lm) prs ?st) \<longrightarrow> okPair lm (fst pr) (snd pr)"
    using Cons.IH [of ?st] Cons.prems by auto
  then show ?case
    using pairStep_grows [of st path lm pr] pairStep_ok [of lm pr path st] Cons.prems [of pr] by auto
qed simp

lemma linterPairs_complete:
  assumes "a \<in> set ls" "b \<in> set ls" "a \<noteq> b"
  shows "(a, b) \<in> set (linterPairs ls) \<or> (b, a) \<in> set (linterPairs ls)"
proof -
  obtain j k where jk: "j < length ls" "k < length ls" "ls ! j = a" "ls ! k = b"
    using assms by (meson in_set_conv_nth)
  then have "j < k \<or> k < j" using assms(3) by (metis linorder_neqE_nat)
  moreover have "(ls ! m, ls ! n) \<in> set (linterPairs ls)" if "n < m" "m < length ls" for m n
    using that by (force simp: linterPairs_def)
  ultimately show ?thesis using jk by blast
qed

lemma linterPairs_members: "pr \<in> set (linterPairs ls) \<Longrightarrow> fst pr \<in> set ls \<and> snd pr \<in> set ls"
  by (auto simp: linterPairs_def)

text \<open>The edits kept for a file are pairwise compatible.\<close>

lemma kept_compat:
  assumes v: "visits_all keys" and fin: "finite (dom lm)"
    and fw: "\<And>l es. lm l = Some es \<Longrightarrow> list_all forward es"
    and ex: "excluded = fst (excludeConflicts path (keys 1 path (dom lm)) lm log)"
    and a: "a \<in> dom lm" "a \<notin> excluded" and b: "b \<in> dom lm" "b \<notin> excluded"
  shows "okPair (sortedEdits lm) a b"
proof -
  let ?ls = "keys 1 path (dom lm)" and ?lm = "sortedEdits lm"
  have ls: "set ?ls = dom lm" using v fin by (simp add: visits_all_def)
  have fw': "list_all forward (the (?lm l))" if "l \<in> dom lm" for l
    using that fw SortEdits_props(1) by (auto simp: list_all_iff dom_def sortedEdits_def)
  obtain lg where ex': "excluded = fst (fold (pairStep path ?lm) (linterPairs ?ls) (selfConflicts ?ls lm, lg))"
    using ex by (auto simp: excludeConflicts_def Let_def)
  have f: "list_all forward (the (?lm (fst pr))) \<and> list_all forward (the (?lm (snd pr)))" if "pr \<in> set (linterPairs ?ls)" for pr
    using linterPairs_members [OF that] ls fw' by auto
  note fold = fold_pairStep [OF f, of "linterPairs ?ls" "(selfConflicts ?ls lm, lg)" path]
  show ?thesis
  proof (cases "a = b")
    case True
    obtain es where es: "lm a = Some es" using a(1) by auto
    have "a \<notin> selfConflicts ?ls lm" using a(2) fold ex' by auto
    then have "\<not> snd (validateEdits es) > 0" using a(1) ls es by (simp add: selfConflicts_def)
    then show ?thesis
      using validateEdits_conflict [OF fw [OF es]] SortEdits_props(1) [of es] es True by (auto simp: okPair_def)
  next
    case False
    then show ?thesis
      using linterPairs_complete [of a ?ls b] a b ls fold ex' okPair_sym by auto
  qed
qed

lemma pathEdits_valid:
  assumes v: "visits_all keys" and fin: "finite (dom lm)" and fw: "\<And>l es. lm l = Some es \<Longrightarrow> list_all forward es"
    and es_def: "es = fst (pathEdits keys path lm log)"
  shows "sorted_wrt (\<lambda>a b. End a \<le> Start b) es" "list_all forward es"
    "set es = \<Union> {set es' | l es'. lm l = Some es' \<and> l \<notin> fst (excludeConflicts path (keys 1 path (dom lm)) lm log)}"
proof -
  define excluded where "excluded = fst (excludeConflicts path (keys 1 path (dom lm)) lm log)"
  let ?all = "concat (map (\<lambda>l. if l \<in> excluded then [] else the (sortedEdits lm l)) (keys 2 path (dom lm)))"
  have es: "es = fst (validateEdits ?all)"
    by (simp add: es_def pathEdits_def excluded_def case_prod_unfold Let_def)
  have ls: "set (keys 2 path (dom lm)) = dom lm" using v fin by (simp add: visits_all_def)
  have all: "set ?all = \<Union> {set es' | l es'. lm l = Some es' \<and> l \<notin> excluded}"
    using ls SortEdits_props(1) by (auto simp: dom_def sortedEdits_def split: if_splits) force+
  have fwall: "list_all forward ?all" using all fw by (auto simp: list_all_iff)
  have comp: "compat x y" if xy: "x \<in> set ?all" "y \<in> set ?all" for x y
  proof -
    obtain a es1 where a: "lm a = Some es1" "a \<notin> excluded" "x \<in> set es1" using xy(1) unfolding all by blast
    obtain b es2 where b: "lm b = Some es2" "b \<notin> excluded" "y \<in> set es2" using xy(2) unfolding all by blast
    have "okPair (sortedEdits lm) a b"
      by (rule kept_compat [OF v fin fw excluded_def]) (use a b in auto)
    then show ?thesis using a b SortEdits_props(1) by (auto simp: okPair_def)
  qed
  show "sorted_wrt (\<lambda>a b. End a \<le> Start b) es" unfolding es by (rule validateEdits_fst(1) [OF fwall comp])
  have set: "set es = set ?all" unfolding es by (rule validateEdits_fst(2) [OF fwall comp])
  then show "list_all forward es" using fwall by (simp add: list_all_iff)
  show "set es = \<Union> {set es' | l es'. lm l = Some es' \<and> l \<notin> fst (excludeConflicts path (keys 1 path (dom lm)) lm log)}"
    using set all unfolding excluded_def by simp
qed

lemma sorted_forward_chain:
  "sorted_wrt (\<lambda>a b. End a \<le> Start b) es \<Longrightarrow> (\<And>e. e \<in> set es \<Longrightarrow> inBounds src e \<and> pos \<le> Start e) \<Longrightarrow> chain src pos es"
  by (induction es arbitrary: pos) auto

section \<open>Collecting the edits\<close>

text \<open>The edits that an issue contributes, and the issues that have any.\<close>

definition issueEdits :: "Issue \<Rightarrow> TextEdit list" where
  "issueEdits i = concat (map TextEdits (SuggestedFixes i))"

definition fixable :: "Issue \<Rightarrow> bool" where
  "fixable i \<longleftrightarrow> FromLinter i \<notin> set formatterNames \<and> \<not> skipNoTextEdit i"

definition backward :: "Issue \<Rightarrow> bool" where
  "backward i \<longleftrightarrow> (\<exists>te \<in> set (issueEdits i). EditPos te > EditEnd te)"

definition allForward :: "(string \<rightharpoonup> linterEdits) \<Rightarrow> bool" where
  "allForward m \<longleftrightarrow> finite (dom m) \<and>
     (\<forall>path lm. m path = Some lm \<longrightarrow> finite (dom lm) \<and> (\<forall>l es. lm l = Some es \<longrightarrow> list_all forward es))"

lemma skipNoTextEdit_Nil: "SuggestedFixes i = [] \<Longrightarrow> skipNoTextEdit i"
  by (simp add: skipNoTextEdit_def)

lemma addEdit_allForward: "allForward m \<Longrightarrow> forward e \<Longrightarrow> allForward (addEdit path l e m)"
  by (auto simp: allForward_def addEdit_def Let_def split: option.splits if_splits)

lemma addTextEdits_spec:
  "allForward m \<Longrightarrow>
   (if \<exists>te \<in> set tes. EditPos te > EditEnd te then isl (addTextEdits i tes m)
    else \<exists>m'. addTextEdits i tes m = Inr m' \<and> allForward m')"
proof (induction tes arbitrary: m)
  case (Cons te tes)
  show ?case
  proof (cases "EditPos te > EditEnd te")
    case False
    then have "allForward (addEdit (FilePath i) (FromLinter i) \<lparr>Start = EditPos te, End = EditEnd te, New = NewText te\<rparr> m)"
      using Cons.prems by (intro addEdit_allForward) (simp_all add: forward_def)
    from Cons.IH [OF this] False show ?thesis by (auto split: if_splits)
  qed simp
qed simp

lemma collectLoop_spec:
  "allForward (editsByLinter st) \<Longrightarrow>
   ((\<exists>i \<in> set issues. fixable i \<and> backward i) \<longrightarrow> isl (collectLoop issues st)) \<and>
   (\<not> (\<exists>i \<in> set issues. fixable i \<and> backward i) \<longrightarrow>
      (\<exists>col. collectLoop issues st = Inr col \<and> allForward (editsByLinter col) \<and>
      notFixableIssues col = notFixableIssues st @
        filter (\<lambda>i. FromLinter i \<notin> set formatterNames \<and> skipNoTextEdit i) issues))"
proof (induction issues arbitrary: st)
  case (Cons i issues)
  consider "FromLinter i \<in> set formatterNames" | "FromLinter i \<notin> set formatterNames" "skipNoTextEdit i" | "fixable i"
    by (auto simp: fixable_def)
  then show ?case
  proof cases
    case 1
    then have "\<not> fixable i" by (simp add: fixable_def)
    with 1 Cons.IH [of "st\<lparr>toBeFormattedFiles := insert (FilePath i) (toBeFormattedFiles st)\<rparr>"] Cons.prems
    show ?thesis by simp
  next
    case 2
    then have "\<not> fixable i" by (simp add: fixable_def)
    with 2 Cons.IH [of "st\<lparr>notFixableIssues := notFixableIssues st @ [i]\<rparr>"] Cons.prems
    show ?thesis by simp
  next
    case 3
    then have b: "FromLinter i \<notin> set formatterNames" "\<not> skipNoTextEdit i" "SuggestedFixes i \<noteq> []"
      using skipNoTextEdit_Nil by (auto simp: fixable_def)
    show ?thesis
    proof (cases "backward i")
      case True
      then have "isl (addTextEdits i (issueEdits i) (editsByLinter st))"
        using addTextEdits_spec [OF Cons.prems, of "issueEdits i" i] by (simp add: backward_def)
      then show ?thesis using 3 b True by (cases "addTextEdits i (issueEdits i) (editsByLinter st)") (auto simp: issueEdits_def)
    next
      case False
      then obtain m where m: "addTextEdits i (issueEdits i) (editsByLinter st) = Inr m" "allForward m"
        using addTextEdits_spec [OF Cons.prems, of "issueEdits i" i] by (auto simp: backward_def split: if_splits)
      have "collectLoop (i # issues) st = collectLoop issues (st\<lparr>editsByLinter := m\<rparr>)"
        using b m(1) by (simp add: issueEdits_def)
      then show ?thesis using Cons.IH [of "st\<lparr>editsByLinter := m\<rparr>"] m(2) b False by simp
    qed
  qed
qed simp

lemma empty_allForward: "allForward (editsByLinter emptyCollected)" "notFixableIssues emptyCollected = []"
  by (simp_all add: emptyCollected_def allForward_def)

lemma keys_sorted: "visits_all (\<lambda>_ _ A. sorted_list_of_set A)"
  by (simp add: visits_all_def)

interpretation fixer: shrinking_processor "Fixer_Process env needFix"
proof unfold_locales
  fix st issues os st'
  assume r: "Fixer_Process env needFix st issues = (Inr os, st')"
  have "length (fst (Fixer_process env s issues)) \<le> length issues" for s
  proof (cases "\<exists>i \<in> set issues. fixable i \<and> backward i")
    case True
    then show ?thesis
      using collectLoop_spec [OF empty_allForward(1), of issues]
      by (cases "collectLoop issues emptyCollected") (auto simp: Fixer_process_def)
  next
    case False
    then obtain col where "collectLoop issues emptyCollected = Inr col"
      "notFixableIssues col = filter (\<lambda>i. FromLinter i \<notin> set formatterNames \<and> skipNoTextEdit i) issues"
      using collectLoop_spec [OF empty_allForward(1), of issues] by (auto simp: empty_allForward(2) split: if_splits)
    then show ?thesis by (simp add: Fixer_process_def Let_def case_prod_unfold)
  qed
  then show "length os \<le> length issues"
    using r by (auto simp: Fixer_Process_def Let_def case_prod_unfold split: if_splits)
qed

section \<open>Properties\<close>

text \<open>C3: The edits that the fixer keeps for a file never conflict: they are sorted and each ends before the next
  starts, they are exactly the edits of the linters that were not excluded, and applying them to a content
  succeeds when they lie within it, whatever the order in which Go visits its maps.\<close>

theorem fixer_edits_never_conflict:
  assumes "collectLoop issues emptyCollected = Inr col" "editsByLinter col path = Some lm" "visits_all keys"
    and "es = fst (pathEdits keys path lm log)"
  shows "sorted_wrt (\<lambda>a b. End a \<le> Start b) es \<and>
    set es = \<Union> {set es' | l es'. lm l = Some es' \<and> l \<notin> fst (excludeConflicts path (keys 1 path (dom lm)) lm log)} \<and>
    ((\<forall>e \<in> set es. 0 \<le> Start e \<and> End e \<le> int (length src)) \<longrightarrow> (\<exists>out. Apply src es = Inr out))"
proof -
  have "\<not> (\<exists>i \<in> set issues. fixable i \<and> backward i)"
    using collectLoop_spec [OF empty_allForward(1), of issues] assms(1) by (auto split: if_splits)
  then have "allForward (editsByLinter col)"
    using collectLoop_spec [OF empty_allForward(1), of issues] assms(1) by auto
  then have fin: "finite (dom lm)" and fw: "\<And>l es. lm l = Some es \<Longrightarrow> list_all forward es"
    using assms(2) by (auto simp: allForward_def)
  have v: "sorted_wrt (\<lambda>a b. End a \<le> Start b) es" "list_all forward es"
    "set es = \<Union> {set es' | l es'. lm l = Some es' \<and> l \<notin> fst (excludeConflicts path (keys 1 path (dom lm)) lm log)}"
    by (rule pathEdits_valid [OF assms(3) fin _ assms(4)], erule fw)+
  have "\<exists>out. Apply src es = Inr out" if "\<forall>e \<in> set es. 0 \<le> Start e \<and> End e \<le> int (length src)"
  proof -
    have "chain src 0 es"
      by (rule sorted_forward_chain [OF v(1)]) (use that v(2) in \<open>auto simp: inBounds_def list_all_iff forward_def\<close>)
    then show ?thesis using Apply_res [of src es] SortEdits_chain [of src 0 es] by simp
  qed
  then show ?thesis using v(1,3) by blast
qed

text \<open>An issue whose only fix replaces a range of its file.\<close>

definition fixIssue :: "string \<Rightarrow> int \<Rightarrow> int \<Rightarrow> string \<Rightarrow> Issue" where
  "fixIssue linter a b new = mkIssue linter ''t'' ''f.go'' 1\<lparr>SuggestedFixes :=
     [\<lparr>Message = [], TextEdits = [\<lparr>EditPos = a, EditEnd = b, NewText = new\<rparr>]\<rparr>]\<rparr>"

lemma fixIssue_simps [simp]:
  "FromLinter (fixIssue l a b t) = l" "FilePath (fixIssue l a b t) = ''f.go''"
  "SuggestedFixes (fixIssue l a b t) = [\<lparr>Message = [], TextEdits = [\<lparr>EditPos = a, EditEnd = b, NewText = t\<rparr>]\<rparr>]"
  "\<not> skipNoTextEdit (fixIssue l a b t)"
  by (simp_all add: fixIssue_def mkIssue_def FilePath_def skipNoTextEdit_def)

lemma not_formatters [simp]: "''a'' \<notin> set formatterNames" "''b'' \<notin> set formatterNames"
  by (simp_all add: formatterNames_def gofumptName_def goimportsName_def gofmtName_def gciName_def golinesName_def swaggoName_def)

theorem fixer_edits_never_conflict_witness:
  "\<exists>col lm. collectLoop [fixIssue ''a'' 0 2 ''x'', fixIssue ''b'' 2 3 ''y''] emptyCollected = Inr col \<and>
     editsByLinter col ''f.go'' = Some lm \<and>
     sorted_wrt (\<lambda>a b. End a \<le> Start b) (fst (pathEdits (\<lambda>_ _ A. sorted_list_of_set A) ''f.go'' lm []))"
proof -
  obtain col lm where c: "collectLoop [fixIssue ''a'' 0 2 ''x'', fixIssue ''b'' 2 3 ''y''] emptyCollected = Inr col"
    "editsByLinter col ''f.go'' = Some lm"
    by (simp add: addEdit_def emptyCollected_def Let_def)
  show ?thesis
    using c fixer_edits_never_conflict [OF c keys_sorted refl] by blast
qed

text \<open>C39: With fixing enabled the fixer returns, in their order, the issues without text edits of linters that are not
  formatters, and drops all others whether or not their edits could be applied. A single edit whose start is after
  its end discards every issue instead, the ones without fixes included, and then no file is written.\<close>

theorem fixer_reported_issues:
  "\<exists>st'. Fixer_Process env True st issues =
     (if \<exists>i \<in> set issues. fixable i \<and> backward i
      then (Inr [], st'\<lparr>fixFiles := fixFiles st, fixCaches := fixCaches st\<rparr>)
      else (Inr (filter (\<lambda>i. FromLinter i \<notin> set formatterNames \<and> skipNoTextEdit i) issues), st'))"
proof (cases "\<exists>i \<in> set issues. fixable i \<and> backward i")
  case True
  then obtain err where e: "collectLoop issues emptyCollected = Inl err"
    using collectLoop_spec [OF empty_allForward(1), of issues] by (cases "collectLoop issues emptyCollected") auto
  let ?st = "snd (Fixer_Process env True st issues)"
  have "Fixer_Process env True st issues = (Inr [], ?st\<lparr>fixFiles := fixFiles st, fixCaches := fixCaches st\<rparr>)"
    by (simp add: Fixer_Process_def Fixer_process_def e Let_def)
  then show ?thesis using True by auto
next
  case False
  then obtain col where "collectLoop issues emptyCollected = Inr col"
    "notFixableIssues col = filter (\<lambda>i. FromLinter i \<notin> set formatterNames \<and> skipNoTextEdit i) issues"
    using collectLoop_spec [OF empty_allForward(1), of issues] by (auto simp: empty_allForward(2) split: if_splits)
  then show ?thesis using False by (auto simp: Fixer_Process_def Fixer_process_def Let_def case_prod_unfold)
qed

end
