(* ===== verification/Linters_DB.thy ===== *)
theory Linters_DB
  imports Fixer
begin

text \<open>
  The database of linters: the description of a linter with its builder methods
  (\<open>pkg/lint/linter/config.go\<close>, \<open>linter.go\<close>), the selection of the enabled linters, their optimisation
  into a metalinter (\<open>pkg/lint/lintersdb/manager.go\<close>) and the validation of names (\<open>validator.go\<close>).

  A load mode, a bit mask of \<open>golang.org/x/tools/go/packages\<close>, is the set of its flags. What a builder
  returns is a parameter. The order in which a map is visited is a parameter as in \<open>Fixer\<close>.
\<close>

section \<open>Linters and their configuration\<close>

datatype LoadFlag = NeedName | NeedFiles | NeedCompiledGoFiles | NeedModule | NeedImports | NeedDeps
  | NeedExportFile | NeedTypesSizes

datatype DeprecationLevel = DeprecationNone | DeprecationWarning | DeprecationError

fun levelRank :: "DeprecationLevel \<Rightarrow> nat" where
  "levelRank DeprecationNone = 0"
| "levelRank DeprecationWarning = 1"
| "levelRank DeprecationError = 2"

record Deprecation =
  depSince :: string
  depMessage :: string
  depReplacement :: string
  depLevel :: DeprecationLevel

text \<open>What the manager needs of a linter: a go/analysis linter with whether it needs the whole program,
  the metalinter with the names of its members, a linter that only reports why it is inactive.\<close>

datatype LinterImpl =
    GoAnalysisLinter string bool
  | MetaLinter "string list"
  | Noop string string DeprecationLevel
  | OtherLinter string

fun implName :: "LinterImpl \<Rightarrow> string" where
  "implName (GoAnalysisLinter n whole) = n"
| "implName (MetaLinter members) = ''goanalysis_metalinter''"
| "implName (Noop n reason level) = n"
| "implName (OtherLinter n) = n"

record LinterConfig =
  lcLinter :: LinterImpl
  lcGroups :: "string set"
  lcLoadMode :: "LoadFlag set"
  AlternativeNames :: "string list"
  OriginalURL :: string
  Internal :: bool
  CanAutoFix :: bool
  IsSlow :: bool
  DoesChangeTypes :: bool
  lcSince :: string
  lcDeprecation :: "Deprecation option"

definition WithLoadFiles :: "LinterConfig \<Rightarrow> LinterConfig" where
  "WithLoadFiles lc = lc\<lparr>lcLoadMode := lcLoadMode lc \<union> {NeedName, NeedFiles, NeedCompiledGoFiles, NeedModule}\<rparr>"

definition NewConfig :: "LinterImpl \<Rightarrow> LinterConfig" where
  "NewConfig linter =
     WithLoadFiles \<lparr>lcLinter = linter, lcGroups = {}, lcLoadMode = {}, AlternativeNames = [], OriginalURL = [],
       Internal = False, CanAutoFix = False, IsSlow = False, DoesChangeTypes = False, lcSince = [],
       lcDeprecation = None\<rparr>"

definition WithInternal :: "LinterConfig \<Rightarrow> LinterConfig" where
  "WithInternal lc = lc\<lparr>Internal := True\<rparr>"

definition ConsiderSlow :: "LinterConfig \<Rightarrow> LinterConfig" where
  "ConsiderSlow lc = lc\<lparr>IsSlow := True\<rparr>"

definition IsSlowLinter :: "LinterConfig \<Rightarrow> bool" where
  "IsSlowLinter lc = IsSlow lc"

definition WithLoadForGoAnalysis :: "LinterConfig \<Rightarrow> LinterConfig" where
  "WithLoadForGoAnalysis lc =
     (let lc = WithLoadFiles lc
      in lc\<lparr>lcLoadMode := lcLoadMode lc \<union> {NeedImports, NeedDeps, NeedExportFile, NeedTypesSizes}, IsSlow := True\<rparr>)"

definition WithGroups :: "string list \<Rightarrow> LinterConfig \<Rightarrow> LinterConfig" where
  "WithGroups names lc = lc\<lparr>lcGroups := lcGroups lc \<union> set names\<rparr>"

definition FromGroup :: "LinterConfig \<Rightarrow> string \<Rightarrow> bool" where
  "FromGroup lc name \<longleftrightarrow> name \<in> lcGroups lc"

definition WithURL :: "string \<Rightarrow> LinterConfig \<Rightarrow> LinterConfig" where
  "WithURL url lc = lc\<lparr>OriginalURL := url\<rparr>"

definition WithAlternativeNames :: "string list \<Rightarrow> LinterConfig \<Rightarrow> LinterConfig" where
  "WithAlternativeNames names lc = lc\<lparr>AlternativeNames := names\<rparr>"

definition WithAutoFix :: "LinterConfig \<Rightarrow> LinterConfig" where
  "WithAutoFix lc = lc\<lparr>CanAutoFix := True\<rparr>"

definition WithChangeTypes :: "LinterConfig \<Rightarrow> LinterConfig" where
  "WithChangeTypes lc = lc\<lparr>DoesChangeTypes := True\<rparr>"

definition WithSince :: "string \<Rightarrow> LinterConfig \<Rightarrow> LinterConfig" where
  "WithSince version lc = lc\<lparr>lcSince := version\<rparr>"

definition Deprecated ::
  "string \<Rightarrow> string \<Rightarrow> DeprecationLevel \<Rightarrow> (Deprecation \<Rightarrow> Deprecation) list \<Rightarrow> LinterConfig \<Rightarrow> LinterConfig" where
  "Deprecated message version level opts lc =
     lc\<lparr>lcDeprecation := Some (fold (\<lambda>opt d. opt d) opts
          \<lparr>depSince = version, depMessage = message, depReplacement = [], depLevel = level\<rparr>)\<rparr>"

definition DeprecatedWarning :: "string \<Rightarrow> string \<Rightarrow> (Deprecation \<Rightarrow> Deprecation) list \<Rightarrow> LinterConfig \<Rightarrow> LinterConfig" where
  "DeprecatedWarning message version opts lc = Deprecated message version DeprecationWarning opts lc"

definition DeprecatedError :: "string \<Rightarrow> string \<Rightarrow> (Deprecation \<Rightarrow> Deprecation) list \<Rightarrow> LinterConfig \<Rightarrow> LinterConfig" where
  "DeprecatedError message version opts lc = Deprecated message version DeprecationError opts lc"

definition IsDeprecated :: "LinterConfig \<Rightarrow> bool" where
  "IsDeprecated lc \<longleftrightarrow> lcDeprecation lc \<noteq> None"

definition lcName :: "LinterConfig \<Rightarrow> string" where
  "lcName lc = implName (lcLinter lc)"

definition AllNames :: "LinterConfig \<Rightarrow> string list" where
  "AllNames lc = [lcName lc] @ AlternativeNames lc"

text \<open>The error of the condition is the reason.\<close>

definition WithNoopFallback :: "string option \<Rightarrow> LinterConfig \<Rightarrow> LinterConfig" where
  "WithNoopFallback cond lc =
     (case cond of
        None \<Rightarrow> lc
      | Some err \<Rightarrow> WithLoadFiles (lc\<lparr>lcLinter := Noop (implName (lcLinter lc)) err DeprecationNone, lcLoadMode := {}\<rparr>))"

definition NewNoopDeprecated :: "string \<Rightarrow> bool \<Rightarrow> DeprecationLevel \<Rightarrow> LinterImpl" where
  "NewNoopDeprecated name internalCmdTest level =
     Noop name (if internalCmdTest then [] else ''This linter is fully inactivated: it will not produce any reports.'') level"

fun Noop_Run :: "LinterImpl \<Rightarrow> Issue list \<times> log_call list" where
  "Noop_Run (Noop name reason level) =
     (if reason = [] then ([], [])
      else ([], [case level of DeprecationError \<Rightarrow> Errorf ''%s: %s'' [LStr name, LStr reason]
                             | _ \<Rightarrow> Warnf ''%s: %s'' [LStr name, LStr reason]]))"
| "Noop_Run _ = ([], [])"

section \<open>The manager\<close>

record LintersCfg =
  Default :: string
  Enable :: "string list"
  Disable :: "string list"
  FastOnly :: bool
  FormattersEnable :: "string list"
  InternalCmdTest :: bool
  InternalTest :: bool

record Manager =
  mLinters :: "LinterConfig list"
  nameToLCs :: "string \<rightharpoonup> LinterConfig list"

definition GroupStandard :: string where "GroupStandard = ''standard''"
definition GroupAll :: string where "GroupAll = ''all''"
definition GroupNone :: string where "GroupNone = ''none''"
definition GroupFast :: string where "GroupFast = ''fast''"
definition LastLinter :: string where "LastLinter = ''nolintlint''"

definition addName :: "LinterConfig \<Rightarrow> string \<Rightarrow> (string \<rightharpoonup> LinterConfig list) \<Rightarrow> (string \<rightharpoonup> LinterConfig list)" where
  "addName lc name m = m(name \<mapsto> (case m name of None \<Rightarrow> [] | Some lcs \<Rightarrow> lcs) @ [lc])"

definition nameTable :: "LinterConfig list \<Rightarrow> (string \<rightharpoonup> LinterConfig list)" where
  "nameTable lcs = fold (\<lambda>lc m. fold (addName lc) (AllNames lc) m) lcs Map.empty"

definition GetLinterConfigs :: "Manager \<Rightarrow> string \<Rightarrow> LinterConfig list" where
  "GetLinterConfigs m name = (case nameToLCs m name of None \<Rightarrow> [] | Some lcs \<Rightarrow> lcs)"

section \<open>Validation\<close>

definition inactive :: "LinterConfig \<Rightarrow> bool" where
  "inactive lc \<longleftrightarrow> (case lcDeprecation lc of None \<Rightarrow> False | Some d \<Rightarrow> levelRank (depLevel d) > levelRank DeprecationWarning)"

definition unknownNames :: "Manager \<Rightarrow> LintersCfg \<Rightarrow> string list" where
  "unknownNames m cfg =
     filter (\<lambda>n. GetLinterConfigs m n = []) (Enable cfg) @ filter (\<lambda>n. GetLinterConfigs m n = []) (Disable cfg)"

definition validateLintersNames :: "Manager \<Rightarrow> LintersCfg \<Rightarrow> string option \<times> log_call list" where
  "validateLintersNames m cfg =
     (let log = concat (map (\<lambda>n. map (\<lambda>lc. Warnf (''The linter %q is deprecated (step 2) and deactivated. '' @
                    ''It should be removed from the list of disabled linters. '' @
                    ''https://golangci-lint.run/docs/product/roadmap/#linter-deprecation-cycle'') [LStr (lcName lc)])
                                 (filter inactive (GetLinterConfigs m n))) (Disable cfg))
      in (if length (unknownNames m cfg) > 0
          then Some (''unknown linters: '' @ [CHR 0x27] @ Join (unknownNames m cfg) '','' @ [CHR 0x27] @
                '', run '' @ [CHR 0x27] @ ''golangci-lint help linters'' @ [CHR 0x27] @ '' to see the list of supported linters'')
          else None, log))"

definition altTable :: "Manager \<Rightarrow> (string \<rightharpoonup> string list)" where
  "altTable m = fold (\<lambda>lc t. fold (\<lambda>alt t. t(alt \<mapsto> (case t alt of None \<Rightarrow> [] | Some ns \<Rightarrow> ns) @ [lcName lc]))
                              (AlternativeNames lc) t) (mLinters m) Map.empty"

definition alternativeNamesDeprecation :: "bool \<Rightarrow> Manager \<Rightarrow> LintersCfg \<Rightarrow> log_call list" where
  "alternativeNamesDeprecation envTestRun m cfg =
     (if InternalTest cfg \<or> InternalCmdTest cfg \<or> envTestRun then []
      else concat (map (\<lambda>n. case altTable m n of
                          None \<Rightarrow> []
                        | Some lcs \<Rightarrow>
                            if length lcs > 1 then
                              [Warnf ''The linter named %q is deprecated. It has been split into: %s.'' [LStr n, LStr (Join lcs '', '')]]
                            else [Warnf ''The name %q is deprecated. The linter has been renamed to: %s.'' [LStr n, LStr (hd lcs)]])
                   (Enable cfg @ Disable cfg)))"

definition Validator_Validate :: "bool \<Rightarrow> Manager \<Rightarrow> LintersCfg \<Rightarrow> string option \<times> log_call list" where
  "Validator_Validate envTestRun m cfg =
     (case validateLintersNames m cfg of
        (Some err, log) \<Rightarrow> (Some err, log)
      | (None, log) \<Rightarrow> (None, log @ alternativeNamesDeprecation envTestRun m cfg))"

fun runBuilders :: "(string + LinterConfig list) list \<Rightarrow> LinterConfig list \<Rightarrow> string + LinterConfig list" where
  "runBuilders [] acc = Inr acc"
| "runBuilders (Inl err # bs) acc = Inl (''build linters: '' @ err)"
| "runBuilders (Inr lcs # bs) acc = runBuilders bs (acc @ lcs)"

definition NewManager :: "bool \<Rightarrow> (string + LinterConfig list) list \<Rightarrow> LintersCfg \<Rightarrow> (string + Manager) \<times> log_call list" where
  "NewManager envTestRun builders cfg =
     (case runBuilders builders [] of
        Inl err \<Rightarrow> (Inl err, [])
      | Inr lcs \<Rightarrow>
          (let m = \<lparr>mLinters = lcs, nameToLCs = nameTable lcs\<rparr>;
               (err, log) = Validator_Validate envTestRun m cfg
           in (case err of Some e \<Rightarrow> Inl e | None \<Rightarrow> Inr m, log)))"

section \<open>The enabled linters\<close>

type_synonym linterSet = "string \<rightharpoonup> LinterConfig"

fun linterConfigsToMap :: "LinterConfig list \<Rightarrow> linterSet \<Rightarrow> linterSet" where
  "linterConfigsToMap [] ret = ret"
| "linterConfigsToMap (lc # lcs) ret =
     (if inactive lc then linterConfigsToMap lcs ret
      else if IsFormatter (lcName lc) then linterConfigsToMap lcs ret
      else linterConfigsToMap lcs (ret(lcName lc \<mapsto> lc)))"

definition groupLinters :: "Manager \<Rightarrow> string \<Rightarrow> linterSet option" where
  "groupLinters m groupName =
     (if groupName = GroupNone then Some Map.empty
      else if groupName = GroupAll then Some (linterConfigsToMap (mLinters m) Map.empty)
      else if groupName = GroupFast then Some (linterConfigsToMap (filter (\<lambda>lc. \<not> IsSlowLinter lc) (mLinters m)) Map.empty)
      else if groupName = GroupStandard then
        Some (linterConfigsToMap (filter (\<lambda>lc. FromGroup lc GroupStandard) (mLinters m)) Map.empty)
      else None)"

definition addLinters :: "LinterConfig list \<Rightarrow> linterSet \<Rightarrow> linterSet" where
  "addLinters lcs s = fold (\<lambda>lc s. s(lcName lc \<mapsto> lc)) lcs s"

definition removeLinters :: "LinterConfig list \<Rightarrow> linterSet \<Rightarrow> linterSet" where
  "removeLinters lcs s = fold (\<lambda>lc s. s(lcName lc := None)) lcs s"

text \<open>Deleting from a map while visiting it removes every slow linter whatever the order.\<close>

definition dropSlow :: "linterSet \<Rightarrow> linterSet" where
  "dropSlow s = (\<lambda>n. case s n of None \<Rightarrow> None | Some lc \<Rightarrow> if IsSlowLinter lc then None else Some lc)"

definition Manager_build :: "Manager \<Rightarrow> LintersCfg \<Rightarrow> string + linterSet" where
  "Manager_build m cfg =
     (let groupName = (if Default cfg = [] then GroupStandard else Default cfg) in
      case groupLinters m groupName of
        None \<Rightarrow> Inl (''unknown group: '' @ groupName)
      | Some s \<Rightarrow>
          (let s = addLinters (concat (map (GetLinterConfigs m) (Enable cfg @ FormattersEnable cfg))) s;
               s = removeLinters (concat (map (GetLinterConfigs m) (Disable cfg))) s;
               s = (if FastOnly cfg then dropSlow s else s)
           in Inr (if s ''typecheck'' = None \<and> \<not> InternalCmdTest cfg
                   then addLinters (GetLinterConfigs m ''typecheck'') s else s)))"

section \<open>The optimised linters\<close>

definition combinable :: "LinterConfig \<Rightarrow> bool" where
  "combinable lc = (case lcLinter lc of GoAnalysisLinter n whole \<Rightarrow> \<not> whole | _ \<Rightarrow> False)"

definition memberLess :: "string \<Rightarrow> string \<Rightarrow> bool" where
  "memberLess a b = (if b = LastLinter then True else if a = LastLinter then False else cmp_string a b \<le> 0)"

definition emptyConfig :: LinterConfig where
  "emptyConfig = \<lparr>lcLinter = OtherLinter [], lcGroups = {}, lcLoadMode = {}, AlternativeNames = [], OriginalURL = [],
       Internal = False, CanAutoFix = False, IsSlow = False, DoesChangeTypes = False, lcSince = [], lcDeprecation = None\<rparr>"

definition combineStep :: "LinterConfig \<Rightarrow> LinterConfig \<times> string list \<Rightarrow> LinterConfig \<times> string list" where
  "combineStep lc st =
     (if combinable lc then
        (let ml = (fst st)\<lparr>lcLoadMode := lcLoadMode (fst st) \<union> lcLoadMode lc\<rparr>
         in (if IsSlowLinter lc then ConsiderSlow ml else ml, snd st @ [lcName lc]))
      else st)"

text \<open>Two linters of the list have different names (they are values of a map keyed by name); between those
  the comparison is a strict order, so the result of the sort is determined.\<close>

definition combineGoAnalysisLinters :: "visits \<Rightarrow> linterSet \<Rightarrow> linterSet" where
  "combineGoAnalysisLinters keys s =
     (let (mlConfig, names) = fold combineStep (map (\<lambda>n. the (s n)) (keys 0 [] (dom s))) (emptyConfig, []) in
      if length names \<le> 1 then s
      else
        (let s = fold (\<lambda>n s. s(n := None)) names s;
             ml = MetaLinter (stable_sort memberLess names)
         in s(implName ml \<mapsto> mlConfig\<lparr>lcLinter := ml\<rparr>)))"

definition linterCompare :: "LinterConfig \<Rightarrow> LinterConfig \<Rightarrow> int" where
  "linterCompare a b =
     (if lcName b = LastLinter then -1
      else if lcName a = LastLinter then 1
      else if DoesChangeTypes a \<noteq> DoesChangeTypes b then (if DoesChangeTypes b then -1 else 1)
      else cmp_string (lcName a) (lcName b))"

definition GetOptimizedLinters :: "visits \<Rightarrow> Manager \<Rightarrow> LintersCfg \<Rightarrow> string + LinterConfig list" where
  "GetOptimizedLinters keys m cfg =
     (case Manager_build m cfg of
        Inl err \<Rightarrow> Inl err
      | Inr s \<Rightarrow>
          (let s = combineGoAnalysisLinters keys s
           in Inr (stable_sort (\<lambda>a b. linterCompare a b < 0)
                     (map (\<lambda>n. the (s n)) (keys 1 [] (dom s))))))"

section \<open>Lookup by name\<close>

definition entries :: "(string \<rightharpoonup> LinterConfig list) \<Rightarrow> string \<Rightarrow> LinterConfig list" where
  "entries m n = (case m n of None \<Rightarrow> [] | Some l \<Rightarrow> l)"

lemma fold_addName:
  "set (entries (fold (addName lc) ns m) n) = set (entries m n) \<union> (if n \<in> set ns then {lc} else {})"
proof (induction ns arbitrary: m)
  case (Cons a ns)
  have "set (entries (addName lc a m) n) = set (entries m n) \<union> (if n = a then {lc} else {})"
    by (cases "m a") (auto simp: entries_def addName_def)
  with Cons.IH [of "addName lc a m"] show ?case by auto
qed simp

lemma nameTable_set: "set (entries (nameTable lcs) n) = {lc \<in> set lcs. n \<in> set (AllNames lc)}"
proof -
  have "set (entries (fold (\<lambda>lc m. fold (addName lc) (AllNames lc) m) lcs m) n) =
     set (entries m n) \<union> {lc \<in> set lcs. n \<in> set (AllNames lc)}" for m
  proof (induction lcs arbitrary: m)
    case (Cons lc lcs)
    from Cons.IH [of "fold (addName lc) (AllNames lc) m"] show ?case by (auto simp: fold_addName)
  qed simp
  from this [of Map.empty] show ?thesis by (simp add: nameTable_def entries_def [of Map.empty])
qed

text \<open>A manager as \<open>NewManager\<close> builds it, with linters of different names.\<close>

definition manager_ok :: "Manager \<Rightarrow> bool" where
  "manager_ok m \<longleftrightarrow> nameToLCs m = nameTable (mLinters m) \<and> inj_on lcName (set (mLinters m))"

lemma GetLinterConfigs_set:
  "manager_ok m \<Longrightarrow> set (GetLinterConfigs m n) = {lc \<in> set (mLinters m). n \<in> set (AllNames lc)}"
  using nameTable_set [of "mLinters m" n] by (simp add: GetLinterConfigs_def manager_ok_def entries_def)

section \<open>Sets of linters\<close>

text \<open>The map holds the linters of \<open>L\<close> that satisfy \<open>P\<close>, under their names.\<close>

definition holds :: "LinterConfig set \<Rightarrow> linterSet \<Rightarrow> (LinterConfig \<Rightarrow> bool) \<Rightarrow> bool" where
  "holds L s P \<longleftrightarrow> (\<forall>n lc. s n = Some lc \<longleftrightarrow> lc \<in> L \<and> lcName lc = n \<and> P lc)"

lemma holds_empty: "holds L Map.empty (\<lambda>_. False)"
  by (simp add: holds_def)

lemma holds_upd:
  "holds L s P \<Longrightarrow> lc \<in> L \<Longrightarrow> inj_on lcName L \<Longrightarrow> holds L (s(lcName lc \<mapsto> lc)) (\<lambda>x. P x \<or> x = lc)"
  unfolding holds_def by (auto dest: inj_onD)

lemma holds_cong: "holds L s P \<Longrightarrow> (\<And>x. x \<in> L \<Longrightarrow> P x = Q x) \<Longrightarrow> holds L s Q"
  by (auto simp: holds_def)

lemma linterConfigsToMap_holds:
  "holds L s P \<Longrightarrow> set lcs \<subseteq> L \<Longrightarrow> inj_on lcName L \<Longrightarrow>
   holds L (linterConfigsToMap lcs s) (\<lambda>x. P x \<or> x \<in> set lcs \<and> \<not> inactive x \<and> \<not> IsFormatter (lcName x))"
proof (induction lcs arbitrary: s P)
  case (Cons lc lcs)
  show ?case
  proof (cases "inactive lc \<or> IsFormatter (lcName lc)")
    case True
    then have eq: "linterConfigsToMap (lc # lcs) s = linterConfigsToMap lcs s" by auto
    have "holds L (linterConfigsToMap lcs s) (\<lambda>x. P x \<or> x \<in> set lcs \<and> \<not> inactive x \<and> \<not> IsFormatter (lcName x))"
      by (rule Cons.IH) (use Cons.prems in simp_all)
    then show ?thesis unfolding eq by (rule holds_cong) (use True in auto)
  next
    case False
    have "holds L (s(lcName lc \<mapsto> lc)) (\<lambda>x. P x \<or> x = lc)"
      using holds_upd Cons.prems by simp
    then have "holds L (linterConfigsToMap lcs (s(lcName lc \<mapsto> lc)))
        (\<lambda>x. (P x \<or> x = lc) \<or> x \<in> set lcs \<and> \<not> inactive x \<and> \<not> IsFormatter (lcName x))"
      by (rule Cons.IH) (use Cons.prems in simp_all)
    moreover have eq: "linterConfigsToMap (lc # lcs) s = linterConfigsToMap lcs (s(lcName lc \<mapsto> lc))" using False by simp
    ultimately show ?thesis unfolding eq by (elim holds_cong) (use False in auto)
  qed
qed (auto elim: holds_cong)

lemma addLinters_holds:
  "holds L s P \<Longrightarrow> set lcs \<subseteq> L \<Longrightarrow> inj_on lcName L \<Longrightarrow> holds L (addLinters lcs s) (\<lambda>x. P x \<or> x \<in> set lcs)"
proof (induction lcs arbitrary: s P)
  case (Cons lc lcs)
  have "holds L (s(lcName lc \<mapsto> lc)) (\<lambda>x. P x \<or> x = lc)" using holds_upd Cons.prems by simp
  then have "holds L (addLinters lcs (s(lcName lc \<mapsto> lc))) (\<lambda>x. (P x \<or> x = lc) \<or> x \<in> set lcs)"
    by (rule Cons.IH) (use Cons.prems in simp_all)
  moreover have "addLinters (lc # lcs) s = addLinters lcs (s(lcName lc \<mapsto> lc))" by (simp add: addLinters_def)
  ultimately show ?case by (simp only: list.set insert_iff disj_assoc)
qed (simp add: addLinters_def)

lemma removeLinters_holds:
  "holds L s P \<Longrightarrow> set lcs \<subseteq> L \<Longrightarrow> inj_on lcName L \<Longrightarrow> holds L (removeLinters lcs s) (\<lambda>x. P x \<and> x \<notin> set lcs)"
proof (induction lcs arbitrary: s P)
  case (Cons lc lcs)
  have "holds L (s(lcName lc := None)) (\<lambda>x. P x \<and> x \<noteq> lc)"
    using Cons.prems unfolding holds_def by (auto dest: inj_onD)
  then have "holds L (removeLinters lcs (s(lcName lc := None))) (\<lambda>x. (P x \<and> x \<noteq> lc) \<and> x \<notin> set lcs)"
    by (rule Cons.IH) (use Cons.prems in simp_all)
  moreover have "removeLinters (lc # lcs) s = removeLinters lcs (s(lcName lc := None))" by (simp add: removeLinters_def)
  ultimately show ?case by (simp only: list.set insert_iff de_Morgan_disj conj_assoc)
qed (simp add: removeLinters_def)

lemma dropSlow_holds: "holds L s P \<Longrightarrow> holds L (dropSlow s) (\<lambda>x. P x \<and> \<not> IsSlow x)"
proof -
  assume h: "holds L s P"
  have "dropSlow s n = Some lc \<longleftrightarrow> s n = Some lc \<and> \<not> IsSlow lc" for n lc
    by (cases "s n") (auto simp: dropSlow_def IsSlowLinter_def)
  with h show ?thesis by (auto simp: holds_def)
qed

text \<open>The linters of the configured group.\<close>

definition inGroup :: "string \<Rightarrow> LinterConfig \<Rightarrow> bool" where
  "inGroup g lc \<longleftrightarrow> g = ''all'' \<or> g = ''fast'' \<and> \<not> IsSlow lc \<or> (g = ''standard'' \<or> g = []) \<and> ''standard'' \<in> lcGroups lc"

definition selected :: "LintersCfg \<Rightarrow> LinterConfig \<Rightarrow> bool" where
  "selected cfg lc \<longleftrightarrow>
     (inGroup (Default cfg) lc \<and> \<not> inactive lc \<and> \<not> IsFormatter (lcName lc) \<or>
      set (AllNames lc) \<inter> set (Enable cfg @ FormattersEnable cfg) \<noteq> {}) \<and>
     set (AllNames lc) \<inter> set (Disable cfg) = {} \<and> (FastOnly cfg \<longrightarrow> \<not> IsSlow lc)"

lemma groupLinters_holds:
  assumes "manager_ok m" "groupLinters m (if Default cfg = [] then GroupStandard else Default cfg) = Some s"
  shows "holds (set (mLinters m)) s (\<lambda>lc. inGroup (Default cfg) lc \<and> \<not> inactive lc \<and> \<not> IsFormatter (lcName lc))"
proof -
  have inj: "inj_on lcName (set (mLinters m))" using assms(1) by (simp add: manager_ok_def)
  have h: "holds (set (mLinters m)) (linterConfigsToMap (filter P (mLinters m)) Map.empty)
      (\<lambda>lc. P lc \<and> \<not> inactive lc \<and> \<not> IsFormatter (lcName lc))" for P
    by (rule holds_cong [OF linterConfigsToMap_holds [OF holds_empty _ inj]]) auto
  show ?thesis
    using assms(2) h [of "\<lambda>_. True"] h [of "\<lambda>lc. \<not> IsSlowLinter lc"] h [of "\<lambda>lc. FromGroup lc GroupStandard"] holds_empty
    by (auto simp: groupLinters_def inGroup_def GroupNone_def GroupAll_def GroupFast_def GroupStandard_def
        IsSlowLinter_def FromGroup_def split: if_splits)
qed

section \<open>Combining linters\<close>

text \<open>The linters that a configuration runs.\<close>

definition runs :: "LinterConfig \<Rightarrow> string set" where
  "runs lc = (case lcLinter lc of MetaLinter ms \<Rightarrow> set ms | _ \<Rightarrow> {lcName lc})"

definition named :: "linterSet \<Rightarrow> bool" where
  "named s \<longleftrightarrow> finite (dom s) \<and> (\<forall>n lc. s n = Some lc \<longrightarrow> lcName lc = n \<and> (\<forall>ms. lcLinter lc \<noteq> MetaLinter ms)) \<and>
     s ''goanalysis_metalinter'' = None"

lemma combineStep_fold:
  "snd (fold combineStep lcs st) = snd st @ map lcName (filter combinable lcs)"
  "DoesChangeTypes (fst (fold combineStep lcs st)) = DoesChangeTypes (fst st)"
  by (induction lcs arbitrary: st) (auto simp: combineStep_def ConsiderSlow_def Let_def)

lemma fold_delete: "fold (\<lambda>n s. s(n := None)) ns s = (\<lambda>n. if n \<in> set ns then None else s n)"
  by (induction ns arbitrary: s) (auto simp: fun_eq_iff)

lemma memberLess_lawful:
  "a \<noteq> b \<Longrightarrow> memberLess a b \<Longrightarrow> \<not> memberLess b a"
  "a \<noteq> b \<Longrightarrow> b \<noteq> c \<Longrightarrow> a \<noteq> c \<Longrightarrow> \<not> memberLess b a \<Longrightarrow> \<not> memberLess c b \<Longrightarrow> \<not> memberLess c a"
proof -
  show "\<not> memberLess b a" if "a \<noteq> b" "memberLess a b"
    using that cmp_string_opposite [of a b] cmp_string_zero_iff [of a b]
    by (auto simp: memberLess_def split: if_splits)
  show "\<not> memberLess c a" if "a \<noteq> b" "b \<noteq> c" "a \<noteq> c" "\<not> memberLess b a" "\<not> memberLess c b"
    using that cmp_string_opposite [of a b] cmp_string_opposite [of b c] cmp_string_opposite [of a c]
      cmp_string_le_trans [of a b c] cmp_string_zero_iff [of a c]
    by (auto simp: memberLess_def split: if_splits)
qed

lemma linterCompare_asym:
  "lcName a \<noteq> lcName b \<Longrightarrow> linterCompare a b < 0 \<Longrightarrow> \<not> linterCompare b a < 0"
  using cmp_string_opposite [of "lcName a" "lcName b"] by (auto simp: linterCompare_def split: if_splits)

lemma linterCompare_trans:
  "lcName a \<noteq> lcName b \<Longrightarrow> lcName b \<noteq> lcName c \<Longrightarrow> lcName a \<noteq> lcName c \<Longrightarrow>
   \<not> linterCompare b a < 0 \<Longrightarrow> \<not> linterCompare c b < 0 \<Longrightarrow> \<not> linterCompare c a < 0"
  using cmp_string_opposite [of "lcName a" "lcName b"] cmp_string_opposite [of "lcName b" "lcName c"]
    cmp_string_opposite [of "lcName a" "lcName c"] cmp_string_le_trans [of "lcName a" "lcName b" "lcName c"]
  by (auto simp: linterCompare_def split: if_splits)

lemma combine_cases:
  assumes v: "visits_all keys" and s: "named s"
  obtains (single) "combineGoAnalysisLinters keys s = s"
  | (meta) ms ml where "set ms = {n \<in> dom s. combinable (the (s n))}" "distinct ms"
      "LastLinter \<in> set ms \<longrightarrow> last ms = LastLinter" "lcLinter ml = MetaLinter ms" "\<not> DoesChangeTypes ml"
      "combineGoAnalysisLinters keys s = (\<lambda>n. if n \<in> set ms then None else s n)(''goanalysis_metalinter'' \<mapsto> ml)"
proof -
  let ?ks = "keys 0 [] (dom s)"
  let ?lcs = "map (\<lambda>n. the (s n)) ?ks"
  define nms where "nms = snd (fold combineStep ?lcs (emptyConfig, []))"
  define cfg where "cfg = fst (fold combineStep ?lcs (emptyConfig, []))"
  have ks: "distinct ?ks" "set ?ks = dom s" using v s by (auto simp: visits_all_def named_def)
  have nm: "lcName (the (s n)) = n" if "n \<in> dom s" for n using that s by (auto simp: named_def)
  have "map lcName (filter combinable ?lcs) = filter (\<lambda>n. combinable (the (s n))) ?ks"
    using ks(2) nm by (simp add: filter_map comp_def) (auto intro: map_idI)
  then have names: "nms = filter (\<lambda>n. combinable (the (s n))) ?ks"
    using combineStep_fold(1) [of ?lcs "(emptyConfig, [])"] by (simp add: nms_def)
  define ms where "ms = stable_sort memberLess nms"
  have dm: "distinct ms" using ks(1) names by (simp add: ms_def)
  have sm: "set ms = {n \<in> dom s. combinable (the (s n))}" using ks(2) names by (auto simp: ms_def)
  have sorted: "sorted_wrt (\<lambda>a b. \<not> memberLess b a) ms"
    unfolding ms_def
  proof (rule sorted_stable_sort_on [where A = UNIV])
    show "\<not> memberLess b a" if "a \<noteq> b" "memberLess a b" for a b
      using that by (rule memberLess_lawful(1))
    show "\<not> memberLess c a" if "a \<noteq> b" "b \<noteq> c" "a \<noteq> c" "\<not> memberLess b a" "\<not> memberLess c b" for a b c
      using that by (rule memberLess_lawful(2))
  qed (use ks(1) names in simp_all)
  have last: "LastLinter \<in> set ms \<longrightarrow> last ms = LastLinter"
    using sorted_last [OF sorted dm, of LastLinter] by (auto simp: memberLess_def)
  show thesis
  proof (cases "length nms \<le> 1")
    case True
    then show thesis using single by (simp add: combineGoAnalysisLinters_def case_prod_unfold nms_def)
  next
    case False
    have "combineGoAnalysisLinters keys s =
      (\<lambda>n. if n \<in> set nms then None else s n)(''goanalysis_metalinter'' \<mapsto> cfg\<lparr>lcLinter := MetaLinter ms\<rparr>)"
      using False by (simp add: combineGoAnalysisLinters_def case_prod_unfold Let_def fold_delete ms_def nms_def cfg_def)
    moreover have "set nms = set ms" by (simp add: ms_def)
    moreover have "\<not> DoesChangeTypes (cfg\<lparr>lcLinter := MetaLinter ms\<rparr>)"
      using combineStep_fold(2) [of ?lcs "(emptyConfig, [])"] by (simp add: emptyConfig_def cfg_def)
    ultimately show thesis using sm dm last by (intro meta [of ms "cfg\<lparr>lcLinter := MetaLinter ms\<rparr>"]) simp_all
  qed
qed

section \<open>The enabled linters, exactly\<close>

definition enabled :: "Manager \<Rightarrow> LintersCfg \<Rightarrow> LinterConfig \<Rightarrow> bool" where
  "enabled m cfg lc \<longleftrightarrow> selected cfg lc \<or>
     \<not> InternalCmdTest cfg \<and> ''typecheck'' \<in> set (AllNames lc) \<and>
     \<not> (\<exists>lc' \<in> set (mLinters m). lcName lc' = ''typecheck'' \<and> selected cfg lc')"

lemma Manager_build_group:
  "isl (Manager_build m cfg) \<longleftrightarrow> groupLinters m (if Default cfg = [] then GroupStandard else Default cfg) = None"
  "groupLinters m (if Default cfg = [] then GroupStandard else Default cfg) = None \<longleftrightarrow>
     Default cfg \<notin> {[], ''standard'', ''all'', ''none'', ''fast''}"
  by (auto simp: Manager_build_def groupLinters_def GroupNone_def GroupAll_def GroupFast_def GroupStandard_def Let_def)

lemma Manager_build_holds:
  assumes "manager_ok m" "Manager_build m cfg = Inr s"
  shows "holds (set (mLinters m)) s (enabled m cfg)"
proof -
  let ?L = "set (mLinters m)"
  have inj: "inj_on lcName ?L" using assms(1) by (simp add: manager_ok_def)
  obtain s0 where Some: "groupLinters m (if Default cfg = [] then GroupStandard else Default cfg) = Some s0"
    using Manager_build_group(1) [of m cfg] assms(2) by auto
  define s1 where "s1 = addLinters (concat (map (GetLinterConfigs m) (Enable cfg @ FormattersEnable cfg))) s0"
  define s2 where "s2 = removeLinters (concat (map (GetLinterConfigs m) (Disable cfg))) s1"
  define s3 where "s3 = (if FastOnly cfg then dropSlow s2 else s2)"
  have sub: "set (concat (map (GetLinterConfigs m) ns)) = {lc \<in> ?L. set (AllNames lc) \<inter> set ns \<noteq> {}}" for ns
    by (auto simp: GetLinterConfigs_set [OF assms(1)])
  have h1: "holds ?L s1 (\<lambda>lc. (inGroup (Default cfg) lc \<and> \<not> inactive lc \<and> \<not> IsFormatter (lcName lc)) \<or>
      lc \<in> set (concat (map (GetLinterConfigs m) (Enable cfg @ FormattersEnable cfg))))"
    unfolding s1_def by (rule addLinters_holds [OF groupLinters_holds [OF assms(1) Some] _ inj]) (unfold sub, blast)
  have h2: "holds ?L s2 (\<lambda>lc. ((inGroup (Default cfg) lc \<and> \<not> inactive lc \<and> \<not> IsFormatter (lcName lc)) \<or>
      lc \<in> set (concat (map (GetLinterConfigs m) (Enable cfg @ FormattersEnable cfg)))) \<and>
      lc \<notin> set (concat (map (GetLinterConfigs m) (Disable cfg))))"
    unfolding s2_def by (rule removeLinters_holds [OF h1 _ inj]) (unfold sub, blast)
  have h3: "holds ?L s3 (selected cfg)"
    using h2 dropSlow_holds [OF h2] unfolding s3_def sub
    by (auto simp: selected_def elim!: holds_cong split: if_splits)
  have tc: "s3 ''typecheck'' = None \<longleftrightarrow> \<not> (\<exists>lc' \<in> ?L. lcName lc' = ''typecheck'' \<and> selected cfg lc')"
  proof -
    have "s3 ''typecheck'' = Some lc \<longleftrightarrow> lc \<in> ?L \<and> lcName lc = ''typecheck'' \<and> selected cfg lc" for lc
      using h3 unfolding holds_def by blast
    then show ?thesis by (cases "s3 ''typecheck''") auto
  qed
  have build: "Manager_build m cfg = Inr (if s3 ''typecheck'' = None \<and> \<not> InternalCmdTest cfg
      then addLinters (GetLinterConfigs m ''typecheck'') s3 else s3)"
    by (simp only: Manager_build_def Let_def Some option.case s1_def s2_def s3_def)
  have h4: "holds ?L (addLinters (GetLinterConfigs m ''typecheck'') s3)
      (\<lambda>lc. selected cfg lc \<or> lc \<in> set (GetLinterConfigs m ''typecheck''))"
    by (rule addLinters_holds [OF h3 _ inj]) (auto simp: GetLinterConfigs_set [OF assms(1)])
  have h5: "holds ?L (if s3 ''typecheck'' = None \<and> \<not> InternalCmdTest cfg
      then addLinters (GetLinterConfigs m ''typecheck'') s3 else s3)
    (enabled m cfg)"
  proof (cases "s3 ''typecheck'' = None \<and> \<not> InternalCmdTest cfg")
    case True
    have "holds ?L (addLinters (GetLinterConfigs m ''typecheck'') s3)
      (enabled m cfg)"
      by (rule holds_cong [OF h4]) (use True tc GetLinterConfigs_set [OF assms(1)] in \<open>auto simp: enabled_def\<close>)
    then show ?thesis by (simp only: True if_True simp_thms)
  next
    case False
    then have "holds ?L s3 (enabled m cfg)"
      by (intro holds_cong [OF h3]) (use tc in \<open>auto simp: enabled_def\<close>)
    then show ?thesis using False by (simp only: if_False simp_thms)
  qed
  then show ?thesis using build assms(2) by simp
qed

section \<open>Properties\<close>

text \<open>C4: The enabled linters. With linters of different names, \<open>build\<close> fails exactly on an unknown group; otherwise it
  enables, under their own names, the linters that the group contains (without inactive ones and formatters) or
  that are enabled by name or alias, less those disabled by name or alias and, with fast-only, the slow ones; and
  \<open>typecheck\<close> whatever the configuration says, except in the internal command tests.\<close>

theorem enabled_linters_exact:
  assumes "manager_ok m"
  shows "case Manager_build m cfg of
      Inl err \<Rightarrow> Default cfg \<notin> {[], ''standard'', ''all'', ''none'', ''fast''}
    | Inr s \<Rightarrow> Default cfg \<in> {[], ''standard'', ''all'', ''none'', ''fast''} \<and>
        (\<forall>n lc. s n = Some lc \<longleftrightarrow> lc \<in> set (mLinters m) \<and> lcName lc = n \<and>
           (selected cfg lc \<or>
            \<not> InternalCmdTest cfg \<and> ''typecheck'' \<in> set (AllNames lc) \<and>
            \<not> (\<exists>lc' \<in> set (mLinters m). lcName lc' = ''typecheck'' \<and> selected cfg lc')))"
proof (cases "Manager_build m cfg")
  case (Inl err)
  then show ?thesis using Manager_build_group [of m cfg] by simp
next
  case (Inr s)
  then have "Default cfg \<in> {[], ''standard'', ''all'', ''none'', ''fast''}" using Manager_build_group [of m cfg] by auto
  with Inr Manager_build_holds [OF assms Inr] show ?thesis by (simp add: holds_def enabled_def)
qed

text \<open>A small database: a standard linter, a formatter, the type checker, and the linter of directives.\<close>

definition exampleLinters :: "LinterConfig list" where
  "exampleLinters =
     [WithGroups [''standard''] (WithLoadForGoAnalysis (NewConfig (GoAnalysisLinter ''errcheck'' False))),
      NewConfig (GoAnalysisLinter ''gofmt'' False),
      WithInternal (WithLoadForGoAnalysis (NewConfig (GoAnalysisLinter ''typecheck'' False))),
      WithAlternativeNames [''nll''] (NewConfig (GoAnalysisLinter ''nolintlint'' False))]"

definition exampleManager :: Manager where
  "exampleManager = \<lparr>mLinters = exampleLinters, nameToLCs = nameTable exampleLinters\<rparr>"

definition exampleCfg :: LintersCfg where
  "exampleCfg = \<lparr>Default = [], Enable = [''nll''], Disable = [], FastOnly = False, FormattersEnable = [],
     InternalCmdTest = False, InternalTest = False\<rparr>"

lemma exampleManager_ok: "manager_ok exampleManager"
  by (simp add: manager_ok_def exampleManager_def exampleLinters_def lcName_def WithGroups_def WithInternal_def
      WithAlternativeNames_def WithLoadForGoAnalysis_def WithLoadFiles_def NewConfig_def Let_def)

theorem enabled_linters_exact_witness:
  "\<exists>s. Manager_build exampleManager exampleCfg = Inr s \<and> dom s = {''errcheck'', ''typecheck'', ''nolintlint''}"
proof -
  obtain s where s: "Manager_build exampleManager exampleCfg = Inr s"
    using enabled_linters_exact [OF exampleManager_ok, of exampleCfg]
    by (cases "Manager_build exampleManager exampleCfg") (auto simp: exampleCfg_def)
  have "s n = Some lc \<longleftrightarrow> lc \<in> set exampleLinters \<and> lcName lc = n \<and>
      (selected exampleCfg lc \<or> ''typecheck'' \<in> set (AllNames lc) \<and>
        \<not> (\<exists>lc' \<in> set exampleLinters. lcName lc' = ''typecheck'' \<and> selected exampleCfg lc'))" for n lc
    using enabled_linters_exact [OF exampleManager_ok, of exampleCfg] s
    by (simp add: exampleManager_def exampleCfg_def)
  then have "dom s = set (map lcName (filter (\<lambda>lc. selected exampleCfg lc \<or> ''typecheck'' \<in> set (AllNames lc) \<and>
        \<not> (\<exists>lc' \<in> set exampleLinters. lcName lc' = ''typecheck'' \<and> selected exampleCfg lc')) exampleLinters))"
    by (auto simp: dom_def)
  also have "\<dots> = {''errcheck'', ''typecheck'', ''nolintlint''}" by code_simp
  finally show ?thesis using s by blast
qed

text \<open>C5: The optimised list runs exactly the enabled linters, each once, as itself or as a member of the metalinter.
  The linter of unused directives comes last in the list and in the metalinter, and before it the linters that
  change types come after the others; this does not depend on the order in which Go visits its maps.\<close>

theorem optimized_linters_run_enabled:
  assumes "visits_all keys" "manager_ok m" "Manager_build m cfg = Inr s"
    and "\<forall>lc \<in> set (mLinters m). lcName lc \<noteq> ''goanalysis_metalinter''"
  shows "\<exists>lcs. GetOptimizedLinters keys m cfg = Inr lcs \<and> (\<Union>lc \<in> set lcs. runs lc) = dom s \<and>
    distinct (map lcName lcs) \<and>
    (\<forall>lc \<in> set lcs. (lcName lc = LastLinter \<longrightarrow> last lcs = lc) \<and>
       (\<forall>ms. lcLinter lc = MetaLinter ms \<longrightarrow> LastLinter \<in> set ms \<longrightarrow> last ms = LastLinter)) \<and>
    sorted_wrt (\<lambda>a b. lcName b \<noteq> LastLinter \<longrightarrow> DoesChangeTypes a \<longrightarrow> DoesChangeTypes b) lcs"
proof -
  note h = Manager_build_holds [OF assms(2,3), unfolded holds_def]
  have "dom s \<subseteq> lcName ` set (mLinters m)" using h by force
  then have fin: "finite (dom s)" by (meson List.finite_set finite_imageI finite_subset)
  have sn: "lcName lc = n \<and> (\<forall>ms. lcLinter lc \<noteq> MetaLinter ms) \<and> n \<noteq> ''goanalysis_metalinter''" if "s n = Some lc" for n lc
    using h that assms(4) by (auto simp: lcName_def)
  moreover have "s ''goanalysis_metalinter'' = None" using sn by (cases "s ''goanalysis_metalinter''") auto
  ultimately have nm: "named s" using fin by (auto simp: named_def)
  define s' where "s' = combineGoAnalysisLinters keys s"
  have s': "finite (dom s')" "s' n = Some lc \<Longrightarrow> lcName lc = n"
      "s' n = Some lc \<Longrightarrow> lcLinter lc = MetaLinter ms \<Longrightarrow> LastLinter \<in> set ms \<Longrightarrow> last ms = LastLinter"
      "(\<Union>lc \<in> ran s'. runs lc) = dom s" for n lc ms
  proof -
    have runs1: "runs lc = {n}" if "s n = Some lc" for n lc
      using sn [OF that] by (cases "lcLinter lc") (auto simp: runs_def)
    have "finite (dom s') \<and> (\<forall>n lc. s' n = Some lc \<longrightarrow> lcName lc = n) \<and>
      (\<forall>n lc ms. s' n = Some lc \<longrightarrow> lcLinter lc = MetaLinter ms \<longrightarrow> LastLinter \<in> set ms \<longrightarrow> last ms = LastLinter) \<and>
      (\<Union>lc \<in> ran s'. runs lc) = dom s"
    proof (rule combine_cases [OF assms(1) nm])
      assume "combineGoAnalysisLinters keys s = s"
      moreover have "(\<Union>lc \<in> ran s. runs lc) = dom s" using runs1 by (auto simp: ran_def)
      ultimately show ?thesis using fin sn unfolding s'_def by auto
    next
      fix ms ml
      assume ms: "set ms = {n \<in> dom s. combinable (the (s n))}" "distinct ms" "LastLinter \<in> set ms \<longrightarrow> last ms = LastLinter"
        "lcLinter ml = MetaLinter ms"
        and eq: "combineGoAnalysisLinters keys s = (\<lambda>n. if n \<in> set ms then None else s n)(''goanalysis_metalinter'' \<mapsto> ml)"
      let ?M = "''goanalysis_metalinter''"
      have s'v: "s' n = (if n = ?M then Some ml else if n \<in> set ms then None else s n)" for n
        by (simp add: s'_def eq)
      have "dom s' \<subseteq> insert ?M (dom s)" by (auto simp: s'v dom_def split: if_splits)
      then have f: "finite (dom s')" using fin by (meson finite_insert finite_subset)
      have nm': "lcName lc = n" if "s' n = Some lc" for n lc
        using that sn ms(4) by (auto simp: s'v lcName_def split: if_splits)
      have l: "last ms' = LastLinter" if "s' n = Some lc" "lcLinter lc = MetaLinter ms'" "LastLinter \<in> set ms'" for n lc ms'
        using that sn ms(3,4) by (auto simp: s'v split: if_splits)
      have "(\<Union>lc \<in> ran s'. runs lc) = dom s"
      proof
        show "(\<Union>lc \<in> ran s'. runs lc) \<subseteq> dom s"
          using runs1 ms(1,4) by (auto simp: ran_def s'v runs_def [of ml] split: if_splits)
        show "dom s \<subseteq> (\<Union>lc \<in> ran s'. runs lc)"
        proof
          fix n assume "n \<in> dom s"
          then obtain lc where lc: "s n = Some lc" by auto
          show "n \<in> (\<Union>lc \<in> ran s'. runs lc)"
          proof (cases "n \<in> set ms")
            case True
            have "ml \<in> ran s'" using s'v [of ?M] by (auto simp: ran_def)
            moreover have "n \<in> runs ml" using True ms(4) by (simp add: runs_def)
            ultimately show ?thesis by blast
          next
            case False
            then have "s' n = Some lc" using lc sn [OF lc] by (simp add: s'v)
            then show ?thesis using runs1 [OF lc] by (auto simp: ran_def)
          qed
        qed
      qed
      with f nm' l show ?thesis by blast
    qed
    then show "finite (dom s')" "s' n = Some lc \<Longrightarrow> lcName lc = n"
      "s' n = Some lc \<Longrightarrow> lcLinter lc = MetaLinter ms \<Longrightarrow> LastLinter \<in> set ms \<Longrightarrow> last ms = LastLinter"
      "(\<Union>lc \<in> ran s'. runs lc) = dom s" by blast+
  qed
  define ks where "ks = keys 1 [] (dom s')"
  define xs where "xs = map (\<lambda>n. the (s' n)) ks"
  define lcs where "lcs = stable_sort (\<lambda>a b. linterCompare a b < 0) xs"
  have ks: "distinct ks" "set ks = dom s'" using assms(1) s'(1) by (auto simp: visits_all_def ks_def)
  have "lcName (the (s' n)) = n" if "n \<in> set ks" for n using that ks(2) s'(2) by auto
  then have names: "map lcName xs = ks" by (simp add: xs_def map_idI)
  then have dx: "distinct xs" "inj_on lcName (set xs)" using ks(1) distinct_map by metis+
  have setl: "set lcs = set xs" "distinct lcs" using dx by (simp_all add: lcs_def)
  have ranx: "set xs = ran s'" using ks(2) by (auto simp: xs_def ran_def dom_def image_iff) force+
  have sorted: "sorted_wrt (\<lambda>a b. \<not> linterCompare b a < 0) lcs"
    unfolding lcs_def
  proof (rule sorted_stable_sort_on [where A = "set xs"])
    show "\<not> linterCompare b a < 0" if "a \<in> set xs" "b \<in> set xs" "a \<noteq> b" "linterCompare a b < 0" for a b
      using that inj_on_eq_iff [OF dx(2)] by (intro linterCompare_asym) simp_all
    show "\<not> linterCompare c a < 0"
      if "a \<in> set xs" "b \<in> set xs" "c \<in> set xs" "a \<noteq> b" "b \<noteq> c" "a \<noteq> c" "\<not> linterCompare b a < 0" "\<not> linterCompare c b < 0" for a b c
      using that inj_on_eq_iff [OF dx(2)] by (intro linterCompare_trans [of a b c]) simp_all
  qed (use dx in simp_all)
  have last: "last lcs = lc" if "lc \<in> set lcs" "lcName lc = LastLinter" for lc
    by (rule sorted_last [OF sorted setl(2) that(1)]) (simp add: linterCompare_def that(2))
  have "GetOptimizedLinters keys m cfg = Inr lcs"
    by (simp add: GetOptimizedLinters_def assms(3) s'_def lcs_def xs_def ks_def Let_def)
  moreover have "(\<Union>lc \<in> set lcs. runs lc) = dom s" using s'(4) setl(1) ranx by simp
  moreover have "distinct (map lcName lcs)" using dx(2) setl by (simp add: distinct_map)
  moreover have "last ms = LastLinter" if "lc \<in> set lcs" "lcLinter lc = MetaLinter ms" "LastLinter \<in> set ms" for lc ms
    using that s'(3) setl(1) ranx by (auto simp: ran_def)
  moreover have "sorted_wrt (\<lambda>a b. lcName b \<noteq> LastLinter \<longrightarrow> DoesChangeTypes a \<longrightarrow> DoesChangeTypes b) lcs"
    by (rule sorted_wrt_mono_rel [OF _ sorted]) (auto simp: linterCompare_def split: if_splits)
  ultimately show ?thesis using last by blast
qed

theorem optimized_linters_run_enabled_witness:
  "\<exists>s lcs. Manager_build exampleManager exampleCfg = Inr s \<and>
     GetOptimizedLinters (\<lambda>_ _ A. sorted_list_of_set A) exampleManager exampleCfg = Inr lcs \<and>
     (\<Union>lc \<in> set lcs. runs lc) = dom s"
proof -
  obtain s where s: "Manager_build exampleManager exampleCfg = Inr s"
    using Manager_build_group [of exampleManager exampleCfg]
    by (cases "Manager_build exampleManager exampleCfg") (auto simp: exampleCfg_def)
  have "\<forall>lc \<in> set (mLinters exampleManager). lcName lc \<noteq> ''goanalysis_metalinter''" by code_simp
  from optimized_linters_run_enabled [OF keys_sorted exampleManager_ok s this] s show ?thesis by blast
qed

text \<open>The validation of the names of linters fails exactly when an enabled or disabled name is neither the name nor an
  alias of a linter, and the error lists those names, the enabled ones first, each as often as it is configured.\<close>

theorem linter_names_validated:
  assumes "manager_ok m"
  shows "fst (Validator_Validate envTestRun m cfg) =
    (let unknown = filter (\<lambda>n. \<not> (\<exists>lc \<in> set (mLinters m). n = lcName lc \<or> n \<in> set (AlternativeNames lc))) (Enable cfg @ Disable cfg)
     in if unknown = [] then None
        else Some (''unknown linters: '' @ [CHR 0x27] @ Join unknown '','' @ [CHR 0x27] @
                '', run '' @ [CHR 0x27] @ ''golangci-lint help linters'' @ [CHR 0x27] @ '' to see the list of supported linters''))"
proof -
  have "GetLinterConfigs m n = [] \<longleftrightarrow> \<not> (\<exists>lc \<in> set (mLinters m). n = lcName lc \<or> n \<in> set (AlternativeNames lc))" for n
  proof -
    have "GetLinterConfigs m n = [] \<longleftrightarrow> set (GetLinterConfigs m n) = {}" by simp
    then show ?thesis unfolding GetLinterConfigs_set [OF assms] by (auto simp: AllNames_def)
  qed
  then have "unknownNames m cfg =
      filter (\<lambda>n. \<not> (\<exists>lc \<in> set (mLinters m). n = lcName lc \<or> n \<in> set (AlternativeNames lc))) (Enable cfg @ Disable cfg)"
    by (simp add: unknownNames_def)
  then show ?thesis
    unfolding Validator_Validate_def validateLintersNames_def Let_def by simp
qed

theorem linter_names_validated_witness:
  "fst (Validator_Validate False exampleManager exampleCfg) = None \<and>
   fst (Validator_Validate False exampleManager (exampleCfg\<lparr>Disable := [''nope'']\<rparr>)) \<noteq> None"
proof -
  have "filter (\<lambda>n. \<not> (\<exists>lc \<in> set (mLinters exampleManager). n = lcName lc \<or> n \<in> set (AlternativeNames lc)))
      (Enable exampleCfg @ Disable exampleCfg) = []" by code_simp
  moreover have "filter (\<lambda>n. \<not> (\<exists>lc \<in> set (mLinters exampleManager). n = lcName lc \<or> n \<in> set (AlternativeNames lc)))
      (Enable exampleCfg @ [''nope'']) = [''nope'']" by code_simp
  ultimately show ?thesis
    unfolding linter_names_validated [OF exampleManager_ok] by (simp add: Let_def)
qed

end
