(* ===== verification/Runner.thy ===== *)
theory Runner
  imports Limits Rules Nolint Sort_Results Path_Processors Source_Processors Fixer Linters_DB
begin

text \<open>
  The runner (\<open>pkg/lint/runner.go\<close>): it runs the linters, recovering from their panics, and sends their
  issues through the chain of processors, which skips a processor that fails.

  A processor is a value with its state; the processors share the file system, the caches, the
  computed changes and the log (\<open>Shared\<close>). What a linter does when it runs is a parameter. Stopwatches and
  the lifecycle recorder are left out.
\<close>

section \<open>Processors\<close>

datatype Processor =
    PathAbsoluterP
  | CgoP Cgo
  | FilenameUnadjusterP FilenameUnadjuster
  | InvalidIssueP
  | PathRelativityP PathRelativity
  | ExclusionPathsP ExclusionPaths
  | GeneratedFileFilterP GeneratedFileFilter
  | ExclusionRulesP ExclusionRules
  | NolintFilterP NolintFilter
  | DiffP
  | FixerP
  | UniqByLineP UniqByLine
  | MaxPerFileFromLinterP MaxPerFileFromLinter
  | MaxSameIssuesP MaxSameIssues
  | MaxFromLinterP MaxFromLinter
  | SourceCodeP
  | PathShortenerP string
  | SeverityP SeverityProc
  | PathPrettifierP PathPrettifier
  | SortResultsP SortResults

record RunEnv =
  envWd :: "string + string"
  envMatch :: "string \<Rightarrow> string \<Rightarrow> bool"
  envQuote :: "string \<Rightarrow> string"
  envNolint :: NolintEnv
  envGen :: GenEnv
  envDiff :: DiffEnv
  envDiffCfg :: "nat \<times> IssuesConfig"
  envFix :: FixEnv
  envNeedFix :: bool
  envSort :: "issueComparator \<Rightarrow> Issue list \<Rightarrow> Issue list"
  envSortSlice :: "(kv \<Rightarrow> kv \<Rightarrow> bool) \<Rightarrow> kv list \<Rightarrow> kv list"
  envKeys :: visits
  envPatternKeys :: "nat \<Rightarrow> nat set \<Rightarrow> nat list"

record Shared =
  shFix :: FixState
  shDiffs :: preparedDiffs

abbreviation shLog :: "Shared \<Rightarrow> log_call list" where
  "shLog sh \<equiv> fixLog (shFix sh)"

abbreviation shFiles :: "Shared \<Rightarrow> files" where
  "shFiles sh \<equiv> fixFiles (shFix sh)"

abbreviation shCaches :: "Shared \<Rightarrow> Caches" where
  "shCaches sh \<equiv> fixCaches (shFix sh)"

definition setLog :: "log_call list \<Rightarrow> Shared \<Rightarrow> Shared" where
  "setLog log sh = sh\<lparr>shFix := (shFix sh)\<lparr>fixLog := log\<rparr>\<rparr>"

definition setCaches :: "Caches \<Rightarrow> Shared \<Rightarrow> Shared" where
  "setCaches c sh = sh\<lparr>shFix := (shFix sh)\<lparr>fixCaches := c\<rparr>\<rparr>"

fun procName :: "Processor \<Rightarrow> string" where
  "procName PathAbsoluterP = ''path_absoluter''"
| "procName (CgoP p) = ''cgo''"
| "procName (FilenameUnadjusterP p) = ''filename_unadjuster''"
| "procName InvalidIssueP = ''invalid_issue''"
| "procName (PathRelativityP p) = ''path_relativity''"
| "procName (ExclusionPathsP p) = ''exclusion_paths''"
| "procName (GeneratedFileFilterP p) = ''generated_file_filter''"
| "procName (ExclusionRulesP p) = ''exclusion_rules''"
| "procName (NolintFilterP p) = ''nolint_filter''"
| "procName DiffP = ''diff''"
| "procName FixerP = ''fixer''"
| "procName (UniqByLineP p) = ''uniq_by_line''"
| "procName (MaxPerFileFromLinterP p) = ''max_per_file_from_linter''"
| "procName (MaxSameIssuesP p) = ''max_same_issues''"
| "procName (MaxFromLinterP p) = ''max_from_linter''"
| "procName SourceCodeP = ''source_code''"
| "procName (PathShortenerP p) = ''path_shortener''"
| "procName (SeverityP p) = ''severity-rules''"
| "procName (PathPrettifierP p) = ''path_prettifier''"
| "procName (SortResultsP p) = ''sort_results''"

fun Process :: "RunEnv \<Rightarrow> Shared \<Rightarrow> Processor \<Rightarrow> Issue list \<Rightarrow> (proc_error + Issue list) \<times> Processor \<times> Shared" where
  "Process env sh PathAbsoluterP xs =
     (let (r, log) = PathAbsoluter_Process (envWd env) (shLog sh) xs in (r, PathAbsoluterP, setLog log sh))"
| "Process env sh (CgoP p) xs = (let (r, p') = Cgo_Process p xs in (r, CgoP p', sh))"
| "Process env sh (FilenameUnadjusterP p) xs =
     (let (r, p') = FilenameUnadjuster_Process p xs in (r, FilenameUnadjusterP p', sh))"
| "Process env sh InvalidIssueP xs =
     (let (r, log) = InvalidIssue_Process (shLog sh) xs in (r, InvalidIssueP, setLog log sh))"
| "Process env sh (PathRelativityP p) xs =
     (let (r, p') = PathRelativity_Process p xs in (r, PathRelativityP p', sh))"
| "Process env sh (ExclusionPathsP p) xs =
     (let (r, p') = ExclusionPaths_Process (envMatch env) p xs in (r, ExclusionPathsP p', sh))"
| "Process env sh (GeneratedFileFilterP p) xs =
     (let (r, p') = GeneratedFileFilter_Process (envGen env) p xs in (r, GeneratedFileFilterP p', sh))"
| "Process env sh (ExclusionRulesP p) xs =
     (let (r, p', c) = ExclusionRules_Process (envMatch env) (envQuote env) (shFiles sh) (p, shCaches sh) xs
      in (r, ExclusionRulesP p', setCaches c sh))"
| "Process env sh (NolintFilterP p) xs =
     (let (r, p') = NolintFilter_Process (envNolint env) p xs in (r, NolintFilterP p', sh))"
| "Process env sh DiffP xs =
     (let (r, d) = Diff_Process (envDiff env) (envDiffCfg env) (shDiffs sh) xs in (r, DiffP, sh\<lparr>shDiffs := d\<rparr>))"
| "Process env sh FixerP xs =
     (let (r, f) = Fixer_Process (envFix env) (envNeedFix env) (shFix sh) xs in (r, FixerP, sh\<lparr>shFix := f\<rparr>))"
| "Process env sh (UniqByLineP p) xs = (let (r, p') = UniqByLine_Process p xs in (r, UniqByLineP p', sh))"
| "Process env sh (MaxPerFileFromLinterP p) xs =
     (let (r, p') = MaxPerFileFromLinter_Process p xs in (r, MaxPerFileFromLinterP p', sh))"
| "Process env sh (MaxSameIssuesP p) xs = (let (r, p') = MaxSameIssues_Process p xs in (r, MaxSameIssuesP p', sh))"
| "Process env sh (MaxFromLinterP p) xs = (let (r, p') = MaxFromLinter_Process p xs in (r, MaxFromLinterP p', sh))"
| "Process env sh SourceCodeP xs =
     (let (r, log, c) = SourceCode_Process (shFiles sh) (shLog sh, shCaches sh) xs
      in (r, SourceCodeP, setCaches c (setLog log sh)))"
| "Process env sh (PathShortenerP wd) xs = (let (r, wd') = PathShortener_Process wd xs in (r, PathShortenerP wd', sh))"
| "Process env sh (SeverityP p) xs =
     (let (r, p', c) = Severity_Process (envMatch env) (shFiles sh) (p, shCaches sh) xs
      in (r, SeverityP p', setCaches c sh))"
| "Process env sh (PathPrettifierP p) xs =
     (let (r, p') = PathPrettifier_Process p xs in (r, PathPrettifierP p', sh))"
| "Process env sh (SortResultsP p) xs =
     (let (r, p') = SortResults_Process (envSort env) p xs in (r, SortResultsP p', sh))"

text \<open>What the processors log at the end; maps are visited in the order of the parameters.\<close>

fun Finish :: "RunEnv \<Rightarrow> Processor \<Rightarrow> log_call list" where
  "Finish env (ExclusionPathsP p) =
     ExclusionPaths_Finish (envPatternKeys env 0 (dom (excludedPathCounter p)))
       (envPatternKeys env 1 (dom (excludedPathExceptCounter p))) p"
| "Finish env (ExclusionRulesP p) = ExclusionRules_Finish (envKeys env 0 [] (dom (skippedCounter p))) p"
| "Finish env (NolintFilterP p) = NolintFilter_Finish p"
| "Finish env (MaxSameIssuesP p) =
     MaxSameIssues_Finish (envSortSlice env) (envKeys env 1 [] (dom (textCounter p))) p"
| "Finish env (MaxFromLinterP p) =
     MaxFromLinter_Finish (envSortSlice env) (envKeys env 2 [] (dom (linterCounter p))) p"
| "Finish env _ = []"

section \<open>Construction\<close>

record RunnerCfg =
  cfgBasePath :: string
  cfgExclusions :: LinterExclusions
  cfgUniqByLine :: bool
  cfgNeedFix :: bool
  cfgMaxSameIssues :: int
  cfgMaxIssuesPerLinter :: int
  cfgSeverity :: SeverityConfig
  cfgPathMode :: string
  cfgPathPrefix :: string
  cfgSortOrder :: "string list"

datatype runner_error = RunnerError string | RunnerPanic

text \<open>What the constructor gets besides the configuration: the working directory, the compilation of
  regular expressions, the enabled linters, the constructors of formatters, the directory of the Go build
  cache and the files of the loaded packages with the parser of the unadjuster.\<close>

record RunnerDeps =
  depWd :: "string + string"
  depReOK :: "string \<Rightarrow> bool"
  depQuote :: "string \<Rightarrow> string"
  depEnabled :: "string + linterSet"
  depFmt :: "string \<Rightarrow> Formatter"
  depGci :: "string + Formatter"
  depKeys :: visits
  depGoCache :: string
  depParse :: "string \<Rightarrow> ParsedFile option"
  depFiles :: "string list"

definition NewRunner :: "RunnerDeps \<Rightarrow> RunnerCfg \<Rightarrow> runner_error + Processor list" where
  "NewRunner d cfg =
     (case NewPathRelativity (depWd d) (cfgBasePath cfg) of
        Inl err \<Rightarrow> Inl (RunnerError (''error creating path relativity processor: '' @ err))
      | Inr pathRelativity \<Rightarrow>
     (case NewExclusionPaths (depReOK d) (cfgExclusions cfg) of
        Inl err \<Rightarrow> Inl (RunnerError err)
      | Inr exclusionPaths \<Rightarrow>
     (case depEnabled d of
        Inl err \<Rightarrow> Inl (RunnerError (''failed to get enabled linters: '' @ err))
      | Inr enabledMap \<Rightarrow>
     (if card (dom enabledMap) = 0 \<or> card (dom enabledMap) = 1 \<and> enabledMap ''typecheck'' \<noteq> None
      then Inl (RunnerError ''no linters enabled'')
      else
     (case NewMetaFormatter (depFmt d) (depGci d) (filter IsFormatter (depKeys d 0 [] (dom enabledMap))) of
        Inl err \<Rightarrow> Inl (RunnerError (''failed to create meta-formatter: '' @ err))
      | Inr metaFormatter \<Rightarrow>
     (case (NewExclusionRules (depReOK d) (depQuote d) (cfgExclusions cfg), NewPathShortener (depWd d),
            NewSeverity (depReOK d) (cfgSeverity cfg)) of
        (Some exclusionRules, Some wd, Some severity) \<Rightarrow>
          Inr [PathAbsoluterP,
               CgoP \<lparr>goCacheDir = depGoCache d\<rparr>,
               FilenameUnadjusterP (NewFilenameUnadjuster (depParse d) (depFiles d)),
               InvalidIssueP,
               PathRelativityP pathRelativity,
               ExclusionPathsP exclusionPaths,
               GeneratedFileFilterP (NewGeneratedFileFilter (Generated (cfgExclusions cfg))),
               ExclusionRulesP exclusionRules,
               NolintFilterP NewNolintFilter,
               DiffP,
               FixerP,
               UniqByLineP (NewUniqByLine (cfgUniqByLine cfg)),
               MaxPerFileFromLinterP (NewMaxPerFileFromLinter (cfgNeedFix cfg)),
               MaxSameIssuesP (NewMaxSameIssues (cfgMaxSameIssues cfg)),
               MaxFromLinterP (NewMaxFromLinter (cfgMaxIssuesPerLinter cfg)),
               SourceCodeP,
               PathShortenerP wd,
               SeverityP severity,
               PathPrettifierP \<lparr>PathMode = cfgPathMode cfg, PathPrefix = cfgPathPrefix cfg\<rparr>,
               SortResultsP (NewSortResults (cfgSortOrder cfg))]
      | _ \<Rightarrow> Inl RunnerPanic))))))"

section \<open>Processing\<close>

record processorStat =
  inCount :: int
  outCount :: int

type_synonym stats = "string \<rightharpoonup> processorStat"

definition addStat :: "string \<Rightarrow> int \<Rightarrow> int \<Rightarrow> stats \<Rightarrow> stats" where
  "addStat name i o' st =
     (let s = (case st name of None \<Rightarrow> \<lparr>inCount = 0, outCount = 0\<rparr> | Some s \<Rightarrow> s)
      in st(name \<mapsto> \<lparr>inCount = inCount s + i, outCount = outCount s + o'\<rparr>))"

fun processIssues ::
  "RunEnv \<Rightarrow> Processor list \<Rightarrow> Shared \<Rightarrow> stats \<Rightarrow> Issue list \<Rightarrow> Issue list \<times> Processor list \<times> Shared \<times> stats" where
  "processIssues env [] sh st issues = (issues, [], sh, st)"
| "processIssues env (p # ps) sh st issues =
     (case Process env sh p issues of
        (Inl err, p', sh') \<Rightarrow>
          (let (os, ps', sh'', st') =
             processIssues env ps
               (setLog (shLog sh' @ [Warnf ''Can't process results by %s processor: %s'' [LStr (procName p)]]) sh') st issues
           in (os, p' # ps', sh'', st'))
      | (Inr newIssues, p', sh') \<Rightarrow>
          (let (os, ps', sh'', st') =
             processIssues env ps sh' (addStat (procName p) (int (length issues)) (int (length newIssues)) st) newIssues
           in (os, p' # ps', sh'', st')))"

definition processLintResults ::
  "RunEnv \<Rightarrow> Processor list \<Rightarrow> Shared \<Rightarrow> Issue list \<Rightarrow> Issue list \<times> Processor list \<times> Shared \<times> stats" where
  "processLintResults env ps sh inIssues =
     (let (outIssues, ps', sh', st) =
            (if length inIssues \<noteq> 0 then processIssues env ps sh Map.empty inIssues else ([], ps, sh, Map.empty));
          sh' = setLog (shLog sh' @ concat (map (Finish env) ps')) sh';
          sh' = (if length inIssues \<noteq> length outIssues
                 then setLog (shLog sh' @ [Infof ''Issues before processing: %d, after processing: %d''
                                             [LInt (int (length inIssues)), LInt (int (length outIssues))]]) sh'
                 else sh')
      in (outIssues, ps', sh', st))"

section \<open>Running the linters\<close>

datatype linter_outcome = Returned "Issue list" | ReturnedError string | PanicError string | OtherPanic string

record RunState =
  rsShared :: Shared
  rsClearedTypes :: "string list"
  rsErrors :: "string list"

definition logRun :: "log_call \<Rightarrow> RunState \<Rightarrow> RunState" where
  "logRun l rs = rs\<lparr>rsShared := setLog (shLog (rsShared rs) @ [l]) (rsShared rs)\<rparr>"

text \<open>A panic of the linter is an error; the types are then not cleared.\<close>

definition runLinterSafe ::
  "(LinterConfig \<Rightarrow> linter_outcome) \<Rightarrow> LinterConfig \<Rightarrow> RunState \<Rightarrow> (string + Issue list) \<times> RunState" where
  "runLinterSafe run lc rs =
     (let cleared = (if DoesChangeTypes lc then rs\<lparr>rsClearedTypes := rsClearedTypes rs @ [lcName lc]\<rparr> else rs) in
      case run lc of
        PanicError e \<Rightarrow> (Inl (lcName lc @ '': '' @ e), logRun (Errorf ''Panic: %s: %s'' [LStr e]) rs)
      | OtherPanic e \<Rightarrow> (Inl (''panic occurred: '' @ e), logRun (Errorf ''Panic stack trace: %s'' []) rs)
      | ReturnedError e \<Rightarrow> (Inl e, cleared)
      | Returned issues \<Rightarrow>
          (Inr (map (\<lambda>i. if FromLinter i = [] then i\<lparr>FromLinter := lcName lc\<rparr> else i) issues), cleared))"

fun runLinters ::
  "(LinterConfig \<Rightarrow> linter_outcome) \<Rightarrow> LinterConfig list \<Rightarrow> Issue list \<Rightarrow> RunState \<Rightarrow> Issue list \<times> RunState" where
  "runLinters run [] issues rs = (issues, rs)"
| "runLinters run (lc # lcs) issues rs =
     (case runLinterSafe run lc rs of
        (Inl err, rs') \<Rightarrow>
          runLinters run lcs issues
            (logRun (Warnf ''Can't run linter %s: %v'' [LStr (lcName lc), LStr err])
              (rs'\<lparr>rsErrors := rsErrors rs' @ [''can't run linter '' @ lcName lc, err]\<rparr>))
      | (Inr linterIssues, rs') \<Rightarrow> runLinters run lcs (issues @ linterIssues) rs')"

definition Runner_Run ::
  "RunEnv \<Rightarrow> (LinterConfig \<Rightarrow> linter_outcome) \<Rightarrow> Processor list \<Rightarrow> LinterConfig list \<Rightarrow> Shared \<Rightarrow>
   Issue list \<times> string list \<times> Shared" where
  "Runner_Run env run ps linters sh =
     (let (issues, rs) = runLinters run linters [] \<lparr>rsShared = sh, rsClearedTypes = [], rsErrors = []\<rparr>;
          (os, _, sh', _) = processLintResults env ps (rsShared rs) issues
      in (os, rsErrors rs, sh'))"

section \<open>The chain\<close>

text \<open>No processor adds issues; the facts come from the contracts that the processors satisfy.\<close>

lemmas processors_shrink = absoluter.shrinks cgo.shrinks unadjuster.shrinks invalidIssue.shrinks relativity.shrinks
  exclusionPaths.shrinks generated.shrinks exclusionRules.shrinks nolintFilter.shrinks diff.shrinks fixer.shrinks
  uniq_filter.shrinks perFile_filter.shrinks same_filter.shrinks fromLinter_filter.shrinks sourceCode.shrinks
  shortener.shrinks severity.shrinks prettifier.shrinks

lemma sort_shrinks:
  assumes "SortFunc_contract SortFunc" "SortResults_Process SortFunc p xs = (Inr os, p')"
  shows "length os \<le> length xs"
proof -
  obtain cmp where "os = SortFunc cmp xs"
    using assms(2) by (auto simp: SortResults_Process_def Let_def split: sum.splits)
  then have "mset os = mset xs" using assms(1) by (simp add: SortFunc_contract_def)
  then show ?thesis by (metis order_refl size_mset)
qed

lemma Process_shrinks:
  assumes "SortFunc_contract (envSort env)" "Process env sh p xs = (Inr os, p', sh')"
  shows "length os \<le> length xs"
  using assms by (cases p) (auto simp: Let_def split: prod.splits dest: processors_shrink sort_shrinks)

lemma processIssues_shrinks:
  assumes "SortFunc_contract (envSort env)"
  shows "length (fst (processIssues env ps sh st xs)) \<le> length xs"
proof (induction ps arbitrary: sh st xs)
  case (Cons p ps)
  obtain r p' sh' where r: "Process env sh p xs = (r, p', sh')" by (metis surj_pair)
  show ?case
  proof (cases r)
    case (Inl err)
    then show ?thesis using r Cons.IH by (simp add: case_prod_unfold Let_def)
  next
    case (Inr ys)
    then have "length ys \<le> length xs" using Process_shrinks [OF assms] r by simp
    moreover have "length (fst (processIssues env ps sh' st' ys)) \<le> length ys" for st' by (rule Cons.IH)
    ultimately show ?thesis using r Inr by (simp add: case_prod_unfold Let_def) (meson le_trans)
  qed
qed simp

section \<open>Type-checking errors\<close>

text \<open>A step that keeps the number of type-checking errors, whether it succeeds or fails.\<close>

abbreviation tcCount :: "Issue list \<Rightarrow> nat" where
  "tcCount xs \<equiv> length (filter is_typecheck xs)"

lemma tcCount_mset: "filter_mset is_typecheck (mset xs) = filter_mset is_typecheck (mset ys) \<Longrightarrow> tcCount xs = tcCount ys"
  by (metis mset_filter size_mset)

lemma transformIssues_tc:
  assumes "\<And>s i. \<exists>j. fst (f s i) = Some j \<and> FromLinter j = FromLinter i"
  shows "tcCount (fst (transformIssues f s xs)) = tcCount xs"
proof (induction xs arbitrary: s)
  case (Cons x xs)
  obtain j s1 where "f s x = (Some j, s1)" "FromLinter j = FromLinter x" using assms [of s x] by (metis prod.collapse)
  then show ?case using Cons.IH [of s1] by (simp add: case_prod_unfold Let_def)
qed simp

text \<open>A processor takes issues with \<open>P\<close> to issues with \<open>Q\<close>; when it fails, the issues are left as they are.\<close>

definition establishes :: "RunEnv \<Rightarrow> (Issue list \<Rightarrow> bool) \<Rightarrow> Processor \<Rightarrow> (Issue list \<Rightarrow> bool) \<Rightarrow> bool" where
  "establishes env P p Q \<longleftrightarrow>
     (\<forall>sh xs. P xs \<longrightarrow> (case fst (Process env sh p xs) of Inl _ \<Rightarrow> Q xs | Inr ys \<Rightarrow> Q ys))"

lemma chain_Cons:
  assumes "establishes env P p Q" "\<And>sh st xs. Q xs \<Longrightarrow> R (fst (processIssues env ps sh st xs))" "P xs"
  shows "R (fst (processIssues env (p # ps) sh st xs))"
proof -
  obtain r p' sh' where r: "Process env sh p xs = (r, p', sh')" by (metis surj_pair)
  have "case r of Inl _ \<Rightarrow> Q xs | Inr ys \<Rightarrow> Q ys" using assms(1,3) r unfolding establishes_def by (metis fst_conv)
  then show ?thesis using assms(2) r by (cases r) (simp_all add: case_prod_unfold Let_def)
qed

definition onlyTc :: "nat \<Rightarrow> Issue list \<Rightarrow> bool" where
  "onlyTc k xs \<longleftrightarrow> (\<forall>i \<in> set xs. is_typecheck i) \<and> length xs = k"

definition absTc :: "nat \<Rightarrow> Issue list \<Rightarrow> bool" where
  "absTc k xs \<longleftrightarrow> tcCount xs = k \<and> (\<forall>i \<in> set xs. FilepathIsAbs (FilePath i))"

lemma onlyTc_keep:
  assumes "onlyTc k xs" "mset os \<subseteq># mset xs" "filter_mset is_typecheck (mset os) = filter_mset is_typecheck (mset xs)"
  shows "onlyTc k os"
proof -
  have "\<forall>i \<in> set os. is_typecheck i" using assms(1,2) by (metis mset_subset_eqD onlyTc_def set_mset_mset)
  moreover have "tcCount os = tcCount xs" by (rule tcCount_mset [OF assms(3)])
  ultimately show ?thesis using assms(1) by (simp add: onlyTc_def filter_id_conv [THEN iffD2])
qed

lemma transformIssues_all:
  assumes "\<And>s i j. i \<in> set xs \<Longrightarrow> fst (f s i) = Some j \<Longrightarrow> P j"
  shows "\<forall>j \<in> set (fst (transformIssues f s xs)). P j"
  using assms
proof (induction xs arbitrary: s)
  case (Cons x xs)
  have "\<forall>j \<in> set (fst (transformIssues f (snd (f s x)) xs)). P j" by (rule Cons.IH) (use Cons.prems in auto)
  then show ?case
    using Cons.prems [of x s] by (auto simp: case_prod_unfold Let_def split: option.splits)
qed simp

lemma absoluter_step:
  assumes "envWd env = Inr wd" "FilepathIsAbs wd"
  shows "establishes env (\<lambda>xs. tcCount xs = k) PathAbsoluterP (absTc k)"
proof -
  let ?f = "PathAbsoluter_transform (Inr wd)"
  have "\<exists>j. fst (?f s i) = Some j \<and> FromLinter j = FromLinter i" for s i
    by (auto simp: PathAbsoluter_transform_def FilepathAbs_def)
  moreover have "FilepathIsAbs (FilePath j)" if "fst (?f s i) = Some j" for s i j
    using that FilepathAbs_IsAbs [OF assms(2), of "FilePath i"]
    by (auto simp: PathAbsoluter_transform_def FilePath_def split: if_splits sum.splits)
  ultimately have "tcCount (fst (transformIssues ?f s xs)) = tcCount xs"
    "\<forall>j \<in> set (fst (transformIssues ?f s xs)). FilepathIsAbs (FilePath j)" for s xs
    by (intro transformIssues_tc transformIssues_all; blast)+
  then show ?thesis
    by (simp add: establishes_def absTc_def PathAbsoluter_Process_def assms(1) case_prod_unfold Let_def)
qed

lemma cgo_step: "establishes env (absTc k) (CgoP p) (absTc k)"
proof -
  have "absTc k ys" if "absTc k xs" "Cgo_Process p xs = (Inr ys, p')" for xs ys p'
    using that tcCount_mset [OF cgo.keeps_typecheck [OF that(2)]] cgo.selects_member [OF that(2)]
    by (auto simp: absTc_def)
  then show ?thesis
    by (auto simp: establishes_def case_prod_unfold Let_def split: sum.split) (metis prod.collapse)
qed

text \<open>The mappers of an unadjuster give absolute paths.\<close>

definition absMappers :: "FilenameUnadjuster \<Rightarrow> bool" where
  "absMappers p \<longleftrightarrow> (\<forall>file mapper pos. unadjusterMap p file = Some mapper \<longrightarrow> FilepathIsAbs (Filename pos) \<longrightarrow>
     FilepathIsAbs (Filename (fst (mapper pos))))"

lemma unadjuster_step:
  assumes "absMappers p"
  shows "establishes env (absTc k) (FilenameUnadjusterP p) (absTc k)"
proof -
  let ?Q = "\<lambda>q. unadjusterMap q = unadjusterMap p"
  have keep: "?Q (snd (FilenameUnadjuster_transform q i))" if "?Q q" for q i
    using that by (auto simp: FilenameUnadjuster_transform_def case_prod_unfold Let_def split: option.split)
  have tc: "\<exists>j. fst (FilenameUnadjuster_transform q i) = Some j \<and> FromLinter j = FromLinter i" for q i
    by (auto simp: FilenameUnadjuster_transform_def case_prod_unfold Let_def split: option.split)
  have "?Q q \<Longrightarrow> \<forall>i \<in> set xs. FilepathIsAbs (FilePath i) \<Longrightarrow>
      \<forall>j \<in> set (fst (transformIssues FilenameUnadjuster_transform q xs)). FilepathIsAbs (FilePath j)" for q xs
  proof (induction xs arbitrary: q)
    case (Cons x xs)
    have "\<forall>j \<in> set (fst (transformIssues FilenameUnadjuster_transform (snd (FilenameUnadjuster_transform q x)) xs)).
        FilepathIsAbs (FilePath j)"
      by (intro Cons.IH keep) (use Cons.prems in simp_all)
    moreover have "FilepathIsAbs (FilePath j)" if "fst (FilenameUnadjuster_transform q x) = Some j" for j
      using that Cons.prems assms
      by (cases "unadjusterMap p (FilePath x)")
         (auto simp: FilenameUnadjuster_transform_def absMappers_def FilePath_def case_prod_unfold Let_def)
    ultimately show ?case by (auto simp: case_prod_unfold Let_def split: option.splits)
  qed simp
  note abs = this [of p, OF refl]
  show ?thesis
    using transformIssues_tc [of FilenameUnadjuster_transform, OF tc] abs
    by (auto simp: establishes_def absTc_def FilenameUnadjuster_Process_def case_prod_unfold Let_def)
qed

lemma invalid_step: "k > 0 \<Longrightarrow> establishes env (absTc k) InvalidIssueP (\<lambda>xs. onlyTc k xs \<and> absTc k xs)"
proof -
  assume k: "k > 0"
  have "InvalidIssue_Process log xs = (Inr (filter is_typecheck xs), log)" if "absTc k xs" for log xs
  proof -
    have "filter is_typecheck xs \<noteq> []" using that k by (auto simp: absTc_def)
    then show ?thesis by (auto simp: InvalidIssue_Process_cases filter_empty_conv)
  qed
  then show ?thesis by (auto simp: establishes_def onlyTc_def absTc_def)
qed

lemma relativity_step:
  assumes "FilepathIsAbs (basePath p)" "FilepathIsAbs (workingDirectory p)"
  shows "establishes env (\<lambda>xs. onlyTc k xs \<and> absTc k xs) (PathRelativityP p) (onlyTc k)"
proof -
  have step: "\<exists>j. PathRelativity_transform p i = (Some j, p) \<and> FromLinter j = FromLinter i" if "FilepathIsAbs (FilePath i)" for i
    using Rel_total [OF assms(1) that] Rel_total [OF assms(2) that] by (auto simp: PathRelativity_transform_def)
  have names: "\<forall>i \<in> set xs. FilepathIsAbs (FilePath i) \<Longrightarrow>
      map FromLinter (fst (transformIssues PathRelativity_transform p xs)) = map FromLinter xs" for xs
  proof (induction xs)
    case (Cons x xs)
    then obtain j where "PathRelativity_transform p x = (Some j, p)" "FromLinter j = FromLinter x"
      using step [of x] by auto
    then show ?case using Cons by (simp add: case_prod_unfold Let_def)
  qed simp
  have only: "onlyTc k ys \<longleftrightarrow> onlyTc k xs" if "map FromLinter ys = map FromLinter xs" for xs ys
  proof -
    have "onlyTc k zs \<longleftrightarrow> (\<forall>l \<in> set (map FromLinter zs). l = typeCheckName) \<and> length (map FromLinter zs) = k" for zs
      by (simp add: onlyTc_def)
    then show ?thesis using that by presburger
  qed
  have "onlyTc k (fst (transformIssues PathRelativity_transform p xs))" if "onlyTc k xs \<and> absTc k xs" for xs
    using only [OF names] that by (simp add: absTc_def)
  then show ?thesis
    unfolding establishes_def by (simp add: PathRelativity_Process_def case_prod_unfold Let_def)
qed

text \<open>Once only type-checking errors are left, the filters before the fixer keep them all.\<close>

lemma safe_step:
  assumes "\<And>sh xs ys p' sh'. Process env sh p xs = (Inr ys, p', sh') \<Longrightarrow>
      mset ys \<subseteq># mset xs \<and> filter_mset is_typecheck (mset ys) = filter_mset is_typecheck (mset xs)"
  shows "establishes env (onlyTc k) p (onlyTc k)"
  unfolding establishes_def
proof (intro allI impI)
  fix sh xs assume xs: "onlyTc k xs"
  obtain r p' sh' where r: "Process env sh p xs = (r, p', sh')" by (metis surj_pair)
  show "case fst (Process env sh p xs) of Inl _ \<Rightarrow> onlyTc k xs | Inr ys \<Rightarrow> onlyTc k ys"
  proof (cases r)
    case (Inr ys)
    then show ?thesis using onlyTc_keep [OF xs] assms [OF r [unfolded Inr]] r by simp
  qed (use xs r in simp)
qed

lemma filter_steps:
  "establishes env (onlyTc k) (ExclusionPathsP p1) (onlyTc k)"
  "establishes env (onlyTc k) (GeneratedFileFilterP p2) (onlyTc k)"
  "establishes env (onlyTc k) (ExclusionRulesP p3) (onlyTc k)"
  "establishes env (onlyTc k) (NolintFilterP p4) (onlyTc k)"
proof -
  show "establishes env (onlyTc k) (ExclusionPathsP p1) (onlyTc k)"
    by (rule safe_step)
       (auto simp: Let_def split: prod.splits dest: exclusionPaths.selects exclusionPaths.keeps_typecheck)
  show "establishes env (onlyTc k) (GeneratedFileFilterP p2) (onlyTc k)"
    by (rule safe_step) (auto simp: Let_def split: prod.splits dest: generated.selects generated.keeps_typecheck)
  show "establishes env (onlyTc k) (ExclusionRulesP p3) (onlyTc k)"
    by (rule safe_step)
       (auto simp: Let_def split: prod.splits dest: exclusionRules.selects exclusionRules.keeps_typecheck)
  show "establishes env (onlyTc k) (NolintFilterP p4) (onlyTc k)"
    by (rule safe_step) (auto simp: Let_def split: prod.splits dest: nolintFilter.selects nolintFilter.keeps_typecheck)
qed

lemma diff_step: "establishes env (onlyTc k) DiffP (onlyTc k)"
proof -
  have "transformIssues (Diff_transform chk) s xs = (xs, s)" if "\<forall>i \<in> set xs. is_typecheck i" for chk s xs
    using that by (induction xs) (auto simp: Diff_transform_def)
  then show ?thesis
    by (auto simp: establishes_def onlyTc_def Diff_Process_def case_prod_unfold Let_def split: sum.split option.split)
qed

lemma NewRunner_head:
  assumes "NewRunner d cfg = Inr ps"
  obtains wd pr p1 p3 where "depWd d = Inr wd" "NewPathRelativity (Inr wd) (cfgBasePath cfg) = Inr pr"
    "take 10 ps = [PathAbsoluterP, CgoP \<lparr>goCacheDir = depGoCache d\<rparr>,
       FilenameUnadjusterP (NewFilenameUnadjuster (depParse d) (depFiles d)), InvalidIssueP, PathRelativityP pr,
       ExclusionPathsP p1, GeneratedFileFilterP (NewGeneratedFileFilter (Generated (cfgExclusions cfg))),
       ExclusionRulesP p3, NolintFilterP NewNolintFilter, DiffP]"
proof -
  obtain pr where pr: "NewPathRelativity (depWd d) (cfgBasePath cfg) = Inr pr"
    using assms by (auto simp: NewRunner_def split: sum.splits)
  then obtain wd where wd: "depWd d = Inr wd" by (auto simp: NewPathRelativity_def split: sum.splits)
  obtain p1 where p1: "NewExclusionPaths (depReOK d) (cfgExclusions cfg) = Inr p1"
    using assms by (auto simp: NewRunner_def split: sum.splits)
  obtain en where en: "depEnabled d = Inr en"
    using assms pr p1 by (cases "depEnabled d") (auto simp: NewRunner_def)
  obtain p3 where p3: "NewExclusionRules (depReOK d) (depQuote d) (cfgExclusions cfg) = Some p3"
    using assms pr p1 en by (auto simp: NewRunner_def split: sum.splits option.splits if_splits)
  show thesis
    by (rule that [of wd pr p1 p3])
       (use assms pr p1 en p3 wd in \<open>auto simp: NewRunner_def split: sum.splits option.splits if_splits\<close>)
qed

lemma NewFilenameUnadjuster_abs:
  assumes "\<And>f pf at off. parse f = Some pf \<Longrightarrow> unadjustedAt pf = Some at \<Longrightarrow> FilepathIsAbs (Filename (at off))"
  shows "absMappers (NewFilenameUnadjuster parse order)"
proof -
  define ok :: "adjustMap \<Rightarrow> bool" where
    "ok m \<longleftrightarrow> (\<forall>file mapper pos. m file = Some mapper \<longrightarrow> FilepathIsAbs (Filename pos) \<longrightarrow>
     FilepathIsAbs (Filename (fst (mapper pos))))" for m
  have step: "ok (processUnadjusterFile parse f m)" if "ok m" for f m
  proof (cases "parse f")
    case (Some pf)
    define g :: posMapper where "g = (\<lambda>adjustedPos. case unadjustedAt pf of
        None \<Rightarrow> (adjustedPos, [Warnf ''Failed to get token file for %s'' [LStr (adjustedName pf)]])
      | Some positionFor \<Rightarrow> (positionFor (Offset adjustedPos), []))"
    have "processUnadjusterFile parse f m = m \<or> processUnadjusterFile parse f m = m(adjustedName pf \<mapsto> g)"
      by (simp add: processUnadjusterFile_def Some g_def)
    moreover have "FilepathIsAbs (Filename (fst (g pos)))" if "FilepathIsAbs (Filename pos)" for pos
      using that assms [OF Some] by (cases "unadjustedAt pf") (simp_all add: g_def)
    ultimately show ?thesis using that by (elim disjE) (simp_all add: ok_def)
  qed (use that in \<open>simp add: processUnadjusterFile_def\<close>)
  have "ok m \<Longrightarrow> ok (fold (processUnadjusterFile parse) order m)" for m
    by (induction order arbitrary: m) (simp_all add: step)
  moreover have "ok Map.empty" by (simp add: ok_def)
  ultimately have "ok (fold (processUnadjusterFile parse) order Map.empty)" by blast
  then show ?thesis unfolding ok_def absMappers_def by (simp add: NewFilenameUnadjuster_def Let_def)
qed

text \<open>What running the linters collects.\<close>

definition named_issues :: "LinterConfig \<Rightarrow> Issue list \<Rightarrow> Issue list" where
  "named_issues lc issues = map (\<lambda>i. if FromLinter i = [] then i\<lparr>FromLinter := lcName lc\<rparr> else i) issues"

lemma runLinters_collects:
  "fst (runLinters run lcs acc rs) =
     acc @ concat (map (\<lambda>lc. case run lc of Returned issues \<Rightarrow> named_issues lc issues | _ \<Rightarrow> []) lcs)"
  by (induction lcs arbitrary: acc rs)
     (auto simp: runLinterSafe_def named_issues_def Let_def split: linter_outcome.splits)

lemma runLinters_errors:
  "rsErrors (snd (runLinters run lcs acc rs)) = rsErrors rs @
     concat (map (\<lambda>lc. case run lc of
         Returned issues \<Rightarrow> []
       | ReturnedError e \<Rightarrow> [''can't run linter '' @ lcName lc, e]
       | PanicError e \<Rightarrow> [''can't run linter '' @ lcName lc, lcName lc @ '': '' @ e]
       | OtherPanic e \<Rightarrow> [''can't run linter '' @ lcName lc, ''panic occurred: '' @ e]) lcs)"
  by (induction lcs arbitrary: acc rs)
     (auto simp: runLinterSafe_def logRun_def Let_def split: linter_outcome.splits)

text \<open>What a failing linter leaves in the log; nothing else of the shared state changes before the processors run.\<close>

definition failureLog :: "LinterConfig \<Rightarrow> linter_outcome \<Rightarrow> log_call list" where
  "failureLog lc r = (case r of
       Returned issues \<Rightarrow> []
     | ReturnedError e \<Rightarrow> [Warnf ''Can't run linter %s: %v'' [LStr (lcName lc), LStr e]]
     | PanicError e \<Rightarrow> [Errorf ''Panic: %s: %s'' [LStr e],
         Warnf ''Can't run linter %s: %v'' [LStr (lcName lc), LStr (lcName lc @ '': '' @ e)]]
     | OtherPanic e \<Rightarrow> [Errorf ''Panic stack trace: %s'' [],
         Warnf ''Can't run linter %s: %v'' [LStr (lcName lc), LStr (''panic occurred: '' @ e)]])"

lemma setLog_simps [simp]: "shLog (setLog l sh) = l" "setLog l (setLog k sh) = setLog l sh" "setLog (shLog sh) sh = sh"
  by (simp_all add: setLog_def)

lemma runLinters_shared:
  "rsShared (snd (runLinters run lcs acc rs)) =
     setLog (shLog (rsShared rs) @ concat (map (\<lambda>lc. failureLog lc (run lc)) lcs)) (rsShared rs)"
  by (induction lcs arbitrary: acc rs)
     (auto simp: runLinterSafe_def logRun_def failureLog_def Let_def split: linter_outcome.splits)

section \<open>Properties\<close>

text \<open>C8: A failing linter affects no other: the errors of a run are, in the order of the linters, exactly those of the
  linters that failed or panicked; and the processors get, in the same order, every issue that the other linters returned, with the
  name of its linter where it had none, so that the result is what they make of these issues in the shared state in which only
  the log has grown, by the calls of the failed linters. There are at most as many issues in the result, whatever
  the processors, their states and their failures, and without processors the result is exactly these issues.\<close>

theorem runner_isolates_failures:
  assumes "SortFunc_contract (envSort env)" "Runner_Run env run ps linters sh = (os, errs, sh')"
  defines "found \<equiv> concat (map (\<lambda>lc. case run lc of
         Returned issues \<Rightarrow> map (\<lambda>i. if FromLinter i = [] then i\<lparr>FromLinter := lcName lc\<rparr> else i) issues
       | _ \<Rightarrow> []) linters)"
    and "warned \<equiv> concat (map (\<lambda>lc. case run lc of
         Returned issues \<Rightarrow> []
       | ReturnedError e \<Rightarrow> [Warnf ''Can't run linter %s: %v'' [LStr (lcName lc), LStr e]]
       | PanicError e \<Rightarrow> [Errorf ''Panic: %s: %s'' [LStr e],
           Warnf ''Can't run linter %s: %v'' [LStr (lcName lc), LStr (lcName lc @ '': '' @ e)]]
       | OtherPanic e \<Rightarrow> [Errorf ''Panic stack trace: %s'' [],
           Warnf ''Can't run linter %s: %v'' [LStr (lcName lc), LStr (''panic occurred: '' @ e)]]) linters)"
  shows "(\<exists>ps' st. processLintResults env ps (setLog (shLog sh @ warned) sh) found = (os, ps', sh', st)) \<and>
    length os \<le> length found \<and> (ps = [] \<longrightarrow> os = found) \<and>
    errs = concat (map (\<lambda>lc. case run lc of
         Returned issues \<Rightarrow> []
       | ReturnedError e \<Rightarrow> [''can't run linter '' @ lcName lc, e]
       | PanicError e \<Rightarrow> [''can't run linter '' @ lcName lc, lcName lc @ '': '' @ e]
       | OtherPanic e \<Rightarrow> [''can't run linter '' @ lcName lc, ''panic occurred: '' @ e]) linters)"
proof -
  let ?rs = "\<lparr>rsShared = sh, rsClearedTypes = [], rsErrors = []\<rparr>" and ?sh = "setLog (shLog sh @ warned) sh"
  have issues: "fst (runLinters run linters [] ?rs) = found"
    unfolding runLinters_collects named_issues_def found_def by simp
  have shared: "rsShared (snd (runLinters run linters [] ?rs)) = ?sh"
    unfolding runLinters_shared warned_def failureLog_def by simp
  have run: "os = fst (processLintResults env ps ?sh found)" "sh' = fst (snd (snd (processLintResults env ps ?sh found)))"
    "errs = rsErrors (snd (runLinters run linters [] ?rs))"
    using assms(2) issues shared by (auto simp: Runner_Run_def case_prod_unfold Let_def)
  have "length os \<le> length found"
    using processIssues_shrinks [OF assms(1), of ps ?sh Map.empty found] run(1)
    by (simp add: processLintResults_def case_prod_unfold Let_def)
  moreover have "os = found" if "ps = []"
    using run(1) that by (cases found) (simp_all add: processLintResults_def case_prod_unfold Let_def)
  moreover have "\<exists>ps' st. processLintResults env ps ?sh found = (os, ps', sh', st)"
    using run(1,2) by (cases "processLintResults env ps ?sh found") auto
  ultimately show ?thesis using run(3) by (simp add: runLinters_errors)
qed

text \<open>An environment for concrete runs.\<close>

definition exampleRunEnv :: RunEnv where
  "exampleRunEnv =
     \<lparr>envWd = Inr ''/w'', envMatch = (=), envQuote = id,
      envNolint = \<lparr>parseFile = (\<lambda>_. None), lcNames = (\<lambda>_. []), enabledLinters = (\<lambda>_. False), toLower = id, trimSpace = id\<rparr>,
      envGen = \<lparr>parseHeader = (\<lambda>_. Inl ''no file''), lower = id, trimWs = id\<rparr>,
      envDiff = \<lparr>getenvPatch = [], readFile = Inl, prepareChecker = (\<lambda>_. Inl [])\<rparr>,
      envDiffCfg = (0, \<lparr>cfgDiff = False, DiffFromRevision = [], DiffFromMergeBase = [], DiffPatchFilePath = [], WholeFiles = False\<rparr>),
      envFix = \<lparr>fixKeys = (\<lambda>_ _ A. sorted_list_of_set A), formatFile = (\<lambda>_ out log. (out, log)), writeError = (\<lambda>_ _ _. None)\<rparr>,
      envNeedFix = False,
      envSort = (\<lambda>cmp xs. stable_sort (\<lambda>a b. cmp a b < 0) xs),
      envSortSlice = stable_sort, envKeys = (\<lambda>_ _ A. sorted_list_of_set A), envPatternKeys = (\<lambda>_ A. sorted_list_of_set A)\<rparr>"

definition exampleShared :: Shared where
  "exampleShared = \<lparr>shFix = \<lparr>fixFiles = Map.empty, fixCaches = NewLineCache NewFileCache, fixLog = [], fixErrors = [],
     formattedFiles = []\<rparr>, shDiffs = Map.empty\<rparr>"

theorem runner_isolates_failures_witness:
  "\<exists>sh'. Runner_Run exampleRunEnv
      (\<lambda>lc. if lcName lc = ''bad'' then OtherPanic ''nil'' else Returned [mkIssue [] ''t'' ''/w/a.go'' 1]) []
      [NewConfig (OtherLinter ''first''), NewConfig (OtherLinter ''bad''), NewConfig (OtherLinter ''last'')] exampleShared =
      ([mkIssue ''first'' ''t'' ''/w/a.go'' 1, mkIssue ''last'' ''t'' ''/w/a.go'' 1],
       [''can't run linter bad'', ''panic occurred: nil''], sh')"
proof -
  let ?run = "\<lambda>lc. if lcName lc = ''bad'' then OtherPanic ''nil'' else Returned [mkIssue [] ''t'' ''/w/a.go'' 1]"
  let ?ls = "[NewConfig (OtherLinter ''first''), NewConfig (OtherLinter ''bad''), NewConfig (OtherLinter ''last'')]"
  have env: "SortFunc_contract (envSort exampleRunEnv)" using stable_sort_contract by (simp add: exampleRunEnv_def)
  obtain os errs sh' where r: "Runner_Run exampleRunEnv ?run [] ?ls exampleShared = (os, errs, sh')"
    by (metis surj_pair)
  have names: "lcName (NewConfig (OtherLinter n)) = n" for n by (simp add: NewConfig_def WithLoadFiles_def lcName_def)
  show ?thesis
    using runner_isolates_failures [OF env r] r by (auto simp: names mkIssue_def)
qed

text \<open>C1: With absolute base path and working directory, and a parser that knows absolute positions, as soon as one issue
  is a type-checking error, the processors of a runner up to the one for new code leave exactly the type-checking
  errors, all of them: neither exclusions, nor generated files, nor directives, nor the restriction to new code hide one.\<close>

theorem typecheck_errors_survive_filters:
  assumes "NewRunner d cfg = Inr ps" "envWd env = depWd d"
    and "\<forall>wd. depWd d = Inr wd \<longrightarrow> FilepathIsAbs wd" "FilepathIsAbs (cfgBasePath cfg)"
    and "\<forall>f pf at off. depParse d f = Some pf \<longrightarrow> unadjustedAt pf = Some at \<longrightarrow> FilepathIsAbs (Filename (at off))"
    and "\<exists>i \<in> set issues. is_typecheck i"
  shows "(\<forall>i \<in> set (fst (processIssues env (take 10 ps) sh st issues)). is_typecheck i) \<and>
    length (fst (processIssues env (take 10 ps) sh st issues)) = length (filter is_typecheck issues)"
proof -
  define k where "k = tcCount issues"
  have k: "k > 0" using assms(6) by (auto simp: k_def filter_empty_conv)
  obtain wd pr p1 p3 where wd: "depWd d = Inr wd" and pr: "NewPathRelativity (Inr wd) (cfgBasePath cfg) = Inr pr"
    and ps: "take 10 ps = [PathAbsoluterP, CgoP \<lparr>goCacheDir = depGoCache d\<rparr>,
       FilenameUnadjusterP (NewFilenameUnadjuster (depParse d) (depFiles d)), InvalidIssueP, PathRelativityP pr,
       ExclusionPathsP p1, GeneratedFileFilterP (NewGeneratedFileFilter (Generated (cfgExclusions cfg))),
       ExclusionRulesP p3, NolintFilterP NewNolintFilter, DiffP]"
    by (rule NewRunner_head [OF assms(1)])
  have abs: "FilepathIsAbs wd" using assms(3) wd by simp
  have rel: "FilepathIsAbs (basePath pr)" "FilepathIsAbs (workingDirectory pr)"
    using pr assms(4) abs by (auto simp: NewPathRelativity_def)
  have un: "absMappers (NewFilenameUnadjuster (depParse d) (depFiles d))"
    by (rule NewFilenameUnadjuster_abs) (use assms(5) in blast)
  have "onlyTc k (fst (processIssues env (take 10 ps) sh st issues))"
    unfolding ps
    by (rule chain_Cons [OF absoluter_step [OF assms(2) [unfolded wd] abs]],
        rule chain_Cons [OF cgo_step], rule chain_Cons [OF unadjuster_step [OF un]],
        rule chain_Cons [OF invalid_step [OF k]], rule chain_Cons [OF relativity_step [OF rel]],
        rule chain_Cons [OF filter_steps(1)], rule chain_Cons [OF filter_steps(2)],
        rule chain_Cons [OF filter_steps(3)], rule chain_Cons [OF filter_steps(4)],
        rule chain_Cons [OF diff_step]) (simp_all add: k_def)
  then show ?thesis by (simp add: onlyTc_def k_def)
qed

definition exampleDeps :: RunnerDeps where
  "exampleDeps =
     \<lparr>depWd = Inr ''/w'', depReOK = (\<lambda>_. True), depQuote = id,
      depEnabled = Inr [''lll'' \<mapsto> NewConfig (OtherLinter ''lll'')],
      depFmt = (\<lambda>n. \<lparr>fmtName = n, fmtFormat = (\<lambda>_ data. Inr data)\<rparr>), depGci = Inl [], depKeys = (\<lambda>_ _ A. sorted_list_of_set A),
      depGoCache = [], depParse = (\<lambda>_. None), depFiles = []\<rparr>"

definition exampleRunnerCfg :: RunnerCfg where
  "exampleRunnerCfg =
     \<lparr>cfgBasePath = ''/w'', cfgExclusions = \<lparr>Generated = ''lax'', WarnUnused = False, Presets = [], ExclRules = [], Paths = [],
        PathsExcept = []\<rparr>, cfgUniqByLine = False, cfgNeedFix = False, cfgMaxSameIssues = 0, cfgMaxIssuesPerLinter = 0,
      cfgSeverity = \<lparr>DefaultSeverity = [], SeverityRules = []\<rparr>, cfgPathMode = [], cfgPathPrefix = [], cfgSortOrder = []\<rparr>"

lemma exampleRunner: "\<exists>ps. NewRunner exampleDeps exampleRunnerCfg = Inr ps"
  by (simp add: NewRunner_def exampleDeps_def exampleRunnerCfg_def NewPathRelativity_def NewExclusionPaths_def
      NewMetaFormatter_def NewExclusionRules_def NewPathShortener_def NewSeverity_def getLinterExclusionPresets_def
      IsFormatter_def gofmtName_def gofumptName_def goimportsName_def gciName_def golinesName_def swaggoName_def)

theorem typecheck_errors_survive_filters_witness:
  "\<exists>ps. NewRunner exampleDeps exampleRunnerCfg = Inr ps \<and>
     length (fst (processIssues exampleRunEnv (take 10 ps) exampleShared Map.empty
       [mkIssue ''typecheck'' ''undefined: x'' ''/w/a.go'' 1, mkIssue ''lll'' ''long'' ''/w/a.go'' 2])) = 1"
proof -
  obtain ps where ps: "NewRunner exampleDeps exampleRunnerCfg = Inr ps" using exampleRunner by blast
  let ?is = "[mkIssue ''typecheck'' ''undefined: x'' ''/w/a.go'' 1, mkIssue ''lll'' ''long'' ''/w/a.go'' 2]"
  have "length (fst (processIssues exampleRunEnv (take 10 ps) exampleShared Map.empty ?is)) = length (filter is_typecheck ?is)"
    using typecheck_errors_survive_filters [OF ps, of exampleRunEnv ?is exampleShared Map.empty]
    by (simp add: exampleRunEnv_def exampleDeps_def exampleRunnerCfg_def FilepathIsAbs_def HasPrefix_def mkIssue_def typeCheckName_def)
  then show ?thesis using ps by (simp add: mkIssue_def typeCheckName_def)
qed

end
