(* ===== verification/Action_Scheduler.thy ===== *)
theory Action_Scheduler
  imports Go_Prelude
begin

text \<open>
  The scheduler of analysis actions (\<open>pkg/goanalysis/action_scheduler.go\<close>): the actions of a package
  run on a pool of workers, each after the actions of the same package it depends on; the first error or
  a cancellation stops the launching of further actions.

  The executor is one goroutine at one of the control points \<open>Loop\<close> (the condition of \<open>run\<close>), \<open>Head\<close>
  and \<open>Select\<close> (the loop of \<open>launchReady\<close>), \<open>Wait\<close> and \<open>Check\<close> (the receive of \<open>run\<close> and the test of the
  context after it) and \<open>Done\<close>; its steps
  interleave with those of the workers, which finish an action with any outcome, and with the
  cancellation of the context. Channels: \<open>executing\<close> holds the actions that workers have taken,
  \<open>channel\<close> the results in \<open>completedCh\<close>, whose capacity is the number of actions, so that sending to
  it never blocks. \<open>started\<close> and \<open>finished\<close> record the history. Durations and metrics are left out.
\<close>

section \<open>Model\<close>

record Graph =
  actions :: "nat list"
  Deps :: "nat \<Rightarrow> nat list"
  Package :: "nat \<Rightarrow> nat"

type_synonym actionResult = "nat \<times> string option"

datatype control = Loop | Head | Select | Wait | Check | Done

record actionGraphExecutor =
  remainingDeps :: "nat \<Rightarrow> int"
  dependents :: "nat \<Rightarrow> nat list"
  ready :: "nat list"
  executing :: "nat list"
  channel :: "actionResult list"
  firstErr :: "string option"
  running :: int
  completed :: int
  stopped :: bool
  cancelled :: bool
  parentCancelled :: bool
  control :: control
  started :: "nat list"
  finished :: "actionResult list"

definition emptyExecutor :: actionGraphExecutor where
  "emptyExecutor = \<lparr>remainingDeps = (\<lambda>_. 0), dependents = (\<lambda>_. []), ready = [], executing = [], channel = [],
     firstErr = None, running = 0, completed = 0, stopped = False, cancelled = False, parentCancelled = False,
     control = Loop, started = [], finished = []\<rparr>"

text \<open>Reading the dependencies of one action.\<close>

definition addDep :: "Graph \<Rightarrow> nat \<Rightarrow> nat \<Rightarrow> actionGraphExecutor \<Rightarrow> actionGraphExecutor" where
  "addDep g act dep e =
     (if Package g dep \<noteq> Package g act then e
      else e\<lparr>remainingDeps := (remainingDeps e)(act := remainingDeps e act + 1),
             dependents := (dependents e)(dep := dependents e dep @ [act])\<rparr>)"

definition addAction :: "Graph \<Rightarrow> nat \<Rightarrow> actionGraphExecutor \<Rightarrow> actionGraphExecutor" where
  "addAction g act e =
     (let e = fold (addDep g act) (Deps g act) e
      in if remainingDeps e act = 0 then e\<lparr>ready := ready e @ [act]\<rparr> else e)"

definition buildGraph :: "Graph \<Rightarrow> actionGraphExecutor" where
  "buildGraph g = fold (addAction g) (actions g) emptyExecutor"

text \<open>Releasing one dependent of a finished action.\<close>

definition release :: "nat \<Rightarrow> actionGraphExecutor \<Rightarrow> actionGraphExecutor" where
  "release dependent e =
     (let e = e\<lparr>remainingDeps := (remainingDeps e)(dependent := remainingDeps e dependent - 1)\<rparr>
      in if remainingDeps e dependent \<noteq> 0 then e else e\<lparr>ready := ready e @ [dependent]\<rparr>)"

definition complete :: "actionResult \<Rightarrow> actionGraphExecutor \<Rightarrow> actionGraphExecutor" where
  "complete result e =
     (let e = e\<lparr>running := running e - 1, completed := completed e + 1, finished := finished e @ [result]\<rparr>;
          e = (if snd result \<noteq> None \<and> firstErr e = None then e\<lparr>firstErr := snd result, cancelled := True\<rparr> else e)
      in if cancelled e then e else fold release (dependents e (fst result)) e)"

text \<open>The steps; \<open>size'\<close> is the number of workers.\<close>

inductive step :: "nat \<Rightarrow> actionGraphExecutor \<Rightarrow> actionGraphExecutor \<Rightarrow> bool" for size' where
  loop: "control e = Loop \<Longrightarrow> step size' e (e\<lparr>control := (if ready e \<noteq> [] \<or> running e > 0 then Head else Done)\<rparr>)"
| head_exit: "control e = Head \<Longrightarrow> stopped e \<or> ready e = [] \<Longrightarrow>
    step size' e (e\<lparr>control := (if running e = 0 then Done else Wait)\<rparr>)"
| head_cancelled: "control e = Head \<Longrightarrow> \<not> stopped e \<Longrightarrow> ready e \<noteq> [] \<Longrightarrow> cancelled e \<Longrightarrow>
    step size' e (e\<lparr>stopped := True, control := (if running e = 0 then Done else Wait)\<rparr>)"
| head_select: "control e = Head \<Longrightarrow> \<not> stopped e \<Longrightarrow> ready e \<noteq> [] \<Longrightarrow> \<not> cancelled e \<Longrightarrow>
    step size' e (e\<lparr>control := Select\<rparr>)"
| select_launch: "control e = Select \<Longrightarrow> ready e = act # acts \<Longrightarrow> length (executing e) < size' \<Longrightarrow>
    step size' e (e\<lparr>ready := acts, running := running e + 1, executing := executing e @ [act],
      started := started e @ [act], control := Head\<rparr>)"
| select_complete: "control e = Select \<Longrightarrow> channel e = result # results \<Longrightarrow>
    step size' e ((complete result (e\<lparr>channel := results\<rparr>))\<lparr>control := Head\<rparr>)"
| select_done: "control e = Select \<Longrightarrow> cancelled e \<Longrightarrow> step size' e (e\<lparr>stopped := True, control := Head\<rparr>)"
| wait_complete: "control e = Wait \<Longrightarrow> channel e = result # results \<Longrightarrow>
    step size' e ((complete result (e\<lparr>channel := results\<rparr>))\<lparr>control := Check\<rparr>)"
| check: "control e = Check \<Longrightarrow> step size' e (e\<lparr>stopped := stopped e \<or> cancelled e, control := Loop\<rparr>)"
| worker: "executing e = xs @ act # ys \<Longrightarrow> step size' e (e\<lparr>executing := xs @ ys, channel := channel e @ [(act, err)]\<rparr>)"
| cancel: "\<not> parentCancelled e \<Longrightarrow> step size' e (e\<lparr>cancelled := True, parentCancelled := True\<rparr>)"

inductive_cases stepE: "step size' e e'"

text \<open>What \<open>run\<close> returns at the end: the number of unschedulable actions stands for the error text.\<close>

datatype run_result = NoError | FirstError "string option" | Unschedulable int

definition runResult :: "Graph \<Rightarrow> actionGraphExecutor \<Rightarrow> run_result" where
  "runResult g e =
     (if firstErr e \<noteq> None \<or> parentCancelled e then FirstError (firstErr e)
      else if completed e = int (length (actions g)) then NoError
      else Unschedulable (int (length (actions g)) - completed e))"

inductive reachable :: "Graph \<Rightarrow> nat \<Rightarrow> actionGraphExecutor \<Rightarrow> bool" for g size' where
  init: "reachable g size' (buildGraph g)"
| step: "reachable g size' e \<Longrightarrow> step size' e e' \<Longrightarrow> reachable g size' e'"

section \<open>The graph\<close>

definition sameDeps :: "Graph \<Rightarrow> nat \<Rightarrow> nat list" where
  "sameDeps g a = filter (\<lambda>d. Package g d = Package g a) (Deps g a)"

lemma fold_addDep:
  "fold (addDep g a) ds e = e\<lparr>remainingDeps := (remainingDeps e)(a := remainingDeps e a +
       int (length (filter (\<lambda>d. Package g d = Package g a) ds))),
     dependents := (\<lambda>d. dependents e d @ replicate (count_list (filter (\<lambda>d. Package g d = Package g a) ds) d) a)\<rparr>"
proof (induction ds arbitrary: e)
  case (Cons d ds)
  show ?case unfolding fold.simps comp_def Cons.IH
    by (auto simp: addDep_def fun_eq_iff)
qed simp

lemma addAction_simps:
  "remainingDeps (addAction g a e) = (remainingDeps e)(a := remainingDeps e a + int (length (sameDeps g a)))"
  "dependents (addAction g a e) = (\<lambda>d. dependents e d @ replicate (count_list (sameDeps g a) d) a)"
  "ready (addAction g a e) = (if remainingDeps e a + int (length (sameDeps g a)) = 0 then ready e @ [a] else ready e)"
  by (simp_all add: addAction_def fold_addDep sameDeps_def Let_def)

lemma addAction_more:
  "addAction g a e = e\<lparr>remainingDeps := remainingDeps (addAction g a e), dependents := dependents (addAction g a e),
     ready := ready (addAction g a e)\<rparr>"
  by (simp add: addAction_def fold_addDep Let_def)

lemma fold_addAction:
  assumes "distinct as" "\<And>a. a \<in> set as \<Longrightarrow> remainingDeps e a = 0"
  shows "remainingDeps (fold (addAction g) as e) a = (if a \<in> set as then int (length (sameDeps g a)) else remainingDeps e a)"
    "count_list (dependents (fold (addAction g) as e) d) a =
       count_list (dependents e d) a + (if a \<in> set as then count_list (sameDeps g a) d else 0)"
    "ready (fold (addAction g) as e) = ready e @ filter (\<lambda>a. sameDeps g a = []) as"
    "\<exists>r d rd. fold (addAction g) as e = e\<lparr>remainingDeps := r, dependents := d, ready := rd\<rparr>"
proof -
  have "remainingDeps (fold (addAction g) as e) a = (if a \<in> set as then int (length (sameDeps g a)) else remainingDeps e a) \<and>
    count_list (dependents (fold (addAction g) as e) d) a =
       count_list (dependents e d) a + (if a \<in> set as then count_list (sameDeps g a) d else 0) \<and>
    ready (fold (addAction g) as e) = ready e @ filter (\<lambda>a. sameDeps g a = []) as \<and>
    (\<exists>r d rd. fold (addAction g) as e = e\<lparr>remainingDeps := r, dependents := d, ready := rd\<rparr>)"
    using assms
  proof (induction as arbitrary: e)
    case Nil
    have "e = e\<lparr>remainingDeps := remainingDeps e, dependents := dependents e, ready := ready e\<rparr>" by simp
    then have "\<exists>r d rd. e = e\<lparr>remainingDeps := r, dependents := d, ready := rd\<rparr>" by blast
    then show ?case by simp
  next
    case (Cons b as)
    let ?e = "addAction g b e"
    have rep: "count_list (replicate n b) a = (if a = b then n else 0)" for n by (induction n) auto
    have z: "remainingDeps ?e c = 0" if "c \<in> set as" for c
      using Cons.prems that by (auto simp: addAction_simps)
    obtain r d' rd where f: "fold (addAction g) as ?e = ?e\<lparr>remainingDeps := r, dependents := d', ready := rd\<rparr>"
      using Cons.IH [OF _ z] Cons.prems(1) by auto
    have "fold (addAction g) (b # as) e = e\<lparr>remainingDeps := r, dependents := d', ready := rd\<rparr>"
      unfolding fold.simps comp_apply f by (subst addAction_more) simp
    then have "\<exists>r d rd. fold (addAction g) (b # as) e = e\<lparr>remainingDeps := r, dependents := d, ready := rd\<rparr>" by blast
    then show ?case
      using Cons.IH [OF _ z] Cons.prems by (auto simp: addAction_simps rep)
  qed
  then show "remainingDeps (fold (addAction g) as e) a = (if a \<in> set as then int (length (sameDeps g a)) else remainingDeps e a)"
    "count_list (dependents (fold (addAction g) as e) d) a =
       count_list (dependents e d) a + (if a \<in> set as then count_list (sameDeps g a) d else 0)"
    "ready (fold (addAction g) as e) = ready e @ filter (\<lambda>a. sameDeps g a = []) as"
    "\<exists>r d rd. fold (addAction g) as e = e\<lparr>remainingDeps := r, dependents := d, ready := rd\<rparr>"
    by blast+
qed

section \<open>Releasing dependents\<close>

lemma fold_release_frame:
  "\<exists>r rd. fold release ds e = e\<lparr>remainingDeps := r, ready := rd\<rparr>"
proof (induction ds arbitrary: e)
  case Nil
  have "e = e\<lparr>remainingDeps := remainingDeps e, ready := ready e\<rparr>" by simp
  then have "\<exists>r rd. e = e\<lparr>remainingDeps := r, ready := rd\<rparr>" by blast
  then show ?case by simp
next
  case (Cons d ds)
  obtain r rd where "fold release ds (release d e) = (release d e)\<lparr>remainingDeps := r, ready := rd\<rparr>"
    using Cons.IH by blast
  then have "fold release (d # ds) e = e\<lparr>remainingDeps := r, ready := rd\<rparr>"
    by (simp add: release_def Let_def)
  then show ?case by blast
qed

lemma fold_release:
  assumes "\<And>a. a \<in> set ds \<Longrightarrow> int (count_list ds a) \<le> remainingDeps e a"
  shows "remainingDeps (fold release ds e) a = remainingDeps e a - int (count_list ds a)"
    "\<exists>new. ready (fold release ds e) = ready e @ new \<and> distinct new \<and>
       set new = {a \<in> set ds. remainingDeps e a = int (count_list ds a)}"
proof -
  have "remainingDeps (fold release ds e) a = remainingDeps e a - int (count_list ds a) \<and>
    (\<exists>new. ready (fold release ds e) = ready e @ new \<and> distinct new \<and>
       set new = {a \<in> set ds. remainingDeps e a = int (count_list ds a)})"
    using assms
  proof (induction ds arbitrary: e)
    case (Cons d ds)
    let ?e = "release d e"
    have r: "remainingDeps ?e b = remainingDeps e b - (if b = d then 1 else 0)" for b
      by (simp add: release_def Let_def)
    have rd: "ready ?e = ready e @ (if remainingDeps e d = 1 then [d] else [])"
      by (auto simp: release_def Let_def)
    have le: "int (count_list ds b) \<le> remainingDeps ?e b" if "b \<in> set ds" for b
      using Cons.prems [of b] that by (simp add: r split: if_splits)
    obtain new where new: "ready (fold release ds ?e) = ready ?e @ new" "distinct new"
      "set new = {a \<in> set ds. remainingDeps ?e a = int (count_list ds a)}"
      and rem: "remainingDeps (fold release ds ?e) a = remainingDeps ?e a - int (count_list ds a)"
      using Cons.IH [OF le] by blast
    have zero: "count_list ds d = 0 \<longleftrightarrow> d \<notin> set ds" by (simp add: count_list_0_iff)
    have "ready (fold release (d # ds) e) = ready e @ ((if remainingDeps e d = 1 then [d] else []) @ new)"
      by (simp add: new(1) rd)
    moreover have "distinct ((if remainingDeps e d = 1 then [d] else []) @ new)"
      using new(2) zero by (auto simp: new(3) r)
    moreover have "set ((if remainingDeps e d = 1 then [d] else []) @ new) =
        {a \<in> set (d # ds). remainingDeps e a = int (count_list (d # ds) a)}"
      using Cons.prems [of d] zero by (auto simp: new(3) r)
    ultimately show ?case using rem by (auto simp: r)
  qed simp
  then show "remainingDeps (fold release ds e) a = remainingDeps e a - int (count_list ds a)"
    "\<exists>new. ready (fold release ds e) = ready e @ new \<and> distinct new \<and>
       set new = {a \<in> set ds. remainingDeps e a = int (count_list ds a)}" by blast+
qed

section \<open>The invariant\<close>

text \<open>The books: what the counters count and where every started action is.\<close>

definition books :: "Graph \<Rightarrow> actionGraphExecutor \<Rightarrow> bool" where
  "books g e \<longleftrightarrow>
     running e = int (length (executing e) + length (channel e)) \<and>
     completed e = int (length (finished e)) \<and>
     mset (started e) = mset (executing e) + mset (map fst (channel e)) + mset (map fst (finished e)) \<and>
     distinct (started e @ ready e) \<and> set (started e @ ready e) \<subseteq> set (actions g)"

text \<open>The order: what the dependency counters mean, while nothing has stopped the run.\<close>

definition doneOk :: "actionGraphExecutor \<Rightarrow> nat set" where
  "doneOk e = {a. (a, None) \<in> set (finished e)}"

definition ordered :: "Graph \<Rightarrow> actionGraphExecutor \<Rightarrow> bool" where
  "ordered g e \<longleftrightarrow>
     (\<forall>a d. count_list (dependents e d) a = (if a \<in> set (actions g) then count_list (sameDeps g a) d else 0)) \<and>
     (\<forall>a \<in> set (started e @ ready e). set (sameDeps g a) \<subseteq> doneOk e) \<and>
     (\<not> cancelled e \<longrightarrow> (\<forall>a \<in> set (actions g).
        remainingDeps e a = int (length (filter (\<lambda>d. d \<notin> doneOk e) (sameDeps g a))) \<and>
        (remainingDeps e a = 0 \<longrightarrow> a \<in> set (started e @ ready e))))"

text \<open>The control: errors, cancellation and where the executor may be.\<close>

definition firstError :: "actionResult list \<Rightarrow> string option" where
  "firstError rs = Option.bind (find (\<lambda>r. snd r \<noteq> None) rs) snd"

definition controlled :: "actionGraphExecutor \<Rightarrow> bool" where
  "controlled e \<longleftrightarrow>
     firstErr e = firstError (finished e) \<and>
     (cancelled e \<longleftrightarrow> firstErr e \<noteq> None \<or> parentCancelled e) \<and>
     (stopped e \<longrightarrow> cancelled e) \<and>
     (control e = Select \<longrightarrow> ready e \<noteq> [] \<and> firstErr e = None \<and> \<not> stopped e) \<and>
     (control e = Wait \<longrightarrow> running e > 0) \<and>
     (control e = Done \<longrightarrow> running e = 0 \<and> (ready e = [] \<or> stopped e))"

lemma firstError_snoc: "firstError (rs @ [r]) = (case firstError rs of None \<Rightarrow> snd r | Some s \<Rightarrow> Some s)"
  by (induction rs) (auto simp: firstError_def)

lemma firstError_None: "firstError rs = None \<longleftrightarrow> (\<forall>r \<in> set rs. snd r = None)"
  by (induction rs) (auto simp: firstError_def)

text \<open>Completing an action.\<close>

lemma complete_frame:
  "\<exists>rm rd. complete r e = e\<lparr>running := running e - 1, completed := completed e + 1, finished := finished e @ [r],
     firstErr := (case firstErr e of None \<Rightarrow> snd r | Some s \<Rightarrow> Some s),
     cancelled := cancelled e \<or> (snd r \<noteq> None \<and> firstErr e = None), remainingDeps := rm, ready := rd\<rparr>"
proof -
  let ?e = "e\<lparr>running := running e - 1, completed := completed e + 1, finished := finished e @ [r],
     firstErr := (case firstErr e of None \<Rightarrow> snd r | Some s \<Rightarrow> Some s),
     cancelled := cancelled e \<or> (snd r \<noteq> None \<and> firstErr e = None)\<rparr>"
  have c: "complete r e = (if cancelled ?e then ?e else fold release (dependents ?e (fst r)) ?e)"
    by (auto simp: complete_def Let_def intro!: arg_cong [of _ _ "fold release (dependents e (fst r))"]
        actionGraphExecutor.equality split: option.splits)
  define e1 where "e1 = ?e"
  obtain rm rd where f: "fold release (dependents e1 (fst r)) e1 = e1\<lparr>remainingDeps := rm, ready := rd\<rparr>"
    using fold_release_frame [of "dependents e1 (fst r)" e1] by blast
  have "complete r e = e1\<lparr>remainingDeps := (if cancelled e1 then remainingDeps e1 else rm),
      ready := (if cancelled e1 then ready e1 else rd)\<rparr>"
    unfolding c e1_def [symmetric] f by (cases "cancelled e1") simp_all
  then show ?thesis unfolding e1_def by blast
qed

lemma complete_simps [simp]:
  "running (complete r e) = running e - 1" "completed (complete r e) = completed e + 1"
  "finished (complete r e) = finished e @ [r]" "executing (complete r e) = executing e"
  "channel (complete r e) = channel e" "dependents (complete r e) = dependents e"
  "started (complete r e) = started e" "stopped (complete r e) = stopped e"
  "parentCancelled (complete r e) = parentCancelled e" "control (complete r e) = control e"
  "firstErr (complete r e) = (case firstErr e of None \<Rightarrow> snd r | Some s \<Rightarrow> Some s)"
  "cancelled (complete r e) = (cancelled e \<or> (snd r \<noteq> None \<and> firstErr e = None))"
  using complete_frame [of r e] by (elim exE, simp)+

lemma complete_cancelled:
  "cancelled e \<or> (snd r \<noteq> None \<and> firstErr e = None) \<Longrightarrow> ready (complete r e) = ready e"
  by (auto simp: complete_def Let_def)

lemma complete_ok:
  "\<not> cancelled e \<Longrightarrow> complete (a, None) e = fold release (dependents e a)
     (e\<lparr>running := running e - 1, completed := completed e + 1, finished := finished e @ [(a, None)]\<rparr>)"
  by (simp add: complete_def Let_def)

lemma filter_open_deps:
  "x \<notin> S \<Longrightarrow> length (filter (\<lambda>d. d \<notin> S) ds) = count_list ds x + length (filter (\<lambda>d. d \<notin> insert x S) ds)"
  by (induction ds) auto

lemma doneOk_complete: "doneOk (complete (a, None) e) = insert a (doneOk e)"
  by (auto simp: doneOk_def)

lemma doneOk_mono: "doneOk e \<subseteq> doneOk (complete r e)"
  by (auto simp: doneOk_def)

text \<open>What completing an action without error does to the dependency counters and to the ready actions.\<close>

lemma complete_releases:
  assumes ord: "ordered g e" and nc: "\<not> cancelled e" and x: "x \<notin> doneOk e"
  shows "a \<in> set (actions g) \<Longrightarrow> remainingDeps (complete (x, None) e) a =
      int (length (filter (\<lambda>d. d \<notin> insert x (doneOk e)) (sameDeps g a)))"
    "\<exists>new. ready (complete (x, None) e) = ready e @ new \<and> distinct new \<and>
       set new = {a \<in> set (actions g). x \<in> set (sameDeps g a) \<and> set (sameDeps g a) \<subseteq> insert x (doneOk e)}"
proof -
  let ?e = "e\<lparr>running := running e - 1, completed := completed e + 1, finished := finished e @ [(x, None)]\<rparr>"
  let ?ds = "dependents e x"
  let ?open = "\<lambda>a. length (filter (\<lambda>d. d \<notin> insert x (doneOk e)) (sameDeps g a))"
  have cnt: "count_list ?ds a = (if a \<in> set (actions g) then count_list (sameDeps g a) x else 0)" for a
    using ord by (simp add: ordered_def)
  have rem: "remainingDeps e a = int (count_list (sameDeps g a) x + ?open a)" if "a \<in> set (actions g)" for a
    using ord nc that filter_open_deps [OF x, of "sameDeps g a"] by (simp add: ordered_def)
  have mem: "a \<in> set ?ds \<longleftrightarrow> a \<in> set (actions g) \<and> x \<in> set (sameDeps g a)" for a
    using cnt [of a] count_list_0_iff [of ?ds a] count_list_0_iff [of "sameDeps g a" x] by (auto split: if_splits)
  have le: "int (count_list ?ds a) \<le> remainingDeps ?e a" if "a \<in> set ?ds" for a
    using that unfolding mem by (simp add: cnt rem)
  note eq = complete_ok [OF nc, of x]
  show "remainingDeps (complete (x, None) e) a = int (?open a)" if "a \<in> set (actions g)"
    using fold_release(1) [of ?ds ?e a, OF le] that by (simp add: eq cnt rem)
  have none: "?open a = 0 \<longleftrightarrow> set (sameDeps g a) \<subseteq> insert x (doneOk e)" for a
    by (auto simp: filter_empty_conv)
  have "{a \<in> set ?ds. remainingDeps ?e a = int (count_list ?ds a)} =
      {a \<in> set (actions g). x \<in> set (sameDeps g a) \<and> set (sameDeps g a) \<subseteq> insert x (doneOk e)}"
    unfolding mem none [symmetric] by (auto simp: cnt rem)
  then show "\<exists>new. ready (complete (x, None) e) = ready e @ new \<and> distinct new \<and>
       set new = {a \<in> set (actions g). x \<in> set (sameDeps g a) \<and> set (sameDeps g a) \<subseteq> insert x (doneOk e)}"
    using fold_release(2) [OF le] unfolding eq by simp
qed

lemma doneOk_finished: "doneOk e \<subseteq> fst ` set (finished e)"
  by (force simp: doneOk_def)

text \<open>The next result of the channel is of a started action that has not been completed.\<close>

lemma result_fresh:
  assumes "books g e" "channel e = r # rs"
  shows "fst r \<notin> fst ` set (finished e)" "fst r \<in> set (started e)"
proof -
  have "distinct (started e)" and eq: "mset (started e) = mset (executing e) + mset (map fst (channel e)) + mset (map fst (finished e))"
    using assms by (simp_all add: books_def)
  then have "count (mset (executing e) + mset (map fst (channel e)) + mset (map fst (finished e))) (fst r) \<le> 1"
    unfolding distinct_count_atmost_1 eq [symmetric] by simp
  then have "count (mset (map fst (finished e))) (fst r) = 0"
    using assms(2) by simp
  then show "fst r \<notin> fst ` set (finished e)" by (simp add: count_eq_zero_iff)
  have "fst r \<in># mset (started e)" unfolding eq using assms(2) by simp
  then show "fst r \<in> set (started e)" by simp
qed

lemma complete_ready:
  assumes "books g e" "ordered g e" "controlled e" "channel e = r # rs" "e1 = complete r (e\<lparr>channel := rs\<rparr>)"
  obtains new where "ready e1 = ready e @ new" "distinct new" "set new \<subseteq> set (actions g) - set (started e @ ready e)"
    "\<And>a. a \<in> set new \<Longrightarrow> set (sameDeps g a) \<subseteq> doneOk e1"
    "\<not> cancelled e1 \<Longrightarrow> set new = {a \<in> set (actions g). fst r \<in> set (sameDeps g a) \<and> set (sameDeps g a) \<subseteq> doneOk e1}"
proof (cases "cancelled e1")
  case True
  then have "ready e1 = ready e"
    using assms(3,5) complete_cancelled [of "e\<lparr>channel := rs\<rparr>" r] by (simp add: controlled_def)
  then show ?thesis using that [of "[]"] True by simp
next
  case False
  let ?e = "e\<lparr>channel := rs\<rparr>"
  obtain x where r: "r = (x, None)" "\<not> cancelled ?e"
    using False assms(3,5) by (cases r) (auto simp: controlled_def)
  have ord: "ordered g ?e" using assms(2) by (simp add: ordered_def doneOk_def)
  have x: "x \<notin> doneOk ?e" using result_fresh(1) [OF assms(1,4)] doneOk_finished [of ?e] r(1) by auto
  have d: "doneOk e1 = insert x (doneOk ?e)" using doneOk_complete [of x ?e] by (simp add: assms(5) r(1))
  obtain new where new: "ready e1 = ready e @ new" "distinct new"
    "set new = {a \<in> set (actions g). x \<in> set (sameDeps g a) \<and> set (sameDeps g a) \<subseteq> doneOk e1}"
    using complete_releases(2) [OF ord r(2) x] unfolding d by (simp add: assms(5) r(1)) blast
  have "a \<notin> set (started e @ ready e)" if "a \<in> set new" for a
    using that ord x unfolding new(3) ordered_def by auto
  then have "set new \<subseteq> set (actions g) - set (started e @ ready e)" using new(3) by blast
  from that [OF new(1,2) this] show ?thesis by (simp add: new(3) r(1))
qed

lemma complete_books:
  assumes "books g e" "ordered g e" "controlled e" "channel e = r # rs"
  shows "books g (complete r (e\<lparr>channel := rs\<rparr>))"
proof -
  let ?e = "complete r (e\<lparr>channel := rs\<rparr>)"
  obtain new where "ready ?e = ready e @ new" "distinct new" "set new \<subseteq> set (actions g) - set (started e @ ready e)"
    by (rule complete_ready [OF assms refl])
  then show ?thesis using assms(1,4) by (auto simp: books_def)
qed

lemma complete_ordered:
  assumes "books g e" "ordered g e" "controlled e" "channel e = r # rs"
  shows "ordered g (complete r (e\<lparr>channel := rs\<rparr>))"
proof -
  let ?e = "complete r (e\<lparr>channel := rs\<rparr>)"
  obtain new where new: "ready ?e = ready e @ new" "\<And>a. a \<in> set new \<Longrightarrow> set (sameDeps g a) \<subseteq> doneOk ?e"
    "\<not> cancelled ?e \<Longrightarrow> set new = {a \<in> set (actions g). fst r \<in> set (sameDeps g a) \<and> set (sameDeps g a) \<subseteq> doneOk ?e}"
    by (rule complete_ready [OF assms refl]) blast
  have d: "doneOk (e\<lparr>channel := rs\<rparr>) = doneOk e" by (simp add: doneOk_def)
  have "set (sameDeps g a) \<subseteq> doneOk ?e" if "a \<in> set (started e @ ready e)" for a
    using assms(2) doneOk_mono [of "e\<lparr>channel := rs\<rparr>" r] that unfolding ordered_def d by blast
  then have two: "\<forall>a \<in> set (started ?e @ ready ?e). set (sameDeps g a) \<subseteq> doneOk ?e"
    using new(1,2) by auto
  have three: "remainingDeps ?e a = int (length (filter (\<lambda>d. d \<notin> doneOk ?e) (sameDeps g a))) \<and>
      (remainingDeps ?e a = 0 \<longrightarrow> a \<in> set (started ?e @ ready ?e))" if nc: "\<not> cancelled ?e" and a: "a \<in> set (actions g)" for a
  proof -
    obtain x where r: "r = (x, None)" "\<not> cancelled (e\<lparr>channel := rs\<rparr>)"
      using nc assms(3) by (cases r) (auto simp: controlled_def)
    have ord: "ordered g (e\<lparr>channel := rs\<rparr>)" using assms(2) by (simp add: ordered_def doneOk_def)
    have x: "x \<notin> doneOk (e\<lparr>channel := rs\<rparr>)"
      using result_fresh(1) [OF assms(1,4)] doneOk_finished [of e] d r(1) by auto
    have dd: "doneOk ?e = insert x (doneOk e)"
      using doneOk_complete [of x "e\<lparr>channel := rs\<rparr>"] by (simp add: r(1) d)
    have rem: "remainingDeps ?e a = int (length (filter (\<lambda>d. d \<notin> doneOk ?e) (sameDeps g a)))"
      using complete_releases(1) [OF ord r(2) x a] unfolding dd d by (simp add: r(1))
    have "a \<in> set (started e @ ready e) \<or> a \<in> set new" if z: "remainingDeps ?e a = 0"
    proof (cases "x \<in> set (sameDeps g a)")
      case True
      have "set (sameDeps g a) \<subseteq> doneOk ?e" using z unfolding rem by (auto simp: filter_empty_conv)
      then show ?thesis using True a new(3) [OF nc] r(1) by simp
    next
      case False
      then have "filter (\<lambda>d. d \<notin> doneOk e) (sameDeps g a) = []"
        using z by (auto simp: rem filter_empty_conv dd)
      then have "remainingDeps e a = 0" using assms(2) r(2) a by (simp add: ordered_def)
      then show ?thesis using assms(2) r(2) a by (simp add: ordered_def)
    qed
    then show ?thesis using rem new(1) by auto
  qed
  show ?thesis using two three assms(2) unfolding ordered_def by auto
qed

lemma complete_controlled:
  assumes "controlled e" "c = Head \<or> c = Check"
  shows "controlled ((complete r (e\<lparr>channel := rs\<rparr>))\<lparr>control := c\<rparr>)"
  using assms by (auto simp: controlled_def firstError_snoc split: option.splits)

section \<open>Reachable states\<close>

definition scheduler_ok :: "Graph \<Rightarrow> actionGraphExecutor \<Rightarrow> bool" where
  "scheduler_ok g e \<longleftrightarrow> books g e \<and> ordered g e \<and> controlled e"

lemma scheduler_ok_deps:
  assumes "scheduler_ok g e" "a \<in> set (started e @ ready e)"
  shows "set (sameDeps g a) \<subseteq> doneOk e" "a \<in> set (actions g)"
proof -
  show "set (sameDeps g a) \<subseteq> doneOk e" using assms unfolding scheduler_ok_def ordered_def by blast
  show "a \<in> set (actions g)" using assms unfolding scheduler_ok_def books_def by blast
qed

lemma scheduler_ok_idle: "scheduler_ok g e \<Longrightarrow> running e = 0 \<Longrightarrow> executing e = [] \<and> channel e = []"
proof -
  assume "scheduler_ok g e" "running e = 0"
  then have "int (length (executing e) + length (channel e)) = 0" by (simp add: scheduler_ok_def books_def)
  then show ?thesis by (simp only: int_eq_iff) simp
qed

lemma buildGraph_frame:
  assumes "distinct (actions g)"
  shows "started (buildGraph g) = []" "finished (buildGraph g) = []" "executing (buildGraph g) = []"
    "channel (buildGraph g) = []" "running (buildGraph g) = 0" "completed (buildGraph g) = 0"
    "firstErr (buildGraph g) = None" "\<not> cancelled (buildGraph g)" "\<not> parentCancelled (buildGraph g)"
    "\<not> stopped (buildGraph g)" "control (buildGraph g) = Loop"
proof -
  obtain r d rd where "buildGraph g = emptyExecutor\<lparr>remainingDeps := r, dependents := d, ready := rd\<rparr>"
    using fold_addAction(4) [OF assms, of emptyExecutor g] by (auto simp: buildGraph_def emptyExecutor_def)
  then show "started (buildGraph g) = []" "finished (buildGraph g) = []" "executing (buildGraph g) = []"
    "channel (buildGraph g) = []" "running (buildGraph g) = 0" "completed (buildGraph g) = 0"
    "firstErr (buildGraph g) = None" "\<not> cancelled (buildGraph g)" "\<not> parentCancelled (buildGraph g)"
    "\<not> stopped (buildGraph g)" "control (buildGraph g) = Loop"
    by (simp_all add: emptyExecutor_def)
qed

lemma buildGraph_ok:
  assumes "distinct (actions g)"
  shows "scheduler_ok g (buildGraph g)"
proof -
  note f = fold_addAction [OF assms, of emptyExecutor g]
  have z: "remainingDeps emptyExecutor a = 0" for a by (simp add: emptyExecutor_def)
  note fr = buildGraph_frame [OF assms]
  have rd: "ready (buildGraph g) = filter (\<lambda>a. sameDeps g a = []) (actions g)"
    using f(3) z by (simp add: buildGraph_def emptyExecutor_def)
  have rem: "remainingDeps (buildGraph g) a = int (length (sameDeps g a))" if "a \<in> set (actions g)" for a
    using f(1) z that by (simp add: buildGraph_def)
  have dp: "count_list (dependents (buildGraph g) d) a = (if a \<in> set (actions g) then count_list (sameDeps g a) d else 0)" for a d
    using f(2) z by (simp add: buildGraph_def emptyExecutor_def)
  have "books g (buildGraph g)" using assms by (auto simp: books_def fr rd)
  moreover have "ordered g (buildGraph g)" by (auto simp: ordered_def fr rd rem dp doneOk_def)
  moreover have "controlled (buildGraph g)" by (simp add: controlled_def fr firstError_def)
  ultimately show ?thesis by (simp add: scheduler_ok_def)
qed

lemma scheduler_ok_control:
  assumes "scheduler_ok g e" "controlled (e\<lparr>stopped := s, control := c\<rparr>)"
  shows "scheduler_ok g (e\<lparr>stopped := s, control := c\<rparr>)"
  using assms by (simp add: scheduler_ok_def books_def ordered_def doneOk_def)

lemma scheduler_ok_control':
  assumes "scheduler_ok g e" "controlled (e\<lparr>control := c\<rparr>)"
  shows "scheduler_ok g (e\<lparr>control := c\<rparr>)"
  using scheduler_ok_control [where e = e and s = "stopped e" and c = c] assms by simp

lemma scheduler_ok_controlled: "scheduler_ok g e \<Longrightarrow> controlled e"
  by (simp add: scheduler_ok_def)

lemma controlled_frame [simp]: "controlled (e\<lparr>executing := xs, channel := rs\<rparr>) = controlled e"
  by (simp add: controlled_def)

lemma step_ok:
  assumes "step n e e'" "scheduler_ok g e"
  shows "scheduler_ok g e'"
  using assms(1)
proof cases
  case (select_complete result results)
  then show ?thesis
    using complete_books [of g e result results] complete_ordered [of g e result results]
      complete_controlled [of e Head result results] assms(2)
    by (simp add: scheduler_ok_def books_def ordered_def doneOk_def)
next
  case (wait_complete result results)
  then show ?thesis
    using complete_books [of g e result results] complete_ordered [of g e result results]
      complete_controlled [of e Check result results] assms(2)
    by (simp add: scheduler_ok_def books_def ordered_def doneOk_def)
next
  case (select_launch act acts)
  have "books g e'" using assms(2) select_launch by (auto simp: scheduler_ok_def books_def)
  moreover have "ordered g e'" using assms(2) select_launch by (simp add: scheduler_ok_def ordered_def doneOk_def)
  moreover have "controlled e'" using assms(2) select_launch by (auto simp: scheduler_ok_def controlled_def)
  ultimately show ?thesis by (simp add: scheduler_ok_def)
next
  case (worker xs act ys err)
  have "books g e'" using assms(2) worker by (auto simp: scheduler_ok_def books_def)
  moreover have "ordered g e'" using assms(2) worker by (simp add: scheduler_ok_def ordered_def doneOk_def)
  moreover have "controlled e'" using assms(2) worker(1) by (simp add: scheduler_ok_def)
  ultimately show ?thesis by (simp add: scheduler_ok_def)
next
  case cancel
  have "books g e'" "ordered g e'" using assms(2) cancel by (simp_all add: scheduler_ok_def books_def ordered_def doneOk_def)
  moreover have "controlled e'" using assms(2) cancel by (auto simp: scheduler_ok_def controlled_def)
  ultimately show ?thesis by (simp add: scheduler_ok_def)
next
  case loop
  then show ?thesis using assms(2) scheduler_ok_controlled [OF assms(2)] unfolding loop(1)
    by (intro scheduler_ok_control') (auto simp: controlled_def scheduler_ok_def books_def)
next
  case check
  then show ?thesis using assms(2) scheduler_ok_controlled [OF assms(2)] unfolding check(1)
    by (intro scheduler_ok_control) (auto simp: controlled_def dest: sym)
next
  case head_exit
  then show ?thesis using assms(2) scheduler_ok_controlled [OF assms(2)] unfolding head_exit(1)
    by (intro scheduler_ok_control') (auto simp: controlled_def scheduler_ok_def books_def)
next
  case head_cancelled
  then show ?thesis using assms(2) scheduler_ok_controlled [OF assms(2)] unfolding head_cancelled(1)
    by (intro scheduler_ok_control) (auto simp: controlled_def scheduler_ok_def books_def)
next
  case head_select
  then show ?thesis using assms(2) scheduler_ok_controlled [OF assms(2)] unfolding head_select(1)
    by (intro scheduler_ok_control') (auto simp: controlled_def)
next
  case select_done
  then show ?thesis using assms(2) scheduler_ok_controlled [OF assms(2)] unfolding select_done(1)
    by (intro scheduler_ok_control) (auto simp: controlled_def)
qed

lemma reachable_ok:
  assumes "reachable g n e" "distinct (actions g)"
  shows "scheduler_ok g e"
  using assms by (induction rule: reachable.induct) (auto intro: buildGraph_ok step_ok)

lemma workers_bound:
  assumes "reachable g n e" "distinct (actions g)"
  shows "length (executing e) \<le> n"
  using assms(1)
proof (induction rule: reachable.induct)
  case init
  then show ?case by (simp add: buildGraph_frame assms(2))
next
  case (step e e')
  from step.hyps(2) step.IH show ?case by cases auto
qed

section \<open>What can be scheduled\<close>

text \<open>The actions the dependencies allow to run: the least set closed under running an action whose
  dependencies of the same package are in it.\<close>

inductive schedulable :: "Graph \<Rightarrow> nat \<Rightarrow> bool" for g where
  schedulableI: "a \<in> set (actions g) \<Longrightarrow> \<forall>d \<in> set (sameDeps g a). schedulable g d \<Longrightarrow> schedulable g a"

lemma schedulable_acyclic:
  fixes rank :: "nat \<Rightarrow> nat"
  assumes "\<And>a d. a \<in> set (actions g) \<Longrightarrow> d \<in> set (sameDeps g a) \<Longrightarrow> d \<in> set (actions g) \<and> rank d < rank a"
  shows "a \<in> set (actions g) \<Longrightarrow> schedulable g a"
proof (induction "rank a" arbitrary: a rule: less_induct)
  case less
  then have "\<forall>d \<in> set (sameDeps g a). schedulable g d" using assms by blast
  with less.prems show ?case by (rule schedulableI)
qed

text \<open>Every action that starts is schedulable.\<close>

lemma doneOk_started: "books g e \<Longrightarrow> doneOk e \<subseteq> set (started e)"
proof
  fix a assume b: "books g e" and "a \<in> doneOk e"
  then have "a \<in># mset (map fst (finished e))" using doneOk_finished [of e] by auto
  then have "a \<in># mset (started e)" using b by (auto simp: books_def)
  then show "a \<in> set (started e)" by simp
qed

lemma step_started: "step n e e' \<Longrightarrow> set (started e') \<subseteq> set (started e @ ready e)"
  by (cases rule: step.cases) auto

lemma started_schedulable:
  assumes "reachable g n e" "distinct (actions g)"
  shows "a \<in> set (started e @ ready e) \<Longrightarrow> schedulable g a"
  using assms(1)
proof (induction arbitrary: a rule: reachable.induct)
  case init
  have "doneOk (buildGraph g) = {}" by (simp add: doneOk_def buildGraph_frame assms(2))
  then have "a \<in> set (actions g)" "sameDeps g a = []"
    using scheduler_ok_deps [OF buildGraph_ok [OF assms(2)] init] by simp_all
  then show ?case by (auto intro: schedulableI)
next
  case (step e e')
  have ok: "scheduler_ok g e'" using reachable_ok [OF reachable.step [OF step.hyps(1,2)] assms(2)] .
  then have "set (sameDeps g a) \<subseteq> set (started e')" "a \<in> set (actions g)"
    using scheduler_ok_deps [OF ok step.prems] doneOk_started [of g e'] by (auto simp: scheduler_ok_def)
  then show ?case using step_started [OF step.hyps(2)] step.IH by (intro schedulableI) auto
qed

text \<open>At the end of a run that nothing stopped, the schedulable actions have finished.\<close>

lemma done_schedulable:
  assumes ok: "scheduler_ok g e" and "control e = Done" "\<not> cancelled e"
  shows "schedulable g a \<Longrightarrow> a \<in> doneOk e"
proof (induction rule: schedulable.induct)
  case (schedulableI a)
  have e: "running e = 0" "ready e = []" using assms by (auto simp: scheduler_ok_def controlled_def)
  then have "executing e = []" "channel e = []" using scheduler_ok_idle [OF ok] by simp_all
  then have st: "mset (started e) = mset (map fst (finished e))" using ok by (simp add: scheduler_ok_def books_def)
  have "remainingDeps e a = 0"
    using ok assms(3) schedulableI by (auto simp: scheduler_ok_def ordered_def filter_empty_conv)
  then have "a \<in> set (started e)" using ok assms(3) schedulableI.hyps(1) e(2) by (auto simp: scheduler_ok_def ordered_def)
  then have "a \<in># mset (map fst (finished e))" unfolding st [symmetric] by simp
  moreover have "\<forall>r \<in> set (finished e). snd r = None"
    unfolding firstError_None [symmetric] using ok assms(3) by (auto simp: scheduler_ok_def controlled_def)
  ultimately show ?case by (auto simp: doneOk_def)
qed

section \<open>Termination and progress\<close>

fun control_rank :: "control \<Rightarrow> nat" where
  "control_rank Done = 0"
| "control_rank Select = 1"
| "control_rank Wait = 1"
| "control_rank Head = 2"
| "control_rank Loop = 3"
| "control_rank Check = 4"

definition remainingWork :: "Graph \<Rightarrow> actionGraphExecutor \<Rightarrow> nat" where
  "remainingWork g e = 7 * (length (actions g) - length (started e)) + 5 * length (executing e) + 4 * length (channel e) +
     control_rank (control e) + (if stopped e then 0 else 2) + (if parentCancelled e then 0 else 1)"

lemma started_length:
  assumes "scheduler_ok g e" "ready e = act # acts"
  shows "length (started e) < length (actions g)"
proof -
  have d: "distinct (started e @ ready e)" "set (started e @ ready e) \<subseteq> set (actions g)"
    using assms(1) by (simp_all add: scheduler_ok_def books_def)
  have "length (started e @ ready e) = card (set (started e @ ready e))" using distinct_card [OF d(1)] by simp
  also have "\<dots> \<le> card (set (actions g))" using d(2) by (intro card_mono) auto
  also have "\<dots> \<le> length (actions g)" by (rule card_length)
  finally show ?thesis using assms(2) by simp
qed

lemma step_decreases:
  assumes "step n e e'" "scheduler_ok g e"
  shows "remainingWork g e' < remainingWork g e"
  using assms(1)
proof cases
  case (select_launch act acts)
  then show ?thesis using started_length [OF assms(2), of act acts] by (simp add: remainingWork_def)
next
  case select_done
  then show ?thesis using assms(2) by (simp add: remainingWork_def scheduler_ok_def controlled_def)
qed (auto simp: remainingWork_def)

text \<open>An executor that is not done always has a step of its own or of a worker, which may be one that
  keeps the run free of errors.\<close>

definition clean :: "actionGraphExecutor \<Rightarrow> bool" where
  "clean e \<longleftrightarrow> firstErr e = None \<and> (\<forall>r \<in> set (channel e). snd r = None)"

lemma step_progress:
  assumes "scheduler_ok g e" "control e \<noteq> Done" "0 < n"
  shows "\<exists>e'. step n e e' \<and> parentCancelled e' = parentCancelled e \<and> (clean e \<longrightarrow> clean e')"
proof -
  have adv: ?thesis if "step n e e'" "parentCancelled e' = parentCancelled e" "clean e \<longrightarrow> clean e'" for e'
    using that by blast
  have work: ?thesis if "executing e = act # acts" for act acts
    by (rule adv [OF step.worker [of e "[]" act acts _ None]]) (auto simp: that clean_def)
  show ?thesis
  proof (cases "control e")
    case Loop
    then show ?thesis by (intro adv [OF step.loop]) (auto simp: clean_def)
  next
    case Check
    then show ?thesis by (intro adv [OF step.check]) (auto simp: clean_def)
  next
    case Head
    consider "stopped e \<or> ready e = []" | "\<not> stopped e" "ready e \<noteq> []" "cancelled e"
      | "\<not> stopped e" "ready e \<noteq> []" "\<not> cancelled e" by blast
    then show ?thesis
    proof cases
      case 1
      with Head show ?thesis by (intro adv [OF step.head_exit]) (auto simp: clean_def)
    next
      case 2
      with Head show ?thesis by (intro adv [OF step.head_cancelled]) (auto simp: clean_def)
    next
      case 3
      with Head show ?thesis by (intro adv [OF step.head_select]) (auto simp: clean_def)
    qed
  next
    case Select
    then obtain act acts where r: "ready e = act # acts"
      using assms(1) by (auto simp: scheduler_ok_def controlled_def neq_Nil_conv)
    show ?thesis
    proof (cases "length (executing e) < n")
      case True
      with Select r show ?thesis by (intro adv [OF step.select_launch]) (auto simp: clean_def)
    next
      case False
      then show ?thesis using work assms(3) by (cases "executing e") auto
    qed
  next
    case Wait
    then have "0 < running e" using assms(1) by (simp add: scheduler_ok_def controlled_def)
    then have "executing e \<noteq> [] \<or> channel e \<noteq> []" using assms(1) by (auto simp: scheduler_ok_def books_def)
    then show ?thesis
    proof (cases "channel e")
      case (Cons r rs)
      with Wait show ?thesis by (intro adv [OF step.wait_complete]) (auto simp: clean_def)
    qed (use work in \<open>cases "executing e"; blast\<close>)
  qed (use assms(2) in simp)
qed

text \<open>Runs are bounded.\<close>

lemma run_bounded:
  assumes "distinct (actions g)" "(step n ^^ k) (buildGraph g) e"
  shows "reachable g n e \<and> k + remainingWork g e \<le> 7 * length (actions g) + 6"
  using assms(2)
proof (induction k arbitrary: e)
  case 0
  then show ?case by (auto intro: reachable.init simp: remainingWork_def buildGraph_frame [OF assms(1)])
next
  case (Suc k)
  then obtain e0 where e0: "(step n ^^ k) (buildGraph g) e0" "step n e0 e" by auto
  then have r: "reachable g n e0" "k + remainingWork g e0 \<le> 7 * length (actions g) + 6" using Suc.IH by auto
  then show ?case using step_decreases [OF e0(2) reachable_ok [OF r(1) assms(1)]] e0(2)
    by (auto intro: reachable.step)
qed

text \<open>A run without failing actions and without cancellation reaches its end.\<close>

lemma clean_run:
  assumes "distinct (actions g)" "0 < n"
  shows "reachable g n e \<Longrightarrow> clean e \<Longrightarrow> \<not> parentCancelled e \<Longrightarrow>
    \<exists>e'. reachable g n e' \<and> control e' = Done \<and> firstErr e' = None \<and> \<not> parentCancelled e'"
proof (induction "remainingWork g e" arbitrary: e rule: less_induct)
  case less
  note ok = reachable_ok [OF less.prems(1) assms(1)]
  show ?case
  proof (cases "control e = Done")
    case True
    then show ?thesis using less.prems by (auto simp: clean_def)
  next
    case False
    then obtain e' where e': "step n e e'" "parentCancelled e' = parentCancelled e" "clean e'"
      using step_progress [OF ok False assms(2)] less.prems(2) by blast
    then show ?thesis
      using less.hyps [OF step_decreases [OF e'(1) ok] reachable.step [OF less.prems(1) e'(1)] e'(3)] less.prems(3) by simp
  qed
qed

lemma finished_started:
  assumes "scheduler_ok g e" "control e = Done"
  shows "mset (map fst (finished e)) = mset (started e)" "distinct (map fst (finished e))"
proof -
  have "running e = 0" using assms by (simp add: scheduler_ok_def controlled_def)
  then have "executing e = []" "channel e = []" using scheduler_ok_idle [OF assms(1)] by simp_all
  then show m: "mset (map fst (finished e)) = mset (started e)" using assms(1) by (simp add: scheduler_ok_def books_def)
  have "distinct (started e)" using assms(1) by (simp add: scheduler_ok_def books_def)
  then show "distinct (map fst (finished e))" using mset_eq_imp_distinct_iff [OF m] by simp
qed

lemma finished_schedulable:
  assumes "reachable g n e" "distinct (actions g)" "control e = Done" "firstErr e = None" "\<not> parentCancelled e"
  shows "set (map fst (finished e)) = {a. schedulable g a}"
proof -
  note ok = reachable_ok [OF assms(1,2)]
  have nc: "\<not> cancelled e" using ok assms(4,5) by (simp add: scheduler_ok_def controlled_def)
  have "set (map fst (finished e)) = set (started e)" using finished_started(1) [OF ok assms(3)] by (metis set_mset_mset)
  then show ?thesis
    using started_schedulable [OF assms(1,2)] done_schedulable [OF ok assms(3) nc] doneOk_started [of g e] ok
    by (auto simp: scheduler_ok_def)
qed

section \<open>A pool shared by the packages\<close>

text \<open>One pool of workers serves the executors of all packages (\<open>runInternal\<close> of \<open>runner.go\<close>). To an executor the workers that are busy with
  the actions of the other packages are missing: it steps as in a pool that is smaller by them. Hence every executor of a shared
  pool is in a state that it reaches in a pool of its own, and what is shown of these states holds for it; sharing only
  delays it, and there is always a step as long as one executor is not done.\<close>

definition busy :: "nat set \<Rightarrow> (nat \<Rightarrow> actionGraphExecutor) \<Rightarrow> nat" where
  "busy P s = (\<Sum>p \<in> P. length (executing (s p)))"

inductive shared_step :: "nat \<Rightarrow> nat set \<Rightarrow> (nat \<Rightarrow> actionGraphExecutor) \<Rightarrow> (nat \<Rightarrow> actionGraphExecutor) \<Rightarrow> bool" for n P where
  shared: "p \<in> P \<Longrightarrow> step (n - busy (P - {p}) s) (s p) e \<Longrightarrow> shared_step n P s (s(p := e))"

inductive shared_reachable :: "(nat \<Rightarrow> Graph) \<Rightarrow> nat \<Rightarrow> nat set \<Rightarrow> (nat \<Rightarrow> actionGraphExecutor) \<Rightarrow> bool" for g n P where
  shared_init: "shared_reachable g n P (\<lambda>p. buildGraph (g p))"
| shared_next: "shared_reachable g n P s \<Longrightarrow> shared_step n P s s' \<Longrightarrow> shared_reachable g n P s'"

lemma step_mono: "step m e e' \<Longrightarrow> m \<le> n \<Longrightarrow> step n e e'"
proof (induction rule: step.induct)
  case (select_launch e act acts)
  then show ?case by (intro step.select_launch) auto
qed (blast intro: step.intros)+

lemma step_executing: "step m e e' \<Longrightarrow> length (executing e') \<le> max m (length (executing e))"
  by (cases rule: step.cases) auto

lemma busy_split: "finite P \<Longrightarrow> p \<in> P \<Longrightarrow> busy P (s(p := e)) = length (executing e) + busy (P - {p}) s"
  unfolding busy_def by (subst sum.remove [of P p]) (auto intro: sum.cong)

lemma shared_reachable_each: "shared_reachable g n P s \<Longrightarrow> reachable (g p) n (s p)"
proof (induction rule: shared_reachable.induct)
  case (shared_next s s')
  from shared_next.hyps(2) show ?case
  proof cases
    case (shared q e)
    then show ?thesis using shared_next.IH step_mono [OF shared(3), of n] by (auto intro: reachable.step)
  qed
qed (rule reachable.init)

lemma shared_busy:
  assumes "finite P" "\<And>p. distinct (actions (g p))"
  shows "shared_reachable g n P s \<Longrightarrow> busy P s \<le> n"
proof (induction rule: shared_reachable.induct)
  case shared_init
  then show ?case by (simp add: busy_def buildGraph_frame [OF assms(2)])
next
  case (shared_next s s')
  from shared_next.hyps(2) show ?case
  proof cases
    case (shared q e)
    then show ?thesis
      using shared_next.IH step_executing [OF shared(3)] busy_split [OF assms(1) shared(2), of s e] busy_split [OF assms(1) shared(2), of s "s q"]
      by (auto simp del: fun_upd_apply)
  qed
qed

lemma shared_progress:
  assumes "finite P" "0 < n" "\<And>p. distinct (actions (g p))" "shared_reachable g n P s" "p \<in> P" "control (s p) \<noteq> Done"
  shows "\<exists>s'. shared_step n P s s'"
proof (cases "busy (P - {p}) s < n")
  case True
  have "scheduler_ok (g p) (s p)" by (rule reachable_ok [OF shared_reachable_each [OF assms(4)] assms(3)])
  then obtain e where "step (n - busy (P - {p}) s) (s p) e" using step_progress [of "g p" "s p" "n - busy (P - {p}) s"] assms(6) True by auto
  then show ?thesis using shared_step.shared [OF assms(5)] by blast
next
  case False
  then have "busy (P - {p}) s \<noteq> 0" using assms(2) by simp
  then obtain q where q: "q \<in> P" "executing (s q) \<noteq> []" using assms(1) by (auto simp: busy_def)
  then obtain act acts where "executing (s q) = [] @ act # acts" by (cases "executing (s q)") auto
  from step.worker [OF this] show ?thesis using shared_step.shared [OF q(1)] by blast
qed

lemma shared_decreases:
  assumes "finite P" "\<And>p. distinct (actions (g p))" "shared_reachable g n P s" "shared_step n P s s'"
  shows "(\<Sum>p \<in> P. remainingWork (g p) (s' p)) < (\<Sum>p \<in> P. remainingWork (g p) (s p))"
  using assms(4)
proof cases
  case (shared q e)
  have "remainingWork (g q) e < remainingWork (g q) (s q)"
    by (rule step_decreases [OF shared(3) reachable_ok [OF shared_reachable_each [OF assms(3)] assms(2)]])
  then show ?thesis using assms(1) shared(1,2) by (intro sum_strict_mono_ex1) auto
qed

text \<open>Together: in a shared pool every executor is in a state of its own pool, the workers are never exceeded, nothing blocks,
  and every step reduces the work that is left.\<close>

theorem shared_pool_runs:
  assumes "finite P" "0 < n" "\<And>p. distinct (actions (g p))" "shared_reachable g n P s"
  shows "reachable (g p) n (s p)" "busy P s \<le> n" "(\<exists>p \<in> P. control (s p) \<noteq> Done) \<Longrightarrow> \<exists>s'. shared_step n P s s'"
    "shared_step n P s s' \<Longrightarrow> (\<Sum>p \<in> P. remainingWork (g p) (s' p)) < (\<Sum>p \<in> P. remainingWork (g p) (s p))"
  using shared_reachable_each [OF assms(4)] shared_busy [OF assms(1,3,4)] shared_progress [OF assms(1,2,3,4)]
    shared_decreases [OF assms(1,3,4)] by blast+

section \<open>Properties\<close>

text \<open>C9: In every reachable state of the scheduler each action has been launched at most once, at most
  as many actions execute as there are workers, every launched action is one of the graph and comes after
  all the actions of its package it depends on, which have finished without error, and once an action has
  failed no step launches another.\<close>

theorem scheduler_respects_dependencies:
  assumes "reachable g n e" "distinct (actions g)"
  shows "distinct (started e) \<and> length (executing e) \<le> n \<and> set (started e) \<subseteq> set (actions g) \<and>
    (\<forall>a \<in> set (started e). \<forall>d \<in> set (Deps g a). Package g d = Package g a \<longrightarrow> (d, None) \<in> set (finished e)) \<and>
    (\<forall>e'. step n e e' \<longrightarrow> firstErr e \<noteq> None \<longrightarrow> started e' = started e)"
proof (intro conjI allI impI ballI)
  note ok = reachable_ok [OF assms]
  show "distinct (started e)" "set (started e) \<subseteq> set (actions g)" using ok by (simp_all add: scheduler_ok_def books_def)
  show "length (executing e) \<le> n" by (rule workers_bound [OF assms])
  show "(d, None) \<in> set (finished e)" if "a \<in> set (started e)" "d \<in> set (Deps g a)" "Package g d = Package g a" for a d
    using scheduler_ok_deps(1) [OF ok, of a] that by (auto simp: sameDeps_def doneOk_def)
  show "started e' = started e" if "step n e e'" "firstErr e \<noteq> None" for e'
    using that(1)
  proof cases
    case (select_launch act acts)
    then show ?thesis using ok that(2) by (simp add: scheduler_ok_def controlled_def)
  qed simp_all
qed

definition exampleGraph :: Graph where
  "exampleGraph = \<lparr>actions = [0, 1, 2], Deps = (\<lambda>a. if a = 2 then [0, 1] else if a = 1 then [0] else []), Package = (\<lambda>_. 0)\<rparr>"

lemma exampleGraph_runs:
  "\<exists>e. reachable exampleGraph 2 e \<and> control e = Done \<and> firstErr e = None \<and> \<not> parentCancelled e"
proof -
  have d: "distinct (actions exampleGraph)" by (simp add: exampleGraph_def)
  show ?thesis using clean_run [OF d, of 2 "buildGraph exampleGraph"] reachable.init
    by (simp add: clean_def buildGraph_frame [OF d])
qed

theorem scheduler_respects_dependencies_witness:
  "\<exists>e. reachable exampleGraph 2 e \<and> control e = Done \<and> firstErr e = None \<and>
     (\<forall>a \<in> set (started e). \<forall>d \<in> set (Deps exampleGraph a). (d, None) \<in> set (finished e))"
proof -
  obtain e where "reachable exampleGraph 2 e" "control e = Done" "firstErr e = None" using exampleGraph_runs by blast
  then show ?thesis using scheduler_respects_dependencies [of exampleGraph 2 e] by (auto simp: exampleGraph_def)
qed

text \<open>C10: The result of a run that has ended is exact. After a failure or a cancellation it is the error of
  the first failed action that was received; otherwise the finished actions are exactly the schedulable
  ones, each once, and the result is success when these are all actions of the graph and the number of
  unschedulable actions when not.\<close>

theorem scheduler_result:
  assumes "reachable g n e" "distinct (actions g)" "control e = Done"
  shows "runResult g e = (if firstErr e \<noteq> None \<or> parentCancelled e then FirstError (firstError (finished e))
      else if \<forall>a \<in> set (actions g). schedulable g a then NoError
      else Unschedulable (int (card {a \<in> set (actions g). \<not> schedulable g a}))) \<and>
    distinct (map fst (finished e)) \<and>
    (firstErr e = None \<and> \<not> parentCancelled e \<longrightarrow> set (map fst (finished e)) = {a. schedulable g a})"
proof -
  note ok = reachable_ok [OF assms(1,2)]
  note dist = finished_started(2) [OF ok assms(3)]
  have fe: "firstErr e = firstError (finished e)" and cmp: "completed e = int (length (finished e))"
    using ok by (simp_all add: scheduler_ok_def controlled_def books_def)
  have res: "runResult g e = (if \<forall>a \<in> set (actions g). schedulable g a then NoError
      else Unschedulable (int (card {a \<in> set (actions g). \<not> schedulable g a})))"
    if c: "firstErr e = None" "\<not> parentCancelled e"
  proof -
    let ?S = "{a \<in> set (actions g). schedulable g a}" and ?U = "{a \<in> set (actions g). \<not> schedulable g a}"
    have "schedulable g a \<Longrightarrow> a \<in> set (actions g)" for a by (auto elim: schedulable.cases)
    then have "?S = set (map fst (finished e))" using finished_schedulable [OF assms c] by blast
    then have "length (finished e) = card ?S" using distinct_card [OF dist] by simp
    moreover have "card (set (actions g)) = card ?S + card ?U"
    proof -
      have "set (actions g) = ?S \<union> ?U" by blast
      moreover have "?S \<inter> ?U = {}" by blast
      ultimately show ?thesis using card_Un_disjoint [of ?S ?U] by simp
    qed
    moreover have "card (set (actions g)) = length (actions g)" by (rule distinct_card [OF assms(2)])
    moreover have "card ?U = 0 \<longleftrightarrow> (\<forall>a \<in> set (actions g). schedulable g a)" by auto
    ultimately show ?thesis using c by (auto simp: runResult_def cmp)
  qed
  show ?thesis
    using res fe dist finished_schedulable [OF assms] by (auto simp: runResult_def)
qed

theorem scheduler_result_witness:
  "\<exists>e. reachable exampleGraph 2 e \<and> control e = Done \<and> runResult exampleGraph e = NoError"
proof -
  have d: "distinct (actions exampleGraph)" by (simp add: exampleGraph_def)
  obtain e where e: "reachable exampleGraph 2 e" "control e = Done" "firstErr e = None" "\<not> parentCancelled e"
    using exampleGraph_runs by blast
  have "schedulable exampleGraph a" if "a \<in> set (actions exampleGraph)" for a
    using that by (rule schedulable_acyclic [where rank = id, rotated])
      (auto simp: exampleGraph_def sameDeps_def split: if_splits)
  then have "runResult exampleGraph e = NoError" using scheduler_result [OF e(1) d e(2)] e(3,4) by simp
  then show ?thesis using e by blast
qed

text \<open>C11: The scheduler terminates and never blocks. Every execution from the initial state has at most
  \<open>7 * n + 6\<close> steps for \<open>n\<close> actions, whatever the workers answer and whenever the context is cancelled,
  and with at least one worker a state where the executor is not done has a further step that is not a
  cancellation.\<close>

theorem scheduler_terminates:
  assumes "distinct (actions g)" "0 < n" "(step n ^^ k) (buildGraph g) e"
  shows "k \<le> 7 * length (actions g) + 6 \<and>
    (control e \<noteq> Done \<longrightarrow> (\<exists>e'. step n e e' \<and> parentCancelled e' = parentCancelled e))"
  using run_bounded [OF assms(1,3)] step_progress [OF reachable_ok [OF _ assms(1)] _ assms(2)] by fastforce

theorem scheduler_terminates_witness:
  "\<exists>e'. step 2 (buildGraph exampleGraph) e' \<and> parentCancelled e' = parentCancelled (buildGraph exampleGraph)"
proof -
  have d: "distinct (actions exampleGraph)" by (simp add: exampleGraph_def)
  show ?thesis using scheduler_terminates [OF d, of 2 0 "buildGraph exampleGraph"] by (simp add: buildGraph_frame [OF d])
qed

end
