(* ===== verification/Scheduler_Metrics.thy ===== *)
theory Scheduler_Metrics
  imports Action_Scheduler
begin

text \<open>
  The metrics of the scheduler (\<open>pkg/goanalysis/scheduler_metrics.go\<close>): gauges of running workers with the
  peak they reached, updated by many goroutines without a lock, and the statistics collected at the end.

  The operations of the metrics are functions on a record, a missing record (the metrics are disabled)
  being \<^const>\<open>None\<close>; there \<open>updatePeak\<close> is the loop run without interference. The loop itself, with its
  separate load and compare-and-swap, is the step relation \<open>peak_step\<close> on a gauge that any number of
  goroutines update. The counters count goroutines, so that their 64 bits do not overflow.
\<close>

section \<open>The metrics\<close>

record schedulerMetrics =
  packageWorkers :: int
  peakPackageWorkers :: int
  actionGoroutines :: int
  peakActionGoroutines :: int
  executingActions :: int
  peakExecutingActions :: int
  packageDependencyWaitNS :: int
  analyzerDependencyWaitNS :: int
  sourceLoads :: int
  exportLoads :: int

record schedulerStats =
  rootActions :: int
  horizontalEdges :: int
  verticalEdges :: int
  sourceActions :: int
  statSourceLoads :: int
  statExportLoads :: int
  statPeakPackageWorkers :: int
  statPeakActionGoroutines :: int
  statPeakExecutingActions :: int
  packageDependencyWait :: int
  analyzerDependencyWait :: int

definition updatePeak :: "int \<Rightarrow> int \<Rightarrow> int" where
  "updatePeak previous current' = (if current' \<le> previous then previous else current')"

definition packageWorkerStarted :: "schedulerMetrics option \<Rightarrow> schedulerMetrics option" where
  "packageWorkerStarted = map_option (\<lambda>m. let v = packageWorkers m + 1 in
     m\<lparr>packageWorkers := v, peakPackageWorkers := updatePeak (peakPackageWorkers m) v\<rparr>)"

definition packageWorkerFinished :: "schedulerMetrics option \<Rightarrow> schedulerMetrics option" where
  "packageWorkerFinished = map_option (\<lambda>m. m\<lparr>packageWorkers := packageWorkers m - 1\<rparr>)"

definition actionGoroutineStarted :: "schedulerMetrics option \<Rightarrow> schedulerMetrics option" where
  "actionGoroutineStarted = map_option (\<lambda>m. let v = actionGoroutines m + 1 in
     m\<lparr>actionGoroutines := v, peakActionGoroutines := updatePeak (peakActionGoroutines m) v\<rparr>)"

definition actionGoroutineFinished :: "schedulerMetrics option \<Rightarrow> schedulerMetrics option" where
  "actionGoroutineFinished = map_option (\<lambda>m. m\<lparr>actionGoroutines := actionGoroutines m - 1\<rparr>)"

definition actionExecutionStarted :: "schedulerMetrics option \<Rightarrow> schedulerMetrics option" where
  "actionExecutionStarted = map_option (\<lambda>m. let v = executingActions m + 1 in
     m\<lparr>executingActions := v, peakExecutingActions := updatePeak (peakExecutingActions m) v\<rparr>)"

definition actionExecutionFinished :: "schedulerMetrics option \<Rightarrow> schedulerMetrics option" where
  "actionExecutionFinished = map_option (\<lambda>m. m\<lparr>executingActions := executingActions m - 1\<rparr>)"

definition addPackageDependencyWait :: "int \<Rightarrow> schedulerMetrics option \<Rightarrow> schedulerMetrics option" where
  "addPackageDependencyWait elapsed = map_option (\<lambda>m. m\<lparr>packageDependencyWaitNS := packageDependencyWaitNS m + elapsed\<rparr>)"

definition addAnalyzerDependencyWait :: "int \<Rightarrow> schedulerMetrics option \<Rightarrow> schedulerMetrics option" where
  "addAnalyzerDependencyWait elapsed = map_option (\<lambda>m. m\<lparr>analyzerDependencyWaitNS := analyzerDependencyWaitNS m + elapsed\<rparr>)"

definition sourceLoaded :: "schedulerMetrics option \<Rightarrow> schedulerMetrics option" where
  "sourceLoaded = map_option (\<lambda>m. m\<lparr>sourceLoads := sourceLoads m + 1\<rparr>)"

definition exportLoaded :: "schedulerMetrics option \<Rightarrow> schedulerMetrics option" where
  "exportLoaded = map_option (\<lambda>m. m\<lparr>exportLoads := exportLoads m + 1\<rparr>)"

definition zeroStats :: schedulerStats where
  "zeroStats = \<lparr>rootActions = 0, horizontalEdges = 0, verticalEdges = 0, sourceActions = 0, statSourceLoads = 0,
     statExportLoads = 0, statPeakPackageWorkers = 0, statPeakActionGoroutines = 0, statPeakExecutingActions = 0,
     packageDependencyWait = 0, analyzerDependencyWait = 0\<rparr>"

definition collectSchedulerGraphStats :: "Graph \<Rightarrow> nat list \<Rightarrow> nat list \<Rightarrow> schedulerStats" where
  "collectSchedulerGraphStats g acts roots =
     fold (\<lambda>act stats. fold (\<lambda>dep stats.
         if Package g dep = Package g act then stats\<lparr>horizontalEdges := horizontalEdges stats + 1\<rparr>
         else stats\<lparr>verticalEdges := verticalEdges stats + 1\<rparr>) (Deps g act) stats)
       acts (zeroStats\<lparr>rootActions := int (length roots)\<rparr>)"

definition metrics_finish :: "schedulerMetrics option \<Rightarrow> (nat \<Rightarrow> bool) \<Rightarrow> nat list \<Rightarrow> schedulerStats \<Rightarrow> schedulerStats" where
  "metrics_finish m needAnalyzeSource acts stats =
     (case m of
        None \<Rightarrow> stats
      | Some m \<Rightarrow>
          (fold (\<lambda>act stats. if needAnalyzeSource act then stats\<lparr>sourceActions := sourceActions stats + 1\<rparr> else stats) acts stats)
          \<lparr>statSourceLoads := sourceLoads m, statExportLoads := exportLoads m,
           statPeakPackageWorkers := peakPackageWorkers m, statPeakActionGoroutines := peakActionGoroutines m,
           statPeakExecutingActions := peakExecutingActions m, packageDependencyWait := packageDependencyWaitNS m,
           analyzerDependencyWait := analyzerDependencyWaitNS m\<rparr>)"

section \<open>Concurrent updates of a peak\<close>

text \<open>A gauge with its peak. A goroutine inside \<open>updatePeak\<close> is an entry of \<open>pending\<close>: the value it holds and
  the peak it has loaded, \<^const>\<open>None\<close> before the load. \<open>highest\<close> is the highest value the gauge ever had.\<close>

record gauge =
  current :: int
  peak :: int
  pending :: "(int \<times> int option) list"
  highest :: int

definition zeroGauge :: gauge where
  "zeroGauge = \<lparr>current = 0, peak = 0, pending = [], highest = 0\<rparr>"

inductive peak_step :: "gauge \<Rightarrow> gauge \<Rightarrow> bool" where
  load: "pending s = xs @ (v, None) # ys \<Longrightarrow> peak_step s (s\<lparr>pending := xs @ (v, Some (peak s)) # ys\<rparr>)"
| lower: "pending s = xs @ (v, Some p) # ys \<Longrightarrow> v \<le> p \<Longrightarrow> peak_step s (s\<lparr>pending := xs @ ys\<rparr>)"
| swap: "pending s = xs @ (v, Some p) # ys \<Longrightarrow> p < v \<Longrightarrow> peak s = p \<Longrightarrow> peak_step s (s\<lparr>peak := v, pending := xs @ ys\<rparr>)"
| retry: "pending s = xs @ (v, Some p) # ys \<Longrightarrow> p < v \<Longrightarrow> peak s \<noteq> p \<Longrightarrow>
    peak_step s (s\<lparr>pending := xs @ (v, None) # ys\<rparr>)"

inductive gauge_reachable :: "gauge \<Rightarrow> bool" where
  init: "gauge_reachable zeroGauge"
| started: "gauge_reachable s \<Longrightarrow> gauge_reachable
    (s\<lparr>current := current s + 1, pending := pending s @ [(current s + 1, None)], highest := max (highest s) (current s + 1)\<rparr>)"
| finished: "gauge_reachable s \<Longrightarrow> gauge_reachable (s\<lparr>current := current s - 1\<rparr>)"
| update: "gauge_reachable s \<Longrightarrow> peak_step s s' \<Longrightarrow> gauge_reachable s'"

definition entry_ok :: "int \<Rightarrow> int \<Rightarrow> int \<times> int option \<Rightarrow> bool" where
  "entry_ok high pk e \<longleftrightarrow> fst e \<le> high \<and> (\<forall>p. snd e = Some p \<longrightarrow> p \<le> pk)"

definition gauge_ok :: "gauge \<Rightarrow> bool" where
  "gauge_ok s \<longleftrightarrow> current s \<le> highest s \<and> peak s \<le> highest s \<and>
     list_all (entry_ok (highest s) (peak s)) (pending s) \<and>
     (peak s = highest s \<or> highest s \<in> fst ` set (pending s))"

lemma entries_mono:
  "list_all (entry_ok h p) es \<Longrightarrow> h \<le> h' \<Longrightarrow> p \<le> p' \<Longrightarrow> list_all (entry_ok h' p') es"
  by (induction es) (auto simp: entry_ok_def)

lemma peak_step_ok:
  assumes "peak_step s s'" "gauge_ok s"
  shows "gauge_ok s'"
  using assms(1)
proof cases
  case (swap xs v p ys)
  then have "list_all (entry_ok (highest s) v) (xs @ ys)"
    using assms(2) entries_mono [of "highest s" "peak s" "xs @ ys" "highest s" v] by (simp add: gauge_ok_def)
  then show ?thesis using assms(2) swap by (auto simp: gauge_ok_def entry_ok_def)
qed (use assms(2) in \<open>auto simp: gauge_ok_def entry_ok_def\<close>)

lemma gauge_reachable_ok: "gauge_reachable s \<Longrightarrow> gauge_ok s"
proof (induction rule: gauge_reachable.induct)
  case init
  then show ?case by (simp add: gauge_ok_def zeroGauge_def)
next
  case (started s)
  then have "list_all (entry_ok (max (highest s) (current s + 1)) (peak s)) (pending s)"
    using entries_mono [of "highest s" "peak s" "pending s"] by (simp add: gauge_ok_def)
  then show ?case using started.IH by (auto simp: gauge_ok_def max_def entry_ok_def)
next
  case (finished s)
  then show ?case by (simp add: gauge_ok_def)
next
  case (update s s')
  then show ?case using peak_step_ok by blast
qed

text \<open>The work left for the goroutines inside \<open>updatePeak\<close>: a swap makes the loaded peaks of the others stale,
  but ends one of them.\<close>

definition entryWork :: "int \<Rightarrow> int \<times> int option \<Rightarrow> nat" where
  "entryWork pk e = (case snd e of None \<Rightarrow> 2 | Some p \<Rightarrow> if p = pk then 1 else 3)"

definition peakWork :: "gauge \<Rightarrow> nat" where
  "peakWork s = 2 * (length (pending s) * length (pending s)) + sum_list (map (entryWork (peak s)) (pending s))"

lemma entryWork_le: "sum_list (map (entryWork p) es) \<le> sum_list (map (entryWork q) es) + 2 * length es"
  by (induction es) (auto simp: entryWork_def split: option.splits)

lemma peak_step_work: "peak_step s s' \<Longrightarrow> peakWork s' < peakWork s"
proof (induction rule: peak_step.induct)
  case (swap s xs v p ys)
  have "sum_list (map (entryWork v) (xs @ ys)) \<le> sum_list (map (entryWork (peak s)) (xs @ ys)) + 2 * length (xs @ ys)"
    by (rule entryWork_le)
  then show ?case using swap by (simp add: peakWork_def entryWork_def algebra_simps)
qed (simp_all add: peakWork_def entryWork_def)

lemma peak_step_progress: "pending s \<noteq> [] \<Longrightarrow> \<exists>s'. peak_step s s'"
proof -
  assume "pending s \<noteq> []"
  then obtain v lp ys where e: "pending s = [] @ (v, lp) # ys" by (cases "pending s") auto
  show ?thesis
  proof (cases lp)
    case None
    then show ?thesis using peak_step.load e by blast
  next
    case (Some p)
    then show ?thesis using peak_step.lower peak_step.swap peak_step.retry e by (metis linorder_not_less)
  qed
qed

text \<open>C22: However the goroutines interleave inside the compare-and-swap loop, the recorded peak never exceeds the
  highest value the gauge had, equals it as soon as no goroutine is inside the loop, which is what updating it
  at once would give, and the loop is lock-free: while some goroutine is inside, a step is possible, and every
  sequence of such steps is bounded by a measure of the state.\<close>

theorem peak_records_maximum:
  assumes "gauge_reachable s"
  shows "peak s \<le> highest s \<and> current s \<le> highest s \<and> (pending s = [] \<longrightarrow> peak s = highest s) \<and>
    (pending s \<noteq> [] \<longrightarrow> (\<exists>s'. peak_step s s')) \<and> (\<forall>s'. peak_step s s' \<longrightarrow> peakWork s' < peakWork s \<and> highest s' = highest s) \<and>
    (\<forall>v. updatePeak (peak s) v = max (peak s) v)"
  using gauge_reachable_ok [OF assms] peak_step_progress peak_step_work
  by (auto simp: gauge_ok_def updatePeak_def elim: peak_step.cases)

theorem peak_records_maximum_witness:
  "\<exists>s. gauge_reachable s \<and> current s = 1 \<and> pending s = [] \<and> peak s = highest s \<and> highest s = 1"
proof -
  let ?s1 = "\<lparr>current = 1, peak = 0, pending = [(1, None)], highest = 1\<rparr> :: gauge"
  let ?s2 = "?s1\<lparr>pending := [(1, Some 0)]\<rparr>"
  let ?s3 = "?s2\<lparr>peak := 1, pending := []\<rparr>"
  have "gauge_reachable ?s1" using gauge_reachable.started [OF gauge_reachable.init] by (simp add: zeroGauge_def)
  moreover have "peak_step ?s1 ?s2" using peak_step.load [of ?s1 "[]" 1 "[]"] by simp
  moreover have "peak_step ?s2 ?s3" using peak_step.swap [of ?s2 "[]" 1 0 "[]"] by simp
  ultimately have r: "gauge_reachable ?s3" by (blast intro: gauge_reachable.update)
  then have "peak ?s3 = highest ?s3" using peak_records_maximum [OF r] by simp
  then show ?thesis using r by (intro exI [of _ ?s3]) simp
qed

section \<open>Statistics of the graph\<close>

lemma inner_edges:
  "fold (\<lambda>dep stats. if Package g dep = Package g act then stats\<lparr>horizontalEdges := horizontalEdges stats + 1\<rparr>
      else stats\<lparr>verticalEdges := verticalEdges stats + 1\<rparr>) ds stats =
   stats\<lparr>horizontalEdges := horizontalEdges stats + int (length (filter (\<lambda>d. Package g d = Package g act) ds)),
         verticalEdges := verticalEdges stats + int (length (filter (\<lambda>d. Package g d \<noteq> Package g act) ds))\<rparr>"
  by (induction ds arbitrary: stats) simp_all

text \<open>Horizontal edges are those the scheduler of one package waits for; every edge is counted once.\<close>

lemma graph_stats_edges:
  "horizontalEdges (collectSchedulerGraphStats g acts roots) = int (length (concat (map (sameDeps g) acts)))"
  "horizontalEdges (collectSchedulerGraphStats g acts roots) + verticalEdges (collectSchedulerGraphStats g acts roots) =
     int (length (concat (map (Deps g) acts)))"
proof -
  let ?f = "\<lambda>act stats. fold (\<lambda>dep stats.
         if Package g dep = Package g act then stats\<lparr>horizontalEdges := horizontalEdges stats + 1\<rparr>
         else stats\<lparr>verticalEdges := verticalEdges stats + 1\<rparr>) (Deps g act) stats"
  let ?v = "\<lambda>a. filter (\<lambda>d. Package g d \<noteq> Package g a) (Deps g a)"
  have h: "horizontalEdges (fold ?f acts s) = horizontalEdges s + int (length (concat (map (sameDeps g) acts)))" for s
    by (induction acts arbitrary: s) (simp_all add: inner_edges sameDeps_def)
  have v: "verticalEdges (fold ?f acts s) = verticalEdges s + int (length (concat (map ?v acts)))" for s
    by (induction acts arbitrary: s) (simp_all add: inner_edges)
  have c: "length (sameDeps g a) + length (?v a) = length (Deps g a)" for a
    unfolding sameDeps_def by (rule sum_length_filter_compl)
  have e: "length (concat (map (sameDeps g) acts)) + length (concat (map ?v acts)) = length (concat (map (Deps g) acts))"
  proof (induction acts)
    case (Cons a acts)
    then show ?case using c [of a] by simp
  qed simp
  show "horizontalEdges (collectSchedulerGraphStats g acts roots) = int (length (concat (map (sameDeps g) acts)))"
    unfolding collectSchedulerGraphStats_def h by (simp add: zeroStats_def)
  show "horizontalEdges (collectSchedulerGraphStats g acts roots) + verticalEdges (collectSchedulerGraphStats g acts roots) =
     int (length (concat (map (Deps g) acts)))"
    unfolding collectSchedulerGraphStats_def h v e [symmetric] by (simp add: zeroStats_def)
qed

end
