(* ===== verification/Packages.thy ===== *)
theory Packages
  imports Linters_DB Filepath Source_Processors
begin

text \<open>
  Loading packages and narrowing them to the changed ones: \<open>pkg/lint/package.go\<close>,
  \<open>pkg/lint/narrow.go\<close> and \<open>pkg/lint/context.go\<close>.

  A package of \<open>golang.org/x/tools/go/packages\<close> is identified by its address, a number; the store maps
  addresses to packages, since the loader changes the errors of a package in place. The list of imports
  is the map \<open>Imports\<close> in the order in which one iteration visits it. Parameters are \<open>packages.Load\<close>,
  the evaluation of symbolic links, the working directory, the checker of \<open>revgrep\<close> and its list of
  changed files. File sets, load guards and debug output are left out.
\<close>

section \<open>Packages\<close>

record Package =
  ID :: string
  pkgName :: string
  PkgPath :: string
  pkgErrors :: "string list"
  Imports :: "nat list"
  GoFiles :: "string list"
  CompiledGoFiles :: "string list"
  OtherFiles :: "string list"
  IgnoredFiles :: "string list"
  EmbedFiles :: "string list"

record Store =
  loaded :: "nat list"
  pkg :: "nat \<Rightarrow> Package"

record RunConfig =
  AnalyzeTests :: bool
  BuildTags :: "string list"
  ModulesDownloadMode :: string
  EnableBuildVCS :: bool

section \<open>The loader\<close>

definition makeBuildFlags :: "RunConfig \<Rightarrow> string list" where
  "makeBuildFlags cfg =
     (if BuildTags cfg \<noteq> [] then [''-tags'', Join (BuildTags cfg) '' ''] else []) @
     (if ModulesDownloadMode cfg \<noteq> [] then [''-mod='' @ ModulesDownloadMode cfg] else []) @
     (if \<not> EnableBuildVCS cfg then [''-buildvcs=false''] else [])"

definition buildArgs :: "string list \<Rightarrow> string list" where
  "buildArgs args =
     (if args = [] then [''./...'']
      else map (\<lambda>arg. if HasPrefix arg ''.'' \<or> FilepathIsAbs arg then arg else ''./'' @ arg) args)"

definition findLoadMode :: "LinterConfig list \<Rightarrow> LoadFlag set" where
  "findLoadMode linters = fold (\<lambda>lc mode. mode \<union> lcLoadMode lc) linters {}"

text \<open>The environment that the loader changes: \<open>GOROOT\<close> and the default build context.\<close>

record BuildContext =
  GOROOT :: string
  ctxGOROOT :: string
  ctxBuildTags :: "string list"

definition prepareBuildContext :: "string \<Rightarrow> RunConfig \<Rightarrow> BuildContext \<Rightarrow> BuildContext" where
  "prepareBuildContext goroot cfg ctx =
     (if goroot = [] then ctx else ctx\<lparr>GOROOT := goroot, ctxGOROOT := goroot, ctxBuildTags := BuildTags cfg\<rparr>)"

datatype load_error =
    LoadFailed string
  | NoGoFilesIn string
  | CannotFindPackage string
  | NoGoFiles

text \<open>The errors of one package: those of \<open>go list\<close> are dropped, two kinds end the loading.\<close>

fun parsePackageErrors :: "Package \<Rightarrow> string list \<Rightarrow> string list \<Rightarrow> load_error + string list" where
  "parsePackageErrors p [] errs = Inr errs"
| "parsePackageErrors p (msg # msgs) errs =
     (if Contains msg ''# command-line-arguments'' then parsePackageErrors p msgs errs
      else if Contains msg ''no Go files'' then Inl (NoGoFilesIn (PkgPath p))
      else if Contains msg ''cannot find package'' then Inl (CannotFindPackage msg)
      else parsePackageErrors p msgs (errs @ [msg]))"

fun parseLoadedPackagesErrors :: "Store \<Rightarrow> nat list \<Rightarrow> load_error option \<times> Store" where
  "parseLoadedPackagesErrors st [] = (None, st)"
| "parseLoadedPackagesErrors st (p # ps) =
     (case parsePackageErrors (pkg st p) (pkgErrors (pkg st p)) [] of
        Inl err \<Rightarrow> (Some err, st)
      | Inr errs \<Rightarrow> parseLoadedPackagesErrors (st\<lparr>pkg := (pkg st)(p := (pkg st p)\<lparr>pkgErrors := errs\<rparr>)\<rparr>) ps)"

text \<open>The pattern of the identifiers of test variants, \<open>^(.*) \[(.*)\.test\]\<close>: the longest prefix of the
  first line that is followed by a blank, a bracket and a text ending in \<open>.test]\<close>.\<close>

definition testSuffix :: "string \<Rightarrow> bool" where
  "testSuffix s \<longleftrightarrow> HasPrefix s '' ['' \<and> Contains (takeWhile (\<lambda>c. c \<noteq> newline) (drop 2 s)) ''.test]''"

fun testName :: "nat \<Rightarrow> string \<Rightarrow> string option" where
  "testName i s =
     (if newline \<notin> set (take i s) \<and> testSuffix (drop i s) then Some (take i s)
      else if i = 0 then None else testName (i - 1) s)"

definition tryParseTestPackage :: "Package \<Rightarrow> string \<times> bool" where
  "tryParseTestPackage p = (case testName (length (ID p)) (ID p) of None \<Rightarrow> ([], False) | Some name \<Rightarrow> (name, True))"

definition filterDuplicatePackages :: "Store \<Rightarrow> nat list \<Rightarrow> nat list" where
  "filterDuplicatePackages st pkgs =
     (let packagesWithTests = fold (\<lambda>p s. let (name, isTest) = tryParseTestPackage (pkg st p)
                                          in if \<not> isTest then s else insert name s) pkgs {}
      in filter (\<lambda>p. \<not> (\<not> snd (tryParseTestPackage (pkg st p)) \<and> PkgPath (pkg st p) \<in> packagesWithTests)) pkgs)"

definition filterTestMainPackages :: "Store \<Rightarrow> nat list \<Rightarrow> nat list" where
  "filterTestMainPackages st pkgs =
     filter (\<lambda>p. \<not> (pkgName (pkg st p) = ''main'' \<and> HasSuffix (PkgPath (pkg st p)) ''.test'')) pkgs"

record LoadConf =
  Mode :: "LoadFlag set"
  Tests :: bool
  BuildFlags :: "string list"

definition loadPackages ::
  "(BuildContext \<Rightarrow> LoadConf \<Rightarrow> string list \<Rightarrow> string + Store \<times> nat list) \<Rightarrow> string \<Rightarrow> RunConfig \<Rightarrow> string list \<Rightarrow>
   LoadFlag set \<Rightarrow> BuildContext \<Rightarrow> (load_error + Store \<times> nat list) \<times> BuildContext" where
  "loadPackages load goroot cfg args loadMode ctx =
     (let ctx = prepareBuildContext goroot cfg ctx;
          conf = \<lparr>Mode = loadMode, Tests = AnalyzeTests cfg, BuildFlags = makeBuildFlags cfg\<rparr>
      in (case load ctx conf (buildArgs args) of
            Inl err \<Rightarrow> Inl (LoadFailed err)
          | Inr (st, pkgs) \<Rightarrow>
              (case parseLoadedPackagesErrors st pkgs of
                 (Some err, st) \<Rightarrow> Inl err
               | (None, st) \<Rightarrow> Inr (st, filterTestMainPackages st pkgs)), ctx))"

definition PackageLoader_Load ::
  "(BuildContext \<Rightarrow> LoadConf \<Rightarrow> string list \<Rightarrow> string + Store \<times> nat list) \<Rightarrow> string \<Rightarrow> RunConfig \<Rightarrow> string list \<Rightarrow>
   LinterConfig list \<Rightarrow> BuildContext \<Rightarrow> (load_error + Store \<times> nat list \<times> nat list) \<times> BuildContext" where
  "PackageLoader_Load load goroot cfg args linters ctx =
     (case loadPackages load goroot cfg args (findLoadMode linters) ctx of
        (Inl err, ctx) \<Rightarrow> (Inl err, ctx)
      | (Inr (st, pkgs), ctx) \<Rightarrow> (Inr (st, pkgs, filterDuplicatePackages st pkgs), ctx))"

section \<open>Narrowing\<close>

definition moduleFiles :: "string list" where
  "moduleFiles = [''go.mod'', ''go.work'']"

text \<open>\<open>errorReachability\<close>: the memo is the state of the closure; a package is entered as false before its
  imports are visited. The fuel bounds the nesting of the recursion.\<close>

type_synonym memo = "nat \<rightharpoonup> bool"

fun visit :: "nat \<Rightarrow> Store \<Rightarrow> nat \<Rightarrow> memo \<Rightarrow> (bool \<times> memo) option"
  and visitImports :: "nat \<Rightarrow> Store \<Rightarrow> nat list \<Rightarrow> bool \<Rightarrow> memo \<Rightarrow> (bool \<times> memo) option" where
  "visit 0 st p memo = None"
| "visit (Suc n) st p memo =
     (case memo p of
        Some result \<Rightarrow> Some (result, memo)
      | None \<Rightarrow>
          (case visitImports n st (Imports (pkg st p)) (pkgErrors (pkg st p) \<noteq> []) (memo(p \<mapsto> False)) of
             None \<Rightarrow> None
           | Some (result, memo) \<Rightarrow> Some (result, memo(p \<mapsto> result))))"
| "visitImports n st [] result memo = Some (result, memo)"
| "visitImports n st (imp # imps) result memo =
     (case visit n st imp memo of
        None \<Rightarrow> None
      | Some (r, memo) \<Rightarrow> visitImports n st imps (if r then True else result) memo)"

definition hasErrors :: "Store \<Rightarrow> nat \<Rightarrow> memo \<Rightarrow> bool \<times> memo" where
  "hasErrors st p memo = (case visit (Suc (length (loaded st))) st p memo of Some r \<Rightarrow> r | None \<Rightarrow> (False, memo))"

text \<open>The set of changed paths, with the directories resolved so far.\<close>

record pathSet =
  paths :: "string set"
  resolved :: "string \<rightharpoonup> string"

definition newPathSet :: pathSet where
  "newPathSet = \<lparr>paths = {}, resolved = Map.empty\<rparr>"

definition FilepathSplit :: "string \<Rightarrow> string \<times> string" where
  "FilepathSplit path = (rev (dropWhile (\<lambda>c. c \<noteq> slash) (rev path)), rev (takeWhile (\<lambda>c. c \<noteq> slash) (rev path)))"

definition pathSet_resolve :: "(string \<Rightarrow> string + string) \<Rightarrow> string \<Rightarrow> pathSet \<Rightarrow> string \<times> pathSet" where
  "pathSet_resolve EvalSymlinks path s =
     (let (dir, base) = FilepathSplit (Clean path) in
      case resolved s dir of
        Some resolvedDir \<Rightarrow> (FilepathJoin [resolvedDir, base], s)
      | None \<Rightarrow>
          (let resolvedDir = (case EvalSymlinks dir of Inr evaluated \<Rightarrow> evaluated | Inl err \<Rightarrow> dir)
           in (FilepathJoin [resolvedDir, base], s\<lparr>resolved := (resolved s)(dir \<mapsto> resolvedDir)\<rparr>)))"

definition pathSet_add :: "(string \<Rightarrow> string + string) \<Rightarrow> string \<Rightarrow> pathSet \<Rightarrow> pathSet" where
  "pathSet_add EvalSymlinks path s =
     (let s = s\<lparr>paths := insert (Clean path) (paths s)\<rparr>;
          (r, s) = pathSet_resolve EvalSymlinks path s
      in s\<lparr>paths := insert r (paths s)\<rparr>)"

fun containsAny :: "(string \<Rightarrow> string + string) \<Rightarrow> string list \<Rightarrow> pathSet \<Rightarrow> bool \<times> pathSet" where
  "containsAny EvalSymlinks [] s = (False, s)"
| "containsAny EvalSymlinks (path # ps) s =
     (if Clean path \<in> paths s then (True, s)
      else let (r, s) = pathSet_resolve EvalSymlinks path s
           in if r \<in> paths s then (True, s) else containsAny EvalSymlinks ps s)"

fun addChanged :: "(string \<Rightarrow> string + string) \<Rightarrow> string \<Rightarrow> string list \<Rightarrow> pathSet \<Rightarrow> pathSet option" where
  "addChanged EvalSymlinks wd [] s = Some s"
| "addChanged EvalSymlinks wd (file' # files) s =
     (if FilepathBase file' \<in> set moduleFiles then None
      else addChanged EvalSymlinks wd files
             (pathSet_add EvalSymlinks (if \<not> FilepathIsAbs file' then FilepathJoin [wd, file'] else file') s))"

definition packageFiles :: "Package \<Rightarrow> string list" where
  "packageFiles p = GoFiles p @ CompiledGoFiles p @ OtherFiles p @ IgnoredFiles p @ EmbedFiles p"

fun keepChanged :: "(string \<Rightarrow> string + string) \<Rightarrow> Store \<Rightarrow> nat list \<Rightarrow> memo \<Rightarrow> pathSet \<Rightarrow> nat list" where
  "keepChanged EvalSymlinks st [] memo changed = []"
| "keepChanged EvalSymlinks st (p # ps) memo changed =
     (let (err, memo) = hasErrors st p memo in
      if err then p # keepChanged EvalSymlinks st ps memo changed
      else let (c, changed) = containsAny EvalSymlinks (packageFiles (pkg st p)) changed
           in if c then p # keepChanged EvalSymlinks st ps memo changed
              else keepChanged EvalSymlinks st ps memo changed)"

definition changedPackages ::
  "(string \<Rightarrow> string + string) \<Rightarrow> Store \<Rightarrow> nat list \<Rightarrow> string list \<Rightarrow> string \<Rightarrow> nat list option" where
  "changedPackages EvalSymlinks st pkgs changedFiles wd =
     (case addChanged EvalSymlinks wd changedFiles newPathSet of
        None \<Rightarrow> None
      | Some changed \<Rightarrow> Some (keepChanged EvalSymlinks st pkgs Map.empty changed))"

section \<open>The context\<close>

record NarrowEnv =
  getenvAnalyzeAll :: string
  getwd :: "string + string"
  evalSymlinks :: "string \<Rightarrow> string + string"
  ChangedFiles :: "checker \<Rightarrow> string list"
  diffEnv :: DiffEnv

definition diffNarrowingDisabled :: "NarrowEnv \<Rightarrow> bool" where
  "diffNarrowingDisabled env \<longleftrightarrow> getenvAnalyzeAll env = ''1''"

definition narrowToChanges ::
  "NarrowEnv \<Rightarrow> nat \<times> IssuesConfig \<Rightarrow> preparedDiffs \<Rightarrow> Store \<Rightarrow> nat list \<Rightarrow> nat list \<Rightarrow> (nat list \<times> nat list) \<times> preparedDiffs" where
  "narrowToChanges env cfg cache st pkgs deduplicatedPkgs =
     (if diffNarrowingDisabled env then ((pkgs, deduplicatedPkgs), cache)
      else case PrepareDiff (diffEnv env) cfg cache of
        (Inl err, cache) \<Rightarrow> ((pkgs, deduplicatedPkgs), cache)
      | (Inr None, cache) \<Rightarrow> ((pkgs, deduplicatedPkgs), cache)
      | (Inr (Some chk), cache) \<Rightarrow>
          (case getwd env of
             Inl err \<Rightarrow> ((pkgs, deduplicatedPkgs), cache)
           | Inr wd \<Rightarrow>
               (case changedPackages (evalSymlinks env) st deduplicatedPkgs (ChangedFiles env chk) wd of
                  None \<Rightarrow> ((pkgs, deduplicatedPkgs), cache)
                | Some keptDeduplicated \<Rightarrow>
                    ((case changedPackages (evalSymlinks env) st pkgs (ChangedFiles env chk) wd of
                        None \<Rightarrow> [] | Some keptOriginal \<Rightarrow> keptOriginal, keptDeduplicated), cache))))"

record LintContext =
  ctxPackages :: "nat list"
  OriginalPackages :: "nat list"

definition ContextBuilder_Build ::
  "(BuildContext \<Rightarrow> LoadConf \<Rightarrow> string list \<Rightarrow> string + Store \<times> nat list) \<Rightarrow> NarrowEnv \<Rightarrow> string \<Rightarrow> RunConfig \<Rightarrow>
   string list \<Rightarrow> nat \<times> IssuesConfig \<Rightarrow> LinterConfig list \<Rightarrow> BuildContext \<Rightarrow> preparedDiffs \<Rightarrow>
   (load_error + Store \<times> LintContext) \<times> BuildContext \<times> preparedDiffs" where
  "ContextBuilder_Build load env goroot cfg args issuesCfg linters ctx cache =
     (case PackageLoader_Load load goroot cfg args linters ctx of
        (Inl err, ctx) \<Rightarrow> (Inl err, ctx, cache)
      | (Inr (st, pkgs, deduplicatedPkgs), ctx) \<Rightarrow>
          if deduplicatedPkgs = [] then (Inl NoGoFiles, ctx, cache)
          else (let ((pkgs, deduplicatedPkgs), cache) = narrowToChanges env issuesCfg cache st pkgs deduplicatedPkgs
                in (Inr (st, \<lparr>ctxPackages = deduplicatedPkgs, OriginalPackages = pkgs\<rparr>), ctx, cache)))"

section \<open>The search for errors\<close>

text \<open>The recursion ends on every finite graph, also on a cyclic one: each nested call enters a package.\<close>

definition importsClosed :: "Store \<Rightarrow> nat set \<Rightarrow> bool" where
  "importsClosed st U \<longleftrightarrow> (\<forall>p \<in> U. set (Imports (pkg st p)) \<subseteq> U)"

lemma visit_returns:
  assumes fin: "finite U"
  shows "importsClosed st U \<Longrightarrow> p \<in> U \<Longrightarrow> card (U - dom memo) < n \<Longrightarrow>
      \<exists>r m. visit n st p memo = Some (r, m) \<and> dom memo \<subseteq> dom m"
    and "importsClosed st U \<Longrightarrow> set imps \<subseteq> U \<Longrightarrow> card (U - dom memo) < n \<Longrightarrow>
      \<exists>r m. visitImports n st imps res0 memo = Some (r, m) \<and> dom memo \<subseteq> dom m"
proof (induction n st p memo and n st imps res0 memo rule: visit_visitImports.induct)
  case (2 n st p memo)
  show ?case
  proof (cases "memo p")
    case None
    have eq: "U - dom (memo(p \<mapsto> False)) = (U - dom memo) - {p}" by auto
    have "p \<in> U - dom memo" using None 2 by auto
    then have "card ((U - dom memo) - {p}) < card (U - dom memo)" using fin by (intro card_Diff1_less) auto
    then have "card (U - dom (memo(p \<mapsto> False))) < n" unfolding eq using 2(4) by linarith
    moreover have "set (Imports (pkg st p)) \<subseteq> U" using 2 by (simp add: importsClosed_def)
    ultimately obtain r m where "visitImports n st (Imports (pkg st p)) (pkgErrors (pkg st p) \<noteq> []) (memo(p \<mapsto> False)) = Some (r, m)"
      "dom (memo(p \<mapsto> False)) \<subseteq> dom m" using 2 None by blast
    then show ?thesis using None by auto
  qed simp
next
  case (4 n st imp imps result memo)
  then obtain r m where v: "visit n st imp memo = Some (r, m)" "dom memo \<subseteq> dom m" by auto
  then have "card (U - dom m) \<le> card (U - dom memo)" using fin by (intro card_mono) auto
  then have "card (U - dom m) < n" using 4 by simp
  then obtain r' m' where "visitImports n st imps (if r then True else result) m = Some (r', m')" "dom m \<subseteq> dom m'"
    using 4 v by (metis list.set_intros(2) subset_code(1))
  then show ?case using v by auto
qed auto

text \<open>What the search computes: whether a package with errors can be reached over imports.\<close>

inductive reachesError :: "Store \<Rightarrow> nat \<Rightarrow> bool" for st where
  own: "pkgErrors (pkg st p) \<noteq> [] \<Longrightarrow> reachesError st p"
| imported: "imp \<in> set (Imports (pkg st p)) \<Longrightarrow> reachesError st imp \<Longrightarrow> reachesError st p"

lemma reachesError_iff:
  "reachesError st p \<longleftrightarrow> pkgErrors (pkg st p) \<noteq> [] \<or> (\<exists>imp \<in> set (Imports (pkg st p)). reachesError st imp)"
  by (auto elim: reachesError.cases intro: reachesError.intros)

definition memoCorrect :: "Store \<Rightarrow> nat set \<Rightarrow> memo \<Rightarrow> bool" where
  "memoCorrect st S memo \<longleftrightarrow> (\<forall>q r. memo q = Some r \<longrightarrow> q \<notin> S \<longrightarrow> r = reachesError st q)"

definition importsRanked :: "Store \<Rightarrow> (nat \<Rightarrow> nat) \<Rightarrow> bool" where
  "importsRanked st rank \<longleftrightarrow> (\<forall>p. \<forall>imp \<in> set (Imports (pkg st p)). rank imp < rank p)"

text \<open>\<open>S\<close> are the packages being visited: their entries are provisional, and they are never asked for
  when imports are acyclic.\<close>

lemma visit_correct:
  shows "importsRanked st rank \<Longrightarrow> memoCorrect st S memo \<Longrightarrow> \<forall>s \<in> S. rank p < rank s \<Longrightarrow>
      visit n st p memo = Some (r, m) \<Longrightarrow> r = reachesError st p \<and> memoCorrect st S m"
    and "importsRanked st rank \<Longrightarrow> memoCorrect st S memo \<Longrightarrow> \<forall>i \<in> set imps. \<forall>s \<in> S. rank i < rank s \<Longrightarrow>
      visitImports n st imps res0 memo = Some (r, m) \<Longrightarrow>
      r = (res0 \<or> (\<exists>i \<in> set imps. reachesError st i)) \<and> memoCorrect st S m"
proof (induction n st p memo and n st imps res0 memo arbitrary: S r m and S r m rule: visit_visitImports.induct)
  case (2 n st p memo)
  show ?case
  proof (cases "memo p")
    case None
    have "p \<notin> S" using 2 by auto
    obtain r' m' where v: "visitImports n st (Imports (pkg st p)) (pkgErrors (pkg st p) \<noteq> []) (memo(p \<mapsto> False)) = Some (r', m')"
      and rm: "r = r'" "m = m'(p \<mapsto> r')" using 2 None by (auto split: option.splits)
    have "memoCorrect st (insert p S) (memo(p \<mapsto> False))" using 2 by (auto simp: memoCorrect_def)
    moreover have "\<forall>i \<in> set (Imports (pkg st p)). \<forall>s \<in> insert p S. rank i < rank s"
      using 2(2,4) unfolding importsRanked_def by (metis insert_iff less_trans)
    ultimately have "r' = (pkgErrors (pkg st p) \<noteq> [] \<or> (\<exists>i \<in> set (Imports (pkg st p)). reachesError st i)) \<and>
        memoCorrect st (insert p S) m'" using 2 None v by blast
    then show ?thesis using rm reachesError_iff [of st p] by (auto simp: memoCorrect_def)
  next
    case (Some x)
    have "p \<notin> S" using 2 by auto
    then show ?thesis using 2 Some by (auto simp: memoCorrect_def)
  qed
next
  case (4 n st imp imps result memo)
  from 4(6) obtain r' m' where v: "visit n st imp memo = Some (r', m')"
    "visitImports n st imps (if r' then True else result) m' = Some (r, m)" by (auto split: option.splits)
  have one: "r' = reachesError st imp \<and> memoCorrect st S m'"
    by (rule 4(1) [OF 4(3,4) _ v(1)]) (use 4(5) in simp)
  have "r = ((if r' then True else result) \<or> (\<exists>i \<in> set imps. reachesError st i)) \<and> memoCorrect st S m"
    by (rule 4(2) [OF v(1) refl 4(3) _ _ v(2)]) (use 4(5) one in simp_all)
  with one show ?case by auto
qed auto

lemma hasErrors_correct:
  assumes "importsRanked st rank" "importsClosed st (set (loaded st))" "p \<in> set (loaded st)" "memoCorrect st {} memo"
    "hasErrors st p memo = (r, m)"
  shows "r = reachesError st p \<and> memoCorrect st {} m"
proof -
  have "card (set (loaded st) - dom memo) \<le> card (set (loaded st))" by (intro card_mono) auto
  also have "\<dots> \<le> length (loaded st)" by (rule card_length)
  finally have "card (set (loaded st) - dom memo) < Suc (length (loaded st))" by simp
  then obtain r' m' where v: "visit (Suc (length (loaded st))) st p memo = Some (r', m')"
    using visit_returns(1) [OF _ assms(2,3)] by blast
  then have "r = r'" "m = m'" using assms(5) by (simp_all add: hasErrors_def del: visit.simps)
  then show ?thesis using visit_correct(1) [OF assms(1,4) _ v] by simp
qed

section \<open>The changed paths\<close>

definition resolveDir :: "(string \<Rightarrow> string + string) \<Rightarrow> string \<Rightarrow> string" where
  "resolveDir ev dir = (case ev dir of Inr evaluated \<Rightarrow> evaluated | Inl err \<Rightarrow> dir)"

definition resolvePath :: "(string \<Rightarrow> string + string) \<Rightarrow> string \<Rightarrow> string" where
  "resolvePath ev path = (let (dir, base) = FilepathSplit (Clean path) in FilepathJoin [resolveDir ev dir, base])"

text \<open>The names under which a path is known: as it is, and with its directory resolved.\<close>

definition pathKeys :: "(string \<Rightarrow> string + string) \<Rightarrow> string \<Rightarrow> string set" where
  "pathKeys ev path = {Clean path, resolvePath ev path}"

definition changedKeys :: "(string \<Rightarrow> string + string) \<Rightarrow> string \<Rightarrow> string list \<Rightarrow> string set" where
  "changedKeys ev wd files = (\<Union>f \<in> set files. pathKeys ev (if FilepathIsAbs f then f else FilepathJoin [wd, f]))"

definition resolvedOk :: "(string \<Rightarrow> string + string) \<Rightarrow> pathSet \<Rightarrow> bool" where
  "resolvedOk ev s \<longleftrightarrow> (\<forall>d v. resolved s d = Some v \<longrightarrow> v = resolveDir ev d)"

lemma pathSet_resolve_spec:
  assumes "resolvedOk ev s" "pathSet_resolve ev path s = (r, s')"
  shows "r = resolvePath ev path \<and> resolvedOk ev s' \<and> paths s' = paths s"
proof -
  obtain dir base where "FilepathSplit (Clean path) = (dir, base)" by fastforce
  then show ?thesis
    using assms by (auto simp: pathSet_resolve_def resolvePath_def resolvedOk_def resolveDir_def Let_def
        split: option.splits if_splits)
qed

lemma pathSet_add_spec:
  assumes "resolvedOk ev s"
  shows "resolvedOk ev (pathSet_add ev path s)" "paths (pathSet_add ev path s) = paths s \<union> pathKeys ev path"
proof -
  let ?s = "s\<lparr>paths := insert (Clean path) (paths s)\<rparr>"
  obtain r s' where r: "pathSet_resolve ev path ?s = (r, s')" by fastforce
  have "resolvedOk ev ?s" using assms by (simp add: resolvedOk_def)
  from pathSet_resolve_spec [OF this r] show
    "resolvedOk ev (pathSet_add ev path s)" "paths (pathSet_add ev path s) = paths s \<union> pathKeys ev path"
    using r by (auto simp: pathSet_add_def pathKeys_def resolvedOk_def)
qed

lemma addChanged_spec:
  assumes "resolvedOk ev s"
  shows "(\<exists>f \<in> set files. FilepathBase f \<in> set moduleFiles) \<Longrightarrow> addChanged ev wd files s = None"
    "\<forall>f \<in> set files. FilepathBase f \<notin> set moduleFiles \<Longrightarrow>
      \<exists>s'. addChanged ev wd files s = Some s' \<and> resolvedOk ev s' \<and> paths s' = paths s \<union> changedKeys ev wd files"
  using assms
proof (induction files arbitrary: s)
  case (Cons f files)
  {
    case 1
    then show ?case using Cons.IH(1) pathSet_add_spec(1) by auto
  next
    case 2
    let ?s = "pathSet_add ev (if FilepathIsAbs f then f else FilepathJoin [wd, f]) s"
    have "\<exists>s'. addChanged ev wd files ?s = Some s' \<and> resolvedOk ev s' \<and> paths s' = paths ?s \<union> changedKeys ev wd files"
      using 2 pathSet_add_spec(1) by (intro Cons.IH(2)) auto
    then show ?case using 2 pathSet_add_spec(2) [OF 2(2)] by (auto simp: changedKeys_def)
  }
qed (simp_all add: changedKeys_def)

lemma containsAny_spec:
  assumes "resolvedOk ev s" "containsAny ev ps s = (c, s')"
  shows "c = (\<exists>path \<in> set ps. pathKeys ev path \<inter> paths s \<noteq> {}) \<and> resolvedOk ev s' \<and> paths s' = paths s"
  using assms
proof (induction ps arbitrary: s)
  case (Cons path ps)
  obtain r s1 where r: "pathSet_resolve ev path s = (r, s1)" by fastforce
  show ?case
    using Cons.prems Cons.IH [of s1] pathSet_resolve_spec [OF Cons.prems(1) r]
    by (auto simp: r pathKeys_def split: if_splits)
qed auto

text \<open>The packages kept are those that reach an error or own a changed file.\<close>

definition affected :: "(string \<Rightarrow> string + string) \<Rightarrow> Store \<Rightarrow> string set \<Rightarrow> nat \<Rightarrow> bool" where
  "affected ev st keys p \<longleftrightarrow>
     reachesError st p \<or> (\<exists>path \<in> set (packageFiles (pkg st p)). pathKeys ev path \<inter> keys \<noteq> {})"

lemma keepChanged_spec:
  assumes "importsRanked st rank" "importsClosed st (set (loaded st))"
  shows "set ps \<subseteq> set (loaded st) \<Longrightarrow> memoCorrect st {} memo \<Longrightarrow> resolvedOk ev s \<Longrightarrow>
    keepChanged ev st ps memo s = filter (affected ev st (paths s)) ps"
proof (induction ps arbitrary: memo s)
  case (Cons p ps)
  obtain e m where e: "hasErrors st p memo = (e, m)" by fastforce
  have h: "e = reachesError st p" "memoCorrect st {} m"
    using hasErrors_correct [OF assms _ Cons.prems(2) e] Cons.prems(1) by auto
  obtain c s1 where c: "containsAny ev (packageFiles (pkg st p)) s = (c, s1)" by fastforce
  note k = containsAny_spec [OF Cons.prems(3) c]
  show ?case
  proof (cases e)
    case True
    then show ?thesis using Cons.IH [OF _ h(2) Cons.prems(3)] Cons.prems(1) e h(1) by (simp add: affected_def)
  next
    case False
    then show ?thesis using Cons.IH [OF _ h(2), of s1] Cons.prems(1) e h(1) k by (simp add: affected_def c)
  qed
qed simp

lemma changedPackages_exact:
  assumes "importsRanked st rank" "importsClosed st (set (loaded st))" "set pkgs \<subseteq> set (loaded st)"
  shows "changedPackages ev st pkgs files wd =
    (if \<exists>f \<in> set files. FilepathBase f \<in> set moduleFiles then None
     else Some (filter (affected ev st (changedKeys ev wd files)) pkgs))"
proof (cases "\<exists>f \<in> set files. FilepathBase f \<in> set moduleFiles")
  case False
  have n: "resolvedOk ev newPathSet" "paths newPathSet = {}" by (simp_all add: resolvedOk_def newPathSet_def)
  obtain s where "addChanged ev wd files newPathSet = Some s" "resolvedOk ev s" "paths s = changedKeys ev wd files"
    using addChanged_spec(2) [OF n(1), of files wd] False n(2) by auto
  moreover have "memoCorrect st {} Map.empty" by (simp add: memoCorrect_def)
  ultimately show ?thesis
    using keepChanged_spec [OF assms] False by (simp add: changedPackages_def)
next
  case True
  have n: "resolvedOk ev newPathSet" by (simp add: resolvedOk_def newPathSet_def)
  show ?thesis using addChanged_spec(1) [OF n True] True by (simp add: changedPackages_def)
qed

section \<open>Test variants\<close>

lemma testName_append:
  assumes "testSuffix t" "newline \<notin> set a" "\<And>i. length a < i \<Longrightarrow> i \<le> n \<Longrightarrow> \<not> testSuffix (drop i (a @ t))"
    "length a \<le> n"
  shows "testName n (a @ t) = Some a"
  using assms(3,4)
proof (induction n)
  case 0
  then show ?case using assms(1,2) by simp
next
  case (Suc n)
  then show ?case using assms(1,2) by (cases "length a = Suc n") auto
qed

text \<open>A prefix that occurs in the middle: the bracket of the variant is the last one.\<close>

lemma testSuffix_bracket: "testSuffix s \<Longrightarrow> HasPrefix s '' [''"
  by (simp add: testSuffix_def)

lemma Contains_append: "Contains (xs @ p @ ys) p"
  by (simp add: Contains_iff_sublist)

lemma drop_no_bracket:
  assumes "\<not> Contains b '' [''" "0 < i"
  shows "\<not> HasPrefix (drop i ('' ['' @ b @ ''.test]'')) '' [''"
proof
  assume h: "HasPrefix (drop i ('' ['' @ b @ ''.test]'')) '' [''"
  show False
  proof (cases "i = 1")
    case True
    then show False using h by (simp add: HasPrefix_def)
  next
    case False
    then obtain j where j: "i = j + 2" using assms(2) by (metis One_nat_def Suc_1 add.commute add_2_eq_Suc less_imp_Suc_add add_Suc_right plus_1_eq_Suc nat.exhaust not_less0)
    have "drop j (b @ ''.test]'') = drop j b @ drop (j - length b) ''.test]''" by simp
    then have h2: "HasPrefix (drop j b @ drop (j - length b) ''.test]'') '' [''" using h j by simp
    show False
    proof (cases "2 \<le> length (drop j b)")
      case True
      then have "take 2 (drop j b) = '' [''" using h2 by (simp add: HasPrefix_def numeral_2_eq_2)
      then have "b = take j b @ '' ['' @ drop 2 (drop j b)" by (metis append_take_drop_id)
      then show False using assms(1) Contains_append by metis
    next
      case F: False
      then consider "drop j b = []" | c where "drop j b = [c]"
        by (cases "drop j b"; cases "tl (drop j b)") auto
      then show False
      proof cases
        case 1
        then have "CHR '' '' \<in> set (take 2 (drop (j - length b) ''.test]''))" using h2 by (simp add: HasPrefix_def numeral_2_eq_2)
        then have "CHR '' '' \<in> set ''.test]''" by (meson in_set_dropD in_set_takeD)
        then show False by simp
      next
        case (2 c)
        then have "length (drop j b) = 1" by simp
        then have "j - length b = 0" by simp
        then show False using h2 2 by (simp add: HasPrefix_def)
      qed
    qed
  qed
qed

lemma tryParse_variant:
  assumes "ID p = name @ '' ['' @ b @ ''.test]''" "newline \<notin> set (ID p)" "\<not> Contains b '' [''"
  shows "tryParseTestPackage p = (name, True)"
proof -
  let ?t = "'' ['' @ b @ ''.test]''"
  have nl: "newline \<notin> set name" "newline \<notin> set b" using assms(1,2) by auto
  have d: "drop 2 ?t = b @ ''.test]''" by simp
  have "takeWhile (\<lambda>c. c \<noteq> newline) (drop 2 ?t) = drop 2 ?t"
    unfolding d takeWhile_eq_all_conv using assms(1,2) by (metis Un_iff set_append)
  then have "testSuffix ?t" unfolding testSuffix_def
    using Contains_append [of b "''.test]''" "[]"] by (simp add: HasPrefix_def)
  moreover have "\<not> testSuffix (drop i (name @ ?t))" if "length name < i" for i
    using drop_no_bracket [OF assms(3), of "i - length name"] that testSuffix_bracket by auto
  ultimately have "testName (length (ID p)) (name @ ?t) = Some name"
    using nl(1) assms(1) by (intro testName_append) auto
  then show ?thesis by (simp add: tryParseTestPackage_def assms(1) del: testName.simps)
qed

lemma fold_insert_tests:
  "fold (\<lambda>p s. let (name, isTest) = f p in if \<not> isTest then s else insert name s) pkgs S =
     S \<union> {fst (f p) |p. p \<in> set pkgs \<and> snd (f p)}"
  by (induction pkgs arbitrary: S) (auto simp: Let_def split_beta)

lemma filterDuplicatePackages_iff:
  "p \<in> set (filterDuplicatePackages st pkgs) \<longleftrightarrow> p \<in> set pkgs \<and>
     (snd (tryParseTestPackage (pkg st p)) \<or> (\<forall>q \<in> set pkgs. tryParseTestPackage (pkg st q) \<noteq> (PkgPath (pkg st p), True)))"
  unfolding filterDuplicatePackages_def Let_def [of "fold _ _ _"] fold_insert_tests
  by (auto simp: prod_eq_iff)

text \<open>Parsing the errors of packages changes nothing but the lists of errors.\<close>

lemma parseLoadedPackagesErrors_frame:
  assumes "parseLoadedPackagesErrors st ps = (None, st')"
  shows "\<exists>errs. st' = st\<lparr>pkg := (\<lambda>p. (pkg st p)\<lparr>pkgErrors := errs p\<rparr>)\<rparr>"
  using assms
proof (induction ps arbitrary: st)
  case Nil
  have "\<exists>errs. st = st\<lparr>pkg := (\<lambda>p. (pkg st p)\<lparr>pkgErrors := errs p\<rparr>)\<rparr>"
    by (rule exI [of _ "\<lambda>p. pkgErrors (pkg st p)"]) simp
  then show ?case using Nil by simp
next
  case (Cons p ps)
  obtain es where e: "parsePackageErrors (pkg st p) (pkgErrors (pkg st p)) [] = Inr es"
    and r: "parseLoadedPackagesErrors (st\<lparr>pkg := (pkg st)(p := (pkg st p)\<lparr>pkgErrors := es\<rparr>)\<rparr>) ps = (None, st')"
    using Cons.prems by (auto split: sum.splits)
  obtain errs where "st' = st\<lparr>pkg := (\<lambda>q. (((pkg st)(p := (pkg st p)\<lparr>pkgErrors := es\<rparr>)) q)\<lparr>pkgErrors := errs q\<rparr>)\<rparr>"
    using Cons.IH [OF r] by auto
  then have "st' = st\<lparr>pkg := (\<lambda>q. (pkg st q)\<lparr>pkgErrors := errs q\<rparr>)\<rparr>" by (auto intro!: Store.equality)
  then show ?case by blast
qed

section \<open>Properties\<close>

text \<open>C12: When imports are acyclic, narrowing is exact. Unless it is disabled, there is no diff, the working
  directory is unknown or a module file changed, in which cases all packages stay, both lists keep in order
  exactly the packages that reach a package with load errors over their imports or own a file that is one
  of the changed files, under its own name or with its directory resolved.\<close>

theorem narrow_to_changes_exact:
  assumes "importsRanked st rank" "importsClosed st (set (loaded st))" "set pkgs \<union> set dedup \<subseteq> set (loaded st)"
  shows "fst (narrowToChanges env cfg cache st pkgs dedup) =
    (case (fst (PrepareDiff (diffEnv env) cfg cache), getwd env) of
       (Inr (Some chk), Inr wd) \<Rightarrow>
         if getenvAnalyzeAll env = ''1'' \<or> (\<exists>f \<in> set (ChangedFiles env chk). FilepathBase f \<in> {''go.mod'', ''go.work''})
         then (pkgs, dedup)
         else let keep = affected (evalSymlinks env) st (changedKeys (evalSymlinks env) wd (ChangedFiles env chk))
              in (filter keep pkgs, filter keep dedup)
     | _ \<Rightarrow> (pkgs, dedup))"
proof -
  have p: "set pkgs \<subseteq> set (loaded st)" "set dedup \<subseteq> set (loaded st)" using assms(3) by auto
  have m: "set moduleFiles = {''go.mod'', ''go.work''}" by (simp add: moduleFiles_def)
  show ?thesis
    unfolding narrowToChanges_def diffNarrowingDisabled_def
      changedPackages_exact [OF assms(1,2) p(1)] changedPackages_exact [OF assms(1,2) p(2)] m
    by (simp add: Let_def split: prod.splits sum.splits option.splits)
qed

definition exampleStore :: Store where
  "exampleStore = \<lparr>loaded = [0, 1, 2, 3], pkg = (\<lambda>p.
     \<lparr>ID = (if p = 3 then ''m [m.test]'' else ''m''), pkgName = ''m'', PkgPath = ''m'', pkgErrors = (if p = 0 then [''broken''] else []),
      Imports = (if p = 1 then [0] else []), GoFiles = (if p = 2 then [''/w/b/x.go''] else [''/w/c.go'']),
      CompiledGoFiles = [], OtherFiles = [], IgnoredFiles = [], EmbedFiles = []\<rparr>)\<rparr>"

theorem narrow_to_changes_exact_witness:
  "let cfg = \<lparr>cfgDiff = True, DiffFromRevision = [], DiffFromMergeBase = [], DiffPatchFilePath = [], WholeFiles = False\<rparr>;
       env = \<lparr>getenvAnalyzeAll = [], getwd = Inr ''/w'', evalSymlinks = (\<lambda>d. Inr d), ChangedFiles = (\<lambda>_. [''b/x.go'']),
         diffEnv = \<lparr>getenvPatch = [], readFile = (\<lambda>_. Inl []), prepareChecker = (\<lambda>_. Inr (\<lambda>f n. (0, True)))\<rparr>\<rparr>
   in fst (narrowToChanges env (0, cfg) Map.empty exampleStore [0, 1, 2, 3] [1, 2, 3]) = ([0, 1, 2], [1, 2])"
proof -
  let ?cfg = "\<lparr>cfgDiff = True, DiffFromRevision = [], DiffFromMergeBase = [], DiffPatchFilePath = [], WholeFiles = False\<rparr>"
  let ?env = "\<lparr>getenvAnalyzeAll = [], getwd = Inr ''/w'', evalSymlinks = (\<lambda>d. Inr d), ChangedFiles = (\<lambda>_. [''b/x.go'']),
         diffEnv = \<lparr>getenvPatch = [], readFile = (\<lambda>_. Inl []), prepareChecker = (\<lambda>_. Inr (\<lambda>f n. (0, True)))\<rparr>\<rparr>"
  have r: "importsRanked exampleStore id" "importsClosed exampleStore (set (loaded exampleStore))"
    "set [0, 1, 2, 3] \<union> set [1, 2, 3] \<subseteq> set (loaded exampleStore)"
    by (simp_all add: importsRanked_def importsClosed_def exampleStore_def)
  have d: "fst (PrepareDiff (diffEnv ?env) (0, ?cfg) Map.empty) = Inr (Some (\<lambda>f n. (0, True)))"
    by (simp add: PrepareDiff_def prepareDiff_def Let_def)
  have k: "changedKeys (\<lambda>d. Inr d) ''/w'' [''b/x.go''] = {''/w/b/x.go''}"
    "pathKeys (\<lambda>d. Inr d) ''/w/b/x.go'' = {''/w/b/x.go''}" "pathKeys (\<lambda>d. Inr d) ''/w/c.go'' = {''/w/c.go''}"
    "FilepathBase ''b/x.go'' = ''x.go''"
    by code_simp+
  have e: "reachesError exampleStore 0" "reachesError exampleStore 1"
    "\<not> reachesError exampleStore 2" "\<not> reachesError exampleStore 3"
    by (subst reachesError_iff, simp add: exampleStore_def)+
  have f: "packageFiles (pkg exampleStore 2) = [''/w/b/x.go'']" "packageFiles (pkg exampleStore 3) = [''/w/c.go'']"
    by (simp_all add: packageFiles_def exampleStore_def)
  have a: "affected (\<lambda>d. Inr d) exampleStore {''/w/b/x.go''} 0" "affected (\<lambda>d. Inr d) exampleStore {''/w/b/x.go''} (Suc 0)"
    "affected (\<lambda>d. Inr d) exampleStore {''/w/b/x.go''} 2" "\<not> affected (\<lambda>d. Inr d) exampleStore {''/w/b/x.go''} 3"
    using e by (simp_all add: affected_def f k)
  show ?thesis
    using narrow_to_changes_exact [OF r, of ?env "(0, ?cfg)" Map.empty] unfolding d
    by (simp add: k a)
qed

text \<open>C13: The search for load errors always returns: on every finite graph that is closed under imports, also
  one with cycles, and from every state of the memo, the fuel given by the number of packages suffices.\<close>

theorem error_search_terminates:
  assumes "importsClosed st (set (loaded st))" "p \<in> set (loaded st)"
  shows "\<exists>r m. visit (Suc (length (loaded st))) st p memo = Some (r, m) \<and> hasErrors st p memo = (r, m) \<and> dom memo \<subseteq> dom m"
proof -
  have "card (set (loaded st) - dom memo) \<le> card (set (loaded st))" by (intro card_mono) auto
  also have "\<dots> \<le> length (loaded st)" by (rule card_length)
  finally have "card (set (loaded st) - dom memo) < Suc (length (loaded st))" by simp
  then obtain r m where "visit (Suc (length (loaded st))) st p memo = Some (r, m)" "dom memo \<subseteq> dom m"
    using visit_returns(1) [OF _ assms] by blast
  then show ?thesis by (simp add: hasErrors_def del: visit.simps)
qed

theorem error_search_terminates_witness:
  "\<exists>r m. visit 5 exampleStore 1 Map.empty = Some (r, m) \<and> hasErrors exampleStore 1 Map.empty = (r, m)"
  using error_search_terminates [of exampleStore 1 Map.empty]
  by (simp add: importsClosed_def exampleStore_def numeral_eq_Suc del: visit.simps)

text \<open>A successful load loses no package. Every package that was loaded and is not an implicit test main
  is in the deduplicated list, or the list has its test variant instead; the deduplicated list is a part of
  the original one, in its order, and no package occurs there next to its test variant.\<close>

theorem loader_covers_packages:
  assumes "load (prepareBuildContext goroot cfg ctx) conf (buildArgs args) = Inr (st0, roots)"
    "conf = \<lparr>Mode = findLoadMode linters, Tests = AnalyzeTests cfg, BuildFlags = makeBuildFlags cfg\<rparr>"
    "PackageLoader_Load load goroot cfg args linters ctx = (Inr (st, pkgs, dedup), ctx')"
  shows "subseq dedup pkgs \<and> subseq pkgs roots \<and>
    (\<forall>p \<in> set roots. \<not> (pkgName (pkg st0 p) = ''main'' \<and> HasSuffix (PkgPath (pkg st0 p)) ''.test'') \<longrightarrow>
       p \<in> set dedup \<or> (\<exists>q \<in> set dedup. tryParseTestPackage (pkg st0 q) = (PkgPath (pkg st0 p), True))) \<and>
    (\<forall>p \<in> set dedup. \<not> snd (tryParseTestPackage (pkg st0 p)) \<longrightarrow>
       (\<forall>q \<in> set dedup. tryParseTestPackage (pkg st0 q) \<noteq> (PkgPath (pkg st0 p), True)))"
proof -
  obtain e: "parseLoadedPackagesErrors st0 roots = (None, st)" and pkgs: "pkgs = filterTestMainPackages st roots"
    and dedup: "dedup = filterDuplicatePackages st pkgs"
    using assms by (auto simp: PackageLoader_Load_def loadPackages_def Let_def split: sum.splits option.splits prod.splits)
  obtain errs where st: "st = st0\<lparr>pkg := (\<lambda>p. (pkg st0 p)\<lparr>pkgErrors := errs p\<rparr>)\<rparr>"
    using parseLoadedPackagesErrors_frame [OF e] by blast
  have f: "pkgName (pkg st p) = pkgName (pkg st0 p)" "PkgPath (pkg st p) = PkgPath (pkg st0 p)"
    "tryParseTestPackage (pkg st p) = tryParseTestPackage (pkg st0 p)" for p
    by (simp_all add: st tryParseTestPackage_def del: testName.simps)
  have sub: "subseq dedup pkgs" "subseq pkgs roots"
    unfolding dedup filterDuplicatePackages_def Let_def pkgs filterTestMainPackages_def by (rule subseq_filter_left)+
  have mem: "p \<in> set pkgs \<longleftrightarrow> p \<in> set roots \<and>
      \<not> (pkgName (pkg st0 p) = ''main'' \<and> HasSuffix (PkgPath (pkg st0 p)) ''.test'')" for p
    by (simp add: pkgs filterTestMainPackages_def f)
  have d: "p \<in> set dedup \<longleftrightarrow> p \<in> set pkgs \<and> (snd (tryParseTestPackage (pkg st0 p)) \<or>
      (\<forall>q \<in> set pkgs. tryParseTestPackage (pkg st0 q) \<noteq> (PkgPath (pkg st0 p), True)))" for p
    unfolding dedup filterDuplicatePackages_iff f ..
  show ?thesis using sub mem d by (metis snd_conv)
qed

theorem loader_covers_packages_witness:
  "let load = (\<lambda>ctx conf args. Inr (exampleStore, [1, 3]));
       cfg = \<lparr>AnalyzeTests = True, BuildTags = [], ModulesDownloadMode = [], EnableBuildVCS = True\<rparr>
   in \<exists>st ctx. PackageLoader_Load load [] cfg [] [] \<lparr>GOROOT = [], ctxGOROOT = [], ctxBuildTags = []\<rparr> = (Inr (st, [1, 3], [3]), ctx) \<and>
      (\<exists>q \<in> set [3]. tryParseTestPackage (pkg exampleStore q) = (PkgPath (pkg exampleStore 1), True))"
proof -
  let ?load = "\<lambda>(ctx::BuildContext) (conf::LoadConf) (args::string list). Inr (exampleStore, [1, 3])"
  let ?cfg = "\<lparr>AnalyzeTests = True, BuildTags = [], ModulesDownloadMode = [], EnableBuildVCS = True\<rparr>"
  let ?ctx = "\<lparr>GOROOT = [], ctxGOROOT = [], ctxBuildTags = []\<rparr>"
  have "map_sum id snd (fst (PackageLoader_Load ?load [] ?cfg [] [] ?ctx)) = Inr ([1, 3], [3])"
    by code_simp
  then obtain st ctx where l: "PackageLoader_Load ?load [] ?cfg [] [] ?ctx = (Inr (st, [1, 3], [3]), ctx)"
    by (cases "PackageLoader_Load ?load [] ?cfg [] [] ?ctx"; cases "fst (PackageLoader_Load ?load [] ?cfg [] [] ?ctx)") auto
  have "\<exists>q \<in> set [3]. tryParseTestPackage (pkg exampleStore q) = (PkgPath (pkg exampleStore 1), True)"
    using loader_covers_packages [OF _ refl l, of exampleStore "[1, 3]"] by (simp add: exampleStore_def)
  with l show ?thesis by (auto simp: Let_def)
qed

end
