(* ===== verification/Quoted.thy ===== *)
theory Quoted
  imports Go_Prelude
begin

text \<open>
  Quoted argument lists (\<open>internal/go/quoted/quoted.go\<close>), used for tool options: splitting a text into
  fields with optional quotes, and joining fields into such a text.

  The scan of \<open>Join\<close> over the runes of an argument looks for ASCII characters only, which is a scan over
  its bytes. Errors are their kind and argument.
\<close>

section \<open>Model\<close>

definition isSpaceByte :: "char \<Rightarrow> bool" where
  "isSpaceByte c \<longleftrightarrow> c = CHR '' '' \<or> c = CHR 0x09 \<or> c = CHR 0x0A \<or> c = CHR 0x0D"

definition singleQuote :: char where "singleQuote = CHR 0x27"

definition doubleQuote :: char where "doubleQuote = CHR 0x22"

datatype quoted_error = Unterminated char | CannotQuote string

function quotedLoop :: "string \<Rightarrow> string list \<Rightarrow> quoted_error + string list" where
  "quotedLoop s f =
     (case dropWhile isSpaceByte s of
        [] \<Rightarrow> Inr f
      | c # rest \<Rightarrow>
          if c = doubleQuote \<or> c = singleQuote then
            (let i = length (takeWhile (\<lambda>x. x \<noteq> c) rest) in
             if i \<ge> length rest then Inl (Unterminated c)
             else quotedLoop (drop (i + 1) rest) (f @ [take i rest]))
          else
            (let i = length (takeWhile (\<lambda>x. \<not> isSpaceByte x) (c # rest)) in
             quotedLoop (drop i (c # rest)) (f @ [take i (c # rest)])))"
  by pat_completeness auto

lemma dropWhile_Cons_length: "dropWhile P s = c # rest \<Longrightarrow> length rest < length s"
  using length_dropWhile_le [of P s] by simp

lemma dropWhile_Cons_not: "dropWhile P s = c # rest \<Longrightarrow> \<not> P c"
  by (metis hd_dropWhile list.discI list.sel(1))

termination quotedLoop
proof (relation "measure (\<lambda>(s, f). length s)")
  show "((drop (i + 1) rest, f @ [take i rest]), (s, f)) \<in> measure (\<lambda>(s, f). length s)"
    if "dropWhile isSpaceByte s = c # rest" for s f c rest i
    using dropWhile_Cons_length [OF that] by simp
  show "((drop i (c # rest), f @ [take i (c # rest)]), (s, f)) \<in> measure (\<lambda>(s, f). length s)"
    if "dropWhile isSpaceByte s = c # rest" "i = length (takeWhile (\<lambda>x. \<not> isSpaceByte x) (c # rest))" for s f c rest i
    using dropWhile_Cons_length [OF that(1)] dropWhile_Cons_not [OF that(1)] that(2) by simp
qed simp

definition QuotedSplit :: "string \<Rightarrow> quoted_error + string list" where
  "QuotedSplit s = quotedLoop s []"

definition quoteArg :: "string \<Rightarrow> quoted_error + string" where
  "quoteArg arg =
     (let sawSpace = list_ex isSpaceByte arg; sawSingleQuote = singleQuote \<in> set arg; sawDoubleQuote = doubleQuote \<in> set arg in
      if \<not> sawSpace \<and> \<not> sawSingleQuote \<and> \<not> sawDoubleQuote then Inr arg
      else if \<not> sawSingleQuote then Inr (singleQuote # arg @ [singleQuote])
      else if \<not> sawDoubleQuote then Inr (doubleQuote # arg @ [doubleQuote])
      else Inl (CannotQuote arg))"

fun joinLoop :: "nat \<Rightarrow> string list \<Rightarrow> string \<Rightarrow> quoted_error + string" where
  "joinLoop i [] buf = Inr buf"
| "joinLoop i (arg # args) buf =
     (case quoteArg arg of
        Inl err \<Rightarrow> Inl err
      | Inr q \<Rightarrow> joinLoop (i + 1) args ((if i > 0 then buf @ '' '' else buf) @ q))"

definition QuotedJoin :: "string list \<Rightarrow> quoted_error + string" where
  "QuotedJoin args = joinLoop 0 args []"

text \<open>A flag holding a list of arguments.\<close>

definition Flag_Set :: "string list \<Rightarrow> string \<Rightarrow> quoted_error option \<times> string list" where
  "Flag_Set f v = (case QuotedSplit v of Inl err \<Rightarrow> (Some err, f) | Inr fs \<Rightarrow> (None, fs))"

definition Flag_String :: "string list option \<Rightarrow> string" where
  "Flag_String f =
     (case f of
        None \<Rightarrow> []
      | Some args \<Rightarrow> (case QuotedJoin args of Inl err \<Rightarrow> Join args '' '' | Inr s \<Rightarrow> s))"

section \<open>The round trip\<close>

declare quotedLoop.simps [simp del]

lemma quotes_not_space [simp]: "\<not> isSpaceByte singleQuote" "\<not> isSpaceByte doubleQuote" "singleQuote \<noteq> doubleQuote"
  "doubleQuote \<noteq> singleQuote"
  by (simp_all add: isSpaceByte_def singleQuote_def doubleQuote_def)

lemma quotedLoop_space: "isSpaceByte c \<Longrightarrow> quotedLoop (c # s) f = quotedLoop s f"
  by (subst (1 2) quotedLoop.simps) simp

lemma quotedLoop_Nil [simp]: "quotedLoop [] f = Inr f"
  by (subst quotedLoop.simps) simp

lemma quotedLoop_quoted:
  assumes "q = doubleQuote \<or> q = singleQuote" "q \<notin> set w"
  shows "quotedLoop (q # w @ q # s) f = quotedLoop s (f @ [w])"
proof -
  have "takeWhile (\<lambda>x. x \<noteq> q) (w @ q # s) = w" using assms(2) by (auto simp: takeWhile_tail takeWhile_eq_all_conv)
  then show ?thesis using assms(1) by (subst quotedLoop.simps) (auto simp: Let_def)
qed

lemma quotedLoop_word:
  assumes "w \<noteq> []" "\<not> list_ex isSpaceByte w" "singleQuote \<notin> set w" "doubleQuote \<notin> set w"
    "s = [] \<or> (\<exists>c t. s = c # t \<and> isSpaceByte c)"
  shows "quotedLoop (w @ s) f = quotedLoop s (f @ [w])"
proof -
  obtain c v where w: "w = c # v" using assms(1) by (cases w) auto
  have "takeWhile (\<lambda>x. \<not> isSpaceByte x) (w @ s) = w"
    using assms(2,5) by (auto simp: list_ex_iff takeWhile_tail takeWhile_eq_all_conv)
  then show ?thesis using assms w by (subst quotedLoop.simps) (auto simp: Let_def)
qed

text \<open>The loop of \<open>Join\<close> appends the quoted arguments, separated by blanks.\<close>

lemma joinLoop_Join:
  "joinLoop i args buf = Inr s \<Longrightarrow>
   \<exists>qs. map quoteArg args = map Inr qs \<and> s = buf @ (if i > 0 \<and> args \<noteq> [] then '' '' else []) @ Join qs '' ''"
proof (induction args arbitrary: i buf)
  case (Cons arg args)
  then obtain q where q: "quoteArg arg = Inr q" "joinLoop (i + 1) args ((if i > 0 then buf @ '' '' else buf) @ q) = Inr s"
    by (auto split: sum.splits)
  obtain qs where qs: "map quoteArg args = map Inr qs"
    "s = ((if i > 0 then buf @ '' '' else buf) @ q) @ (if args \<noteq> [] then '' '' else []) @ Join qs '' ''"
    using Cons.IH [OF q(2)] by auto
  have "args = [] \<longleftrightarrow> qs = []" using qs(1) by auto
  then have "Join (q # qs) '' '' = q @ (if args \<noteq> [] then '' '' else []) @ Join qs '' ''"
    by (cases qs) auto
  then show ?case using q(1) qs by (intro exI [of _ "q # qs"]) auto
qed simp

lemma quoteArg_cases:
  assumes "quoteArg arg = Inr q"
  obtains (bare) "q = arg" "\<not> list_ex isSpaceByte arg" "singleQuote \<notin> set arg" "doubleQuote \<notin> set arg"
    | (quoted) c where "c = doubleQuote \<or> c = singleQuote" "c \<notin> set arg" "q = c # arg @ [c]" "arg \<noteq> []"
proof -
  consider "\<not> list_ex isSpaceByte arg \<and> singleQuote \<notin> set arg \<and> doubleQuote \<notin> set arg"
    | "list_ex isSpaceByte arg \<or> doubleQuote \<in> set arg" "singleQuote \<notin> set arg"
    | "singleQuote \<in> set arg" "doubleQuote \<notin> set arg"
    | "singleQuote \<in> set arg" "doubleQuote \<in> set arg" by blast
  then show thesis
  proof cases
    case 1
    then show thesis using bare assms by (simp add: quoteArg_def)
  next
    case 2
    then have "arg \<noteq> []" by auto
    then show thesis using 2 quoted [of singleQuote] assms by (auto simp: quoteArg_def)
  next
    case 3
    then have "arg \<noteq> []" by auto
    then show thesis using 3 quoted [of doubleQuote] assms by (auto simp: quoteArg_def)
  next
    case 4
    then show thesis using assms by (simp add: quoteArg_def)
  qed
qed

lemma split_join_args:
  "map quoteArg args = map Inr qs \<Longrightarrow> quotedLoop (Join qs '' '') f = Inr (f @ filter (\<lambda>a. a \<noteq> []) args)"
proof (induction args arbitrary: qs f)
  case (Cons arg args)
  then obtain q qs' where qs: "qs = q # qs'" "quoteArg arg = Inr q" "map quoteArg args = map Inr qs'" by (cases qs) auto
  let ?s = "if qs' = [] then [] else '' '' @ Join qs' '' ''"
  have j: "Join qs '' '' = q @ ?s" unfolding qs(1) by (cases qs') auto
  have sp: "isSpaceByte (CHR '' '')" by (simp add: isSpaceByte_def)
  have rest: "quotedLoop ?s g = Inr (g @ filter (\<lambda>a. a \<noteq> []) args)" for g
    using Cons.IH [OF qs(3), of g] qs(3) quotedLoop_space [OF sp] by auto
  have "quotedLoop (q @ ?s) f = quotedLoop ?s (f @ filter (\<lambda>a. a \<noteq> []) [arg])"
    using qs(2)
  proof (cases rule: quoteArg_cases)
    case bare
    then show ?thesis using quotedLoop_word [of arg ?s f] sp by (cases "arg = []") auto
  next
    case (quoted c)
    then show ?thesis using quotedLoop_quoted [OF quoted(1,2), of ?s f] by simp
  qed
  then show ?case using j rest by simp
qed simp

lemma joinLoop_error:
  "joinLoop i args buf = Inl err \<longleftrightarrow>
    (\<exists>arg. find (\<lambda>a. singleQuote \<in> set a \<and> doubleQuote \<in> set a) args = Some arg \<and> err = CannotQuote arg)"
  by (induction args arbitrary: i buf) (auto simp: quoteArg_def Let_def)

text \<open>Joining fails exactly when an argument contains both kinds of quotes, with the first such argument;
  splitting what it returns gives back the arguments in order, except that empty arguments are lost.\<close>

theorem split_after_join:
  "QuotedJoin args = (case find (\<lambda>a. singleQuote \<in> set a \<and> doubleQuote \<in> set a) args of
     Some arg \<Rightarrow> Inl (CannotQuote arg) | None \<Rightarrow> Inr (Flag_String (Some args))) \<and>
   (QuotedJoin args = Inr s \<longrightarrow> QuotedSplit s = Inr (filter (\<lambda>a. a \<noteq> []) args) \<and>
     Flag_Set f s = (None, filter (\<lambda>a. a \<noteq> []) args))"
proof (cases "QuotedJoin args")
  case (Inl err)
  then show ?thesis using joinLoop_error [of 0 args "[]"] by (auto simp: QuotedJoin_def)
next
  case (Inr t)
  then have "find (\<lambda>a. singleQuote \<in> set a \<and> doubleQuote \<in> set a) args = None"
    using joinLoop_error [of 0 args "[]"]
    by (cases "find (\<lambda>a. singleQuote \<in> set a \<and> doubleQuote \<in> set a) args") (auto simp: QuotedJoin_def)
  moreover have "QuotedSplit t = Inr (filter (\<lambda>a. a \<noteq> []) args)"
    using joinLoop_Join [of 0 args "[]" t] split_join_args [of args _ "[]"] Inr by (auto simp: QuotedJoin_def QuotedSplit_def)
  ultimately show ?thesis using Inr by (auto simp: Flag_String_def Flag_Set_def)
qed

theorem split_after_join_witness:
  "\<exists>s. QuotedJoin [''-o'', ''a b'', [], ''c''] = Inr s \<and> QuotedSplit s = Inr [''-o'', ''a b'', ''c'']"
proof -
  have "isl (QuotedJoin [''-o'', ''a b'', [], ''c'']) = False" by code_simp
  then obtain s where "QuotedJoin [''-o'', ''a b'', [], ''c''] = Inr s"
    by (cases "QuotedJoin [''-o'', ''a b'', [], ''c'']") auto
  then show ?thesis using split_after_join [of "[''-o'', ''a b'', [], ''c'']" s "[]"] by simp
qed

end
