(* ===== verification/Utf8.thy ===== *)
theory Utf8
  imports Go_Prelude
begin

text \<open>
  The characters of a byte string as \<open>unicode/utf8\<close> and the conversion \<open>[]rune(s)\<close> of the language see them: a valid
  encoding is one character, and every byte that starts no valid encoding is one character of its own, the replacement
  character when it is written again. The JSON reader of the worker protocol and the TeamCity printer use them.
\<close>

section \<open>UTF-8\<close>

abbreviation byte :: "char \<Rightarrow> nat" where
  "byte c \<equiv> of_char c"

text \<open>The ranges of the bytes that follow a leading byte.\<close>

definition following :: "nat \<Rightarrow> (nat \<times> nat) list option" where
  "following b =
     (if b < 128 then Some []
      else if 194 \<le> b \<and> b \<le> 223 then Some [(128, 191)]
      else if b = 224 then Some [(160, 191), (128, 191)]
      else if b = 237 then Some [(128, 159), (128, 191)]
      else if 225 \<le> b \<and> b \<le> 239 then Some [(128, 191), (128, 191)]
      else if b = 240 then Some [(144, 191), (128, 191), (128, 191)]
      else if 241 \<le> b \<and> b \<le> 243 then Some [(128, 191), (128, 191), (128, 191)]
      else if b = 244 then Some [(128, 143), (128, 191), (128, 191)]
      else None)"

definition inRanges :: "(nat \<times> nat) list \<Rightarrow> string \<Rightarrow> bool" where
  "inRanges rs s \<longleftrightarrow> length rs \<le> length s \<and> list_all2 (\<lambda>(lo, hi) c. lo \<le> byte c \<and> byte c \<le> hi) rs (take (length rs) s)"

text \<open>The length of the character at the front, zero when there is no valid one.\<close>

fun runeLen :: "string \<Rightarrow> nat" where
  "runeLen [] = 0"
| "runeLen (c # s) = (case following (byte c) of
       None \<Rightarrow> 0
     | Some rs \<Rightarrow> if inRanges rs s then Suc (length rs) else 0)"

function runes :: "string \<Rightarrow> (string \<times> bool) list" where
  "runes [] = []"
| "runes (c # s) = (let k = runeLen (c # s) in
     if k = 0 then ([c], False) # runes s else (take k (c # s), True) # runes (drop k (c # s)))"
  by pat_completeness auto
termination runes
  by (relation "measure length") auto

definition utf8Valid :: "string \<Rightarrow> bool" where
  "utf8Valid s \<longleftrightarrow> list_all snd (runes s)"

definition replacement :: string where
  "replacement = [CHR 0xEF, CHR 0xBF, CHR 0xBD]"

text \<open>The bytes of a string that are not valid UTF-8 become replacement characters.\<close>

definition toValidUTF8 :: "string \<Rightarrow> string" where
  "toValidUTF8 s = concat (map (\<lambda>(r, ok). if ok then r else replacement) (runes s))"

section \<open>Characters of a valid text\<close>

declare runeLen.simps [simp del]

lemma concat_runes: "concat (map fst (runes s)) = s"
proof (induction s rule: runes.induct)
  case (2 c s)
  then show ?case by (cases "runeLen (c # s) = 0") (auto simp: Let_def)
qed simp

lemma following_Some:
  assumes "following b = Some rs"
  shows "rs = [] \<longleftrightarrow> b < 128" "\<forall>(lo, hi) \<in> set rs. 128 \<le> lo"
  using assms by (auto simp: following_def split: if_splits)

lemma ranges_above:
  "list_all2 (\<lambda>(lo, hi) c. lo \<le> byte c \<and> byte c \<le> hi) rs xs \<Longrightarrow> \<forall>(lo, hi) \<in> set rs. 128 \<le> lo \<Longrightarrow> x \<in> set xs \<Longrightarrow> 128 \<le> byte x"
  by (induction rs xs rule: list_all2_induct) auto

lemma runeLen_valid:
  assumes "runeLen (c # s) = k" "0 < k"
  shows "k \<le> length (c # s)" "k = 1 \<longleftrightarrow> byte c < 128" "k \<noteq> 1 \<Longrightarrow> \<forall>x \<in> set (take k (c # s)). 128 \<le> byte x"
proof -
  obtain rs where rs: "following (byte c) = Some rs" "inRanges rs s" "k = Suc (length rs)"
    using assms by (auto simp: runeLen.simps split: option.splits if_splits)
  show "k \<le> length (c # s)" using rs by (simp add: inRanges_def)
  show "k = 1 \<longleftrightarrow> byte c < 128" using following_Some(1) [OF rs(1)] rs(3) by simp
  note lo = following_Some(2) [OF rs(1)]
  show "\<forall>x \<in> set (take k (c # s)). 128 \<le> byte x" if "k \<noteq> 1"
  proof -
    have "128 \<le> byte c" using that following_Some(1) [OF rs(1)] rs(3) by auto
    moreover have "128 \<le> byte x" if "x \<in> set (take (length rs) s)" for x
      using rs(2) lo that unfolding inRanges_def by (blast intro: ranges_above)
    ultimately show ?thesis using rs(3) by auto
  qed
qed

text \<open>A valid character is one ASCII byte or several bytes outside ASCII.\<close>

lemma runes_valid:
  "(r, True) \<in> set (runes s) \<Longrightarrow> (\<exists>c. r = [c] \<and> byte c < 128) \<or> (length r \<noteq> 1 \<and> (\<forall>x \<in> set r. 128 \<le> byte x))"
proof (induction s rule: runes.induct)
  case (2 c s)
  let ?k = "runeLen (c # s)"
  consider "?k = 0" | "?k = 1" "0 < ?k" | "?k \<noteq> 1" "0 < ?k" by linarith
  then show ?case
  proof cases
    case 1
    then show ?thesis using 2 by (auto simp: Let_def)
  next
    case c: 2
    then have "byte c < 128" using runeLen_valid(2) [OF refl c(2)] by simp
    then show ?thesis using 2 c by (auto simp: Let_def)
  next
    case c: 3
    then have "length (take ?k (c # s)) \<noteq> 1" "\<forall>x \<in> set (take ?k (c # s)). 128 \<le> byte x"
      using runeLen_valid(1,3) [OF refl c(2)] by auto
    then show ?thesis using 2 c by (auto simp: Let_def)
  qed
qed simp

lemma runeLen_append: "0 < runeLen s \<Longrightarrow> runeLen (s @ t) = runeLen s"
  by (cases s) (auto simp: runeLen.simps inRanges_def split: option.splits if_splits)

lemma runes_append: "utf8Valid a \<Longrightarrow> runes (a @ b) = runes a @ runes b"
proof (induction a rule: runes.induct)
  case (2 c s)
  let ?k = "runeLen (c # s)"
  have k: "0 < ?k" using 2(3) by (cases "?k = 0") (auto simp: utf8Valid_def Let_def)
  then have le: "?k \<le> length (c # s)" using runeLen_valid(1) by blast
  have "utf8Valid (drop ?k (c # s))" using 2(3) k by (auto simp: utf8Valid_def Let_def)
  then have "runes (drop ?k (c # s) @ b) = runes (drop ?k (c # s)) @ runes b" using 2(2) k by simp
  moreover have "take ?k (c # s @ b) = take ?k (c # s)" "drop ?k (c # s @ b) = drop ?k (c # s) @ b"
    using take_append [of ?k "c # s" b] drop_append [of ?k "c # s" b] le by simp_all
  ultimately show ?case using k runeLen_append [OF k, of b] by (simp add: Let_def)
qed simp

lemma toValidUTF8_valid: "utf8Valid s \<Longrightarrow> toValidUTF8 s = s"
proof -
  assume "utf8Valid s"
  then have "map (\<lambda>(r, ok). if ok then r else replacement) (runes s) = map fst (runes s)"
    by (auto simp: utf8Valid_def list_all_iff)
  then show ?thesis unfolding toValidUTF8_def by (simp only: concat_runes)
qed

end
