(* ===== verification/Printers.thy ===== *)
theory Printers
  imports Result_Issue Filepath Utf8
begin

text \<open>
  The printers (\<open>pkg/printers\<close>): the choice of the outputs and their creation (\<open>printer.go\<close>), the texts
  written by the text and TeamCity printers, and the documents built by the printers that hand a document
  to an encoder (JSON, HTML, Checkstyle, Code Climate, JUnit, SARIF).

  The encoders (\<open>encoding/json\<close>, \<open>encoding/xml\<close>, the HTML template) write the text of a document, and a failing one
  what it wrote before it failed; together with the colouring of text and the alignment of tabulated text they are
  fields of \<open>PrinterEnv\<close>. What a run does to its outputs is a list of events in their order: a file opened, and thereby
  emptied, and a text written to an output.
\<close>

section \<open>Formatting\<close>

fun digits :: "nat \<Rightarrow> string" where
  "digits n = (if n < 10 then [char_of (48 + n)] else digits (n div 10) @ [char_of (48 + n mod 10)])"

declare digits.simps [simp del]

definition formatInt :: "int \<Rightarrow> string" where
  "formatInt n = (if n < 0 then ''-'' @ digits (nat (- n)) else digits (nat n))"

text \<open>\<open>strings.TrimSpace\<close>: the white space of Unicode in UTF-8.\<close>

definition spaceRunes :: "string list" where
  "spaceRunes = [[CHR 0x09], [CHR 0x0A], [CHR 0x0B], [CHR 0x0C], [CHR 0x0D], [CHR 0x20], [CHR 0xC2, CHR 0x85],
     [CHR 0xC2, CHR 0xA0], [CHR 0xE1, CHR 0x9A, CHR 0x80]] @
     map (\<lambda>n. [CHR 0xE2, CHR 0x80, char_of n]) ([128..<139] @ [168, 169, 175 :: nat]) @
     [[CHR 0xE2, CHR 0x81, CHR 0x9F], [CHR 0xE3, CHR 0x80, CHR 0x80]]"

function trimRunes :: "string list \<Rightarrow> string \<Rightarrow> string" where
  "trimRunes rs s =
     (case find (\<lambda>r. r \<noteq> [] \<and> HasPrefix s r) rs of None \<Rightarrow> s | Some r \<Rightarrow> trimRunes rs (drop (length r) s))"
  by pat_completeness auto
termination trimRunes
proof (relation "measure (\<lambda>(rs, s). length s)")
  show "((rs, drop (length r) s), (rs, s)) \<in> measure (\<lambda>(rs, s). length s)"
    if "find (\<lambda>r. r \<noteq> [] \<and> HasPrefix s r) rs = Some r" for rs s r
  proof -
    have "r \<noteq> []" "HasPrefix s r" using that by (auto simp: find_Some_iff)
    then show ?thesis by (cases s) auto
  qed
qed simp

declare trimRunes.simps [simp del]

definition TrimSpace :: "string \<Rightarrow> string" where
  "TrimSpace s = rev (trimRunes (map rev spaceRunes) (rev (trimRunes spaceRunes s)))"

text \<open>\<open>cutVal\<close>: the text becomes a sequence of characters and back only when it is too long, and only then are bytes
  outside any valid encoding replaced.\<close>

definition cutVal :: "string \<Rightarrow> nat \<Rightarrow> string" where
  "cutVal s limit =
     (let rs = runes s in
      if length rs > limit then concat (map (\<lambda>(r, ok). if ok then r else replacement) (take limit rs)) else s)"

text \<open>\<open>token.Position.String\<close>.\<close>

definition positionString :: "Position \<Rightarrow> string" where
  "positionString pos =
     (let s = Filename pos;
          s = (if Line pos > 0 then
                 (if s \<noteq> [] then s @ '':'' else s) @ formatInt (Line pos) @
                   (if Column pos \<noteq> 0 then '':'' @ formatInt (Column pos) else [])
               else s)
      in if s = [] then ''-'' else s)"

section \<open>Severities\<close>

record severitySanitizer =
  allowedSeverities :: "string list"
  defaultSeverity :: string
  unsupportedSeverities :: "string set"

definition Sanitize :: "string \<Rightarrow> severitySanitizer \<Rightarrow> string \<times> severitySanitizer" where
  "Sanitize severity s =
     (if severity \<in> set (allowedSeverities s) then (severity, s)
      else (defaultSeverity s, s\<lparr>unsupportedSeverities := insert severity (unsupportedSeverities s)\<rparr>))"

text \<open>The error lists the unsupported severities in the order of a map iteration, \<open>order'\<close>.\<close>

definition Sanitizer_Err :: "(string set \<Rightarrow> string list) \<Rightarrow> severitySanitizer \<Rightarrow> string option" where
  "Sanitizer_Err order' s =
     (if unsupportedSeverities s = {} then None
      else Some (''severities ('' @ Join (map (\<lambda>k. [CHR 0x27] @ k @ [CHR 0x27]) (order' (unsupportedSeverities s))) '', '' @
                 '') are not inside supported values ('' @ Join (allowedSeverities s) '', '' @
                 ''), fallback to '' @ [CHR 0x27] @ defaultSeverity s @ [CHR 0x27]))"

section \<open>Text\<close>

datatype colorAttr = FgRed | FgYellow | Bold

record TextPrinter =
  printLinterName :: bool
  printIssuedLine :: bool
  colors :: bool

definition SprintfColored :: "(colorAttr \<Rightarrow> string \<Rightarrow> string) \<Rightarrow> bool \<Rightarrow> colorAttr \<Rightarrow> string \<Rightarrow> string" where
  "SprintfColored paint col ca s = (if \<not> col then s else paint ca s)"

definition Text_printIssue :: "(colorAttr \<Rightarrow> string \<Rightarrow> string) \<Rightarrow> TextPrinter \<Rightarrow> Issue \<Rightarrow> string" where
  "Text_printIssue paint p issue =
     (let text = SprintfColored paint (colors p) FgRed (TrimSpace (Text issue));
          text = (if printLinterName p then text @ '' ('' @ FromLinter issue @ '')'' else text);
          pos = SprintfColored paint (colors p) Bold (FilePath issue @ '':'' @ formatInt (issueLine issue));
          pos = (if Column (Pos issue) \<noteq> 0 then pos @ '':'' @ formatInt (Column (Pos issue)) else pos)
      in pos @ '': '' @ text @ [CHR 0x0A])"

definition printSourceCode :: "Issue \<Rightarrow> string" where
  "printSourceCode issue = concat (map (\<lambda>line. line @ [CHR 0x0A]) (SourceLines issue))"

text \<open>The pointer is below the column: tabs of the line stay tabs, every other byte is a blank.\<close>

definition printUnderLinePointer :: "(colorAttr \<Rightarrow> string \<Rightarrow> string) \<Rightarrow> TextPrinter \<Rightarrow> Issue \<Rightarrow> string" where
  "printUnderLinePointer paint p issue =
     (case SourceLines issue of
        [line] \<Rightarrow>
          (if Column (Pos issue) = 0 then []
           else map (\<lambda>c. if c = CHR 0x09 then CHR 0x09 else CHR 0x20) (take (nat (Column (Pos issue) - 1)) line) @
                SprintfColored paint (colors p) FgYellow ''^'' @ [CHR 0x0A])
      | _ \<Rightarrow> [])"

definition Text_Print :: "(colorAttr \<Rightarrow> string \<Rightarrow> string) \<Rightarrow> TextPrinter \<Rightarrow> Issue list \<Rightarrow> string" where
  "Text_Print paint p issues =
     concat (map (\<lambda>issue. Text_printIssue paint p issue @
       (if \<not> printIssuedLine p then [] else printSourceCode issue @ printUnderLinePointer paint p issue)) issues)"

text \<open>What the tabulating printer hands to the tab writer.\<close>

definition Tab_printIssue :: "(colorAttr \<Rightarrow> string \<Rightarrow> string) \<Rightarrow> TextPrinter \<Rightarrow> Issue \<Rightarrow> string" where
  "Tab_printIssue paint p issue =
     (let text = SprintfColored paint (colors p) FgRed (Text issue);
          text = (if printLinterName p then FromLinter issue @ [CHR 0x09] @ text else text);
          pos = SprintfColored paint (colors p) Bold (FilePath issue @ '':'' @ formatInt (issueLine issue));
          pos = (if Column (Pos issue) \<noteq> 0 then pos @ '':'' @ formatInt (Column (Pos issue)) else pos)
      in pos @ [CHR 0x09] @ text @ [CHR 0x0A])"

definition Tab_Print :: "(string \<Rightarrow> string) \<Rightarrow> (colorAttr \<Rightarrow> string \<Rightarrow> string) \<Rightarrow> TextPrinter \<Rightarrow> Issue list \<Rightarrow> string" where
  "Tab_Print align paint p issues = align (concat (map (Tab_printIssue paint p) issues))"

section \<open>TeamCity\<close>

definition smallLimit :: nat where "smallLimit = 255"

definition largeLimit :: nat where "largeLimit = 4000"

definition teamCitySanitizer :: severitySanitizer where
  "teamCitySanitizer = \<lparr>allowedSeverities = [''INFO'', ''ERROR'', ''WARNING'', ''WEAK WARNING''], defaultSeverity = ''ERROR'',
     unsupportedSeverities = {}\<rparr>"

definition escapeChar :: "char \<Rightarrow> string" where
  "escapeChar c =
     (if c = CHR 0x27 then [CHR ''|'', CHR 0x27]
      else if c = CHR 0x0A then ''|n''
      else if c = CHR 0x0D then ''|r''
      else if c = CHR ''|'' then ''||''
      else if c = CHR ''['' then ''|[''
      else if c = CHR '']'' then ''|]''
      else [c])"

definition escaper :: "string \<Rightarrow> string" where
  "escaper s = concat (map escapeChar s)"

text \<open>\<open>strings.ToUpper\<close> on ASCII letters.\<close>

definition toUpper :: "string \<Rightarrow> string" where
  "toUpper = map (\<lambda>c. if 97 \<le> (of_char c :: nat) \<and> (of_char c :: nat) \<le> 122 then char_of ((of_char c :: nat) - 32) else c)"

definition quote :: "string \<Rightarrow> string" where
  "quote s = [CHR 0x27] @ s @ [CHR 0x27]"

record InspectionType =
  typeId :: string
  typeName :: string
  typeDescription :: string
  category :: string

definition InspectionType_Print :: "InspectionType \<Rightarrow> string" where
  "InspectionType_Print i =
     ''##teamcity[inspectionType id='' @ quote (cutVal (typeId i) smallLimit) @
     '' name='' @ quote (cutVal (typeName i) smallLimit) @
     '' description='' @ quote (cutVal (escaper (typeDescription i)) largeLimit) @
     '' category='' @ quote (cutVal (category i) smallLimit) @ '']'' @ [CHR 0x0A]"

record InspectionInstance =
  instTypeID :: string
  instMessage :: string
  instFile :: string
  instLine :: int
  instSeverity :: string

definition InspectionInstance_Print :: "InspectionInstance \<Rightarrow> string" where
  "InspectionInstance_Print i =
     ''##teamcity[inspection typeId='' @ quote (cutVal (instTypeID i) smallLimit) @
     '' message='' @ quote (cutVal (escaper (instMessage i)) largeLimit) @
     '' file='' @ quote (cutVal (instFile i) largeLimit) @
     '' line='' @ quote (formatInt (instLine i)) @
     '' SEVERITY='' @ quote (instSeverity i) @ '']'' @ [CHR 0x0A]"

fun TeamCity_loop :: "Issue list \<Rightarrow> string set \<Rightarrow> severitySanitizer \<Rightarrow> string \<times> severitySanitizer" where
  "TeamCity_loop [] uniqLinters s = ([], s)"
| "TeamCity_loop (issue # issues) uniqLinters s =
     (let typeText = (if FromLinter issue \<in> uniqLinters then []
                      else InspectionType_Print \<lparr>typeId = FromLinter issue, typeName = FromLinter issue,
                             typeDescription = FromLinter issue, category = ''Golangci-lint reports''\<rparr>);
          (severity, s) = Sanitize (toUpper (Severity issue)) s;
          instText = InspectionInstance_Print \<lparr>instTypeID = FromLinter issue, instMessage = Text issue,
                       instFile = FilePath issue, instLine = issueLine issue, instSeverity = severity\<rparr>;
          (out, s) = TeamCity_loop issues (insert (FromLinter issue) uniqLinters) s
      in (typeText @ instText @ out, s))"

definition TeamCity_Print :: "Issue list \<Rightarrow> string \<times> severitySanitizer" where
  "TeamCity_Print issues = TeamCity_loop issues {} teamCitySanitizer"

section \<open>Documents\<close>

record checkstyleError =
  csColumn :: int
  csLine :: int
  csMessage :: string
  csSeverity :: string
  csSource :: string

record checkstyleFile =
  csName :: string
  csErrors :: "checkstyleError list"

record checkstyleOutput =
  csVersion :: string
  csFiles :: "checkstyleFile list"

definition checkstyleSanitizer :: severitySanitizer where
  "checkstyleSanitizer = \<lparr>allowedSeverities = [''ignore'', ''info'', ''warning'', ''error''], defaultSeverity = ''error'',
     unsupportedSeverities = {}\<rparr>"

text \<open>The map of files under construction: a file that is not there yet is created when its first issue comes.\<close>

fun Checkstyle_loop :: "Issue list \<Rightarrow> (string \<rightharpoonup> checkstyleFile) \<Rightarrow> severitySanitizer \<Rightarrow>
    (string \<rightharpoonup> checkstyleFile) \<times> severitySanitizer" where
  "Checkstyle_loop [] files s = (files, s)"
| "Checkstyle_loop (issue # issues) files s =
     (let f = (case files (FilePath issue) of Some f \<Rightarrow> f | None \<Rightarrow> \<lparr>csName = FilePath issue, csErrors = []\<rparr>);
          (severity, s) = Sanitize (Severity issue) s;
          newError = \<lparr>csColumn = issueColumn issue, csLine = issueLine issue, csMessage = Text issue,
                      csSeverity = severity, csSource = FromLinter issue\<rparr>
      in Checkstyle_loop issues (files(FilePath issue \<mapsto> f\<lparr>csErrors := csErrors f @ [newError]\<rparr>)) s)"

text \<open>The values of a map with the keys given in some order, sorted.\<close>

definition sortedValues :: "('v \<Rightarrow> string) \<Rightarrow> (string \<rightharpoonup> 'v) \<Rightarrow> string list \<Rightarrow> 'v list" where
  "sortedValues name m order' = stable_sort (\<lambda>a b. cmp_string (name a) (name b) < 0) (map (\<lambda>k. the (m k)) order')"

definition Checkstyle_document :: "string list \<Rightarrow> Issue list \<Rightarrow> checkstyleOutput \<times> severitySanitizer" where
  "Checkstyle_document order' issues =
     (let (files, s) = Checkstyle_loop issues Map.empty checkstyleSanitizer
      in (\<lparr>csVersion = ''5.0'', csFiles = sortedValues csName files order'\<rparr>, s))"

record failureXML =
  failMessage :: string
  failType :: string
  failContent :: string

record testCaseXML =
  tcName :: string
  tcClassName :: string
  tcFailure :: failureXML
  tcFile :: string
  tcLine :: int

record testSuiteXML =
  Suite :: string
  Tests :: int
  Errors :: int
  Failures :: int
  TestCases :: "testCaseXML list"

definition testCase :: "bool \<Rightarrow> Issue \<Rightarrow> testCaseXML" where
  "testCase extended issue =
     \<lparr>tcName = FromLinter issue, tcClassName = positionString (Pos issue),
      tcFailure = \<lparr>failMessage = positionString (Pos issue) @ '': '' @ Text issue, failType = Severity issue,
        failContent = Severity issue @ '': '' @ Text issue @ [CHR 0x0A] @ ''Category: '' @ FromLinter issue @ [CHR 0x0A] @
          ''File: '' @ Filename (Pos issue) @ [CHR 0x0A] @ ''Line: '' @ formatInt (Line (Pos issue)) @ [CHR 0x0A] @
          ''Details: '' @ Join (SourceLines issue) [CHR 0x0A]\<rparr>,
      tcFile = (if extended then Filename (Pos issue) else []), tcLine = (if extended then Line (Pos issue) else 0)\<rparr>"

fun JUnitXML_loop :: "bool \<Rightarrow> Issue list \<Rightarrow> (string \<rightharpoonup> testSuiteXML) \<Rightarrow> (string \<rightharpoonup> testSuiteXML)" where
  "JUnitXML_loop extended [] suites = suites"
| "JUnitXML_loop extended (issue # issues) suites =
     (let suite = (case suites (FilePath issue) of
                     Some suite \<Rightarrow> suite
                   | None \<Rightarrow> \<lparr>Suite = [], Tests = 0, Errors = 0, Failures = 0, TestCases = []\<rparr>);
          suite = suite\<lparr>Suite := FilePath issue, Tests := Tests suite + 1, Failures := Failures suite + 1,
                        TestCases := TestCases suite @ [testCase extended issue]\<rparr>
      in JUnitXML_loop extended issues (suites(FilePath issue \<mapsto> suite)))"

definition JUnitXML_document :: "bool \<Rightarrow> string list \<Rightarrow> Issue list \<Rightarrow> testSuiteXML list" where
  "JUnitXML_document extended order' issues = sortedValues Suite (JUnitXML_loop extended issues Map.empty) order'"

record codeClimateIssue =
  ccDescription :: string
  ccCheckName :: string
  ccSeverity :: string
  ccFingerprint :: string
  ccPath :: string
  ccBegin :: int

definition codeClimateSanitizer :: severitySanitizer where
  "codeClimateSanitizer = \<lparr>allowedSeverities = [''info'', ''minor'', ''major'', ''critical'', ''blocker''],
     defaultSeverity = ''critical'', unsupportedSeverities = {}\<rparr>"

fun sanitizedMap :: "(Issue \<Rightarrow> string \<Rightarrow> 'a) \<Rightarrow> Issue list \<Rightarrow> severitySanitizer \<Rightarrow> 'a list \<times> severitySanitizer" where
  "sanitizedMap f [] s = ([], s)"
| "sanitizedMap f (issue # issues) s =
     (let (severity, s) = Sanitize (Severity issue) s; (rest, s) = sanitizedMap f issues s in (f issue severity # rest, s))"

definition CodeClimate_document :: "(string \<Rightarrow> string) \<Rightarrow> Issue list \<Rightarrow> codeClimateIssue list \<times> severitySanitizer" where
  "CodeClimate_document md5 issues =
     sanitizedMap (\<lambda>issue severity.
       \<lparr>ccDescription = Description issue, ccCheckName = FromLinter issue, ccSeverity = severity,
        ccFingerprint = Fingerprint md5 issue, ccPath = Filename (Pos issue), ccBegin = Line (Pos issue)\<rparr>)
       issues codeClimateSanitizer"

record sarifResult =
  RuleID :: string
  Level :: string
  sarifText :: string
  URI :: string
  StartLine :: int
  StartColumn :: int

definition sarifSanitizer :: severitySanitizer where
  "sarifSanitizer = \<lparr>allowedSeverities = [''none'', ''note'', ''warning'', ''error''], defaultSeverity = ''error'',
     unsupportedSeverities = {}\<rparr>"

record SarifOutput =
  sarifVersion :: string
  sarifSchema :: string
  driverName :: string
  sarifResults :: "sarifResult list"

definition Sarif_document :: "Issue list \<Rightarrow> SarifOutput \<times> severitySanitizer" where
  "Sarif_document issues =
     (let (results, s) = sanitizedMap (\<lambda>issue severity.
            \<lparr>RuleID = FromLinter issue, Level = severity, sarifText = Text issue, URI = FilePath issue,
             StartLine = issueLine issue, StartColumn = max 1 (issueColumn issue)\<rparr>) issues sarifSanitizer
      in (\<lparr>sarifVersion = ''2.1.0'',
           sarifSchema = ''https://schemastore.azurewebsites.net/schemas/json/sarif-2.1.0-rtm.6.json'',
           driverName = ''golangci-lint'', sarifResults = results\<rparr>, s))"

record htmlIssue =
  htmlTitle :: string
  htmlPos :: string
  htmlLinter :: string
  htmlCode :: string

definition HTML_document :: "Issue list \<Rightarrow> htmlIssue list" where
  "HTML_document issues = map (\<lambda>issue.
     \<lparr>htmlTitle = TrimSpace (Text issue),
      htmlPos = FilePath issue @ '':'' @ formatInt (issueLine issue) @
        (if Column (Pos issue) \<noteq> 0 then '':'' @ formatInt (Column (Pos issue)) else []),
      htmlLinter = FromLinter issue, htmlCode = Join (SourceLines issue) [CHR 0x0A]\<rparr>) issues"

section \<open>Choosing the outputs\<close>

datatype format = FText | FJSON | FTab | FHTML | FCheckstyle | FCodeClimate | FJUnitXML | FTeamCity | FSarif

record Formats =
  paths :: "format \<Rightarrow> string"
  textFormat :: TextPrinter
  tabFormat :: TextPrinter
  Extended :: bool

definition allFormats :: "format list" where
  "allFormats = [FText, FJSON, FTab, FHTML, FCheckstyle, FCodeClimate, FJUnitXML, FTeamCity, FSarif]"

definition Formats_IsEmpty :: "Formats \<Rightarrow> bool" where
  "Formats_IsEmpty f \<longleftrightarrow> list_all (\<lambda>k. paths f k = []) allFormats"

datatype writer = StdOut | StdErr | File string

record PrinterEnv =
  basePath :: string
  mkdirAll :: "string \<Rightarrow> string option"
  openFile :: "string \<Rightarrow> string option"
  paint :: "colorAttr \<Rightarrow> string \<Rightarrow> string"
  align :: "string \<Rightarrow> string"
  md5 :: "string \<Rightarrow> string"
  mapOrder :: "string set \<Rightarrow> string list"
  encodeJSON :: "Issue list \<Rightarrow> string \<times> string option"
  encodeHTML :: "htmlIssue list \<Rightarrow> string \<times> string option"
  encodeCheckstyle :: "checkstyleOutput \<Rightarrow> string \<times> string option"
  encodeCodeClimate :: "codeClimateIssue list \<Rightarrow> string \<times> string option"
  encodeJUnitXML :: "testSuiteXML list \<Rightarrow> string \<times> string option"
  encodeSarif :: "SarifOutput \<Rightarrow> string \<times> string option"

text \<open>What happens to the outputs: \<open>Created\<close> is \<open>os.OpenFile\<close> with \<open>O_CREATE|O_TRUNC\<close>, after which the file is there and empty.\<close>

datatype output_event = Created string | Wrote writer string

text \<open>Creating a writer may make the path absolute, in the configuration; the last component is what it does to the outputs.\<close>

definition createWriter :: "PrinterEnv \<Rightarrow> string \<Rightarrow> (string + writer) \<times> string \<times> output_event list" where
  "createWriter env path =
     (if path = [] \<or> path = ''stdout'' then (Inr StdOut, path, [])
      else if path = ''stderr'' then (Inr StdErr, path, [])
      else let path = (if \<not> FilepathIsAbs path then FilepathJoin [basePath env, path] else path) in
        case mkdirAll env (FilepathDir path) of
          Some err \<Rightarrow> (Inl err, path, [])
        | None \<Rightarrow>
            (case openFile env path of
               Some err \<Rightarrow> (Inl err, path, [])
             | None \<Rightarrow> (Inr (File path), path, [Created path])))"

datatype print_error = CantCreateOutput string string | PrintFailed string

text \<open>What a printer writes, and its error.\<close>

definition printFormat :: "PrinterEnv \<Rightarrow> Formats \<Rightarrow> format \<Rightarrow> Issue list \<Rightarrow> string \<times> string option" where
  "printFormat env cfg k issues =
     (case k of
        FText \<Rightarrow> (Text_Print (paint env) (textFormat cfg) issues, None)
      | FJSON \<Rightarrow> encodeJSON env issues
      | FTab \<Rightarrow> (Tab_Print (align env) (paint env) (tabFormat cfg) issues, None)
      | FHTML \<Rightarrow> encodeHTML env (HTML_document issues)
      | FCheckstyle \<Rightarrow> encodeCheckstyle env (fst (Checkstyle_document (mapOrder env (FilePath ` set issues)) issues))
      | FCodeClimate \<Rightarrow> encodeCodeClimate env (fst (CodeClimate_document (md5 env) issues))
      | FJUnitXML \<Rightarrow> encodeJUnitXML env (JUnitXML_document (Extended cfg) (mapOrder env (FilePath ` set issues)) issues)
      | FTeamCity \<Rightarrow> (fst (TeamCity_Print issues), None)
      | FSarif \<Rightarrow> encodeSarif env (fst (Sarif_document issues)))"

text \<open>First all outputs are created in the order of the formats, then the printers run in that order. An output that
  was created stays empty when a later one cannot be created.\<close>

fun createWriters ::
  "PrinterEnv \<Rightarrow> format list \<Rightarrow> Formats \<Rightarrow> (print_error + (format \<times> writer) list) \<times> output_event list \<times> Formats" where
  "createWriters env [] cfg = (Inr [], [], cfg)"
| "createWriters env (k # ks) cfg =
     (if paths cfg k = [] then createWriters env ks cfg
      else case createWriter env (paths cfg k) of
        (Inl err, path, evs) \<Rightarrow> (Inl (CantCreateOutput path err), evs, cfg\<lparr>paths := (paths cfg)(k := path)\<rparr>)
      | (Inr w, path, evs) \<Rightarrow>
          (case createWriters env ks (cfg\<lparr>paths := (paths cfg)(k := path)\<rparr>) of
             (Inl err, evs', cfg) \<Rightarrow> (Inl err, evs @ evs', cfg)
           | (Inr ws, evs', cfg) \<Rightarrow> (Inr ((k, w) # ws), evs @ evs', cfg)))"

fun runPrinters :: "PrinterEnv \<Rightarrow> Formats \<Rightarrow> (format \<times> writer) list \<Rightarrow> Issue list \<Rightarrow> print_error option \<times> output_event list" where
  "runPrinters env cfg [] issues = (None, [])"
| "runPrinters env cfg ((k, w) # ws) issues =
     (case printFormat env cfg k issues of
        (out, Some err) \<Rightarrow> (Some (PrintFailed err), [Wrote w out])
      | (out, None) \<Rightarrow> (case runPrinters env cfg ws issues of (e, outs) \<Rightarrow> (e, Wrote w out # outs)))"

definition Printer_Print :: "PrinterEnv \<Rightarrow> Formats \<Rightarrow> Issue list \<Rightarrow> print_error option \<times> output_event list \<times> Formats" where
  "Printer_Print env cfg issues =
     (let cfg = (if Formats_IsEmpty cfg then cfg\<lparr>paths := (paths cfg)(FText := ''stdout'')\<rparr> else cfg) in
      case createWriters env allFormats cfg of
        (Inl err, evs, cfg) \<Rightarrow> (Some err, evs, cfg)
      | (Inr ws, evs, cfg) \<Rightarrow> (case runPrinters env cfg ws issues of (e, outs) \<Rightarrow> (e, evs @ outs, cfg)))"

section \<open>Reading TeamCity values\<close>

text \<open>How a value of a service message is read: a bar makes the next character literal or a line break, a
  quote ends the value.\<close>

fun readValue :: "string \<Rightarrow> (string \<times> string) option" where
  "readValue [] = None"
| "readValue (c # s) =
     (if c = CHR 0x27 then Some ([], s)
      else if c = CHR ''|'' then
        (case s of
           [] \<Rightarrow> None
         | d # t \<Rightarrow> map_option (map_prod ((#) (if d = CHR ''n'' then CHR 0x0A else if d = CHR ''r'' then CHR 0x0D else d)) id)
                     (readValue t))
      else map_option (map_prod ((#) c) id) (readValue s))"

lemma readValue_escapeChar:
  "readValue (escapeChar c @ s) = map_option (map_prod ((#) c) id) (readValue s)"
  by (auto simp: escapeChar_def)

lemma readValue_escaper:
  "readValue (escaper m @ s) = map_option (map_prod ((@) m) id) (readValue s)"
proof (induction m)
  case Nil
  then show ?case by (cases "readValue s") (auto simp: escaper_def)
next
  case (Cons c m)
  have "readValue (escaper (c # m) @ s) = map_option (map_prod ((#) c) id) (readValue (escaper m @ s))"
    by (simp add: escaper_def readValue_escapeChar)
  then show ?case using Cons.IH by (cases "readValue s") auto
qed

text \<open>A message whose escaped form is cut inside an escape: what is left of the escape is a bar.\<close>

lemma runes_ascii: "byte c < 128 \<Longrightarrow> runes (c # s) = ([c], True) # runes s"
  by (simp add: Let_def runeLen.simps following_def inRanges_def)

lemma cutVal_splits_escape:
  assumes "utf8Valid (escaper p)" "length (runes (escaper p)) = n"
    and "c \<in> {CHR 0x27, CHR ''|'', CHR ''['', CHR '']'', CHR 0x0A, CHR 0x0D}"
  shows "cutVal (escaper (p @ [c] @ q)) (Suc n) = escaper p @ ''|''"
proof -
  obtain d where d: "escapeChar c = [CHR ''|'', d]" "byte d < 128"
    using assms(3) by (auto simp: escapeChar_def)
  have "escaper (p @ [c] @ q) = escaper p @ CHR ''|'' # d # escaper q" by (simp add: escaper_def d(1))
  moreover have "runes (CHR ''|'' # d # escaper q) = (''|'', True) # ([d], True) # runes (escaper q)"
    using runes_ascii [of "CHR ''|''"] runes_ascii [OF d(2)] by simp
  ultimately have "runes (escaper (p @ [c] @ q)) = runes (escaper p) @ [(''|'', True)] @ ([d], True) # runes (escaper q)"
    using runes_append [OF assms(1)] by simp
  moreover have "concat (map (\<lambda>(r, ok). if ok then r else replacement) (runes (escaper p))) = escaper p"
    using toValidUTF8_valid [OF assms(1)] by (simp add: toValidUTF8_def)
  ultimately show ?thesis using assms(2) by (simp add: cutVal_def)
qed

text \<open>The printed message up to the opening quote of its text, and what follows the closing quote.\<close>

definition beforeMessage :: "InspectionInstance \<Rightarrow> string" where
  "beforeMessage i = ''##teamcity[inspection typeId='' @ quote (cutVal (instTypeID i) smallLimit) @ '' message='' @ [CHR 0x27]"

definition afterMessage :: "InspectionInstance \<Rightarrow> string" where
  "afterMessage i = '' file='' @ quote (cutVal (instFile i) largeLimit) @ '' line='' @ quote (formatInt (instLine i)) @
     '' SEVERITY='' @ quote (instSeverity i) @ '']'' @ [CHR 0x0A]"

lemma InspectionInstance_Print_split:
  "InspectionInstance_Print i = beforeMessage i @ cutVal (escaper (instMessage i)) largeLimit @ [CHR 0x27] @ afterMessage i"
  by (simp add: InspectionInstance_Print_def beforeMessage_def afterMessage_def quote_def)


lemma runes_plain: "list_all (\<lambda>c. byte c < 128) s \<Longrightarrow> runes s = map (\<lambda>c. ([c], True)) s"
  by (induction s) (simp_all add: runes_ascii del: runes.simps(2))

lemma escaper_plain: "list_all (\<lambda>c. escapeChar c = [c]) s \<Longrightarrow> escaper s = s"
  by (induction s) (simp_all add: escaper_def)


section \<open>Documents grouped by file\<close>

definition sanitized :: "severitySanitizer \<Rightarrow> string \<Rightarrow> string" where
  "sanitized s severity = (if severity \<in> set (allowedSeverities s) then severity else defaultSeverity s)"

lemma Sanitize_fst: "fst (Sanitize severity s) = sanitized s severity"
  by (simp add: Sanitize_def sanitized_def)

lemma sanitized_Sanitize [simp]: "sanitized (snd (Sanitize severity s)) = sanitized s"
  by (auto simp: Sanitize_def sanitized_def fun_eq_iff)

lemma sanitizedMap_fst: "fst (sanitizedMap f issues s) = map (\<lambda>i. f i (sanitized s (Severity i))) issues"
proof (induction issues arbitrary: s)
  case (Cons i issues)
  obtain sev s' where S: "Sanitize (Severity i) s = (sev, s')" by fastforce
  have "sev = sanitized s (Severity i)" "sanitized s' = sanitized s"
    using Sanitize_fst [of "Severity i" s] sanitized_Sanitize [of "Severity i" s] S by simp_all
  then show ?case using Cons.IH [of s'] S by (simp add: split_beta Let_def)
qed simp

definition csError :: "Issue \<Rightarrow> checkstyleError" where
  "csError i = \<lparr>csColumn = issueColumn i, csLine = issueLine i, csMessage = Text i,
     csSeverity = sanitized checkstyleSanitizer (Severity i), csSource = FromLinter i\<rparr>"

lemma Checkstyle_loop_spec:
  assumes "sanitized s = sanitized checkstyleSanitizer" "\<And>n f. files n = Some f \<Longrightarrow> csName f = n"
  shows "fst (Checkstyle_loop issues files s) n =
    (if n \<in> FilePath ` set issues \<or> files n \<noteq> None
     then Some \<lparr>csName = n, csErrors = (case files n of Some f \<Rightarrow> csErrors f | None \<Rightarrow> []) @
                 map csError (filter (\<lambda>i. FilePath i = n) issues)\<rparr>
     else None)"
  using assms
proof (induction issues arbitrary: files s)
  case Nil
  show ?case
  proof (cases "files n")
    case (Some f)
    then have "f = \<lparr>csName = n, csErrors = csErrors f\<rparr>" using Nil(2) by (metis checkstyleFile.surjective old.unit.exhaust)
    then show ?thesis using Some by simp
  qed simp
next
  case (Cons i issues)
  obtain sev s' where S: "Sanitize (Severity i) s = (sev, s')" by fastforce
  have sev: "sev = sanitized checkstyleSanitizer (Severity i)" and s': "sanitized s' = sanitized checkstyleSanitizer"
    using Sanitize_fst [of "Severity i" s] sanitized_Sanitize [of "Severity i" s] S Cons.prems(1) by simp_all
  define f where "f = (case files (FilePath i) of Some f \<Rightarrow> f | None \<Rightarrow> \<lparr>csName = FilePath i, csErrors = []\<rparr>)"
  define files' where "files' = files(FilePath i \<mapsto> f\<lparr>csErrors := csErrors f @ [csError i]\<rparr>)"
  have name: "csName f = FilePath i" using Cons.prems(2) by (auto simp: f_def split: option.splits)
  then have names: "csName g = m" if "files' m = Some g" for m g
    using that Cons.prems(2) by (auto simp: files'_def split: if_splits)
  have "fst (Checkstyle_loop (i # issues) files s) n = fst (Checkstyle_loop issues files' s') n"
    by (simp add: S sev files'_def f_def csError_def Let_def)
  also have "fst (Checkstyle_loop issues files' s') n =
    (if n \<in> FilePath ` set issues \<or> files' n \<noteq> None
     then Some \<lparr>csName = n, csErrors = (case files' n of Some f \<Rightarrow> csErrors f | None \<Rightarrow> []) @
                 map csError (filter (\<lambda>i. FilePath i = n) issues)\<rparr>
     else None)" by (rule Cons.IH [OF s' names])
  finally show ?case by (auto simp: files'_def f_def split: option.splits)
qed

text \<open>The sorted values of a map by key.\<close>

interpretation byName: less_preorder "\<lambda>a b. cmp_string (name a) (name b) < 0" for name :: "'a \<Rightarrow> string"
proof
  show "\<not> cmp_string (name b) (name a) < 0" if "cmp_string (name a) (name b) < 0" for a b
    using that cmp_string_opposite [of "name b" "name a"] by simp
  show "\<not> cmp_string (name c) (name a) < 0" if "\<not> cmp_string (name b) (name a) < 0" "\<not> cmp_string (name c) (name b) < 0" for a b c
    using that cmp_string_le_trans [of "name a" "name b" "name c"] cmp_string_opposite [of "name a" "name b"]
      cmp_string_opposite [of "name b" "name c"] cmp_string_opposite [of "name a" "name c"] by simp
qed

lemma sortedValues_spec:
  assumes "distinct order'" "\<And>k. k \<in> set order' \<Longrightarrow> \<exists>v. m k = Some v \<and> name v = k"
  shows "sorted_wrt (\<lambda>a b. cmp_string (name a) (name b) < 0) (sortedValues name m order')"
    "set (sortedValues name m order') = {v. \<exists>k \<in> set order'. m k = Some v}"
proof -
  let ?vs = "map (\<lambda>k. the (m k)) order'"
  let ?lt = "\<lambda>a b. cmp_string (name a) (name b) < 0"
  have names: "map name ?vs = order'" using assms(2) by (induction order') fastforce+
  show "set (sortedValues name m order') = {v. \<exists>k \<in> set order'. m k = Some v}"
    using assms(2) by (force simp: sortedValues_def)
  have "distinct (map name ?vs)" unfolding names by (rule assms(1))
  then have inj: "inj_on name (set ?vs)" and "distinct ?vs" using distinct_map [of name ?vs] by blast+
  then have d: "distinct (stable_sort ?lt ?vs)" by simp
  have "sorted_wrt (\<lambda>a b. \<not> ?lt b a) (stable_sort ?lt ?vs)" by (rule byName.sorted_stable_sort)
  then have "sorted_wrt (\<lambda>a b. a \<noteq> b \<and> \<not> ?lt b a) (stable_sort ?lt ?vs)"
    using d by (induction "stable_sort ?lt ?vs") (auto simp: sorted_wrt_iff_nth_less nth_eq_iff_index_eq)
  moreover have "?lt a b" if "a \<noteq> b \<and> \<not> ?lt b a" "a \<in> set ?vs" "b \<in> set ?vs" for a b
  proof -
    have "name a \<noteq> name b" using that inj by (auto dest: inj_onD)
    then show ?thesis using that(1) cmp_string_zero_iff [of "name a" "name b"] cmp_string_opposite [of "name a" "name b"] by simp
  qed
  ultimately have "sorted_wrt ?lt (stable_sort ?lt ?vs)"
    by (rule sorted_wrt_mono_rel [rotated]) simp_all
  then show "sorted_wrt ?lt (sortedValues name m order')" by (simp add: sortedValues_def)
qed

text \<open>Whatever order the map of files is visited in, the Checkstyle document lists each file with an issue
  exactly once, in ascending order of names, and under it exactly the issues of that file in their order, each
  with a severity that the format allows: its own, or the default.\<close>

theorem checkstyle_document_exact:
  assumes "distinct order'" "set order' = FilePath ` set issues"
  shows "let files = csFiles (fst (Checkstyle_document order' issues)) in
    sorted_wrt (\<lambda>a b. cmp_string (csName a) (csName b) < 0) files \<and>
    csName ` set files = FilePath ` set issues \<and>
    (\<forall>f \<in> set files. csErrors f =
       map (\<lambda>i. \<lparr>csColumn = issueColumn i, csLine = issueLine i, csMessage = Text i,
                 csSeverity = (if Severity i \<in> {''ignore'', ''info'', ''warning'', ''error''} then Severity i else ''error''),
                 csSource = FromLinter i\<rparr>)
         (filter (\<lambda>i. FilePath i = csName f) issues))"
proof -
  define m where "m = fst (Checkstyle_loop issues Map.empty checkstyleSanitizer)"
  define g where "g n = \<lparr>csName = n, csErrors = map csError (filter (\<lambda>i. FilePath i = n) issues)\<rparr>" for n
  have m: "m n = (if n \<in> FilePath ` set issues then Some (g n) else None)" for n
    unfolding m_def g_def by (subst Checkstyle_loop_spec) auto
  have v: "\<exists>v. m k = Some v \<and> csName v = k" if "k \<in> set order'" for k
    using that assms(2) by (simp add: m g_def)
  have sorted: "sorted_wrt (\<lambda>a b. cmp_string (csName a) (csName b) < 0) (sortedValues csName m order')"
    by (rule sortedValues_spec(1) [OF assms(1)]) (rule v)
  have vals: "set (sortedValues csName m order') = {v. \<exists>k \<in> set order'. m k = Some v}"
    by (rule sortedValues_spec(2) [OF assms(1)]) (rule v)
  have files: "csFiles (fst (Checkstyle_document order' issues)) = sortedValues csName m order'"
    by (simp add: Checkstyle_document_def m_def split_beta)
  have set: "set (sortedValues csName m order') = g ` FilePath ` set issues"
    unfolding vals assms(2) by (auto simp: m)
  have err: "csError = (\<lambda>i. \<lparr>csColumn = issueColumn i, csLine = issueLine i, csMessage = Text i,
       csSeverity = (if Severity i \<in> {''ignore'', ''info'', ''warning'', ''error''} then Severity i else ''error''),
       csSource = FromLinter i\<rparr>)"
    by (simp add: fun_eq_iff csError_def sanitized_def checkstyleSanitizer_def)
  show ?thesis
    unfolding Let_def files set err [symmetric] using sorted by (auto simp: g_def image_image)
qed

theorem checkstyle_document_exact_witness:
  "let issues = [mkIssue ''unused'' ''u'' ''b.go'' 3, mkIssue ''govet'' ''v'' ''a.go'' 1, mkIssue ''govet'' ''w'' ''b.go'' 2]
   in csName ` set (csFiles (fst (Checkstyle_document [''b.go'', ''a.go''] issues))) = {''a.go'', ''b.go''}"
proof -
  have f: "FilePath (mkIssue l t f n) = f" for l t f n by (simp add: mkIssue_def FilePath_def)
  show ?thesis
    using checkstyle_document_exact [of "[''b.go'', ''a.go'']"
        "[mkIssue ''unused'' ''u'' ''b.go'' 3, mkIssue ''govet'' ''v'' ''a.go'' 1, mkIssue ''govet'' ''w'' ''b.go'' 2]"]
    by (auto simp: f Let_def)
qed

text \<open>The JUnit document is grouped in the same way.\<close>

lemma JUnitXML_loop_spec:
  assumes "\<And>n f. suites n = Some f \<Longrightarrow> Suite f = n \<and> Errors f = 0"
  shows "JUnitXML_loop ext issues suites n =
    (if n \<in> FilePath ` set issues \<or> suites n \<noteq> None
     then let old = (case suites n of Some f \<Rightarrow> f | None \<Rightarrow> \<lparr>Suite = [], Tests = 0, Errors = 0, Failures = 0, TestCases = []\<rparr>);
              mine = filter (\<lambda>i. FilePath i = n) issues
          in Some \<lparr>Suite = n, Tests = Tests old + int (length mine), Errors = 0, Failures = Failures old + int (length mine),
               TestCases = TestCases old @ map (testCase ext) mine\<rparr>
     else None)"
  using assms
proof (induction issues arbitrary: suites)
  case Nil
  show ?case
  proof (cases "suites n")
    case (Some f)
    then show ?thesis using Nil by (simp add: Let_def)
  qed simp
next
  case (Cons i issues)
  define f where "f = (case suites (FilePath i) of Some f \<Rightarrow> f | None \<Rightarrow> \<lparr>Suite = [], Tests = 0, Errors = 0, Failures = 0, TestCases = []\<rparr>)"
  define suites' where "suites' = suites(FilePath i \<mapsto> f\<lparr>Suite := FilePath i, Tests := Tests f + 1, Failures := Failures f + 1,
      TestCases := TestCases f @ [testCase ext i]\<rparr>)"
  have "Errors f = 0" using Cons.prems by (auto simp: f_def split: option.splits)
  then have ok: "Suite g = m \<and> Errors g = 0" if "suites' m = Some g" for m g
    using that Cons.prems by (auto simp: suites'_def split: if_splits)
  have eq: "JUnitXML_loop ext (i # issues) suites n = JUnitXML_loop ext issues suites' n"
    by (simp add: suites'_def f_def Let_def)
  have ih: "JUnitXML_loop ext issues suites' n =
    (if n \<in> FilePath ` set issues \<or> suites' n \<noteq> None
     then let old = (case suites' n of Some f \<Rightarrow> f | None \<Rightarrow> \<lparr>Suite = [], Tests = 0, Errors = 0, Failures = 0, TestCases = []\<rparr>);
              mine = filter (\<lambda>i. FilePath i = n) issues
          in Some \<lparr>Suite = n, Tests = Tests old + int (length mine), Errors = 0, Failures = Failures old + int (length mine),
               TestCases = TestCases old @ map (testCase ext) mine\<rparr>
     else None)" by (rule Cons.IH) (rule ok)
  show ?case unfolding eq ih
    by (cases "n = FilePath i"; cases "suites (FilePath i)") (simp_all add: suites'_def f_def Let_def)
qed

lemma JUnitXML_document_counts:
  assumes "distinct order'" "set order' = FilePath ` set issues" "f \<in> set (JUnitXML_document ext order' issues)"
  shows "Tests f = int (length (TestCases f))" "Failures f = Tests f" "Errors f = 0"
    "TestCases f = map (testCase ext) (filter (\<lambda>i. FilePath i = Suite f) issues)"
proof -
  define m where "m = JUnitXML_loop ext issues Map.empty"
  have m: "m n = (if n \<in> FilePath ` set issues then Some \<lparr>Suite = n, Tests = int (length (filter (\<lambda>i. FilePath i = n) issues)),
      Errors = 0, Failures = int (length (filter (\<lambda>i. FilePath i = n) issues)),
      TestCases = map (testCase ext) (filter (\<lambda>i. FilePath i = n) issues)\<rparr> else None)" for n
    unfolding m_def by (subst JUnitXML_loop_spec) (auto simp: Let_def)
  have "set (sortedValues Suite m order') = {v. \<exists>k \<in> set order'. m k = Some v}"
    by (rule sortedValues_spec(2) [OF assms(1)]) (use assms(2) m in auto)
  then obtain k where "m k = Some f" using assms(3) by (auto simp: JUnitXML_document_def m_def)
  then show "Tests f = int (length (TestCases f))" "Failures f = Tests f" "Errors f = 0"
    "TestCases f = map (testCase ext) (filter (\<lambda>i. FilePath i = Suite f) issues)"
    by (auto simp: m split: if_splits)
qed

section \<open>All outputs\<close>

text \<open>The outcome of creating one output, its path in the configuration, and the outputs it opened.\<close>

lemma createWriter_events:
  "snd (snd (createWriter env path)) = (case fst (createWriter env path) of Inr (File f) \<Rightarrow> [Created f] | _ \<Rightarrow> [])"
  by (simp add: createWriter_def Let_def split: option.splits)

lemma createWriters_spec:
  fixes env :: PrinterEnv and cfg :: Formats
  assumes "distinct ks"
  defines "ok \<equiv> \<lambda>cfg k. \<not> isl (fst (createWriter env (paths cfg k)))"
  shows "let ks' = filter (\<lambda>k. paths cfg k \<noteq> []) ks; w = (\<lambda>k. createWriter env (paths cfg k)) in
    fst (createWriters env ks cfg) =
      (case find (\<lambda>k. \<not> ok cfg k) ks' of
         Some k \<Rightarrow> Inl (CantCreateOutput (fst (snd (w k))) (projl (fst (w k))))
       | None \<Rightarrow> Inr (map (\<lambda>k. (k, projr (fst (w k)))) ks')) \<and>
    fst (snd (createWriters env ks cfg)) = concat (map (\<lambda>k. snd (snd (w k))) (takeWhile (ok cfg) ks'))"
  using assms(1)
proof (induction ks arbitrary: cfg)
  case (Cons k ks)
  show ?case
  proof (cases "paths cfg k = []")
    case True
    then show ?thesis using Cons by (simp add: Let_def)
  next
    case False
    obtain r path evs where w: "createWriter env (paths cfg k) = (r, path, evs)" by (metis surj_pair)
    define cfg' where "cfg' = cfg\<lparr>paths := (paths cfg)(k := path)\<rparr>"
    have same: "paths cfg' j = paths cfg j" if "j \<in> set ks" for j
      using that Cons.prems by (auto simp: cfg'_def)
    have f: "filter (\<lambda>j. paths cfg' j \<noteq> []) ks = filter (\<lambda>j. paths cfg j \<noteq> []) ks"
      using same by (intro filter_cong) auto
    let ?ks = "filter (\<lambda>j. paths cfg j \<noteq> []) ks"
    have ok: "ok cfg' j = ok cfg j" if "j \<in> set ?ks" for j using same that by (simp add: ok_def)
    have fi: "find (\<lambda>j. \<not> ok cfg' j) ?ks = find (\<lambda>j. \<not> ok cfg j) ?ks" using ok by (intro find_cong) auto
    have tw: "takeWhile (ok cfg') ?ks = takeWhile (ok cfg) ?ks" using ok by (rule takeWhile_cong [OF refl])
    have mem: "j \<in> set ks" if "find P (filter Q ks) = Some j" for P Q j
      using that by (auto simp: find_Some_iff dest!: nth_mem)
    have tmem: "j \<in> set ks" if "j \<in> set (takeWhile P (filter Q ks))" for P Q j
      using that by (auto dest: set_takeWhileD)
    have ih1: "fst (createWriters env ks cfg') =
      (case find (\<lambda>j. \<not> ok cfg j) ?ks of
         Some j \<Rightarrow> Inl (CantCreateOutput (fst (snd (createWriter env (paths cfg j)))) (projl (fst (createWriter env (paths cfg j)))))
       | None \<Rightarrow> Inr (map (\<lambda>j. (j, projr (fst (createWriter env (paths cfg j))))) ?ks))"
      using Cons.IH [of cfg'] Cons.prems unfolding Let_def f fi by (auto simp: same split: option.splits dest: mem)
    have ih2: "fst (snd (createWriters env ks cfg')) = concat (map (\<lambda>j. snd (snd (createWriter env (paths cfg j)))) (takeWhile (ok cfg) ?ks))"
    proof -
      have "fst (snd (createWriters env ks cfg')) = concat (map (\<lambda>j. snd (snd (createWriter env (paths cfg' j)))) (takeWhile (ok cfg) ?ks))"
        using Cons.IH [of cfg'] Cons.prems unfolding Let_def f tw by simp
      also have "map (\<lambda>j. snd (snd (createWriter env (paths cfg' j)))) (takeWhile (ok cfg) ?ks) =
          map (\<lambda>j. snd (snd (createWriter env (paths cfg j)))) (takeWhile (ok cfg) ?ks)"
        by (rule map_cong [OF refl]) (simp add: same tmem)
      finally show ?thesis .
    qed
    show ?thesis
    proof (cases r)
      case (Inl err)
      then have "evs = []" using createWriter_events [of env "paths cfg k"] w by simp
      then show ?thesis using False w Inl by (simp add: Let_def ok_def)
    next
      case (Inr wr)
      have "fst (createWriters env (k # ks) cfg) = (case fst (createWriters env ks cfg') of
          Inl err \<Rightarrow> Inl err | Inr ws \<Rightarrow> Inr ((k, wr) # ws))"
        "fst (snd (createWriters env (k # ks) cfg)) = evs @ fst (snd (createWriters env ks cfg'))"
        using False w Inr by (simp_all add: cfg'_def split: sum.splits prod.splits)
      then show ?thesis using ih1 ih2 False w Inr by (simp add: Let_def ok_def split: option.splits)
    qed
  qed
qed (simp add: Let_def)

lemma createWriters_formats:
  "textFormat (snd (snd (createWriters env ks cfg))) = textFormat cfg \<and> tabFormat (snd (snd (createWriters env ks cfg))) = tabFormat cfg \<and>
   Extended (snd (snd (createWriters env ks cfg))) = Extended cfg"
proof (induction ks arbitrary: cfg)
  case (Cons k ks)
  obtain r path evs where w: "createWriter env (paths cfg k) = (r, path, evs)" by (metis surj_pair)
  let ?cfg = "cfg\<lparr>paths := (paths cfg)(k := path)\<rparr>"
  have "snd (snd (createWriters env (k # ks) cfg)) =
      (if paths cfg k = [] then snd (snd (createWriters env ks cfg)) else if isl r then ?cfg else snd (snd (createWriters env ks ?cfg)))"
    by (simp add: w split: sum.splits prod.splits)
  then show ?case using Cons.IH [of cfg] Cons.IH [of ?cfg] by simp
qed simp

lemma printFormat_cong:
  assumes "textFormat cfg = textFormat cfg'" "tabFormat cfg = tabFormat cfg'" "Extended cfg = Extended cfg'"
  shows "printFormat env cfg k issues = printFormat env cfg' k issues"
  using assms by (cases k) (simp_all add: printFormat_def)

text \<open>The printers that run: those before the first that fails, and that one.\<close>

definition upToFailing :: "('a \<Rightarrow> bool) \<Rightarrow> 'a list \<Rightarrow> 'a list" where
  "upToFailing fails ks = takeWhile (\<lambda>k. \<not> fails k) ks @ (case find fails ks of None \<Rightarrow> [] | Some k \<Rightarrow> [k])"

lemma runPrinters_spec:
  "runPrinters env cfg (map (\<lambda>k. (k, w k)) ks) issues =
     (map_option (\<lambda>k. PrintFailed (the (snd (printFormat env cfg k issues)))) (find (\<lambda>k. snd (printFormat env cfg k issues) \<noteq> None) ks),
      map (\<lambda>k. Wrote (w k) (fst (printFormat env cfg k issues))) (upToFailing (\<lambda>k. snd (printFormat env cfg k issues) \<noteq> None) ks))"
proof (induction ks)
  case (Cons k ks)
  obtain out e where p: "printFormat env cfg k issues = (out, e)" by fastforce
  show ?case using Cons p by (cases e) (simp_all add: upToFailing_def)
qed (simp add: upToFailing_def)

text \<open>C14: Printing uses at least one format. All outputs are created before anything is printed: when one cannot be
  created, the error names the first such output and nothing is written at all, but the files opened before it are
  emptied. Otherwise every configured format writes its text to its own output, in the fixed order of the formats,
  up to the first printer that fails, whose error is returned and which may have written a part; without a failing
  printer there is no error and no format is left out.\<close>

theorem printer_creates_before_printing:
  "let cfg' = (if Formats_IsEmpty cfg then cfg\<lparr>paths := (paths cfg)(FText := ''stdout'')\<rparr> else cfg);
       ks = filter (\<lambda>k. paths cfg' k \<noteq> []) allFormats;
       w = (\<lambda>k. createWriter env (paths cfg' k));
       opened = (\<lambda>k. case fst (w k) of Inr (File f) \<Rightarrow> [Created f] | _ \<Rightarrow> []);
       out = (\<lambda>k. printFormat env cfg k issues);
       (err, evs, cfg'') = Printer_Print env cfg issues
   in ks \<noteq> [] \<and>
      (case find (\<lambda>k. isl (fst (w k))) ks of
         Some k \<Rightarrow> err = Some (CantCreateOutput (fst (snd (w k))) (projl (fst (w k)))) \<and>
           evs = concat (map opened (takeWhile (\<lambda>k. \<not> isl (fst (w k))) ks))
       | None \<Rightarrow>
           err = map_option (\<lambda>k. PrintFailed (the (snd (out k)))) (find (\<lambda>k. snd (out k) \<noteq> None) ks) \<and>
           evs = concat (map opened ks) @ map (\<lambda>k. Wrote (projr (fst (w k))) (fst (out k)))
             (takeWhile (\<lambda>k. snd (out k) = None) ks @ (case find (\<lambda>k. snd (out k) \<noteq> None) ks of None \<Rightarrow> [] | Some k \<Rightarrow> [k])))"
proof -
  define cfg' where "cfg' = (if Formats_IsEmpty cfg then cfg\<lparr>paths := (paths cfg)(FText := ''stdout'')\<rparr> else cfg)"
  have d: "distinct allFormats" by (simp add: allFormats_def)
  define ks where "ks = filter (\<lambda>k. paths cfg' k \<noteq> []) allFormats"
  have ne: "ks \<noteq> []" unfolding ks_def
    by (auto simp: cfg'_def Formats_IsEmpty_def list_all_iff filter_empty_conv) (auto simp: allFormats_def)
  obtain r evs c where cw: "createWriters env allFormats cfg' = (r, evs, c)" by (metis surj_pair)
  have pf: "printFormat env c = printFormat env cfg"
    using createWriters_formats [of env allFormats cfg'] cw
    by (intro ext printFormat_cong) (auto simp: cfg'_def split: if_splits)
  note spec = createWriters_spec [OF d, of cfg' env, unfolded Let_def ks_def [symmetric] cw, simplified]
  have none: "takeWhile (\<lambda>k. \<not> isl (fst (createWriter env (paths cfg' k)))) ks = ks"
    if "find (\<lambda>k. isl (fst (createWriter env (paths cfg' k)))) ks = None"
    using that by (auto simp: find_None_iff takeWhile_eq_all_conv)
  show ?thesis
  proof (cases "find (\<lambda>k. isl (fst (createWriter env (paths cfg' k)))) ks")
    case None
    then show ?thesis
      using spec cw ne
      unfolding Let_def cfg'_def [symmetric] ks_def [symmetric] createWriter_events [symmetric] none [OF None]
      by (auto simp: Printer_Print_def Let_def cfg'_def [symmetric] pf runPrinters_spec upToFailing_def)
  next
    case (Some k)
    then show ?thesis
      using spec cw ne
      unfolding Let_def cfg'_def [symmetric] ks_def [symmetric] createWriter_events [symmetric]
      by (auto simp: Printer_Print_def Let_def cfg'_def [symmetric])
  qed
qed

end
