(* ===== verification/Json.thy ===== *)
theory Json
  imports Utf8
begin

text \<open>
  The parts of \<open>unicode/utf8\<close> and \<open>encoding/json\<close> that the worker protocol uses, as executable functions on
  byte strings: the validity of UTF-8, reading a JSON value from the front of a text with the checks that
  \<open>scanJSONValue\<close> of \<open>pkg/lint/workerprotocol/protocol.go\<close> makes on the way, and writing a value without white
  space and without escaping for HTML.

  A value is a tree; a number is its literal, the members of an object are in their order. The tree stands for
  every text that reads as it: \<open>json.RawMessage\<close> is such a tree.
\<close>

section \<open>Characters of a text\<close>

definition EncodeRune :: "nat \<Rightarrow> string" where
  "EncodeRune r =
     (if r < 128 then [char_of r]
      else if r < 2048 then [char_of (192 + r div 64), char_of (128 + r mod 64)]
      else if r < 65536 then [char_of (224 + r div 4096), char_of (128 + r div 64 mod 64), char_of (128 + r mod 64)]
      else [char_of (240 + r div 262144), char_of (128 + r div 4096 mod 64), char_of (128 + r div 64 mod 64), char_of (128 + r mod 64)])"

section \<open>Values\<close>

datatype json = JNull | JBool bool | JNumber string | JString string | JArray "json list" | JObject "(string \<times> json) list"

definition isWs :: "char \<Rightarrow> bool" where
  "isWs c \<longleftrightarrow> c = CHR 0x20 \<or> c = CHR 0x09 \<or> c = CHR 0x0A \<or> c = CHR 0x0D"

abbreviation skipWs :: "string \<Rightarrow> string" where
  "skipWs \<equiv> dropWhile isWs"

definition isDigit :: "char \<Rightarrow> bool" where
  "isDigit c \<longleftrightarrow> 48 \<le> byte c \<and> byte c \<le> 57"

text \<open>Reading a number: an optional sign, digits without a leading zero, a fraction, an exponent.\<close>

definition readDigits :: "string \<Rightarrow> (string \<times> string) option" where
  "readDigits s = (if takeWhile isDigit s = [] then None else Some (takeWhile isDigit s, dropWhile isDigit s))"

definition readInteger :: "string \<Rightarrow> (string \<times> string) option" where
  "readInteger s = (case s of
       [] \<Rightarrow> None
     | c # t \<Rightarrow> if c = CHR ''0'' then Some ([c], t) else readDigits s)"

definition readFraction :: "string \<Rightarrow> (string \<times> string) option" where
  "readFraction s = (case s of
       [] \<Rightarrow> Some ([], [])
     | c # t \<Rightarrow> if c = CHR ''.'' then map_option (\<lambda>(d, u). (c # d, u)) (readDigits t) else Some ([], s))"

definition readExponent :: "string \<Rightarrow> (string \<times> string) option" where
  "readExponent s = (case s of
       [] \<Rightarrow> Some ([], [])
     | c # t \<Rightarrow>
         if c = CHR ''e'' \<or> c = CHR ''E'' then
           (case t of
              [] \<Rightarrow> None
            | d # u \<Rightarrow>
                if d = CHR ''+'' \<or> d = CHR ''-'' then map_option (\<lambda>(e, v). (c # d # e, v)) (readDigits u)
                else map_option (\<lambda>(e, v). (c # e, v)) (readDigits t))
         else Some ([], s))"

definition readNumber :: "string \<Rightarrow> (string \<times> string) option" where
  "readNumber s =
     (let (sign, s) = (case s of c # t \<Rightarrow> if c = CHR ''-'' then ([c], t) else ([], s) | [] \<Rightarrow> ([], s)) in
      case readInteger s of
        None \<Rightarrow> None
      | Some (i, s) \<Rightarrow>
          (case readFraction s of
             None \<Rightarrow> None
           | Some (f, s) \<Rightarrow>
               (case readExponent s of None \<Rightarrow> None | Some (e, s) \<Rightarrow> Some (sign @ i @ f @ e, s))))"

text \<open>Reading a string after its opening quote: escapes are resolved, an unpaired surrogate becomes the
  replacement character, control characters are refused.\<close>

definition hexVal :: "char \<Rightarrow> nat option" where
  "hexVal c =
     (if isDigit c then Some (byte c - 48)
      else if 97 \<le> byte c \<and> byte c \<le> 102 then Some (byte c - 87)
      else if 65 \<le> byte c \<and> byte c \<le> 70 then Some (byte c - 55)
      else None)"

definition hexQuad :: "char \<Rightarrow> char \<Rightarrow> char \<Rightarrow> char \<Rightarrow> nat option" where
  "hexQuad a b c d = (case (hexVal a, hexVal b, hexVal c, hexVal d) of
       (Some w, Some x, Some y, Some z) \<Rightarrow> Some (((w * 16 + x) * 16 + y) * 16 + z)
     | _ \<Rightarrow> None)"

definition simpleEscape :: "char \<Rightarrow> char option" where
  "simpleEscape e =
     (if e = CHR 0x22 \<or> e = CHR 0x5C \<or> e = CHR ''/'' then Some e
      else if e = CHR ''b'' then Some (CHR 0x08)
      else if e = CHR ''f'' then Some (CHR 0x0C)
      else if e = CHR ''n'' then Some (CHR 0x0A)
      else if e = CHR ''r'' then Some (CHR 0x0D)
      else if e = CHR ''t'' then Some (CHR 0x09)
      else None)"

text \<open>The low surrogate that a text starts with, as an escape.\<close>

fun lowSurrogate :: "string \<Rightarrow> (nat \<times> string) option" where
  "lowSurrogate (b # u # h1 # h2 # h3 # h4 # s) =
     (if b = CHR 0x5C \<and> u = CHR ''u'' then
        (case hexQuad h1 h2 h3 h4 of
           Some l \<Rightarrow> if 56320 \<le> l \<and> l < 57344 then Some (l, s) else None
         | None \<Rightarrow> None)
      else None)"
| "lowSurrogate s = None"

lemma lowSurrogate_length: "lowSurrogate s = Some (l, t) \<Longrightarrow> length t < length s"
  by (induction s rule: lowSurrogate.induct) (auto split: if_splits option.splits)

function readString :: "string \<Rightarrow> (string \<times> string) option" where
  "readString [] = None"
| "readString (c # s) =
     (if c = CHR 0x22 then Some ([], s)
      else if byte c < 32 then None
      else if c \<noteq> CHR 0x5C then map_option (map_prod ((#) c) id) (readString s)
      else case s of
        [] \<Rightarrow> None
      | e # t \<Rightarrow>
          if e = CHR ''u'' then
            (case t of
               h1 # h2 # h3 # h4 # u \<Rightarrow>
                 (case hexQuad h1 h2 h3 h4 of
                    None \<Rightarrow> None
                  | Some r \<Rightarrow>
                      if 55296 \<le> r \<and> r < 56320 then
                        (case lowSurrogate u of
                           Some (l, v) \<Rightarrow>
                             map_option (map_prod ((@) (EncodeRune (65536 + (r - 55296) * 1024 + (l - 56320)))) id) (readString v)
                         | None \<Rightarrow> map_option (map_prod ((@) replacement) id) (readString u))
                      else if 56320 \<le> r \<and> r < 57344 then map_option (map_prod ((@) replacement) id) (readString u)
                      else map_option (map_prod ((@) (EncodeRune r)) id) (readString u))
             | _ \<Rightarrow> None)
          else
            (case simpleEscape e of
               None \<Rightarrow> None
             | Some d \<Rightarrow> map_option (map_prod ((#) d) id) (readString t)))"
  by pat_completeness auto
termination readString
  by (relation "measure length") (auto dest!: lowSurrogate_length)

section \<open>Reading\<close>

datatype jsonStructureIssue = jsonStructureDuplicate | jsonStructureTooDeep

datatype scan = Value json string | Issue jsonStructureIssue | SyntaxError

definition MaxNestingDepth :: nat where
  "MaxNestingDepth = 64"

text \<open>The depth at which the library itself gives up.\<close>

definition scannerDepth :: nat where
  "scannerDepth = 10000"

definition readLiteral :: "string \<Rightarrow> json \<Rightarrow> string \<Rightarrow> scan" where
  "readLiteral word v s = (if HasPrefix s word then Value v (drop (length word) s) else SyntaxError)"

text \<open>A value that is neither an object nor an array.\<close>

definition scanScalar :: "char \<Rightarrow> string \<Rightarrow> scan" where
  "scanScalar c t =
     (if c = CHR 0x22 then
        (case readString t of None \<Rightarrow> SyntaxError | Some (str, u) \<Rightarrow> Value (JString (toValidUTF8 str)) u)
      else if c = CHR ''t'' then readLiteral ''true'' (JBool True) (c # t)
      else if c = CHR ''f'' then readLiteral ''false'' (JBool False) (c # t)
      else if c = CHR ''n'' then readLiteral ''null'' JNull (c # t)
      else (case readNumber (c # t) of None \<Rightarrow> SyntaxError | Some (lit, u) \<Rightarrow> Value (JNumber lit) u))"

text \<open>The key of a member and the colon; when \<open>strict\<close>, a key that occurred before ends the scan at once.\<close>

definition readKey :: "bool \<Rightarrow> (string \<times> json) list \<Rightarrow> string \<Rightarrow> scan + string \<times> string" where
  "readKey strict acc s =
     (case skipWs s of
        [] \<Rightarrow> Inl SyntaxError
      | c # t \<Rightarrow>
          if c \<noteq> CHR 0x22 then Inl SyntaxError
          else case readString t of
            None \<Rightarrow> Inl SyntaxError
          | Some (str, u) \<Rightarrow>
              if strict \<and> toValidUTF8 str \<in> fst ` set acc then Inl (Issue jsonStructureDuplicate)
              else case skipWs u of
                [] \<Rightarrow> Inl SyntaxError
              | d # w \<Rightarrow> if d \<noteq> CHR '':'' then Inl SyntaxError else Inr (toValidUTF8 str, w))"

text \<open>After an item: whether a comma or the closing delimiter follows.\<close>

definition readNext :: "char \<Rightarrow> string \<Rightarrow> (bool \<times> string) option" where
  "readNext close s =
     (case skipWs s of
        [] \<Rightarrow> None
      | e # y \<Rightarrow> if e = CHR '','' then Some (True, y) else if e = close then Some (False, y) else None)"

text \<open>Reading a value from the front of a text. When \<open>strict\<close>, the first problem met from the left decides: a
  duplicate key or too deep nesting, or an error of syntax; otherwise only the limit of the library applies. The
  fuel bounds the number of nested calls: of two nested calls at least one reads a byte.\<close>

function scanValue :: "bool \<Rightarrow> nat \<Rightarrow> nat \<Rightarrow> string \<Rightarrow> scan"
  and scanMembers :: "bool \<Rightarrow> nat \<Rightarrow> nat \<Rightarrow> (string \<times> json) list \<Rightarrow> string \<Rightarrow> scan"
  and scanElements :: "bool \<Rightarrow> nat \<Rightarrow> nat \<Rightarrow> json list \<Rightarrow> string \<Rightarrow> scan" where
  "scanValue strict 0 depth s = SyntaxError"
| "scanValue strict (Suc n) depth s =
     (case skipWs s of
        [] \<Rightarrow> SyntaxError
      | c # t \<Rightarrow>
          if c \<noteq> CHR ''{'' \<and> c \<noteq> CHR ''['' then scanScalar c t
          else if strict \<and> depth > MaxNestingDepth then Issue jsonStructureTooDeep
          else if depth > scannerDepth then SyntaxError
          else (case skipWs t of
                  [] \<Rightarrow> SyntaxError
                | d # u \<Rightarrow>
                    if c = CHR ''{'' then
                      (if d = CHR ''}'' then Value (JObject []) u else scanMembers strict n depth [] (d # u))
                    else (if d = CHR '']'' then Value (JArray []) u else scanElements strict n depth [] (d # u))))"
| "scanMembers strict 0 depth acc s = SyntaxError"
| "scanMembers strict (Suc n) depth acc s =
     (case readKey strict acc s of
        Inl r \<Rightarrow> r
      | Inr (key, w) \<Rightarrow>
          (case scanValue strict n (depth + 1) w of
             Value v x \<Rightarrow>
               (case readNext (CHR ''}'') x of
                  None \<Rightarrow> SyntaxError
                | Some (more, y) \<Rightarrow>
                    if more then scanMembers strict n depth (acc @ [(key, v)]) y else Value (JObject (acc @ [(key, v)])) y)
           | r \<Rightarrow> r))"
| "scanElements strict 0 depth acc s = SyntaxError"
| "scanElements strict (Suc n) depth acc s =
     (case scanValue strict n (depth + 1) s of
        Value v x \<Rightarrow>
          (case readNext (CHR '']'') x of
             None \<Rightarrow> SyntaxError
           | Some (more, y) \<Rightarrow> if more then scanElements strict n depth (acc @ [v]) y else Value (JArray (acc @ [v])) y)
      | r \<Rightarrow> r)"
  by pat_completeness auto
termination
  by (relation "measure (case_sum (fst \<circ> snd) (case_sum (fst \<circ> snd) (fst \<circ> snd)))") auto

definition scanFuel :: "string \<Rightarrow> nat" where
  "scanFuel s = 2 * length s + 1"

text \<open>The scan of \<open>validateJSONStructure\<close>, the reading of one value, and \<open>json.Unmarshal\<close> of a whole text.\<close>

definition scanText :: "string \<Rightarrow> scan" where
  "scanText s = scanValue True (scanFuel s) 1 s"

definition readValue :: "string \<Rightarrow> (json \<times> string) option" where
  "readValue s = (case scanValue False (scanFuel s) 1 s of Value v rest \<Rightarrow> Some (v, rest) | _ \<Rightarrow> None)"

definition Unmarshal :: "string \<Rightarrow> json option" where
  "Unmarshal s = (case readValue s of Some (v, rest) \<Rightarrow> if skipWs rest = [] then Some v else None | None \<Rightarrow> None)"

text \<open>The members of an object with their values and the texts of their values, as \<open>json.RawMessage\<close> keeps them.\<close>

function rawMembers :: "string \<Rightarrow> (string \<times> json \<times> string) list" where
  "rawMembers s =
     (case readKey False [] s of
        Inl r \<Rightarrow> []
      | Inr (key, w) \<Rightarrow>
          (case scanValue False (scanFuel w) 2 w of
             Value v x \<Rightarrow>
               if length x < length w \<and> length w < length s then
                 (key, v, take (length (skipWs w) - length x) (skipWs w)) #
                   (case readNext (CHR ''}'') x of
                      Some (True, y) \<Rightarrow> if length y < length s then rawMembers y else []
                    | _ \<Rightarrow> [])
               else []
           | _ \<Rightarrow> []))"
  by pat_completeness auto
termination
  by (relation "measure length") auto

definition rawObject :: "string \<Rightarrow> (string \<times> json \<times> string) list" where
  "rawObject s = (case skipWs s of c # t \<Rightarrow> if c = CHR ''{'' then rawMembers t else [] | [] \<Rightarrow> [])"

section \<open>Writing\<close>

definition lowerHex :: "nat \<Rightarrow> char" where
  "lowerHex n = (if n < 10 then char_of (48 + n) else char_of (87 + n))"

definition escapeByte :: "char \<Rightarrow> string" where
  "escapeByte c =
     (if c = CHR 0x22 \<or> c = CHR 0x5C then [CHR 0x5C, c]
      else if c = CHR 0x08 then [CHR 0x5C, CHR ''b'']
      else if c = CHR 0x0C then [CHR 0x5C, CHR ''f'']
      else if c = CHR 0x0A then [CHR 0x5C, CHR ''n'']
      else if c = CHR 0x0D then [CHR 0x5C, CHR ''r'']
      else if c = CHR 0x09 then [CHR 0x5C, CHR ''t'']
      else if byte c < 32 then [CHR 0x5C] @ ''u00'' @ [lowerHex (byte c div 16), lowerHex (byte c mod 16)]
      else [c])"

definition lineSeparator :: string where
  "lineSeparator = [CHR 0xE2, CHR 0x80, CHR 0xA8]"

definition paragraphSeparator :: string where
  "paragraphSeparator = [CHR 0xE2, CHR 0x80, CHR 0xA9]"

definition escapeRune :: "string \<times> bool \<Rightarrow> string" where
  "escapeRune r =
     (if \<not> snd r then [CHR 0x5C] @ ''ufffd''
      else if fst r = lineSeparator then [CHR 0x5C] @ ''u2028''
      else if fst r = paragraphSeparator then [CHR 0x5C] @ ''u2029''
      else if length (fst r) = 1 then escapeByte (hd (fst r))
      else fst r)"

definition writeString :: "string \<Rightarrow> string" where
  "writeString s = [CHR 0x22] @ concat (map escapeRune (runes s)) @ [CHR 0x22]"

fun writeJson :: "json \<Rightarrow> string"
  and writeMembers :: "(string \<times> json) list \<Rightarrow> string"
  and writeElements :: "json list \<Rightarrow> string" where
  "writeJson JNull = ''null''"
| "writeJson (JBool b) = (if b then ''true'' else ''false'')"
| "writeJson (JNumber lit) = lit"
| "writeJson (JString s) = writeString s"
| "writeJson (JArray vs) = ''['' @ writeElements vs @ '']''"
| "writeJson (JObject ms) = ''{'' @ writeMembers ms @ ''}''"
| "writeMembers [] = []"
| "writeMembers ((k, v) # ms) = writeString k @ '':'' @ writeJson v @ (if ms = [] then [] else '','' @ writeMembers ms)"
| "writeElements [] = []"
| "writeElements (v # vs) = writeJson v @ (if vs = [] then [] else '','' @ writeElements vs)"

text \<open>Decimal numbers: \<open>strconv.FormatInt\<close>, \<open>ParseUint\<close> and \<open>ParseInt\<close> of a literal that \<^const>\<open>readNumber\<close> accepts.\<close>

fun formatNat :: "nat \<Rightarrow> string" where
  "formatNat n = (if n < 10 then [char_of (48 + n)] else formatNat (n div 10) @ [char_of (48 + n mod 10)])"

definition formatInt :: "int \<Rightarrow> string" where
  "formatInt i = (if i < 0 then CHR ''-'' # formatNat (nat (- i)) else formatNat (nat i))"

definition parseNat :: "string \<Rightarrow> nat option" where
  "parseNat s = (if s \<noteq> [] \<and> list_all isDigit s then Some (foldl (\<lambda>a c. 10 * a + (byte c - 48)) 0 s) else None)"

definition parseUint64 :: "string \<Rightarrow> nat option" where
  "parseUint64 s = (case parseNat s of Some n \<Rightarrow> if n < 2 ^ 64 then Some n else None | None \<Rightarrow> None)"

definition parseInt64 :: "string \<Rightarrow> int option" where
  "parseInt64 s =
     (if HasPrefix s ''-'' then
        (case parseNat (tl s) of Some n \<Rightarrow> if n \<le> 2 ^ 63 then Some (- int n) else None | None \<Rightarrow> None)
      else (case parseNat s of Some n \<Rightarrow> if n < 2 ^ 63 then Some (int n) else None | None \<Rightarrow> None))"

section \<open>Characters\<close>

declare readString.simps [simp del]

lemma readString_quote: "readString (CHR 0x22 # s) = Some ([], s)"
  by (simp add: readString.simps)

lemma readString_char:
  "c \<noteq> CHR 0x22 \<Longrightarrow> c \<noteq> CHR 0x5C \<Longrightarrow> \<not> byte c < 32 \<Longrightarrow>
   readString (c # s) = map_option (map_prod ((#) c) id) (readString s)"
  by (simp add: readString.simps)

lemma readString_simple:
  assumes "simpleEscape e = Some d"
  shows "readString (CHR 0x5C # e # t) = map_option (map_prod ((#) d) id) (readString t)"
proof -
  have "e \<noteq> CHR ''u''" using assms by (auto simp: simpleEscape_def)
  then show ?thesis using assms by (simp add: readString.simps(2))
qed

lemma readString_u:
  assumes "hexQuad a b c d = Some r" "r < 55296"
  shows "readString (CHR 0x5C # CHR ''u'' # a # b # c # d # u) = map_option (map_prod ((@) (EncodeRune r)) id) (readString u)"
  using assms by (simp add: readString.simps(2))

lemma readString_plain:
  "\<forall>x \<in> set r. 128 \<le> byte x \<Longrightarrow> readString (r @ u) = map_option (map_prod ((@) r) id) (readString u)"
proof (induction r)
  case Nil
  then show ?case by (cases "readString u") auto
next
  case (Cons c r)
  then have "128 \<le> byte c" by simp
  then have "c \<noteq> CHR 0x22" "c \<noteq> CHR 0x5C" "\<not> byte c < 32" by auto
  then have "readString (c # r @ u) = map_option (map_prod ((#) c) id) (readString (r @ u))"
    by (rule readString_char)
  then show ?case using Cons by (cases "readString u") auto
qed

lemma hexVal_lowerHex: "n < 16 \<Longrightarrow> hexVal (lowerHex n) = Some n"
  by (auto simp: hexVal_def lowerHex_def isDigit_def)

lemma hexVal_0: "hexVal (CHR ''0'') = Some 0"
  by (simp add: hexVal_def isDigit_def)

lemma prepend_one: "map_prod ((@) [c]) id = map_prod ((#) c) id"
  by (simp add: fun_eq_iff)

lemma readString_escapeByte:
  assumes "byte c < 128"
  shows "readString (escapeByte c @ u) = map_option (map_prod ((#) c) id) (readString u)"
proof -
  consider (quoted) "c = CHR 0x22 \<or> c = CHR 0x5C" | (short) "c \<in> {CHR 0x08, CHR 0x0C, CHR 0x0A, CHR 0x0D, CHR 0x09}"
    | (control) "byte c < 32" "c \<notin> {CHR 0x08, CHR 0x0C, CHR 0x0A, CHR 0x0D, CHR 0x09}" "c \<noteq> CHR 0x22" "c \<noteq> CHR 0x5C"
    | (plain) "\<not> byte c < 32" "c \<noteq> CHR 0x22" "c \<noteq> CHR 0x5C" by blast
  then show ?thesis
  proof cases
    case quoted
    then have "simpleEscape c = Some c" by (auto simp: simpleEscape_def)
    then show ?thesis using quoted readString_simple [of c c u] by (auto simp: escapeByte_def)
  next
    case short
    have e: "simpleEscape (CHR ''b'') = Some (CHR 0x08)" "simpleEscape (CHR ''f'') = Some (CHR 0x0C)"
      "simpleEscape (CHR ''n'') = Some (CHR 0x0A)" "simpleEscape (CHR ''r'') = Some (CHR 0x0D)"
      "simpleEscape (CHR ''t'') = Some (CHR 0x09)" by (simp_all add: simpleEscape_def)
    show ?thesis using short e [THEN readString_simple, of u] by (auto simp: escapeByte_def)
  next
    case control
    define n where "n = byte c"
    have n: "n < 32" using control by (simp add: n_def)
    then have "n div 16 < 16" by (simp add: less_mult_imp_div_less)
    then have "hexVal (lowerHex (n div 16)) = Some (n div 16)" "hexVal (lowerHex (n mod 16)) = Some (n mod 16)"
      by (simp_all add: hexVal_lowerHex)
    then have "hexQuad (CHR ''0'') (CHR ''0'') (lowerHex (n div 16)) (lowerHex (n mod 16)) = Some n"
      by (simp add: hexQuad_def hexVal_0)
    moreover have "EncodeRune n = [c]" using n by (simp add: EncodeRune_def n_def)
    moreover have "escapeByte c = [CHR 0x5C] @ ''u00'' @ [lowerHex (n div 16), lowerHex (n mod 16)]"
      using control n by (simp add: escapeByte_def n_def)
    ultimately show ?thesis using n readString_u [of "CHR ''0''" "CHR ''0''" _ _ n u] by (simp add: prepend_one)
  next
    case plain
    then have "escapeByte c = [c]" by (auto simp: escapeByte_def)
    then show ?thesis using readString_char [OF plain(2,3,1)] by simp
  qed
qed

lemma readString_escapeRune:
  assumes "(r, True) \<in> set (runes s)"
  shows "readString (escapeRune (r, True) @ u) = map_option (map_prod ((@) r) id) (readString u)"
proof -
  have sep: "hexQuad (CHR ''2'') (CHR ''0'') (CHR ''2'') (CHR ''8'') = Some 8232"
    "hexQuad (CHR ''2'') (CHR ''0'') (CHR ''2'') (CHR ''9'') = Some 8233"
    by (simp_all add: hexQuad_def hexVal_def isDigit_def)
  have sep': "EncodeRune 8232 = lineSeparator" "EncodeRune 8233 = paragraphSeparator"
    by (simp_all add: EncodeRune_def lineSeparator_def paragraphSeparator_def char_of_def bit_iff_odd)
  consider "r = lineSeparator" | "r = paragraphSeparator" | c where "r = [c]" "byte c < 128"
    | "r \<noteq> lineSeparator" "r \<noteq> paragraphSeparator" "length r \<noteq> 1" "\<forall>x \<in> set r. 128 \<le> byte x"
    using runes_valid [OF assms] by auto
  then show ?thesis
  proof cases
    case 1
    then show ?thesis using readString_u [OF sep(1), of u] sep' by (simp add: escapeRune_def)
  next
    case 2
    then show ?thesis using readString_u [OF sep(2), of u] sep'
      by (simp add: escapeRune_def lineSeparator_def paragraphSeparator_def)
  next
    case (3 c)
    then have "escapeRune (r, True) = escapeByte c"
      by (simp add: escapeRune_def lineSeparator_def paragraphSeparator_def)
    then show ?thesis using readString_escapeByte [OF 3(2), of u] 3(1) by (simp add: prepend_one)
  next
    case 4
    then show ?thesis using readString_plain [of r u] by (simp add: escapeRune_def)
  qed
qed

lemma readString_writeString:
  assumes "utf8Valid s"
  shows "readString (tl (writeString s) @ t) = Some (s, t)"
proof -
  have "readString (concat (map escapeRune rs) @ CHR 0x22 # t) = Some (concat (map fst rs), t)"
    if "set rs \<subseteq> set (runes s)" for rs
    using that
  proof (induction rs)
    case Nil
    then show ?case by (simp add: readString_quote)
  next
    case (Cons r rs)
    then have "r = (fst r, True)" "r \<in> set (runes s)" using assms by (auto simp: utf8Valid_def list_all_iff prod_eq_iff)
    then have "readString (escapeRune r @ concat (map escapeRune rs) @ CHR 0x22 # t) =
        map_option (map_prod ((@) (fst r)) id) (readString (concat (map escapeRune rs) @ CHR 0x22 # t))"
      using readString_escapeRune [of "fst r" s] by metis
    then show ?case using Cons by simp
  qed
  from this [of "runes s"] show ?thesis by (simp add: writeString_def concat_runes)
qed

lemma writeString_head: "writeString s = CHR 0x22 # tl (writeString s)"
  by (simp add: writeString_def)

section \<open>Numbers\<close>

text \<open>What may follow a value.\<close>

definition stops :: "string \<Rightarrow> bool" where
  "stops rest \<longleftrightarrow> rest = [] \<or> (\<not> isDigit (hd rest) \<and> hd rest \<notin> {CHR ''.'', CHR ''e'', CHR ''E''})"

lemma readDigits_append: "readDigits s = Some (a, b) \<Longrightarrow> stops rest \<Longrightarrow> readDigits (s @ rest) = Some (a, b @ rest)"
proof -
  assume a: "readDigits s = Some (a, b)" and r: "stops rest"
  have "takeWhile isDigit rest = []" "dropWhile isDigit rest = rest" using r by (cases rest; auto simp: stops_def)+
  then have "takeWhile isDigit (s @ rest) = takeWhile isDigit s \<and> dropWhile isDigit (s @ rest) = dropWhile isDigit s @ rest"
    by (cases "\<forall>x \<in> set s. isDigit x")
      (auto simp: takeWhile_append dropWhile_append takeWhile_eq_all_conv [THEN iffD2])
  then show ?thesis using a by (simp add: readDigits_def split: if_splits)
qed

lemma readInteger_append: "readInteger s = Some (a, b) \<Longrightarrow> stops rest \<Longrightarrow> readInteger (s @ rest) = Some (a, b @ rest)"
  using readDigits_append [of s a b rest] by (cases s) (auto simp: readInteger_def split: if_splits)

lemma readFraction_append: "readFraction s = Some (a, b) \<Longrightarrow> stops rest \<Longrightarrow> readFraction (s @ rest) = Some (a, b @ rest)"
proof (cases s)
  case Nil
  assume "readFraction s = Some (a, b)" "stops rest"
  then show ?thesis using Nil by (cases rest) (auto simp: readFraction_def stops_def)
next
  case (Cons c t)
  assume "readFraction s = Some (a, b)" "stops rest"
  then show ?thesis using Cons readDigits_append [of t _ b rest] by (auto simp: readFraction_def split: if_splits)
qed

lemma readExponent_append: "readExponent s = Some (a, b) \<Longrightarrow> stops rest \<Longrightarrow> readExponent (s @ rest) = Some (a, b @ rest)"
proof (cases s)
  case Nil
  assume "readExponent s = Some (a, b)" "stops rest"
  then show ?thesis using Nil by (cases rest) (auto simp: readExponent_def stops_def)
next
  case (Cons c t)
  assume a: "readExponent s = Some (a, b)" "stops rest"
  show ?thesis
  proof (cases t)
    case Nil
    then show ?thesis using a Cons by (auto simp: readExponent_def split: if_splits)
  next
    case t: (Cons d u)
    then show ?thesis using a Cons readDigits_append [of u _ b rest] readDigits_append [of t _ b rest]
      by (auto simp: readExponent_def split: if_splits)
  qed
qed

lemma readNumber_append:
  assumes "readNumber s = Some (a, b)" "stops rest"
  shows "readNumber (s @ rest) = Some (a, b @ rest)"
proof -
  define sg where "sg = (case s of c # t \<Rightarrow> if c = CHR ''-'' then ([c], t) else ([], s) | [] \<Rightarrow> ([], s))"
  have ne: "s \<noteq> []" using assms(1) by (auto simp: readNumber_def readInteger_def)
  then have sg': "(case s @ rest of c # t \<Rightarrow> if c = CHR ''-'' then ([c], t) else ([], s @ rest) | [] \<Rightarrow> ([], s @ rest)) =
      (fst sg, snd sg @ rest)" by (cases s) (auto simp: sg_def)
  obtain i s1 f s2 e s3 where "readInteger (snd sg) = Some (i, s1)" "readFraction s1 = Some (f, s2)"
    "readExponent s2 = Some (e, s3)" "a = fst sg @ i @ f @ e" "b = s3"
    using assms(1) unfolding readNumber_def sg_def [symmetric] by (auto simp: split_beta split: option.splits)
  then show ?thesis
    using readInteger_append readFraction_append readExponent_append assms(2)
    unfolding readNumber_def sg' by simp
qed

lemma readNumber_head:
  assumes "readNumber s = Some (a, b)"
  shows "\<exists>c t. s = c # t \<and> (c = CHR ''-'' \<or> isDigit c)"
  using assms
  by (cases s) (auto simp: readNumber_def readInteger_def readDigits_def isDigit_def split: if_splits option.splits)

section \<open>Reading what was written\<close>

text \<open>A tree with strings in UTF-8 and with literals that are numbers.\<close>

fun wfJson :: "json \<Rightarrow> bool" where
  "wfJson JNull = True"
| "wfJson (JBool b) = True"
| "wfJson (JNumber lit) = (readNumber lit = Some (lit, []))"
| "wfJson (JString s) = utf8Valid s"
| "wfJson (JArray vs) = list_all wfJson vs"
| "wfJson (JObject ms) = list_all (\<lambda>(k, v). utf8Valid k \<and> wfJson v) ms"

text \<open>What the strict scan demands of a tree: bounded nesting and distinct keys.\<close>

fun fits :: "nat \<Rightarrow> json \<Rightarrow> bool" where
  "fits d (JArray vs) = (d \<le> MaxNestingDepth \<and> list_all (fits (Suc d)) vs)"
| "fits d (JObject ms) = (d \<le> MaxNestingDepth \<and> distinct (map fst ms) \<and> list_all (\<lambda>(k, v). fits (Suc d) v) ms)"
| "fits d v = True"

definition valueHead :: "char \<Rightarrow> bool" where
  "valueHead c \<longleftrightarrow> \<not> isWs c \<and> c \<noteq> CHR '']'' \<and> c \<noteq> CHR ''}''"

lemma writeJson_head: "wfJson v \<Longrightarrow> \<exists>c t. writeJson v = c # t \<and> valueHead c"
proof (cases v)
  case (JNumber lit)
  assume "wfJson v"
  then obtain c t where c: "lit = c # t" "c = CHR ''-'' \<or> isDigit c" using JNumber readNumber_head [of lit lit "[]"] by auto
  from c(2) have "valueHead c" by (auto simp: valueHead_def isWs_def isDigit_def)
  then show ?thesis using JNumber c(1) by simp
qed (auto simp: valueHead_def isWs_def writeString_def)

lemma scanScalar_number:
  assumes "readNumber lit = Some (lit, [])" "stops rest" "lit = c # t"
  shows "scanScalar c (t @ rest) = Value (JNumber lit) rest" "c \<noteq> CHR ''{''" "c \<noteq> CHR ''[''" "\<not> isWs c"
proof -
  have c: "c = CHR ''-'' \<or> isDigit c" using readNumber_head [OF assms(1)] assms(3) by auto
  then show "c \<noteq> CHR ''{''" "c \<noteq> CHR ''[''" "\<not> isWs c" by (auto simp: isDigit_def isWs_def)
  have "c \<notin> {CHR 0x22, CHR ''t'', CHR ''f'', CHR ''n''}" using c by (auto simp: isDigit_def)
  then show "scanScalar c (t @ rest) = Value (JNumber lit) rest"
    using readNumber_append [OF assms(1,2)] assms(3) by (simp add: scanScalar_def)
qed

lemma readKey_written:
  assumes "utf8Valid k"
  shows "readKey strict acc (writeString k @ CHR '':'' # w) =
    (if strict \<and> k \<in> fst ` set acc then Inl (Issue jsonStructureDuplicate) else Inr (k, w))"
proof -
  have "skipWs (writeString k @ CHR '':'' # w) = CHR 0x22 # tl (writeString k) @ CHR '':'' # w"
    by (simp add: writeString_def isWs_def)
  then show ?thesis
    using readString_writeString [OF assms, of "CHR '':'' # w"] toValidUTF8_valid [OF assms]
    by (simp add: readKey_def isWs_def)
qed

lemma readNext_simps:
  "readNext close (CHR '','' # y) = Some (True, y)"
  "close \<noteq> CHR '','' \<Longrightarrow> \<not> isWs close \<Longrightarrow> readNext close (close # y) = Some (False, y)"
  by (simp_all add: readNext_def isWs_def)

lemma stops_simps: "stops (CHR '','' # y)" "stops (CHR '']'' # y)" "stops (CHR ''}'' # y)" "stops []"
  by (simp_all add: stops_def isDigit_def)

definition scanned :: "bool \<Rightarrow> json \<Rightarrow> string \<Rightarrow> scan \<Rightarrow> bool" where
  "scanned ok v rest r \<longleftrightarrow> (if ok then r = Value v rest else \<exists>i. r = Issue i)"

lemma scanned_cases:
  assumes "scanned ok v rest r"
  obtains "ok" "r = Value v rest" | i where "\<not> ok" "r = Issue i"
  using assms by (auto simp: scanned_def split: if_splits)

lemma scan_written:
  shows "wfJson v \<Longrightarrow> stops rest \<Longrightarrow> 2 * length (writeJson v) + 1 \<le> n \<Longrightarrow>
      scanned (fits d v) v rest (scanValue True n d (writeJson v @ rest))"
    and "wfJson (JObject ms) \<Longrightarrow> ms \<noteq> [] \<Longrightarrow> d \<le> MaxNestingDepth \<Longrightarrow> distinct (map fst acc) \<Longrightarrow>
      2 * length (writeMembers ms) + 2 \<le> n \<Longrightarrow>
      scanned (distinct (map fst (acc @ ms)) \<and> list_all (\<lambda>(k, v). fits (Suc d) v) ms) (JObject (acc @ ms)) rest
        (scanMembers True n d acc (writeMembers ms @ CHR ''}'' # rest))"
    and "wfJson (JArray vs) \<Longrightarrow> vs \<noteq> [] \<Longrightarrow> 2 * length (writeElements vs) + 2 \<le> n \<Longrightarrow>
      scanned (list_all (fits (Suc d)) vs) (JArray (acc' @ vs)) rest
        (scanElements True n d acc' (writeElements vs @ CHR '']'' # rest))"
proof (induction v and ms and vs arbitrary: n d rest and n d rest acc and n d rest acc'
    rule: writeJson_writeMembers_writeElements.induct)
  case 1
  then show ?case by (cases n) (auto simp: scanned_def scanScalar_def readLiteral_def HasPrefix_def isWs_def)
next
  case (2 b)
  then show ?case by (cases n) (auto simp: scanned_def scanScalar_def readLiteral_def HasPrefix_def isWs_def)
next
  case (3 lit)
  then obtain c t m where c: "lit = c # t" "n = Suc m" using readNumber_head by (cases n) fastforce+
  have "skipWs (c # t @ rest) = c # t @ rest" using scanScalar_number(4) [OF _ 3(2) c(1)] 3(1) by simp
  then show ?case using scanScalar_number [OF _ 3(2) c(1)] 3(1) c by (auto simp: scanned_def)
next
  case (4 s)
  then obtain m where m: "n = Suc m" by (cases n) auto
  have "skipWs (writeString s @ rest) = CHR 0x22 # tl (writeString s) @ rest" by (simp add: writeString_def isWs_def)
  then show ?case using 4 m readString_writeString [of s rest]
    by (simp add: scanned_def scanScalar_def toValidUTF8_valid)
next
  case (5 vs)
  then obtain m where m: "n = Suc m" by (cases n) auto
  show ?case
  proof (cases "vs = []")
    case True
    then show ?thesis using m by (auto simp: scanned_def isWs_def MaxNestingDepth_def scannerDepth_def)
  next
    case False
    then obtain w ws where vs: "vs = w # ws" by (cases vs) auto
    then obtain c t where c: "writeJson w = c # t" "valueHead c" using 5(2) writeJson_head [of w] by auto
    then have "skipWs (writeElements vs @ CHR '']'' # rest) = writeElements vs @ CHR '']'' # rest"
      and "\<exists>u. writeElements vs @ CHR '']'' # rest = c # u"
      using vs by (auto simp: valueHead_def)
    then show ?thesis
      using 5(1) [of m d "[]" rest] 5(2,4) False m c(2)
      by (auto simp: scanned_def isWs_def MaxNestingDepth_def scannerDepth_def valueHead_def split: if_splits)
  qed
next
  case (6 ms)
  then obtain m where m: "n = Suc m" by (cases n) auto
  show ?case
  proof (cases "ms = []")
    case True
    then show ?thesis using m by (auto simp: scanned_def isWs_def MaxNestingDepth_def scannerDepth_def)
  next
    case False
    then obtain u where u: "writeMembers ms = CHR 0x22 # u" by (cases ms) (auto simp: writeString_def)
    show ?thesis
      using 6(1) [of d "[]" m rest] 6(2,4) False m u
      by (auto simp: scanned_def isWs_def MaxNestingDepth_def scannerDepth_def)
  qed
next
  case 7
  then show ?case by simp
next
  case (8 k v ms)
  then obtain m where m: "n = Suc m" by (cases n) auto
  define more where "more = (if ms = [] then [] else CHR '','' # writeMembers ms) @ CHR ''}'' # rest"
  have txt_eq: "writeMembers ((k, v) # ms) @ CHR ''}'' # rest = writeString k @ CHR '':'' # writeJson v @ more"
    by (simp add: more_def)
  have key: "readKey True acc (writeString k @ CHR '':'' # writeJson v @ more) =
      (if k \<in> fst ` set acc then Inl (Issue jsonStructureDuplicate) else Inr (k, writeJson v @ more))"
    using readKey_written [of k True acc] 8(3) by simp
  have stop: "stops more" by (simp add: more_def stops_simps)
  have nxt: "readNext (CHR ''}'') more = (if ms = [] then Some (False, rest) else Some (True, writeMembers ms @ CHR ''}'' # rest))"
    by (simp add: more_def readNext_simps isWs_def)
  have val: "scanned (fits (Suc d) v) v more (scanValue True m (Suc d) (writeJson v @ more))"
    using 8(1) [of more m "Suc d"] 8(3,7) stop m by simp
  show ?case
  proof (cases "k \<in> fst ` set acc")
    case True
    then show ?thesis unfolding txt_eq by (auto simp: m key scanned_def)
  next
    case new: False
    from val show ?thesis
    proof (cases rule: scanned_cases)
      case 1
      show ?thesis
      proof (cases "ms = []")
        case True
        then show ?thesis using 1 new 8(6) unfolding txt_eq
          by (auto simp: m key nxt scanned_def)
      next
        case False
        have "distinct (map fst (acc @ [(k, v)]))" using new 8(6) by auto
        then have "scanned (distinct (map fst ((acc @ [(k, v)]) @ ms)) \<and> list_all (\<lambda>(k, v). fits (Suc d) v) ms)
            (JObject ((acc @ [(k, v)]) @ ms)) rest
            (scanMembers True m d (acc @ [(k, v)]) (writeMembers ms @ CHR ''}'' # rest))"
          using 8(2) [of d "acc @ [(k, v)]" m rest] False 8(3,5,7) m by simp
        then show ?thesis using 1 new False unfolding txt_eq
          by (simp add: m key nxt)
      qed
    next
      case (2 i)
      then show ?thesis using new unfolding txt_eq by (auto simp: m key scanned_def)
    qed
  qed
next
  case 9
  then show ?case by simp
next
  case (10 v vs)
  then obtain m where m: "n = Suc m" by (cases n) auto
  define more where "more = (if vs = [] then [] else CHR '','' # writeElements vs) @ CHR '']'' # rest"
  have txt_eq: "writeElements (v # vs) @ CHR '']'' # rest = writeJson v @ more" by (simp add: more_def)
  have stop: "stops more" by (simp add: more_def stops_simps)
  have nxt: "readNext (CHR '']'') more = (if vs = [] then Some (False, rest) else Some (True, writeElements vs @ CHR '']'' # rest))"
    by (simp add: more_def readNext_simps isWs_def)
  have "scanned (fits (Suc d) v) v more (scanValue True m (Suc d) (writeJson v @ more))"
    using 10(1) [of more m "Suc d"] 10(3,5) stop m by simp
  then show ?case
  proof (cases rule: scanned_cases)
    case 1
    show ?thesis
    proof (cases "vs = []")
      case True
      then show ?thesis using 1 unfolding txt_eq by (auto simp: m nxt scanned_def)
    next
      case False
      then show ?thesis using 1 10(2) [of m d "acc' @ [v]" rest] 10(3,5) m unfolding txt_eq
        by (simp add: nxt)
    qed
  next
    case (2 i)
    then show ?thesis unfolding txt_eq by (auto simp: m scanned_def)
  qed
qed

section \<open>Every scan consumes its text\<close>

declare dropWhile_eq_Nil_conv [simp del]

lemma readString_shrinks: "readString s = Some (a, t) \<Longrightarrow> length t < length s"
proof (induction s arbitrary: a t rule: readString.induct)
  case (2 c s)
  then show ?case
    by (subst (asm) readString.simps) (fastforce dest: lowSurrogate_length split: if_splits list.splits option.splits)
qed (simp add: readString.simps)

lemma readDigits_shrinks: "readDigits s = Some (a, t) \<Longrightarrow> length t < length s"
  unfolding readDigits_def by (cases s) (auto split: if_splits intro: le_imp_less_Suc length_dropWhile_le)

lemma readNumber_shrinks: "readNumber s = Some (a, t) \<Longrightarrow> length t < length s"
proof -
  have i: "readInteger x = Some (a, t) \<Longrightarrow> length t < length x" for x a t
    using readDigits_shrinks [of x] by (auto simp: readInteger_def split: list.splits if_splits)
  have f: "readFraction x = Some (a, t) \<Longrightarrow> length t \<le> length x" for x a t
    by (auto simp: readFraction_def split: list.splits if_splits dest: readDigits_shrinks)
  have e: "readExponent x = Some (a, t) \<Longrightarrow> length t \<le> length x" for x a t
    by (auto simp: readExponent_def split: list.splits if_splits dest: readDigits_shrinks)
  assume a: "readNumber s = Some (a, t)"
  define sg where "sg = (case s of c # t \<Rightarrow> if c = CHR ''-'' then ([c], t) else ([], s) | [] \<Rightarrow> ([], s))"
  obtain i' s1 f' s2 e' s3 where "readInteger (snd sg) = Some (i', s1)" "readFraction s1 = Some (f', s2)"
    "readExponent s2 = Some (e', s3)" "t = s3"
    using a unfolding readNumber_def sg_def [symmetric] by (auto simp: split_beta split: option.splits)
  then have "length t < length (snd sg)" using i f e by (meson le_less_trans order_trans)
  moreover have "length (snd sg) \<le> length s" by (auto simp: sg_def split: list.splits)
  ultimately show ?thesis by simp
qed

lemma skipWs_le: "skipWs s = c # t \<Longrightarrow> length t < length s"
  using length_dropWhile_le [of isWs s] by simp

lemma scanScalar_shrinks: "scanScalar c t = Value v x \<Longrightarrow> length x \<le> length t"
  by (auto simp: scanScalar_def readLiteral_def split: if_splits option.splits dest: readString_shrinks readNumber_shrinks)

lemma readKey_shrinks: "readKey st acc s = Inr (k, w) \<Longrightarrow> length w + 2 < length s"
  by (auto simp: readKey_def split: list.splits if_splits option.splits dest!: readString_shrinks skipWs_le)

lemma readKey_error: "readKey st acc s = Inl r \<Longrightarrow> r \<noteq> Value v x"
  by (auto simp: readKey_def split: list.splits if_splits option.splits)

lemma readNext_shrinks: "readNext close s = Some (b, y) \<Longrightarrow> length y < length s"
  by (auto simp: readNext_def split: list.splits if_splits dest: skipWs_le)

lemma scanMembers_Value:
  "scanMembers st (Suc n) d acc s = Value v x \<longleftrightarrow>
     (\<exists>k w v' y b z. readKey st acc s = Inr (k, w) \<and> scanValue st n (d + 1) w = Value v' y \<and>
        readNext (CHR ''}'') y = Some (b, z) \<and>
        (if b then scanMembers st n d (acc @ [(k, v')]) z = Value v x else v = JObject (acc @ [(k, v')]) \<and> x = z))"
  by (auto split: sum.splits scan.splits option.splits prod.splits if_splits dest: readKey_error)

lemma scanElements_Value:
  "scanElements st (Suc n) d acc s = Value v x \<longleftrightarrow>
     (\<exists>v' y b z. scanValue st n (d + 1) s = Value v' y \<and> readNext (CHR '']'') y = Some (b, z) \<and>
        (if b then scanElements st n d (acc @ [v']) z = Value v x else v = JArray (acc @ [v']) \<and> x = z))"
  by (auto split: scan.splits option.splits prod.splits if_splits)

lemma scan_shrinks:
  shows "scanValue st n d s = Value v x \<Longrightarrow> length x < length s"
    and "scanMembers st n d acc s = Value v x \<Longrightarrow> length x < length s"
    and "scanElements st n d acc' s = Value v x \<Longrightarrow> length x < length s"
proof (induction st n d s and st n d acc s and st n d acc' s arbitrary: v x and v x and v x
    rule: scanValue_scanMembers_scanElements.induct)
  case (2 st n d s)
  then show ?case
    by (fastforce split: list.splits if_splits dest: scanScalar_shrinks dest!: skipWs_le)
next
  case (4 st n d acc s)
  from 4(3) obtain k w v' y b z where h: "readKey st acc s = Inr (k, w)" "scanValue st n (d + 1) w = Value v' y"
    "readNext (CHR ''}'') y = Some (b, z)"
    "if b then scanMembers st n d (acc @ [(k, v')]) z = Value v x else x = z"
    unfolding scanMembers_Value by meson
  then show ?case
    using 4(1) [OF h(1) refl h(2)] 4(2) [OF h(1) refl h(2,3) refl] readKey_shrinks [OF h(1)] readNext_shrinks [OF h(3)]
    by (cases b) fastforce+
next
  case (6 st n d acc s)
  from 6(3) obtain v' y b z where h: "scanValue st n (d + 1) s = Value v' y" "readNext (CHR '']'') y = Some (b, z)"
    "if b then scanElements st n d (acc @ [v']) z = Value v x else x = z"
    unfolding scanElements_Value by meson
  then show ?case using 6(1) [OF h(1)] 6(2) [OF h(1,2) refl] readNext_shrinks [OF h(2)] by (cases b) fastforce+
qed simp_all

text \<open>The fuel of \<^const>\<open>scanFuel\<close> is enough: more of it changes nothing.\<close>

lemma scan_fuel:
  shows "2 * length s + 1 \<le> n \<Longrightarrow> 2 * length s + 1 \<le> m \<Longrightarrow> scanValue st n d s = scanValue st m d s"
    and "2 * length s + 2 \<le> n \<Longrightarrow> 2 * length s + 2 \<le> m \<Longrightarrow> scanMembers st n d acc s = scanMembers st m d acc s"
    and "2 * length s + 2 \<le> n \<Longrightarrow> 2 * length s + 2 \<le> m \<Longrightarrow> scanElements st n d acc' s = scanElements st m d acc' s"
proof (induction st n d s and st n d acc s and st n d acc' s arbitrary: m and m and m
    rule: scanValue_scanMembers_scanElements.induct)
  case (2 st n d s)
  obtain m' where m: "m = Suc m'" using 2(4) by (cases m) auto
  show ?case
  proof (cases "skipWs s")
    case s: (Cons b t)
    show ?thesis
    proof (cases "skipWs t")
      case t: (Cons c u)
      have "2 * length (c # u) + 2 \<le> n" "2 * length (c # u) + 2 \<le> m'"
        using skipWs_le [OF s] length_dropWhile_le [of isWs t] t 2(3,4) m by simp_all
      then show ?thesis using 2(1,2) [OF s _ _ _ t, of m'] s t m by (simp, blast)
    qed (use s m in simp)
  qed (use m in simp)
next
  case (4 st n d acc s)
  obtain m' where m: "m = Suc m'" using 4(4) by (cases m) auto
  show ?case
  proof (cases "readKey st acc s")
    case (Inr kw)
    then obtain k w where kw: "readKey st acc s = Inr (k, w)" by (cases kw) auto
    note len = readKey_shrinks [OF kw]
    have v: "scanValue st n (d + 1) w = scanValue st m' (d + 1) w" using 4(1) [OF kw refl, of m'] 4(3,4) len m by simp
    show ?thesis
    proof (cases "scanValue st n (d + 1) w")
      case (Value v x)
      have lx: "length x < length w" using scan_shrinks(1) [OF Value] .
      show ?thesis
      proof (cases "readNext (CHR ''}'') x")
        case (Some q)
        then obtain b y where nx: "readNext (CHR ''}'') x = Some (b, y)" by (cases q) auto
        have "b \<Longrightarrow> scanMembers st n d (acc @ [(k, v)]) y = scanMembers st m' d (acc @ [(k, v)]) y"
          using 4(2) [OF kw refl Value nx refl, of m'] 4(3,4) len lx readNext_shrinks [OF nx] m by simp
        then show ?thesis using kw Value nx v [symmetric] m by simp
      qed (use kw Value v [symmetric] m in simp)
    qed (use kw v [symmetric] m in simp_all)
  qed (use m in simp)
next
  case (6 st n d acc s)
  obtain m' where m: "m = Suc m'" using 6(4) by (cases m) auto
  have v: "scanValue st n (d + 1) s = scanValue st m' (d + 1) s" using 6(1) [of m'] 6(3,4) m by simp
  show ?case
  proof (cases "scanValue st n (d + 1) s")
    case (Value v x)
    have lx: "length x < length s" using scan_shrinks(1) [OF Value] .
    show ?thesis
    proof (cases "readNext (CHR '']'') x")
      case (Some q)
      then obtain b y where nx: "readNext (CHR '']'') x = Some (b, y)" by (cases q) auto
      have "b \<Longrightarrow> scanElements st n d (acc @ [v]) y = scanElements st m' d (acc @ [v]) y"
        using 6(2) [OF Value nx refl, of m'] 6(3,4) lx readNext_shrinks [OF nx] m by simp
      then show ?thesis using Value nx v [symmetric] m by simp
    qed (use Value v [symmetric] m in simp)
  qed (use v [symmetric] m in simp_all)
qed simp_all

text \<open>What the strict scan accepts, the library reads as the same value.\<close>

lemma readKey_lax: "readKey st acc s = Inr kw \<Longrightarrow> readKey False acc s = Inr kw"
  by (auto simp: readKey_def split: list.splits option.splits if_splits)

lemma scan_lax:
  shows "scanValue st n d s = Value v x \<Longrightarrow> scanValue False n d s = Value v x"
    and "scanMembers st n d acc s = Value v x \<Longrightarrow> scanMembers False n d acc s = Value v x"
    and "scanElements st n d acc' s = Value v x \<Longrightarrow> scanElements False n d acc' s = Value v x"
proof (induction st n d s and st n d acc s and st n d acc' s arbitrary: v x and v x and v x
    rule: scanValue_scanMembers_scanElements.induct)
  case (2 st n d s)
  then show ?case by (auto split: list.splits if_splits)
next
  case (4 st n d acc s)
  from 4(3) obtain k w v' y b z where h: "readKey st acc s = Inr (k, w)" "scanValue st n (d + 1) w = Value v' y"
    "readNext (CHR ''}'') y = Some (b, z)"
    "if b then scanMembers st n d (acc @ [(k, v')]) z = Value v x else v = JObject (acc @ [(k, v')]) \<and> x = z"
    unfolding scanMembers_Value by blast
  then show ?case unfolding scanMembers_Value
    using 4(1) [OF h(1) refl h(2)] 4(2) [OF h(1) refl h(2,3) refl] readKey_lax [OF h(1)] by (cases b) auto
next
  case (6 st n d acc s)
  from 6(3) obtain v' y b z where h: "scanValue st n (d + 1) s = Value v' y" "readNext (CHR '']'') y = Some (b, z)"
    "if b then scanElements st n d (acc @ [v']) z = Value v x else v = JArray (acc @ [v']) \<and> x = z"
    unfolding scanElements_Value by blast
  then show ?case unfolding scanElements_Value using 6(1) [OF h(1)] 6(2) [OF h(1,2) refl] by (cases b) auto
qed simp_all

lemma readValue_written:
  assumes "wfJson v" "stops rest" "fits 1 v"
  shows "readValue (writeJson v @ rest) = Some (v, rest)" "scanText (writeJson v @ rest) = Value v rest"
proof -
  have "scanValue True (scanFuel (writeJson v @ rest)) 1 (writeJson v @ rest) = Value v rest"
    using scan_written(1) [OF assms(1,2), of "scanFuel (writeJson v @ rest)" 1] assms(3)
    by (simp add: scanned_def scanFuel_def)
  then show "scanText (writeJson v @ rest) = Value v rest" "readValue (writeJson v @ rest) = Some (v, rest)"
    using scan_lax(1) by (auto simp: scanText_def readValue_def)
qed

lemma rawMembers_written:
  "list_all (\<lambda>(k, v). utf8Valid k \<and> wfJson v \<and> fits 2 v) ms \<Longrightarrow> ms \<noteq> [] \<Longrightarrow>
   rawMembers (writeMembers ms @ CHR ''}'' # rest) = map (\<lambda>(k, v). (k, v, writeJson v)) ms"
proof (induction ms)
  case (Cons m ms)
  obtain k v where m: "m = (k, v)" by (cases m)
  define more where "more = (if ms = [] then [] else CHR '','' # writeMembers ms) @ CHR ''}'' # rest"
  define w where "w = writeJson v @ more"
  have s: "writeMembers (m # ms) @ CHR ''}'' # rest = writeString k @ CHR '':'' # w" by (simp add: more_def w_def m)
  have key: "readKey False [] (writeString k @ CHR '':'' # w) = Inr (k, w)"
    using readKey_written [of k False "[]" w] Cons(2) m by simp
  have nxt: "readNext (CHR ''}'') more = (if ms = [] then Some (False, rest) else Some (True, writeMembers ms @ CHR ''}'' # rest))"
    by (simp add: more_def readNext_simps isWs_def)
  have "stops more" by (simp add: more_def stops_simps)
  then have "scanValue True (scanFuel w) 2 w = Value v more"
    using scan_written(1) [of v more "scanFuel w" 2] Cons(2) m by (simp add: scanned_def scanFuel_def w_def)
  then have val: "scanValue False (scanFuel w) 2 w = Value v more" by (rule scan_lax)
  obtain c t where c: "writeJson v = c # t" "\<not> isWs c" using writeJson_head [of v] Cons(2) m by (auto simp: valueHead_def)
  then have ws: "skipWs w = w" by (simp add: w_def)
  have "length more < length w" "length w < length (writeString k @ CHR '':'' # w)" using c by (simp_all add: w_def)
  moreover have "take (length w - length more) w = writeJson v" by (simp add: w_def)
  moreover have "length (writeMembers ms @ CHR ''}'' # rest) < length (writeString k @ CHR '':'' # w)" if "ms \<noteq> []"
    using that by (simp add: w_def more_def)
  ultimately show ?case
    unfolding s rawMembers.simps [of "writeString k @ _"] key
    using val ws nxt Cons m by (simp del: rawMembers.simps split: if_splits)
qed simp

lemma rawObject_written:
  assumes "wfJson (JObject ms)" "fits 1 (JObject ms)" "ms \<noteq> []"
  shows "rawObject (writeJson (JObject ms) @ rest) = map (\<lambda>(k, v). (k, v, writeJson v)) ms"
proof -
  have "list_all (\<lambda>(k, v). utf8Valid k \<and> wfJson v \<and> fits 2 v) ms"
    using assms by (auto simp: list_all_iff numeral_2_eq_2)
  then show ?thesis using rawMembers_written [of ms rest] assms(3) by (simp del: rawMembers.simps add: rawObject_def isWs_def)
qed

declare rawMembers.simps [simp del] dropWhile_eq_Nil_conv [simp]

section \<open>Decimal numbers\<close>

declare formatNat.simps [simp del]

lemma digit_char: "n < 10 \<Longrightarrow> isDigit (char_of (48 + n)) \<and> byte (char_of (48 + n)) - 48 = n"
  by (simp add: isDigit_def)

lemma formatNat_digits: "formatNat n \<noteq> [] \<and> list_all isDigit (formatNat n)"
proof (induction n rule: formatNat.induct)
  case (1 n)
  have "isDigit (char_of (48 + n mod 10))" using digit_char [of "n mod 10"] by simp
  then show ?case using 1 digit_char [of n] by (subst (1 2) formatNat.simps) auto
qed

lemma parseNat_formatNat: "parseNat (formatNat n) = Some n"
proof -
  have "foldl (\<lambda>a c. 10 * a + (byte c - 48)) 0 (formatNat n) = n"
  proof (induction n rule: formatNat.induct)
    case (1 n)
    have "byte (char_of (48 + n mod 10) :: char) - 48 = n mod 10" using digit_char [of "n mod 10"] by simp
    then show ?case using 1 by (subst formatNat.simps) simp
  qed
  then show ?thesis using formatNat_digits by (simp add: parseNat_def)
qed

lemma parseUint64_formatNat: "n < 2 ^ 64 \<Longrightarrow> parseUint64 (formatNat n) = Some n"
  by (simp add: parseUint64_def parseNat_formatNat)

lemma formatNat_zero: "\<exists>c t. formatNat n = c # t \<and> (c = CHR ''0'' \<longrightarrow> t = [])"
proof (induction n rule: formatNat.induct)
  case (1 n)
  show ?case
  proof (cases "n < 10")
    case True
    then show ?thesis by (subst formatNat.simps) simp
  next
    case False
    then obtain c t where ct: "formatNat (n div 10) = c # t" "c = CHR ''0'' \<longrightarrow> t = []" using 1 by blast
    have "c \<noteq> CHR ''0''"
    proof
      assume "c = CHR ''0''"
      then have "parseNat (formatNat (n div 10)) = Some 0" using ct by (simp add: parseNat_def isDigit_def)
      then show False using False by (simp add: parseNat_formatNat)
    qed
    then show ?thesis using ct False by (subst formatNat.simps) simp
  qed
qed

lemma readNumber_formatNat: "readNumber (formatNat n) = Some (formatNat n, [])"
proof -
  obtain c t where ct: "formatNat n = c # t" "c = CHR ''0'' \<longrightarrow> t = []" using formatNat_zero by blast
  have d: "isDigit c" "list_all isDigit t" using formatNat_digits [of n] ct by auto
  then have "takeWhile isDigit (c # t) = c # t" "dropWhile isDigit (c # t) = []"
    by (auto simp: takeWhile_eq_all_conv list_all_iff dropWhile_eq_Nil_conv)
  then have "readInteger (c # t) = Some (c # t, [])" using ct(2) by (auto simp: readInteger_def readDigits_def)
  moreover have "c \<noteq> CHR ''-''" using d by (auto simp: isDigit_def)
  ultimately show ?thesis using ct by (simp add: readNumber_def readFraction_def readExponent_def)
qed

lemma readNumber_formatInt: "readNumber (formatInt i) = Some (formatInt i, [])"
proof -
  have "readNumber (CHR ''-'' # formatNat n) = Some (CHR ''-'' # formatNat n, [])" for n
  proof -
    obtain c t where ct: "formatNat n = c # t" using formatNat_digits [of n] by (cases "formatNat n") auto
    then have "isDigit c" using formatNat_digits [of n] by simp
    then have "c \<noteq> CHR ''-''" by (auto simp: isDigit_def)
    then show ?thesis using readNumber_formatNat [of n] ct by (auto simp: readNumber_def split: option.splits)
  qed
  then show ?thesis using readNumber_formatNat by (simp add: formatInt_def)
qed

lemma parseInt64_formatInt: "- (2 ^ 63) \<le> i \<Longrightarrow> i < 2 ^ 63 \<Longrightarrow> parseInt64 (formatInt i) = Some i"
proof -
  assume i: "- (2 ^ 63) \<le> i" "i < 2 ^ 63"
  have "\<not> HasPrefix (formatNat n) ''-''" for n
    using formatNat_digits [of n] by (cases "formatNat n") (auto simp: HasPrefix_def isDigit_def)
  then show ?thesis using i by (auto simp: parseInt64_def formatInt_def parseNat_formatNat HasPrefix_def)
qed

section \<open>Text without line separators\<close>

lemma runes_self:
  "(r, True) \<in> set (runes s) \<Longrightarrow> runes r = [(r, True)]"
proof (induction s rule: runes.induct)
  case (2 c s)
  let ?k = "runeLen (c # s)"
  show ?case
  proof (cases "?k > 0 \<and> r = take ?k (c # s)")
    case True
    then obtain j where j: "?k = Suc j" by (cases ?k) auto
    then have "runeLen (c # take j s) = ?k"
      by (auto simp: runeLen.simps inRanges_def split: option.splits if_splits)
    moreover have "length (take ?k (c # s)) = ?k" using runeLen_valid(1) [OF refl, of c s] True by simp
    ultimately show ?thesis using True j by (simp add: Let_def)
  next
    case False
    then show ?thesis using 2 by (auto simp: Let_def split: if_splits)
  qed
qed simp

definition clean :: "string \<Rightarrow> bool" where
  "clean s \<longleftrightarrow> list_all (\<lambda>(r, ok). ok \<and> r \<noteq> lineSeparator \<and> r \<noteq> paragraphSeparator) (runes s)"

lemma clean_valid: "clean s \<Longrightarrow> utf8Valid s"
  by (auto simp: clean_def utf8Valid_def list_all_iff)

lemma clean_append: "clean a \<Longrightarrow> clean b \<Longrightarrow> clean (a @ b)"
  using runes_append [OF clean_valid, of a b] by (simp add: clean_def)

lemma clean_concat: "list_all clean xs \<Longrightarrow> clean (concat xs)"
  by (induction xs) (simp_all add: clean_append, simp add: clean_def)

lemma clean_ascii: "\<forall>c \<in> set s. byte c < 128 \<Longrightarrow> clean s"
proof -
  assume "\<forall>c \<in> set s. byte c < 128"
  then have "runes s = map (\<lambda>c. ([c], True)) s"
    by (induction s) (auto simp: Let_def runeLen.simps following_def inRanges_def)
  then show ?thesis by (auto simp: clean_def list_all_iff lineSeparator_def paragraphSeparator_def)
qed

lemma clean_simps [simp]: "clean []" "byte c < 128 \<Longrightarrow> clean s \<Longrightarrow> clean (c # s)"
  using clean_append [of "[c]" s] clean_ascii [of "[c]"] clean_ascii [of "[]"] by simp_all

lemma clean_escapeRune: "r \<in> set (runes s) \<Longrightarrow> clean (escapeRune r)"
proof -
  assume r: "r \<in> set (runes s)"
  have hex: "byte (lowerHex n) < 128" if "n < 16" for n using that by (simp add: lowerHex_def)
  consider "\<not> snd r \<or> fst r = lineSeparator \<or> fst r = paragraphSeparator" | c where "fst r = [c]" "byte c < 128" "snd r"
    | "snd r" "fst r \<noteq> lineSeparator" "fst r \<noteq> paragraphSeparator" "length (fst r) \<noteq> 1"
    using runes_valid [of "fst r" s] r by (cases r; cases "snd r") auto
  then show ?thesis
  proof cases
    case 1
    then show ?thesis by (auto simp: escapeRune_def intro!: clean_ascii)
  next
    case (2 c)
    then have e: "escapeRune r = escapeByte c" by (simp add: escapeRune_def lineSeparator_def paragraphSeparator_def)
    have "\<forall>x \<in> set (escapeByte c). byte x < 128"
      using 2(2) hex [of "byte c div 16"] hex [of "byte c mod 16"] by (auto simp: escapeByte_def)
    then show ?thesis unfolding e by (rule clean_ascii)
  next
    case 3
    then have "runes (fst r) = [(fst r, True)]" using runes_self [of "fst r" s] r by (cases r) auto
    then show ?thesis using 3 by (simp add: escapeRune_def clean_def)
  qed
qed

lemma clean_writeString: "clean (writeString s)"
proof -
  have "clean (concat (map escapeRune (runes s)))"
    by (rule clean_concat) (auto simp: list_all_iff intro: clean_escapeRune)
  then show ?thesis unfolding writeString_def by (simp add: clean_append)
qed

lemma readNumber_ascii:
  assumes "readNumber s = Some (a, t)" "x \<in> set a"
  shows "x \<in> {CHR ''-'', CHR ''+'', CHR ''.'', CHR ''e'', CHR ''E''} \<or> isDigit x"
proof -
  have d: "readDigits s = Some (a, t) \<Longrightarrow> x \<in> set a \<Longrightarrow> isDigit x" for s a t x
    by (auto simp: readDigits_def split: if_splits dest: set_takeWhileD)
  have i: "readInteger s = Some (a, t) \<Longrightarrow> x \<in> set a \<Longrightarrow> isDigit x" for s a t x
    using d [of s] by (auto simp: readInteger_def isDigit_def split: list.splits if_splits)
  have f: "readFraction s = Some (a, t) \<Longrightarrow> x \<in> set a \<Longrightarrow> x = CHR ''.'' \<or> isDigit x" for s a t x
    by (auto simp: readFraction_def split: list.splits if_splits dest: d)
  have e: "readExponent s = Some (a, t) \<Longrightarrow> x \<in> set a \<Longrightarrow> x \<in> {CHR ''-'', CHR ''+'', CHR ''e'', CHR ''E''} \<or> isDigit x"
    for s a t x
    by (auto simp: readExponent_def split: list.splits if_splits dest: d)
  define sg where "sg = (case s of c # t \<Rightarrow> if c = CHR ''-'' then ([c], t) else ([], s) | [] \<Rightarrow> ([], s))"
  obtain i' s1 f' s2 e' s3 where h: "readInteger (snd sg) = Some (i', s1)" "readFraction s1 = Some (f', s2)"
    "readExponent s2 = Some (e', s3)" "a = fst sg @ i' @ f' @ e'"
    using assms(1) unfolding readNumber_def sg_def [symmetric] by (auto simp: split_beta split: option.splits)
  have "y = CHR ''-''" if "y \<in> set (fst sg)" for y using that by (auto simp: sg_def split: list.splits if_splits)
  then show ?thesis using assms(2) h(4) i [OF h(1)] f [OF h(2)] e [OF h(3)] by auto
qed

lemma clean_writeJson:
  shows "wfJson v \<Longrightarrow> clean (writeJson v)"
    and "wfJson (JObject ms) \<Longrightarrow> clean (writeMembers ms)"
    and "wfJson (JArray vs) \<Longrightarrow> clean (writeElements vs)"
proof (induction v and ms and vs rule: writeJson_writeMembers_writeElements.induct)
  case (3 lit)
  have "byte x < 128" if "x \<in> set lit" for x
    using readNumber_ascii [of lit lit "[]" x] 3 that by (auto simp: isDigit_def)
  then show ?case by (simp add: clean_ascii)
qed (auto simp: clean_append clean_writeString)

text \<open>A written value has no control characters.\<close>

lemma printable_escapeRune: "r \<in> set (runes s) \<Longrightarrow> x \<in> set (escapeRune r) \<Longrightarrow> 32 \<le> byte x"
proof -
  assume r: "r \<in> set (runes s)" and x: "x \<in> set (escapeRune r)"
  have hex: "32 \<le> byte (lowerHex n)" if "n < 16" for n using that by (simp add: lowerHex_def)
  consider "\<not> snd r \<or> fst r = lineSeparator \<or> fst r = paragraphSeparator" | c where "fst r = [c]" "byte c < 128" "snd r"
    | "snd r" "fst r \<noteq> lineSeparator" "fst r \<noteq> paragraphSeparator" "length (fst r) \<noteq> 1" "\<forall>x \<in> set (fst r). 128 \<le> byte x"
    using runes_valid [of "fst r" s] r by (cases r; cases "snd r") auto
  then show ?thesis
  proof cases
    case 1
    then show ?thesis using x by (auto simp: escapeRune_def split: if_splits)
  next
    case (2 c)
    then have e: "escapeRune r = escapeByte c" by (simp add: escapeRune_def lineSeparator_def paragraphSeparator_def)
    have "byte c div 16 < 16" "byte c mod 16 < 16" using 2(2) by (simp_all add: less_mult_imp_div_less)
    then show ?thesis using x hex [of "byte c div 16"] hex [of "byte c mod 16"] unfolding e
      by (auto simp: escapeByte_def split: if_splits)
  next
    case 3
    then have "x \<in> set (fst r)" using x by (simp add: escapeRune_def)
    then show ?thesis using 3(5) by fastforce
  qed
qed

lemma printable_writeString: "x \<in> set (writeString s) \<Longrightarrow> 32 \<le> byte x"
  using printable_escapeRune by (fastforce simp: writeString_def)

lemma printable_writeJson:
  shows "wfJson v \<Longrightarrow> x \<in> set (writeJson v) \<Longrightarrow> 32 \<le> byte x"
    and "wfJson (JObject ms) \<Longrightarrow> x \<in> set (writeMembers ms) \<Longrightarrow> 32 \<le> byte x"
    and "wfJson (JArray vs) \<Longrightarrow> x \<in> set (writeElements vs) \<Longrightarrow> 32 \<le> byte x"
proof (induction v and ms and vs rule: writeJson_writeMembers_writeElements.induct)
  case (3 lit)
  then show ?case using readNumber_ascii [of lit lit "[]" x] by (auto simp: isDigit_def)
qed (auto simp: printable_writeString split: if_splits)

text \<open>The strings that are read are valid UTF-8.\<close>

lemma utf8Valid_append: "utf8Valid a \<Longrightarrow> utf8Valid b \<Longrightarrow> utf8Valid (a @ b)"
  using runes_append [of a b] by (simp add: utf8Valid_def)

lemma toValidUTF8_utf8: "utf8Valid (toValidUTF8 s)"
proof -
  have rep: "utf8Valid replacement"
    by (simp add: utf8Valid_def replacement_def Let_def runeLen.simps following_def inRanges_def)
  have "utf8Valid (concat (map (\<lambda>(r, ok). if ok then r else replacement) rs))" if "set rs \<subseteq> set (runes s)" for rs
    using that
  proof (induction rs)
    case (Cons x rs)
    obtain r ok where x: "x = (r, ok)" by (cases x)
    have "utf8Valid (if ok then r else replacement)"
      using rep runes_self [of r s] Cons(2) x by (auto simp: utf8Valid_def)
    then show ?case using Cons x by (simp add: utf8Valid_append)
  qed (simp add: utf8Valid_def)
  then show ?thesis by (simp add: toValidUTF8_def)
qed

lemma scanMembers_object: "scanMembers st n d acc s = Value v x \<Longrightarrow> \<exists>ms. v = JObject ms"
  by (induction n arbitrary: acc s) (auto simp: scanMembers_Value simp del: scanMembers.simps(2) split: if_splits)

lemma scanElements_array: "scanElements st n d acc s = Value v x \<Longrightarrow> \<exists>vs. v = JArray vs"
  by (induction n arbitrary: acc s) (auto simp: scanElements_Value simp del: scanElements.simps(2) split: if_splits)

lemma scanValue_string: "scanValue st n d s = Value (JString t) x \<Longrightarrow> utf8Valid t"
  by (cases n)
    (auto split: list.splits if_splits option.splits simp: scanScalar_def readLiteral_def toValidUTF8_utf8
      dest: scanMembers_object scanElements_array)

lemma rawMembers_strings: "(k, JString t, raw) \<in> set (rawMembers s) \<Longrightarrow> utf8Valid t"
proof (induction s rule: rawMembers.induct)
  case (1 s)
  from 1(2) have ne: "rawMembers s \<noteq> []" by auto
  then obtain key w v x where kw: "readKey False [] s = Inr (key, w)" and v: "scanValue False (scanFuel w) 2 w = Value v x"
    and len: "length x < length w \<and> length w < length s"
    unfolding rawMembers.simps [of s] by (auto split: sum.splits scan.splits if_splits)
  show ?case
  proof (cases "(k, JString t, raw) = (key, v, take (length (skipWs w) - length x) (skipWs w))")
    case True
    then show ?thesis using v scanValue_string by blast
  next
    case False
    then obtain y where "readNext (CHR ''}'') x = Some (True, y)" "length y < length s" "(k, JString t, raw) \<in> set (rawMembers y)"
      using 1(2) [unfolded rawMembers.simps [of s]] kw v len
      by (auto split: option.splits bool.splits if_splits dest: sym [of "Some _" "readNext _ _"])
    then show ?thesis using 1(1) kw v len by blast
  qed
qed

lemma rawObject_strings: "(k, JString t, raw) \<in> set (rawObject s) \<Longrightarrow> utf8Valid t"
  by (auto simp: rawObject_def split: list.splits if_splits dest: rawMembers_strings)

end
