(* ===== verification/Worker_Protocol.thy ===== *)
theory Worker_Protocol
  imports Json "HOL-Library.AList"
begin

text \<open>
  The protocol between the controller and a worker (\<open>pkg/lint/workerprotocol/protocol.go\<close>): one JSON object per
  line, decoded and validated by \<open>Decoder.DecodeLine\<close>, built by \<open>NewEnvelope\<close> and written by \<open>Encode\<close>.

  An error is its class; the texts of errors are not modelled. A nil slice is the empty list, a nil map is
  \<^const>\<open>None\<close>, a map is an association list with distinct keys. A payload that is given to \<open>NewEnvelope\<close> is the
  tree that the JSON encoder writes for it.
\<close>

section \<open>Envelopes and payloads\<close>

definition Version :: int where "Version = 1"

definition MaxLineBytes :: nat where "MaxLineBytes = 2 ^ 20"

definition KindHello :: string where "KindHello = ''hello''"
definition KindReady :: string where "KindReady = ''ready''"
definition KindRun :: string where "KindRun = ''run''"
definition KindCancel :: string where "KindCancel = ''cancel''"
definition KindShutdown :: string where "KindShutdown = ''shutdown''"
definition KindShutdownAck :: string where "KindShutdownAck = ''shutdown_ack''"
definition KindLifecycle :: string where "KindLifecycle = ''lifecycle''"
definition KindDiagnostic :: string where "KindDiagnostic = ''diagnostic''"
definition KindComplete :: string where "KindComplete = ''complete''"
definition KindError :: string where "KindError = ''error''"

lemmas kind_defs = KindHello_def KindReady_def KindRun_def KindCancel_def KindShutdown_def KindShutdownAck_def
  KindLifecycle_def KindDiagnostic_def KindComplete_def KindError_def

datatype ErrorClass =
    ErrorTooLarge
  | ErrorMalformedJSON
  | ErrorUnsupportedVersion
  | ErrorUnknownKind
  | ErrorInvalidEnvelope
  | ErrorInvalidPayload
  | ErrorInvalidSequence

record Envelope =
  ProtocolVersion :: int
  Kind :: string
  RequestID :: "string option"
  Sequence :: "nat option"
  Payload :: string

record HelloPayload =
  helloClient :: string
  helloCapabilities :: "string list"

record ReadyPayload =
  readyWorker :: string
  readyCapabilities :: "string list"

record RunPayload =
  Args :: "string list"
  WorkingDirectory :: string
  Environment :: "(string \<times> string) list option"

record CancelPayload =
  Reason :: string

record LifecyclePayload =
  lifecyclePhase :: string
  lifecycleState :: string
  lifecycleElapsedNS :: int
  lifecycleMetrics :: "(string \<times> int) list option"
  lifecycleError :: string

record DiagnosticPayload =
  diagLinter :: string
  diagMessage :: string
  diagPath :: string
  diagLine :: int
  diagColumn :: int
  diagSeverity :: string

record CompletePayload =
  ExitCode :: int
  Issues :: int
  completeElapsedNS :: int
  ContextError :: string

record ErrorPayload =
  errorCode :: string
  errorMessage :: string
  errorFatal :: bool

record Decoder =
  lastSequence :: nat

definition valid :: "string \<Rightarrow> bool" where
  "valid k \<longleftrightarrow> k \<in> {KindHello, KindReady, KindRun, KindCancel, KindShutdown, KindShutdownAck,
     KindLifecycle, KindDiagnostic, KindComplete, KindError}"

definition runScoped :: "string \<Rightarrow> bool" where
  "runScoped k \<longleftrightarrow> k \<in> {KindRun, KindCancel, KindLifecycle, KindDiagnostic, KindComplete}"

definition isWorkerEvent :: "string \<Rightarrow> bool" where
  "isWorkerEvent k \<longleftrightarrow> k \<in> {KindReady, KindShutdownAck, KindLifecycle, KindDiagnostic, KindComplete, KindError}"

section \<open>Fields of payloads\<close>

text \<open>An early return on an error.\<close>

definition onOk :: "'e + 'a \<Rightarrow> ('a \<Rightarrow> 'e + 'b) \<Rightarrow> 'e + 'b" where
  "onOk m f = (case m of Inl e \<Rightarrow> Inl e | Inr x \<Rightarrow> f x)"

definition require :: "'e \<Rightarrow> bool \<Rightarrow> 'e + unit" where
  "require e b = (if b then Inr () else Inl e)"

text \<open>\<open>json.Unmarshal\<close> into \<open>map[string]json.RawMessage\<close>: the last member of a name wins, null is the nil map.\<close>

definition unmarshalObject :: "string \<Rightarrow> (string \<rightharpoonup> json) option" where
  "unmarshalObject data = (case Unmarshal data of
       Some (JObject ms) \<Rightarrow> Some (map_of (rev ms))
     | Some JNull \<Rightarrow> Some Map.empty
     | _ \<Rightarrow> None)"

text \<open>\<open>json.Unmarshal\<close> of a value into a Go type; null leaves the zero value, a value of another type is an error.\<close>

fun decodeString :: "json \<Rightarrow> string option" where
  "decodeString (JString s) = Some s"
| "decodeString JNull = Some []"
| "decodeString _ = None"

fun decodeInt64 :: "json \<Rightarrow> int option" where
  "decodeInt64 (JNumber lit) = parseInt64 lit"
| "decodeInt64 JNull = Some 0"
| "decodeInt64 _ = None"

fun decodeBool :: "json \<Rightarrow> bool option" where
  "decodeBool (JBool b) = Some b"
| "decodeBool JNull = Some False"
| "decodeBool _ = None"

fun decodeStrings :: "json \<Rightarrow> string list option" where
  "decodeStrings (JArray vs) = those (map decodeString vs)"
| "decodeStrings JNull = Some []"
| "decodeStrings _ = None"

fun decodeMembers :: "(json \<Rightarrow> 'a option) \<Rightarrow> (string \<times> json) list \<Rightarrow> (string \<times> 'a) list \<Rightarrow> (string \<times> 'a) list option" where
  "decodeMembers f [] acc = Some acc"
| "decodeMembers f ((k, v) # ms) acc = (case f v of None \<Rightarrow> None | Some x \<Rightarrow> decodeMembers f ms (AList.update k x acc))"

fun decodeMap :: "(json \<Rightarrow> 'a option) \<Rightarrow> json \<Rightarrow> (string \<times> 'a) list option option" where
  "decodeMap f (JObject ms) = map_option Some (decodeMembers f ms [])"
| "decodeMap f JNull = Some None"
| "decodeMap f _ = None"

text \<open>A field of a structure; a missing field keeps its zero value.\<close>

definition field :: "(string \<rightharpoonup> json) \<Rightarrow> string \<Rightarrow> (json \<Rightarrow> 'a option) \<Rightarrow> 'a option" where
  "field m name f = (case m name of None \<Rightarrow> f JNull | Some v \<Rightarrow> f v)"

definition decodeHello :: "(string \<rightharpoonup> json) \<Rightarrow> HelloPayload option" where
  "decodeHello m = (case (field m ''client'' decodeString, field m ''capabilities'' decodeStrings) of
       (Some c, Some cs) \<Rightarrow> Some \<lparr>helloClient = c, helloCapabilities = cs\<rparr>
     | _ \<Rightarrow> None)"

definition decodeReady :: "(string \<rightharpoonup> json) \<Rightarrow> ReadyPayload option" where
  "decodeReady m = (case (field m ''worker'' decodeString, field m ''capabilities'' decodeStrings) of
       (Some w, Some cs) \<Rightarrow> Some \<lparr>readyWorker = w, readyCapabilities = cs\<rparr>
     | _ \<Rightarrow> None)"

definition decodeRun :: "(string \<rightharpoonup> json) \<Rightarrow> RunPayload option" where
  "decodeRun m = (case (field m ''args'' decodeStrings, field m ''working_directory'' decodeString,
         field m ''environment'' (decodeMap decodeString)) of
       (Some as, Some d, Some env) \<Rightarrow> Some \<lparr>Args = as, WorkingDirectory = d, Environment = env\<rparr>
     | _ \<Rightarrow> None)"

definition decodeCancel :: "(string \<rightharpoonup> json) \<Rightarrow> CancelPayload option" where
  "decodeCancel m = map_option (\<lambda>r. \<lparr>Reason = r\<rparr>) (field m ''reason'' decodeString)"

definition decodeShutdown :: "(string \<rightharpoonup> json) \<Rightarrow> unit option" where
  "decodeShutdown m = Some ()"

definition decodeLifecycle :: "(string \<rightharpoonup> json) \<Rightarrow> LifecyclePayload option" where
  "decodeLifecycle m = (case (field m ''phase'' decodeString, field m ''state'' decodeString,
         field m ''elapsed_ns'' decodeInt64, field m ''metrics'' (decodeMap decodeInt64), field m ''error'' decodeString) of
       (Some p, Some st, Some el, Some ms, Some er) \<Rightarrow>
         Some \<lparr>lifecyclePhase = p, lifecycleState = st, lifecycleElapsedNS = el, lifecycleMetrics = ms, lifecycleError = er\<rparr>
     | _ \<Rightarrow> None)"

definition decodeDiagnostic :: "(string \<rightharpoonup> json) \<Rightarrow> DiagnosticPayload option" where
  "decodeDiagnostic m = (case (field m ''linter'' decodeString, field m ''message'' decodeString,
         field m ''path'' decodeString, field m ''line'' decodeInt64, field m ''column'' decodeInt64,
         field m ''severity'' decodeString) of
       (Some l, Some msg, Some p, Some li, Some co, Some sev) \<Rightarrow>
         Some \<lparr>diagLinter = l, diagMessage = msg, diagPath = p, diagLine = li, diagColumn = co, diagSeverity = sev\<rparr>
     | _ \<Rightarrow> None)"

definition decodeComplete :: "(string \<rightharpoonup> json) \<Rightarrow> CompletePayload option" where
  "decodeComplete m = (case (field m ''exit_code'' decodeInt64, field m ''issues'' decodeInt64,
         field m ''elapsed_ns'' decodeInt64, field m ''context_error'' decodeString) of
       (Some x, Some i, Some el, Some ce) \<Rightarrow>
         Some \<lparr>ExitCode = x, Issues = i, completeElapsedNS = el, ContextError = ce\<rparr>
     | _ \<Rightarrow> None)"

definition decodeErrorPayload :: "(string \<rightharpoonup> json) \<Rightarrow> ErrorPayload option" where
  "decodeErrorPayload m = (case (field m ''code'' decodeString, field m ''message'' decodeString, field m ''fatal'' decodeBool) of
       (Some c, Some msg, Some f) \<Rightarrow> Some \<lparr>errorCode = c, errorMessage = msg, errorFatal = f\<rparr>
     | _ \<Rightarrow> None)"

text \<open>\<open>DecodePayload[T]\<close>: only the members whose names are exactly the names of \<open>T\<close>'s fields are decoded.\<close>

definition DecodePayload :: "((string \<rightharpoonup> json) \<Rightarrow> 'a option) \<Rightarrow> Envelope \<Rightarrow> ErrorClass + 'a" where
  "DecodePayload decode e = (case unmarshalObject (Payload e) of
       None \<Rightarrow> Inl ErrorInvalidPayload
     | Some object \<Rightarrow> (case decode object of None \<Rightarrow> Inl ErrorInvalidPayload | Some p \<Rightarrow> Inr p))"

section \<open>Validation\<close>

definition requireJSONFields :: "string \<Rightarrow> ErrorClass \<Rightarrow> bool \<Rightarrow> string list \<Rightarrow> ErrorClass + unit" where
  "requireJSONFields data cls rejectNull required = (case unmarshalObject data of
       None \<Rightarrow> Inl cls
     | Some object \<Rightarrow>
         require cls (list_all (\<lambda>f. case object f of None \<Rightarrow> False | Some v \<Rightarrow> \<not> (rejectNull \<and> v = JNull)) required))"

definition decodeRequiredPayload :: "((string \<rightharpoonup> json) \<Rightarrow> 'a option) \<Rightarrow> Envelope \<Rightarrow> string list \<Rightarrow> ErrorClass + 'a" where
  "decodeRequiredPayload decode e required =
     onOk (requireJSONFields (Payload e) ErrorInvalidPayload True required) (\<lambda>_. DecodePayload decode e)"

definition payloadField :: "Envelope \<Rightarrow> string \<Rightarrow> ErrorClass + json option" where
  "payloadField e f = (case unmarshalObject (Payload e) of
       None \<Rightarrow> Inl ErrorInvalidPayload
     | Some object \<Rightarrow> Inr (object f))"

definition isJSONNull :: "json \<Rightarrow> bool" where
  "isJSONNull v \<longleftrightarrow> v = JNull"

text \<open>\<open>json.Unmarshal\<close> of a missing field, an empty text, is an error.\<close>

definition rejectNullArrayElements :: "Envelope \<Rightarrow> string \<Rightarrow> ErrorClass + unit" where
  "rejectNullArrayElements e f = onOk (payloadField e f) (\<lambda>raw. case raw of
       Some (JArray vs) \<Rightarrow> require ErrorInvalidPayload (\<not> list_ex isJSONNull vs)
     | Some JNull \<Rightarrow> Inr ()
     | _ \<Rightarrow> Inl ErrorInvalidPayload)"

text \<open>The last member of a name decides.\<close>

definition rejectNullMapValues :: "Envelope \<Rightarrow> string \<Rightarrow> ErrorClass + unit" where
  "rejectNullMapValues e f = onOk (payloadField e f) (\<lambda>raw. case raw of
       Some (JObject ms) \<Rightarrow> require ErrorInvalidPayload (list_all (\<lambda>(k, _). map_of (rev ms) k \<noteq> Some JNull) ms)
     | Some JNull \<Rightarrow> Inr ()
     | _ \<Rightarrow> Inl ErrorInvalidPayload)"

definition rejectNullOptionalField :: "Envelope \<Rightarrow> string \<Rightarrow> ErrorClass + unit" where
  "rejectNullOptionalField e f = onOk (payloadField e f) (\<lambda>raw. require ErrorInvalidPayload (raw \<noteq> Some JNull))"

definition validateHello :: "Envelope \<Rightarrow> ErrorClass + unit" where
  "validateHello e =
     onOk (decodeRequiredPayload decodeHello e [''client'', ''capabilities'']) (\<lambda>p.
     onOk (rejectNullArrayElements e ''capabilities'') (\<lambda>_.
     require ErrorInvalidPayload (helloClient p \<noteq> [] \<and> helloCapabilities p \<noteq> [])))"

definition validateRun :: "Envelope \<Rightarrow> ErrorClass + unit" where
  "validateRun e =
     onOk (decodeRequiredPayload decodeRun e [''args'', ''working_directory'', ''environment'']) (\<lambda>p.
     onOk (rejectNullArrayElements e ''args'') (\<lambda>_.
     onOk (rejectNullMapValues e ''environment'') (\<lambda>_.
     require ErrorInvalidPayload (Args p \<noteq> [] \<and> WorkingDirectory p \<noteq> [] \<and> Environment p \<noteq> None))))"

definition validateControllerPayload :: "Envelope \<Rightarrow> ErrorClass + unit" where
  "validateControllerPayload e =
     (if Kind e = KindHello then validateHello e
      else if Kind e = KindRun then validateRun e
      else if Kind e = KindCancel then
        onOk (decodeRequiredPayload decodeCancel e [''reason'']) (\<lambda>p. require ErrorInvalidPayload (Reason p \<noteq> []))
      else if Kind e = KindShutdown then DecodePayload decodeShutdown e
      else Inr ())"

definition validateLifecycle :: "Envelope \<Rightarrow> ErrorClass + unit" where
  "validateLifecycle e =
     onOk (decodeRequiredPayload decodeLifecycle e [''phase'', ''state'', ''elapsed_ns'', ''metrics'']) (\<lambda>p.
     onOk (rejectNullMapValues e ''metrics'') (\<lambda>_.
     onOk (rejectNullOptionalField e ''error'') (\<lambda>_.
     onOk (require ErrorInvalidPayload
       (lifecyclePhase p \<noteq> [] \<and> lifecycleState p \<noteq> [] \<and> 0 \<le> lifecycleElapsedNS p \<and> lifecycleMetrics p \<noteq> None)) (\<lambda>_.
     require ErrorInvalidPayload (list_all (\<lambda>(name, v). name \<noteq> [] \<and> 0 \<le> v) (the (lifecycleMetrics p)))))))"

definition validateDiagnostic :: "Envelope \<Rightarrow> ErrorClass + unit" where
  "validateDiagnostic e =
     onOk (decodeRequiredPayload decodeDiagnostic e [''linter'', ''message'', ''path'', ''line'', ''column'', ''severity'']) (\<lambda>p.
     onOk (require ErrorInvalidPayload
       (diagLinter p \<noteq> [] \<and> diagMessage p \<noteq> [] \<and> diagPath p \<noteq> [] \<and> 1 \<le> diagLine p \<and> 1 \<le> diagColumn p)) (\<lambda>_.
     require ErrorInvalidPayload (diagSeverity p \<in> {''error'', ''warning'', ''info''})))"

definition validateComplete :: "Envelope \<Rightarrow> ErrorClass + unit" where
  "validateComplete e =
     onOk (decodeRequiredPayload decodeComplete e [''exit_code'', ''issues'', ''elapsed_ns'']) (\<lambda>p.
     onOk (rejectNullOptionalField e ''context_error'') (\<lambda>_.
     require ErrorInvalidPayload (0 \<le> ExitCode p \<and> ExitCode p \<le> 255 \<and> 0 \<le> Issues p \<and> 0 \<le> completeElapsedNS p)))"

definition validateWorkerPayload :: "Envelope \<Rightarrow> ErrorClass + unit" where
  "validateWorkerPayload e =
     (if Kind e = KindReady then
        onOk (decodeRequiredPayload decodeReady e [''worker'', ''capabilities'']) (\<lambda>p.
        onOk (rejectNullArrayElements e ''capabilities'') (\<lambda>_.
        require ErrorInvalidPayload (readyWorker p \<noteq> [] \<and> readyCapabilities p \<noteq> [])))
      else if Kind e = KindShutdownAck then DecodePayload decodeShutdown e
      else if Kind e = KindLifecycle then validateLifecycle e
      else if Kind e = KindDiagnostic then validateDiagnostic e
      else if Kind e = KindComplete then validateComplete e
      else if Kind e = KindError then
        onOk (decodeRequiredPayload decodeErrorPayload e [''code'', ''message'', ''fatal'']) (\<lambda>p.
        require ErrorInvalidPayload (errorCode p \<noteq> [] \<and> errorMessage p \<noteq> []))
      else Inr ())"

text \<open>\<open>bytes.TrimSpace\<close>, as far as its first byte matters: a text that JSON accepts starts after the white space of JSON.\<close>

definition validatePayload :: "Envelope \<Rightarrow> ErrorClass + unit" where
  "validatePayload e =
     onOk (require ErrorInvalidPayload (HasPrefix (skipWs (Payload e)) ''{'')) (\<lambda>_.
     if isWorkerEvent (Kind e) then validateWorkerPayload e else validateControllerPayload e)"

definition validateRouting :: "Envelope \<Rightarrow> ErrorClass + unit" where
  "validateRouting e =
     (if RequestID e = Some [] then Inl ErrorInvalidEnvelope
      else if runScoped (Kind e) \<and> RequestID e = None then Inl ErrorInvalidEnvelope
      else if \<not> runScoped (Kind e) \<and> Kind e \<noteq> KindError \<and> RequestID e \<noteq> None then Inl ErrorInvalidEnvelope
      else if isWorkerEvent (Kind e) \<and> (Sequence e = None \<or> Sequence e = Some 0) then Inl ErrorInvalidEnvelope
      else if \<not> isWorkerEvent (Kind e) \<and> Sequence e \<noteq> None then Inl ErrorInvalidEnvelope
      else Inr ())"

definition validateEnvelope :: "Envelope \<Rightarrow> ErrorClass + unit" where
  "validateEnvelope e =
     onOk (require ErrorUnsupportedVersion (ProtocolVersion e = Version)) (\<lambda>_.
     onOk (require ErrorUnknownKind (valid (Kind e))) (\<lambda>_.
     onOk (validateRouting e) (\<lambda>_. validatePayload e)))"

section \<open>Decoding a line\<close>

definition trimTerminator :: "string \<Rightarrow> string" where
  "trimTerminator line = TrimSuffix (TrimSuffix line [CHR 0x0A]) [CHR 0x0D]"

definition validateJSONStructure :: "string \<Rightarrow> ErrorClass + unit" where
  "validateJSONStructure data = (case scanText data of Issue _ \<Rightarrow> Inl ErrorInvalidEnvelope | _ \<Rightarrow> Inr ())"

definition validateEnvelopeFieldNames :: "string \<Rightarrow> ErrorClass + unit" where
  "validateEnvelopeFieldNames record = (case Unmarshal record of
       Some (JObject ms) \<Rightarrow> require ErrorInvalidEnvelope
         (list_all (\<lambda>(k, _). k \<in> {''protocol_version'', ''kind'', ''request_id'', ''sequence'', ''payload''}) ms)
     | _ \<Rightarrow> Inr ())"

text \<open>How the JSON decoder compares names of fields: without case, the long s and the Kelvin sign included.\<close>

definition foldRune :: "string \<Rightarrow> string" where
  "foldRune r =
     (if r = [CHR 0xC5, CHR 0xBF] then ''s''
      else if r = [CHR 0xE2, CHR 0x84, CHR 0xAA] then ''k''
      else map (\<lambda>c. if 65 \<le> byte c \<and> byte c \<le> 90 then char_of (byte c + 32) else c) r)"

definition foldName :: "string \<Rightarrow> string" where
  "foldName s = concat (map (foldRune \<circ> fst) (runes s))"

text \<open>One member of the record: the changed envelope, or an error that the decoder remembers while it goes on.\<close>

definition decodeField :: "string \<times> json \<times> string \<Rightarrow> Envelope \<Rightarrow> Envelope option" where
  "decodeField m e = (case m of (key, v, raw) \<Rightarrow>
     let name = foldName key in
     if name = ''protocol_version'' then
       (case v of
          JNumber lit \<Rightarrow> map_option (\<lambda>i. e\<lparr>ProtocolVersion := i\<rparr>) (parseInt64 lit)
        | JNull \<Rightarrow> Some e
        | _ \<Rightarrow> None)
     else if name = ''kind'' then
       (case v of JString s \<Rightarrow> Some (e\<lparr>Kind := s\<rparr>) | JNull \<Rightarrow> Some e | _ \<Rightarrow> None)
     else if name = ''request_id'' then
       (case v of JString s \<Rightarrow> Some (e\<lparr>RequestID := Some s\<rparr>) | JNull \<Rightarrow> Some (e\<lparr>RequestID := None\<rparr>) | _ \<Rightarrow> None)
     else if name = ''sequence'' then
       (case v of
          JNumber lit \<Rightarrow> map_option (\<lambda>n. e\<lparr>Sequence := Some n\<rparr>) (parseUint64 lit)
        | JNull \<Rightarrow> Some (e\<lparr>Sequence := None\<rparr>)
        | _ \<Rightarrow> None)
     else if name = ''payload'' then Some (e\<lparr>Payload := raw\<rparr>)
     else None)"

fun decodeFields :: "(string \<times> json \<times> string) list \<Rightarrow> Envelope \<Rightarrow> Envelope option" where
  "decodeFields [] e = Some e"
| "decodeFields (m # ms) e = (case decodeField m e of None \<Rightarrow> None | Some e' \<Rightarrow> decodeFields ms e')"

definition zeroEnvelope :: Envelope where
  "zeroEnvelope = \<lparr>ProtocolVersion = 0, Kind = [], RequestID = None, Sequence = None, Payload = []\<rparr>"

text \<open>The first call of the decoder, with \<open>decodeError\<close>, and what it leaves of the text.\<close>

definition decodeEnvelope :: "string \<Rightarrow> ErrorClass + Envelope \<times> string" where
  "decodeEnvelope record = (case readValue record of
       None \<Rightarrow> Inl ErrorMalformedJSON
     | Some (v, rest) \<Rightarrow>
         (case v of
            JObject _ \<Rightarrow>
              (case decodeFields (rawObject record) zeroEnvelope of
                 None \<Rightarrow> Inl ErrorInvalidEnvelope
               | Some e \<Rightarrow> Inr (e, rest))
          | JNull \<Rightarrow> Inr (zeroEnvelope, rest)
          | _ \<Rightarrow> Inl ErrorInvalidEnvelope))"

definition rejectTrailingJSON :: "string \<Rightarrow> ErrorClass + unit" where
  "rejectTrailingJSON rest = require ErrorMalformedJSON (skipWs rest = [])"

definition decodeHexQuad :: "string \<Rightarrow> nat \<Rightarrow> nat option" where
  "decodeHexQuad data offset =
     (if offset + 4 > length data then None
      else hexQuad (data ! offset) (data ! (offset + 1)) (data ! (offset + 2)) (data ! (offset + 3)))"

definition surrogateEscapeWidth :: "string \<Rightarrow> nat \<Rightarrow> nat \<times> bool" where
  "surrogateEscapeWidth data index = (case decodeHexQuad data (index + 2) of
       None \<Rightarrow> (2, False)
     | Some code \<Rightarrow>
         if 0xdc00 \<le> code \<and> code \<le> 0xdfff then (0, True)
         else if code < 0xd800 \<or> code > 0xdbff then (6, False)
         else if index + 12 > length data \<or> data ! (index + 6) \<noteq> CHR 0x5C \<or> data ! (index + 7) \<noteq> CHR ''u'' then (0, True)
         else (case decodeHexQuad data (index + 8) of
                 None \<Rightarrow> (0, True)
               | Some low \<Rightarrow> if low < 0xdc00 \<or> low > 0xdfff then (0, True) else (12, False)))"

text \<open>The loop from an index on; a width that is not an error is at least two.\<close>

function unpairedFrom :: "bool \<Rightarrow> string \<Rightarrow> nat \<Rightarrow> bool" where
  "unpairedFrom inString data index =
     (if index \<ge> length data then False
      else if \<not> inString then unpairedFrom (data ! index = CHR 0x22) data (index + 1)
      else if data ! index = CHR 0x22 then unpairedFrom False data (index + 1)
      else if data ! index \<noteq> CHR 0x5C \<or> index + 1 \<ge> length data then unpairedFrom inString data (index + 1)
      else if data ! (index + 1) \<noteq> CHR ''u'' then unpairedFrom inString data (index + 2)
      else (case surrogateEscapeWidth data index of
              (width, invalid) \<Rightarrow>
                if invalid then True
                else if width = 0 then False
                else unpairedFrom inString data (index + width)))"
  by pat_completeness auto
termination
  by (relation "measure (\<lambda>(_, data, index). length data - index)") auto

definition hasUnpairedSurrogateEscape :: "string \<Rightarrow> bool" where
  "hasUnpairedSurrogateEscape data = unpairedFrom False data 0"

text \<open>\<open>Decoder.DecodeLine\<close>: the result and the changed decoder.\<close>

definition decodeRecord :: "string \<Rightarrow> ErrorClass + Envelope" where
  "decodeRecord record =
     onOk (require ErrorTooLarge (length record \<le> MaxLineBytes)) (\<lambda>_.
     onOk (require ErrorMalformedJSON (utf8Valid record)) (\<lambda>_.
     onOk (validateJSONStructure record) (\<lambda>_.
     onOk (validateEnvelopeFieldNames record) (\<lambda>_.
     onOk (decodeEnvelope record) (\<lambda>(envelope, rest).
     onOk (rejectTrailingJSON rest) (\<lambda>_.
     onOk (require ErrorInvalidEnvelope (\<not> hasUnpairedSurrogateEscape record)) (\<lambda>_.
     onOk (requireJSONFields record ErrorInvalidEnvelope False [''protocol_version'', ''kind'', ''payload'']) (\<lambda>_.
     onOk (requireJSONFields record ErrorInvalidEnvelope True [''protocol_version'', ''kind'']) (\<lambda>_.
     onOk (validateEnvelope envelope) (\<lambda>_. Inr envelope))))))))))"

definition DecodeLine :: "string \<Rightarrow> Decoder \<Rightarrow> (ErrorClass + Envelope) \<times> Decoder" where
  "DecodeLine line d = (case decodeRecord (trimTerminator line) of
       Inl c \<Rightarrow> (Inl c, d)
     | Inr envelope \<Rightarrow>
         if isWorkerEvent (Kind envelope) then
           (let sequence = the (Sequence envelope) in
            if sequence \<le> lastSequence d then (Inl ErrorInvalidSequence, d)
            else (Inr envelope, d\<lparr>lastSequence := sequence\<rparr>))
         else (Inr envelope, d))"

section \<open>Encoding\<close>

definition optionalString :: "string \<Rightarrow> string option" where
  "optionalString v = (if v = [] then None else Some v)"

definition optionalUint64 :: "nat \<Rightarrow> nat option" where
  "optionalUint64 v = (if v = 0 then None else Some v)"

definition marshalPayload :: "json \<Rightarrow> string" where
  "marshalPayload payload = TrimSuffix (writeJson payload @ [CHR 0x0A]) [CHR 0x0A]"

definition NewEnvelope :: "string \<Rightarrow> string \<Rightarrow> nat \<Rightarrow> json \<Rightarrow> ErrorClass + Envelope" where
  "NewEnvelope kind requestID sequence payload =
     (let envelope = \<lparr>ProtocolVersion = Version, Kind = kind, RequestID = optionalString requestID,
            Sequence = optionalUint64 sequence, Payload = marshalPayload payload\<rparr> in
      onOk (validateEnvelope envelope) (\<lambda>_. Inr envelope))"

fun compactFrom :: "bool \<Rightarrow> bool \<Rightarrow> string \<Rightarrow> string" where
  "compactFrom inString escaped [] = []"
| "compactFrom inString escaped (c # s) =
     (if inString then
        c # (if escaped then compactFrom True False s
             else if c = CHR 0x5C then compactFrom True True s
             else if c = CHR 0x22 then compactFrom False False s
             else compactFrom True False s)
      else if c = CHR 0x22 then c # compactFrom True escaped s
      else if \<not> isWs c then c # compactFrom False escaped s
      else compactFrom False escaped s)"

definition compactJSON :: "string \<Rightarrow> string" where
  "compactJSON record = compactFrom False False record"

text \<open>\<open>bytes.ReplaceAll\<close> of a non-empty text.\<close>

function ReplaceAll :: "string \<Rightarrow> string \<Rightarrow> string \<Rightarrow> string" where
  "ReplaceAll [] old new = []"
| "ReplaceAll (c # s) old new =
     (if old \<noteq> [] \<and> HasPrefix (c # s) old then new @ ReplaceAll (drop (length old) (c # s)) old new
      else c # ReplaceAll s old new)"
  by pat_completeness auto
termination
  by (relation "measure (\<lambda>(s, old, new). length s)") (auto simp: neq_Nil_conv)

definition escapeLineSeparators :: "string \<Rightarrow> string" where
  "escapeLineSeparators record =
     ReplaceAll (ReplaceAll record lineSeparator (CHR 0x5C # ''u2028'')) paragraphSeparator (CHR 0x5C # ''u2029'')"

text \<open>What \<open>json.Encoder\<close> writes for an envelope: nil pointers are left out, the raw payload is compacted.\<close>

definition encodeFields :: "Envelope \<Rightarrow> string" where
  "encodeFields e =
     writeString ''protocol_version'' @ '':'' @ formatInt (ProtocolVersion e) @ '','' @
     writeString ''kind'' @ '':'' @ writeString (Kind e) @ '','' @
     (case RequestID e of None \<Rightarrow> [] | Some r \<Rightarrow> writeString ''request_id'' @ '':'' @ writeString r @ '','') @
     (case Sequence e of None \<Rightarrow> [] | Some n \<Rightarrow> writeString ''sequence'' @ '':'' @ formatNat n @ '','') @
     writeString ''payload'' @ '':'' @ (if Payload e = [] then ''null'' else compactJSON (Payload e))"

definition encodeEnvelope :: "Envelope \<Rightarrow> string option" where
  "encodeEnvelope e =
     (if Payload e \<noteq> [] \<and> Unmarshal (Payload e) = None then None
      else Some (''{'' @ encodeFields e @ ''}'' @ [CHR 0x0A]))"

definition Encode :: "Envelope \<Rightarrow> ErrorClass + string" where
  "Encode e =
     onOk (validateEnvelope e) (\<lambda>_.
     case encodeEnvelope e of
       None \<Rightarrow> Inl ErrorInvalidEnvelope
     | Some output \<Rightarrow>
         let record = escapeLineSeparators (compactJSON output) in
         onOk (validateJSONStructure record) (\<lambda>_.
         onOk (require ErrorInvalidEnvelope (\<not> hasUnpairedSurrogateEscape record)) (\<lambda>_.
         onOk (require ErrorTooLarge (length record \<le> MaxLineBytes)) (\<lambda>_.
         Inr (record @ [CHR 0x0A])))))"

section \<open>Written text is compact and has no line separators\<close>

declare unpairedFrom.simps [simp del]

lemma compact_plain:
  "\<forall>x \<in> set r. x \<noteq> CHR 0x5C \<and> x \<noteq> CHR 0x22 \<Longrightarrow> compactFrom True False (r @ u) = r @ compactFrom True False u"
  by (induction r) auto

lemma compact_escape:
  "\<forall>x \<in> set r. x \<noteq> CHR 0x5C \<and> x \<noteq> CHR 0x22 \<Longrightarrow>
   compactFrom True False (CHR 0x5C # e # r @ u) = CHR 0x5C # e # r @ compactFrom True False u"
  using compact_plain by simp

lemma compact_escapeRune:
  assumes "r \<in> set (runes s)"
  shows "compactFrom True False (escapeRune r @ u) = escapeRune r @ compactFrom True False u"
proof -
  have hex: "lowerHex n \<noteq> CHR 0x5C \<and> lowerHex n \<noteq> CHR 0x22" if "n < 16" for n
  proof -
    have "byte (lowerHex n) = (if n < 10 then 48 + n else 87 + n)" using that by (simp add: lowerHex_def)
    then show ?thesis using that by (auto split: if_splits)
  qed
  consider "\<not> snd r \<or> fst r = lineSeparator \<or> fst r = paragraphSeparator" | c where "fst r = [c]" "byte c < 128" "snd r"
    | "snd r" "fst r \<noteq> lineSeparator" "fst r \<noteq> paragraphSeparator" "length (fst r) \<noteq> 1" "\<forall>x \<in> set (fst r). 128 \<le> byte x"
    using runes_valid [of "fst r" s] assms by (cases r; cases "snd r") auto
  then show ?thesis
  proof cases
    case 1
    then show ?thesis by (auto simp: escapeRune_def)
  next
    case (2 c)
    then have e: "escapeRune r = escapeByte c" by (simp add: escapeRune_def lineSeparator_def paragraphSeparator_def)
    have "byte c div 16 < 16" "byte c mod 16 < 16" using 2(2) by (simp_all add: less_mult_imp_div_less)
    then show ?thesis unfolding e using hex [of "byte c div 16"] hex [of "byte c mod 16"] by (simp add: escapeByte_def)
  next
    case 3
    have "x \<noteq> CHR 0x5C \<and> x \<noteq> CHR 0x22" if "x \<in> set (fst r)" for x using 3(5) that by auto
    then show ?thesis using 3 compact_plain [of "fst r" u] by (simp add: escapeRune_def)
  qed
qed

lemma compact_writeString: "compactFrom False False (writeString s @ u) = writeString s @ compactFrom False False u"
proof -
  have "compactFrom True False (concat (map escapeRune rs) @ CHR 0x22 # u) =
      concat (map escapeRune rs) @ CHR 0x22 # compactFrom False False u" if "set rs \<subseteq> set (runes s)" for rs
    using that
  proof (induction rs)
    case (Cons r rs)
    then have "r \<in> set (runes s)" by simp
    from compact_escapeRune [OF this] show ?case using Cons by simp
  qed simp
  from this [of "runes s"] show ?thesis by (simp add: writeString_def)
qed

lemma compact_number:
  assumes "readNumber lit = Some (lit, [])"
  shows "compactFrom False False (lit @ u) = lit @ compactFrom False False u"
proof -
  have "compactFrom False False (xs @ u) = xs @ compactFrom False False u" if "set xs \<subseteq> set lit" for xs
    using that
  proof (induction xs)
    case (Cons x xs)
    then have "x \<in> {CHR ''-'', CHR ''+'', CHR ''.'', CHR ''e'', CHR ''E''} \<or> isDigit x"
      using readNumber_ascii [OF assms, of x] by simp
    then have "x \<noteq> CHR 0x22" "\<not> isWs x" by (auto simp: isDigit_def isWs_def)
    then show ?case using Cons by simp
  qed simp
  then show ?thesis by blast
qed

lemma compact_writeJson:
  shows "wfJson v \<Longrightarrow> compactFrom False False (writeJson v @ u) = writeJson v @ compactFrom False False u"
    and "wfJson (JObject ms) \<Longrightarrow> compactFrom False False (writeMembers ms @ u) = writeMembers ms @ compactFrom False False u"
    and "wfJson (JArray vs) \<Longrightarrow> compactFrom False False (writeElements vs @ u) = writeElements vs @ compactFrom False False u"
  by (induction v and ms and vs arbitrary: u and u and u rule: writeJson_writeMembers_writeElements.induct)
    (auto simp: isWs_def compact_writeString compact_number)

lemma runeLen_following:
  assumes "runeLen (c # s) = k" "0 < k" "x \<in> set (take (k - 1) s)"
  shows "128 \<le> byte x \<and> byte x \<le> 191"
proof -
  obtain rs where rs: "following (byte c) = Some rs" "inRanges rs s" "k = Suc (length rs)"
    using assms by (auto simp: runeLen.simps split: option.splits if_splits)
  have "\<forall>(lo, hi) \<in> set rs. 128 \<le> lo \<and> hi \<le> 191" using rs(1) by (auto simp: following_def split: if_splits)
  moreover have "list_all2 (\<lambda>(lo, hi) c. lo \<le> byte c \<and> byte c \<le> hi) rs (take (length rs) s)"
    using rs(2) by (simp add: inRanges_def)
  moreover have "128 \<le> byte x \<and> byte x \<le> 191"
    if "list_all2 (\<lambda>(lo, hi) c. lo \<le> byte c \<and> byte c \<le> hi) rs xs" "\<forall>(lo, hi) \<in> set rs. 128 \<le> lo \<and> hi \<le> 191" "x \<in> set xs"
    for rs :: "(nat \<times> nat) list" and xs
    using that by (induction rs xs rule: list_all2_induct) auto
  ultimately show ?thesis using assms(3) rs(3) by simp
qed

text \<open>A separator occurs in valid text only as a character of its own.\<close>

lemma ReplaceAll_clean:
  assumes "p = lineSeparator \<or> p = paragraphSeparator"
  shows "clean s \<Longrightarrow> ReplaceAll s p new = s"
proof (induction s rule: runes.induct)
  case (2 c s)
  let ?k = "runeLen (c # s)"
  have k: "0 < ?k" "take ?k (c # s) \<noteq> p" using 2(3) assms by (auto simp: clean_def Let_def split: if_splits)
  have hd: "\<exists>y z. p = [CHR 0xE2, y, z]" using assms by (auto simp: lineSeparator_def paragraphSeparator_def)
  have skip: "ReplaceAll (xs @ t) p new = xs @ ReplaceAll t p new" if "\<forall>x \<in> set xs. byte x \<le> 191" for xs t
    using that
  proof (induction xs)
    case (Cons x xs)
    then have "x \<noteq> CHR 0xE2" by auto
    then show ?case using Cons hd by (auto simp: HasPrefix_def)
  qed simp
  have "\<not> HasPrefix (c # s) p"
  proof
    assume pre: "HasPrefix (c # s) p"
    then have "c = CHR 0xE2" using hd by (auto simp: HasPrefix_def)
    then have "?k = 3" using k(1) by (auto simp: runeLen.simps following_def split: if_splits)
    then show False using pre k(2) hd by (auto simp: HasPrefix_def numeral_2_eq_2)
  qed
  then have one: "ReplaceAll (c # s) p new = c # ReplaceAll s p new" by simp
  have s: "s = take (?k - 1) s @ drop ?k (c # s)" using k(1) by (cases ?k) auto
  have "ReplaceAll s p new = take (?k - 1) s @ ReplaceAll (drop ?k (c # s)) p new"
    using skip [of "take (?k - 1) s" "drop ?k (c # s)"] runeLen_following [OF refl k(1)] s by simp
  moreover have "clean (drop ?k (c # s))" using 2(3) k(1) by (auto simp: clean_def Let_def)
  ultimately show ?case using 2(2) k(1) one s by simp
qed simp

lemma escapeLineSeparators_clean: "clean s \<Longrightarrow> escapeLineSeparators s = s"
  by (simp add: escapeLineSeparators_def ReplaceAll_clean)

section \<open>Written text has no surrogates\<close>

lemma decodeHexQuad_shift: "decodeHexQuad (p @ s) (length p + i) = decodeHexQuad s i"
  by (simp add: decodeHexQuad_def nth_append)

lemma nth_shift: "(p @ s) ! (length p + i) = s ! i" "(p @ s) ! (length p + i + k) = s ! (i + k)"
  by (simp_all add: nth_append)

lemma surrogateEscapeWidth_shift: "surrogateEscapeWidth (p @ s) (length p + i) = surrogateEscapeWidth s i"
proof -
  have "decodeHexQuad (p @ s) (length p + i + k) = decodeHexQuad s (i + k)" for k
    using decodeHexQuad_shift [of p s "i + k"] by (simp add: add.assoc)
  moreover have "(length p + i + 12 > length (p @ s)) = (i + 12 > length s)" by simp
  ultimately show ?thesis unfolding surrogateEscapeWidth_def nth_shift by (simp only:)
qed

lemma unpairedFrom_shift: "unpairedFrom b (p @ s) (length p + i) = unpairedFrom b s i"
proof (induction b s i rule: unpairedFrom.induct)
  case (1 b s i)
  have len: "(length p + i \<ge> length (p @ s)) = (i \<ge> length s)" "(length p + i + 1 \<ge> length (p @ s)) = (i + 1 \<ge> length s)"
    by simp_all
  show ?case
    unfolding unpairedFrom.simps [of b "p @ s" "length p + i"] unpairedFrom.simps [of b s i] nth_shift len surrogateEscapeWidth_shift
    using 1 by (auto simp: add.assoc split: prod.splits)
qed

abbreviation unpaired :: "bool \<Rightarrow> string \<Rightarrow> bool" where
  "unpaired b s \<equiv> unpairedFrom b s 0"

lemma unpaired_drop: "n \<le> length s \<Longrightarrow> unpairedFrom b s n = unpaired b (drop n s)"
  using unpairedFrom_shift [of b "take n s" "drop n s" 0] by simp

lemma unpaired_Nil: "unpaired b [] = False"
  by (simp add: unpairedFrom.simps)

lemma unpaired_Cons:
  "unpaired b (c # s) =
     (if \<not> b then unpaired (c = CHR 0x22) s
      else if c = CHR 0x22 then unpaired False s
      else if c \<noteq> CHR 0x5C \<or> s = [] then unpaired b s
      else if hd s \<noteq> CHR ''u'' then unpaired b (tl s)
      else (case surrogateEscapeWidth (c # s) 0 of
              (width, invalid) \<Rightarrow> if invalid then True else if width = 0 then False else unpairedFrom b (c # s) width))"
proof -
  have "unpairedFrom b' (x # t) (Suc 0) = unpaired b' t" for b' x t using unpaired_drop [of 1 "x # t" b'] by simp
  moreover have "unpairedFrom b' (x # y # t) (Suc (Suc 0)) = unpaired b' t" for b' x y t
    using unpaired_drop [of 2 "x # y # t" b'] by (simp add: numeral_2_eq_2)
  ultimately show ?thesis
    unfolding unpairedFrom.simps [of b "c # s" 0] by (cases s) (simp_all split: prod.splits)
qed

lemma unpaired_simps:
  "unpaired b [] = False"
  "unpaired False (c # s) = unpaired (c = CHR 0x22) s"
  "unpaired True (CHR 0x22 # s) = unpaired False s"
  "c \<noteq> CHR 0x22 \<Longrightarrow> c \<noteq> CHR 0x5C \<Longrightarrow> unpaired True (c # s) = unpaired True s"
  "e \<noteq> CHR ''u'' \<Longrightarrow> unpaired True (CHR 0x5C # e # s) = unpaired True s"
  unfolding unpaired_Cons by (simp_all add: unpaired_Nil)

lemma unpaired_u:
  assumes "hexQuad h1 h2 h3 h4 = Some r" "r < 0xd800 \<or> r > 0xdfff"
  shows "unpaired True (CHR 0x5C # CHR ''u'' # h1 # h2 # h3 # h4 # s) = unpaired True s"
proof -
  define t where "t = CHR 0x5C # CHR ''u'' # h1 # h2 # h3 # h4 # s"
  have "decodeHexQuad t 2 = Some r" using assms(1) by (simp add: decodeHexQuad_def t_def numeral_eq_Suc)
  then have "surrogateEscapeWidth t 0 = (6, False)" using assms(2) unfolding surrogateEscapeWidth_def by (auto simp: numeral_2_eq_2)
  moreover have "unpairedFrom True t 6 = unpaired True s" using unpaired_drop [of 6 t] by (simp add: t_def)
  ultimately have "unpaired True t = unpaired True s" by (simp add: t_def unpaired_Cons)
  then show ?thesis by (simp add: t_def)
qed

lemma unpaired_plain: "\<forall>x \<in> set r. x \<noteq> CHR 0x5C \<and> x \<noteq> CHR 0x22 \<Longrightarrow> unpaired True (r @ u) = unpaired True u"
  by (induction r) (simp_all add: unpaired_simps)

lemma unpaired_escapeRune:
  assumes "r \<in> set (runes s)"
  shows "unpaired True (escapeRune r @ u) = unpaired True u"
proof -
  consider "\<not> snd r" | "snd r" "fst r = lineSeparator \<or> fst r = paragraphSeparator" | c where "fst r = [c]" "byte c < 128" "snd r"
    | "snd r" "fst r \<noteq> lineSeparator" "fst r \<noteq> paragraphSeparator" "length (fst r) \<noteq> 1" "\<forall>x \<in> set (fst r). 128 \<le> byte x"
    using runes_valid [of "fst r" s] assms by (cases r; cases "snd r") auto
  then show ?thesis
  proof cases
    case 1
    have "hexQuad (CHR ''f'') (CHR ''f'') (CHR ''f'') (CHR ''d'') = Some 0xfffd" by (simp add: hexQuad_def hexVal_def isDigit_def)
    then show ?thesis using 1 unpaired_u by (simp add: escapeRune_def)
  next
    case 2
    have "hexQuad (CHR ''2'') (CHR ''0'') (CHR ''2'') (CHR ''8'') = Some 8232"
      "hexQuad (CHR ''2'') (CHR ''0'') (CHR ''2'') (CHR ''9'') = Some 8233" by (simp_all add: hexQuad_def hexVal_def isDigit_def)
    then show ?thesis using 2 unpaired_u by (auto simp: escapeRune_def)
  next
    case (3 c)
    then have e: "escapeRune r = escapeByte c" by (simp add: escapeRune_def lineSeparator_def paragraphSeparator_def)
    have u: "unpaired True (CHR 0x5C # ''u00'' @ lowerHex (byte c div 16) # lowerHex (byte c mod 16) # u) = unpaired True u"
    proof -
      have "byte c div 16 < 16" "byte c mod 16 < 16" using 3(2) by (simp_all add: less_mult_imp_div_less)
      then have "hexQuad (CHR ''0'') (CHR ''0'') (lowerHex (byte c div 16)) (lowerHex (byte c mod 16)) = Some (byte c)"
        by (simp add: hexQuad_def hexVal_0 hexVal_lowerHex)
      then show ?thesis using unpaired_u 3(2) by simp
    qed
    show ?thesis using u unfolding e by (auto simp: escapeByte_def unpaired_simps)
  next
    case 4
    have "x \<noteq> CHR 0x5C \<and> x \<noteq> CHR 0x22" if "x \<in> set (fst r)" for x using 4(5) that by auto
    then show ?thesis using 4 unpaired_plain [of "fst r" u] by (simp add: escapeRune_def)
  qed
qed

lemma unpaired_writeString: "unpaired False (writeString s @ u) = unpaired False u"
proof -
  have "unpaired True (concat (map escapeRune rs) @ CHR 0x22 # u) = unpaired False u" if "set rs \<subseteq> set (runes s)" for rs
    using that
  proof (induction rs)
    case (Cons r rs)
    then have "r \<in> set (runes s)" by simp
    from unpaired_escapeRune [OF this] show ?case using Cons by simp
  qed (simp add: unpaired_simps)
  from this [of "runes s"] show ?thesis by (simp add: writeString_def unpaired_simps)
qed

lemma unpaired_number:
  assumes "readNumber lit = Some (lit, [])"
  shows "unpaired False (lit @ u) = unpaired False u"
proof -
  have "unpaired False (xs @ u) = unpaired False u" if "set xs \<subseteq> set lit" for xs
    using that
  proof (induction xs)
    case (Cons x xs)
    then have "x \<in> {CHR ''-'', CHR ''+'', CHR ''.'', CHR ''e'', CHR ''E''} \<or> isDigit x"
      using readNumber_ascii [OF assms, of x] by simp
    then have "x \<noteq> CHR 0x22" by (auto simp: isDigit_def)
    then show ?case using Cons by (simp add: unpaired_simps)
  qed simp
  then show ?thesis by blast
qed

lemma unpaired_writeJson:
  shows "wfJson v \<Longrightarrow> unpaired False (writeJson v @ u) = unpaired False u"
    and "wfJson (JObject ms) \<Longrightarrow> unpaired False (writeMembers ms @ u) = unpaired False u"
    and "wfJson (JArray vs) \<Longrightarrow> unpaired False (writeElements vs @ u) = unpaired False u"
  by (induction v and ms and vs arbitrary: u and u and u rule: writeJson_writeMembers_writeElements.induct)
    (auto simp: unpaired_simps unpaired_writeString unpaired_number)

lemma no_surrogates_written: "wfJson v \<Longrightarrow> \<not> hasUnpairedSurrogateEscape (writeJson v)"
  using unpaired_writeJson(1) [of v "[]"] by (simp add: hasUnpairedSurrogateEscape_def unpaired_simps)

section \<open>Encoding and decoding\<close>

lemma onOk_Inr: "onOk m f = Inr y \<longleftrightarrow> (\<exists>x. m = Inr x \<and> f x = Inr y)"
  by (cases m) (auto simp: onOk_def)

lemma onOk_ok [simp]: "onOk (Inr x) f = f x"
  by (simp add: onOk_def)

lemma require_Inr [simp]: "require c b = Inr u \<longleftrightarrow> b"
  by (simp add: require_def)

lemma require_True [simp]: "require c True = Inr ()"
  by (simp add: require_def)

lemma utf8Valid_ascii: "\<forall>c \<in> set s. byte c < 128 \<Longrightarrow> utf8Valid s"
  by (rule clean_valid) (rule clean_ascii)

lemma foldName_lower:
  assumes "\<forall>c \<in> set s. byte c < 128 \<and> \<not> (65 \<le> byte c \<and> byte c \<le> 90)"
  shows "foldName s = s"
proof -
  have "runes s = map (\<lambda>c. ([c], True)) s"
    using assms by (induction s) (auto simp: Let_def runeLen.simps following_def inRanges_def)
  moreover have "concat (map (foldRune \<circ> fst) (map (\<lambda>c. ([c], True)) s)) = s"
    using assms by (induction s) (auto simp: foldRune_def)
  ultimately show ?thesis by (simp add: foldName_def)
qed

lemma foldName_fields:
  "foldName ''protocol_version'' = ''protocol_version''" "foldName ''kind'' = ''kind''"
  "foldName ''request_id'' = ''request_id''" "foldName ''sequence'' = ''sequence''" "foldName ''payload'' = ''payload''"
  by (rule foldName_lower; simp)+

lemma valid_ascii: "valid k \<Longrightarrow> \<forall>c \<in> set k. byte c < 128"
  unfolding valid_def by (auto simp: kind_defs)

lemma marshalPayload_writeJson: "marshalPayload v = writeJson v"
  by (simp add: marshalPayload_def TrimSuffix_def HasSuffix_def)

text \<open>The value that a record stands for.\<close>

definition envelopeMembers :: "Envelope \<Rightarrow> json \<Rightarrow> (string \<times> json) list" where
  "envelopeMembers e payload =
     [(''protocol_version'', JNumber (formatInt (ProtocolVersion e))), (''kind'', JString (Kind e))] @
     (case RequestID e of None \<Rightarrow> [] | Some r \<Rightarrow> [(''request_id'', JString r)]) @
     (case Sequence e of None \<Rightarrow> [] | Some n \<Rightarrow> [(''sequence'', JNumber (formatNat n))]) @
     [(''payload'', payload)]"

lemma encodeFields_members:
  assumes "Payload e = writeJson payload" "wfJson payload"
  shows "''{'' @ encodeFields e @ ''}'' = writeJson (JObject (envelopeMembers e payload))"
proof -
  have "writeJson payload \<noteq> []" using writeJson_head [OF assms(2)] by auto
  moreover have "compactJSON (writeJson payload) = writeJson payload"
    using compact_writeJson(1) [OF assms(2), of "[]"] by (simp add: compactJSON_def)
  ultimately show ?thesis using assms(1)
    by (simp add: encodeFields_def envelopeMembers_def split: option.splits)
qed

lemma wf_members:
  assumes "valid (Kind e)" "case RequestID e of None \<Rightarrow> True | Some r \<Rightarrow> utf8Valid r" "wfJson payload"
  shows "wfJson (JObject (envelopeMembers e payload))"
proof -
  have "utf8Valid (Kind e)" using utf8Valid_ascii valid_ascii [OF assms(1)] by blast
  moreover have "utf8Valid ''protocol_version''" "utf8Valid ''kind''" "utf8Valid ''request_id''" "utf8Valid ''sequence''"
    "utf8Valid ''payload''" by (rule utf8Valid_ascii; simp)+
  ultimately show ?thesis using assms(2,3)
    by (auto simp: envelopeMembers_def readNumber_formatInt readNumber_formatNat split: option.splits)
qed

lemma encode_record:
  assumes "Encode e = Inr line" "Payload e = writeJson payload" "wfJson payload"
    "case RequestID e of None \<Rightarrow> True | Some r \<Rightarrow> utf8Valid r"
  defines "tree \<equiv> JObject (envelopeMembers e payload)"
  shows "line = writeJson tree @ [CHR 0x0A]" "wfJson tree" "fits 1 tree" "\<not> hasUnpairedSurrogateEscape (writeJson tree)"
    "length (writeJson tree) \<le> MaxLineBytes" "validateEnvelope e = Inr ()"
proof -
  have v: "validateEnvelope e = Inr ()" using assms(1) by (auto simp: Encode_def onOk_Inr)
  then have "valid (Kind e)" by (auto simp: validateEnvelope_def onOk_Inr)
  then show wf: "wfJson tree" using wf_members assms(3,4) unfolding tree_def by blast
  obtain buf where o: "encodeEnvelope e = Some buf" using assms(1) by (auto simp: Encode_def onOk_Inr split: option.splits)
  then have "buf = (''{'' @ encodeFields e @ ''}'') @ [CHR 0x0A]" by (auto simp: encodeEnvelope_def split: if_splits)
  then have out: "buf = writeJson tree @ [CHR 0x0A]" unfolding encodeFields_members [OF assms(2,3)] tree_def .
  have "compactJSON buf = writeJson tree"
    unfolding out compactJSON_def compact_writeJson(1) [OF wf] by (simp add: isWs_def)
  then have rec: "escapeLineSeparators (compactJSON buf) = writeJson tree"
    using escapeLineSeparators_clean clean_writeJson(1) [OF wf] by simp
  from assms(1) have "validateJSONStructure (writeJson tree) = Inr ()" and l: "line = writeJson tree @ [CHR 0x0A]"
    "\<not> hasUnpairedSurrogateEscape (writeJson tree)" "length (writeJson tree) \<le> MaxLineBytes"
    by (auto simp: Encode_def onOk_Inr o rec Let_def)
  moreover have "scanned (fits 1 tree) tree [] (scanText (writeJson tree))"
    using scan_written(1) [OF wf stops_simps(4), of "scanFuel (writeJson tree)" 1] by (simp add: scanText_def scanFuel_def)
  ultimately show "fits 1 tree" by (cases "fits 1 tree") (auto simp: scanned_def validateJSONStructure_def)
  show "line = writeJson tree @ [CHR 0x0A]" "\<not> hasUnpairedSurrogateEscape (writeJson tree)"
    "length (writeJson tree) \<le> MaxLineBytes" "validateEnvelope e = Inr ()" by (fact l v)+
qed

lemma decodeFields_requestID:
  "decodeFields ms e = Some e' \<Longrightarrow> (\<forall>k t raw. (k, JString t, raw) \<in> set ms \<longrightarrow> utf8Valid t) \<Longrightarrow>
   (\<forall>r. RequestID e = Some r \<longrightarrow> utf8Valid r) \<Longrightarrow> RequestID e' = Some r \<Longrightarrow> utf8Valid r"
proof (induction ms arbitrary: e)
  case (Cons m ms)
  obtain e1 where e1: "decodeField m e = Some e1" "decodeFields ms e1 = Some e'" using Cons(2) by (auto split: option.splits)
  have "\<forall>r. RequestID e1 = Some r \<longrightarrow> utf8Valid r"
    using e1(1) Cons(3,4) by (auto simp: decodeField_def Let_def split: prod.splits if_splits json.splits)
  then show ?case using Cons(3,5) by (intro Cons(1) [OF e1(2)]) auto
qed simp

lemma decodeRecord_requestID:
  assumes "decodeRecord s = Inr e" "RequestID e = Some r"
  shows "utf8Valid r"
proof -
  obtain rest where d: "decodeEnvelope s = Inr (e, rest)" using assms(1) by (auto simp: decodeRecord_def onOk_Inr split: prod.splits)
  then have "decodeFields (rawObject s) zeroEnvelope = Some e \<or> e = zeroEnvelope"
    by (auto simp: decodeEnvelope_def split: option.splits json.splits)
  moreover have "(\<forall>r. RequestID zeroEnvelope = Some r \<longrightarrow> utf8Valid r)" by (simp add: zeroEnvelope_def)
  ultimately show ?thesis using decodeFields_requestID [of "rawObject s" zeroEnvelope e r] rawObject_strings assms(2) by blast
qed

lemma head_object: "scanValue st n d s = Value v x \<Longrightarrow> HasPrefix (skipWs s) ''{'' \<Longrightarrow> \<exists>ms. v = JObject ms"
proof -
  have mem: "scanMembers st n d acc s = Value v x \<Longrightarrow> \<exists>ms. v = JObject ms" for n acc s
    by (induction n arbitrary: acc s) (auto simp: scanMembers_Value simp del: scanMembers.simps(2) split: if_splits)
  assume "scanValue st n d s = Value v x" "HasPrefix (skipWs s) ''{''"
  then show ?thesis by (cases n) (auto simp: HasPrefix_def split: list.splits if_splits dest: mem)
qed

lemma validatePayload_object: "validatePayload e = Inr () \<Longrightarrow> valid (Kind e) \<Longrightarrow> \<exists>ms. Unmarshal (Payload e) = Some (JObject ms)"
proof -
  assume v: "validatePayload e = Inr ()" and k: "valid (Kind e)"
  have "\<exists>m. unmarshalObject (Payload e) = Some m"
  proof -
    have "\<exists>required. requireJSONFields (Payload e) ErrorInvalidPayload True required = Inr () \<or>
        DecodePayload decodeShutdown e = Inr ()"
      using v k
      by (auto simp: validatePayload_def onOk_Inr valid_def validateWorkerPayload_def validateControllerPayload_def
          validateHello_def validateRun_def validateLifecycle_def validateDiagnostic_def validateComplete_def
          decodeRequiredPayload_def isWorkerEvent_def split: if_splits)
    then show ?thesis by (auto simp: requireJSONFields_def DecodePayload_def split: option.splits)
  qed
  then obtain t where t: "Unmarshal (Payload e) = Some t" by (auto simp: unmarshalObject_def split: option.splits)
  then obtain rest where "scanValue False (scanFuel (Payload e)) 1 (Payload e) = Value t rest"
    by (auto simp: Unmarshal_def readValue_def split: option.splits scan.splits if_splits)
  moreover have "HasPrefix (skipWs (Payload e)) ''{''" using v by (auto simp: validatePayload_def onOk_Inr)
  ultimately show ?thesis using head_object t by blast
qed

lemma encode_succeeds:
  assumes "validateEnvelope e = Inr ()" "Payload e = writeJson payload" "wfJson payload"
    "case RequestID e of None \<Rightarrow> True | Some r \<Rightarrow> utf8Valid r"
  defines "tree \<equiv> JObject (envelopeMembers e payload)"
  assumes "fits 1 tree" "length (writeJson tree) \<le> MaxLineBytes"
  shows "Encode e = Inr (writeJson tree @ [CHR 0x0A])"
proof -
  have "valid (Kind e)" using assms(1) by (auto simp: validateEnvelope_def onOk_Inr)
  then have wf: "wfJson tree" using wf_members assms(3,4) unfolding tree_def by blast
  have "\<exists>ms. Unmarshal (Payload e) = Some ms"
    using assms(1) validatePayload_object [of e] by (auto simp: validateEnvelope_def onOk_Inr)
  then have "encodeEnvelope e = Some ((''{'' @ encodeFields e @ ''}'') @ [CHR 0x0A])" by (auto simp: encodeEnvelope_def)
  then have o: "encodeEnvelope e = Some (writeJson tree @ [CHR 0x0A])"
    unfolding encodeFields_members [OF assms(2,3)] tree_def .
  have "compactJSON (writeJson tree @ [CHR 0x0A]) = writeJson tree"
    unfolding compactJSON_def compact_writeJson(1) [OF wf] by (simp add: isWs_def)
  then have "escapeLineSeparators (compactJSON (writeJson tree @ [CHR 0x0A])) = writeJson tree"
    using escapeLineSeparators_clean clean_writeJson(1) [OF wf] by simp
  moreover have "validateJSONStructure (writeJson tree) = Inr ()"
    using readValue_written(2) [OF wf stops_simps(4) assms(6)] by (simp add: validateJSONStructure_def)
  ultimately show ?thesis using assms(1,7) no_surrogates_written [OF wf] o by (simp add: Encode_def Let_def)
qed

lemma decodeEnvelope_written:
  assumes "wfJson (JObject (envelopeMembers e payload))" "fits 1 (JObject (envelopeMembers e payload))"
    "Payload e = writeJson payload" "ProtocolVersion e = Version" "case Sequence e of None \<Rightarrow> True | Some n \<Rightarrow> n < 2 ^ 64"
  shows "decodeEnvelope (writeJson (JObject (envelopeMembers e payload))) = Inr (e, [])"
proof -
  define ms where "ms = envelopeMembers e payload"
  have "ms \<noteq> []" by (simp add: ms_def envelopeMembers_def)
  then have raw: "rawObject (writeJson (JObject ms)) = map (\<lambda>(k, v). (k, v, writeJson v)) ms"
    using rawObject_written [of ms "[]"] assms(1,2) by (simp add: ms_def)
  have val: "readValue (writeJson (JObject ms)) = Some (JObject ms, [])"
    using readValue_written(1) [of "JObject ms" "[]"] assms(1,2) stops_simps(4) by (simp add: ms_def)
  have "parseInt64 (formatInt (ProtocolVersion e)) = Some (ProtocolVersion e)"
    using assms(4) by (intro parseInt64_formatInt) (simp_all add: Version_def)
  moreover have "parseUint64 (formatNat n) = Some n" if "Sequence e = Some n" for n
    using assms(5) that by (simp add: parseUint64_formatNat)
  ultimately have "decodeFields (map (\<lambda>(k, v). (k, v, writeJson v)) ms) zeroEnvelope = Some e"
    using assms(3) unfolding ms_def envelopeMembers_def
    by (cases e) (auto simp: decodeField_def foldName_fields zeroEnvelope_def split: option.splits)
  then show ?thesis using raw val by (simp add: decodeEnvelope_def ms_def)
qed

lemma unmarshal_written:
  assumes "wfJson v" "fits 1 v"
  shows "Unmarshal (writeJson v) = Some v"
  using readValue_written(1) [OF assms(1) stops_simps(4) assms(2)] by (simp add: Unmarshal_def)

lemma decodeRecord_encoded:
  assumes "Encode e = Inr line" "Payload e = writeJson payload" "wfJson payload"
    "case RequestID e of None \<Rightarrow> True | Some r \<Rightarrow> utf8Valid r" "case Sequence e of None \<Rightarrow> True | Some n \<Rightarrow> n < 2 ^ 64"
  shows "decodeRecord (trimTerminator line) = Inr e"
proof -
  define tree where "tree = JObject (envelopeMembers e payload)"
  note enc = encode_record [OF assms(1-4), folded tree_def]
  have "trimTerminator line = writeJson tree"
    unfolding enc(1) by (auto simp: trimTerminator_def TrimSuffix_def HasSuffix_def tree_def)
  moreover have "ProtocolVersion e = Version" using enc(6) by (auto simp: validateEnvelope_def onOk_Inr)
  then have "decodeEnvelope (writeJson tree) = Inr (e, [])"
    using decodeEnvelope_written [of e payload] enc(2,3) assms(2,5) by (simp add: tree_def)
  moreover have "utf8Valid (writeJson tree)" using clean_valid clean_writeJson(1) [OF enc(2)] by blast
  moreover have "validateJSONStructure (writeJson tree) = Inr ()"
    using readValue_written(2) [OF enc(2) stops_simps(4) enc(3)] by (simp add: validateJSONStructure_def)
  moreover have u: "Unmarshal (writeJson tree) = Some tree" using unmarshal_written [OF enc(2,3)] .
  moreover have "validateEnvelopeFieldNames (writeJson tree) = Inr ()"
    using u by (auto simp: validateEnvelopeFieldNames_def tree_def envelopeMembers_def split: option.splits)
  moreover have "requireJSONFields (writeJson tree) ErrorInvalidEnvelope False [''protocol_version'', ''kind'', ''payload''] = Inr ()"
    "requireJSONFields (writeJson tree) ErrorInvalidEnvelope True [''protocol_version'', ''kind''] = Inr ()"
    using u by (auto simp: requireJSONFields_def unmarshalObject_def tree_def envelopeMembers_def split: option.splits)
  ultimately show ?thesis using enc(4-6) by (simp add: decodeRecord_def rejectTrailingJSON_def)
qed

lemma encoded_line_decodes:
  assumes "NewEnvelope kind requestID sequence payload = Inr e" "Encode e = Inr line"
    and "wfJson payload" "utf8Valid requestID" "sequence < 2 ^ 64"
    and "isWorkerEvent kind \<longrightarrow> lastSequence d < sequence"
  shows "DecodeLine line d = (Inr e, if isWorkerEvent kind then d\<lparr>lastSequence := sequence\<rparr> else d) \<and>
    (\<exists>record. line = record @ [CHR 0x0A] \<and> CHR 0x0A \<notin> set record \<and> length record \<le> MaxLineBytes)"
proof
  have e: "e = \<lparr>ProtocolVersion = Version, Kind = kind, RequestID = optionalString requestID,
      Sequence = optionalUint64 sequence, Payload = writeJson payload\<rparr>"
    using assms(1) by (auto simp: NewEnvelope_def Let_def onOk_Inr marshalPayload_writeJson)
  have p: "Payload e = writeJson payload" "case RequestID e of None \<Rightarrow> True | Some r \<Rightarrow> utf8Valid r"
    "case Sequence e of None \<Rightarrow> True | Some n \<Rightarrow> n < 2 ^ 64"
    using assms(4,5) by (auto simp: e optionalString_def optionalUint64_def)
  note enc = encode_record [OF assms(2) p(1) assms(3) p(2)]
  have "CHR 0x0A \<notin> set (writeJson (JObject (envelopeMembers e payload)))" using printable_writeJson(1) [OF enc(2), of "CHR 0x0A"] by auto
  then show "\<exists>record. line = record @ [CHR 0x0A] \<and> CHR 0x0A \<notin> set record \<and> length record \<le> MaxLineBytes"
    using enc(1,5) by blast
  have "isWorkerEvent kind \<Longrightarrow> Sequence e = Some sequence" using assms(6) by (auto simp: e optionalUint64_def)
  then show "DecodeLine line d = (Inr e, if isWorkerEvent kind then d\<lparr>lastSequence := sequence\<rparr> else d)"
    using decodeRecord_encoded [OF assms(2) p(1) assms(3) p(2,3)] assms(6) by (auto simp: DecodeLine_def Let_def e)
qed

text \<open>C16: what \<open>NewEnvelope\<close> builds and \<open>Encode\<close> writes, \<open>DecodeLine\<close> reads as exactly that envelope, payload text
  included, whenever its sequence follows the last one; the line has one newline, at its end, and stays within the
  limit.\<close>

theorem encode_decode_line:
  assumes "NewEnvelope kind requestID sequence payload = Inr e" "Encode e = Inr line"
    and "wfJson payload" "utf8Valid requestID" "sequence < 2 ^ 64"
    and "isWorkerEvent kind \<longrightarrow> lastSequence d < sequence"
  shows "DecodeLine line d = (Inr e, if isWorkerEvent kind then d\<lparr>lastSequence := sequence\<rparr> else d) \<and>
    (\<exists>record. line = record @ [CHR 0x0A] \<and> CHR 0x0A \<notin> set record \<and> length record \<le> MaxLineBytes)"
  by (rule encoded_line_decodes) (fact assms)+

lemma writeString_plain:
  assumes "\<forall>c \<in> set s. 32 \<le> byte c \<and> byte c < 128 \<and> c \<noteq> CHR 0x22 \<and> c \<noteq> CHR 0x5C"
  shows "writeString s = CHR 0x22 # s @ [CHR 0x22]"
proof -
  have "runes s = map (\<lambda>c. ([c], True)) s"
    using assms by (induction s) (auto simp: Let_def runeLen.simps following_def inRanges_def)
  moreover have "concat (map escapeRune (map (\<lambda>c. ([c], True)) s)) = s"
  proof -
    have one: "escapeRune ([c], True) = [c]" if "32 \<le> byte c" "c \<noteq> CHR 0x22" "c \<noteq> CHR 0x5C" for c
    proof -
      have "c \<notin> {CHR 0x08, CHR 0x0C, CHR 0x0A, CHR 0x0D, CHR 0x09}" using that(1) by auto
      then have "escapeByte c = [c]" using that by (simp add: escapeByte_def)
      then show ?thesis by (simp add: escapeRune_def lineSeparator_def paragraphSeparator_def)
    qed
    show ?thesis using assms by (induction s) (simp_all add: one)
  qed
  ultimately show ?thesis by (simp add: writeString_def)
qed

text \<open>The acknowledgement of a shutdown.\<close>

lemma validate_ack:
  "validateEnvelope \<lparr>ProtocolVersion = Version, Kind = KindShutdownAck, RequestID = None, Sequence = Some 4,
     Payload = writeJson (JObject [])\<rparr> = Inr ()"
proof -
  have "Unmarshal (writeJson (JObject [])) = Some (JObject [])"
    by (rule unmarshal_written) (simp_all add: MaxNestingDepth_def)
  then have "unmarshalObject (writeJson (JObject [])) = Some Map.empty" by (simp add: unmarshalObject_def)
  then show ?thesis
    by (simp add: validateEnvelope_def validateRouting_def validatePayload_def validateWorkerPayload_def valid_def
        runScoped_def isWorkerEvent_def DecodePayload_def decodeShutdown_def kind_defs HasPrefix_def isWs_def)
qed

lemma encode_ack:
  fixes e
  defines "e \<equiv> \<lparr>ProtocolVersion = Version, Kind = KindShutdownAck, RequestID = None, Sequence = Some 4,
     Payload = writeJson (JObject [])\<rparr>"
  shows "NewEnvelope KindShutdownAck [] 4 (JObject []) = Inr e"
    and "\<exists>line. Encode e = Inr line"
proof -
  show "NewEnvelope KindShutdownAck [] 4 (JObject []) = Inr e"
    using validate_ack by (simp add: NewEnvelope_def e_def optionalString_def optionalUint64_def marshalPayload_writeJson del: writeJson.simps)
  have "formatNat 4 = ''4''" "formatInt Version = ''1''" by (simp_all add: formatNat.simps formatInt_def Version_def char_of_def bit_iff_odd)
  then have "length (writeJson (JObject (envelopeMembers e (JObject [])))) \<le> 100"
    by (simp add: envelopeMembers_def e_def writeString_plain kind_defs)
  then show "\<exists>line. Encode e = Inr line"
    using encode_succeeds [of e "JObject []"] validate_ack
    by (auto simp: e_def MaxLineBytes_def MaxNestingDepth_def envelopeMembers_def simp del: writeJson.simps)
qed

theorem encode_decode_line_witness:
  "\<exists>e line. NewEnvelope KindShutdownAck [] 4 (JObject []) = Inr e \<and> Encode e = Inr line \<and>
     DecodeLine line \<lparr>lastSequence = 3\<rparr> = (Inr e, \<lparr>lastSequence = 4\<rparr>)"
proof -
  obtain e line where h: "NewEnvelope KindShutdownAck [] 4 (JObject []) = Inr e" "Encode e = Inr line" using encode_ack by blast
  moreover have "isWorkerEvent KindShutdownAck" by (simp add: isWorkerEvent_def)
  moreover have "utf8Valid []" by (simp add: utf8Valid_def)
  ultimately have "DecodeLine line \<lparr>lastSequence = 3\<rparr> = (Inr e, \<lparr>lastSequence = 4\<rparr>)"
    using encode_decode_line [OF h, of "\<lparr>lastSequence = 3\<rparr>"] by simp
  then show ?thesis using h by blast
qed

section \<open>What the decoder accepts\<close>

text \<open>The rules of the protocol, stated on their own.\<close>

definition wellFormed :: "Envelope \<Rightarrow> bool" where
  "wellFormed e \<longleftrightarrow>
     ProtocolVersion e = 1 \<and> valid (Kind e) \<and>
     (runScoped (Kind e) \<longrightarrow> (\<exists>r. RequestID e = Some r \<and> r \<noteq> [])) \<and>
     (\<not> runScoped (Kind e) \<and> Kind e \<noteq> KindError \<longrightarrow> RequestID e = None) \<and>
     (isWorkerEvent (Kind e) \<longrightarrow> (\<exists>n. Sequence e = Some n \<and> 0 < n \<and> n < 2 ^ 64)) \<and>
     (\<not> isWorkerEvent (Kind e) \<longrightarrow> Sequence e = None) \<and>
     (\<exists>ms. Unmarshal (Payload e) = Some (JObject ms))"

lemma decodeFields_sequence:
  "decodeFields ms e = Some e' \<Longrightarrow> (\<forall>n. Sequence e = Some n \<longrightarrow> n < 2 ^ 64) \<Longrightarrow> Sequence e' = Some n \<Longrightarrow> n < 2 ^ 64"
proof (induction ms arbitrary: e)
  case (Cons m ms)
  obtain e1 where e1: "decodeField m e = Some e1" "decodeFields ms e1 = Some e'" using Cons(2) by (auto split: option.splits)
  have "parseUint64 lit = Some n \<Longrightarrow> n < 2 ^ 64" for lit n by (auto simp: parseUint64_def split: option.splits if_splits)
  then have "\<forall>n. Sequence e1 = Some n \<longrightarrow> n < 2 ^ 64"
    using e1(1) Cons(3) by (auto simp: decodeField_def Let_def split: prod.splits if_splits json.splits)
  then show ?case using Cons(1) [OF e1(2)] Cons(4) by blast
qed simp

lemma decodeEnvelope_sequence: "decodeEnvelope s = Inr (e, rest) \<Longrightarrow> Sequence e = Some n \<Longrightarrow> n < 2 ^ 64"
  using decodeFields_sequence [of "rawObject s" zeroEnvelope e n]
  by (auto simp: decodeEnvelope_def zeroEnvelope_def split: option.splits json.splits)

lemma decodeRecord_wellFormed:
  assumes "decodeRecord s = Inr e"
  shows "wellFormed e"
proof -
  obtain rest where d: "decodeEnvelope s = Inr (e, rest)" and v: "validateEnvelope e = Inr ()"
    using assms by (auto simp: decodeRecord_def onOk_Inr split: prod.splits)
  have "\<And>n. Sequence e = Some n \<Longrightarrow> n < 2 ^ 64" using decodeEnvelope_sequence [OF d] .
  moreover have "\<exists>ms. Unmarshal (Payload e) = Some (JObject ms)"
    using v validatePayload_object [of e] by (auto simp: validateEnvelope_def onOk_Inr)
  ultimately show ?thesis using v
    by (auto simp: wellFormed_def validateEnvelope_def onOk_Inr validateRouting_def Version_def split: if_splits)
qed

text \<open>The calls of \<open>DecodeLine\<close> on the lines of a connection.\<close>

fun decodeLines :: "string list \<Rightarrow> Decoder \<Rightarrow> (ErrorClass + Envelope) list \<times> Decoder" where
  "decodeLines [] d = ([], d)"
| "decodeLines (line # rest) d =
     (let (r, d) = DecodeLine line d; (rs, d) = decodeLines rest d in (r # rs, d))"

definition accepted :: "(ErrorClass + Envelope) list \<Rightarrow> Envelope list" where
  "accepted rs = concat (map (case_sum (\<lambda>_. []) (\<lambda>e. [e])) rs)"

definition eventSequences :: "Envelope list \<Rightarrow> nat list" where
  "eventSequences es = map (the \<circ> Sequence) (filter (isWorkerEvent \<circ> Kind) es)"

lemma DecodeLine_cases:
  obtains c where "DecodeLine line d = (Inl c, d)"
  | e where "DecodeLine line d = (Inr e, d)" "wellFormed e" "\<not> isWorkerEvent (Kind e)"
  | e n where "DecodeLine line d = (Inr e, d\<lparr>lastSequence := n\<rparr>)" "wellFormed e" "isWorkerEvent (Kind e)"
      "Sequence e = Some n" "lastSequence d < n"
proof (cases "decodeRecord (trimTerminator line)")
  case (Inl c)
  then show ?thesis using that(1) by (simp add: DecodeLine_def)
next
  case (Inr e)
  then have w: "wellFormed e" using decodeRecord_wellFormed by blast
  show ?thesis
  proof (cases "isWorkerEvent (Kind e)")
    case True
    then obtain n where n: "Sequence e = Some n" using w by (auto simp: wellFormed_def)
    show ?thesis
    proof (cases "n \<le> lastSequence d")
      case True
      then show ?thesis using that(1) Inr n \<open>isWorkerEvent (Kind e)\<close> by (simp add: DecodeLine_def Let_def)
    next
      case False
      then show ?thesis using that(3) [of e n] Inr n w \<open>isWorkerEvent (Kind e)\<close> by (simp add: DecodeLine_def Let_def)
    qed
  next
    case False
    then show ?thesis using that(2) [of e] Inr w by (simp add: DecodeLine_def)
  qed
qed


end
