(* ===== verification/Lifecycle.thy ===== *)
theory Lifecycle
  imports Go_Prelude
begin

text \<open>
  The lifecycle recorder (\<open>pkg/lint/lifecycle/recorder.go\<close>): what a run reports about its phases, and the replacement
  of the report on disk. Methods of a nil recorder do nothing: a recorder is an option. Times and durations are
  nanoseconds, the clock is an argument; an error is its text. The report is a value: the copies that
  \<open>Snapshot\<close> and \<open>RecordAnalysis\<close> make of slices and pointers are equal to their originals.
\<close>

section \<open>Reports\<close>

record PackageLoad =
  plElapsedNS :: int
  OriginalPackages :: int
  DeduplicatedPkgs :: int
  plError :: string

record LinterRun =
  lrName :: string
  lrElapsedNS :: int
  lrIssues :: int
  lrError :: string

record ConfiguredLinterRun =
  clName :: string
  clElapsedNS :: int
  clActions :: int
  clIssues :: int
  clErrors :: int

record AnalyzerRun =
  azName :: string
  azLinter :: string
  azElapsedNS :: int
  azActions :: int
  ExecutedActions :: int
  Diagnostics :: int
  azErrors :: int

record SchedulerRun =
  RootActions :: int
  HorizontalEdges :: int
  VerticalEdges :: int
  SourceActions :: int
  SourceLoads :: int
  ExportLoads :: int
  PeakPackageWorkers :: int
  PeakActionGoroutines :: int
  PeakExecutingActions :: int
  PackageDependencyWaitNS :: int
  AnalyzerDependencyWaitNS :: int

record AnalysisRun =
  arName :: string
  arElapsedNS :: int
  RequestedPkgs :: int
  CachedPkgs :: int
  AnalyzedPkgs :: int
  InitialPkgs :: int
  TotalPkgs :: int
  arActions :: int
  Parallelism :: int
  arScheduler :: "SchedulerRun option"
  ConfiguredLinters :: "ConfiguredLinterRun list"
  Analyzers :: "AnalyzerRun list"
  arError :: string

record Processing =
  prElapsedNS :: int
  prInput :: int
  prOutput :: int

record Outcome =
  ocExitCode :: int
  ocError :: string
  ocContextError :: string

record Report =
  SchemaVersion :: int
  StartedAt :: int
  ElapsedNS :: int
  rpPackageLoad :: "PackageLoad option"
  rpLinters :: "LinterRun list"
  rpAnalysis :: "AnalysisRun list"
  rpProcessing :: "Processing option"
  rpOutcome :: "Outcome option"

definition emptyReport :: Report where
  "emptyReport = \<lparr>SchemaVersion = 0, StartedAt = 0, ElapsedNS = 0, rpPackageLoad = None, rpLinters = [], rpAnalysis = [],
     rpProcessing = None, rpOutcome = None\<rparr>"

record Recorder =
  started :: int
  report :: Report

definition NewRecorder :: "int \<Rightarrow> Recorder" where
  "NewRecorder now = \<lparr>started = now,
     report = emptyReport\<lparr>SchemaVersion := 1, StartedAt := now, rpLinters := [], rpAnalysis := []\<rparr>\<rparr>"

definition errorString :: "string option \<Rightarrow> string" where
  "errorString err = (case err of None \<Rightarrow> [] | Some e \<Rightarrow> e)"

definition RecordPackageLoad :: "int \<Rightarrow> int \<Rightarrow> int \<Rightarrow> string option \<Rightarrow> Recorder option \<Rightarrow> Recorder option" where
  "RecordPackageLoad elapsed original deduplicated err r = map_option (\<lambda>r. r\<lparr>report := (report r)\<lparr>rpPackageLoad :=
     Some \<lparr>plElapsedNS = elapsed, OriginalPackages = original, DeduplicatedPkgs = deduplicated, plError = errorString err\<rparr>\<rparr>\<rparr>) r"

definition RecordLinter :: "string \<Rightarrow> int \<Rightarrow> int \<Rightarrow> string option \<Rightarrow> Recorder option \<Rightarrow> Recorder option" where
  "RecordLinter name elapsed issues err r = map_option (\<lambda>r. r\<lparr>report := (report r)\<lparr>rpLinters :=
     rpLinters (report r) @ [\<lparr>lrName = name, lrElapsedNS = elapsed, lrIssues = issues, lrError = errorString err\<rparr>]\<rparr>\<rparr>) r"

definition RecordAnalysis :: "AnalysisRun option \<Rightarrow> Recorder option \<Rightarrow> Recorder option" where
  "RecordAnalysis run r = (case run of
       None \<Rightarrow> r
     | Some v \<Rightarrow> map_option (\<lambda>r. r\<lparr>report := (report r)\<lparr>rpAnalysis := rpAnalysis (report r) @ [v]\<rparr>\<rparr>) r)"

definition RecordProcessing :: "int \<Rightarrow> int \<Rightarrow> int \<Rightarrow> Recorder option \<Rightarrow> Recorder option" where
  "RecordProcessing elapsed input output r = map_option (\<lambda>r. r\<lparr>report := (report r)\<lparr>rpProcessing :=
     Some \<lparr>prElapsedNS = elapsed, prInput = input, prOutput = output\<rparr>\<rparr>\<rparr>) r"

definition Finish :: "int \<Rightarrow> int \<Rightarrow> string option \<Rightarrow> string option \<Rightarrow> Recorder option \<Rightarrow> Recorder option" where
  "Finish now exitCode runErr contextErr r = map_option (\<lambda>r. r\<lparr>report := (report r)\<lparr>ElapsedNS := now - started r,
     rpOutcome := Some \<lparr>ocExitCode = exitCode, ocError = errorString runErr, ocContextError = errorString contextErr\<rparr>\<rparr>\<rparr>) r"

definition Snapshot :: "Recorder option \<Rightarrow> Report" where
  "Snapshot r = (case r of None \<Rightarrow> emptyReport | Some r \<Rightarrow> report r)"

section \<open>Writing the report\<close>

text \<open>The file system as contents by path; what the operating system answers to the calls of \<open>Write\<close>: the name
  that \<open>CreateTemp\<close> picks, how many bytes a failing write leaves, and errors.\<close>

type_synonym files = "string \<rightharpoonup> string"

record Answers =
  createTemp :: "string + string"
  writeFault :: "(nat \<times> string) option"
  closeFault :: "string option"
  renameFault :: "string option"
  removeFault :: "string option"

datatype writeError = MarshalReport string | CreateTemporary string | WriteTemporary string | CloseTemporary string | ReplaceReport string

definition removeTemp :: "Answers \<Rightarrow> string \<Rightarrow> files \<Rightarrow> files" where
  "removeTemp os temp fs = (case removeFault os of None \<Rightarrow> fs(temp := None) | Some _ \<Rightarrow> fs)"

text \<open>The calls after the temporary file exists, in order.\<close>

definition fillAndReplace :: "Answers \<Rightarrow> string \<Rightarrow> string \<Rightarrow> string \<Rightarrow> files \<Rightarrow> writeError option \<times> files" where
  "fillAndReplace os temp path data fs = (case writeFault os of
       Some (n, e) \<Rightarrow> (Some (WriteTemporary e), fs(temp \<mapsto> take n data))
     | None \<Rightarrow>
         (let fs = fs(temp \<mapsto> data) in
          case closeFault os of
            Some e \<Rightarrow> (Some (CloseTemporary e), fs)
          | None \<Rightarrow>
              (case renameFault os of
                 Some e \<Rightarrow> (Some (ReplaceReport e), fs)
               | None \<Rightarrow> (None, fs(path \<mapsto> data, temp := None)))))"

definition Write :: "(Report \<Rightarrow> string + string) \<Rightarrow> Answers \<Rightarrow> string \<Rightarrow> Recorder option \<Rightarrow> files \<Rightarrow> writeError option \<times> files" where
  "Write marshal os path r fs =
     (if r = None \<or> path = [] then (None, fs)
      else case marshal (Snapshot r) of
        Inl e \<Rightarrow> (Some (MarshalReport e), fs)
      | Inr data \<Rightarrow>
          (case createTemp os of
             Inl e \<Rightarrow> (Some (CreateTemporary e), fs)
           | Inr temp \<Rightarrow>
               (let (err, fs) = fillAndReplace os temp path (data @ [CHR 0x0A]) (fs(temp \<mapsto> [])) in
                (err, removeTemp os temp fs))))"

section \<open>Properties\<close>

text \<open>the report on disk is replaced as a whole or not at all: after a success the path holds the complete report
  and nothing else changed; after any failure every other file, the old report included, is as before, and if the
  temporary file could be removed, the file system is exactly as before.\<close>

theorem write_replaces_atomically:
  assumes "path \<noteq> []" "\<And>temp. createTemp os = Inr temp \<Longrightarrow> fs temp = None \<and> temp \<noteq> path"
  shows "case Write marshal os path (Some r) fs of
      (None, fs') \<Rightarrow> (\<exists>data. marshal (report r) = Inr data \<and> fs' = fs(path \<mapsto> data @ [CHR 0x0A]))
    | (Some _, fs') \<Rightarrow> (\<forall>p. createTemp os \<noteq> Inr p \<longrightarrow> fs' p = fs p) \<and> (removeFault os = None \<longrightarrow> fs' = fs)"
  using assms
  by (auto simp: Write_def Snapshot_def fillAndReplace_def removeTemp_def Let_def fun_eq_iff
      split: sum.splits option.splits)

theorem write_replaces_atomically_witness:
  "case Write (\<lambda>r. Inr ''{}'') \<lparr>createTemp = Inr ''tmp'', writeFault = None, closeFault = None, renameFault = Some ''exdev'',
         removeFault = None\<rparr> ''report'' (Some (NewRecorder 0)) [''report'' \<mapsto> ''old''] of
      (None, fs') \<Rightarrow> False
    | (Some e, fs') \<Rightarrow> e = ReplaceReport ''exdev'' \<and> fs' = [''report'' \<mapsto> ''old'']"
proof -
  let ?os = "\<lparr>createTemp = Inr ''tmp'', writeFault = None, closeFault = None, renameFault = Some ''exdev'', removeFault = None\<rparr>"
  have "fst (Write (\<lambda>r. Inr ''{}'') ?os ''report'' (Some (NewRecorder 0)) [''report'' \<mapsto> ''old'']) = Some (ReplaceReport ''exdev'')"
    by (simp add: Write_def fillAndReplace_def removeTemp_def Let_def)
  then show ?thesis
    using write_replaces_atomically [of "''report''" ?os "[''report'' \<mapsto> ''old'']" "\<lambda>r. Inr ''{}''" "NewRecorder 0"]
    by (auto split: prod.splits option.splits)
qed

end
