(* ===== verification/Worker.thy ===== *)
theory Worker
  imports Worker_Protocol Lifecycle
begin

text \<open>
  The worker side of the protocol (\<open>pkg/commands/worker.go\<close>): reading lines of bounded length, the session of one run,
  the state of the process while a run executes, and the race between a command that returns and one that
  exits the process.

  The connection is what the peer sends and how the stream ends, what was written, and what the calls of the
  operating system answer. The command itself is a parameter.
\<close>

section \<open>Reading lines\<close>

definition workerReadBuffer :: nat where "workerReadBuffer = 4 * 1024"

datatype streamEnd = Eof | ReadFault string

record Conn =
  inbox :: string
  inEnd :: streamEnd
  outbox :: string
  deadlineFaults :: "string option list"
  writeFaults :: "(nat \<times> string) option list"

datatype sliceResult = SliceOk | SliceFull | SliceEnd streamEnd

text \<open>\<open>bufio.Reader.ReadSlice\<close> for a newline: the text up to it, or a full buffer, or what is left with the error. The
  buffer of \<open>bufio.NewReader\<close> has 4096 bytes.\<close>

definition bufferSize :: nat where "bufferSize = 4096"

definition ReadSlice :: "string \<Rightarrow> streamEnd \<Rightarrow> string \<times> sliceResult \<times> string" where
  "ReadSlice s end =
     (case Index (take bufferSize s) [CHR 0x0A] of
        Some i \<Rightarrow> (take (i + 1) s, SliceOk, drop (i + 1) s)
      | None \<Rightarrow>
          if length s \<ge> bufferSize then (take bufferSize s, SliceFull, drop bufferSize s)
          else (s, SliceEnd end, []))"

datatype workerError =
    ExceedsLimit
  | NotTerminated
  | ReadMessage streamEnd
  | DecodeMessage ErrorClass
  | BuildMessage ErrorClass
  | EncodeMessage ErrorClass
  | WriteMessage string
  | SetDeadline string
  | UnexpectedKind string
  | PayloadError ErrorClass
  | NoLifecycle
  | RunError string

function readWorkerLineFrom :: "string \<Rightarrow> string \<Rightarrow> streamEnd \<Rightarrow> (workerError + string) \<times> string" where
  "readWorkerLineFrom line s end =
     (case ReadSlice s end of (fragment, r, rest) \<Rightarrow>
        if length line + length fragment > MaxLineBytes + 2 then (Inl ExceedsLimit, rest)
        else (case r of
                SliceOk \<Rightarrow> (Inr (line @ fragment), rest)
              | SliceFull \<Rightarrow> readWorkerLineFrom (line @ fragment) rest end
              | SliceEnd err \<Rightarrow>
                  if err = Eof \<and> line @ fragment \<noteq> [] then (Inl NotTerminated, rest) else (Inl (ReadMessage err), rest)))"
  by pat_completeness auto
termination
  by (relation "measure (\<lambda>(_, s, _). length s)") (auto simp: ReadSlice_def bufferSize_def split: option.splits if_splits)

definition readWorkerLine :: "Conn \<Rightarrow> (workerError + string) \<times> Conn" where
  "readWorkerLine c = (case readWorkerLineFrom [] (inbox c) (inEnd c) of (r, rest) \<Rightarrow> (r, c\<lparr>inbox := rest\<rparr>))"

section \<open>The session\<close>

record Session =
  conn :: Conn
  decoder :: Decoder

type_synonym 'a step = "Session \<Rightarrow> (workerError + 'a) \<times> Session"

text \<open>One step after another; the first error ends the session.\<close>

definition andThen :: "'a step \<Rightarrow> ('a \<Rightarrow> 'b step) \<Rightarrow> 'b step" where
  "andThen m f s = (case m s of (Inl e, s) \<Rightarrow> (Inl e, s) | (Inr x, s) \<Rightarrow> f x s)"

definition fail :: "workerError \<Rightarrow> 'a step" where
  "fail e s = (Inl e, s)"

definition done_ok :: "'a \<Rightarrow> 'a step" where
  "done_ok x s = (Inr x, s)"

definition readWorkerEnvelope :: "Envelope step" where
  "readWorkerEnvelope s = (case readWorkerLine (conn s) of
       (Inl e, c) \<Rightarrow> (Inl e, s\<lparr>conn := c\<rparr>)
     | (Inr line, c) \<Rightarrow>
         (case DecodeLine line (decoder s) of
            (Inl cls, d) \<Rightarrow> (Inl (DecodeMessage cls), s\<lparr>conn := c, decoder := d\<rparr>)
          | (Inr e, d) \<Rightarrow> (Inr e, s\<lparr>conn := c, decoder := d\<rparr>)))"

text \<open>\<open>io.Copy\<close> to the connection: all of the record, or a part of it and an error.\<close>

definition copyTo :: "string \<Rightarrow> unit step" where
  "copyTo record s =
     (let c = conn s in
      case writeFaults c of
        Some (n, e) # fs \<Rightarrow> (Inl (WriteMessage e), s\<lparr>conn := c\<lparr>outbox := outbox c @ take n record, writeFaults := fs\<rparr>\<rparr>)
      | _ \<Rightarrow> (Inr (), s\<lparr>conn := c\<lparr>outbox := outbox c @ record, writeFaults := tl (writeFaults c)\<rparr>\<rparr>))"

definition writeWorkerEnvelope :: "string \<Rightarrow> string \<Rightarrow> nat \<Rightarrow> json \<Rightarrow> unit step" where
  "writeWorkerEnvelope kind requestID sequence payload s = (case NewEnvelope kind requestID sequence payload of
       Inl cls \<Rightarrow> (Inl (BuildMessage cls), s)
     | Inr envelope \<Rightarrow>
         (case Encode envelope of
            Inl cls \<Rightarrow> (Inl (EncodeMessage cls), s)
          | Inr record \<Rightarrow> copyTo record s))"

definition setDeadline :: "unit step" where
  "setDeadline s =
     (let c = conn s; s = s\<lparr>conn := c\<lparr>deadlineFaults := tl (deadlineFaults c)\<rparr>\<rparr> in
      case deadlineFaults c of Some e # _ \<Rightarrow> (Inl (SetDeadline e), s) | _ \<Rightarrow> (Inr (), s))"

definition hasWorkerCapability :: "string list \<Rightarrow> string \<Rightarrow> bool" where
  "hasWorkerCapability capabilities expected \<longleftrightarrow> list_ex (\<lambda>c. c = expected) capabilities"

text \<open>What the JSON encoder writes for the payloads of the worker: fields in their order, empty optional ones left out,
  the names of metrics sorted.\<close>

definition jsonInt :: "int \<Rightarrow> json" where
  "jsonInt i = JNumber (formatInt i)"

definition omitEmpty :: "string \<Rightarrow> string \<Rightarrow> (string \<times> json) list" where
  "omitEmpty name v = (if v = [] then [] else [(name, JString v)])"

definition workerReadyPayload :: "string \<Rightarrow> json" where
  "workerReadyPayload token = JObject
     [(''worker'', JString ''golangci-lint''), (''capabilities'', JArray [JString ''lifecycle'']), (''auth_token'', JString token)]"

definition lifecyclePayload :: "string \<Rightarrow> int \<Rightarrow> (string \<times> int) list \<Rightarrow> string \<Rightarrow> json" where
  "lifecyclePayload state elapsed metrics err = JObject
     ([(''phase'', JString ''analysis''), (''state'', JString state), (''elapsed_ns'', jsonInt elapsed),
       (''metrics'', JObject (map (map_prod id jsonInt) metrics))] @ omitEmpty ''error'' err)"

definition completePayload :: "CompletePayload \<Rightarrow> json" where
  "completePayload p = JObject
     ([(''exit_code'', jsonInt (ExitCode p)), (''issues'', jsonInt (Issues p)), (''elapsed_ns'', jsonInt (completeElapsedNS p))] @
      omitEmpty ''context_error'' (ContextError p))"

definition workerIssueCount :: "Report \<Rightarrow> int" where
  "workerIssueCount r = (case rpProcessing r of None \<Rightarrow> 0 | Some p \<Rightarrow> prOutput p)"

definition workerContextError :: "Report \<Rightarrow> string option \<Rightarrow> string" where
  "workerContextError r runErr =
     (case rpOutcome r of
        Some outcome \<Rightarrow>
          if ocContextError outcome \<noteq> [] then ocContextError outcome
          else if ocError outcome \<noteq> [] then ocError outcome
          else errorString runErr
      | None \<Rightarrow> errorString runErr)"

definition workerMetrics :: "Report \<Rightarrow> (string \<times> int) list" where
  "workerMetrics r =
     [(''analyses'', int (length (rpAnalysis r))), (''issues'', workerIssueCount r), (''linters'', int (length (rpLinters r)))] @
     (case rpPackageLoad r of None \<Rightarrow> [] | Some p \<Rightarrow> [(''packages'', DeduplicatedPkgs p)])"

definition writeWorkerLifecycle :: "string \<Rightarrow> nat \<Rightarrow> Report \<Rightarrow> unit step" where
  "writeWorkerLifecycle requestID sequence r =
     (let contextError = workerContextError r None;
          state = (if contextError \<noteq> [] then ''failed'' else ''completed'') in
      writeWorkerEnvelope KindLifecycle requestID sequence (lifecyclePayload state (ElapsedNS r) (workerMetrics r) contextError))"

definition negotiateWorkerRun :: "string \<Rightarrow> (RunPayload \<times> string) step" where
  "negotiateWorkerRun token =
     andThen setDeadline (\<lambda>_.
     andThen readWorkerEnvelope (\<lambda>hello.
     if Kind hello \<noteq> KindHello then fail (UnexpectedKind (Kind hello))
     else case DecodePayload decodeHello hello of
       Inl cls \<Rightarrow> fail (PayloadError cls)
     | Inr helloPayload \<Rightarrow>
         if \<not> hasWorkerCapability (helloCapabilities helloPayload) ''lifecycle'' then fail NoLifecycle
         else
           andThen (writeWorkerEnvelope KindReady [] 1 (workerReadyPayload token)) (\<lambda>_.
           andThen readWorkerEnvelope (\<lambda>runEnvelope.
           if Kind runEnvelope \<noteq> KindRun then fail (UnexpectedKind (Kind runEnvelope))
           else case DecodePayload decodeRun runEnvelope of
             Inl cls \<Rightarrow> fail (PayloadError cls)
           | Inr run \<Rightarrow>
               andThen setDeadline (\<lambda>_.
               done_ok (run, the (RequestID runEnvelope)))))))"

text \<open>The session up to its result: the exit code with the error of the run, or the error that ended the session.\<close>

definition serveSession ::
  "string \<Rightarrow> (RunPayload \<Rightarrow> Report \<times> int \<times> string option) \<Rightarrow> (int \<times> string option) step" where
  "serveSession token execute =
     andThen (negotiateWorkerRun token) (\<lambda>(run, requestID).
     let (r, exitCode, runErr) = execute run in
     andThen (writeWorkerLifecycle requestID 2 r) (\<lambda>_.
     andThen (writeWorkerEnvelope KindComplete requestID 3
        (completePayload \<lparr>ExitCode = exitCode, Issues = workerIssueCount r, completeElapsedNS = ElapsedNS r,
           ContextError = workerContextError r runErr\<rparr>)) (\<lambda>_.
     andThen setDeadline (\<lambda>_.
     andThen readWorkerEnvelope (\<lambda>shutdown.
     if Kind shutdown \<noteq> KindShutdown then fail (UnexpectedKind (Kind shutdown))
     else andThen (writeWorkerEnvelope KindShutdownAck [] 4 (JObject [])) (\<lambda>_.
       done_ok (exitCode, runErr)))))))"

definition Failure :: int where "Failure = 3"

definition serveWorker ::
  "string \<Rightarrow> (RunPayload \<Rightarrow> Report \<times> int \<times> string option) \<Rightarrow> Session \<Rightarrow> (int \<times> workerError option) \<times> Session" where
  "serveWorker token execute s = (case serveSession token execute s of
       (Inl e, s) \<Rightarrow> ((Failure, Some e), s)
     | (Inr (exitCode, runErr), s) \<Rightarrow> ((exitCode, map_option RunError runErr), s))"

section \<open>Lines are read as a whole\<close>

lemma Index_single: "Index s [c] = (if c \<in> set s then Some (length (takeWhile (\<lambda>x. x \<noteq> c) s)) else None)"
  by (induction s) (auto simp: HasPrefix_def)

lemma Index_single_append:
  "Index (a @ b) [c] = (case Index a [c] of Some i \<Rightarrow> Some i | None \<Rightarrow> map_option (\<lambda>i. length a + i) (Index b [c]))"
  by (cases "Index b [c]"; induction a) (auto simp: HasPrefix_def split: option.splits)

lemma Index_single_bound: "Index s [c] = Some i \<Longrightarrow> i < length s"
  by (induction s arbitrary: i) (auto split: if_splits)

text \<open>Reading a line in one go, with its limit.\<close>

definition wholeLine :: "nat \<Rightarrow> string \<Rightarrow> streamEnd \<Rightarrow> workerError + nat" where
  "wholeLine seen s end = (case Index s [CHR 0x0A] of
       Some i \<Rightarrow> if seen + i + 1 \<le> MaxLineBytes + 2 then Inr (i + 1) else Inl ExceedsLimit
     | None \<Rightarrow>
         if seen + length s > MaxLineBytes + 2 then Inl ExceedsLimit
         else if end = Eof \<and> seen + length s \<noteq> 0 then Inl NotTerminated
         else Inl (ReadMessage end))"

declare readWorkerLineFrom.simps [simp del]

lemma readWorkerLineFrom_whole:
  "(case wholeLine (length line) s end of
      Inl e \<Rightarrow> fst (readWorkerLineFrom line s end) = Inl e
    | Inr n \<Rightarrow> readWorkerLineFrom line s end = (Inr (line @ take n s), drop n s))"
proof (induction line s "end" rule: readWorkerLineFrom.induct)
  case (1 line s "end")
  let ?b = "take bufferSize s"
  have ix: "Index s [CHR 0x0A] = (case Index ?b [CHR 0x0A] of Some i \<Rightarrow> Some i
      | None \<Rightarrow> map_option (\<lambda>i. length ?b + i) (Index (drop bufferSize s) [CHR 0x0A]))"
    using Index_single_append [of ?b "drop bufferSize s" "CHR 0x0A"] by simp
  show ?case
  proof (cases "Index ?b [CHR 0x0A]")
    case (Some i)
    then have "i < length s" using Index_single_bound [of ?b "CHR 0x0A" i] by simp
    then have "length (take (i + 1) s) = i + 1" by simp
    then show ?thesis using Some ix unfolding readWorkerLineFrom.simps [of line s "end"]
      by (simp add: ReadSlice_def wholeLine_def)
  next
    case None
    show ?thesis
    proof (cases "bufferSize \<le> length s")
      case True
      then have sl: "ReadSlice s end = (?b, SliceFull, drop bufferSize s)" using None by (simp add: ReadSlice_def)
      have len: "length ?b = bufferSize" using True by simp
      have big: "0 < bufferSize" by (simp add: bufferSize_def)
      show ?thesis
      proof (cases "length line + bufferSize > MaxLineBytes + 2")
        case over: True
        then have "wholeLine (length line) s end = Inl ExceedsLimit"
          using ix None len True by (auto simp: wholeLine_def split: option.splits)
        moreover have "fst (readWorkerLineFrom line s end) = Inl ExceedsLimit"
          using over sl len by (subst readWorkerLineFrom.simps) simp
        ultimately show ?thesis by simp
      next
        case False
        have rec: "readWorkerLineFrom line s end = readWorkerLineFrom (line @ ?b) (drop bufferSize s) end"
          using False sl len by (subst readWorkerLineFrom.simps) simp
        have "wholeLine (length line) s end = map_sum id (\<lambda>n. bufferSize + n) (wholeLine (length (line @ ?b)) (drop bufferSize s) end)"
          using ix None len True big by (auto simp: wholeLine_def split: option.splits)
        moreover have "drop n (drop bufferSize s) = drop (bufferSize + n) s" for n by (simp add: add.commute)
        ultimately show ?thesis using 1 [OF sl [symmetric] refl _ refl] False len rec
          by (auto simp: map_sum_def take_add simp del: drop_drop split: sum.splits)
      qed
    next
      case False
      then have "Index s [CHR 0x0A] = None" using None by simp
      moreover have "ReadSlice s end = (s, SliceEnd end, [])" using False None by (simp add: ReadSlice_def)
      ultimately show ?thesis unfolding readWorkerLineFrom.simps [of line s "end"] by (auto simp: wholeLine_def)
    qed
  qed
qed

text \<open>reading a line through a buffer of 4096 bytes returns what reading it in one go would: the bytes up to and including the
  first newline, the rest stays; a line of more than the limit is refused, as is one without a newline.\<close>

theorem line_reading_whole:
  "readWorkerLine c = (case Index (inbox c) [CHR 0x0A] of
       Some i \<Rightarrow>
         if i + 1 \<le> MaxLineBytes + 2 then (Inr (take (i + 1) (inbox c)), c\<lparr>inbox := drop (i + 1) (inbox c)\<rparr>)
         else (Inl ExceedsLimit, snd (readWorkerLine c))
     | None \<Rightarrow>
         (Inl (if length (inbox c) > MaxLineBytes + 2 then ExceedsLimit
               else if inEnd c = Eof \<and> inbox c \<noteq> [] then NotTerminated
               else ReadMessage (inEnd c)), snd (readWorkerLine c)))"
proof -
  obtain r rest where r: "readWorkerLineFrom [] (inbox c) (inEnd c) = (r, rest)" by fastforce
  show ?thesis
    using readWorkerLineFrom_whole [of "[]" "inbox c" "inEnd c"] r
    by (auto simp: readWorkerLine_def wholeLine_def split: option.splits if_splits)
qed

section \<open>A logic for sessions\<close>

text \<open>From \<open>P\<close> a step ends in \<open>Q\<close> with its result, or in \<open>E\<close> with an error.\<close>

definition triple :: "(Session \<Rightarrow> bool) \<Rightarrow> 'a step \<Rightarrow> ('a \<Rightarrow> Session \<Rightarrow> bool) \<Rightarrow> (Session \<Rightarrow> bool) \<Rightarrow> bool" where
  "triple P m Q E \<longleftrightarrow> (\<forall>s. P s \<longrightarrow> (case m s of (Inl _, s') \<Rightarrow> E s' | (Inr x, s') \<Rightarrow> Q x s'))"

lemma tripleD: "triple P m Q E \<Longrightarrow> P s \<Longrightarrow> case m s of (Inl _, s') \<Rightarrow> E s' | (Inr x, s') \<Rightarrow> Q x s'"
  by (simp add: triple_def)

lemma triple_andThen: "triple P m Q E \<Longrightarrow> (\<And>x. triple (Q x) (f x) R E) \<Longrightarrow> triple P (andThen m f) R E"
  unfolding triple_def andThen_def by (fastforce split: prod.splits sum.splits)

lemma triple_fail: "(\<And>s. P s \<Longrightarrow> E s) \<Longrightarrow> triple P (fail e) Q E"
  by (simp add: triple_def fail_def)

lemma triple_done: "(\<And>s. P s \<Longrightarrow> Q x s) \<Longrightarrow> triple P (done_ok x) Q E"
  by (simp add: triple_def done_ok_def)

lemma triple_if: "(b \<Longrightarrow> triple P m Q E) \<Longrightarrow> (\<not> b \<Longrightarrow> triple P m' Q E) \<Longrightarrow> triple P (if b then m else m') Q E"
  by simp

lemma triple_sum:
  "(\<And>a. x = Inl a \<Longrightarrow> triple P (f a) Q E) \<Longrightarrow> (\<And>b. x = Inr b \<Longrightarrow> triple P (g b) Q E) \<Longrightarrow>
   triple P (case x of Inl a \<Rightarrow> f a | Inr b \<Rightarrow> g b) Q E"
  by (cases x) auto

lemma triple_pre: "(\<And>s. P s \<Longrightarrow> P' s) \<Longrightarrow> triple P' m Q E \<Longrightarrow> triple P m Q E"
  by (simp add: triple_def)

lemma triple_pure: "(b \<Longrightarrow> triple P m Q E) \<Longrightarrow> triple (\<lambda>s. P s \<and> b) m Q E"
  by (auto simp: triple_def)

section \<open>What the worker says\<close>

text \<open>The output so far is a sequence of lines that a decoder of the protocol accepts, with these kinds.\<close>

definition spoke :: "string list \<Rightarrow> Session \<Rightarrow> bool" where
  "spoke kinds s \<longleftrightarrow> (\<exists>lines es. outbox (conn s) = concat lines \<and>
     list_all (\<lambda>l. \<exists>r. l = r @ [CHR 0x0A] \<and> CHR 0x0A \<notin> set r) lines \<and>
     decodeLines lines \<lparr>lastSequence = 0\<rparr> = (map Inr es, \<lparr>lastSequence = length kinds\<rparr>) \<and> map Kind es = kinds)"

lemma decodeLines_append:
  "decodeLines (a @ b) d = (let (rs, d) = decodeLines a d; (rs', d) = decodeLines b d in (rs @ rs', d))"
  by (induction a arbitrary: d) (auto simp: Let_def split: prod.splits)

lemma spoke_next:
  assumes "spoke kinds s" "NewEnvelope kind requestID (length kinds + 1) payload = Inr e" "Encode e = Inr line"
    and "wfJson payload" "utf8Valid requestID" "length kinds + 1 < 2 ^ 64" "isWorkerEvent kind"
    and "outbox (conn s') = outbox (conn s) @ line"
  shows "spoke (kinds @ [kind]) s'"
proof -
  obtain lines es where h: "outbox (conn s) = concat lines" "list_all (\<lambda>l. \<exists>r. l = r @ [CHR 0x0A] \<and> CHR 0x0A \<notin> set r) lines"
    "decodeLines lines \<lparr>lastSequence = 0\<rparr> = (map Inr es, \<lparr>lastSequence = length kinds\<rparr>)" "map Kind es = kinds"
    using assms(1) unfolding spoke_def by blast
  note ed = encoded_line_decodes [OF assms(2-6), of "\<lparr>lastSequence = length kinds\<rparr>"]
  have "Kind e = kind" using assms(2) by (auto simp: NewEnvelope_def Let_def onOk_Inr)
  moreover have "decodeLines (lines @ [line]) \<lparr>lastSequence = 0\<rparr> = (map Inr (es @ [e]), \<lparr>lastSequence = length (kinds @ [kind])\<rparr>)"
    using ed assms(7) h(3) by (simp add: decodeLines_append)
  moreover have "\<exists>r. line = r @ [CHR 0x0A] \<and> CHR 0x0A \<notin> set r" using ed assms(7) by auto
  ultimately show ?thesis unfolding spoke_def using h assms(8)
    by (intro exI [of _ "lines @ [line]"] exI [of _ "es @ [e]"]) auto
qed

definition sessionKinds :: "string list" where
  "sessionKinds = [KindReady, KindLifecycle, KindComplete, KindShutdownAck]"

definition said :: "nat \<Rightarrow> Session \<Rightarrow> bool" where
  "said n s \<longleftrightarrow> spoke (take n sessionKinds) s \<and> writeFaults (conn s) = []"

definition saidSome :: "Session \<Rightarrow> bool" where
  "saidSome s \<longleftrightarrow> (\<exists>n \<le> 4. said n s)"

lemma said_some: "n \<le> 4 \<Longrightarrow> said n s \<Longrightarrow> saidSome s"
  by (auto simp: saidSome_def)

lemma triple_write:
  assumes "n < 4" "kind = sessionKinds ! n" "wfJson payload" "utf8Valid requestID"
  shows "triple (said n) (writeWorkerEnvelope kind requestID (n + 1) payload) (\<lambda>_. said (n + 1)) saidSome"
proof -
  have k: "length (take n sessionKinds) = n" "take (n + 1) sessionKinds = take n sessionKinds @ [kind]"
    using assms(1,2) take_Suc_conv_app_nth [of n sessionKinds] by (simp_all add: sessionKinds_def del: take_Suc_Cons)
  have w: "isWorkerEvent kind"
    using assms(1,2) by (auto simp: sessionKinds_def isWorkerEvent_def less_Suc_eq numeral_eq_Suc)
  have "case writeWorkerEnvelope kind requestID (n + 1) payload s of (Inl _, s') \<Rightarrow> saidSome s' | (Inr x, s') \<Rightarrow> said (n + 1) s'"
    if s: "said n s" for s
  proof (cases "NewEnvelope kind requestID (n + 1) payload")
    case (Inl c)
    then show ?thesis using s assms(1) said_some [of n s] by (simp add: writeWorkerEnvelope_def)
  next
    case ne: (Inr e)
    show ?thesis
    proof (cases "Encode e")
      case (Inl c)
      then show ?thesis using ne s assms(1) said_some [of n s] by (simp add: writeWorkerEnvelope_def)
    next
      case (Inr line)
      define s' where "s' = s\<lparr>conn := (conn s)\<lparr>outbox := outbox (conn s) @ line, writeFaults := []\<rparr>\<rparr>"
      have "writeFaults (conn s) = []" "spoke (take n sessionKinds) s" using s by (simp_all add: said_def)
      then have "spoke (take n sessionKinds @ [kind]) s'"
        using spoke_next [of "take n sessionKinds" s kind requestID payload e line s'] k w ne Inr assms by (simp add: s'_def)
      then have "said (n + 1) s'" using k by (simp add: said_def s'_def)
      then show ?thesis using ne Inr \<open>writeFaults (conn s) = []\<close>
        by (simp add: writeWorkerEnvelope_def copyTo_def Let_def s'_def)
    qed
  qed
  then show ?thesis unfolding triple_def by blast
qed

lemma triple_keeps:
  assumes "\<And>s r s'. m s = (r, s') \<Longrightarrow> outbox (conn s') = outbox (conn s) \<and> writeFaults (conn s') = writeFaults (conn s)"
    and "\<And>s x s'. m s = (Inr x, s') \<Longrightarrow> R x" and "n \<le> 4"
  shows "triple (said n) m (\<lambda>x s. said n s \<and> R x) saidSome"
  unfolding triple_def
proof (intro allI impI)
  fix s assume s: "said n s"
  obtain r s' where m: "m s = (r, s')" by fastforce
  have "said n s'" using s assms(1) [OF m] by (simp add: said_def spoke_def)
  then show "case m s of (Inl _, s') \<Rightarrow> saidSome s' | (Inr x, s') \<Rightarrow> said n s' \<and> R x"
    using m assms(2,3) said_some by (cases r) auto
qed

lemma triple_deadline: "n \<le> 4 \<Longrightarrow> triple (said n) setDeadline (\<lambda>_ s. said n s \<and> True) saidSome"
  by (rule triple_keeps) (auto simp: setDeadline_def Let_def split: list.splits option.splits)

lemma DecodeLine_requestID: "DecodeLine line d = (Inr e, d') \<Longrightarrow> RequestID e = Some r \<Longrightarrow> utf8Valid r"
  by (auto simp: DecodeLine_def Let_def split: sum.splits if_splits dest: decodeRecord_requestID)

lemma DecodeLine_wellFormed: "DecodeLine line d = (Inr e, d') \<Longrightarrow> wellFormed e"
  by (auto simp: DecodeLine_def Let_def split: sum.splits if_splits dest: decodeRecord_wellFormed)

definition received :: "Envelope \<Rightarrow> bool" where
  "received e \<longleftrightarrow> wellFormed e \<and> (\<forall>r. RequestID e = Some r \<longrightarrow> utf8Valid r)"

lemma triple_read: "n \<le> 4 \<Longrightarrow> triple (said n) readWorkerEnvelope (\<lambda>e s. said n s \<and> received e) saidSome"
  by (rule triple_keeps)
    (auto simp: readWorkerEnvelope_def readWorkerLine_def received_def split: prod.splits sum.splits
      dest: DecodeLine_wellFormed DecodeLine_requestID)

lemma utf8Valid_literal: "list_all (\<lambda>c. byte c < 128) s \<Longrightarrow> utf8Valid s"
  by (rule utf8Valid_ascii) (simp add: list_all_iff)

lemma wf_jsonInt [simp]: "wfJson (jsonInt i)"
  by (simp add: jsonInt_def readNumber_formatInt)

lemma wf_ready: "utf8Valid token \<Longrightarrow> wfJson (workerReadyPayload token)"
  by (simp add: workerReadyPayload_def utf8Valid_literal)

lemma wf_lifecycle:
  assumes "utf8Valid st" "utf8Valid err" "\<forall>(k, v) \<in> set metrics. utf8Valid k"
  shows "wfJson (lifecyclePayload st elapsed metrics err)"
  using assms by (auto simp: lifecyclePayload_def omitEmpty_def utf8Valid_literal list_all_iff)

lemma wf_complete: "utf8Valid (ContextError p) \<Longrightarrow> wfJson (completePayload p)"
  by (simp add: completePayload_def omitEmpty_def utf8Valid_literal)

lemma triple_lifecycle:
  assumes "utf8Valid requestID" "utf8Valid (workerContextError r None)"
  shows "triple (said 1) (writeWorkerLifecycle requestID 2 r) (\<lambda>_. said 2) saidSome"
proof -
  have "utf8Valid ''failed''" "utf8Valid ''completed''" "\<forall>(k, v) \<in> set (workerMetrics r). utf8Valid k"
    by (auto simp: workerMetrics_def utf8Valid_literal split: option.splits)
  then show ?thesis unfolding writeWorkerLifecycle_def Let_def
    using triple_write [of 1 KindLifecycle _ requestID] assms wf_lifecycle by (simp add: sessionKinds_def numeral_2_eq_2)
qed

lemma triple_negotiate:
  assumes "utf8Valid token"
  shows "triple (said 0) (negotiateWorkerRun token) (\<lambda>(run, requestID) s. said 1 s \<and> utf8Valid requestID) saidSome"
proof -
  have ready: "triple (said 0) (writeWorkerEnvelope KindReady [] 1 (workerReadyPayload token)) (\<lambda>_. said 1) saidSome"
    using triple_write [of 0 KindReady "workerReadyPayload token" "[]"] wf_ready [OF assms]
    by (simp add: sessionKinds_def utf8Valid_literal)
  have id: "Kind e = KindRun \<Longrightarrow> received e \<Longrightarrow> utf8Valid (the (RequestID e))" for e
    by (auto simp: received_def wellFormed_def runScoped_def)
  show ?thesis unfolding negotiateWorkerRun_def
    by (intro triple_andThen [OF triple_deadline] triple_andThen [OF triple_read] triple_andThen [OF ready]
        triple_if triple_sum triple_fail triple_done triple_pure)
      (auto intro: said_some [of 0] said_some [of "Suc 0"] id)
qed

lemma session_said:
  assumes "utf8Valid token"
    and "\<And>run r c err. execute run = (r, c, err) \<Longrightarrow> utf8Valid (workerContextError r None) \<and> utf8Valid (workerContextError r err)"
  shows "triple (said 0) (serveSession token execute) (\<lambda>_. said 4) saidSome"
proof -
  have complete: "triple (said 2) (writeWorkerEnvelope KindComplete requestID 3 (completePayload p)) (\<lambda>_. said 3) saidSome"
    if "utf8Valid requestID" "utf8Valid (ContextError p)" for requestID p
    using triple_write [of 2 KindComplete "completePayload p" requestID] wf_complete that
    by (simp add: sessionKinds_def numeral_3_eq_3 numeral_2_eq_2)
  have ack: "triple (said 3) (writeWorkerEnvelope KindShutdownAck [] 4 (JObject [])) (\<lambda>_. said 4) saidSome"
    using triple_write [of 3 KindShutdownAck "JObject []" "[]"] by (simp add: sessionKinds_def utf8Valid_literal numeral_eq_Suc)
  have rest: "triple (\<lambda>s. (case x of (run, requestID) \<Rightarrow> \<lambda>s. said 1 s \<and> utf8Valid requestID) s)
      (case x of (run, requestID) \<Rightarrow> let (r, exitCode, runErr) = execute run in
         andThen (writeWorkerLifecycle requestID 2 r) (\<lambda>_.
         andThen (writeWorkerEnvelope KindComplete requestID 3
            (completePayload \<lparr>ExitCode = exitCode, Issues = workerIssueCount r, completeElapsedNS = ElapsedNS r,
               ContextError = workerContextError r runErr\<rparr>)) (\<lambda>_.
         andThen setDeadline (\<lambda>_.
         andThen readWorkerEnvelope (\<lambda>shutdown.
         if Kind shutdown \<noteq> KindShutdown then fail (UnexpectedKind (Kind shutdown))
         else andThen (writeWorkerEnvelope KindShutdownAck [] 4 (JObject [])) (\<lambda>_.
           done_ok (exitCode, runErr))))))) (\<lambda>_. said 4) saidSome" for x
  proof -
    obtain run requestID where x: "x = (run, requestID)" by (cases x)
    obtain r exitCode runErr where e: "execute run = (r, exitCode, runErr)" by (cases "execute run")
    show ?thesis unfolding x e prod.case Let_def
      by (rule triple_pure, rule triple_andThen [OF triple_lifecycle], assumption)
        (use assms(2) [OF e] in \<open>auto intro!: triple_andThen [OF complete] triple_andThen [OF triple_deadline] triple_andThen [OF triple_read]
          triple_pure triple_if triple_fail triple_andThen [OF ack] triple_done intro: said_some [of 3]\<close>)
  qed
  show ?thesis
    unfolding serveSession_def by (rule triple_andThen [OF triple_negotiate [OF assms(1)] rest])
qed

lemma said_start: "outbox (conn s) = [] \<Longrightarrow> writeFaults (conn s) = [] \<Longrightarrow> said 0 s"
  unfolding said_def spoke_def by (auto intro!: exI [of _ "[]"])

text \<open>C18: whatever the peer sends and whichever read or deadline fails, the worker writes a prefix of the four messages of a
  session, as lines that a decoder of the protocol accepts one after the other; a session that ends without an error has
  written all four.\<close>

theorem worker_speaks_protocol:
  assumes "utf8Valid token"
    and "\<And>run r c err. execute run = (r, c, err) \<Longrightarrow> utf8Valid (workerContextError r None) \<and> utf8Valid (workerContextError r err)"
    and "outbox (conn s) = []" "writeFaults (conn s) = []"
  shows "case serveSession token execute s of
      (Inl _, s') \<Rightarrow> \<exists>n \<le> 4. spoke (take n [KindReady, KindLifecycle, KindComplete, KindShutdownAck]) s'
    | (Inr _, s') \<Rightarrow> spoke [KindReady, KindLifecycle, KindComplete, KindShutdownAck] s'"
proof -
  have "case serveSession token execute s of (Inl _, s') \<Rightarrow> saidSome s' | (Inr _, s') \<Rightarrow> said 4 s'"
    using tripleD [OF session_said [OF assms(1,2)] said_start [OF assms(3,4)]] .
  moreover obtain res s' where "serveSession token execute s = (res, s')" by fastforce
  ultimately show ?thesis by (cases res) (auto simp: saidSome_def said_def sessionKinds_def)
qed

section \<open>A session with a peer that follows the protocol completes\<close>

text \<open>The decoder has validated a payload before it is decoded again.\<close>

lemma validated_hello:
  assumes "decodeRecord s = Inr e" "Kind e = KindHello"
  shows "\<exists>p. DecodePayload decodeHello e = Inr p"
proof -
  have "validateHello e = Inr ()"
    using assms by (auto simp: decodeRecord_def onOk_Inr validateEnvelope_def validatePayload_def validateControllerPayload_def
        isWorkerEvent_def kind_defs split: if_splits prod.splits)
  then show ?thesis by (auto simp: validateHello_def decodeRequiredPayload_def onOk_Inr)
qed

lemma validated_run:
  assumes "decodeRecord s = Inr e" "Kind e = KindRun"
  shows "\<exists>p. DecodePayload decodeRun e = Inr p \<and> Args p \<noteq> [] \<and> WorkingDirectory p \<noteq> [] \<and> Environment p \<noteq> None"
proof -
  have "validateRun e = Inr ()"
    using assms by (auto simp: decodeRecord_def onOk_Inr validateEnvelope_def validatePayload_def validateControllerPayload_def
        isWorkerEvent_def kind_defs split: if_splits prod.splits)
  then show ?thesis by (auto simp: validateRun_def decodeRequiredPayload_def onOk_Inr)
qed

lemma DecodeLine_record: "DecodeLine line d = (Inr e, d') \<Longrightarrow> decodeRecord (trimTerminator line) = Inr e"
  by (auto simp: DecodeLine_def Let_def split: sum.splits if_splits)

lemma literal_length: "list_all (\<lambda>c. 32 \<le> byte c \<and> byte c < 128 \<and> c \<noteq> CHR 0x22 \<and> c \<noteq> CHR 0x5C) s \<Longrightarrow> length (writeString s) = length s + 2"
  using writeString_plain [of s] by (simp add: list_all_iff)

lemma record_length:
  assumes "NewEnvelope kind requestID sequence payload = Inr e" "sequence < 10"
  shows "length (writeJson (JObject (envelopeMembers e payload))) \<le> length (writeJson payload) + length (writeString requestID) + 200"
proof -
  have e: "ProtocolVersion e = Version" "Kind e = kind" "RequestID e = optionalString requestID" "Sequence e = optionalUint64 sequence"
    and k: "valid kind" using assms(1) by (auto simp: NewEnvelope_def Let_def onOk_Inr validateEnvelope_def)
  have "length (writeString kind) \<le> 14" using k unfolding valid_def by (auto simp: kind_defs literal_length)
  moreover have "length (formatNat sequence) = 1" "length (formatInt Version) = 1"
    using assms(2) by (simp_all add: formatNat.simps formatInt_def Version_def)
  ultimately show ?thesis
    by (simp add: envelopeMembers_def e optionalString_def optionalUint64_def literal_length split: option.splits)
qed

lemma fits_members: "fits 2 payload \<Longrightarrow> fits 1 (JObject (envelopeMembers e payload))"
  by (auto simp: envelopeMembers_def MaxNestingDepth_def numeral_2_eq_2 split: option.splits)

lemma write_succeeds:
  assumes "NewEnvelope kind requestID sequence payload = Inr e" "wfJson payload" "utf8Valid requestID" "fits 2 payload"
    and "length (writeJson payload) + length (writeString requestID) + 200 \<le> MaxLineBytes" "sequence < 10"
    and "writeFaults (conn s) = []"
  shows "\<exists>line. writeWorkerEnvelope kind requestID sequence payload s =
    (Inr (), s\<lparr>conn := (conn s)\<lparr>outbox := outbox (conn s) @ line\<rparr>\<rparr>)"
proof -
  have v: "validateEnvelope e = Inr ()" "Payload e = writeJson payload" "RequestID e = optionalString requestID"
    using assms(1) by (auto simp: NewEnvelope_def Let_def onOk_Inr marshalPayload_writeJson)
  then have "Encode e = Inr (writeJson (JObject (envelopeMembers e payload)) @ [CHR 0x0A])"
    using assms record_length [OF assms(1,6)] fits_members [OF assms(4), of e]
    by (intro encode_succeeds) (auto simp: optionalString_def)
  then obtain line where "writeWorkerEnvelope kind requestID sequence payload s =
      (Inr (), s\<lparr>conn := (conn s)\<lparr>outbox := outbox (conn s) @ line, writeFaults := []\<rparr>\<rparr>)"
    using assms(1,7) by (simp add: writeWorkerEnvelope_def copyTo_def Let_def)
  moreover have "(conn s)\<lparr>outbox := x, writeFaults := []\<rparr> = (conn s)\<lparr>outbox := x\<rparr>" for x
    using assms(7) by (cases "conn s") simp
  ultimately show ?thesis by metis
qed

lemma unmarshalObject_written:
  "wfJson (JObject ms) \<Longrightarrow> fits 1 (JObject ms) \<Longrightarrow> unmarshalObject (writeJson (JObject ms)) = Some (map_of (rev ms))"
  using unmarshal_written [of "JObject ms"] by (simp add: unmarshalObject_def)

lemmas validator_defs = validateEnvelope_def validateRouting_def validatePayload_def validateWorkerPayload_def
  validateLifecycle_def validateComplete_def decodeRequiredPayload_def requireJSONFields_def DecodePayload_def
  rejectNullArrayElements_def rejectNullMapValues_def rejectNullOptionalField_def payloadField_def valid_def runScoped_def
  isWorkerEvent_def optionalString_def optionalUint64_def

lemma object_head: "HasPrefix (skipWs (writeJson (JObject ms))) ''{''"
  by (simp add: HasPrefix_def isWs_def)

lemma new_ready: "utf8Valid token \<Longrightarrow> \<exists>e. NewEnvelope KindReady [] 1 (workerReadyPayload token) = Inr e"
proof -
  assume t: "utf8Valid token"
  define ms where "ms = [(''worker'', JString ''golangci-lint''), (''capabilities'', JArray [JString ''lifecycle'']), (''auth_token'', JString token)]"
  have p: "workerReadyPayload token = JObject ms" by (simp add: workerReadyPayload_def ms_def)
  have u: "unmarshalObject (writeJson (JObject ms)) = Some (map_of (rev ms))"
    using wf_ready [OF t] unfolding p by (rule unmarshalObject_written) (simp add: ms_def MaxNestingDepth_def)
  then show ?thesis unfolding p NewEnvelope_def Let_def marshalPayload_writeJson
    using object_head [of ms]
    by (simp add: validator_defs kind_defs ms_def [symmetric] Version_def onOk_Inr del: writeJson.simps)
      (simp add: ms_def decodeReady_def field_def isJSONNull_def)
qed

definition int64 :: "int \<Rightarrow> bool" where
  "int64 i \<longleftrightarrow> 0 \<le> i \<and> i < 2 ^ 63"

lemma decode_jsonInt: "int64 i \<Longrightarrow> decodeInt64 (jsonInt i) = Some i"
  by (simp add: jsonInt_def int64_def parseInt64_formatInt)

lemma jsonInt_not_null: "jsonInt i \<noteq> JNull"
  by (simp add: jsonInt_def)

text \<open>What a report must satisfy for its messages to be valid.\<close>

definition sane :: "Report \<Rightarrow> int \<Rightarrow> bool" where
  "sane r exitCode \<longleftrightarrow> 0 \<le> exitCode \<and> exitCode \<le> 255 \<and> int64 (ElapsedNS r) \<and> list_all (int64 \<circ> snd) (workerMetrics r)"

lemma new_complete:
  assumes "sane r exitCode" "utf8Valid err" "utf8Valid requestID" "requestID \<noteq> []"
  shows "\<exists>e. NewEnvelope KindComplete requestID 3 (completePayload \<lparr>ExitCode = exitCode, Issues = workerIssueCount r,
    completeElapsedNS = ElapsedNS r, ContextError = err\<rparr>) = Inr e"
proof -
  define p where "p = \<lparr>ExitCode = exitCode, Issues = workerIssueCount r, completeElapsedNS = ElapsedNS r, ContextError = err\<rparr>"
  define ms where "ms = [(''exit_code'', jsonInt exitCode), (''issues'', jsonInt (workerIssueCount r)), (''elapsed_ns'', jsonInt (ElapsedNS r))] @
      omitEmpty ''context_error'' err"
  have p: "completePayload p = JObject ms" by (simp add: completePayload_def ms_def p_def)
  have i: "int64 exitCode" "int64 (workerIssueCount r)" "int64 (ElapsedNS r)"
    using assms(1) by (auto simp: sane_def int64_def workerMetrics_def)
  have u: "unmarshalObject (writeJson (JObject ms)) = Some (map_of (rev ms))"
  proof (rule unmarshalObject_written)
    show "wfJson (JObject ms)" using wf_complete [of p] assms(2) p by (simp add: p_def)
    show "fits 1 (JObject ms)" by (simp add: ms_def omitEmpty_def MaxNestingDepth_def jsonInt_def)
  qed
  have "int64 x \<Longrightarrow> 0 \<le> x" for x by (simp add: int64_def)
  then have "validateComplete e = Inr ()" if "Payload e = writeJson (JObject ms)" for e :: Envelope
    using u i assms(1) that
    by (simp add: validateComplete_def decodeRequiredPayload_def requireJSONFields_def DecodePayload_def rejectNullOptionalField_def
        payloadField_def sane_def del: writeJson.simps)
      (auto simp: ms_def omitEmpty_def decodeComplete_def field_def decode_jsonInt jsonInt_not_null)
  then show ?thesis unfolding p_def [symmetric] p NewEnvelope_def Let_def marshalPayload_writeJson
    using object_head [of ms] assms(4)
    by (simp add: validateEnvelope_def validateRouting_def validatePayload_def validateWorkerPayload_def valid_def runScoped_def
        isWorkerEvent_def kind_defs Version_def optionalString_def optionalUint64_def del: writeJson.simps)
qed

lemma decode_metrics:
  "list_all (int64 \<circ> snd) ms \<Longrightarrow> \<exists>acc'. decodeMembers decodeInt64 (map (map_prod id jsonInt) ms) acc = Some acc' \<and>
     set acc' \<subseteq> set acc \<union> set ms"
proof (induction ms arbitrary: acc)
  case (Cons m ms)
  obtain k i where m: "m = (k, i)" by (cases m)
  have "decodeInt64 (jsonInt i) = Some i" using Cons(2) m by (simp add: decode_jsonInt)
  moreover have "list_all (int64 \<circ> snd) ms" using Cons(2) by (simp add: comp_def)
  then obtain acc' where "decodeMembers decodeInt64 (map (map_prod id jsonInt) ms) (AList.update k i acc) = Some acc'"
    "set acc' \<subseteq> set (AList.update k i acc) \<union> set ms" using Cons(1) by blast
  moreover have "set (AList.update k i acc) \<subseteq> insert (k, i) (set acc)" by (induction acc) auto
  ultimately show ?case using m by (auto simp: id_def)
qed simp

lemma new_lifecycle:
  assumes "sane r exitCode" "utf8Valid err" "requestID \<noteq> []" "st = ''completed'' \<or> st = ''failed''"
  shows "\<exists>e. NewEnvelope KindLifecycle requestID 2 (lifecyclePayload st (ElapsedNS r) (workerMetrics r) err) = Inr e"
proof -
  define mx where "mx = map (map_prod id jsonInt) (workerMetrics r)"
  define ms where "ms = [(''phase'', JString ''analysis''), (''state'', JString st), (''elapsed_ns'', jsonInt (ElapsedNS r)),
      (''metrics'', JObject mx)] @ omitEmpty ''error'' err"
  have p: "lifecyclePayload st (ElapsedNS r) (workerMetrics r) err = JObject ms" by (simp add: lifecyclePayload_def ms_def mx_def)
  have i: "int64 (ElapsedNS r)" and mi: "list_all (int64 \<circ> snd) (workerMetrics r)" using assms(1) by (auto simp: sane_def)
  obtain acc where acc: "decodeMembers decodeInt64 mx [] = Some acc" "set acc \<subseteq> set (workerMetrics r)"
    using decode_metrics [OF mi, of "[]"] by (auto simp: mx_def)
  have named: "k \<noteq> []" if "(k, v) \<in> set (workerMetrics r)" for k v
    using that by (auto simp: workerMetrics_def split: option.splits)
  have good: "list_all (\<lambda>(name, v). name \<noteq> [] \<and> 0 \<le> v) acc"
    using acc(2) named mi by (fastforce simp: list_all_iff int64_def)
  have u: "unmarshalObject (writeJson (JObject ms)) = Some (map_of (rev ms))"
  proof (rule unmarshalObject_written)
    have "utf8Valid st" using assms(4) by (auto simp: utf8Valid_literal)
    moreover have "\<forall>(k, v) \<in> set (workerMetrics r). utf8Valid k" by (auto simp: workerMetrics_def utf8Valid_literal split: option.splits)
    ultimately show "wfJson (JObject ms)" using wf_lifecycle [of st err "workerMetrics r" "ElapsedNS r"] assms(2) p by simp
    show "fits 1 (JObject ms)"
      by (auto simp: ms_def mx_def workerMetrics_def omitEmpty_def MaxNestingDepth_def jsonInt_def split: option.splits)
  qed
  have nn: "list_all (\<lambda>(k, _). map_of (rev mx) k \<noteq> Some JNull) mx"
  proof -
    have "v \<noteq> JNull" if "(k, v) \<in> set mx" for k v using that jsonInt_not_null by (auto simp: mx_def)
    then show ?thesis by (fastforce simp: list_all_iff dest: map_of_SomeD)
  qed
  have "validateLifecycle e = Inr ()" if "Payload e = writeJson (JObject ms)" for e :: Envelope
    using u i that assms(4) acc(1) good nn
    by (simp add: validateLifecycle_def decodeRequiredPayload_def requireJSONFields_def DecodePayload_def rejectNullOptionalField_def
        rejectNullMapValues_def payloadField_def del: writeJson.simps)
      (auto simp: ms_def omitEmpty_def decodeLifecycle_def field_def decode_jsonInt jsonInt_not_null int64_def)
  then show ?thesis unfolding p NewEnvelope_def Let_def marshalPayload_writeJson
    using object_head [of ms] assms(3)
    by (simp add: validateEnvelope_def validateRouting_def validatePayload_def validateWorkerPayload_def valid_def runScoped_def
        isWorkerEvent_def kind_defs Version_def optionalString_def optionalUint64_def del: writeJson.simps)
qed

text \<open>A line that ends with its only newline and is not too long.\<close>

definition framed :: "string \<Rightarrow> bool" where
  "framed line \<longleftrightarrow> line \<noteq> [] \<and> last line = CHR 0x0A \<and> CHR 0x0A \<notin> set (butlast line) \<and> length line \<le> MaxLineBytes + 2"

definition standing :: "string \<Rightarrow> Decoder \<Rightarrow> Session \<Rightarrow> bool" where
  "standing input d s \<longleftrightarrow> inbox (conn s) = input \<and> decoder s = d \<and> writeFaults (conn s) = [] \<and> deadlineFaults (conn s) = []"

lemma standing_read:
  assumes "framed line" "DecodeLine line d = (Inr e, d')"
  shows "triple (standing (line @ rest) d) readWorkerEnvelope (\<lambda>x s. standing rest d' s \<and> x = e) (\<lambda>_. False)"
proof -
  define r where "r = butlast line"
  have line: "line = r @ [CHR 0x0A]" using assms(1) by (metis append_butlast_last_id framed_def r_def)
  have "takeWhile (\<lambda>x. x \<noteq> CHR 0x0A) (r @ CHR 0x0A # rest) = r"
    using assms(1) by (subst takeWhile_append2) (auto simp: framed_def r_def)
  then have "Index (line @ rest) [CHR 0x0A] = Some (length r)" by (simp add: Index_single line)
  moreover have "length r + 1 \<le> MaxLineBytes + 2" using assms(1) line by (simp add: framed_def)
  ultimately have "readWorkerLineFrom [] (line @ rest) end = (Inr line, rest)" for "end"
    using readWorkerLineFrom_whole [of "[]" "line @ rest" "end"] by (simp add: wholeLine_def line)
  then show ?thesis using assms(2)
    by (auto simp: triple_def standing_def readWorkerEnvelope_def readWorkerLine_def)
qed

lemma standing_deadline: "triple (standing i d) setDeadline (\<lambda>_. standing i d) (\<lambda>_. False)"
  by (auto simp: triple_def standing_def setDeadline_def Let_def)

definition small :: "json \<Rightarrow> string \<Rightarrow> bool" where
  "small payload requestID \<longleftrightarrow> length (writeJson payload) + length (writeString requestID) + 200 \<le> MaxLineBytes"

lemma standing_write:
  assumes "\<exists>e. NewEnvelope kind requestID sequence payload = Inr e" "wfJson payload" "utf8Valid requestID" "fits 2 payload"
    and "small payload requestID" "sequence < 10"
  shows "triple (standing i d) (writeWorkerEnvelope kind requestID sequence payload) (\<lambda>_. standing i d) (\<lambda>_. False)"
proof -
  have "\<exists>line. writeWorkerEnvelope kind requestID sequence payload s =
      (Inr (), s\<lparr>conn := (conn s)\<lparr>outbox := outbox (conn s) @ line\<rparr>\<rparr>)" if "writeFaults (conn s) = []" for s
    using write_succeeds assms that unfolding small_def by blast
  then show ?thesis by (fastforce simp: triple_def standing_def)
qed

lemma standing_ready:
  assumes "utf8Valid token" "small (workerReadyPayload token) []"
  shows "triple (standing i d) (writeWorkerEnvelope KindReady [] 1 (workerReadyPayload token)) (\<lambda>_. standing i d) (\<lambda>_. False)"
  using assms new_ready wf_ready by (intro standing_write) (auto simp: utf8Valid_literal workerReadyPayload_def MaxNestingDepth_def)

lemma standing_lifecycle:
  assumes "sane r c" "utf8Valid (workerContextError r None)" "rid \<noteq> []" "utf8Valid rid"
    "small (lifecyclePayload ''completed'' (ElapsedNS r) (workerMetrics r) (workerContextError r None)) rid"
  shows "triple (standing i d) (writeWorkerLifecycle rid 2 r) (\<lambda>_. standing i d) (\<lambda>_. False)"
proof -
  define st where "st = (if workerContextError r None \<noteq> [] then ''failed'' else ''completed'')"
  have "length (writeJson (lifecyclePayload st (ElapsedNS r) (workerMetrics r) (workerContextError r None)))
      \<le> length (writeJson (lifecyclePayload ''completed'' (ElapsedNS r) (workerMetrics r) (workerContextError r None)))"
    by (simp add: lifecyclePayload_def st_def literal_length)
  then have "small (lifecyclePayload st (ElapsedNS r) (workerMetrics r) (workerContextError r None)) rid"
    using assms(5) by (simp add: small_def)
  moreover have "fits 2 (lifecyclePayload st (ElapsedNS r) (workerMetrics r) (workerContextError r None))"
    by (auto simp: lifecyclePayload_def workerMetrics_def omitEmpty_def MaxNestingDepth_def jsonInt_def split: option.splits)
  moreover have "utf8Valid st" "st = ''completed'' \<or> st = ''failed''" by (auto simp: st_def utf8Valid_literal)
  moreover have "\<forall>(k, v) \<in> set (workerMetrics r). utf8Valid k" by (auto simp: workerMetrics_def utf8Valid_literal split: option.splits)
  ultimately show ?thesis unfolding writeWorkerLifecycle_def Let_def st_def [symmetric]
    using assms new_lifecycle [OF assms(1-3)] wf_lifecycle by (intro standing_write) auto
qed

lemma standing_complete:
  fixes r c ce
  defines "cp \<equiv> \<lparr>ExitCode = c, Issues = workerIssueCount r, completeElapsedNS = ElapsedNS r, ContextError = ce\<rparr>"
  assumes "sane r c" "utf8Valid ce" "utf8Valid rid" "rid \<noteq> []" "small (completePayload cp) rid"
  shows "triple (standing i d) (writeWorkerEnvelope KindComplete rid 3 (completePayload cp)) (\<lambda>_. standing i d) (\<lambda>_. False)"
  using assms new_complete [OF assms(2-5)] wf_complete [of cp]
  by (intro standing_write) (auto simp: cp_def completePayload_def omitEmpty_def MaxNestingDepth_def jsonInt_def)

lemma standing_ack:
  "triple (standing i d) (writeWorkerEnvelope KindShutdownAck [] 4 (JObject [])) (\<lambda>_. standing i d) (\<lambda>_. False)"
proof -
  have "small (JObject []) []" by (simp add: small_def literal_length MaxLineBytes_def)
  then show ?thesis using encode_ack(1) by (intro standing_write) (auto simp: utf8Valid_literal MaxNestingDepth_def)
qed

lemma standing_negotiate:
  assumes "framed hello" "DecodeLine hello d0 = (Inr eh, d1)" "Kind eh = KindHello"
    and "\<And>p. DecodePayload decodeHello eh = Inr p \<Longrightarrow> ''lifecycle'' \<in> set (helloCapabilities p)"
    and "framed run" "DecodeLine run d1 = (Inr er, d2)" "Kind er = KindRun" "DecodePayload decodeRun er = Inr p"
    and "utf8Valid token" "small (workerReadyPayload token) []"
  shows "triple (standing (hello @ run @ rest) d0) (negotiateWorkerRun token)
      (\<lambda>y s. standing rest d2 s \<and> y = (p, the (RequestID er))) (\<lambda>_. False)"
proof -
  obtain ph where ph: "DecodePayload decodeHello eh = Inr ph" using validated_hello DecodeLine_record assms(2,3) by blast
  then have cap: "hasWorkerCapability (helloCapabilities ph) ''lifecycle''" using assms(4) by (auto simp: hasWorkerCapability_def list_ex_iff)
  note ready = standing_ready [OF assms(9,10)]
  show ?thesis unfolding negotiateWorkerRun_def
    by (intro triple_andThen [OF standing_deadline] triple_andThen [OF standing_read [OF assms(1,2)]] triple_pure)
      (auto simp: assms(3,7,8) ph cap simp del: One_nat_def intro!: triple_andThen [OF ready]
        triple_andThen [OF standing_read [OF assms(5,6)]] triple_pure triple_andThen [OF standing_deadline] triple_done)
qed

text \<open>C17: with a peer that sends hello with the lifecycle capability, run and shutdown, without failures of the connection, and
  with a report whose numbers are in range and whose messages stay within the limit, the session ends with the exit code and
  error of the run, and all four messages were written.\<close>

theorem worker_session_completes:
  assumes "standing (hello @ run @ shutdown @ rest) d0 s" "outbox (conn s) = []"
    and "framed hello" "DecodeLine hello d0 = (Inr eh, d1)" "Kind eh = KindHello"
    and "\<And>p. DecodePayload decodeHello eh = Inr p \<Longrightarrow> ''lifecycle'' \<in> set (helloCapabilities p)"
    and "framed run" "DecodeLine run d1 = (Inr er, d2)" "Kind er = KindRun"
    and "framed shutdown" "DecodeLine shutdown d2 = (Inr es, d3)" "Kind es = KindShutdown"
    and "\<And>p r c err. execute p = (r, c, err) \<Longrightarrow> sane r c \<and>
      utf8Valid (workerContextError r None) \<and> utf8Valid (workerContextError r err)"
    and "\<And>p r c err. execute p = (r, c, err) \<Longrightarrow>
      small (lifecyclePayload ''completed'' (ElapsedNS r) (workerMetrics r) (workerContextError r None)) (the (RequestID er)) \<and>
      small (completePayload \<lparr>ExitCode = c, Issues = workerIssueCount r, completeElapsedNS = ElapsedNS r,
        ContextError = workerContextError r err\<rparr>) (the (RequestID er))"
    and "utf8Valid token" "small (workerReadyPayload token) []"
  shows "\<exists>p r c err s'. DecodePayload decodeRun er = Inr p \<and> execute p = (r, c, err) \<and>
    serveSession token execute s = (Inr (c, err), s') \<and>
    spoke [KindReady, KindLifecycle, KindComplete, KindShutdownAck] s'"
proof -
  obtain p where p: "DecodePayload decodeRun er = Inr p" using validated_run DecodeLine_record assms(8,9) by blast
  obtain r c err where x: "execute p = (r, c, err)" by (cases "execute p")
  obtain rid where rid: "RequestID er = Some rid" "rid \<noteq> []" "utf8Valid rid"
    using DecodeLine_wellFormed [OF assms(8)] DecodeLine_requestID [OF assms(8)] assms(9) by (auto simp: wellFormed_def runScoped_def)
  note sn = assms(13) [OF x] and sm = assms(14) [OF x]
  have life: "triple (standing i d) (writeWorkerLifecycle rid 2 r) (\<lambda>_. standing i d) (\<lambda>_. False)" for i d
    using sn sm rid by (intro standing_lifecycle) auto
  define cp where "cp = \<lparr>ExitCode = c, Issues = workerIssueCount r, completeElapsedNS = ElapsedNS r, ContextError = workerContextError r err\<rparr>"
  have comp: "triple (standing i d) (writeWorkerEnvelope KindComplete rid 3 (completePayload cp)) (\<lambda>_. standing i d) (\<lambda>_. False)" for i d
    unfolding cp_def using sn sm rid by (intro standing_complete) auto
  note nego = standing_negotiate [OF assms(3-9) p assms(15,16), of "shutdown @ rest"]
  have "triple (standing (hello @ run @ shutdown @ rest) d0) (serveSession token execute)
      (\<lambda>y s. standing rest d3 s \<and> y = (c, err)) (\<lambda>_. False)"
    unfolding serveSession_def
    by (rule triple_andThen [OF nego])
      (auto simp: x rid assms(12) cp_def [symmetric] intro!: triple_pure triple_andThen [OF life] triple_andThen [OF comp]
        triple_andThen [OF standing_deadline] triple_andThen [OF standing_read [OF assms(10,11)]] triple_andThen [OF standing_ack] triple_done)
  from tripleD [OF this assms(1)] obtain s' where s': "serveSession token execute s = (Inr (c, err), s')"
    by (auto split: prod.splits sum.splits)
  moreover have "said 4 s'"
    using tripleD [OF session_said [of token execute] said_start [of s]] assms(1,2,13,15) s' by (fastforce simp: standing_def)
  ultimately show ?thesis using p x by (auto simp: said_def sessionKinds_def)
qed

text \<open>A concrete session.\<close>

lemma controller_line:
  assumes "NewEnvelope kind requestID 0 payload = Inr e" "wfJson payload" "utf8Valid requestID" "fits 2 payload" "small payload requestID"
    and "\<not> isWorkerEvent kind"
  shows "\<exists>line. framed line \<and> (\<forall>d. DecodeLine line d = (Inr e, d))"
proof -
  have "validateEnvelope e = Inr ()" "Payload e = writeJson payload" "RequestID e = optionalString requestID"
    using assms(1) by (auto simp: NewEnvelope_def Let_def onOk_Inr marshalPayload_writeJson)
  then obtain line where enc: "Encode e = Inr line"
    using assms record_length [OF assms(1)] fits_members [OF assms(4), of e] encode_succeeds [of e payload]
    by (auto simp: optionalString_def small_def split: if_splits)
  have "DecodeLine line d = (Inr e, d) \<and> (\<exists>record. line = record @ [CHR 0x0A] \<and> CHR 0x0A \<notin> set record \<and> length record \<le> MaxLineBytes)" for d
    using encoded_line_decodes [OF assms(1) enc assms(2,3), of d] assms(6) by simp
  note h = this
  have "framed line" using h [of undefined] by (auto simp: framed_def)
  then show ?thesis using h by blast
qed

definition helloMembers :: "(string \<times> json) list" where
  "helloMembers = [(''client'', JString ''ctl''), (''capabilities'', JArray [JString ''lifecycle''])]"

definition runMembers :: "(string \<times> json) list" where
  "runMembers = [(''args'', JArray [JString ''run'']), (''working_directory'', JString ''/src''), (''environment'', JObject [])]"

lemma members_written:
  "unmarshalObject (writeJson (JObject helloMembers)) = Some (map_of (rev helloMembers))"
  "unmarshalObject (writeJson (JObject runMembers)) = Some (map_of (rev runMembers))"
  "unmarshalObject (writeJson (JObject [])) = Some Map.empty"
  by (subst unmarshalObject_written; simp add: helloMembers_def runMembers_def utf8Valid_literal MaxNestingDepth_def)+

definition eHello :: Envelope where
  "eHello = \<lparr>ProtocolVersion = Version, Kind = KindHello, RequestID = None, Sequence = None, Payload = writeJson (JObject helloMembers)\<rparr>"

definition eRun :: Envelope where
  "eRun = \<lparr>ProtocolVersion = Version, Kind = KindRun, RequestID = Some ''r1'', Sequence = None, Payload = writeJson (JObject runMembers)\<rparr>"

definition eShutdown :: Envelope where
  "eShutdown = \<lparr>ProtocolVersion = Version, Kind = KindShutdown, RequestID = None, Sequence = None, Payload = writeJson (JObject [])\<rparr>"

lemma new_hello: "NewEnvelope KindHello [] 0 (JObject helloMembers) = Inr eHello"
proof -
  have "validateHello eHello = Inr ()"
    using members_written(1)
    by (simp add: validateHello_def validator_defs eHello_def del: writeJson.simps)
      (simp add: helloMembers_def decodeHello_def field_def isJSONNull_def)
  then show ?thesis using object_head [of helloMembers]
    by (simp add: NewEnvelope_def marshalPayload_writeJson validateEnvelope_def validateRouting_def validatePayload_def
        validateControllerPayload_def valid_def runScoped_def isWorkerEvent_def kind_defs optionalString_def optionalUint64_def
        eHello_def del: writeJson.simps)
qed

lemma new_run: "NewEnvelope KindRun ''r1'' 0 (JObject runMembers) = Inr eRun"
proof -
  have "validateRun eRun = Inr ()"
    using members_written(2)
    by (simp add: validateRun_def validator_defs eRun_def del: writeJson.simps)
      (simp add: runMembers_def decodeRun_def field_def isJSONNull_def)
  then show ?thesis using object_head [of runMembers]
    by (simp add: NewEnvelope_def marshalPayload_writeJson validateEnvelope_def validateRouting_def validatePayload_def
        validateControllerPayload_def valid_def runScoped_def isWorkerEvent_def kind_defs optionalString_def optionalUint64_def
        eRun_def del: writeJson.simps)
qed

lemma new_shutdown: "NewEnvelope KindShutdown [] 0 (JObject []) = Inr eShutdown"
  using members_written(3) object_head [of "[]"]
  by (simp add: NewEnvelope_def marshalPayload_writeJson validateEnvelope_def validateRouting_def validatePayload_def
      validateControllerPayload_def DecodePayload_def decodeShutdown_def valid_def runScoped_def isWorkerEvent_def kind_defs
      optionalString_def optionalUint64_def eShutdown_def del: writeJson.simps)

lemma controller_lines:
  obtains hello run shutdown where "framed hello" "\<And>d. DecodeLine hello d = (Inr eHello, d)"
    "framed run" "\<And>d. DecodeLine run d = (Inr eRun, d)" "framed shutdown" "\<And>d. DecodeLine shutdown d = (Inr eShutdown, d)"
proof -
  have "\<exists>line. framed line \<and> (\<forall>d. DecodeLine line d = (Inr eHello, d))"
    by (rule controller_line [OF new_hello])
      (simp_all add: helloMembers_def utf8Valid_literal MaxNestingDepth_def small_def literal_length MaxLineBytes_def isWorkerEvent_def kind_defs)
  moreover have "\<exists>line. framed line \<and> (\<forall>d. DecodeLine line d = (Inr eRun, d))"
    by (rule controller_line [OF new_run])
      (simp_all add: runMembers_def utf8Valid_literal MaxNestingDepth_def small_def literal_length MaxLineBytes_def isWorkerEvent_def kind_defs)
  moreover have "\<exists>line. framed line \<and> (\<forall>d. DecodeLine line d = (Inr eShutdown, d))"
    by (rule controller_line [OF new_shutdown])
      (simp_all add: utf8Valid_literal MaxNestingDepth_def small_def literal_length MaxLineBytes_def isWorkerEvent_def kind_defs)
  ultimately show ?thesis using that by blast
qed

definition sessionOn :: "string \<Rightarrow> Session" where
  "sessionOn input = \<lparr>conn = \<lparr>inbox = input, inEnd = Eof, outbox = [], deadlineFaults = [], writeFaults = []\<rparr>, decoder = \<lparr>lastSequence = 0\<rparr>\<rparr>"

definition quietRun :: "RunPayload \<Rightarrow> Report \<times> int \<times> string option" where
  "quietRun p = (emptyReport, 1, None)"

lemma quiet_facts:
  "workerContextError emptyReport None = []" "sane emptyReport 1" "workerMetrics emptyReport = [(''analyses'', 0), (''issues'', 0), (''linters'', 0)]"
  "ElapsedNS emptyReport = 0" "workerIssueCount emptyReport = 0"
  by (simp_all add: workerContextError_def emptyReport_def errorString_def sane_def workerMetrics_def workerIssueCount_def int64_def)

theorem worker_speaks_protocol_witness:
  "case serveSession ''t'' quietRun (sessionOn ''no json'') of
     (Inl _, s') \<Rightarrow> \<exists>n \<le> 4. spoke (take n [KindReady, KindLifecycle, KindComplete, KindShutdownAck]) s'
   | (Inr _, s') \<Rightarrow> spoke [KindReady, KindLifecycle, KindComplete, KindShutdownAck] s'"
proof (rule worker_speaks_protocol)
  show "utf8Valid ''t''" by (simp add: utf8Valid_literal)
  show "outbox (conn (sessionOn ''no json'')) = []" "writeFaults (conn (sessionOn ''no json'')) = []" by (simp_all add: sessionOn_def)
  fix run r c err assume "quietRun run = (r, c, err)"
  then show "utf8Valid (workerContextError r None) \<and> utf8Valid (workerContextError r err)"
    by (auto simp: quietRun_def quiet_facts utf8Valid_literal)
qed

theorem worker_session_completes_witness:
  "\<exists>input s'. serveSession ''t'' quietRun (sessionOn input) = (Inr (1, None), s') \<and>
     spoke [KindReady, KindLifecycle, KindComplete, KindShutdownAck] s'"
proof -
  obtain hello run shutdown where l: "framed hello" "\<And>d. DecodeLine hello d = (Inr eHello, d)"
    "framed run" "\<And>d. DecodeLine run d = (Inr eRun, d)" "framed shutdown" "\<And>d. DecodeLine shutdown d = (Inr eShutdown, d)"
    using controller_lines by blast
  let ?s = "sessionOn (hello @ run @ shutdown @ [])"
  have "\<exists>p r c err s'. DecodePayload decodeRun eRun = Inr p \<and> quietRun p = (r, c, err) \<and>
      serveSession ''t'' quietRun ?s = (Inr (c, err), s') \<and> spoke [KindReady, KindLifecycle, KindComplete, KindShutdownAck] s'"
  proof (rule worker_session_completes [OF _ _ l(1) l(2) _ _ l(3) l(4) _ l(5) l(6)])
    show "standing (hello @ run @ shutdown @ []) \<lparr>lastSequence = 0\<rparr> ?s" "outbox (conn ?s) = []" by (simp_all add: standing_def sessionOn_def)
    show "Kind eHello = KindHello" "Kind eRun = KindRun" "Kind eShutdown = KindShutdown" by (simp_all add: eHello_def eRun_def eShutdown_def)
    show "''lifecycle'' \<in> set (helloCapabilities p)" if "DecodePayload decodeHello eHello = Inr p" for p
      using that members_written(1) by (auto simp: DecodePayload_def eHello_def simp del: writeJson.simps)
        (auto simp: helloMembers_def decodeHello_def field_def)
    show "utf8Valid ''t''" "small (workerReadyPayload ''t'') []"
      by (simp_all add: utf8Valid_literal small_def workerReadyPayload_def literal_length MaxLineBytes_def)
    fix p r c err assume "quietRun p = (r, c, err)"
    then have "r = emptyReport" "c = 1" "err = None" by (simp_all add: quietRun_def)
    then show "sane r c \<and> utf8Valid (workerContextError r None) \<and> utf8Valid (workerContextError r err)"
      "small (lifecyclePayload ''completed'' (ElapsedNS r) (workerMetrics r) (workerContextError r None)) (the (RequestID eRun)) \<and>
       small (completePayload \<lparr>ExitCode = c, Issues = workerIssueCount r, completeElapsedNS = ElapsedNS r,
         ContextError = workerContextError r err\<rparr>) (the (RequestID eRun))"
      by (auto simp: quiet_facts utf8Valid_literal small_def lifecyclePayload_def completePayload_def omitEmpty_def jsonInt_def formatInt_def
          formatNat.simps literal_length MaxLineBytes_def eRun_def)
  qed
  then show ?thesis by (auto simp: quietRun_def)
qed

end
