(* ===== verification/Worker_Process.thy ===== *)
theory Worker_Process
  imports Worker
begin

text \<open>
  The process around a worker session (\<open>pkg/commands/worker.go\<close>): the environment, arguments and directory that a run asks
  for and their restoration, the execution of the run command with its report, the race between a command that
  returns and calls that exit the process, and the entry point that connects to the controller.

  The environment is a map; \<open>os.Setenv\<close> refuses what Go refuses on Unix. Changing the directory, the command itself, the
  parsing of flags, the clock and the network are parameters.
\<close>

section \<open>The state of the process\<close>

record Process =
  env :: "string \<rightharpoonup> string"
  osArgs :: "string list"
  cwd :: string

definition workerEndpointEnv :: string where "workerEndpointEnv = ''GOLANGCI_WORKER_ENDPOINT''"

definition workerProofEnv :: string where "workerProofEnv = ''GOLANGCI_WORKER_TOKEN''"

definition okEnv :: "string \<Rightarrow> string \<Rightarrow> bool" where
  "okEnv key v \<longleftrightarrow> key \<noteq> [] \<and> CHR ''='' \<notin> set key \<and> CHR 0x00 \<notin> set key \<and> CHR 0x00 \<notin> set v"

definition Setenv :: "string \<Rightarrow> string \<Rightarrow> Process \<Rightarrow> string option \<times> Process" where
  "Setenv key v p = (if okEnv key v then (None, p\<lparr>env := (env p)(key \<mapsto> v)\<rparr>) else (Some ''invalid argument'', p))"

definition Unsetenv :: "string \<Rightarrow> Process \<Rightarrow> Process" where
  "Unsetenv key p = p\<lparr>env := (env p)(key := None)\<rparr>"

datatype stateError = ForbidsKey string | ReadDirectory string | ChangeDirectory string | SetEnvironment string string

text \<open>The closure that restores the state: the keys with their previous values, the arguments and the directory.\<close>

record Restore =
  previous :: "(string \<times> string option) list"
  originalArgs :: "string list"
  workingDirectory :: string

fun restoreEnv :: "(string \<times> string option) list \<Rightarrow> Process \<Rightarrow> Process" where
  "restoreEnv [] p = p"
| "restoreEnv ((key, Some v) # prev) p = restoreEnv prev (snd (Setenv key v p))"
| "restoreEnv ((key, None) # prev) p = restoreEnv prev (Unsetenv key p)"

definition restore :: "(string \<Rightarrow> string \<Rightarrow> string + string) \<Rightarrow> Restore \<Rightarrow> Process \<Rightarrow> Process" where
  "restore chdir r p =
     (let p = restoreEnv (previous r) p; p = p\<lparr>osArgs := originalArgs r\<rparr> in
      case chdir (cwd p) (workingDirectory r) of Inl _ \<Rightarrow> p | Inr d \<Rightarrow> p\<lparr>cwd := d\<rparr>)"

fun setKeys :: "(string \<rightharpoonup> string) \<Rightarrow> string list \<Rightarrow> Process \<Rightarrow> (string \<times> string) option \<times> Process" where
  "setKeys wanted [] p = (None, p)"
| "setKeys wanted (key # keys) p =
     (if key = workerEndpointEnv \<or> key = workerProofEnv then setKeys wanted keys (Unsetenv key p)
      else case Setenv key (the (wanted key)) p of
        (Some err, p) \<Rightarrow> (Some (key, err), p)
      | (None, p) \<Rightarrow> setKeys wanted keys p)"

definition runKeys :: "(string \<times> string) list \<Rightarrow> string list" where
  "runKeys environment = stable_sort (\<lambda>a b. cmp_string a b < 0) (map fst environment @ [workerEndpointEnv, workerProofEnv])"

definition applyWorkerProcessState ::
  "(string \<Rightarrow> string \<Rightarrow> string + string) \<Rightarrow> string option \<Rightarrow> RunPayload \<Rightarrow> Process \<Rightarrow> (stateError + Restore) \<times> Process" where
  "applyWorkerProcessState chdir getwdErr run p =
     (let environment = (case Environment run of None \<Rightarrow> [] | Some e \<Rightarrow> e) in
      if workerEndpointEnv \<in> fst ` set environment then (Inl (ForbidsKey workerEndpointEnv), p)
      else if workerProofEnv \<in> fst ` set environment then (Inl (ForbidsKey workerProofEnv), p)
      else case getwdErr of
        Some err \<Rightarrow> (Inl (ReadDirectory err), p)
      | None \<Rightarrow>
          (let keys = runKeys environment;
               r = \<lparr>previous = map (\<lambda>k. (k, env p k)) keys, originalArgs = osArgs p, workingDirectory = cwd p\<rparr> in
           case chdir (cwd p) (WorkingDirectory run) of
             Inl err \<Rightarrow> (Inl (ChangeDirectory err), p)
           | Inr d \<Rightarrow>
               (let p' = p\<lparr>cwd := d, osArgs := hd (osArgs p) # Args run\<rparr> in
                case setKeys (map_of environment) keys p' of
                  (Some (key, err), p') \<Rightarrow> (Inl (SetEnvironment key err), restore chdir r p')
                | (None, p') \<Rightarrow> (Inr r, p'))))"

section \<open>Executing the run\<close>

text \<open>How the command ends: it returns an error and the exit code of the run, or something exits the process.\<close>

datatype commandEnd = Returned "string option" int | Exited int

definition exitMessage :: "int \<Rightarrow> string" where
  "exitMessage code = ''command exited with code '' @ formatInt code"

definition stateMessage :: "stateError \<Rightarrow> string" where
  "stateMessage e = (case e of
       ForbidsKey k \<Rightarrow> ''worker environment forbids '' @ k
     | ReadDirectory err \<Rightarrow> ''read worker directory: '' @ err
     | ChangeDirectory err \<Rightarrow> ''change worker directory: '' @ err
     | SetEnvironment k err \<Rightarrow> ''set worker environment '' @ k @ '': '' @ err)"

definition finishUnlessDone :: "int \<Rightarrow> int \<Rightarrow> string \<Rightarrow> Recorder option \<Rightarrow> Recorder option" where
  "finishUnlessDone now code err r = (if rpOutcome (Snapshot r) = None then Lifecycle.Finish now code (Some err) None r else r)"

definition executeWorkerRun ::
  "(string \<Rightarrow> string \<Rightarrow> string + string) \<Rightarrow> string option \<Rightarrow> (string list \<Rightarrow> bool) \<Rightarrow> (string list \<Rightarrow> string option) \<Rightarrow>
   (string list \<Rightarrow> Recorder \<Rightarrow> Process \<Rightarrow> commandEnd \<times> Recorder \<times> Process) \<Rightarrow> int \<Rightarrow> int \<Rightarrow>
   RunPayload \<Rightarrow> Process \<Rightarrow> (Report \<times> int \<times> string option) \<times> Process" where
  "executeWorkerRun chdir getwdErr isWorkerRun fatalSetup command start now run p =
     (case applyWorkerProcessState chdir getwdErr run p of
        (Inl err, p) \<Rightarrow> ((emptyReport, Failure, Some (stateMessage err)), p)
      | (Inr r, p) \<Rightarrow>
          (let recorder = NewRecorder start in
           if \<not> isWorkerRun (Args run) then
             ((emptyReport, Failure, Some ''worker only accepts the run command''), restore chdir r p)
           else case fatalSetup (osArgs p) of
             Some err \<Rightarrow>
               ((Snapshot (Lifecycle.Finish now Failure (Some err) None (Some recorder)), Failure, None), restore chdir r p)
           | None \<Rightarrow>
               (case command (Args run) recorder p of
                  (Exited code, recorder, p) \<Rightarrow>
                    ((Snapshot (finishUnlessDone now code (exitMessage code) (Some recorder)), code, None), p)
                | (Returned err exitCode, recorder, p) \<Rightarrow>
                    (case err of
                       None \<Rightarrow> ((Snapshot (Some recorder), exitCode, None), restore chdir r p)
                     | Some e \<Rightarrow>
                         ((Snapshot (finishUnlessDone now Failure e (Some recorder)), Failure, Some e), restore chdir r p)))))"

section \<open>Restoration\<close>

lemma restoreEnv_other: "k \<notin> fst ` set prev \<Longrightarrow> env (restoreEnv prev p) k = env p k"
  by (induction prev p rule: restoreEnv.induct) (auto simp: Setenv_def Unsetenv_def)

lemma restoreEnv_keeps: "osArgs (restoreEnv prev p) = osArgs p \<and> cwd (restoreEnv prev p) = cwd p"
  by (induction prev p rule: restoreEnv.induct) (auto simp: Setenv_def Unsetenv_def)

lemma restoreEnv_value:
  "(\<And>k v. (k, Some v) \<in> set prev \<Longrightarrow> okEnv k v) \<Longrightarrow> (k, x) \<in> set prev \<Longrightarrow>
   (\<And>y. (k, y) \<in> set prev \<Longrightarrow> y = x) \<Longrightarrow> env (restoreEnv prev p) k = x"
proof (induction prev p rule: restoreEnv.induct)
  case (2 key v prev p)
  have ok: "\<And>k v. (k, Some v) \<in> set prev \<Longrightarrow> okEnv k v" by (rule 2(2)) simp
  have uniq: "\<And>y. (k, y) \<in> set prev \<Longrightarrow> y = x" by (rule 2(4)) simp
  show ?case
  proof (cases "k \<in> fst ` set prev")
    case True
    then have "(k, x) \<in> set prev" using uniq by force
    then show ?thesis using 2(1) [OF ok _ uniq] by simp
  next
    case False
    then have "key = k" "x = Some v" using 2(3) by force+
    then show ?thesis using restoreEnv_other [OF False] 2(2) [of k v] by (simp add: Setenv_def)
  qed
next
  case (3 key prev p)
  have ok: "\<And>k v. (k, Some v) \<in> set prev \<Longrightarrow> okEnv k v" by (rule 3(2)) simp
  have uniq: "\<And>y. (k, y) \<in> set prev \<Longrightarrow> y = x" by (rule 3(4)) simp
  show ?case
  proof (cases "k \<in> fst ` set prev")
    case True
    then have "(k, x) \<in> set prev" using uniq by force
    then show ?thesis using 3(1) [OF ok _ uniq] by simp
  next
    case False
    then have "(k, x) = (key, None)" using 3(3) by (metis fst_conv image_eqI set_ConsD)
    then show ?thesis using restoreEnv_other [OF False, of "Unsetenv key p"] by (simp add: Unsetenv_def)
  qed
qed simp

text \<open>A process whose environment could have been set, in a directory to which one can return.\<close>

definition returnable :: "(string \<Rightarrow> string \<Rightarrow> string + string) \<Rightarrow> Process \<Rightarrow> bool" where
  "returnable chdir p \<longleftrightarrow> (\<forall>k v. env p k = Some v \<longrightarrow> okEnv k v) \<and> (\<forall>d. chdir d (cwd p) = Inr (cwd p))"

lemma restore_original:
  assumes "returnable chdir p" "\<And>k. k \<notin> set keys \<Longrightarrow> env q k = env p k"
  shows "restore chdir \<lparr>previous = map (\<lambda>k. (k, env p k)) keys, originalArgs = osArgs p, workingDirectory = cwd p\<rparr> q = p"
proof -
  let ?prev = "map (\<lambda>k. (k, env p k)) keys"
  have "env (restoreEnv ?prev q) k = env p k" for k
  proof (cases "k \<in> set keys")
    case True
    then show ?thesis using assms(1) by (intro restoreEnv_value) (auto simp: returnable_def)
  next
    case False
    then have "k \<notin> fst ` set ?prev" by auto
    then show ?thesis using restoreEnv_other [of k ?prev q] assms(2) [OF False] by simp
  qed
  then have "env (restoreEnv ?prev q) = env p" by blast
  then show ?thesis using assms(1) by (simp add: restore_def Let_def returnable_def)
qed

lemma setKeys_result:
  assumes "setKeys wanted keys p = (None, q)" "distinct keys"
  shows "env q = (\<lambda>k. if k \<in> set keys then (if k = workerEndpointEnv \<or> k = workerProofEnv then None else Some (the (wanted k)))
      else env p k) \<and> osArgs q = osArgs p \<and> cwd q = cwd p"
  using assms
proof (induction keys arbitrary: p)
  case (Cons key keys)
  define p' where "p' = (if key = workerEndpointEnv \<or> key = workerProofEnv then Unsetenv key p else p\<lparr>env := (env p)(key \<mapsto> the (wanted key))\<rparr>)"
  have "setKeys wanted keys p' = (None, q)" using Cons(2) by (auto simp: p'_def Setenv_def split: if_splits)
  then show ?case using Cons(1) [of p'] Cons(3) by (auto simp: p'_def Unsetenv_def fun_eq_iff)
qed simp

lemma setKeys_other: "setKeys wanted keys p = (r, q) \<Longrightarrow> k \<notin> set keys \<Longrightarrow> env q k = env p k"
  by (induction wanted keys p arbitrary: q rule: setKeys.induct)
    (auto simp: Setenv_def Unsetenv_def split: if_splits)

lemma set_runKeys: "set (runKeys e) = fst ` set e \<union> {workerEndpointEnv, workerProofEnv}"
  by (auto simp: runKeys_def)

lemma process_state:
  assumes "returnable chdir p" "distinct (map fst e)" "Environment run = Some e"
  shows "case applyWorkerProcessState chdir getwdErr run p of
      (Inl _, q) \<Rightarrow> q = p
    | (Inr r, q) \<Rightarrow>
        (\<forall>k. env q k = (if k = workerEndpointEnv \<or> k = workerProofEnv then None else case map_of e k of Some v \<Rightarrow> Some v | None \<Rightarrow> env p k)) \<and>
        osArgs q = hd (osArgs p) # Args run \<and> chdir (cwd p) (WorkingDirectory run) = Inr (cwd q) \<and>
        (\<forall>q'. (\<forall>k. k \<notin> fst ` set e \<union> {workerEndpointEnv, workerProofEnv} \<longrightarrow> env q' k = env p k) \<longrightarrow> restore chdir r q' = p)"
proof -
  define r where "r = \<lparr>previous = map (\<lambda>k. (k, env p k)) (runKeys e), originalArgs = osArgs p, workingDirectory = cwd p\<rparr>"
  have undo: "restore chdir r q' = p" if "\<And>k. k \<notin> set (runKeys e) \<Longrightarrow> env q' k = env p k" for q'
    using restore_original [OF assms(1) that] by (simp add: r_def)
  have mem: "map_of e k = Some v \<Longrightarrow> k \<in> fst ` set e" for k v by (metis map_of_eq_None_iff option.distinct(1))
  show ?thesis
  proof (cases "workerEndpointEnv \<in> fst ` set e \<or> workerProofEnv \<in> fst ` set e \<or> getwdErr \<noteq> None")
    case True
    then show ?thesis using assms(3) by (auto simp: applyWorkerProcessState_def split: option.splits)
  next
    case ok: False
    then have dist: "distinct (runKeys e)" using assms(2) by (auto simp: runKeys_def workerEndpointEnv_def workerProofEnv_def)
    show ?thesis
    proof (cases "chdir (cwd p) (WorkingDirectory run)")
      case (Inl err)
      then show ?thesis using ok assms(3) by (simp add: applyWorkerProcessState_def)
    next
      case (Inr d)
      define p' where "p' = p\<lparr>cwd := d, osArgs := hd (osArgs p) # Args run\<rparr>"
      have pe: "env p' = env p" "osArgs p' = hd (osArgs p) # Args run" "cwd p' = d" by (simp_all add: p'_def)
      obtain x q where x: "setKeys (map_of e) (runKeys e) p' = (x, q)" by fastforce
      have other: "env q k = env p k" if "k \<notin> set (runKeys e)" for k
        using setKeys_other [OF x that] by (simp add: p'_def)
      show ?thesis
      proof (cases x)
        case None
        then have "env q = (\<lambda>k. if k \<in> set (runKeys e) then (if k = workerEndpointEnv \<or> k = workerProofEnv then None
            else Some (the (map_of e k))) else env p k)" "osArgs q = hd (osArgs p) # Args run" "cwd q = d"
          using setKeys_result [of "map_of e" "runKeys e" p' q, unfolded pe] x dist by simp_all
        then show ?thesis using ok assms(3) Inr None x undo
          by (auto simp: applyWorkerProcessState_def Let_def p'_def [symmetric] r_def [symmetric] set_runKeys map_of_eq_None_iff
              split: option.splits dest: mem)
      next
        case (Some ke)
        then show ?thesis using ok assms(3) Inr x undo [OF other]
          by (cases ke) (simp add: applyWorkerProcessState_def Let_def p'_def [symmetric] r_def [symmetric])
      qed
    qed
  qed
qed

text \<open>C19: a run gets exactly the environment, arguments and directory it asks for, without the variables of the worker itself;
  when that fails nothing has changed, and the restoration brings back the original state from whatever the run has done to its
  variables, its arguments and its directory.\<close>

theorem process_state_restored:
  assumes "returnable chdir p" "distinct (map fst e)" "Environment run = Some e"
  shows "case applyWorkerProcessState chdir getwdErr run p of
      (Inl _, q) \<Rightarrow> q = p
    | (Inr r, q) \<Rightarrow>
        (\<forall>k. env q k = (if k = workerEndpointEnv \<or> k = workerProofEnv then None else case map_of e k of Some v \<Rightarrow> Some v | None \<Rightarrow> env p k)) \<and>
        osArgs q = hd (osArgs p) # Args run \<and> chdir (cwd p) (WorkingDirectory run) = Inr (cwd q) \<and>
        (\<forall>q'. (\<forall>k. k \<notin> fst ` set e \<union> {workerEndpointEnv, workerProofEnv} \<longrightarrow> env q' k = env p k) \<longrightarrow> restore chdir r q' = p)"
  by (rule process_state) (fact assms)+

definition sampleProcess :: Process where
  "sampleProcess = \<lparr>env = [workerProofEnv \<mapsto> ''t'', ''HOME'' \<mapsto> ''/root''], osArgs = [''golangci-lint''], cwd = ''/''\<rparr>"

definition sampleRun :: RunPayload where
  "sampleRun = \<lparr>Args = [''run''], WorkingDirectory = ''/src'', Environment = Some [(''GOOS'', ''linux'')]\<rparr>"

lemma sample_returnable: "returnable (\<lambda>_ d. Inr d) sampleProcess"
  by (auto simp: returnable_def sampleProcess_def okEnv_def workerProofEnv_def split: if_splits)

theorem process_state_restored_witness:
  "case applyWorkerProcessState (\<lambda>_ d. Inr d) None sampleRun sampleProcess of
     (Inl _, q) \<Rightarrow> False
   | (Inr r, q) \<Rightarrow> env q ''GOOS'' = Some ''linux'' \<and> env q workerProofEnv = None \<and> restore (\<lambda>_ d. Inr d) r q = sampleProcess"
proof -
  have "\<exists>r q. applyWorkerProcessState (\<lambda>_ d. Inr d) None sampleRun sampleProcess = (Inr r, q)"
    by (simp add: applyWorkerProcessState_def sampleRun_def sampleProcess_def workerEndpointEnv_def workerProofEnv_def runKeys_def
        stable_sort_def Setenv_def Unsetenv_def okEnv_def Let_def)
  then obtain r q where q: "applyWorkerProcessState (\<lambda>_ d. Inr d) None sampleRun sampleProcess = (Inr r, q)" by blast
  have "Environment sampleRun = Some [(''GOOS'', ''linux'')]" by (simp add: sampleRun_def)
  note h = process_state_restored [OF sample_returnable _ this, of None, unfolded q, simplified]
  have "restore (\<lambda>_ d. Inr d) r q = sampleProcess" using h by auto
  moreover have "env q ''GOOS'' = Some ''linux''" using h by (auto simp: workerEndpointEnv_def workerProofEnv_def)
  moreover have "env q workerProofEnv = None" using h by auto
  ultimately show ?thesis unfolding q by simp
qed

lemma state_cases:
  assumes "returnable chdir p" "distinct (map fst e)" "Environment run = Some e" "applyWorkerProcessState chdir getwdErr run p = (x, q)"
  shows "case x of Inl _ \<Rightarrow> q = p
    | Inr r \<Rightarrow> (\<forall>k. k \<notin> fst ` set e \<union> {workerEndpointEnv, workerProofEnv} \<longrightarrow> env q k = env p k) \<and>
        (\<forall>q'. (\<forall>k. k \<notin> fst ` set e \<union> {workerEndpointEnv, workerProofEnv} \<longrightarrow> env q' k = env p k) \<longrightarrow> restore chdir r q' = p)"
  using process_state [OF assms(1-3), of getwdErr] assms(4)
  by (cases x) (auto split: option.splits dest: map_of_SomeD simp: map_of_eq_None_iff)

text \<open>a run that returns, refused ones included, leaves the process as it was; only a run that exits the process does not.
  A run with an error has an outcome in its report and the exit code of a failure, one that exits has the code it exited with.\<close>

theorem worker_run_outcome:
  assumes "returnable chdir p" "distinct (map fst e)" "Environment run = Some e"
    and "\<And>a rec q c rec' q'. command a rec q = (c, rec', q') \<Longrightarrow>
      (\<forall>k. k \<notin> fst ` set e \<union> {workerEndpointEnv, workerProofEnv} \<longrightarrow> env q' k = env q k)"
  shows "case executeWorkerRun chdir getwdErr isWorkerRun fatalSetup command start now run p of ((r, code, err), q) \<Rightarrow>
    (q = p \<or> (\<exists>a rec s rec' q'. command a rec s = (Exited code, rec', q') \<and> q = q' \<and> err = None \<and> rpOutcome r \<noteq> None)) \<and>
    (err \<noteq> None \<longrightarrow> code = Failure)"
proof -
  obtain x q where x: "applyWorkerProcessState chdir getwdErr run p = (x, q)" by fastforce
  note ps = state_cases [OF assms(1-3) x]
  show ?thesis
  proof (cases x)
    case (Inl err)
    then show ?thesis using x ps by (simp add: executeWorkerRun_def)
  next
    case (Inr r)
    obtain c rec' q' where c: "command (Args run) (NewRecorder start) q = (c, rec', q')" by (cases "command (Args run) (NewRecorder start) q")
    have "restore chdir r q = p" "restore chdir r q' = p" using ps Inr assms(4) [OF c] by auto
    then show ?thesis using x Inr c
      by (cases c) (auto simp: executeWorkerRun_def Let_def finishUnlessDone_def Snapshot_def Lifecycle.Finish_def split: option.splits)
  qed
qed

definition failingCommand :: "string list \<Rightarrow> Recorder \<Rightarrow> Process \<Rightarrow> commandEnd \<times> Recorder \<times> Process" where
  "failingCommand a rec q = (Returned (Some ''boom'') 1, rec, q\<lparr>env := (env q)(''GOOS'' \<mapsto> ''plan9''), cwd := ''/tmp''\<rparr>)"

theorem worker_run_outcome_witness:
  "snd (executeWorkerRun (\<lambda>_ d. Inr d) None (\<lambda>_. True) (\<lambda>_. None) failingCommand 0 5 sampleRun sampleProcess) = sampleProcess"
proof -
  have "env q' k = env q k" if "failingCommand a rec q = (c, rec', q')" "k \<notin> fst ` set [(''GOOS'', ''linux'')] \<union> {workerEndpointEnv, workerProofEnv}"
    for a rec q c rec' q' k using that by (auto simp: failingCommand_def)
  then have "case executeWorkerRun (\<lambda>_ d. Inr d) None (\<lambda>_. True) (\<lambda>_. None) failingCommand 0 5 sampleRun sampleProcess of ((r, code, err), q) \<Rightarrow>
      (q = sampleProcess \<or> (\<exists>a rec s rec' q'. failingCommand a rec s = (Exited code, rec', q') \<and> q = q' \<and> err = None \<and> rpOutcome r \<noteq> None)) \<and>
      (err \<noteq> None \<longrightarrow> code = Failure)"
    by (intro worker_run_outcome [OF sample_returnable, of "[(''GOOS'', ''linux'')]"]) (auto simp: sampleRun_def)
  then show ?thesis by (auto simp: failingCommand_def split: prod.splits)
qed

section \<open>The race for the result\<close>

text \<open>
  \<open>executeWorkerCommand\<close>: the command runs in a goroutine of its own, and any goroutine may call the handler of process exits. Each
  claims the right to report, under a lock, and the winner sends its result into a channel with room for one value; the
  caller waits for it. A goroutine that lost the race is over: it has returned or blocks for ever. Goroutine 0 runs the
  command; only it can return.
\<close>

datatype goroutine = Working | Claiming commandEnd | Sending commandEnd | Over

record Race =
  raceOpen :: bool
  terminal :: "commandEnd option"
  result :: "commandEnd option"
  goroutines :: "nat \<Rightarrow> goroutine"

definition raceStart :: Race where
  "raceStart = \<lparr>raceOpen = True, terminal = None, result = None, goroutines = (\<lambda>_. Working)\<rparr>"

fun isReturn :: "commandEnd \<Rightarrow> bool" where
  "isReturn (Returned _ _) = True"
| "isReturn (Exited _) = False"

text \<open>The steps of goroutines that have a result, and of the caller.\<close>

inductive progress :: "Race \<Rightarrow> Race \<Rightarrow> bool" where
  claim: "goroutines s i = Claiming c \<Longrightarrow> raceOpen s \<Longrightarrow>
    progress s (s\<lparr>raceOpen := False, goroutines := (goroutines s)(i := Sending c)\<rparr>)"
| lose: "goroutines s i = Claiming c \<Longrightarrow> \<not> raceOpen s \<Longrightarrow> progress s (s\<lparr>goroutines := (goroutines s)(i := Over)\<rparr>)"
| send: "goroutines s i = Sending c \<Longrightarrow> terminal s = None \<Longrightarrow>
    progress s (s\<lparr>terminal := Some c, goroutines := (goroutines s)(i := Over)\<rparr>)"
| receive: "terminal s = Some c \<Longrightarrow> result s = None \<Longrightarrow> progress s (s\<lparr>terminal := None, result := Some c\<rparr>)"

inductive race_step :: "Race \<Rightarrow> Race \<Rightarrow> bool" where
  finish: "goroutines s i = Working \<Longrightarrow> isReturn c \<Longrightarrow> i = 0 \<Longrightarrow> race_step s (s\<lparr>goroutines := (goroutines s)(i := Claiming c)\<rparr>)"
| exit: "goroutines s i = Working \<Longrightarrow> \<not> isReturn c \<Longrightarrow> race_step s (s\<lparr>goroutines := (goroutines s)(i := Claiming c)\<rparr>)"
| progress: "progress s s' \<Longrightarrow> race_step s s'"

inductive_cases progressE [elim]: "progress s s'"
inductive_cases race_stepE [elim]: "race_step s s'"

text \<open>The number of results between the claim and the caller.\<close>

definition senders :: "Race \<Rightarrow> nat set" where
  "senders s = {i. \<exists>c. goroutines s i = Sending c}"

definition raceInv :: "Race \<Rightarrow> bool" where
  "raceInv s \<longleftrightarrow>
     (if raceOpen s then senders s = {} \<and> terminal s = None \<and> result s = None \<and> (\<forall>i. goroutines s i \<noteq> Over)
      else (\<exists>i. senders s = {i} \<and> terminal s = None \<and> result s = None) \<or>
        (senders s = {} \<and> (terminal s = None) \<noteq> (result s = None)))"

lemma senders_same:
  assumes "\<And>c. goroutines s i \<noteq> Sending c" "\<And>c. g \<noteq> Sending c"
  shows "senders (s\<lparr>goroutines := (goroutines s)(i := g)\<rparr>) = senders s"
  using assms by (auto simp: senders_def)

lemma raceInv_progress: "progress s s' \<Longrightarrow> raceInv s \<Longrightarrow> raceInv s'"
proof (induction rule: progress.induct)
  case (claim s i c)
  then show ?case by (auto simp: raceInv_def senders_def split: if_splits)
next
  case (lose s i c)
  then have "senders (s\<lparr>goroutines := (goroutines s)(i := Over)\<rparr>) = senders s" by (intro senders_same) auto
  then show ?case using lose by (auto simp: raceInv_def split: if_splits)
next
  case (send s i c)
  then have i: "i \<in> senders s" by (simp add: senders_def)
  then have "senders s = {i}" "result s = None" "\<not> raceOpen s" using send(3) by (auto simp: raceInv_def split: if_splits)
  moreover have "senders (s\<lparr>terminal := Some c, goroutines := (goroutines s)(i := Over)\<rparr>) = senders s - {i}" by (auto simp: senders_def)
  ultimately show ?case by (simp add: raceInv_def)
next
  case (receive s c)
  moreover have "senders (s\<lparr>terminal := None, result := Some c\<rparr>) = senders s" by (simp add: senders_def)
  ultimately show ?case by (auto simp: raceInv_def split: if_splits)
qed

lemma raceInv_step: "race_step s s' \<Longrightarrow> raceInv s \<Longrightarrow> raceInv s'"
proof (induction rule: race_step.induct)
  case (finish s i c)
  then have "senders (s\<lparr>goroutines := (goroutines s)(i := Claiming c)\<rparr>) = senders s" by (intro senders_same) auto
  then show ?case using finish by (auto simp: raceInv_def split: if_splits)
next
  case (exit s i c)
  then have "senders (s\<lparr>goroutines := (goroutines s)(i := Claiming c)\<rparr>) = senders s" by (intro senders_same) auto
  then show ?case using exit by (auto simp: raceInv_def split: if_splits)
next
  case (progress s s')
  then show ?case by (rule raceInv_progress)
qed

lemma raceInv_reachable: "race_step\<^sup>*\<^sup>* raceStart s \<Longrightarrow> raceInv s"
proof (induction rule: rtranclp_induct)
  case base
  then show ?case by (simp add: raceStart_def raceInv_def senders_def)
next
  case (step y z)
  then show ?case using raceInv_step by blast
qed

text \<open>The result that won the race is on its way to the caller or has arrived.\<close>

definition carries :: "Race \<Rightarrow> commandEnd \<Rightarrow> bool" where
  "carries s c \<longleftrightarrow> (\<exists>i. goroutines s i = Sending c) \<or> terminal s = Some c \<or> result s = Some c"

lemma carries_keep:
  assumes "carries s c" "\<And>c. goroutines s i \<noteq> Sending c"
  shows "carries (s\<lparr>goroutines := (goroutines s)(i := g)\<rparr>) c"
proof (cases "\<exists>j. goroutines s j = Sending c")
  case True
  then obtain j where j: "goroutines s j = Sending c" by blast
  then have "j \<noteq> i" using assms(2) [of c] by blast
  then have "goroutines (s\<lparr>goroutines := (goroutines s)(i := g)\<rparr>) j = Sending c" using j by simp
  then show ?thesis unfolding carries_def by blast
next
  case False
  then show ?thesis using assms(1) by (simp add: carries_def)
qed

lemma carries_progress: "progress s s' \<Longrightarrow> carries s c \<Longrightarrow> raceInv s \<Longrightarrow> carries s' c"
proof (induction rule: progress.induct)
  case (claim s i c')
  then show ?case by (auto simp: carries_def raceInv_def senders_def)
next
  case (lose s i c')
  then show ?case by (intro carries_keep) auto
next
  case (send s i c')
  then have "i \<in> senders s" by (simp add: senders_def)
  then have one: "senders s = {i}" "result s = None" using send(4) by (auto simp: raceInv_def split: if_splits)
  have "j = i" if "goroutines s j = Sending c" for j using that one(1) unfolding senders_def by blast
  then have "c = c'" using send(1-3) one(2) by (auto simp: carries_def)
  then show ?case by (simp add: carries_def)
next
  case (receive s c')
  then show ?case by (auto simp: carries_def raceInv_def senders_def split: if_splits)
qed

lemma carries_step: "race_step s s' \<Longrightarrow> carries s c \<Longrightarrow> raceInv s \<Longrightarrow> carries s' c"
proof (induction rule: race_step.induct)
  case (progress s s')
  then show ?case using carries_progress by blast
qed (intro carries_keep; simp)+

lemma carries_result: "raceInv s \<Longrightarrow> carries s c \<Longrightarrow> result s = Some c' \<Longrightarrow> c' = c"
  by (auto simp: carries_def raceInv_def senders_def split: if_splits)

text \<open>C20: however the goroutines interleave, no goroutine ever blocks on the channel; once a goroutine has claimed the right to report,
  its result and no other is delivered, and stays; and as long as the caller has none although some goroutine has ended,
  some goroutine or the caller can go on without waiting for new events.\<close>

theorem race_single_result:
  assumes "race_step\<^sup>*\<^sup>* raceStart s"
  shows "(\<forall>i c. goroutines s i = Sending c \<longrightarrow> terminal s = None) \<and>
    (\<forall>c s' c'. carries s c \<and> race_step\<^sup>*\<^sup>* s s' \<and> result s' = Some c' \<longrightarrow> c' = c) \<and>
    (result s = None \<and> (\<exists>i. goroutines s i \<noteq> Working) \<longrightarrow> (\<exists>s'. progress s s'))"
proof (intro conjI allI impI)
  note inv = raceInv_reachable [OF assms]
  show "terminal s = None" if "goroutines s i = Sending c" for i c
    using inv that by (auto simp: raceInv_def senders_def split: if_splits)
  show "c' = c" if h: "carries s c \<and> race_step\<^sup>*\<^sup>* s s' \<and> result s' = Some c'" for c s' c'
  proof -
    from h have "race_step\<^sup>*\<^sup>* s s'" by simp
    then have "raceInv s' \<and> carries s' c"
    proof (induction rule: rtranclp_induct)
      case base
      then show ?case using inv h by simp
    next
      case (step y z)
      then show ?case using raceInv_step carries_step by blast
    qed
    then show ?thesis using carries_result h by blast
  qed
  assume h: "result s = None \<and> (\<exists>i. goroutines s i \<noteq> Working)"
  then obtain i where i: "goroutines s i \<noteq> Working" by blast
  show "\<exists>s'. progress s s'"
  proof (cases "raceOpen s")
    case True
    then have "goroutines s i \<noteq> Over" "senders s = {}" using inv by (auto simp: raceInv_def)
    then obtain c where "goroutines s i = Claiming c" using i by (cases "goroutines s i") (auto simp: senders_def)
    then show ?thesis using progress.claim True by blast
  next
    case False
    then consider j where "senders s = {j}" "terminal s = None" | c where "terminal s = Some c"
      using inv h by (auto simp: raceInv_def)
    then show ?thesis
    proof cases
      case (1 j)
      then obtain c where "goroutines s j = Sending c" by (auto simp: senders_def)
      then show ?thesis using progress.send 1 by blast
    next
      case (2 c)
      then show ?thesis using progress.receive h by blast
    qed
  qed
qed

theorem race_single_result_witness:
  "\<exists>s'. progress (raceStart\<lparr>goroutines := (\<lambda>_. Working)(0 := Claiming (Returned None 0))\<rparr>) s'"
proof -
  let ?s = "raceStart\<lparr>goroutines := (goroutines raceStart)(0 := Claiming (Returned None 0))\<rparr>"
  have s: "?s = raceStart\<lparr>goroutines := (\<lambda>_. Working)(0 := Claiming (Returned None 0))\<rparr>" by (simp add: raceStart_def)
  have "race_step raceStart ?s" by (rule race_step.finish) (simp_all add: raceStart_def)
  then have "race_step\<^sup>*\<^sup>* raceStart ?s" by blast
  moreover have "result ?s = None \<and> goroutines ?s 0 \<noteq> Working" by (simp add: raceStart_def)
  ultimately show ?thesis using race_single_result [of ?s] unfolding s by blast
qed

section \<open>The entry point\<close>

text \<open>\<open>net.SplitHostPort\<close>, \<open>net.ParseIP\<close> with \<open>IsLoopback\<close>, the dialling and the session are parameters.\<close>

datatype entryError = NoToken | InvalidEndpoint string | NotLoopback | Connect string | SessionFailed workerError

definition loopbackAddress :: "(string \<Rightarrow> string + string) \<Rightarrow> (string \<Rightarrow> bool option) \<Rightarrow> string \<Rightarrow> entryError + string" where
  "loopbackAddress splitHost parseIP endpoint = (case splitHost endpoint of
       Inl err \<Rightarrow> Inl (InvalidEndpoint err)
     | Inr host \<Rightarrow> if parseIP host = Some True then Inr endpoint else Inl NotLoopback)"

definition TryExecuteWorker ::
  "(string \<Rightarrow> string + string) \<Rightarrow> (string \<Rightarrow> bool option) \<Rightarrow> (string \<Rightarrow> string + Session) \<Rightarrow>
   (RunPayload \<Rightarrow> Report \<times> int \<times> string option) \<Rightarrow> Process \<Rightarrow> bool \<times> int \<times> entryError option" where
  "TryExecuteWorker splitHost parseIP dial execute p = (case env p workerEndpointEnv of
       None \<Rightarrow> (False, 0, None)
     | Some endpoint \<Rightarrow>
         (let token = (case env p workerProofEnv of None \<Rightarrow> [] | Some t \<Rightarrow> t) in
          if token = [] then (True, Failure, Some NoToken)
          else case loopbackAddress splitHost parseIP endpoint of
            Inl err \<Rightarrow> (True, Failure, Some err)
          | Inr address \<Rightarrow>
              (case dial address of
                 Inl err \<Rightarrow> (True, Failure, Some (Connect err))
               | Inr s \<Rightarrow>
                   (case serveWorker token execute s of
                      ((exitCode, err), _) \<Rightarrow> (True, exitCode, map_option SessionFailed err)))))"

end
