(* ===== verification/Action_Graph.thy ===== *)
theory Action_Graph
  imports Action_Scheduler
begin

text \<open>
  The graph of analysis actions (\<open>pkg/goanalysis/runner.go\<close>, \<open>runner_action.go\<close>): marking and making the actions for the
  given analyzers and packages.

  Analyzers and packages are addresses; the imports of a package, a map in the code, are a list of paths and
  packages in the order in which the map is visited. Actions live in the array of the allocator and are addressed
  by their index. The recursions over imports and requirements, which do not end on cyclic inputs, have fuel; the
  lemmas show that it is enough when it exceeds the depth of the graph.
\<close>

section \<open>Actions\<close>

record Analyzer =
  anName :: string
  Requires :: "nat list"
  FactTypes :: "string list"

record GraphEnv =
  analyzer :: "nat \<Rightarrow> Analyzer"
  importsOf :: "nat \<Rightarrow> (string \<times> nat) list"

type_synonym actKey = "nat \<times> nat"

record action =
  actAnalyzer :: nat
  actPackage :: nat
  IsRoot :: bool
  actDeps :: "nat list"
  isInitialPkg :: bool
  needAnalyzeSource :: bool
  factMaps :: bool

text \<open>The state of the construction: the array of the allocator, the map of actions, the types registered for encoding.\<close>

record GraphState =
  allocatedActions :: "action list"
  nextFreeIndex :: nat
  actionAt :: "actKey \<rightharpoonup> nat"
  gobTypes :: "string set"

definition zeroAction :: action where
  "zeroAction = \<lparr>actAnalyzer = 0, actPackage = 0, IsRoot = False, actDeps = [], isInitialPkg = False, needAnalyzeSource = False, factMaps = False\<rparr>"

definition newActionAllocator :: "nat \<Rightarrow> GraphState" where
  "newActionAllocator maxCount =
     \<lparr>allocatedActions = replicate maxCount zeroAction, nextFreeIndex = 0, actionAt = Map.empty, gobTypes = {}\<rparr>"

datatype graph_panic = TooManyAllocations nat

definition alloc :: "GraphState \<Rightarrow> (graph_panic + nat) \<times> GraphState" where
  "alloc s =
     (if nextFreeIndex s = length (allocatedActions s) then (Inl (TooManyAllocations (length (allocatedActions s))), s)
      else (Inr (nextFreeIndex s), s\<lparr>nextFreeIndex := Suc (nextFreeIndex s)\<rparr>))"

text \<open>A loop whose body can fail and returns a value, and one that only changes the state.\<close>

fun eachR :: "('a \<Rightarrow> 's \<Rightarrow> (('e + 'b) \<times> 's) option) \<Rightarrow> 'a list \<Rightarrow> 's \<Rightarrow> (('e + 'b list) \<times> 's) option" where
  "eachR f [] s = Some (Inr [], s)"
| "eachR f (x # xs) s = thenR (f x s) (\<lambda>y s. thenR (eachR f xs s) (\<lambda>ys s. Some (Inr (y # ys), s)))"

fun eachO :: "('a \<Rightarrow> 's \<Rightarrow> 's option) \<Rightarrow> 'a list \<Rightarrow> 's \<Rightarrow> 's option" where
  "eachO f [] s = Some s"
| "eachO f (x # xs) s = Option.bind (f x s) (eachO f xs)"

section \<open>Marking\<close>

primrec markAllActions :: "nat \<Rightarrow> GraphEnv \<Rightarrow> actKey \<Rightarrow> actKey set \<Rightarrow> actKey set option" where
  "markAllActions 0 G k marked = None"
| "markAllActions (Suc n) G k marked = (let (a, pkg) = k in
     if k \<in> marked then Some marked
     else Option.bind (eachO (markAllActions n G) (map (\<lambda>req. (req, pkg)) (Requires (analyzer G a))) marked) (\<lambda>marked.
       Option.bind (if FactTypes (analyzer G a) \<noteq> [] then eachO (markAllActions n G) (map (\<lambda>(path, imp). (a, imp)) (importsOf G pkg)) marked
                    else Some marked)
         (\<lambda>marked. Some (insert k marked))))"

section \<open>Making\<close>

definition sortedImportPkgs :: "GraphEnv \<Rightarrow> nat \<Rightarrow> nat list" where
  "sortedImportPkgs G p =
     map (\<lambda>path. the (map_of (importsOf G p) path)) (stable_sort (\<lambda>a b. cmp_string a b < 0) (map fst (importsOf G p)))"

definition setAct :: "nat \<Rightarrow> action \<Rightarrow> GraphState \<Rightarrow> GraphState" where
  "setAct i act s = s\<lparr>allocatedActions := (allocatedActions s)[i := act]\<rparr>"

definition addDeps :: "nat \<Rightarrow> nat list \<Rightarrow> GraphState \<Rightarrow> GraphState" where
  "addDeps i ds s = setAct i ((allocatedActions s ! i)\<lparr>actDeps := actDeps (allocatedActions s ! i) @ ds\<rparr>) s"

definition newAct :: "nat set \<Rightarrow> actKey \<Rightarrow> action" where
  "newAct initialPkgs k = \<lparr>actAnalyzer = fst k, actPackage = snd k, IsRoot = False, actDeps = [],
     isInitialPkg = (snd k \<in> initialPkgs), needAnalyzeSource = (snd k \<in> initialPkgs), factMaps = False\<rparr>"

definition buildActionFactDeps ::
  "GraphEnv \<Rightarrow> (actKey \<Rightarrow> GraphState \<Rightarrow> ((graph_panic + nat) \<times> GraphState) option) \<Rightarrow> nat \<Rightarrow> nat \<Rightarrow> nat \<Rightarrow> GraphState \<Rightarrow>
   ((graph_panic + unit) \<times> GraphState) option" where
  "buildActionFactDeps G mk act a pkg s =
     (if FactTypes (analyzer G a) = [] then Some (Inr (), s)
      else thenR (eachR mk (map (\<lambda>imp. (a, imp)) (sortedImportPkgs G pkg)) (setAct act ((allocatedActions s ! act)\<lparr>factMaps := True\<rparr>) s))
        (\<lambda>ds s. Some (Inr (), (addDeps act ds s)\<lparr>gobTypes := gobTypes s \<union> set (FactTypes (analyzer G a))\<rparr>)))"

primrec makeAction :: "nat \<Rightarrow> GraphEnv \<Rightarrow> nat set \<Rightarrow> actKey \<Rightarrow> GraphState \<Rightarrow> ((graph_panic + nat) \<times> GraphState) option" where
  "makeAction 0 G initialPkgs k s = None"
| "makeAction (Suc n) G initialPkgs k s = (let (a, pkg) = k in case actionAt s k of
       Some act \<Rightarrow> Some (Inr act, s)
     | None \<Rightarrow> thenR (Some (alloc s)) (\<lambda>act s.
         thenR (eachR (makeAction n G initialPkgs) (map (\<lambda>req. (req, pkg)) (Requires (analyzer G a))) (setAct act (newAct initialPkgs k) s)) (\<lambda>ds s.
         thenR (buildActionFactDeps G (makeAction n G initialPkgs) act a pkg (addDeps act ds s)) (\<lambda>_ s.
         Some (Inr act, s\<lparr>actionAt := (actionAt s)(k \<mapsto> act)\<rparr>)))))"

text \<open>The roots: every analyzer on every package, in the order of the two loops.\<close>

definition rootKeys :: "nat list \<Rightarrow> nat list \<Rightarrow> actKey list" where
  "rootKeys pkgs analyzers = List.product analyzers pkgs"

fun makeRoots :: "nat \<Rightarrow> GraphEnv \<Rightarrow> nat set \<Rightarrow> actKey list \<Rightarrow> GraphState \<Rightarrow> ((graph_panic + nat list) \<times> GraphState) option" where
  "makeRoots n G initialPkgs [] s = Some (Inr [], s)"
| "makeRoots n G initialPkgs (k # ks) s =
     thenR (makeAction n G initialPkgs k s) (\<lambda>root s.
       thenR (makeRoots n G initialPkgs ks (setAct root ((allocatedActions s ! root)\<lparr>IsRoot := True\<rparr>) s)) (\<lambda>roots s.
         Some (Inr (root # roots), s)))"

definition prepareAnalysis ::
  "nat \<Rightarrow> GraphEnv \<Rightarrow> nat list \<Rightarrow> nat list \<Rightarrow> ((graph_panic + nat list) \<times> GraphState) option" where
  "prepareAnalysis n G pkgs analyzers =
     Option.bind (eachO (markAllActions n G) (rootKeys pkgs analyzers) {}) (\<lambda>marked.
       makeRoots n G (set pkgs) (rootKeys pkgs analyzers) (newActionAllocator (card marked)))"

section \<open>Reachability\<close>

text \<open>Graphs given by the successors of a node: what is reachable, and sets closed under successors.\<close>

locale digraph =
  fixes succs :: "'k \<Rightarrow> 'k list"
begin

definition edges :: "('k \<times> 'k) set" where
  "edges = {(x, y). y \<in> set (succs x)}"

definition reach :: "'k \<Rightarrow> 'k set" where
  "reach x = edges\<^sup>* `` {x}"

definition closedSet :: "'k set \<Rightarrow> bool" where
  "closedSet M \<longleftrightarrow> (\<forall>x \<in> M. set (succs x) \<subseteq> M)"

lemma reach_self [simp]: "x \<in> reach x"
  by (simp add: reach_def)

lemma reach_trans: "y \<in> reach x \<Longrightarrow> z \<in> reach y \<Longrightarrow> z \<in> reach x"
  by (auto simp: reach_def)

lemma reach_succ: "y \<in> set (succs x) \<Longrightarrow> y \<in> reach x"
  by (auto simp: reach_def edges_def)

lemma reach_unfold: "reach x = insert x (\<Union>y \<in> set (succs x). reach y)"
proof
  show "reach x \<subseteq> insert x (\<Union>y \<in> set (succs x). reach y)"
  proof
    fix z assume "z \<in> reach x"
    then have "(x, z) \<in> edges\<^sup>*" by (simp add: reach_def)
    then show "z \<in> insert x (\<Union>y \<in> set (succs x). reach y)"
      by (cases rule: converse_rtranclE) (auto simp: edges_def reach_def)
  qed
  show "insert x (\<Union>y \<in> set (succs x). reach y) \<subseteq> reach x"
    using reach_succ reach_trans by fastforce
qed

lemma closedSet_reach: "closedSet (reach x)"
  using reach_succ reach_trans by (fastforce simp: closedSet_def)

lemma closedSet_Union: "closedSet M \<Longrightarrow> closedSet (M \<union> (\<Union>x \<in> X. reach x))"
  using closedSet_reach unfolding closedSet_def by blast

lemma closedSet_contains: "closedSet M \<Longrightarrow> x \<in> M \<Longrightarrow> reach x \<subseteq> M"
proof
  fix z assume M: "closedSet M" "x \<in> M" and "z \<in> reach x"
  then have "(x, z) \<in> edges\<^sup>*" by (simp add: reach_def)
  then show "z \<in> M" using M by (induction rule: rtrancl_induct) (auto simp: edges_def closedSet_def)
qed

text \<open>A rank that decreases along edges makes the graph acyclic, and finite below every node.\<close>

definition decreasing :: "('k \<Rightarrow> nat) \<Rightarrow> bool" where
  "decreasing rank \<longleftrightarrow> (\<forall>x. \<forall>y \<in> set (succs x). rank y < rank x)"

lemma decreasingD: "decreasing rank \<Longrightarrow> y \<in> set (succs x) \<Longrightarrow> rank y < rank x"
  by (simp add: decreasing_def)

lemma reach_rank: "decreasing rank \<Longrightarrow> y \<in> reach x \<Longrightarrow> y = x \<or> rank y < rank x"
proof -
  assume d: "decreasing rank" and "y \<in> reach x"
  then have "(x, y) \<in> edges\<^sup>*" by (simp add: reach_def)
  then show ?thesis
    using d by (induction rule: rtrancl_induct) (auto simp: edges_def decreasing_def dest: less_trans)
qed

lemma not_below_self: "decreasing rank \<Longrightarrow> x \<notin> (\<Union>y \<in> set (succs x). reach y)"
proof
  assume d: "decreasing rank" and "x \<in> (\<Union>y \<in> set (succs x). reach y)"
  then obtain y where "y \<in> set (succs x)" "x \<in> reach y" by blast
  then show False using reach_rank [OF d, of x y] decreasingD [OF d, of y x] by auto
qed

lemma finite_reach: "decreasing rank \<Longrightarrow> finite (reach x)"
proof (induction "rank x" arbitrary: x rule: less_induct)
  case less
  then show ?case unfolding reach_unfold [of x] by (auto simp: decreasing_def)
qed

end

section \<open>The graph that is made\<close>

definition depKeys :: "GraphEnv \<Rightarrow> actKey \<Rightarrow> actKey list" where
  "depKeys G k = map (\<lambda>req. (req, snd k)) (Requires (analyzer G (fst k))) @
     (if FactTypes (analyzer G (fst k)) = [] then [] else map (\<lambda>imp. (fst k, imp)) (sortedImportPkgs G (snd k)))"

interpretation keys: digraph "depKeys G" for G .

definition wellNamed :: "GraphEnv \<Rightarrow> bool" where
  "wellNamed G \<longleftrightarrow> (\<forall>p. distinct (map fst (importsOf G p)))"

lemma set_sortedImportPkgs: "wellNamed G \<Longrightarrow> set (sortedImportPkgs G p) = snd ` set (importsOf G p)"
proof -
  assume "wellNamed G"
  then have "the (map_of (importsOf G p) (fst x)) = snd x" if "x \<in> set (importsOf G p)" for x
    using that by (cases x) (auto simp: wellNamed_def)
  then show ?thesis by (force simp: sortedImportPkgs_def image_iff)
qed

lemma eachO_reach:
  assumes "\<And>k M. k \<in> set ks \<Longrightarrow> keys.closedSet G M \<Longrightarrow> f k M = Some (M \<union> keys.reach G k)"
  shows "keys.closedSet G M \<Longrightarrow> eachO f ks M = Some (M \<union> (\<Union>k \<in> set ks. keys.reach G k))"
  using assms
proof (induction ks arbitrary: M)
  case (Cons k ks)
  have "keys.closedSet G (M \<union> keys.reach G k)" using keys.closedSet_Union [OF Cons.prems(1), of "{k}"] by simp
  then have "eachO f ks (M \<union> keys.reach G k) = Some (M \<union> keys.reach G k \<union> (\<Union>k \<in> set ks. keys.reach G k))"
    using Cons.IH [OF _ Cons.prems(2)] by simp
  then show ?case using Cons.prems by (simp add: Un_assoc)
qed simp

lemma markAllActions_reach:
  assumes "wellNamed G" "keys.decreasing G rank"
  shows "rank k < n \<Longrightarrow> keys.closedSet G M \<Longrightarrow> markAllActions n G k M = Some (M \<union> keys.reach G k)"
proof (induction n arbitrary: k M)
  case (Suc n)
  obtain a p where k: "k = (a, p)" by (cases k)
  show ?case
  proof (cases "k \<in> M")
    case True
    then show ?thesis using keys.closedSet_contains [OF Suc.prems(2) True] by (auto simp: k)
  next
    case False
    let ?rs = "map (\<lambda>req. (req, p)) (Requires (analyzer G a))"
    let ?is = "map (\<lambda>(path, imp). (a, imp)) (importsOf G p)"
    have deps: "set (depKeys G k) = set ?rs \<union> (if FactTypes (analyzer G a) = [] then {} else set ?is)"
      using set_sortedImportPkgs [OF assms(1), of p] by (auto simp: depKeys_def k image_iff) force+
    have sub: "markAllActions n G d M = Some (M \<union> keys.reach G d)" if "d \<in> set (depKeys G k)" "keys.closedSet G M" for d M
      using Suc.IH [of d M] Suc.prems(1) keys.decreasingD [OF assms(2) that(1)] that(2) by simp
    let ?M1 = "M \<union> (\<Union>k \<in> set ?rs. keys.reach G k)"
    have one: "eachO (markAllActions n G) ?rs M = Some ?M1" by (rule eachO_reach [OF _ Suc.prems(2)]) (use sub deps in auto)
    have "keys.closedSet G ?M1" by (rule keys.closedSet_Union [OF Suc.prems(2)])
    then have "FactTypes (analyzer G a) \<noteq> [] \<Longrightarrow> eachO (markAllActions n G) ?is ?M1 = Some (?M1 \<union> (\<Union>k \<in> set ?is. keys.reach G k))"
      using sub deps by (intro eachO_reach) auto
    then have "markAllActions (Suc n) G k M = Some (insert k (?M1 \<union> (if FactTypes (analyzer G a) = [] then {} else \<Union>k \<in> set ?is. keys.reach G k)))"
      using one False by (simp add: k)
    also have "?M1 \<union> (if FactTypes (analyzer G a) = [] then {} else \<Union>k \<in> set ?is. keys.reach G k) = M \<union> (\<Union>k \<in> set (depKeys G k). keys.reach G k)"
      unfolding deps by (cases "FactTypes (analyzer G a) = []") (simp_all add: Un_assoc UN_Un)
    finally show ?thesis using keys.reach_unfold [of G k] by simp
  qed
qed simp

text \<open>The action of a key, given where the actions of other keys are; and the states between two calls, in which the
  actions \<open>Rt\<close> are marked as roots.\<close>

definition actOf :: "GraphEnv \<Rightarrow> nat set \<Rightarrow> (actKey \<rightharpoonup> nat) \<Rightarrow> actKey \<Rightarrow> action" where
  "actOf G I m k = (newAct I k)\<lparr>actDeps := map (\<lambda>d. the (m d)) (depKeys G k), factMaps := FactTypes (analyzer G (fst k)) \<noteq> []\<rparr>"

definition graphOk :: "GraphEnv \<Rightarrow> nat set \<Rightarrow> nat set \<Rightarrow> GraphState \<Rightarrow> bool" where
  "graphOk G I Rt s \<longleftrightarrow> keys.closedSet G (dom (actionAt s)) \<and> inj_on (actionAt s) (dom (actionAt s)) \<and>
     nextFreeIndex s \<le> length (allocatedActions s) \<and> Rt \<subseteq> {..<nextFreeIndex s} \<and>
     (\<forall>k i. actionAt s k = Some i \<longrightarrow> i < nextFreeIndex s \<and> allocatedActions s ! i = (actOf G I (actionAt s) k)\<lparr>IsRoot := i \<in> Rt\<rparr>)"

lemma graphOkD:
  assumes "graphOk G I Rt s" "actionAt s k = Some i"
  shows "i < nextFreeIndex s" "allocatedActions s ! i = (actOf G I (actionAt s) k)\<lparr>IsRoot := i \<in> Rt\<rparr>"
  using assms unfolding graphOk_def by blast+

text \<open>The keys \<open>K\<close> are made between two states; the actions \<open>X\<close> are still under construction.\<close>

definition made :: "GraphEnv \<Rightarrow> nat set \<Rightarrow> nat set \<Rightarrow> nat set \<Rightarrow> GraphState \<Rightarrow> actKey set \<Rightarrow> GraphState \<Rightarrow> bool" where
  "made G I Rt X s K s' \<longleftrightarrow> graphOk G I Rt s' \<and> actionAt s \<subseteq>\<^sub>m actionAt s' \<and> dom (actionAt s') = dom (actionAt s) \<union> K \<and>
     nextFreeIndex s' = nextFreeIndex s + card (K - dom (actionAt s)) \<and>
     length (allocatedActions s') = length (allocatedActions s) \<and>
     (\<forall>j < nextFreeIndex s. j \<notin> X \<longrightarrow> allocatedActions s' ! j = allocatedActions s ! j) \<and>
     (\<forall>k i. actionAt s k = None \<longrightarrow> actionAt s' k = Some i \<longrightarrow> nextFreeIndex s \<le> i)"

lemma made_keeps: "made G I Rt X s K s' \<Longrightarrow> actionAt s k = Some i \<Longrightarrow> actionAt s' k = Some i"
  unfolding made_def map_le_def by (metis domI)

lemma made_new: "made G I Rt X s K s' \<Longrightarrow> actionAt s k = None \<Longrightarrow> actionAt s' k = Some i \<Longrightarrow> nextFreeIndex s \<le> i"
  unfolding made_def by blast

lemma made_frame: "made G I Rt X s K s' \<Longrightarrow> j < nextFreeIndex s \<Longrightarrow> j \<notin> X \<Longrightarrow> allocatedActions s' ! j = allocatedActions s ! j"
  unfolding made_def by blast

lemma made_refl: "graphOk G I Rt s \<Longrightarrow> made G I Rt X s {} s"
  by (simp add: made_def)

lemma made_trans:
  assumes "made G I Rt X s K s1" "made G I Rt X s1 L s2" "finite K" "finite L"
  shows "made G I Rt X s (K \<union> L) s2"
proof -
  let ?D = "dom (actionAt s)"
  have a: "dom (actionAt s1) = ?D \<union> K" "nextFreeIndex s1 = nextFreeIndex s + card (K - ?D)"
    "nextFreeIndex s2 = nextFreeIndex s1 + card (L - dom (actionAt s1))" "dom (actionAt s2) = dom (actionAt s1) \<union> L"
    using assms(1,2) by (simp_all add: made_def)
  have "card (K \<union> L - ?D) = card (K - ?D) + card (L - (?D \<union> K))"
    by (subst card_Un_disjoint [symmetric]) (use assms(3,4) in \<open>auto intro!: arg_cong [where f = card]\<close>)
  then have n: "nextFreeIndex s2 = nextFreeIndex s + card (K \<union> L - ?D)" using a by simp
  have new: "nextFreeIndex s \<le> i" if "actionAt s k = None" "actionAt s2 k = Some i" for k i
  proof (cases "actionAt s1 k")
    case None
    then show ?thesis using made_new [OF assms(2) _ that(2)] a(2) by simp
  next
    case (Some j)
    then have "j = i" using made_keeps [OF assms(2) Some] that(2) by simp
    then show ?thesis using made_new [OF assms(1) that(1) Some] by simp
  qed
  have le: "actionAt s \<subseteq>\<^sub>m actionAt s2" using assms(1,2) map_le_trans unfolding made_def by blast
  have same: "allocatedActions s2 ! j = allocatedActions s ! j" if "j < nextFreeIndex s" "j \<notin> X" for j
    using made_frame [OF assms(1) that] made_frame [OF assms(2) _ that(2)] that(1) a(2) by simp
  have "graphOk G I Rt s2" "length (allocatedActions s2) = length (allocatedActions s)" using assms(1,2) by (simp_all add: made_def)
  then show ?thesis using le same n a(1,4) new unfolding made_def by (simp add: Un_assoc)
qed

lemma eachR_made:
  assumes f: "\<And>k s. k \<in> set ks \<Longrightarrow> graphOk G I Rt s \<Longrightarrow>
      nextFreeIndex s + card (keys.reach G k - dom (actionAt s)) \<le> length (allocatedActions s) \<Longrightarrow>
      \<exists>i s'. f k s = Some (Inr i, s') \<and> made G I Rt {} s (keys.reach G k) s' \<and> actionAt s' k = Some i"
    and fin: "\<And>k. finite (keys.reach G k)"
  shows "graphOk G I Rt s \<Longrightarrow> nextFreeIndex s + card ((\<Union>k \<in> set ks. keys.reach G k) - dom (actionAt s)) \<le> length (allocatedActions s) \<Longrightarrow>
    \<exists>s'. eachR f ks s = Some (Inr (map (\<lambda>k. the (actionAt s' k)) ks), s') \<and> made G I Rt {} s (\<Union>k \<in> set ks. keys.reach G k) s'"
  using f
proof (induction ks arbitrary: s)
  case Nil
  then show ?case by (simp add: made_refl)
next
  case (Cons k ks)
  let ?K = "keys.reach G k" and ?L = "\<Union>k \<in> set ks. keys.reach G k" and ?D = "dom (actionAt s)"
  have fin': "finite ?K" "finite ?L" using fin by simp_all
  have cap: "nextFreeIndex s + card (?K \<union> ?L - ?D) \<le> length (allocatedActions s)" using Cons.prems(2) by simp
  have "card (?K - ?D) \<le> card (?K \<union> ?L - ?D)" using fin' by (intro card_mono) auto
  then obtain i s1 where one: "f k s = Some (Inr i, s1)" "made G I Rt {} s ?K s1" "actionAt s1 k = Some i"
    using Cons.prems(3) [of k s] Cons.prems(1) cap by auto
  have s1: "graphOk G I Rt s1" "dom (actionAt s1) = ?D \<union> ?K" "nextFreeIndex s1 = nextFreeIndex s + card (?K - ?D)"
    "length (allocatedActions s1) = length (allocatedActions s)"
    using one(2) by (simp_all add: made_def)
  have "card (?K \<union> ?L - ?D) = card (?K - ?D) + card (?L - (?D \<union> ?K))"
    by (subst card_Un_disjoint [symmetric]) (use fin' in \<open>auto intro!: arg_cong [where f = card]\<close>)
  then have "nextFreeIndex s1 + card (?L - dom (actionAt s1)) \<le> length (allocatedActions s1)" using cap s1 by simp
  then obtain s2 where two: "eachR f ks s1 = Some (Inr (map (\<lambda>k. the (actionAt s2 k)) ks), s2)" "made G I Rt {} s1 ?L s2"
    using Cons.IH [OF s1(1) _ Cons.prems(3)] by auto
  have "actionAt s2 k = Some i" by (rule made_keeps [OF two(2) one(3)])
  then show ?case using one(1) two(1) made_trans [OF one(2) two(2) fin'] by simp
qed

text \<open>Changing an action under construction.\<close>

definition touched :: "nat \<Rightarrow> GraphState \<Rightarrow> GraphState \<Rightarrow> bool" where
  "touched i s s' \<longleftrightarrow> actionAt s' = actionAt s \<and> nextFreeIndex s' = nextFreeIndex s \<and>
     length (allocatedActions s') = length (allocatedActions s) \<and> (\<forall>j. j \<noteq> i \<longrightarrow> allocatedActions s' ! j = allocatedActions s ! j)"

lemma touched_setAct: "touched i s (setAct i act s)" "touched i s (addDeps i ds s)"
  by (simp_all add: touched_def setAct_def addDeps_def)

lemma touched_graphOk:
  assumes "touched i s s'" "graphOk G I Rt s" "i \<notin> ran (actionAt s)"
  shows "graphOk G I Rt s'"
proof -
  have t: "actionAt s' = actionAt s" "nextFreeIndex s' = nextFreeIndex s" "length (allocatedActions s') = length (allocatedActions s)"
    "\<And>j. j \<noteq> i \<Longrightarrow> allocatedActions s' ! j = allocatedActions s ! j" using assms(1) by (simp_all add: touched_def)
  have "allocatedActions s' ! j = allocatedActions s ! j" if "actionAt s k = Some j" for k j
    using t(4) [of j] assms(3) ranI [of "actionAt s" k j] that by blast
  then show ?thesis using assms(2) t(1-3) by (simp add: graphOk_def)
qed

lemma touched_made:
  assumes "made G I Rt {i} s K s1" "touched i s1 s2" "i < nextFreeIndex s" "i \<notin> ran (actionAt s)"
  shows "made G I Rt {i} s K s2" "i \<notin> ran (actionAt s2)"
proof -
  have nr: "i \<notin> ran (actionAt s1)"
  proof
    assume "i \<in> ran (actionAt s1)"
    then obtain k where k: "actionAt s1 k = Some i" by (auto simp: ran_def)
    then have "actionAt s k = None" using assms(4) made_keeps [OF assms(1), of k] ranI [of "actionAt s" k] by (cases "actionAt s k") auto
    then show False using made_new [OF assms(1) _ k] assms(3) by simp
  qed
  then show "i \<notin> ran (actionAt s2)" using assms(2) by (simp add: touched_def)
  have "graphOk G I Rt s2" by (rule touched_graphOk [OF assms(2) _ nr]) (use assms(1) in \<open>simp add: made_def\<close>)
  moreover have "j < nextFreeIndex s \<Longrightarrow> j \<notin> {i} \<Longrightarrow> allocatedActions s2 ! j = allocatedActions s ! j" for j
    using assms(2) made_frame [OF assms(1), of j] by (simp add: touched_def)
  ultimately show "made G I Rt {i} s K s2" using assms(1,2) unfolding made_def touched_def by simp
qed

lemma made_weaken: "made G I Rt {} s K s' \<Longrightarrow> made G I Rt X s K s'"
  by (simp add: made_def)

text \<open>The finished action is entered into the map.\<close>

lemma enter_made:
  assumes s0: "s0 = setAct i (newAct I k) (s\<lparr>nextFreeIndex := Suc i\<rparr>)" "i = nextFreeIndex s" "i < length (allocatedActions s)"
    and ok: "graphOk G I Rt s" "k \<notin> dom (actionAt s)" and m: "made G I Rt {i} s0 K s2"
    and K: "K = (\<Union>d \<in> set (depKeys G k). keys.reach G d)" "k \<notin> K" "finite K"
    and act: "allocatedActions s2 ! i = actOf G I (actionAt s2) k" and nr: "i \<notin> ran (actionAt s2)"
  shows "made G I Rt {} s (insert k K) (s2\<lparr>actionAt := (actionAt s2)(k \<mapsto> i)\<rparr>)"
proof -
  let ?m = "(actionAt s2)(k \<mapsto> i)" and ?s = "s2\<lparr>actionAt := (actionAt s2)(k \<mapsto> i)\<rparr>" and ?D = "dom (actionAt s)"
  have s2: "graphOk G I Rt s2" "dom (actionAt s2) = ?D \<union> K" "nextFreeIndex s2 = Suc i + card (K - ?D)"
    "length (allocatedActions s2) = length (allocatedActions s)" "actionAt s \<subseteq>\<^sub>m actionAt s2"
    using m s0(1) by (simp_all add: made_def setAct_def)
  have kd: "k \<notin> dom (actionAt s2)" using s2(2) ok(2) K(2) by simp
  have deps: "set (depKeys G k') \<subseteq> dom (actionAt s2)" if "k' \<in> insert k (dom (actionAt s2))" for k'
  proof (cases "k' = k")
    case True
    have "set (depKeys G k) \<subseteq> K" unfolding K(1) using keys.reach_self by fastforce
    then show ?thesis using True s2(2) by auto
  next
    case False
    then show ?thesis using that s2(1) by (simp add: graphOk_def keys.closedSet_def)
  qed
  have same: "actOf G I ?m k' = actOf G I (actionAt s2) k'" if "k' \<in> insert k (dom (actionAt s2))" for k'
  proof -
    have "d \<noteq> k" if "d \<in> set (depKeys G k')" for d using deps [OF \<open>k' \<in> _\<close>] kd that by blast
    then show ?thesis by (simp add: actOf_def)
  qed
  have "i < nextFreeIndex s2" using s2(3) by simp
  moreover have "i \<notin> Rt" using ok(1) s0(2) by (auto simp: graphOk_def)
  then have "(actOf G I (actionAt s2) k)\<lparr>IsRoot := i \<in> Rt\<rparr> = actOf G I (actionAt s2) k" by (simp add: actOf_def newAct_def)
  ultimately have all: "j < nextFreeIndex s2 \<and> allocatedActions s2 ! j = (actOf G I ?m k')\<lparr>IsRoot := j \<in> Rt\<rparr>" if "?m k' = Some j" for k' j
    using that same [of k'] act graphOkD [OF s2(1), of k' j] domI [of "actionAt s2" k' j] by (cases "k' = k") auto
  have "inj_on ?m (dom ?m)"
  proof (rule inj_onI)
    fix x y assume xy: "x \<in> dom ?m" "y \<in> dom ?m" "?m x = ?m y"
    have ne: "actionAt s2 z \<noteq> Some i" for z using nr ranI [of "actionAt s2" z i] by blast
    have inj: "inj_on (actionAt s2) (dom (actionAt s2))" using s2(1) by (simp add: graphOk_def)
    show "x = y" using xy ne [of x] ne [of y] inj_onD [OF inj, of x y] by (cases "x = k"; cases "y = k") auto
  qed
  moreover have "dom ?m = insert k (dom (actionAt s2))" by simp
  then have "keys.closedSet G (dom ?m)" unfolding keys.closedSet_def using deps by (simp only:) blast
  ultimately have g: "graphOk G I Rt ?s" using all s2(1) by (simp add: graphOk_def)
  have "card (insert k K - ?D) = Suc (card (K - ?D))" using K(2,3) ok(2) by (simp add: insert_Diff_if)
  moreover have "actionAt s \<subseteq>\<^sub>m ?m" using s2(5) ok(2) by (simp add: map_le_def dom_def)
  moreover have "allocatedActions s2 ! j = allocatedActions s ! j" if "j < nextFreeIndex s" for j
    using made_frame [OF m, of j] that s0 by (simp add: setAct_def)
  moreover have "nextFreeIndex s \<le> j" if "actionAt s k' = None" "?m k' = Some j" for k' j
    using made_new [OF m, of k' j] that s0 by (cases "k' = k") (auto simp: setAct_def)
  ultimately show ?thesis using g s2 s0(2) unfolding made_def by simp
qed

lemma addDeps_at: "i < length (allocatedActions s) \<Longrightarrow>
    allocatedActions (addDeps i ds s) ! i = (allocatedActions s ! i)\<lparr>actDeps := actDeps (allocatedActions s ! i) @ ds\<rparr>"
  by (simp add: addDeps_def setAct_def)

text \<open>The second half of the construction, for an action \<open>i\<close> that already has the dependencies on required analyzers.\<close>

lemma buildActionFactDeps_made:
  assumes m: "made G I Rt {i} s0 K s1" "finite K" and i: "i < nextFreeIndex s0" "i \<notin> ran (actionAt s0)" "i < length (allocatedActions s1)"
    and at: "allocatedActions s1 ! i = (newAct I (a, p))\<lparr>actDeps := ds\<rparr>"
    and fs: "fs = (if FactTypes (analyzer G a) = [] then [] else map (\<lambda>imp. (a, imp)) (sortedImportPkgs G p))"
    and L: "L = (\<Union>d \<in> set fs. keys.reach G d)" "finite L"
    and cap: "nextFreeIndex s1 + card (L - dom (actionAt s1)) \<le> length (allocatedActions s1)"
    and each: "\<And>t. graphOk G I Rt t \<Longrightarrow> nextFreeIndex t + card (L - dom (actionAt t)) \<le> length (allocatedActions t) \<Longrightarrow>
      \<exists>t'. eachR mk fs t = Some (Inr (map (\<lambda>k. the (actionAt t' k)) fs), t') \<and> made G I Rt {} t L t'"
  shows "\<exists>s2. buildActionFactDeps G mk i a p s1 = Some (Inr (), s2) \<and> made G I Rt {i} s0 (K \<union> L) s2 \<and> i \<notin> ran (actionAt s2) \<and>
    actionAt s1 \<subseteq>\<^sub>m actionAt s2 \<and>
    allocatedActions s2 ! i = (newAct I (a, p))\<lparr>actDeps := ds @ map (\<lambda>k. the (actionAt s2 k)) fs, factMaps := FactTypes (analyzer G a) \<noteq> []\<rparr>"
proof (cases "FactTypes (analyzer G a) = []")
  case True
  then have "fs = []" "L = {}" by (simp_all add: fs L(1))
  moreover have "i \<notin> ran (actionAt s1)" by (rule touched_made(2) [OF m(1) _ i(1,2)]) (simp add: touched_def)
  ultimately show ?thesis using True m(1) at by (simp add: buildActionFactDeps_def newAct_def map_le_refl)
next
  case False
  define s1b where "s1b = setAct i ((allocatedActions s1 ! i)\<lparr>factMaps := True\<rparr>) s1"
  note m1b = touched_made [OF m(1) touched_setAct(1) [where act = "(allocatedActions s1 ! i)\<lparr>factMaps := True\<rparr>"] i(1,2), folded s1b_def]
  have s1b: "actionAt s1b = actionAt s1" "nextFreeIndex s1b = nextFreeIndex s1" "length (allocatedActions s1b) = length (allocatedActions s1)"
    "allocatedActions s1b ! i = (allocatedActions s1 ! i)\<lparr>factMaps := True\<rparr>" "graphOk G I Rt s1b"
    using i(3) m1b(1) by (simp_all add: s1b_def setAct_def made_def)
  obtain s2 where two: "eachR mk fs s1b = Some (Inr (map (\<lambda>k. the (actionAt s2 k)) fs), s2)" "made G I Rt {} s1b L s2"
    using each [of s1b] s1b cap by auto
  define s2b where "s2b = (addDeps i (map (\<lambda>k. the (actionAt s2 k)) fs) s2)\<lparr>gobTypes := gobTypes s2 \<union> set (FactTypes (analyzer G a))\<rparr>"
  have t: "touched i s2 s2b" using touched_setAct(2) [of i s2] by (simp add: s2b_def touched_def)
  note m2 = touched_made [OF made_trans [OF m1b(1) made_weaken [OF two(2)] m(2) L(2)] t i(1,2)]
  have "nextFreeIndex s0 \<le> nextFreeIndex s1" "actionAt s1b \<subseteq>\<^sub>m actionAt s2" using m(1) two(2) by (simp_all add: made_def)
  moreover have "allocatedActions s2 ! i = allocatedActions s1b ! i" using made_frame [OF two(2), of i] s1b(2) i(1) calculation(1) by simp
  moreover have "length (allocatedActions s2) = length (allocatedActions s1)" using two(2) s1b(3) by (simp add: made_def)
  ultimately have "allocatedActions s2b ! i =
      (newAct I (a, p))\<lparr>actDeps := ds @ map (\<lambda>k. the (actionAt s2b k)) fs, factMaps := FactTypes (analyzer G a) \<noteq> []\<rparr>" "actionAt s1 \<subseteq>\<^sub>m actionAt s2b"
    using False i(3) s1b(1,4) at addDeps_at [of i s2] by (simp_all add: s2b_def newAct_def) (simp_all add: addDeps_def setAct_def)
  moreover have "buildActionFactDeps G mk i a p s1 = Some (Inr (), s2b)"
    using False two(1) by (simp add: buildActionFactDeps_def fs s1b_def s2b_def)
  ultimately show ?thesis using m2 by blast
qed

lemma makeAction_made:
  assumes "keys.decreasing G rank"
  shows "rank k < n \<Longrightarrow> graphOk G I Rt s \<Longrightarrow>
    nextFreeIndex s + card (keys.reach G k - dom (actionAt s)) \<le> length (allocatedActions s) \<Longrightarrow>
    \<exists>i s'. makeAction n G I k s = Some (Inr i, s') \<and> made G I Rt {} s (keys.reach G k) s' \<and> actionAt s' k = Some i"
proof (induction n arbitrary: k s)
  case (Suc n)
  note fin = keys.finite_reach [OF assms]
  obtain a p where k: "k = (a, p)" by (cases k)
  let ?D = "dom (actionAt s)"
  show ?case
  proof (cases "actionAt s k")
    case (Some i)
    then have "keys.reach G k \<subseteq> ?D" using keys.closedSet_contains [of G ?D k] Suc.prems(2) by (auto simp: graphOk_def)
    then have "keys.reach G k - ?D = {}" "?D \<union> keys.reach G k = ?D" by auto
    then have "card (keys.reach G k - ?D) = 0" "?D \<union> keys.reach G k = ?D" by (simp_all only: card.empty)
    then have "made G I Rt {} s (keys.reach G k) s" using Suc.prems(2) by (simp add: made_def)
    then show ?thesis using Some by (auto simp: k)
  next
    case None
    define i where "i = nextFreeIndex s"
    define rs where "rs = map (\<lambda>req. (req, p)) (Requires (analyzer G a))"
    define fs where "fs = (if FactTypes (analyzer G a) = [] then [] else map (\<lambda>imp. (a, imp)) (sortedImportPkgs G p))"
    define R where "R = (\<lambda>ks. \<Union>d \<in> set ks. keys.reach G d)"
    have ds: "depKeys G k = rs @ fs" by (simp add: depKeys_def k rs_def fs_def)
    have K: "keys.reach G k = insert k (R (depKeys G k))" "k \<notin> R (depKeys G k)" "R (depKeys G k) = R rs \<union> R fs"
      using keys.reach_unfold [of G k] keys.not_below_self [OF assms, of k] by (simp_all add: R_def ds UN_Un)
    have finR: "finite (R ks)" for ks using fin by (simp add: R_def)
    have kD: "k \<notin> ?D" using None by (simp add: domIff)
    have "card (keys.reach G k - ?D) = Suc (card (R (depKeys G k) - ?D))"
      using K(1,2) kD finR by (simp add: insert_Diff_if)
    then have cap: "Suc i + card (R rs \<union> R fs - ?D) \<le> length (allocatedActions s)" using Suc.prems(3) K(3) by (simp add: i_def)
    then have il: "i < length (allocatedActions s)" by simp
    define s0 where "s0 = setAct i (newAct I k) (s\<lparr>nextFreeIndex := Suc i\<rparr>)"
    have al: "alloc s = (Inr i, s\<lparr>nextFreeIndex := Suc i\<rparr>)" using il by (simp add: alloc_def i_def)
    have nr: "i \<notin> ran (actionAt s)" using graphOkD(1) [OF Suc.prems(2)] by (auto simp: ran_def i_def)
    have "graphOk G I Rt (s\<lparr>nextFreeIndex := Suc i\<rparr>)" using Suc.prems(2) il by (auto simp: graphOk_def i_def less_Suc_eq)
    then have ok0: "graphOk G I Rt s0" unfolding s0_def using touched_graphOk [OF touched_setAct(1)] nr by simp
    have s0: "actionAt s0 = actionAt s" "nextFreeIndex s0 = Suc i" "length (allocatedActions s0) = length (allocatedActions s)"
      "allocatedActions s0 ! i = newAct I k" using il by (simp_all add: s0_def setAct_def)
    have each: "\<exists>s'. eachR (makeAction n G I) ks t = Some (Inr (map (\<lambda>k. the (actionAt s' k)) ks), s') \<and> made G I Rt {} t (R ks) s'"
      if "set ks \<subseteq> set (depKeys G k)" "graphOk G I Rt t" "nextFreeIndex t + card (R ks - dom (actionAt t)) \<le> length (allocatedActions t)" for ks t
      unfolding R_def
    proof (rule eachR_made [OF _ fin that(2) that(3) [unfolded R_def]])
      fix d u assume d: "d \<in> set ks" and "graphOk G I Rt u" "nextFreeIndex u + card (keys.reach G d - dom (actionAt u)) \<le> length (allocatedActions u)"
      then show "\<exists>i s'. makeAction n G I d u = Some (Inr i, s') \<and> made G I Rt {} u (keys.reach G d) s' \<and> actionAt s' d = Some i"
        using Suc.IH [of d u] keys.decreasingD [OF assms, of d k] that(1) Suc.prems(1) by auto
    qed
    have "card (R rs - ?D) \<le> card (R rs \<union> R fs - ?D)" using finR by (intro card_mono) auto
    then obtain s1 where one: "eachR (makeAction n G I) rs s0 = Some (Inr (map (\<lambda>k. the (actionAt s1 k)) rs), s1)" "made G I Rt {} s0 (R rs) s1"
      using each [of rs s0] ds ok0 s0 cap by auto
    have nr0: "i \<notin> ran (actionAt s0)" "i < nextFreeIndex s0" using nr s0 by simp_all
    define s1a where "s1a = addDeps i (map (\<lambda>k. the (actionAt s1 k)) rs) s1"
    note m1a = touched_made [OF made_weaken [OF one(2)] touched_setAct(2) [where ds = "map (\<lambda>k. the (actionAt s1 k)) rs"] nr0(2,1), folded s1a_def]
    have s1: "dom (actionAt s1) = ?D \<union> R rs" "nextFreeIndex s1 = Suc i + card (R rs - ?D)" "length (allocatedActions s1) = length (allocatedActions s)"
      using one(2) s0 by (simp_all add: made_def)
    have "allocatedActions s1 ! i = newAct I k" using made_frame [OF one(2), of i] s0 by simp
    then have s1a: "actionAt s1a = actionAt s1" "nextFreeIndex s1a = nextFreeIndex s1" "length (allocatedActions s1a) = length (allocatedActions s)"
      "allocatedActions s1a ! i = (newAct I k)\<lparr>actDeps := map (\<lambda>k. the (actionAt s1 k)) rs\<rparr>"
      using il s1 addDeps_at [of i s1] by (simp_all add: s1a_def newAct_def) (simp_all add: addDeps_def setAct_def)
    have run: "makeAction (Suc n) G I k s =
        thenR (buildActionFactDeps G (makeAction n G I) i a p s1a) (\<lambda>_ s. Some (Inr i, s\<lparr>actionAt := (actionAt s)(k \<mapsto> i)\<rparr>))"
      using None one(1) al by (simp add: k s1a_def s0_def rs_def)
    have "card (R rs \<union> R fs - ?D) = card (R rs - ?D) + card (R fs - (?D \<union> R rs))"
      by (subst card_Un_disjoint [symmetric]) (use finR in \<open>auto intro!: arg_cong [where f = card]\<close>)
    then have cap1: "nextFreeIndex s1a + card (R fs - dom (actionAt s1a)) \<le> length (allocatedActions s1a)" using cap s1a s1 by simp
    have "\<exists>s2. buildActionFactDeps G (makeAction n G I) i a p s1a = Some (Inr (), s2) \<and> made G I Rt {i} s0 (R rs \<union> R fs) s2 \<and> i \<notin> ran (actionAt s2) \<and>
      actionAt s1a \<subseteq>\<^sub>m actionAt s2 \<and> allocatedActions s2 ! i = (newAct I (a, p))\<lparr>actDeps := map (\<lambda>k. the (actionAt s1 k)) rs @
        map (\<lambda>k. the (actionAt s2 k)) fs, factMaps := FactTypes (analyzer G a) \<noteq> []\<rparr>"
      by (rule buildActionFactDeps_made [OF m1a(1) finR nr0(2,1) _ s1a(4) [unfolded k] fs_def R_def [THEN fun_cong] finR cap1])
        (use il s1a(3) each [of fs] ds in auto)
    then obtain s2 where s2: "buildActionFactDeps G (makeAction n G I) i a p s1a = Some (Inr (), s2)" "made G I Rt {i} s0 (R (depKeys G k)) s2"
        "i \<notin> ran (actionAt s2)" and at2: "actionAt s1 \<subseteq>\<^sub>m actionAt s2"
        "allocatedActions s2 ! i = (newAct I (a, p))\<lparr>actDeps := map (\<lambda>k. the (actionAt s1 k)) rs @ map (\<lambda>k. the (actionAt s2 k)) fs,
          factMaps := FactTypes (analyzer G a) \<noteq> []\<rparr>" using K(3) s1a(1) by auto
    have "actionAt s1 d = actionAt s2 d" if "d \<in> set rs" for d
    proof -
      have "d \<in> R rs" unfolding R_def using that keys.reach_self by blast
      then show ?thesis using at2(1) s1(1) by (simp add: map_le_def)
    qed
    then have act2: "allocatedActions s2 ! i = actOf G I (actionAt s2) k" using at2(2) ds by (simp add: actOf_def k newAct_def)
    have "made G I Rt {} s (insert k (R (depKeys G k))) (s2\<lparr>actionAt := (actionAt s2)(k \<mapsto> i)\<rparr>)"
      by (rule enter_made [OF s0_def i_def il Suc.prems(2) kD s2(2) _ K(2) finR act2 s2(3)]) (simp add: R_def)
    then show ?thesis using run s2(1) K(1) by simp
  qed
qed simp

lemma root_graphOk:
  assumes "graphOk G I Rt s" "actionAt s k = Some i"
  shows "graphOk G I (insert i Rt) (setAct i ((allocatedActions s ! i)\<lparr>IsRoot := True\<rparr>) s)"
proof -
  let ?s = "setAct i ((allocatedActions s ! i)\<lparr>IsRoot := True\<rparr>) s"
  have i: "i < nextFreeIndex s" "i < length (allocatedActions s)" using graphOkD(1) [OF assms] assms(1) by (auto simp: graphOk_def)
  have "allocatedActions ?s ! j = (actOf G I (actionAt s) k')\<lparr>IsRoot := j \<in> insert i Rt\<rparr>" if "actionAt s k' = Some j" for k' j
    using graphOkD(2) [OF assms(1) that] i(2) by (cases "j = i") (simp_all add: setAct_def)
  then show ?thesis using assms(1) i(1) by (simp add: graphOk_def setAct_def)
qed

lemma makeRoots_made:
  assumes dec: "keys.decreasing G rank"
  shows "\<forall>k \<in> set ks. rank k < n \<Longrightarrow> graphOk G I Rt s \<Longrightarrow>
    nextFreeIndex s + card ((\<Union>k \<in> set ks. keys.reach G k) - dom (actionAt s)) \<le> length (allocatedActions s) \<Longrightarrow>
    \<exists>s'. makeRoots n G I ks s = Some (Inr (map (\<lambda>k. the (actionAt s' k)) ks), s') \<and>
      graphOk G I (Rt \<union> (\<lambda>k. the (actionAt s' k)) ` set ks) s' \<and> actionAt s \<subseteq>\<^sub>m actionAt s' \<and>
      dom (actionAt s') = dom (actionAt s) \<union> (\<Union>k \<in> set ks. keys.reach G k) \<and>
      nextFreeIndex s' = nextFreeIndex s + card ((\<Union>k \<in> set ks. keys.reach G k) - dom (actionAt s)) \<and>
      length (allocatedActions s') = length (allocatedActions s)"
proof (induction ks arbitrary: s Rt)
  case (Cons k ks)
  let ?K = "keys.reach G k" and ?L = "\<Union>k \<in> set ks. keys.reach G k" and ?D = "dom (actionAt s)"
  have fin: "finite ?K" "finite ?L" using keys.finite_reach [OF dec] by simp_all
  have card: "card (?K \<union> ?L - ?D) = card (?K - ?D) + card (?L - (?D \<union> ?K))"
    by (subst card_Un_disjoint [symmetric]) (use fin in \<open>auto intro!: arg_cong [where f = card]\<close>)
  then have cap: "nextFreeIndex s + card (?K - ?D) + card (?L - (?D \<union> ?K)) \<le> length (allocatedActions s)" using Cons.prems(3) by simp
  obtain i s1 where one: "makeAction n G I k s = Some (Inr i, s1)" "made G I Rt {} s ?K s1" "actionAt s1 k = Some i"
    using makeAction_made [OF dec, of k n I Rt s] Cons.prems(1,2) cap by auto
  define s1' where "s1' = setAct i ((allocatedActions s1 ! i)\<lparr>IsRoot := True\<rparr>) s1"
  have s1: "graphOk G I Rt s1" "dom (actionAt s1) = ?D \<union> ?K" "nextFreeIndex s1 = nextFreeIndex s + card (?K - ?D)"
    "length (allocatedActions s1) = length (allocatedActions s)" "actionAt s \<subseteq>\<^sub>m actionAt s1"
    using one(2) by (simp_all add: made_def)
  have s1': "actionAt s1' = actionAt s1" "nextFreeIndex s1' = nextFreeIndex s1" "length (allocatedActions s1') = length (allocatedActions s1)"
    by (simp_all add: s1'_def setAct_def)
  have ok: "graphOk G I (insert i Rt) s1'" unfolding s1'_def by (rule root_graphOk [OF s1(1) one(3)])
  obtain s2 where two: "makeRoots n G I ks s1' = Some (Inr (map (\<lambda>k. the (actionAt s2 k)) ks), s2)"
      "graphOk G I (insert i Rt \<union> (\<lambda>k. the (actionAt s2 k)) ` set ks) s2" "actionAt s1 \<subseteq>\<^sub>m actionAt s2"
      "dom (actionAt s2) = ?D \<union> ?K \<union> ?L" "nextFreeIndex s2 = nextFreeIndex s1 + card (?L - (?D \<union> ?K))"
      "length (allocatedActions s2) = length (allocatedActions s)"
    using Cons.IH [OF _ ok] Cons.prems(1) cap s1 s1' by auto
  have "actionAt s2 k = Some i" using two(3) one(3) by (metis domI map_le_def)
  then show ?case
    using one(1) two s1 map_le_trans [OF s1(5) two(3)] card by (simp add: s1'_def [symmetric] Un_assoc)
qed (simp add: map_le_refl)

lemma newActionAllocator_ok: "graphOk G I {} (newActionAllocator n)"
  by (simp add: graphOk_def newActionAllocator_def keys.closedSet_def)

definition neededKeys :: "GraphEnv \<Rightarrow> nat list \<Rightarrow> nat list \<Rightarrow> actKey set" where
  "neededKeys G pkgs analyzers = (\<Union>k \<in> set analyzers \<times> set pkgs. keys.reach G k)"

lemma prepareAnalysis_exact:
  assumes "wellNamed G" and dec: "keys.decreasing G rank" and n: "\<forall>k \<in> set analyzers \<times> set pkgs. rank k < n"
  shows "\<exists>s. prepareAnalysis n G pkgs analyzers = Some (Inr (map (\<lambda>k. the (actionAt s k)) (rootKeys pkgs analyzers)), s) \<and>
    dom (actionAt s) = neededKeys G pkgs analyzers \<and> bij_betw (\<lambda>k. the (actionAt s k)) (neededKeys G pkgs analyzers) {..<length (allocatedActions s)} \<and>
    nextFreeIndex s = length (allocatedActions s) \<and>
    (\<forall>k \<in> neededKeys G pkgs analyzers. allocatedActions s ! the (actionAt s k) =
       (actOf G (set pkgs) (actionAt s) k)\<lparr>IsRoot := k \<in> set analyzers \<times> set pkgs\<rparr>)"
proof -
  let ?ks = "rootKeys pkgs analyzers" and ?K = "neededKeys G pkgs analyzers"
  have set: "set ?ks = set analyzers \<times> set pkgs" by (simp add: rootKeys_def)
  have K: "?K = (\<Union>k \<in> set ?ks. keys.reach G k)" by (simp add: neededKeys_def set)
  have "eachO (markAllActions n G) ?ks {} = Some ({} \<union> (\<Union>k \<in> set ?ks. keys.reach G k))"
    by (rule eachO_reach) (use markAllActions_reach [OF assms(1) dec] n set in \<open>auto simp: keys.closedSet_def\<close>)
  then have mark: "eachO (markAllActions n G) ?ks {} = Some ?K" by (simp add: K)
  let ?s0 = "newActionAllocator (card ?K)"
  have s0: "dom (actionAt ?s0) = {}" "nextFreeIndex ?s0 = 0" "length (allocatedActions ?s0) = card ?K" by (simp_all add: newActionAllocator_def)
  obtain s where s: "makeRoots n G (set pkgs) ?ks ?s0 = Some (Inr (map (\<lambda>k. the (actionAt s k)) ?ks), s)"
      "graphOk G (set pkgs) ((\<lambda>k. the (actionAt s k)) ` set ?ks) s" "dom (actionAt s) = ?K"
      "nextFreeIndex s = card ?K" "length (allocatedActions s) = card ?K"
    using makeRoots_made [OF dec, of ?ks n "set pkgs" "{}" ?s0] newActionAllocator_ok n set s0 K by auto
  have inj: "inj_on (\<lambda>k. the (actionAt s k)) ?K"
    using s(2,3) unfolding graphOk_def by (intro inj_onI) (metis domD inj_onD option.sel)
  have "finite ?K" unfolding K using keys.finite_reach [OF dec] by simp
  moreover have "(\<lambda>k. the (actionAt s k)) ` ?K \<subseteq> {..<card ?K}"
  proof (rule image_subsetI)
    fix k assume "k \<in> ?K"
    then obtain i where "actionAt s k = Some i" using s(3) by blast
    then show "the (actionAt s k) \<in> {..<card ?K}" using graphOkD(1) [OF s(2), of k i] s(4) by simp
  qed
  ultimately have "(\<lambda>k. the (actionAt s k)) ` ?K = {..<card ?K}"
    using card_image [OF inj] by (metis card_lessThan card_subset_eq finite_lessThan)
  then have bij: "bij_betw (\<lambda>k. the (actionAt s k)) ?K {..<length (allocatedActions s)}" using inj s(5) by (simp add: bij_betw_def)
  have "allocatedActions s ! the (actionAt s k) = (actOf G (set pkgs) (actionAt s) k)\<lparr>IsRoot := k \<in> set analyzers \<times> set pkgs\<rparr>" if k: "k \<in> ?K" for k
  proof -
    obtain i where i: "actionAt s k = Some i" using k s(3) by blast
    have "set ?ks \<subseteq> ?K" unfolding K using keys.reach_self by fastforce
    then have "i \<in> (\<lambda>k. the (actionAt s k)) ` set ?ks \<longleftrightarrow> k \<in> set ?ks" using inj_on_image_mem_iff [OF inj k, of "set ?ks"] i by simp
    then show ?thesis using graphOkD(2) [OF s(2) i] i set by simp
  qed
  then show ?thesis using mark s bij by (auto simp: prepareAnalysis_def)
qed

section \<open>The actions of a package\<close>

text \<open>What \<open>runActionGraph\<close> is given for a package: its actions in some order, with the dependencies of the array.\<close>

definition packageGraph :: "GraphState \<Rightarrow> nat list \<Rightarrow> Graph" where
  "packageGraph s acts = \<lparr>actions = acts, Deps = (\<lambda>i. actDeps (allocatedActions s ! i)), Package = (\<lambda>i. actPackage (allocatedActions s ! i))\<rparr>"

definition packageActions :: "GraphState \<Rightarrow> nat \<Rightarrow> nat set" where
  "packageActions s p = {i. i < length (allocatedActions s) \<and> actPackage (allocatedActions s ! i) = p}"

lemma packageGraph_schedulable:
  assumes "wellNamed G" and dec: "keys.decreasing G rank" and "\<forall>k \<in> set analyzers \<times> set pkgs. rank k < n"
    and prep: "prepareAnalysis n G pkgs analyzers = Some (Inr roots, s)"
    and acts: "set acts = packageActions s p" and i: "i \<in> set acts"
  shows "schedulable (packageGraph s acts) i"
proof -
  let ?K = "neededKeys G pkgs analyzers" and ?at = "\<lambda>k. the (actionAt s k)"
  have s: "dom (actionAt s) = ?K" "bij_betw ?at ?K {..<length (allocatedActions s)}"
    and a: "\<And>k. k \<in> ?K \<Longrightarrow> allocatedActions s ! ?at k = (actOf G (set pkgs) (actionAt s) k)\<lparr>IsRoot := k \<in> set analyzers \<times> set pkgs\<rparr>"
    using prepareAnalysis_exact [OF assms(1-3)] prep by auto
  have closed: "keys.closedSet G ?K"
    unfolding neededKeys_def using keys.closedSet_Union [of G "{}" "set analyzers \<times> set pkgs"] by (simp add: keys.closedSet_def)
  let ?key = "inv_into ?K ?at"
  have key: "?key (?at k) = k" if "k \<in> ?K" for k using s(2) inv_into_f_f [of ?at ?K k] that by (simp add: bij_betw_def)
  have g: "actions (packageGraph s acts) = acts" by (simp add: packageGraph_def)
  show ?thesis
  proof (rule schedulable_acyclic [where rank = "rank \<circ> ?key"])
    fix j d assume j: "j \<in> set (actions (packageGraph s acts))" and d: "d \<in> set (sameDeps (packageGraph s acts) j)"
    have "j \<in> {..<length (allocatedActions s)}" using j acts by (simp add: g packageActions_def)
    then have "j \<in> ?at ` ?K" using s(2) by (simp add: bij_betw_def)
    then obtain k where k: "k \<in> ?K" "j = ?at k" by blast
    then have "d \<in> ?at ` set (depKeys G k)" "actPackage (allocatedActions s ! d) = actPackage (allocatedActions s ! j)"
      using d a [OF k(1)] by (auto simp: sameDeps_def packageGraph_def actOf_def)
    then obtain k' where k': "k' \<in> set (depKeys G k)" "d = ?at k'" "actPackage (allocatedActions s ! d) = p"
      using j acts by (auto simp: g packageActions_def)
    have K': "k' \<in> ?K" using closed k(1) k'(1) by (auto simp: keys.closedSet_def)
    then have "d < length (allocatedActions s)" using s(2) k'(2) by (auto simp: bij_betw_def)
    then have "d \<in> set (actions (packageGraph s acts))" using k'(3) acts by (simp add: g packageActions_def)
    then show "d \<in> set (actions (packageGraph s acts)) \<and> (rank \<circ> ?key) d < (rank \<circ> ?key) j"
      using key [OF K'] key [OF k(1)] k(2) k'(2) keys.decreasingD [OF dec k'(1)] by simp
  qed (use i g in simp)
qed

section \<open>Properties\<close>

text \<open>Two analyzers, of which one uses facts and requires the other, on a package with one import.\<close>

definition exampleGraphEnv :: GraphEnv where
  "exampleGraphEnv = \<lparr>analyzer = (\<lambda>a. if a = 0 then \<lparr>anName = ''facts'', Requires = [1], FactTypes = [''T'']\<rparr>
       else \<lparr>anName = ''base'', Requires = [], FactTypes = []\<rparr>),
     importsOf = (\<lambda>p. if p = 0 then [(''dep'', 1)] else [])\<rparr>"

definition exampleKeyRank :: "actKey \<Rightarrow> nat" where
  "exampleKeyRank k = (if fst k = 0 then 1 else 0) + (if snd k = 0 then 1 else 0)"

lemma exampleGraphEnv_ok:
  "wellNamed exampleGraphEnv" "keys.decreasing exampleGraphEnv exampleKeyRank" "\<forall>k \<in> set [0] \<times> set [0]. exampleKeyRank k < 3"
  by (auto simp: wellNamed_def exampleGraphEnv_def keys.decreasing_def exampleKeyRank_def depKeys_def sortedImportPkgs_def
      stable_sort_def split: if_splits)

text \<open>C34: The construction of the action graph never runs out of the array that was sized by marking, and is exact: the actions
  correspond one to one to the pairs of an analyzer and a package that are reachable from the given ones over required
  analyzers and, for analyzers with facts, over imports; every slot of the array is used; and each
  action has the actions of its direct requirements as dependencies in order and is a root
  exactly when its analyzer was asked for on one of the initial packages.\<close>

theorem action_graph_exact:
  assumes "wellNamed G" "keys.decreasing G rank" "\<forall>k \<in> set analyzers \<times> set pkgs. rank k < n"
  shows "\<exists>s. prepareAnalysis n G pkgs analyzers = Some (Inr (map (\<lambda>k. the (actionAt s k)) (rootKeys pkgs analyzers)), s) \<and>
    dom (actionAt s) = neededKeys G pkgs analyzers \<and> bij_betw (\<lambda>k. the (actionAt s k)) (neededKeys G pkgs analyzers) {..<length (allocatedActions s)} \<and>
    nextFreeIndex s = length (allocatedActions s) \<and>
    (\<forall>k \<in> neededKeys G pkgs analyzers. allocatedActions s ! the (actionAt s k) =
       (actOf G (set pkgs) (actionAt s) k)\<lparr>IsRoot := k \<in> set analyzers \<times> set pkgs\<rparr>)"
  by (rule prepareAnalysis_exact) (fact assms)+

theorem action_graph_exact_witness:
  "\<exists>s. prepareAnalysis 3 exampleGraphEnv [0] [0] = Some (Inr [the (actionAt s (0, 0))], s) \<and> nextFreeIndex s = length (allocatedActions s)"
  using action_graph_exact [OF exampleGraphEnv_ok] by (auto simp: rootKeys_def)

text \<open>C35: No action is left behind. When the actions of a package, as the construction made them, are executed and the
  execution ends without an error and without cancellation, then every action of the package has finished, and
  the result is success: the error for actions that cannot be scheduled never occurs.\<close>

theorem package_actions_all_run:
  assumes "wellNamed G" "keys.decreasing G rank" "\<forall>k \<in> set analyzers \<times> set pkgs. rank k < n"
    and "prepareAnalysis n G pkgs analyzers = Some (Inr roots, s)" "set acts = packageActions s p" "distinct acts"
    and "reachable (packageGraph s acts) workers e" "control e = Done" "firstErr e = None" "\<not> parentCancelled e"
  shows "set (map fst (finished e)) = packageActions s p \<and> runResult (packageGraph s acts) e = NoError"
proof -
  have g: "actions (packageGraph s acts) = acts" by (simp add: packageGraph_def)
  then have d: "distinct (actions (packageGraph s acts))" using assms(6) by simp
  have "{a. schedulable (packageGraph s acts) a} = set acts"
    using packageGraph_schedulable [OF assms(1-5)] g by (auto elim: schedulable.cases)
  then have f: "set (map fst (finished e)) = set acts" using finished_schedulable [OF assms(7) d assms(8-10)] by simp
  note ok = reachable_ok [OF assms(7) d]
  have "length (finished e) = length acts"
    using distinct_card [OF finished_started(2) [OF ok assms(8)]] distinct_card [OF assms(6)] f by simp
  then have "completed e = int (length acts)" using ok by (simp add: scheduler_ok_def books_def)
  then show ?thesis using f assms(5,9,10) by (simp add: runResult_def g)
qed

theorem package_actions_all_run_witness:
  "\<exists>s acts e. prepareAnalysis 3 exampleGraphEnv [0] [0] = Some (Inr [the (actionAt s (0, 0))], s) \<and> packageActions s 0 \<noteq> {} \<and>
     reachable (packageGraph s acts) 2 e \<and> set (map fst (finished e)) = packageActions s 0"
proof -
  obtain s where s: "prepareAnalysis 3 exampleGraphEnv [0] [0] = Some (Inr (map (\<lambda>k. the (actionAt s k)) (rootKeys [0] [0])), s)"
    and bij: "bij_betw (\<lambda>k. the (actionAt s k)) (neededKeys exampleGraphEnv [0] [0]) {..<length (allocatedActions s)}"
    and a: "\<And>k. k \<in> neededKeys exampleGraphEnv [0] [0] \<Longrightarrow> allocatedActions s ! the (actionAt s k) =
       (actOf exampleGraphEnv (set [0]) (actionAt s) k)\<lparr>IsRoot := k \<in> set [0] \<times> set [0]\<rparr>"
    using prepareAnalysis_exact [OF exampleGraphEnv_ok] by blast
  define acts where "acts = sorted_list_of_set (packageActions s 0)"
  have "packageActions s 0 \<subseteq> {..<length (allocatedActions s)}" by (auto simp: packageActions_def)
  then have "finite (packageActions s 0)" by (rule finite_subset) simp
  then have acts: "set acts = packageActions s 0" "distinct acts" by (simp_all add: acts_def)
  have d: "distinct (actions (packageGraph s acts))" using acts(2) by (simp add: packageGraph_def)
  obtain e where e: "reachable (packageGraph s acts) 2 e" "control e = Done" "firstErr e = None" "\<not> parentCancelled e"
    using clean_run [OF d, of 2 "buildGraph (packageGraph s acts)"] reachable.init by (auto simp: clean_def buildGraph_frame [OF d])
  have k: "(0, 0) \<in> neededKeys exampleGraphEnv [0] [0]" by (simp add: neededKeys_def)
  then have "the (actionAt s (0, 0)) < length (allocatedActions s)" using bij by (auto simp: bij_betw_def)
  then have "packageActions s 0 \<noteq> {}" using a [OF k] by (auto simp: packageActions_def actOf_def newAct_def)
  then show ?thesis
    using package_actions_all_run [OF exampleGraphEnv_ok s acts e] s e(1) by (auto simp: rootKeys_def)
qed

end
