(* ===== verification/Pkg_Release.thy ===== *)
theory Pkg_Release
  imports Action_Graph
begin

text \<open>
  The packages of an analysis (\<open>pkg/goanalysis/runner.go\<close>, \<open>runner_loadingpackage.go\<close>): collecting them with the number of
  packages that depend on each, and the release of what a package holds once it is no longer needed.

  In \<open>finishPackages\<close> packages finish one after the other. In a run the recursions of several packages interleave, and the mutex of a
  package makes what \<open>decUse\<close> does to it atomic: \<open>interleaved\<close> are the states that arise when the uses that are about to end do so one at a
  time and in any order, which includes the orders of the goroutines. A package that is
  released has no pointer to its data any more; using it again is a panic of the model.
\<close>

section \<open>Collecting packages\<close>

record loadingPackage =
  lpImports :: "(string \<times> nat) list"
  lpInitial :: bool
  lpActions :: "nat list"
  lpDependents :: int

text \<open>One import of a package: it is visited first, and then counts the importing package.\<close>

definition countImport :: "(nat \<Rightarrow> (nat \<rightharpoonup> loadingPackage) \<Rightarrow> (nat \<rightharpoonup> loadingPackage) option) \<Rightarrow> string \<times> nat \<Rightarrow>
    (nat \<rightharpoonup> loadingPackage) \<Rightarrow> (nat \<rightharpoonup> loadingPackage) option" where
  "countImport visit imp m = Option.bind (visit (snd imp) m)
     (\<lambda>m. Some (m(snd imp := map_option (\<lambda>lp. lp\<lparr>lpDependents := lpDependents lp + 1\<rparr>) (m (snd imp)))))"

primrec dfsPackages :: "nat \<Rightarrow> GraphEnv \<Rightarrow> nat set \<Rightarrow> (nat \<Rightarrow> nat list) \<Rightarrow> nat \<Rightarrow> (nat \<rightharpoonup> loadingPackage) \<Rightarrow> (nat \<rightharpoonup> loadingPackage) option" where
  "dfsPackages 0 G initialPkgs actionPerPkg p m = None"
| "dfsPackages (Suc n) G initialPkgs actionPerPkg p m =
     (if m p \<noteq> None then Some m
      else Option.bind (eachO (countImport (dfsPackages n G initialPkgs actionPerPkg)) (importsOf G p) m)
        (\<lambda>m. Some (m(p \<mapsto> \<lparr>lpImports = importsOf G p, lpInitial = (p \<in> initialPkgs), lpActions = actionPerPkg p, lpDependents = 1\<rparr>))))"

definition actionsOfPackage :: "GraphState \<Rightarrow> nat list \<Rightarrow> nat \<Rightarrow> nat list" where
  "actionsOfPackage s acts p = filter (\<lambda>i. actPackage (allocatedActions s ! i) = p) acts"

text \<open>\<open>acts\<close> are all actions in the order in which the map of actions is visited.\<close>

definition loadingPackages :: "nat \<Rightarrow> GraphEnv \<Rightarrow> nat list \<Rightarrow> GraphState \<Rightarrow> nat list \<Rightarrow> (nat \<rightharpoonup> loadingPackage) option" where
  "loadingPackages n G pkgs s acts =
     eachO (dfsPackages n G (set pkgs) (actionsOfPackage s acts)) (map (\<lambda>i. actPackage (allocatedActions s ! i)) acts) Map.empty"

section \<open>Releasing packages\<close>

record ReleaseState =
  dependentsOf :: "nat \<Rightarrow> int"
  actionsCleared :: "nat set"
  syntaxCleared :: "nat set"
  typesCleared :: "nat set"
  released :: "nat set"
  factsCleared :: "nat set"

datatype release_panic = NilPackage nat

text \<open>\<open>executed p\<close> are the actions of the package that have a pass: they lose it, with their results and dependencies.\<close>

primrec decUse :: "nat \<Rightarrow> GraphEnv \<Rightarrow> (nat \<Rightarrow> nat list) \<Rightarrow> bool \<Rightarrow> nat \<Rightarrow> ReleaseState \<Rightarrow> ((release_panic + unit) \<times> ReleaseState) option" where
  "decUse 0 G executed canClearTypes p s = None"
| "decUse (Suc n) G executed canClearTypes p s =
     (if p \<in> released s then Some (Inl (NilPackage p), s)
      else
        (let s = s\<lparr>actionsCleared := actionsCleared s \<union> set (executed p), syntaxCleared := insert p (syntaxCleared s),
               dependentsOf := (dependentsOf s)(p := dependentsOf s p - 1)\<rparr> in
         if dependentsOf s p \<noteq> 0 then Some (Inr (), s)
         else
           (let s = s\<lparr>typesCleared := (if canClearTypes then insert p (typesCleared s) else typesCleared s), released := insert p (released s)\<rparr> in
            thenR (eachR (decUse n G executed canClearTypes) (map snd (importsOf G p)) s)
              (\<lambda>_ s. Some (Inr (), s\<lparr>factsCleared := insert p (factsCleared s)\<rparr>)))))"

text \<open>The packages whose analysis has ended, in the order in which it did.\<close>

definition finishPackages :: "nat \<Rightarrow> GraphEnv \<Rightarrow> (nat \<Rightarrow> nat list) \<Rightarrow> bool \<Rightarrow> nat list \<Rightarrow> ReleaseState \<Rightarrow> ((release_panic + unit list) \<times> ReleaseState) option" where
  "finishPackages n G executed canClearTypes ps s = eachR (decUse n G executed canClearTypes) ps s"

definition startRelease :: "(nat \<rightharpoonup> loadingPackage) \<Rightarrow> ReleaseState" where
  "startRelease m = \<lparr>dependentsOf = (\<lambda>p. case m p of None \<Rightarrow> 0 | Some lp \<Rightarrow> lpDependents lp),
     actionsCleared = {}, syntaxCleared = {}, typesCleared = {}, released = {}, factsCleared = {}\<rparr>"

section \<open>Counting importing packages\<close>

definition impPkgs :: "GraphEnv \<Rightarrow> nat \<Rightarrow> nat list" where
  "impPkgs G p = map snd (importsOf G p)"

interpretation imps: digraph "impPkgs G" for G .

text \<open>How often a package is imported by the packages of a set.\<close>

definition importers :: "GraphEnv \<Rightarrow> nat set \<Rightarrow> nat \<Rightarrow> nat" where
  "importers G Q p = (\<Sum>q \<in> Q. count_list (impPkgs G q) p)"

lemma importers_empty [simp]: "importers G {} p = 0"
  by (simp add: importers_def)

lemma importers_insert: "finite Q \<Longrightarrow> q \<notin> Q \<Longrightarrow> importers G (insert q Q) p = count_list (impPkgs G q) p + importers G Q p"
  by (simp add: importers_def)

lemma importers_closed: "finite Q \<Longrightarrow> imps.closedSet G Q \<Longrightarrow> p \<notin> Q \<Longrightarrow> importers G Q p = 0"
  by (auto simp: importers_def imps.closedSet_def count_list_0_iff)

text \<open>The counters while packages are visited: \<open>ex\<close> counts the imports of packages that are not entered yet.\<close>

definition counted :: "GraphEnv \<Rightarrow> (nat \<Rightarrow> nat) \<Rightarrow> (nat \<rightharpoonup> loadingPackage) \<Rightarrow> bool" where
  "counted G ex m \<longleftrightarrow> finite (dom m) \<and> imps.closedSet G (dom m) \<and> (\<forall>p. ex p > 0 \<longrightarrow> p \<in> dom m) \<and>
     (\<forall>p lp. m p = Some lp \<longrightarrow> lpDependents lp = 1 + int (importers G (dom m) p) + int (ex p))"

lemma eachO_count:
  assumes f: "\<And>p m ex. p \<in> snd ` set xs \<Longrightarrow> counted G ex m \<Longrightarrow> \<exists>m'. f p m = Some m' \<and> counted G ex m' \<and> dom m' = dom m \<union> imps.reach G p"
  shows "counted G ex m \<Longrightarrow> \<exists>m'. eachO (countImport f) xs m = Some m' \<and>
    counted G (\<lambda>p. ex p + count_list (map snd xs) p) m' \<and> dom m' = dom m \<union> (\<Union>p \<in> snd ` set xs. imps.reach G p)"
  using f
proof (induction xs arbitrary: m ex)
  case (Cons x xs)
  obtain m1 where m1: "f (snd x) m = Some m1" "counted G ex m1" "dom m1 = dom m \<union> imps.reach G (snd x)"
    using Cons.prems(2) [of "snd x" ex m] Cons.prems(1) by auto
  define mm where "mm = m1(snd x := map_option (\<lambda>lp. lp\<lparr>lpDependents := lpDependents lp + 1\<rparr>) (m1 (snd x)))"
  define ee where "ee = ex(snd x := Suc (ex (snd x)))"
  have x: "snd x \<in> dom m1" using m1(3) by simp
  then have d: "dom mm = dom m1" by (auto simp: dom_def mm_def)
  have "counted G ee mm"
    using m1(2) x unfolding counted_def d by (auto simp: mm_def ee_def split: if_splits)
  then have "\<exists>m2. eachO (countImport f) xs mm = Some m2 \<and> counted G (\<lambda>p. ee p + count_list (map snd xs) p) m2 \<and>
      dom m2 = dom mm \<union> (\<Union>p \<in> snd ` set xs. imps.reach G p)"
    by (rule Cons.IH) (use Cons.prems(2) in auto)
  moreover have "(\<lambda>p. ee p + count_list (map snd xs) p) = (\<lambda>p. ex p + count_list (map snd (x # xs)) p)" by (auto simp: ee_def)
  moreover have "eachO (countImport f) (x # xs) m = eachO (countImport f) xs mm" using m1(1) by (simp add: countImport_def mm_def)
  ultimately show ?case using m1(3) d by (simp add: Un_assoc)
qed simp

lemma dfsPackages_counted:
  assumes dec: "imps.decreasing G rank"
  shows "rank p < n \<Longrightarrow> counted G ex m \<Longrightarrow>
    \<exists>m'. dfsPackages n G I acts p m = Some m' \<and> counted G ex m' \<and> dom m' = dom m \<union> imps.reach G p"
proof (induction n arbitrary: p m ex)
  case (Suc n)
  show ?case
  proof (cases "m p")
    case None
    have sub: "\<exists>m'. dfsPackages n G I acts q m = Some m' \<and> counted G ex m' \<and> dom m' = dom m \<union> imps.reach G q"
      if "q \<in> snd ` set (importsOf G p)" "counted G ex m" for q m ex
    proof -
      have "q \<in> set (impPkgs G p)" using that(1) by (simp add: impPkgs_def)
      then show ?thesis using Suc.IH [OF _ that(2), of q] imps.decreasingD [OF dec, of q p] Suc.prems(1) by simp
    qed
    obtain m1 where m1: "eachO (countImport (dfsPackages n G I acts)) (importsOf G p) m = Some m1"
        "counted G (\<lambda>q. ex q + count_list (impPkgs G p) q) m1" "dom m1 = dom m \<union> (\<Union>q \<in> set (impPkgs G p). imps.reach G q)"
      using eachO_count [of "importsOf G p" G "dfsPackages n G I acts" ex m] sub Suc.prems(2) by (auto simp: impPkgs_def)
    let ?lp = "\<lparr>lpImports = importsOf G p, lpInitial = (p \<in> I), lpActions = acts p, lpDependents = 1\<rparr>"
    have p: "p \<notin> dom m1" using None imps.not_below_self [OF dec, of p] m1(3) by (auto simp: domIff)
    have fin: "finite (dom m1)" "imps.closedSet G (dom m1)" using m1(2) by (simp_all add: counted_def)
    have c: "imps.closedSet G (insert p (dom m1))"
      using fin(2) m1(3) imps.reach_self unfolding imps.closedSet_def by (auto simp: image_iff)
    have ex0: "ex p = 0" using Suc.prems(2) None unfolding counted_def by (metis domIff gr0I)
    have loop: "count_list (impPkgs G p) p = 0"
      using imps.decreasingD [OF dec, of p p] by (auto simp: count_list_0_iff)
    have "counted G ex (m1(p \<mapsto> ?lp))"
      unfolding counted_def
    proof (intro conjI allI impI)
      show "finite (dom (m1(p \<mapsto> ?lp)))" "imps.closedSet G (dom (m1(p \<mapsto> ?lp)))" using fin c by simp_all
      show "0 < ex q \<Longrightarrow> q \<in> dom (m1(p \<mapsto> ?lp))" for q using m1(2) by (auto simp: counted_def)
      show "lpDependents lp = 1 + int (importers G (dom (m1(p \<mapsto> ?lp))) q) + int (ex q)" if "(m1(p \<mapsto> ?lp)) q = Some lp" for q lp
        using that m1(2) importers_insert [OF fin(1) p, of G q] importers_closed [OF fin p] loop ex0
        by (cases "q = p") (auto simp: counted_def)
    qed
    then show ?thesis using None m1(1,3) imps.reach_unfold [of G p] by auto
  next
    case (Some lp)
    then have "imps.reach G p \<subseteq> dom m" using imps.closedSet_contains [of G "dom m" p] Suc.prems(2) by (auto simp: counted_def)
    then show ?thesis using Some Suc.prems(2) by auto
  qed
qed simp

lemma loadingPackages_counted:
  assumes dec: "imps.decreasing G rank"
  shows "\<forall>p \<in> set ps. rank p < n \<Longrightarrow> counted G ex m \<Longrightarrow>
    \<exists>m'. eachO (dfsPackages n G I acts) ps m = Some m' \<and> counted G ex m' \<and> dom m' = dom m \<union> (\<Union>p \<in> set ps. imps.reach G p)"
proof (induction ps arbitrary: m)
  case (Cons p ps)
  obtain m1 where "dfsPackages n G I acts p m = Some m1" "counted G ex m1" "dom m1 = dom m \<union> imps.reach G p"
    using dfsPackages_counted [OF dec _ Cons.prems(2), of p n I acts] Cons.prems(1) by auto
  then show ?case using Cons.IH [of m1] Cons.prems(1) by (auto simp: Un_assoc)
qed simp

section \<open>What is still in use\<close>

text \<open>The uses of a package among the packages \<open>L\<close> when \<open>F\<close> have finished and \<open>R\<close> are released: itself, the packages that
  import it, and the uses \<open>ex\<close> that are about to end.\<close>

definition usesOf :: "GraphEnv \<Rightarrow> nat set \<Rightarrow> nat set \<Rightarrow> nat set \<Rightarrow> (nat \<Rightarrow> nat) \<Rightarrow> nat \<Rightarrow> nat" where
  "usesOf G L F R ex p = (if p \<in> F then 0 else 1) + importers G (L - R) p + ex p"

definition balanced :: "GraphEnv \<Rightarrow> nat set \<Rightarrow> nat set \<Rightarrow> (nat \<Rightarrow> nat) \<Rightarrow> ReleaseState \<Rightarrow> bool" where
  "balanced G L F ex s \<longleftrightarrow> released s \<subseteq> L \<and> (\<forall>p \<in> L. dependentsOf s p = int (usesOf G L F (released s) ex p) \<and>
     (p \<in> released s \<longleftrightarrow> usesOf G L F (released s) ex p = 0))"

text \<open>A use of \<open>p\<close> has ended but is still counted.\<close>

definition owed :: "GraphEnv \<Rightarrow> nat set \<Rightarrow> nat set \<Rightarrow> (nat \<Rightarrow> nat) \<Rightarrow> nat \<Rightarrow> ReleaseState \<Rightarrow> bool" where
  "owed G L F ex p s \<longleftrightarrow> released s \<subseteq> L \<and> p \<in> L \<and> p \<notin> released s \<and>
     (\<forall>q \<in> L. dependentsOf s q = int (usesOf G L F (released s) ex q) + (if q = p then 1 else 0)) \<and>
     (\<forall>q \<in> L - {p}. q \<in> released s \<longleftrightarrow> usesOf G L F (released s) ex q = 0)"

definition clearedWith :: "(nat \<Rightarrow> nat list) \<Rightarrow> nat set \<Rightarrow> bool \<Rightarrow> ReleaseState \<Rightarrow> ReleaseState \<Rightarrow> bool" where
  "clearedWith executed L canClearTypes s s' \<longleftrightarrow> released s \<subseteq> released s' \<and> actionsCleared s \<subseteq> actionsCleared s' \<and>
     actionsCleared s' \<subseteq> actionsCleared s \<union> (\<Union>p \<in> L. set (executed p)) \<and>
     typesCleared s' = typesCleared s \<union> (if canClearTypes then released s' - released s else {})"

lemma clearedWith_trans: "clearedWith E L b s s1 \<Longrightarrow> clearedWith E L b s1 s2 \<Longrightarrow> clearedWith E L b s s2"
  unfolding clearedWith_def by (intro conjI) auto

lemma importers_release:
  assumes "finite L" "p \<in> L" "p \<notin> R"
  shows "importers G (L - R) q = importers G (L - insert p R) q + count_list (impPkgs G p) q"
proof -
  have "L - R = insert p (L - insert p R)" using assms(2,3) by blast
  from arg_cong [OF this, of "\<lambda>Q. importers G Q q"] show ?thesis
    using importers_insert [of "L - insert p R" p G q] assms(1) by (simp only: finite_Diff add.commute) auto
qed

lemma eachR_balanced:
  assumes f: "\<And>q s ex. q \<in> set qs \<Longrightarrow> owed G L F ex q s \<Longrightarrow> \<exists>s'. f q s = Some (Inr (), s') \<and> balanced G L F ex s' \<and> clearedWith E L b s s'"
  shows "set qs \<subseteq> L \<Longrightarrow> balanced G L F (\<lambda>q. ex q + count_list qs q) s \<Longrightarrow>
    \<exists>us s'. eachR f qs s = Some (Inr us, s') \<and> balanced G L F ex s' \<and> clearedWith E L b s s'"
  using f
proof (induction qs arbitrary: s)
  case Nil
  then show ?case by (simp add: clearedWith_def)
next
  case (Cons q qs)
  let ?ex = "\<lambda>q. ex q + count_list qs q"
  have "usesOf G L F (released s) (\<lambda>x. ex x + count_list (q # qs) x) x = usesOf G L F (released s) ?ex x + (if x = q then 1 else 0)" for x
    by (simp add: usesOf_def)
  then have "owed G L F ?ex q s" using Cons.prems(1,2) by (auto simp: balanced_def owed_def)
  then obtain s1 where s1: "f q s = Some (Inr (), s1)" "balanced G L F ?ex s1" "clearedWith E L b s s1"
    using Cons.prems(3) [of q ?ex s] by auto
  obtain us s2 where "eachR f qs s1 = Some (Inr us, s2)" "balanced G L F ex s2" "clearedWith E L b s1 s2"
    using Cons.IH [OF _ s1(2)] Cons.prems(1,3) by auto
  then show ?case using s1 clearedWith_trans [of E L b s s1 s2] by auto
qed

lemma decUse_balanced:
  assumes dec: "imps.decreasing G rank" and L: "finite L" "imps.closedSet G L"
  shows "rank p < n \<Longrightarrow> owed G L F ex p s \<Longrightarrow> \<exists>s'. decUse n G E b p s = Some (Inr (), s') \<and> balanced G L F ex s' \<and>
    clearedWith E L b s s' \<and> set (E p) \<subseteq> actionsCleared s'"
proof (induction n arbitrary: p s ex)
  case (Suc n)
  let ?R = "released s" and ?u = "usesOf G L F (released s) ex"
  have o: "p \<in> L" "p \<notin> ?R" "?R \<subseteq> L" "dependentsOf s p = int (?u p) + 1"
    "\<And>q. q \<in> L \<Longrightarrow> q \<noteq> p \<Longrightarrow> dependentsOf s q = int (?u q) \<and> (q \<in> ?R \<longleftrightarrow> ?u q = 0)"
    using Suc.prems(2) by (auto simp: owed_def)
  define s1 where "s1 = s\<lparr>actionsCleared := actionsCleared s \<union> set (E p), syntaxCleared := insert p (syntaxCleared s), dependentsOf := (dependentsOf s)(p := dependentsOf s p - 1)\<rparr>"
  have s1: "dependentsOf s1 q = int (?u q)" if "q \<in> L" for q using that o by (auto simp: s1_def)
  show ?case
  proof (cases "?u p = 0")
    case False
    then have "q \<in> ?R \<longleftrightarrow> ?u q = 0" if "q \<in> L" for q using o(2) o(5) [OF that] by (cases "q = p") auto
    then have "balanced G L F ex s1" using o(3) s1 by (simp add: balanced_def) (simp add: s1_def)
    moreover have "clearedWith E L b s s1" "set (E p) \<subseteq> actionsCleared s1" using o(1) by (auto simp: clearedWith_def s1_def)
    ultimately show ?thesis using False o by (auto simp: s1_def Let_def)
  next
    case True
    define s2 where "s2 = s1\<lparr>typesCleared := (if b then insert p (typesCleared s1) else typesCleared s1), released := insert p (released s1)\<rparr>"
    have u: "usesOf G L F (insert p ?R) (\<lambda>q. ex q + count_list (impPkgs G p) q) q = ?u q" for q
      using importers_release [OF L(1) o(1,2), of G q] by (simp add: usesOf_def)
    have "released s2 = insert p ?R" "dependentsOf s2 = dependentsOf s1" by (simp_all add: s2_def s1_def)
    then have "balanced G L F (\<lambda>q. ex q + count_list (impPkgs G p) q) s2" using o s1 u True by (auto simp: balanced_def)
    moreover have "\<exists>s'. decUse n G E b q t = Some (Inr (), s') \<and> balanced G L F ex s' \<and> clearedWith E L b t s'"
      if "q \<in> set (impPkgs G p)" "owed G L F ex q t" for q t ex
      using Suc.IH [OF _ that(2)] imps.decreasingD [OF dec that(1)] Suc.prems(1) by fastforce
    moreover have "set (impPkgs G p) \<subseteq> L" using L(2) o(1) by (auto simp: imps.closedSet_def)
    ultimately obtain us s3 where s3: "eachR (decUse n G E b) (impPkgs G p) s2 = Some (Inr us, s3)" "balanced G L F ex s3" "clearedWith E L b s2 s3"
      using eachR_balanced [of "impPkgs G p" G L F "decUse n G E b" E b ex s2] by blast
    let ?s = "s3\<lparr>factsCleared := insert p (factsCleared s3)\<rparr>"
    have "decUse (Suc n) G E b p s = thenR (eachR (decUse n G E b) (impPkgs G p) s2)
        (\<lambda>_ s. Some (Inr (), s\<lparr>factsCleared := insert p (factsCleared s)\<rparr>))"
      using True o(2,4) by (cases b) (simp_all add: s2_def s1_def impPkgs_def Let_def)
    then have "decUse (Suc n) G E b p s = Some (Inr (), ?s)" using s3(1) by simp
    moreover have "balanced G L F ex ?s" using s3(2) by (simp add: balanced_def)
    moreover have "set (E p) \<subseteq> actionsCleared ?s" using s3(3) by (auto simp: clearedWith_def s2_def s1_def)
    moreover have "clearedWith E L b s ?s" using s3(3) o(1,2) by (auto simp: clearedWith_def s2_def s1_def)
    ultimately show ?thesis by blast
  qed
qed simp

lemma finishPackages_balanced:
  assumes dec: "imps.decreasing G rank" "\<forall>p \<in> L. rank p < n" and L: "finite L" "imps.closedSet G L"
  shows "distinct ps \<Longrightarrow> set ps \<subseteq> L \<Longrightarrow> set ps \<inter> F = {} \<Longrightarrow> balanced G L F (\<lambda>_. 0) s \<Longrightarrow>
    \<exists>us s'. finishPackages n G E b ps s = Some (Inr us, s') \<and> balanced G L (F \<union> set ps) (\<lambda>_. 0) s' \<and> clearedWith E L b s s' \<and>
      (\<Union>p \<in> set ps. set (E p)) \<subseteq> actionsCleared s'"
proof (induction ps arbitrary: F s)
  case Nil
  then show ?case by (simp add: finishPackages_def clearedWith_def)
next
  case (Cons p ps)
  have p: "p \<in> L" "p \<notin> F" using Cons.prems(2,3) by auto
  have u: "usesOf G L F R ex q = usesOf G L (insert p F) R ex q + (if q = p then 1 else 0)" for q R ex
    using p by (simp add: usesOf_def)
  then have "owed G L (insert p F) (\<lambda>_. 0) p s" using Cons.prems(4) p(1) by (auto simp: owed_def balanced_def)
  then obtain s1 where s1: "decUse n G E b p s = Some (Inr (), s1)" "balanced G L (insert p F) (\<lambda>_. 0) s1" "clearedWith E L b s s1"
      "set (E p) \<subseteq> actionsCleared s1"
    using decUse_balanced [OF dec(1) L, of p n] dec(2) p(1) by blast
  obtain us s2 where "finishPackages n G E b ps s1 = Some (Inr us, s2)" "balanced G L (insert p F \<union> set ps) (\<lambda>_. 0) s2" "clearedWith E L b s1 s2"
      "(\<Union>p \<in> set ps. set (E p)) \<subseteq> actionsCleared s2"
    using Cons.IH [OF _ _ _ s1(2)] Cons.prems(1-3) by auto
  moreover have "set (E p) \<subseteq> actionsCleared s2" using s1(4) \<open>clearedWith E L b s1 s2\<close> by (auto simp: clearedWith_def)
  ultimately show ?case using s1 clearedWith_trans [of E L b s s1 s2] by (auto simp: finishPackages_def)
qed

text \<open>Balanced counters release exactly the packages above which everything has finished.\<close>

lemma balanced_released:
  assumes dec: "imps.decreasing G rank" and L: "finite L" "imps.closedSet G L" and b: "balanced G L F (\<lambda>_. 0) s"
  shows "released s = {p \<in> L. \<forall>q \<in> L. p \<in> imps.reach G q \<longrightarrow> q \<in> F}"
proof -
  let ?R = "released s"
  have R: "p \<in> ?R \<longleftrightarrow> p \<in> F \<and> (\<forall>q \<in> L - ?R. p \<notin> set (impPkgs G q))" if "p \<in> L" for p
    using b that L(1) by (auto simp: balanced_def usesOf_def importers_def count_list_0_iff split: if_splits)
  have sub: "?R \<subseteq> L" using b by (simp add: balanced_def)
  have up: "q \<in> ?R" if "(q, p) \<in> (imps.edges G)\<^sup>*" "q \<in> L" "p \<in> ?R" for p q
    using that
  proof (induction rule: converse_rtrancl_induct)
    case (step x y)
    have "y \<in> L" using step.hyps(1) step.prems(1) L(2) by (auto simp: imps.edges_def imps.closedSet_def)
    then have "y \<in> ?R" using step.IH step.prems(2) by blast
    then show ?case using R [OF \<open>y \<in> L\<close>] step.hyps(1) step.prems(1) by (auto simp: imps.edges_def)
  qed simp
  have "p \<in> ?R" if "p \<in> L" "\<forall>q \<in> L. p \<in> imps.reach G q \<longrightarrow> q \<in> F" for p
    using that
  proof (induction "Max (rank ` L) - rank p" arbitrary: p rule: less_induct)
    case less
    show ?case
    proof (rule ccontr)
      assume "p \<notin> ?R"
      moreover have "p \<in> F" using less.prems imps.reach_self by blast
      ultimately obtain q where q: "q \<in> L" "q \<notin> ?R" "p \<in> set (impPkgs G q)" using R [OF less.prems(1)] by blast
      have "rank p < rank q" by (rule imps.decreasingD [OF dec q(3)])
      moreover have "rank q \<le> Max (rank ` L)" using L(1) q(1) by simp
      moreover have "\<forall>x \<in> L. q \<in> imps.reach G x \<longrightarrow> x \<in> F"
        using less.prems(2) imps.reach_trans imps.reach_succ [OF q(3)] by blast
      ultimately have "q \<in> ?R" using less.hyps [of q] q(1) by simp
      then show False using q(2) by simp
    qed
  qed
  moreover have "q \<in> F" if "p \<in> ?R" "q \<in> L" "p \<in> imps.reach G q" for p q
    using up [of q p] that R [of q] sub by (auto simp: imps.reach_def)
  ultimately show ?thesis using sub by blast
qed

section \<open>Interleaved recursions\<close>

text \<open>What \<open>decUse\<close> does under the mutex of the package before it turns to the imports.\<close>

definition endUse :: "(nat \<Rightarrow> nat list) \<Rightarrow> bool \<Rightarrow> nat \<Rightarrow> ReleaseState \<Rightarrow> ReleaseState" where
  "endUse executed canClearTypes p s =
     (let s = s\<lparr>actionsCleared := actionsCleared s \<union> set (executed p), syntaxCleared := insert p (syntaxCleared s),
            dependentsOf := (dependentsOf s)(p := dependentsOf s p - 1)\<rparr> in
      if dependentsOf s p \<noteq> 0 then s
      else s\<lparr>typesCleared := (if canClearTypes then insert p (typesCleared s) else typesCleared s), released := insert p (released s)\<rparr>)"

lemma decUse_endUse:
  assumes "p \<notin> released s"
  shows "decUse (Suc n) G E b p s = (let s = endUse E b p s in
    if p \<notin> released s then Some (Inr (), s)
    else thenR (eachR (decUse n G E b) (impPkgs G p) s) (\<lambda>_ s. Some (Inr (), s\<lparr>factsCleared := insert p (factsCleared s)\<rparr>)))"
  using assms by (cases "dependentsOf s p = 1") (simp_all add: endUse_def impPkgs_def Let_def)

text \<open>The reachable states: the packages of \<open>L\<close> that have finished, the uses that are about to end, and what is released. The facts of a
  package are cleared some time after its release.\<close>

inductive interleaved :: "GraphEnv \<Rightarrow> (nat \<Rightarrow> nat list) \<Rightarrow> bool \<Rightarrow> nat set \<Rightarrow> ReleaseState \<Rightarrow> nat set \<Rightarrow> nat multiset \<Rightarrow> ReleaseState \<Rightarrow> bool"
  for G executed canClearTypes L s0 where
  start: "interleaved G executed canClearTypes L s0 {} {#} s0"
| ended: "interleaved G executed canClearTypes L s0 F M s \<Longrightarrow> p \<in> L \<Longrightarrow> p \<notin> F \<Longrightarrow>
    interleaved G executed canClearTypes L s0 (insert p F) (add_mset p M) s"
| used: "interleaved G executed canClearTypes L s0 F (add_mset p M) s \<Longrightarrow> s' = endUse executed canClearTypes p s \<Longrightarrow>
    M' = (if p \<in> released s' then M + mset (impPkgs G p) else M) \<Longrightarrow> interleaved G executed canClearTypes L s0 F M' s'"
| facts: "interleaved G executed canClearTypes L s0 F M s \<Longrightarrow> p \<in> released s \<Longrightarrow>
    interleaved G executed canClearTypes L s0 F M (s\<lparr>factsCleared := insert p (factsCleared s)\<rparr>)"

lemma endUse_balanced:
  assumes "finite L" "owed G L F ex p s"
  shows "balanced G L F (\<lambda>q. ex q + (if p \<in> released (endUse E b p s) then count_list (impPkgs G p) q else 0)) (endUse E b p s)"
    and "clearedWith E L b s (endUse E b p s)"
proof -
  let ?R = "released s" and ?u = "usesOf G L F (released s) ex"
  have o: "p \<in> L" "p \<notin> ?R" "?R \<subseteq> L" "dependentsOf s p = int (?u p) + 1"
    "\<And>q. q \<in> L \<Longrightarrow> q \<noteq> p \<Longrightarrow> dependentsOf s q = int (?u q) \<and> (q \<in> ?R \<longleftrightarrow> ?u q = 0)"
    using assms(2) by (auto simp: owed_def)
  have d: "dependentsOf (endUse E b p s) q = int (?u q)" if "q \<in> L" for q using that o by (auto simp: endUse_def Let_def)
  have r: "released (endUse E b p s) = (if ?u p = 0 then insert p ?R else ?R)" using o(4) by (simp add: endUse_def Let_def)
  have u: "usesOf G L F (insert p ?R) (\<lambda>q. ex q + count_list (impPkgs G p) q) q = ?u q" for q
    using importers_release [OF assms(1) o(1,2), of G q] by (simp add: usesOf_def)
  show "balanced G L F (\<lambda>q. ex q + (if p \<in> released (endUse E b p s) then count_list (impPkgs G p) q else 0)) (endUse E b p s)"
  proof (cases "?u p = 0")
    case True
    then show ?thesis using o d by (auto simp: balanced_def r u)
  next
    case False
    then have "q \<in> ?R \<longleftrightarrow> ?u q = 0" if "q \<in> L" for q using o(2) o(5) [OF that] by (cases "q = p") auto
    then show ?thesis using False o d by (simp add: balanced_def r)
  qed
  show "clearedWith E L b s (endUse E b p s)" using o(1,2,4) by (auto simp: clearedWith_def endUse_def Let_def)
qed

lemma interleaved_balanced:
  assumes L: "finite L" "imps.closedSet G L" and b: "balanced G L {} (\<lambda>_. 0) s0"
  shows "interleaved G E c L s0 F M s \<Longrightarrow> balanced G L F (count M) s \<and> set_mset M \<subseteq> L \<and> F \<subseteq> L \<and> clearedWith E L c s0 s"
proof (induction rule: interleaved.induct)
  case start
  then show ?case using b by (simp add: clearedWith_def count_empty [abs_def])
next
  case (ended F M s p)
  then have "usesOf G L (insert p F) R (count (add_mset p M)) q = usesOf G L F R (count M) q" for R q by (auto simp: usesOf_def)
  then have "balanced G L (insert p F) (count (add_mset p M)) s" using ended unfolding balanced_def by (simp only:) blast
  then show ?case using ended by (simp del: count_add_mset)
next
  case (used F p M s s' M')
  have "usesOf G L F R (count (add_mset p M)) q = usesOf G L F R (count M) q + (if q = p then 1 else 0)" for R q by (simp add: usesOf_def)
  then have o: "owed G L F (count M) p s" using used.IH by (auto simp: balanced_def owed_def simp del: count_add_mset)
  have "count M' = (\<lambda>q. count M q + (if p \<in> released s' then count_list (impPkgs G p) q else 0))"
    by (simp add: used.hyps(3) fun_eq_iff count_mset)
  then have "balanced G L F (count M') s'" "clearedWith E L c s s'"
    using endUse_balanced [OF L(1) o, of E c] by (simp_all add: used.hyps(2))
  moreover have "set_mset M' \<subseteq> L" using used.IH L(2) by (auto simp: used.hyps(3) imps.closedSet_def)
  ultimately show ?case using used.IH clearedWith_trans by blast
next
  case (facts F M s p)
  then show ?case by (simp add: balanced_def clearedWith_def)
qed

text \<open>A use that is about to end is never one of a released package.\<close>

lemma interleaved_unused:
  assumes "finite L" "imps.closedSet G L" "balanced G L {} (\<lambda>_. 0) s0" "interleaved G E c L s0 F M s" "p \<in># M"
  shows "p \<notin> released s"
proof -
  have "balanced G L F (count M) s" "p \<in> L" using interleaved_balanced [OF assms(1-4)] assms(5) by blast+
  moreover have "usesOf G L F (released s) (count M) p > 0" using assms(5) by (simp add: usesOf_def)
  ultimately show ?thesis by (auto simp: balanced_def)
qed

section \<open>Properties\<close>

definition loadedSet :: "GraphEnv \<Rightarrow> GraphState \<Rightarrow> nat list \<Rightarrow> nat set" where
  "loadedSet G s acts = (\<Union>i \<in> set acts. imps.reach G (actPackage (allocatedActions s ! i)))"

text \<open>C36: Packages are released exactly when nothing needs them any more. The packages of all actions and everything below them are
  collected, each with the right number of uses; in whatever order the analysis of packages then ends, no released
  package is used again, and the packages that are released, with their types cleared where that is
  allowed, are exactly those that have finished together with all packages that import them, directly or not. At the
  end all of them are. The executed actions of a finished package have lost their pass, results and dependencies. The
  same holds when the recursions of several packages interleave: at no time is the use of a released package about to end, and
  whenever no use is, the released packages are the same.\<close>

theorem packages_released_when_unused:
  assumes "imps.decreasing G rank" "\<forall>i \<in> set acts. rank (actPackage (allocatedActions s ! i)) < n"
    and "distinct ps" "set ps \<subseteq> loadedSet G s acts"
  shows "\<exists>m us t. loadingPackages n G pkgs s acts = Some m \<and> dom m = loadedSet G s acts \<and>
    finishPackages n G executed canClearTypes ps (startRelease m) = Some (Inr us, t) \<and>
    (\<Union>p \<in> set ps. set (executed p)) \<subseteq> actionsCleared t \<and> actionsCleared t \<subseteq> (\<Union>p \<in> loadedSet G s acts. set (executed p)) \<and>
    released t = {p \<in> loadedSet G s acts. \<forall>q \<in> loadedSet G s acts. p \<in> imps.reach G q \<longrightarrow> q \<in> set ps} \<and>
    typesCleared t = (if canClearTypes then released t else {}) \<and>
    (\<forall>F M u. interleaved G executed canClearTypes (loadedSet G s acts) (startRelease m) F M u \<longrightarrow>
       (\<forall>p \<in># M. p \<notin> released u) \<and> typesCleared u = (if canClearTypes then released u else {}) \<and>
       (M = {#} \<longrightarrow> released u = {p \<in> loadedSet G s acts. \<forall>q \<in> loadedSet G s acts. p \<in> imps.reach G q \<longrightarrow> q \<in> F}))"
proof -
  let ?L = "loadedSet G s acts" and ?ps = "map (\<lambda>i. actPackage (allocatedActions s ! i)) acts"
  have "counted G (\<lambda>_. 0) Map.empty" by (simp add: counted_def imps.closedSet_def)
  then obtain m where m: "loadingPackages n G pkgs s acts = Some m" "counted G (\<lambda>_. 0) m" "dom m = ?L"
    using loadingPackages_counted [OF assms(1), of ?ps n "\<lambda>_. 0" Map.empty "set pkgs" "actionsOfPackage s acts"] assms(2)
    by (auto simp: loadingPackages_def loadedSet_def)
  have L: "finite ?L" "imps.closedSet G ?L" using m(2,3) by (simp_all add: counted_def)
  have rank: "\<forall>p \<in> ?L. rank p < n" using imps.reach_rank [OF assms(1)] assms(2) by (fastforce simp: loadedSet_def)
  have "dependentsOf (startRelease m) p = int (usesOf G ?L {} {} (\<lambda>_. 0) p)" if p: "p \<in> ?L" for p
  proof -
    obtain lp where "m p = Some lp" using p m(3) by blast
    then show ?thesis using m(2,3) by (simp add: counted_def startRelease_def usesOf_def)
  qed
  then have b: "balanced G ?L {} (\<lambda>_. 0) (startRelease m)" by (simp add: balanced_def) (simp add: startRelease_def usesOf_def)
  obtain us t where t: "finishPackages n G executed canClearTypes ps (startRelease m) = Some (Inr us, t)" "balanced G ?L (set ps) (\<lambda>_. 0) t"
      "clearedWith executed ?L canClearTypes (startRelease m) t" "(\<Union>p \<in> set ps. set (executed p)) \<subseteq> actionsCleared t"
    using finishPackages_balanced [OF assms(1) rank L assms(3,4) _ b, of executed canClearTypes] by auto
  have inter: "(\<forall>p \<in># M. p \<notin> released u) \<and> typesCleared u = (if canClearTypes then released u else {}) \<and>
      (M = {#} \<longrightarrow> released u = {p \<in> ?L. \<forall>q \<in> ?L. p \<in> imps.reach G q \<longrightarrow> q \<in> F})"
    if i: "interleaved G executed canClearTypes ?L (startRelease m) F M u" for F M u
  proof -
    have "balanced G ?L F (count M) u" "clearedWith executed ?L canClearTypes (startRelease m) u"
      using interleaved_balanced [OF L b i] by blast+
    then show ?thesis
      using interleaved_unused [OF L b i] balanced_released [OF assms(1) L, of F u]
      by (auto simp: clearedWith_def startRelease_def count_empty [abs_def])
  qed
  show ?thesis
  proof (rule exI [of _ m], rule exI [of _ us], rule exI [of _ t], intro conjI)
    show "loadingPackages n G pkgs s acts = Some m" "dom m = ?L"
      "finishPackages n G executed canClearTypes ps (startRelease m) = Some (Inr us, t)"
      "(\<Union>p \<in> set ps. set (executed p)) \<subseteq> actionsCleared t" using m(1,3) t(1,4) .
    show "released t = {p \<in> ?L. \<forall>q \<in> ?L. p \<in> imps.reach G q \<longrightarrow> q \<in> set ps}" by (rule balanced_released [OF assms(1) L t(2)])
    show "actionsCleared t \<subseteq> (\<Union>p \<in> ?L. set (executed p))" "typesCleared t = (if canClearTypes then released t else {})"
      using t(3) by (auto simp: clearedWith_def startRelease_def)
    show "\<forall>F M u. interleaved G executed canClearTypes ?L (startRelease m) F M u \<longrightarrow>
       (\<forall>p \<in># M. p \<notin> released u) \<and> typesCleared u = (if canClearTypes then released u else {}) \<and>
       (M = {#} \<longrightarrow> released u = {p \<in> ?L. \<forall>q \<in> ?L. p \<in> imps.reach G q \<longrightarrow> q \<in> F})"
      using inter by (intro allI impI)
  qed
qed

lemma example_imps: "imps.decreasing exampleGraphEnv (\<lambda>p. if p = 0 then 1 else 0)"
  by (simp add: imps.decreasing_def impPkgs_def exampleGraphEnv_def)

theorem packages_released_when_unused_witness:
  "\<exists>m us t. loadingPackages 2 exampleGraphEnv [0] ((newActionAllocator 1)\<lparr>allocatedActions := [newAct {0} (0, 0)]\<rparr>) [0] = Some m \<and>
     finishPackages 2 exampleGraphEnv (\<lambda>p. [p]) True [1] (startRelease m) = Some (Inr us, t) \<and> 0 \<notin> released t \<and> 1 \<notin> released t"
proof -
  let ?s = "(newActionAllocator 1)\<lparr>allocatedActions := [newAct {0} (0, 0)]\<rparr>"
  have r: "\<forall>i \<in> set [0]. (if actPackage (allocatedActions ?s ! i) = 0 then 1 else 0) < (2::nat)" by simp
  have "1 \<in> imps.reach exampleGraphEnv 0" "0 \<in> imps.reach exampleGraphEnv 0"
    using imps.reach_succ [of 1 exampleGraphEnv 0] by (simp_all add: impPkgs_def exampleGraphEnv_def)
  then have L: "set [1] \<subseteq> loadedSet exampleGraphEnv ?s [0]" "0 \<in> loadedSet exampleGraphEnv ?s [0]" "1 \<in> imps.reach exampleGraphEnv 0"
    by (simp_all add: loadedSet_def newAct_def)
  obtain m us t where mt: "loadingPackages 2 exampleGraphEnv [0] ?s [0] = Some m"
      "finishPackages 2 exampleGraphEnv (\<lambda>p. [p]) True [1] (startRelease m) = Some (Inr us, t)"
      "released t = {p \<in> loadedSet exampleGraphEnv ?s [0]. \<forall>q \<in> loadedSet exampleGraphEnv ?s [0]. p \<in> imps.reach exampleGraphEnv q \<longrightarrow> q \<in> set [1]}"
    using packages_released_when_unused [OF example_imps r _ L(1), of "[0]" "\<lambda>p. [p]" True] by auto
  have "0 \<notin> released t" "1 \<notin> released t"
    unfolding mt(3) using L(2,3) bspec [OF _ L(2)] imps.reach_self [of 0 exampleGraphEnv] by fastforce+
  then show ?thesis using mt(1,2) by blast
qed

end
