(* ===== verification/Disk_Cache.thy ===== *)
theory Disk_Cache
  imports Json Filepath
begin

text \<open>
  The cache on disk (\<open>internal/go/cache/cache.go\<close>, \<open>hash.go\<close>, \<open>default.go\<close>): index entries name the output of an action,
  outputs are stored under their digest, old files are trimmed.

  The disk is a map from paths to files and directories with their times of modification, in nanoseconds. What the
  operating system answers is an argument of every operation: which calls fail, how many bytes a failing write
  leaves, the clock. Results of calls that the code ignores may be errors too. Digests are a parameter. The mode
  \<open>verify\<close> and the salt are package variables of the code and fields of the model.
\<close>

section \<open>Disk and system calls\<close>

datatype node = FileNode string int | DirNode "string list" int

type_synonym disk = "string \<rightharpoonup> node"

fun modTime :: "node \<Rightarrow> int" where
  "modTime (FileNode _ t) = t"
| "modTime (DirNode _ t) = t"

fun setModTime :: "int \<Rightarrow> node \<Rightarrow> node" where
  "setModTime t (FileNode s _) = FileNode s t"
| "setModTime t (DirNode es _) = DirNode es t"

fun isDirNode :: "node \<Rightarrow> bool" where
  "isDirNode (DirNode _ _) = True"
| "isDirNode (FileNode _ _) = False"

text \<open>The answers to the calls on a path: errors, for the creation of a file with the information whether it is
  \<open>ETXTBSY\<close>, for a write with the number of bytes written before it failed. The size that \<open>Stat\<close> reports for
  a directory depends on the file system.\<close>

record IO =
  clock :: int
  statErr :: "string \<Rightarrow> string option"
  openErr :: "string \<Rightarrow> string option"
  readErr :: "string \<Rightarrow> string option"
  createErr :: "string \<Rightarrow> (bool \<times> string) option"
  writeErr :: "string \<Rightarrow> (nat \<times> string) option"
  commitErr :: "string \<Rightarrow> string option"
  truncateErr :: "string \<Rightarrow> string option"
  closeErr :: "string \<Rightarrow> string option"
  chtimesErr :: "string \<Rightarrow> string option"
  removeErr :: "string \<Rightarrow> string option"
  mkdirErr :: "string \<Rightarrow> string option"
  readdirErr :: "string \<Rightarrow> string option"
  dirSize :: "string \<Rightarrow> nat"

definition notExist :: string where "notExist = ''no such file or directory''"
definition isDirectory :: string where "isDirectory = ''is a directory''"

definition osStat :: "IO \<Rightarrow> string \<Rightarrow> disk \<Rightarrow> string + node" where
  "osStat io path d = (case statErr io path of
       Some e \<Rightarrow> Inl e
     | None \<Rightarrow> (case d path of None \<Rightarrow> Inl notExist | Some n \<Rightarrow> Inr n))"

definition infoSize :: "IO \<Rightarrow> string \<Rightarrow> node \<Rightarrow> nat" where
  "infoSize io path n = (case n of FileNode s _ \<Rightarrow> length s | DirNode _ _ \<Rightarrow> dirSize io path)"

definition osOpen :: "IO \<Rightarrow> string \<Rightarrow> disk \<Rightarrow> string + node" where
  "osOpen io path d = (case openErr io path of
       Some e \<Rightarrow> Inl e
     | None \<Rightarrow> (case d path of None \<Rightarrow> Inl notExist | Some n \<Rightarrow> Inr n))"

definition readAll :: "IO \<Rightarrow> string \<Rightarrow> node \<Rightarrow> string + string" where
  "readAll io path n = (case n of
       DirNode _ _ \<Rightarrow> Inl isDirectory
     | FileNode s _ \<Rightarrow> (case readErr io path of Some e \<Rightarrow> Inl e | None \<Rightarrow> Inr s))"

definition osReadFile :: "IO \<Rightarrow> string \<Rightarrow> disk \<Rightarrow> string + string" where
  "osReadFile io path d = (case osOpen io path d of Inl e \<Rightarrow> Inl e | Inr n \<Rightarrow> readAll io path n)"

text \<open>Opening for writing creates a missing file and empties an existing one if asked to; a directory cannot
  be opened. Writing at an offset keeps what is before and after.\<close>

definition osOpenFile :: "IO \<Rightarrow> bool \<Rightarrow> string \<Rightarrow> disk \<Rightarrow> (bool \<times> string) + disk" where
  "osOpenFile io trunc path d = (case createErr io path of
       Some e \<Rightarrow> Inl e
     | None \<Rightarrow> (case d path of
           None \<Rightarrow> Inr (d(path \<mapsto> FileNode [] (clock io)))
         | Some (DirNode _ _) \<Rightarrow> Inl (False, isDirectory)
         | Some (FileNode s t) \<Rightarrow> Inr (if trunc then d(path \<mapsto> FileNode [] (clock io)) else d)))"

definition contentOf :: "string \<Rightarrow> disk \<Rightarrow> string" where
  "contentOf path d = (case d path of Some (FileNode s _) \<Rightarrow> s | _ \<Rightarrow> [])"

definition setContent :: "IO \<Rightarrow> string \<Rightarrow> string \<Rightarrow> disk \<Rightarrow> disk" where
  "setContent io path s d = d(path \<mapsto> FileNode s (clock io))"

definition pwrite :: "nat \<Rightarrow> string \<Rightarrow> string \<Rightarrow> string" where
  "pwrite off s old = take off old @ s @ drop (off + length s) old"

definition fileTruncate :: "IO \<Rightarrow> string \<Rightarrow> nat \<Rightarrow> disk \<Rightarrow> string option \<times> disk" where
  "fileTruncate io path n d = (case truncateErr io path of
       Some e \<Rightarrow> (Some e, d)
     | None \<Rightarrow> (None, setContent io path (take n (contentOf path d)) d))"

definition osRemove :: "IO \<Rightarrow> string \<Rightarrow> disk \<Rightarrow> disk" where
  "osRemove io path d = (case removeErr io path of Some e \<Rightarrow> d | None \<Rightarrow> d(path := None))"

definition osRemoveAll :: "IO \<Rightarrow> string \<Rightarrow> disk \<Rightarrow> disk" where
  "osRemoveAll io path d = (case removeErr io path of
       Some e \<Rightarrow> d
     | None \<Rightarrow> (\<lambda>p. if p = path \<or> HasPrefix p (path @ ''/'') then None else d p))"

definition osChtimes :: "IO \<Rightarrow> string \<Rightarrow> disk \<Rightarrow> string option \<times> disk" where
  "osChtimes io path d = (case chtimesErr io path of
       Some e \<Rightarrow> (Some e, d)
     | None \<Rightarrow> (case d path of
           None \<Rightarrow> (Some notExist, d)
         | Some n \<Rightarrow> (None, d(path \<mapsto> setModTime (clock io) n))))"

section \<open>Entries\<close>

type_synonym digest = string

definition HashSize :: nat where "HashSize = 32"
definition hexSize :: nat where "hexSize = HashSize * 2"
definition entrySize :: nat where "entrySize = 2 + 1 + hexSize + 1 + hexSize + 1 + 20 + 1 + 20 + 1"

record DiskCache =
  cacheDir :: string
  verifyMode :: bool

record Entry =
  OutputID :: digest
  entrySizeOf :: int
  entryTime :: int

text \<open>Why an entry counts as missing, and the errors of the operations; a panic is a value.\<close>

datatype missing_reason =
    OsReason string | TooLong | FileIsEmpty | EntryIncomplete | InvalidHeader
  | DecodingID char | MismatchedID | DecodingOutputID char
  | ParsingSize | NegativeSize | ParsingTimestamp | NegativeTimestamp
  | VerifyModeOn | FileIncomplete | BadChecksum

datatype cache_error =
    EntryNotFound missing_reason
  | OsError string
  | NotADirectory string
  | CopyToHash string
  | ContentChanged
  | ChangeTime string string
  | VerifyFailed

definition IsErrMissing :: "cache_error \<Rightarrow> bool" where
  "IsErrMissing err = (case err of EntryNotFound _ \<Rightarrow> True | _ \<Rightarrow> False)"

text \<open>\<open>%02x\<close> of a byte, \<open>%x\<close> of bytes, \<open>%20d\<close>, and \<open>hex.Decode\<close>.\<close>

definition hexByte :: "char \<Rightarrow> string" where
  "hexByte c = [lowerHex (byte c div 16), lowerHex (byte c mod 16)]"

definition hexOf :: "string \<Rightarrow> string" where
  "hexOf s = concat (map hexByte s)"

fun hexDecode :: "string \<Rightarrow> char + string" where
  "hexDecode (a # b # s) = (case hexVal a of
       None \<Rightarrow> Inl a
     | Some h \<Rightarrow> (case hexVal b of
           None \<Rightarrow> Inl b
         | Some l \<Rightarrow> (case hexDecode s of Inl c \<Rightarrow> Inl c | Inr r \<Rightarrow> Inr (char_of (16 * h + l) # r))))"
| "hexDecode _ = Inr []"

definition pad20 :: "string \<Rightarrow> string" where
  "pad20 s = replicate (20 - length s) (CHR '' '') @ s"

definition fileName :: "DiskCache \<Rightarrow> digest \<Rightarrow> string \<Rightarrow> string" where
  "fileName c i key = FilepathJoin [cacheDir c, hexByte (hd i), hexOf i @ ''-'' @ key]"

definition newline :: char where "newline = CHR 0x0A"

definition formatEntry :: "digest \<Rightarrow> digest \<Rightarrow> int \<Rightarrow> int \<Rightarrow> string" where
  "formatEntry i out size' now =
     ''v1 '' @ hexOf i @ '' '' @ hexOf out @ '' '' @ pad20 (formatInt size') @ '' '' @ pad20 (formatInt now) @ [newline]"

text \<open>\<open>strconv.ParseInt\<close> also accepts a plus sign.\<close>

definition ParseInt :: "string \<Rightarrow> int option" where
  "ParseInt s = (case s of c # t \<Rightarrow> if c = CHR ''+'' then (if HasPrefix t ''-'' then None else parseInt64 t) else parseInt64 s
                 | [] \<Rightarrow> None)"

definition skipSpaces :: "string \<Rightarrow> string" where
  "skipSpaces s = dropWhile (\<lambda>c. c = CHR '' '') s"

definition parseEntry :: "digest \<Rightarrow> string \<Rightarrow> missing_reason + Entry" where
  "parseEntry i entry =
     (if entry ! 0 \<noteq> CHR ''v'' \<or> entry ! 1 \<noteq> CHR ''1'' \<or> entry ! 2 \<noteq> CHR '' '' \<or> entry ! (3 + hexSize) \<noteq> CHR '' '' \<or>
         entry ! (3 + hexSize + 1 + hexSize) \<noteq> CHR '' '' \<or> entry ! (3 + hexSize + 1 + hexSize + 1 + 20) \<noteq> CHR '' '' \<or>
         entry ! (entrySize - 1) \<noteq> newline
      then Inl InvalidHeader
      else
        (let eid = take hexSize (drop 3 entry); entry = drop (3 + hexSize) entry;
             eout = take hexSize (drop 1 entry); entry = drop (1 + hexSize) entry;
             esize = take 20 (drop 1 entry); entry = drop (1 + 20) entry;
             etime = take 20 (drop 1 entry)
         in case hexDecode eid of
              Inl c \<Rightarrow> Inl (DecodingID c)
            | Inr buf \<Rightarrow>
                if buf \<noteq> i then Inl MismatchedID
                else (case hexDecode eout of
                        Inl c \<Rightarrow> Inl (DecodingOutputID c)
                      | Inr buf \<Rightarrow>
                          (case ParseInt (skipSpaces esize) of
                             None \<Rightarrow> Inl ParsingSize
                           | Some size' \<Rightarrow>
                               if size' < 0 then Inl NegativeSize
                               else (case ParseInt (skipSpaces etime) of
                                       None \<Rightarrow> Inl ParsingTimestamp
                                     | Some tm \<Rightarrow>
                                         if tm < 0 then Inl NegativeTimestamp
                                         else Inr \<lparr>OutputID = buf, entrySizeOf = size', entryTime = tm\<rparr>)))))"

section \<open>Looking up\<close>

definition hour :: int where "hour = 3600 * 10 ^ 9"
definition mtimeInterval :: int where "mtimeInterval = 1 * hour"
definition trimInterval :: int where "trimInterval = 24 * hour"
definition trimLimit :: int where "trimLimit = 5 * 24 * hour"

definition markUsed :: "IO \<Rightarrow> string \<Rightarrow> disk \<Rightarrow> bool \<times> disk" where
  "markUsed io path d = (case osStat io path d of
       Inl e \<Rightarrow> (False, d)
     | Inr info \<Rightarrow>
         (isDirNode info, if clock io - modTime info \<ge> mtimeInterval then snd (osChtimes io path d) else d))"

definition DiskCache_get :: "DiskCache \<Rightarrow> IO \<Rightarrow> digest \<Rightarrow> disk \<Rightarrow> (cache_error + Entry) \<times> disk" where
  "DiskCache_get c io i d =
     (let path = fileName c i ''a''; missing = (\<lambda>r. (Inl (EntryNotFound r), d)) in
      case osOpen io path d of
        Inl e \<Rightarrow> missing (OsReason e)
      | Inr n \<Rightarrow>
          (case readAll io path n of
             Inl e \<Rightarrow> missing (OsReason e)
           | Inr s \<Rightarrow>
               (let entry = take (entrySize + 1) s in
                if length entry > entrySize then missing TooLong
                else if entry = [] then missing FileIsEmpty
                else if length entry < entrySize then missing EntryIncomplete
                else (case parseEntry i entry of
                        Inl r \<Rightarrow> missing r
                      | Inr e \<Rightarrow> (Inr e, snd (markUsed io path d))))))"

definition DiskCache_Get :: "DiskCache \<Rightarrow> IO \<Rightarrow> digest \<Rightarrow> disk \<Rightarrow> (cache_error + Entry) \<times> disk" where
  "DiskCache_Get c io i d = (if verifyMode c then (Inl (EntryNotFound VerifyModeOn), d) else DiskCache_get c io i d)"

definition OutputFile :: "DiskCache \<Rightarrow> IO \<Rightarrow> digest \<Rightarrow> disk \<Rightarrow> string \<times> disk" where
  "OutputFile c io out d =
     (let path = fileName c out ''d''; (isDir, d') = markUsed io path d in
      if isDir then
        (case readdirErr io path of
           Some e \<Rightarrow> (''DO NOT USE - missing binary cache entry: '' @ e, d')
         | None \<Rightarrow> (case d' path of
               Some (DirNode [e] _) \<Rightarrow> (FilepathJoin [path, e], d')
             | _ \<Rightarrow> (''DO NOT USE - invalid binary cache entry'', d')))
      else (path, d'))"

definition GetFile :: "DiskCache \<Rightarrow> IO \<Rightarrow> digest \<Rightarrow> disk \<Rightarrow> (cache_error + string \<times> Entry) \<times> disk" where
  "GetFile c io i d =
     (case DiskCache_Get c io i d of
        (Inl err, d) \<Rightarrow> (Inl err, d)
      | (Inr entry, d) \<Rightarrow>
          (let (path, d) = OutputFile c io (OutputID entry) d in
           case osStat io path d of
             Inl e \<Rightarrow> (Inl (EntryNotFound (OsReason e)), d)
           | Inr info \<Rightarrow>
               if int (infoSize io path info) \<noteq> entrySizeOf entry then (Inl (EntryNotFound FileIncomplete), d)
               else (Inr (path, entry), d)))"

definition GetBytes :: "DiskCache \<Rightarrow> (string \<Rightarrow> digest) \<Rightarrow> IO \<Rightarrow> digest \<Rightarrow> disk \<Rightarrow> (cache_error + string \<times> Entry) \<times> disk" where
  "GetBytes c sha256 io i d =
     (case DiskCache_Get c io i d of
        (Inl err, d) \<Rightarrow> (Inl err, d)
      | (Inr entry, d) \<Rightarrow>
          (let (path, d) = OutputFile c io (OutputID entry) d in
           case osReadFile io path d of
             Inl e \<Rightarrow> (Inl (EntryNotFound (OsReason e)), d)
           | Inr s \<Rightarrow> if sha256 s \<noteq> OutputID entry then (Inl (EntryNotFound BadChecksum), d) else (Inr (s, entry), d)))"

section \<open>Storing\<close>

text \<open>The reader that is stored is read twice: once for the digest, once for the copy. The two passes of a file that
  changes differ.\<close>

record Reader =
  seek1Err :: "string option"
  pass1 :: string
  pass1Err :: "string option"
  seek2Err :: "string option"
  pass2 :: string
  pass2Err :: string

definition bytesReader :: "string \<Rightarrow> Reader" where
  "bytesReader s = \<lparr>seek1Err = None, pass1 = s, pass1Err = None, seek2Err = None, pass2 = s, pass2Err = ''EOF''\<rparr>"

text \<open>The index entry is written over the old one and cut to its length afterwards; a failure removes the file.\<close>

definition putIndexEntry :: "DiskCache \<Rightarrow> IO \<Rightarrow> digest \<Rightarrow> digest \<Rightarrow> int \<Rightarrow> bool \<Rightarrow> disk \<Rightarrow> cache_error option \<times> disk" where
  "putIndexEntry c io i out size' allowVerify d =
     (let entry = formatEntry i out size' (clock io);
          (old, d1) = (if verifyMode c \<and> allowVerify then DiskCache_get c io i d else (Inl VerifyFailed, d));
          path = fileName c i ''a''
      in if (case old of Inl _ \<Rightarrow> False | Inr o' \<Rightarrow> OutputID o' \<noteq> out \<or> entrySizeOf o' \<noteq> size') then (Some VerifyFailed, d1)
         else case osOpenFile io False path d1 of
           Inl (_, e) \<Rightarrow> (Some (OsError e), d1)
         | Inr d2 \<Rightarrow>
             (let (err, d3) =
                (case writeErr io path of
                   Some (n, e) \<Rightarrow> (Some e, setContent io path (pwrite 0 (take n entry) (contentOf path d2)) d2)
                 | None \<Rightarrow> fileTruncate io path (length entry) (setContent io path (pwrite 0 entry (contentOf path d2)) d2));
                  err = (if err = None then closeErr io path else err)
              in case err of
                   Some e \<Rightarrow> (Some (OsError e), osRemove io path d3)
                 | None \<Rightarrow> map_prod (map_option (ChangeTime path)) id (osChtimes io path d3)))"

text \<open>The copy into the output file: everything but the last byte, the check of the digest, then the last byte,
  which makes the size right. \<open>abort\<close> is the attempt to empty the file before an error is returned.\<close>

definition abort :: "IO \<Rightarrow> string \<Rightarrow> cache_error \<Rightarrow> disk \<Rightarrow> cache_error option \<times> disk" where
  "abort io name err d = (Some err, snd (fileTruncate io name 0 d))"

definition writeOutput :: "(string \<Rightarrow> digest) \<Rightarrow> IO \<Rightarrow> Reader \<Rightarrow> string \<Rightarrow> digest \<Rightarrow> nat \<Rightarrow> disk \<Rightarrow> cache_error option \<times> disk" where
  "writeOutput sha256 io rd name out size' d =
     (case seek2Err rd of
        Some e \<Rightarrow> abort io name (OsError e) d
      | None \<Rightarrow>
          (let chunk = take (size' - 1) (pass2 rd) in
           case (if chunk = [] then None else writeErr io name) of
             Some (n, e) \<Rightarrow> abort io name (OsError e) (setContent io name (pwrite 0 (take n chunk) (contentOf name d)) d)
           | None \<Rightarrow>
               (let d1 = setContent io name (pwrite 0 chunk (contentOf name d)) d in
                if length chunk < size' - 1 then abort io name (OsError (pass2Err rd)) d1
                else (case drop (size' - 1) (pass2 rd) of
                        [] \<Rightarrow> abort io name (OsError (pass2Err rd)) d1
                      | b # _ \<Rightarrow>
                          if sha256 (chunk @ [b]) \<noteq> out then abort io name ContentChanged d1
                          else (case commitErr io name of
                                  Some e \<Rightarrow> abort io name (OsError e) d1
                                | None \<Rightarrow>
                                    (let d2 = setContent io name (pwrite (size' - 1) [b] (contentOf name d1)) d1 in
                                     case closeErr io name of
                                       Some e \<Rightarrow> (Some (OsError e), osRemove io name d2)
                                     | None \<Rightarrow> map_prod (map_option (ChangeTime name)) id (osChtimes io name d2)))))))"

text \<open>A file of the right size is kept if its digest is right; it is rewritten if it is not or if it cannot be opened.
  This is \<open>copyFile\<close> without the name of an executable, as \<open>Put\<close> calls it.\<close>

definition presentOutput :: "(string \<Rightarrow> digest) \<Rightarrow> IO \<Rightarrow> string \<Rightarrow> digest \<Rightarrow> nat \<Rightarrow> string + node \<Rightarrow> disk \<Rightarrow> cache_error option option" where
  "presentOutput sha256 io name out size' info d =
     (case info of
        Inl _ \<Rightarrow> None
      | Inr n \<Rightarrow>
          if infoSize io name n \<noteq> size' then None
          else (case osOpen io name d of
                  Inl _ \<Rightarrow> None
                | Inr n \<Rightarrow> (case readAll io name n of
                      Inl e \<Rightarrow> Some (Some (CopyToHash e))
                    | Inr s \<Rightarrow> if sha256 s = out then Some None else None)))"

definition copyFile :: "DiskCache \<Rightarrow> (string \<Rightarrow> digest) \<Rightarrow> IO \<Rightarrow> Reader \<Rightarrow> digest \<Rightarrow> nat \<Rightarrow> disk \<Rightarrow> cache_error option \<times> disk" where
  "copyFile c sha256 io rd out size' d =
     (let name = fileName c out ''d''; info = osStat io name d in
      case presentOutput sha256 io name out size' info d of
        Some err \<Rightarrow> (err, d)
      | None \<Rightarrow>
          (let trunc = (case info of Inl _ \<Rightarrow> False | Inr n \<Rightarrow> infoSize io name n > size') in
           case osOpenFile io trunc name d of
             Inl (busy, e) \<Rightarrow> if busy then (None, d) else (Some (OsError e), d)
           | Inr d1 \<Rightarrow> if size' = 0 then (None, d1) else writeOutput sha256 io rd name out size' d1))"

definition DiskCache_put ::
  "DiskCache \<Rightarrow> (string \<Rightarrow> digest) \<Rightarrow> IO \<Rightarrow> digest \<Rightarrow> Reader \<Rightarrow> bool \<Rightarrow> disk \<Rightarrow> (cache_error + digest \<times> int) \<times> disk" where
  "DiskCache_put c sha256 io i rd allowVerify d =
     (case seek1Err rd of
        Some e \<Rightarrow> (Inl (OsError e), d)
      | None \<Rightarrow>
          (case pass1Err rd of
             Some e \<Rightarrow> (Inl (OsError e), d)
           | None \<Rightarrow>
               (let out = sha256 (pass1 rd); size' = length (pass1 rd) in
                case copyFile c sha256 io rd out size' d of
                  (Some err, d) \<Rightarrow> (Inl err, d)
                | (None, d) \<Rightarrow>
                    (case putIndexEntry c io i out (int size') allowVerify d of
                       (Some err, d) \<Rightarrow> (Inl err, d)
                     | (None, d) \<Rightarrow> (Inr (out, int size'), d)))))"

text \<open>A reader that is wrapped as \<open>noVerifyReadSeeker\<close> skips the check of the mode \<open>verify\<close>.\<close>

definition DiskCache_Put ::
  "DiskCache \<Rightarrow> (string \<Rightarrow> digest) \<Rightarrow> IO \<Rightarrow> digest \<Rightarrow> Reader \<times> bool \<Rightarrow> disk \<Rightarrow> (cache_error + digest \<times> int) \<times> disk" where
  "DiskCache_Put c sha256 io i rd d = DiskCache_put c sha256 io i (fst rd) (\<not> snd rd) d"

definition PutNoVerify ::
  "DiskCache \<Rightarrow> (string \<Rightarrow> digest) \<Rightarrow> IO \<Rightarrow> digest \<Rightarrow> Reader \<Rightarrow> disk \<Rightarrow> (cache_error + digest \<times> int) \<times> disk" where
  "PutNoVerify c sha256 io i rd d = DiskCache_Put c sha256 io i (rd, True) d"

definition PutBytes :: "DiskCache \<Rightarrow> (string \<Rightarrow> digest) \<Rightarrow> IO \<Rightarrow> digest \<Rightarrow> string \<Rightarrow> disk \<Rightarrow> cache_error option \<times> disk" where
  "PutBytes c sha256 io i s d =
     (case DiskCache_Put c sha256 io i (bytesReader s, False) d of
        (Inl err, d) \<Rightarrow> (Some err, d)
      | (Inr _, d) \<Rightarrow> (None, d))"

section \<open>Trimming\<close>

text \<open>\<open>names\<close> is what \<open>Readdirnames\<close> returns for a directory, in some order, possibly not all of it.\<close>

fun trimNames :: "IO \<Rightarrow> string \<Rightarrow> int \<Rightarrow> string list \<Rightarrow> disk \<Rightarrow> disk" where
  "trimNames io subdir cutoff [] d = d"
| "trimNames io subdir cutoff (name # names) d =
     (if \<not> HasSuffix name ''-a'' \<and> \<not> HasSuffix name ''-d'' then trimNames io subdir cutoff names d
      else
        (let entry = FilepathJoin [subdir, name] in
         case osStat io entry d of
           Inl _ \<Rightarrow> trimNames io subdir cutoff names d
         | Inr info \<Rightarrow>
             trimNames io subdir cutoff names
               (if modTime info < cutoff then (if isDirNode info then osRemoveAll io entry d else osRemove io entry d) else d)))"

definition trimSubdir :: "IO \<Rightarrow> (string \<Rightarrow> string list) \<Rightarrow> string \<Rightarrow> int \<Rightarrow> disk \<Rightarrow> disk" where
  "trimSubdir io names subdir cutoff d = (case osOpen io subdir d of
       Inl _ \<Rightarrow> d
     | Inr _ \<Rightarrow> trimNames io subdir cutoff (names subdir) d)"

definition isSpace :: "char \<Rightarrow> bool" where
  "isSpace ch \<longleftrightarrow> ch \<in> {CHR '' '', CHR 0x09, CHR 0x0A, CHR 0x0B, CHR 0x0C, CHR 0x0D}"

definition TrimSpace :: "string \<Rightarrow> string" where
  "TrimSpace s = rev (dropWhile isSpace (rev (dropWhile isSpace s)))"

definition second :: int where "second = 10 ^ 9"

definition skipTrim :: "int \<Rightarrow> string \<Rightarrow> bool" where
  "skipTrim now data = (case ParseInt (TrimSpace data) of
       None \<Rightarrow> False
     | Some t \<Rightarrow> now - t * second < trimInterval \<and> now - t * second > - mtimeInterval)"

text \<open>The answers of the locked file \<open>trim.txt\<close>: the error of reading it, and of replacing it, with the
  information whether locking is unsupported.\<close>

record Locked =
  lockReadErr :: "string option"
  lockWriteErr :: "(bool \<times> string) option"

definition trimFile :: "DiskCache \<Rightarrow> string" where
  "trimFile c = FilepathJoin [cacheDir c, ''trim.txt'']"

definition byteDirs :: "DiskCache \<Rightarrow> string list" where
  "byteDirs c = map (\<lambda>n. FilepathJoin [cacheDir c, hexByte (char_of n)]) [0..<256]"

definition DiskCache_Trim :: "DiskCache \<Rightarrow> IO \<Rightarrow> Locked \<Rightarrow> (string \<Rightarrow> string list) \<Rightarrow> disk \<Rightarrow> cache_error option \<times> disk" where
  "DiskCache_Trim c io lk names d =
     (let now = clock io; path = trimFile c; data = contentOf path d;
          trimAll = (\<lambda>d. (None, fold (\<lambda>sub d. trimSubdir io names sub (now - trimLimit - mtimeInterval) d) (byteDirs c) d))
      in if lockReadErr lk = None \<and> d path \<noteq> None \<and> skipTrim now data then (None, d)
         else (case lockWriteErr lk of
                 Some (unsupported, e) \<Rightarrow> if unsupported then (Some (OsError e), d) else trimAll d
               | None \<Rightarrow>
                   if skipTrim now data then (None, d)
                   else trimAll (setContent io path (formatInt (now div second)) d)))"

definition DiskCache_Close :: "DiskCache \<Rightarrow> IO \<Rightarrow> Locked \<Rightarrow> (string \<Rightarrow> string list) \<Rightarrow> disk \<Rightarrow> cache_error option \<times> disk" where
  "DiskCache_Close c io lk names d = DiskCache_Trim c io lk names d"

section \<open>Opening\<close>

definition osMkdirAll :: "IO \<Rightarrow> string \<Rightarrow> disk \<Rightarrow> string option \<times> disk" where
  "osMkdirAll io path d = (case mkdirErr io path of
       Some e \<Rightarrow> (Some e, d)
     | None \<Rightarrow> (case d path of
           None \<Rightarrow> (None, d(path \<mapsto> DirNode [] (clock io)))
         | Some (DirNode _ _) \<Rightarrow> (None, d)
         | Some (FileNode _ _) \<Rightarrow> (Some ''not a directory'', d)))"

fun mkdirs :: "IO \<Rightarrow> string list \<Rightarrow> disk \<Rightarrow> string option \<times> disk" where
  "mkdirs io [] d = (None, d)"
| "mkdirs io (path # paths) d = (case osMkdirAll io path d of
       (Some e, d) \<Rightarrow> (Some e, d)
     | (None, d) \<Rightarrow> mkdirs io paths d)"

definition OpenCache :: "IO \<Rightarrow> string \<Rightarrow> disk \<Rightarrow> (cache_error + DiskCache) \<times> disk" where
  "OpenCache io dir d = (case osStat io dir d of
       Inl e \<Rightarrow> (Inl (OsError e), d)
     | Inr info \<Rightarrow>
         if \<not> isDirNode info then (Inl (NotADirectory dir), d)
         else
           (let c = \<lparr>cacheDir = dir, verifyMode = False\<rparr> in
            case mkdirs io (byteDirs c) d of
              (Some e, d) \<Rightarrow> (Inl (OsError e), d)
            | (None, d) \<Rightarrow> (Inr c, d)))"

text \<open>The directory of the cache: the environment variable wins, but only as an absolute path or \<open>off\<close>.\<close>

definition DefaultDir :: "string + string \<Rightarrow> string \<Rightarrow> string \<times> bool \<times> string option" where
  "DefaultDir userCacheDir getenvCache =
     (let (dir, err) = (case userCacheDir of
            Inl e \<Rightarrow> (''off'', Some (''GOLANGCI_LINT_CACHE is not defined and '' @ e))
          | Inr dir \<Rightarrow> (FilepathJoin [dir, ''golangci-lint''], None))
      in if getenvCache \<noteq> [] then
           (if FilepathIsAbs getenvCache \<or> getenvCache = ''off'' then (getenvCache, getenvCache \<noteq> dir, None)
            else (''off'', getenvCache \<noteq> dir, Some ''GOLANGCI_LINT_CACHE is not an absolute path''))
         else (dir, False, err))"

section \<open>Digests of keys and files\<close>

text \<open>A running hash is the text written so far; it starts with the salt. Writing to a digest never fails.\<close>

definition NewHash :: "string \<Rightarrow> string" where
  "NewHash hashSalt = hashSalt"

definition Hash_Write :: "string \<Rightarrow> string \<Rightarrow> string" where
  "Hash_Write b h = h @ b"

definition Hash_Sum :: "(string \<Rightarrow> digest) \<Rightarrow> string \<Rightarrow> digest" where
  "Hash_Sum sha256 h = sha256 h"

definition Subkey :: "(string \<Rightarrow> digest) \<Rightarrow> digest \<Rightarrow> string \<Rightarrow> digest" where
  "Subkey sha256 parent desc = sha256 (''subkey:'' @ parent @ desc)"

text \<open>The hash of a file is remembered for the process, errors are not.\<close>

definition SetFileHash :: "string \<Rightarrow> digest \<Rightarrow> (string \<rightharpoonup> digest) \<Rightarrow> (string \<rightharpoonup> digest)" where
  "SetFileHash path s m = m(path \<mapsto> s)"

definition FileHash ::
  "(string \<Rightarrow> digest) \<Rightarrow> (string \<Rightarrow> string + string) \<Rightarrow> string \<Rightarrow> (string \<rightharpoonup> digest) \<Rightarrow> (string + digest) \<times> (string \<rightharpoonup> digest)" where
  "FileHash sha256 readFile path m = (case m path of
       Some out \<Rightarrow> (Inr out, m)
     | None \<Rightarrow> (case readFile path of
           Inl e \<Rightarrow> (Inl e, m)
         | Inr s \<Rightarrow> (Inr (sha256 s), SetFileHash path (sha256 s) m)))"

definition stripExperiment :: "string \<Rightarrow> string" where
  "stripExperiment version = (case Index version '' X:'' of
       Some i \<Rightarrow> take i version
     | None \<Rightarrow> (case Index version ''-X:'' of Some i \<Rightarrow> take i version | None \<Rightarrow> version))"

section \<open>Entries read back\<close>

lemma hexOf_simps [simp]: "hexOf [] = []" "hexOf (c # s) = hexByte c @ hexOf s" "length (hexByte c) = 2"
  by (simp_all add: hexOf_def hexByte_def)

lemma length_hexOf [simp]: "length (hexOf s) = 2 * length s"
  by (induction s) simp_all

lemma of_char_bound: "(of_char c :: nat) < 256"
proof -
  have "(of_char c :: nat) = of_char c mod 256" by simp
  then show ?thesis by (metis mod_less_divisor zero_less_numeral)
qed

lemma byte_bound: "byte c < 256"
  by (rule of_char_bound)

lemma hexDecode_hexOf [simp]: "hexDecode (hexOf s) = Inr s"
proof (induction s)
  case (Cons c s)
  have "byte c div 16 < 16" "byte c mod 16 < 16" using byte_bound [of c] by (simp_all add: div_less_iff_less_mult)
  then have "hexVal (lowerHex (byte c div 16)) = Some (byte c div 16)" "hexVal (lowerHex (byte c mod 16)) = Some (byte c mod 16)"
    by (simp_all add: hexVal_lowerHex)
  moreover have "16 * (byte c div 16) + byte c mod 16 = byte c" by (rule mult_div_mod_eq)
  ultimately show ?case using Cons by (simp add: hexByte_def)
qed simp

lemma hexOf_inject [simp]: "hexOf s = hexOf t \<longleftrightarrow> s = t"
  by (metis hexDecode_hexOf sum.inject(2))

lemma lowerHex_digit: "n < 16 \<Longrightarrow> lowerHex n \<notin> {slash, CHR ''.''}"
  by (auto simp: lowerHex_def slash_def char_of_eq_iff take_bit_eq_mod)

lemma hexOf_chars: "slash \<notin> set (hexOf s) \<and> CHR ''.'' \<notin> set (hexOf s)"
proof (induction s)
  case (Cons c s)
  have "byte c div 16 < 16" "byte c mod 16 < 16" using byte_bound [of c] by (simp_all add: div_less_iff_less_mult)
  then show ?case using Cons lowerHex_digit [of "byte c div 16"] lowerHex_digit [of "byte c mod 16"]
    by (auto simp: hexByte_def)
qed simp

lemma length_formatNat: "n < 10 ^ k \<Longrightarrow> 0 < k \<Longrightarrow> length (formatNat n) \<le> k"
proof (induction n arbitrary: k rule: formatNat.induct)
  case (1 n)
  show ?case
  proof (cases "n < 10")
    case True
    then show ?thesis using 1 by (subst formatNat.simps) simp
  next
    case False
    then obtain j where j: "k = Suc j" "0 < j" using 1(2,3) by (cases k; cases "k - 1") auto
    then have "n div 10 < 10 ^ j" using 1(2) by auto
    then have "length (formatNat (n div 10)) \<le> j" using 1(1) [OF False] j by blast
    then show ?thesis using False j by (subst formatNat.simps) simp
  qed
qed

lemma length_pad20:
  assumes "0 \<le> n" "n < 2 ^ 63"
  shows "length (pad20 (formatInt n)) = 20"
proof -
  have "nat n < 2 ^ 63" using assms by simp
  then have "nat n < 10 ^ 20" by (rule less_trans) simp
  then show ?thesis using assms length_formatNat [of "nat n" 20] by (simp add: pad20_def formatInt_def)
qed

lemma ParseInt_pad20:
  assumes "0 \<le> n" "n < 2 ^ 63"
  shows "ParseInt (skipSpaces (pad20 (formatInt n))) = Some n"
proof -
  obtain ch s where f: "formatInt n = ch # s" "isDigit ch"
    using formatNat_digits [of "nat n"] assms by (cases "formatNat (nat n)") (auto simp: formatInt_def)
  have "skipSpaces (pad20 (formatInt n)) = formatInt n"
    using f by (auto simp: skipSpaces_def pad20_def dropWhile_append isDigit_def)
  moreover have "parseInt64 (formatInt n) = Some n" using assms by (intro parseInt64_formatInt) auto
  moreover have "ch \<noteq> CHR ''+''" using f by (auto simp: isDigit_def)
  ultimately show ?thesis using f by (simp add: ParseInt_def)
qed

lemma parseEntry_formatEntry:
  assumes "length i = HashSize" "length out = HashSize" "0 \<le> n" "n < 2 ^ 63" "0 \<le> t" "t < 2 ^ 63"
  shows "parseEntry i (formatEntry i out n t) = Inr \<lparr>OutputID = out, entrySizeOf = n, entryTime = t\<rparr>"
    and "length (formatEntry i out n t) = entrySize"
proof -
  define a b where "a = pad20 (formatInt n)" and "b = pad20 (formatInt t)"
  have l: "length (hexOf i) = 64" "length (hexOf out) = 64" "length a = 20" "length b = 20"
    using assms length_pad20 [of n] length_pad20 [of t] by (simp_all add: HashSize_def a_def b_def)
  have f: "formatEntry i out n t = ''v1 '' @ hexOf i @ '' '' @ hexOf out @ '' '' @ a @ '' '' @ b @ [newline]"
    by (simp add: formatEntry_def a_def b_def)
  show "length (formatEntry i out n t) = entrySize"
    using l by (simp add: f entrySize_def hexSize_def HashSize_def)
  show "parseEntry i (formatEntry i out n t) = Inr \<lparr>OutputID = out, entrySizeOf = n, entryTime = t\<rparr>"
    using l ParseInt_pad20 [of n] ParseInt_pad20 [of t] assms
    unfolding f parseEntry_def entrySize_def hexSize_def
    by (simp add: HashSize_def nth_append nth_Cons' Let_def flip: a_def b_def)
qed

text \<open>File names determine the digest and the kind of the file.\<close>

lemma dash_not_dots: "CHR ''-'' \<in> set s \<Longrightarrow> s \<notin> {'''', ''.'', ''..''}"
  by auto

lemma FilepathJoin_plain:
  assumes "FilepathIsAbs d" "list_all plain es" "es \<noteq> []"
  shows "FilepathJoin [d, Join es ''/''] = slash # Join (pathElems d @ es) ''/''"
proof -
  have "\<And>e. e \<in> set es \<Longrightarrow> slash \<notin> set e" using assms(2) by (auto simp: plain_def list_all_iff)
  then have "FilepathJoin [d, Join es ''/''] = slash # Join (cleanElems True (Split d slash @ es) []) ''/''"
    by (rule pathElems_Join [OF assms(1,3)])
  also have "cleanElems True (Split d slash @ es) [] = pathElems d @ es"
    using cleanElems_append [of "Split d slash" "[]" es] pathElems_plain [OF assms(1)] assms(1)
      cleanElems_push [OF assms(2), of True "[]"] by (simp add: pathElems_def)
  finally show ?thesis .
qed

lemma fileName_elems:
  assumes "FilepathIsAbs (cacheDir c)" "slash \<notin> set key" "i \<noteq> []"
  shows "fileName c i key = slash # Join (pathElems (cacheDir c) @ [hexByte (hd i), hexOf i @ ''-'' @ key]) ''/''"
    and "list_all plain (pathElems (cacheDir c) @ [hexByte (hd i), hexOf i @ ''-'' @ key])"
proof -
  let ?es = "[hexByte (hd i), hexOf i @ ''-'' @ key]"
  have h: "slash \<notin> set (hexByte (hd i))" "CHR ''.'' \<notin> set (hexByte (hd i))" "length (hexByte (hd i)) = 2"
    using hexOf_chars [of "[hd i]"] by auto
  have "CHR ''-'' \<in> set (hexOf i @ ''-'' @ key)" by simp
  then have "hexOf i @ ''-'' @ key \<notin> {'''', ''.'', ''..''}" by (rule dash_not_dots)
  moreover have "hexByte (hd i) \<noteq> []" by (simp add: hexByte_def)
  then have "hexByte (hd i) \<notin> {'''', ''.'', ''..''}" using h by auto
  ultimately have pl: "list_all plain ?es"
    using assms(2) h hexOf_chars [of i] by (simp add: plain_def) (simp add: slash_def)
  then show "list_all plain (pathElems (cacheDir c) @ ?es)" using pathElems_plain [OF assms(1)] by simp
  have "cacheDir c \<noteq> []" using assms(1) by (auto simp: FilepathIsAbs_def)
  then have "fileName c i key = FilepathJoin [cacheDir c, Join ?es ''/'']"
    by (simp add: fileName_def FilepathJoin_def)
  then show "fileName c i key = slash # Join (pathElems (cacheDir c) @ ?es) ''/''"
    using FilepathJoin_plain [OF assms(1) pl] by simp
qed

lemma fileName_inject:
  assumes "FilepathIsAbs (cacheDir c)" "length i = HashSize" "length j = HashSize" "slash \<notin> set k" "slash \<notin> set l"
  shows "fileName c i k = fileName c j l \<longleftrightarrow> i = j \<and> k = l"
proof
  assume eq: "fileName c i k = fileName c j l"
  have ne: "i \<noteq> []" "j \<noteq> []" using assms(2,3) by (auto simp: HashSize_def)
  have "pathElems (fileName c i k) = pathElems (fileName c j l)" using eq by simp
  then have "hexOf i @ ''-'' @ k = hexOf j @ ''-'' @ l"
    using pathElems_rooted(1) [OF fileName_elems(2) [OF assms(1,4) ne(1)]] fileName_elems(1) [OF assms(1,4) ne(1)]
      pathElems_rooted(1) [OF fileName_elems(2) [OF assms(1,5) ne(2)]] fileName_elems(1) [OF assms(1,5) ne(2)] by simp
  then show "i = j \<and> k = l" using assms(2,3) by (simp add: append_eq_append_conv)
qed simp

lemma fileName_neq:
  assumes "FilepathIsAbs (cacheDir c)" "length i = HashSize" "length j = HashSize"
  shows "fileName c i ''a'' = fileName c j ''a'' \<longleftrightarrow> i = j" "fileName c i ''d'' = fileName c j ''d'' \<longleftrightarrow> i = j"
    "fileName c i ''a'' \<noteq> fileName c j ''d''" "fileName c i ''d'' \<noteq> fileName c j ''a''"
  using fileName_inject [OF assms] by (simp_all add: slash_def)

section \<open>What the cache holds\<close>

text \<open>The abstract view of a disk: the entry of an action, the bytes of an output, and the bytes that the cache
  holds for an action.\<close>

definition indexEntry :: "DiskCache \<Rightarrow> disk \<Rightarrow> digest \<Rightarrow> Entry option" where
  "indexEntry c d i = (case d (fileName c i ''a'') of
       Some (FileNode s _) \<Rightarrow> if length s = entrySize then (case parseEntry i s of Inl _ \<Rightarrow> None | Inr e \<Rightarrow> Some e) else None
     | _ \<Rightarrow> None)"

definition outputBytes :: "DiskCache \<Rightarrow> disk \<Rightarrow> digest \<Rightarrow> string option" where
  "outputBytes c d out = (case d (fileName c out ''d'') of Some (FileNode s _) \<Rightarrow> Some s | _ \<Rightarrow> None)"

definition cached :: "DiskCache \<Rightarrow> (string \<Rightarrow> digest) \<Rightarrow> disk \<Rightarrow> digest \<Rightarrow> string option" where
  "cached c sha256 d i = (case indexEntry c d i of
       None \<Rightarrow> None
     | Some e \<Rightarrow> (case outputBytes c d (OutputID e) of
           None \<Rightarrow> None
         | Some s \<Rightarrow> if sha256 s = OutputID e then Some s else None))"

text \<open>The outputs are files: the program stores no executables.\<close>

definition plainOutputs :: "DiskCache \<Rightarrow> disk \<Rightarrow> bool" where
  "plainOutputs c d \<longleftrightarrow> (\<forall>out es t. length out = HashSize \<longrightarrow> d (fileName c out ''d'') \<noteq> Some (DirNode es t))"

definition readable :: "IO \<Rightarrow> bool" where
  "readable io \<longleftrightarrow> (\<forall>p. openErr io p = None \<and> readErr io p = None)"

definition sameContents :: "disk \<Rightarrow> disk \<Rightarrow> bool" where
  "sameContents d d' \<longleftrightarrow> (\<forall>p. map_option (setModTime 0) (d p) = map_option (setModTime 0) (d' p))"

lemma sameContents_refl [simp, intro]: "sameContents d d"
  by (simp add: sameContents_def)

lemma sameContents_trans: "sameContents d d1 \<Longrightarrow> sameContents d1 d2 \<Longrightarrow> sameContents d d2"
  by (simp add: sameContents_def)

lemma sameContents_FileNode:
  assumes "sameContents d d'"
  shows "(\<exists>t. d p = Some (FileNode s t)) \<longleftrightarrow> (\<exists>t. d' p = Some (FileNode s t))"
proof -
  have "map_option (setModTime 0) x = Some (FileNode s 0) \<longleftrightarrow> (\<exists>t. x = Some (FileNode s t))" for x
    by (auto elim: setModTime.elims)
  then show ?thesis using assms unfolding sameContents_def by metis
qed

lemma outputBytes_iff: "outputBytes c d out = Some s \<longleftrightarrow> (\<exists>t. d (fileName c out ''d'') = Some (FileNode s t))"
  by (simp add: outputBytes_def split: option.splits node.splits)

lemma indexEntry_iff:
  "indexEntry c d i = Some e \<longleftrightarrow>
     (\<exists>s t. d (fileName c i ''a'') = Some (FileNode s t) \<and> length s = entrySize \<and> parseEntry i s = Inr e)"
  by (simp add: indexEntry_def split: option.splits node.splits sum.splits)

lemma hexDecode_length: "hexDecode x = Inr y \<Longrightarrow> length y = length x div 2"
  by (induction x arbitrary: y rule: hexDecode.induct) (auto split: option.splits sum.splits)

lemma indexEntry_length:
  assumes "indexEntry c d i = Some e"
  shows "length i = HashSize" "length (OutputID e) = HashSize"
proof -
  obtain s where s: "length s = entrySize" "parseEntry i s = Inr e" using assms by (auto simp: indexEntry_iff)
  then have "hexDecode (take hexSize (drop 3 s)) = Inr i"
    "hexDecode (take hexSize (drop 1 (drop (3 + hexSize) s))) = Inr (OutputID e)"
    by (auto simp: parseEntry_def Let_def split: if_splits sum.splits option.splits)
  then show "length i = HashSize" "length (OutputID e) = HashSize"
    using s(1) hexDecode_length by (fastforce simp: entrySize_def hexSize_def HashSize_def)+
qed

lemma cached_iff:
  "cached c sha256 d i = Some s \<longleftrightarrow> (\<exists>e. indexEntry c d i = Some e \<and> outputBytes c d (OutputID e) = Some s \<and> sha256 s = OutputID e)"
  by (auto simp: cached_def split: option.splits)

lemma option_eq_Some: "(\<And>y. a = Some y \<longleftrightarrow> b = Some y) \<Longrightarrow> a = b"
  by (cases a; cases b) auto

lemma sameContents_views:
  assumes "sameContents d d'"
  shows "indexEntry c d = indexEntry c d'" "outputBytes c d = outputBytes c d'" "cached c sha256 d = cached c sha256 d'"
proof -
  have "indexEntry c d i = Some e \<longleftrightarrow> indexEntry c d' i = Some e" for i e
    unfolding indexEntry_iff using sameContents_FileNode [OF assms, of "fileName c i ''a''"] by blast
  then show i: "indexEntry c d = indexEntry c d'" by (intro ext option_eq_Some)
  have "outputBytes c d out = Some s \<longleftrightarrow> outputBytes c d' out = Some s" for out s
    unfolding outputBytes_iff using sameContents_FileNode [OF assms] by blast
  then show ob: "outputBytes c d = outputBytes c d'" by (intro ext option_eq_Some)
  show "cached c sha256 d = cached c sha256 d'" unfolding cached_def i ob by (rule refl)
qed

lemma plainOutputs_sameContents: "sameContents d d' \<Longrightarrow> plainOutputs c d \<Longrightarrow> plainOutputs c d'"
proof -
  assume "sameContents d d'" "plainOutputs c d"
  moreover have "map_option (setModTime 0) x = Some (DirNode es 0) \<longleftrightarrow> (\<exists>t. x = Some (DirNode es t))" for x es
    by (auto elim: setModTime.elims)
  ultimately show ?thesis unfolding plainOutputs_def sameContents_def by metis
qed

text \<open>Looking up changes times only.\<close>

lemma osChtimes_contents: "sameContents d (snd (osChtimes io p d))"
proof -
  have "setModTime 0 (setModTime t n) = setModTime 0 n" for t n by (cases n) simp_all
  then show ?thesis by (auto simp: osChtimes_def sameContents_def split: option.splits)
qed

lemma markUsed_contents: "sameContents d (snd (markUsed io p d))"
  using osChtimes_contents by (auto simp: markUsed_def split: sum.splits)

lemma DiskCache_get_contents: "sameContents d (snd (DiskCache_get c io i d))"
  using markUsed_contents by (auto simp: DiskCache_get_def Let_def split: sum.splits)

lemma OutputFile_contents: "sameContents d (snd (OutputFile c io out d))"
  using markUsed_contents [of d io "fileName c out ''d''"]
  by (cases "markUsed io (fileName c out ''d'') d") (auto simp: OutputFile_def Let_def split: option.splits node.splits list.splits)

lemma GetBytes_contents: "sameContents d (snd (GetBytes c sha256 io i d))"
proof -
  obtain r d1 where g: "DiskCache_Get c io i d = (r, d1)" by fastforce
  then have 1: "sameContents d d1" using DiskCache_get_contents [of d c io i] by (auto simp: DiskCache_Get_def split: if_splits)
  show ?thesis
  proof (cases r)
    case (Inr e)
    obtain p d2 where o: "OutputFile c io (OutputID e) d1 = (p, d2)" by fastforce
    then have "sameContents d1 d2" using OutputFile_contents [of d1 c io "OutputID e"] by simp
    then show ?thesis using sameContents_trans [OF 1] g Inr o by (auto simp: GetBytes_def split: sum.splits)
  qed (use 1 g in \<open>simp add: GetBytes_def\<close>)
qed

text \<open>The answer of \<open>GetBytes\<close> is what the cache holds; failing reads only make it miss.\<close>

lemma DiskCache_get_entry:
  shows "fst (DiskCache_get c io i d) = Inr e \<Longrightarrow> indexEntry c d i = Some e"
    and "readable io \<Longrightarrow> indexEntry c d i = Some e \<Longrightarrow> fst (DiskCache_get c io i d) = Inr e"
    and "fst (DiskCache_get c io i d) = Inl err \<Longrightarrow> IsErrMissing err"
proof -
  show "fst (DiskCache_get c io i d) = Inr e \<Longrightarrow> indexEntry c d i = Some e"
    by (auto simp: DiskCache_get_def indexEntry_def osOpen_def readAll_def Let_def min_def
        split: option.splits node.splits sum.splits if_splits)
  have "entrySize \<noteq> 0" by (simp add: entrySize_def)
  then show "readable io \<Longrightarrow> indexEntry c d i = Some e \<Longrightarrow> fst (DiskCache_get c io i d) = Inr e"
    by (auto simp: DiskCache_get_def indexEntry_def osOpen_def readAll_def readable_def Let_def
        split: option.splits node.splits sum.splits if_splits)
  show "fst (DiskCache_get c io i d) = Inl err \<Longrightarrow> IsErrMissing err"
    by (auto simp: DiskCache_get_def IsErrMissing_def Let_def split: sum.splits if_splits)
qed

lemma OutputFile_plain: "plainOutputs c d \<Longrightarrow> length out = HashSize \<Longrightarrow> fst (OutputFile c io out d) = fileName c out ''d''"
proof -
  assume "plainOutputs c d" "length out = HashSize"
  then have "\<not> fst (markUsed io (fileName c out ''d'') d)"
    by (auto simp: markUsed_def osStat_def plainOutputs_def split: option.splits elim!: isDirNode.elims)
  then show ?thesis by (simp add: OutputFile_def Let_def split_beta)
qed

lemma osReadFile_content: "osReadFile io p d = Inr s \<Longrightarrow> \<exists>t. d p = Some (FileNode s t)"
  by (auto simp: osReadFile_def osOpen_def readAll_def split: option.splits node.splits)

lemma readable_osReadFile: "readable io \<Longrightarrow> d p = Some (FileNode s t) \<Longrightarrow> osReadFile io p d = Inr s"
  by (simp add: osReadFile_def osOpen_def readAll_def readable_def)

lemma GetBytes_cached:
  assumes "\<not> verifyMode c" "plainOutputs c d"
  shows "fst (GetBytes c sha256 io i d) = Inr (s, e) \<Longrightarrow> cached c sha256 d i = Some s"
    and "readable io \<Longrightarrow> cached c sha256 d i = Some s \<Longrightarrow> \<exists>e. fst (GetBytes c sha256 io i d) = Inr (s, e)"
    and "fst (GetBytes c sha256 io i d) = Inl err \<Longrightarrow> IsErrMissing err"
proof -
  obtain r d1 where g: "DiskCache_get c io i d = (r, d1)" by fastforce
  have sc: "sameContents d d1" using DiskCache_get_contents [of d c io i] g by simp
  have pl: "plainOutputs c d1" using plainOutputs_sameContents [OF sc assms(2)] .
  have len: "length (OutputID e) = HashSize" if "r = Inr e" for e
    using indexEntry_length(2) [OF DiskCache_get_entry(1) [of c io i d e]] that g by simp
  have G: "GetBytes c sha256 io i d = (case r of
      Inl err \<Rightarrow> (Inl err, d1)
    | Inr entry \<Rightarrow>
        (case osReadFile io (fileName c (OutputID entry) ''d'') (snd (OutputFile c io (OutputID entry) d1)) of
           Inl e \<Rightarrow> (Inl (EntryNotFound (OsReason e)), snd (OutputFile c io (OutputID entry) d1))
         | Inr s \<Rightarrow> (if sha256 s \<noteq> OutputID entry then Inl (EntryNotFound BadChecksum) else Inr (s, entry), snd (OutputFile c io (OutputID entry) d1))))"
    using g assms(1) OutputFile_plain [OF pl len]
    by (auto simp: GetBytes_def DiskCache_Get_def Let_def split_beta split: sum.splits)
  have out: "sameContents d (snd (OutputFile c io o' d1))" for o'
    using sameContents_trans [OF sc] OutputFile_contents by blast
  have bytes: "outputBytes c d o' = Some b \<longleftrightarrow> (\<exists>t. snd (OutputFile c io o' d1) (fileName c o' ''d'') = Some (FileNode b t))" for o' b
    using sameContents_views(2) [OF out [of o']] by (simp add: outputBytes_iff)
  note entry = DiskCache_get_entry [where c = c and io = io and i = i and d = d, unfolded g fst_conv]
  show "fst (GetBytes c sha256 io i d) = Inr (s, e) \<Longrightarrow> cached c sha256 d i = Some s"
    using entry(1) osReadFile_content bytes unfolding G cached_iff
    by (fastforce split: sum.splits if_splits)
  show "\<exists>e. fst (GetBytes c sha256 io i d) = Inr (s, e)" if rd: "readable io" and cd: "cached c sha256 d i = Some s"
  proof -
    obtain e where e: "r = Inr e" "outputBytes c d (OutputID e) = Some s" "sha256 s = OutputID e"
      using cd entry(2) [OF rd] unfolding cached_iff by blast
    then obtain t where "snd (OutputFile c io (OutputID e) d1) (fileName c (OutputID e) ''d'') = Some (FileNode s t)"
      using bytes by blast
    then show ?thesis using e readable_osReadFile [OF rd] unfolding G by simp
  qed
  show "fst (GetBytes c sha256 io i d) = Inl err \<Longrightarrow> IsErrMissing err"
    using entry(3) unfolding G by (auto simp: IsErrMissing_def split: sum.splits if_splits)
qed

section \<open>What storing changes\<close>

text \<open>A successful copy leaves the stored bytes in the output file and touches no other file.\<close>

lemma pwrite_all: "length old \<le> length s \<Longrightarrow> pwrite 0 s old = s"
  by (simp add: pwrite_def)

lemma contentOf_set [simp]: "contentOf p (setContent io p s d) = s"
  by (simp add: contentOf_def setContent_def)

lemma setContent_other [simp]: "q \<noteq> p \<Longrightarrow> setContent io p s d q = d q"
  by (simp add: setContent_def)

lemma setContent_same [simp]: "setContent io p s d p = Some (FileNode s (clock io))"
  by (simp add: setContent_def)

lemma frame_simps [simp]:
  assumes "q \<noteq> p"
  shows "snd (fileTruncate io p n d) q = d q" "osRemove io p d q = d q" "snd (osChtimes io p d) q = d q"
    and "snd (abort io p err d) q = d q"
  using assms by (simp_all add: fileTruncate_def osRemove_def osChtimes_def abort_def split: option.splits)

lemma osOpenFile_frame: "osOpenFile io tr p d = Inr d' \<Longrightarrow> q \<noteq> p \<Longrightarrow> d' q = d q"
  by (auto simp: osOpenFile_def split: option.splits node.splits if_splits)

lemma writeOutput_frame: "q \<noteq> name \<Longrightarrow> snd (writeOutput sha256 io rd name out n d) q = d q"
  by (simp add: writeOutput_def Let_def split: option.splits prod.splits list.splits)

lemma copyFile_frame: "q \<noteq> fileName c out ''d'' \<Longrightarrow> snd (copyFile c sha256 io rd out n d) q = d q"
  using osOpenFile_frame writeOutput_frame
  by (auto simp: copyFile_def Let_def split: option.splits sum.splits prod.splits)

lemma putIndexEntry_frame:
  assumes "q \<noteq> fileName c i ''a''" "\<not> verifyMode c"
  shows "snd (putIndexEntry c io i out n av d) q = d q"
proof -
  have tr: "fileTruncate io (fileName c i ''a'') m dd = (x, d4) \<Longrightarrow> d4 q = dd q" for m x d4 dd
    using frame_simps(1) [OF assms(1), of io m dd] by simp
  show ?thesis
    using assms osOpenFile_frame [OF _ assms(1)]
    by (auto simp: putIndexEntry_def Let_def tr split: option.splits sum.splits prod.splits if_splits)
qed

lemma osChtimes_ok: "osChtimes io p d = (None, d') \<Longrightarrow> d p = Some (FileNode s t) \<Longrightarrow> d' p = Some (FileNode s (clock io))"
  by (auto simp: osChtimes_def split: option.splits)

lemma writeOutput_ok:
  assumes w: "writeOutput sha256 io (bytesReader s) name out (length s) d = (None, d')"
    and s: "s \<noteq> []" "length (contentOf name d) \<le> length s"
  shows "d' name = Some (FileNode s (clock io))"
proof -
  define chunk where "chunk = take (length s - 1) s"
  define d1 where "d1 = setContent io name (pwrite 0 chunk (contentOf name d)) d"
  define d2 where "d2 = setContent io name (pwrite (length s - 1) [last s] (contentOf name d1)) d1"
  have sp: "s = chunk @ [last s]" using s(1) append_butlast_last_id [of s] by (simp add: chunk_def butlast_conv_take)
  have dr: "drop (length s - 1) s = [last s]" using s(1) by (metis append_butlast_last_id append_eq_conv_conj length_butlast)
  have len: "length chunk = length s - 1" by (simp add: chunk_def)
  have "map_prod (map_option (ChangeTime name)) id (osChtimes io name d2) = (None, d')"
    using w dr len s(1)
    by (auto simp: writeOutput_def bytesReader_def abort_def Let_def chunk_def d1_def d2_def
        split: option.splits if_splits prod.splits)
  then have ch: "osChtimes io name d2 = (None, d')" by (cases "osChtimes io name d2") auto
  have "pwrite (length s - 1) [last s] (pwrite 0 chunk (contentOf name d)) = chunk @ [last s]"
    using s len by (simp add: pwrite_def)
  then have "d2 name = Some (FileNode s (clock io))" using sp by (simp add: d2_def d1_def)
  then show ?thesis using osChtimes_ok [OF ch] by blast
qed

definition notBusy :: "IO \<Rightarrow> string \<Rightarrow> bool" where
  "notBusy io p \<longleftrightarrow> statErr io p = None \<and> (case createErr io p of Some (True, _) \<Rightarrow> False | _ \<Rightarrow> True)"

definition noCollision :: "(string \<Rightarrow> digest) \<Rightarrow> string \<Rightarrow> string option \<Rightarrow> bool" where
  "noCollision sha256 s old \<longleftrightarrow> (case old of None \<Rightarrow> True | Some s' \<Rightarrow> sha256 s' = sha256 s \<longrightarrow> s' = s)"

lemma copyFile_ok:
  assumes cp: "copyFile c sha256 io (bytesReader s) (sha256 s) (length s) d = (None, d')"
    and nb: "notBusy io (fileName c (sha256 s) ''d'')"
    and nc: "noCollision sha256 s (outputBytes c d (sha256 s))" and pl: "plainOutputs c d" "length (sha256 s) = HashSize"
  shows "\<exists>t. d' (fileName c (sha256 s) ''d'') = Some (FileNode s t)"
proof (cases "d (fileName c (sha256 s) ''d'')")
  case None
  let ?p = "fileName c (sha256 s) ''d''"
  have st: "osStat io ?p d = Inl notExist" using None nb by (simp add: osStat_def notBusy_def)
  obtain d1 where d1: "osOpenFile io False ?p d = Inr d1" "contentOf ?p d1 = []" "d1 ?p = Some (FileNode [] (clock io))"
    and "(if length s = 0 then (None, d1) else writeOutput sha256 io (bytesReader s) ?p (sha256 s) (length s) d1) = (None, d')"
    using cp st None nb
    by (auto simp: copyFile_def presentOutput_def osOpenFile_def notBusy_def contentOf_def Let_def split: option.splits if_splits bool.splits)
  then show ?thesis using writeOutput_ok [of sha256 io s ?p "sha256 s" d1 d'] by (cases "s = []") auto
next
  case (Some n)
  let ?p = "fileName c (sha256 s) ''d''"
  obtain s0 t where n: "n = FileNode s0 t" using pl Some by (cases n) (auto simp: plainOutputs_def)
  have st: "osStat io ?p d = Inr (FileNode s0 t)" "infoSize io ?p (FileNode s0 t) = length s0"
    using Some n nb by (simp_all add: osStat_def notBusy_def infoSize_def)
  show ?thesis
  proof (cases "presentOutput sha256 io ?p (sha256 s) (length s) (osStat io ?p d) d")
    case None
    let ?tr = "length s0 > length s"
    obtain d1 where d1: "osOpenFile io ?tr ?p d = Inr d1"
      and r: "(if length s = 0 then (None, d1) else writeOutput sha256 io (bytesReader s) ?p (sha256 s) (length s) d1) = (None, d')"
      using cp st None nb by (auto simp: copyFile_def notBusy_def osOpenFile_def Let_def split: option.splits sum.splits if_splits bool.splits node.splits)
    have "\<exists>t. d1 ?p = Some (FileNode (if ?tr then [] else s0) t)" using d1 Some n
      by (auto simp: osOpenFile_def split: option.splits)
    moreover from this have "length (contentOf ?p d1) \<le> length s" by (auto simp: contentOf_def)
    ultimately show ?thesis using r writeOutput_ok [of sha256 io s ?p "sha256 s" d1 d'] by (cases "s = []") auto
  next
    case pr: (Some err)
    then have "d' = d" "sha256 s0 = sha256 s" using cp Some n st
      by (auto simp: copyFile_def presentOutput_def osOpen_def readAll_def Let_def split: option.splits if_splits)
    then show ?thesis using nc Some n by (auto simp: noCollision_def outputBytes_def)
  qed
qed

lemma putIndexEntry_ok:
  assumes "putIndexEntry c io i out n av d = (None, d')" "\<not> verifyMode c"
  shows "d' (fileName c i ''a'') = Some (FileNode (formatEntry i out n (clock io)) (clock io))"
proof -
  let ?p = "fileName c i ''a''" and ?e = "formatEntry i out n (clock io)"
  obtain d2 d3 where d3: "fileTruncate io ?p (length ?e) (setContent io ?p (pwrite 0 ?e (contentOf ?p d2)) d2) = (None, d3)"
    and m: "map_prod (map_option (ChangeTime ?p)) id (osChtimes io ?p d3) = (None, d')"
    using assms by (auto simp: putIndexEntry_def Let_def split: option.splits sum.splits if_splits prod.splits)
  have "d3 ?p = Some (FileNode ?e (clock io))"
    using d3 by (auto simp: fileTruncate_def pwrite_def split: option.splits)
  moreover have "osChtimes io ?p d3 = (None, d')" using m by (cases "osChtimes io ?p d3") auto
  ultimately show ?thesis using osChtimes_ok by blast
qed

definition noDir :: "disk \<Rightarrow> string \<Rightarrow> bool" where
  "noDir d p \<longleftrightarrow> (\<forall>es t. d p \<noteq> Some (DirNode es t))"

lemma noDir_simps [simp]:
  shows "noDir (setContent io p s d) p"
    and "noDir d p \<Longrightarrow> noDir (snd (fileTruncate io p n d)) p" "noDir d p \<Longrightarrow> noDir (osRemove io p d) p"
    and "noDir d p \<Longrightarrow> noDir (snd (osChtimes io p d)) p" "noDir d p \<Longrightarrow> noDir (snd (abort io p err d)) p"
  by (auto simp: noDir_def fileTruncate_def osRemove_def osChtimes_def abort_def split: option.splits elim!: setModTime.elims)

lemma osOpenFile_noDir: "osOpenFile io tr p d = Inr d1 \<Longrightarrow> noDir d1 p"
  by (auto simp: noDir_def osOpenFile_def split: option.splits node.splits if_splits)

lemma writeOutput_noDir: "noDir d p \<Longrightarrow> noDir (snd (writeOutput sha256 io rd p out n d)) p"
  by (simp add: writeOutput_def Let_def split: option.splits prod.splits list.splits)

lemma copyFile_plain:
  assumes "plainOutputs c d" "FilepathIsAbs (cacheDir c)" "length out = HashSize"
  shows "plainOutputs c (snd (copyFile c sha256 io rd out n d))"
  unfolding plainOutputs_def
proof (intro allI impI)
  fix o' :: digest and es t assume o': "length o' = HashSize"
  let ?p = "fileName c out ''d''"
  have "noDir d ?p" using assms(1,3) by (auto simp: plainOutputs_def noDir_def)
  then have "noDir (snd (copyFile c sha256 io rd out n d)) ?p"
    using osOpenFile_noDir writeOutput_noDir
    by (auto simp: copyFile_def Let_def split: option.splits sum.splits prod.splits)
  then show "snd (copyFile c sha256 io rd out n d) (fileName c o' ''d'') \<noteq> Some (DirNode es t)"
    using copyFile_frame [of "fileName c o' ''d''" c out] assms(1) o'
    by (cases "o' = out") (auto simp: plainOutputs_def noDir_def fileName_neq assms)
qed

section \<open>Storing and looking up\<close>

text \<open>What the operations rely on: an absolute directory, no verification mode, digests of the right size.\<close>

definition cacheOk :: "DiskCache \<Rightarrow> (string \<Rightarrow> digest) \<Rightarrow> bool" where
  "cacheOk c sha256 \<longleftrightarrow> FilepathIsAbs (cacheDir c) \<and> \<not> verifyMode c \<and> (\<forall>s. length (sha256 s) = HashSize)"

definition int63 :: "int \<Rightarrow> bool" where
  "int63 n \<longleftrightarrow> 0 \<le> n \<and> n < 2 ^ 63"

text \<open>What a call can rely on beyond the values that it was given: the output file can be inspected and is not in use as a
  program, it is no other content with the same digest, and sizes and times fit their fields.\<close>

definition sanePut :: "DiskCache \<Rightarrow> (string \<Rightarrow> digest) \<Rightarrow> IO \<Rightarrow> string \<Rightarrow> disk \<Rightarrow> bool" where
  "sanePut c sha256 io s d \<longleftrightarrow> notBusy io (fileName c (sha256 s) ''d'') \<and> noCollision sha256 s (outputBytes c d (sha256 s)) \<and>
     int63 (clock io) \<and> int63 (int (length s))"

lemma DiskCache_put_bytes:
  "PutBytes c sha256 io i s d =
     (case copyFile c sha256 io (bytesReader s) (sha256 s) (length s) d of
        (Some err, d) \<Rightarrow> (Some err, d)
      | (None, d) \<Rightarrow> putIndexEntry c io i (sha256 s) (int (length s)) True d)"
  by (auto simp: PutBytes_def DiskCache_Put_def DiskCache_put_def bytesReader_def Let_def split: prod.splits option.splits)

lemma PutBytes_plain:
  assumes "cacheOk c sha256" "length i = HashSize" "plainOutputs c d"
  shows "plainOutputs c (snd (PutBytes c sha256 io i s d))"
proof -
  obtain r d1 where cp: "copyFile c sha256 io (bytesReader s) (sha256 s) (length s) d = (r, d1)" by fastforce
  then have p1: "plainOutputs c d1"
    using copyFile_plain [OF assms(3), of "sha256 s" sha256 io "bytesReader s" "length s"] assms(1) by (simp add: cacheOk_def)
  have "plainOutputs c (snd (putIndexEntry c io i out n av d1))" for out n av
    using p1 putIndexEntry_frame [of "fileName c o' ''d''" c i for o'] fileName_neq [of c _ i] assms
    unfolding plainOutputs_def cacheOk_def by metis
  then show ?thesis using p1 by (simp add: DiskCache_put_bytes cp split: option.splits)
qed

lemma PutBytes_stores:
  assumes ok: "cacheOk c sha256" "length i = HashSize" "plainOutputs c d"
    and put: "PutBytes c sha256 io i s d = (None, d')" and sane: "sanePut c sha256 io s d"
  shows "cached c sha256 d' i = Some s"
    and "j \<noteq> i \<Longrightarrow> cached c sha256 d j = Some s' \<Longrightarrow> cached c sha256 d' j = Some s'"
proof -
  have c: "FilepathIsAbs (cacheDir c)" "\<not> verifyMode c" "\<And>s. length (sha256 s) = HashSize"
    using ok(1) by (auto simp: cacheOk_def)
  obtain d1 where d1: "copyFile c sha256 io (bytesReader s) (sha256 s) (length s) d = (None, d1)"
    "putIndexEntry c io i (sha256 s) (int (length s)) True d1 = (None, d')"
    using put by (auto simp: DiskCache_put_bytes split: prod.splits option.splits)
  obtain t where out1: "d1 (fileName c (sha256 s) ''d'') = Some (FileNode s t)"
    using copyFile_ok [OF d1(1)] sane ok(3) c(3) by (auto simp: sanePut_def)
  have frame: "d' q = d1 q" if "q \<noteq> fileName c i ''a''" for q
    using putIndexEntry_frame [OF that c(2), of io] d1(2) by (metis snd_conv)
  have frame1: "d1 q = d q" if "q \<noteq> fileName c (sha256 s) ''d''" for q
    using copyFile_frame [OF that] d1(1) by (metis snd_conv)
  have out: "outputBytes c d' (sha256 s) = Some s"
    using out1 frame fileName_neq(4) [OF c(1) c(3) ok(2)] by (simp add: outputBytes_iff)
  have "indexEntry c d' i = Some \<lparr>OutputID = sha256 s, entrySizeOf = int (length s), entryTime = clock io\<rparr>"
    using putIndexEntry_ok [OF d1(2) c(2)] parseEntry_formatEntry [OF ok(2) c(3)] sane
    by (simp add: indexEntry_iff sanePut_def int63_def)
  then show "cached c sha256 d' i = Some s" using out by (simp add: cached_iff)
  show "cached c sha256 d' j = Some s'" if j: "j \<noteq> i" and cd: "cached c sha256 d j = Some s'"
  proof -
    obtain e where e: "indexEntry c d j = Some e" "outputBytes c d (OutputID e) = Some s'" "sha256 s' = OutputID e"
      using cd by (auto simp: cached_iff)
    note len = indexEntry_length [OF e(1)]
    have "d' (fileName c j ''a'') = d (fileName c j ''a'')"
      using frame frame1 fileName_neq [OF c(1) len(1) ok(2)] fileName_neq [OF c(1) len(1) c(3)] j by metis
    then have "indexEntry c d' j = Some e" using e(1) by (simp add: indexEntry_def)
    moreover have "outputBytes c d' (OutputID e) = Some s'"
    proof (cases "OutputID e = sha256 s")
      case True
      then have "s' = s" using sane e(2,3) by (auto simp: sanePut_def noCollision_def)
      then show ?thesis using True out by simp
    next
      case False
      then have "d' (fileName c (OutputID e) ''d'') = d (fileName c (OutputID e) ''d'')"
        using frame frame1 fileName_neq [OF c(1) len(2) ok(2)] fileName_neq [OF c(1) len(2) c(3)] by metis
      then show ?thesis using e(2) by (simp add: outputBytes_def)
    qed
    ultimately show ?thesis using e(3) by (simp add: cached_iff)
  qed
qed

section \<open>Histories\<close>

text \<open>Operations on a disk, in any order and with any failures; the content of an output file may be damaged by anyone.\<close>

datatype cache_op =
    OpPut digest string IO
  | OpGet digest IO
  | OpTrim IO Locked "string \<Rightarrow> string list"
  | OpDamage digest string

fun cacheStep :: "DiskCache \<Rightarrow> (string \<Rightarrow> digest) \<Rightarrow> cache_op \<Rightarrow> disk \<Rightarrow> disk" where
  "cacheStep c sha256 (OpPut i s io) d = snd (PutBytes c sha256 io i s d)"
| "cacheStep c sha256 (OpGet i io) d = snd (GetBytes c sha256 io i d)"
| "cacheStep c sha256 (OpTrim io lk names) d = snd (DiskCache_Trim c io lk names d)"
| "cacheStep c sha256 (OpDamage out s) d = d(fileName c out ''d'' \<mapsto> FileNode s 0)"

text \<open>The one failure that is excluded: a write of an index entry, a few bytes, that leaves a part of it.\<close>

fun cacheOpOk :: "DiskCache \<Rightarrow> cache_op \<Rightarrow> bool" where
  "cacheOpOk c (OpPut i s io) \<longleftrightarrow> length i = HashSize \<and> int63 (clock io) \<and> int63 (int (length s)) \<and>
     (case writeErr io (fileName c i ''a'') of None \<Rightarrow> True | Some (n, _) \<Rightarrow> n = 0 \<or> entrySize \<le> n)"
| "cacheOpOk c (OpDamage out s) \<longleftrightarrow> length out = HashSize"
| "cacheOpOk c _ \<longleftrightarrow> True"

definition indexFrom :: "DiskCache \<Rightarrow> (string \<Rightarrow> digest) \<Rightarrow> cache_op set \<Rightarrow> disk \<Rightarrow> bool" where
  "indexFrom c sha256 ops d \<longleftrightarrow> (\<forall>i s t. length i = HashSize \<longrightarrow> d (fileName c i ''a'') = Some (FileNode s t) \<longrightarrow>
     s = [] \<or> (\<exists>s0 io n t. OpPut i s0 io \<in> ops \<and> int63 n \<and> int63 t \<and> s = formatEntry i (sha256 s0) n t))"

lemma trimFile_path:
  assumes "FilepathIsAbs (cacheDir c)"
  shows "trimFile c = slash # Join (pathElems (cacheDir c) @ [''trim.txt'']) ''/''" "list_all plain (pathElems (cacheDir c) @ [''trim.txt''])"
  using FilepathJoin_plain [OF assms, of "[''trim.txt'']"] pathElems_plain [OF assms]
  by (simp_all add: trimFile_def plain_def slash_def)

lemma trimFile_neq:
  assumes "FilepathIsAbs (cacheDir c)" "i \<noteq> []" "slash \<notin> set key"
  shows "fileName c i key \<noteq> trimFile c"
proof
  assume "fileName c i key = trimFile c"
  then have "pathElems (fileName c i key) = pathElems (trimFile c)" by simp
  then show False
    using fileName_elems [OF assms(1,3,2)] trimFile_path [OF assms(1)] pathElems_rooted(1) by simp
qed

text \<open>Trimming only removes files, apart from the file with its time.\<close>

lemma trimNames_removes: "trimNames io sub cutoff names d q = d q \<or> trimNames io sub cutoff names d q = None"
proof (induction names arbitrary: d)
  case (Cons name names)
  have "osRemove io p d q = d q \<or> osRemove io p d q = None" "osRemoveAll io p d q = d q \<or> osRemoveAll io p d q = None" for p
    by (auto simp: osRemove_def osRemoveAll_def split: option.splits)
  then show ?case using Cons by (simp add: Let_def split: sum.splits) metis
qed simp

lemma trimSubdir_removes: "trimSubdir io names sub cutoff d q = d q \<or> trimSubdir io names sub cutoff d q = None"
  using trimNames_removes by (auto simp: trimSubdir_def split: sum.splits)

lemma Trim_removes:
  assumes "q \<noteq> trimFile c"
  shows "snd (DiskCache_Trim c io lk names d) q = d q \<or> snd (DiskCache_Trim c io lk names d) q = None"
proof -
  have "fold (\<lambda>sub d. trimSubdir io names sub cutoff d) subs d q = d q \<or> fold (\<lambda>sub d. trimSubdir io names sub cutoff d) subs d q = None"
    for subs cutoff d
  proof (induction subs arbitrary: d)
    case (Cons sub subs)
    show ?case using Cons [of "trimSubdir io names sub cutoff d"] trimSubdir_removes [of io names sub cutoff d q] by auto
  qed simp
  note removes = this
  show ?thesis
    using removes [of _ "byteDirs c" d]
      removes [of _ "byteDirs c" "setContent io (trimFile c) (formatInt (clock io div second)) d"] setContent_other [OF assms]
    by (simp add: DiskCache_Trim_def Let_def split: option.splits prod.splits)
qed

text \<open>Whatever fails, an index file is unchanged, empty, removed or holds the new entry.\<close>

lemma putIndexEntry_content:
  assumes "\<not> verifyMode c" and p: "p = fileName c i ''a''" and e: "e = formatEntry i out n (clock io)" "length e = entrySize"
    and at: "case writeErr io p of None \<Rightarrow> True | Some (m, _) \<Rightarrow> m = 0 \<or> entrySize \<le> m"
    and old: "contentOf p d = [] \<or> length (contentOf p d) = entrySize"
    and d': "snd (putIndexEntry c io i out n av d) p = Some (FileNode s t)"
  shows "s \<in> {[], e} \<or> (\<exists>t. d p = Some (FileNode s t))"
proof -
  let ?r = "\<lambda>d2. case writeErr io p of
      Some (m, err) \<Rightarrow> (Some err, setContent io p (pwrite 0 (take m e) (contentOf p d2)) d2)
    | None \<Rightarrow> fileTruncate io p (length e) (setContent io p (pwrite 0 e (contentOf p d2)) d2)"
  have put: "snd (putIndexEntry c io i out n av d) = (case osOpenFile io False p d of
      Inl _ \<Rightarrow> d
    | Inr d2 \<Rightarrow> (case (if fst (?r d2) = None then closeErr io p else fst (?r d2)) of
          Some err \<Rightarrow> osRemove io p (snd (?r d2))
        | None \<Rightarrow> snd (osChtimes io p (snd (?r d2)))))"
    using assms(1) by (simp add: putIndexEntry_def Let_def e(1) p split_beta split: sum.splits option.splits)
  show ?thesis
  proof (cases "osOpenFile io False p d")
    case (Inr d2)
    have c2: "contentOf p d2 = contentOf p d" "contentOf p d = [] \<or> (\<exists>t. d p = Some (FileNode (contentOf p d) t))"
      using Inr by (auto simp: osOpenFile_def contentOf_def split: option.splits node.splits)
    have full: "pwrite 0 e (contentOf p d) = e" using old e(2) by (intro pwrite_all) auto
    have "snd (?r d2) p = Some (FileNode e (clock io)) \<or> snd (?r d2) p = Some (FileNode (contentOf p d) (clock io))"
      using at full c2(1) e(2) by (auto simp: fileTruncate_def pwrite_def split: option.splits)
    then obtain s1 where s1: "snd (?r d2) p = Some (FileNode s1 (clock io))" "s1 = e \<or> s1 = contentOf p d" by blast
    have "osRemove io p (snd (?r d2)) p \<in> {None, Some (FileNode s1 (clock io))}"
      "\<exists>t. snd (osChtimes io p (snd (?r d2))) p = Some (FileNode s1 t)"
      using s1(1) by (simp_all add: osRemove_def osChtimes_def split: option.splits)
    then have "s = s1" using d' unfolding put Inr by (auto split: option.splits if_splits)
    then show ?thesis using s1(2) c2(2) by auto
  qed (use d' put in auto)
qed

lemma formatEntry_length:
  assumes "length i = HashSize" "length out = HashSize" "int63 n" "int63 t"
  shows "length (formatEntry i out n t) = entrySize"
  using parseEntry_formatEntry(2) [OF assms(1,2)] assms(3,4) by (simp add: int63_def)

lemma indexFrom_put:
  assumes ok: "cacheOk c sha256" and op: "cacheOpOk c (OpPut i s io)" and ix: "indexFrom c sha256 ops d"
  shows "indexFrom c sha256 (insert (OpPut i s io) ops) (snd (PutBytes c sha256 io i s d))"
  unfolding indexFrom_def
proof (intro allI impI)
  fix j s' t assume j: "length j = HashSize" and r: "snd (PutBytes c sha256 io i s d) (fileName c j ''a'') = Some (FileNode s' t)"
  have c: "FilepathIsAbs (cacheDir c)" "\<not> verifyMode c" "\<And>s. length (sha256 s) = HashSize"
    using ok by (auto simp: cacheOk_def)
  obtain x d1 where cp: "copyFile c sha256 io (bytesReader s) (sha256 s) (length s) d = (x, d1)" by fastforce
  have frame: "d1 (fileName c j ''a'') = d (fileName c j ''a'')" if "length j = HashSize" for j
    using copyFile_frame [of "fileName c j ''a''" c "sha256 s" sha256 io "bytesReader s" "length s" d]
      fileName_neq(3) [OF c(1) that c(3)] cp by simp
  have old: "s' = [] \<or> (\<exists>s0 io n t. OpPut j s0 io \<in> ops \<and> int63 n \<and> int63 t \<and> s' = formatEntry j (sha256 s0) n t)"
    if "d1 (fileName c j ''a'') = Some (FileNode s' t)" "length j = HashSize" for j s' t
    using ix that frame unfolding indexFrom_def by metis
  show "s' = [] \<or> (\<exists>s0 io' n t. OpPut j s0 io' \<in> insert (OpPut i s io) ops \<and> int63 n \<and> int63 t \<and> s' = formatEntry j (sha256 s0) n t)"
  proof (cases x)
    case None
    let ?e = "formatEntry i (sha256 s) (int (length s)) (clock io)"
    have r1: "snd (putIndexEntry c io i (sha256 s) (int (length s)) True d1) (fileName c j ''a'') = Some (FileNode s' t)"
      using r cp None by (simp add: DiskCache_put_bytes)
    show ?thesis
    proof (cases "j = i")
      case True
      have "contentOf (fileName c i ''a'') d1 = [] \<or> length (contentOf (fileName c i ''a'') d1) = entrySize"
        using old [of i] op formatEntry_length c(3) by (auto simp: contentOf_def split: option.splits node.splits)
      then have "s' \<in> {[], ?e} \<or> (\<exists>t. d1 (fileName c i ''a'') = Some (FileNode s' t))"
        using putIndexEntry_content [OF c(2) refl refl _ _ _ r1 [unfolded True]] op formatEntry_length [of i "sha256 s"] c(3) by simp
      then show ?thesis using old [of i s'] op True by auto
    next
      case False
      then have "d1 (fileName c j ''a'') = Some (FileNode s' t)"
        using r1 putIndexEntry_frame [OF _ c(2)] fileName_neq(1) [OF c(1) j] op by simp
      then show ?thesis using old [OF _ j] by blast
    qed
  qed (use r cp old [OF _ j] in \<open>auto simp: DiskCache_put_bytes\<close>)
qed

lemma indexFrom_mono:
  assumes "indexFrom c sha256 ops d" "ops \<subseteq> ops'"
    and "\<And>i s t. length i = HashSize \<Longrightarrow> d' (fileName c i ''a'') = Some (FileNode s t) \<Longrightarrow> \<exists>t. d (fileName c i ''a'') = Some (FileNode s t)"
  shows "indexFrom c sha256 ops' d'"
  using assms unfolding indexFrom_def by (meson subsetD)

lemma cacheStep_invariant:
  assumes ok: "cacheOk c sha256" "cacheOpOk c op" and ix: "indexFrom c sha256 ops d" "plainOutputs c d"
  shows "indexFrom c sha256 (insert op ops) (cacheStep c sha256 op d) \<and> plainOutputs c (cacheStep c sha256 op d)"
proof (cases op)
  case (OpPut i s io)
  then show ?thesis using indexFrom_put [OF ok(1) _ ix(1)] PutBytes_plain [OF ok(1) _ ix(2)] ok(2) by simp
next
  case (OpGet i io)
  have sc: "sameContents d (cacheStep c sha256 op d)" using GetBytes_contents OpGet by simp
  then show ?thesis
    using indexFrom_mono [OF ix(1), of "insert op ops"] sameContents_FileNode [OF sc] plainOutputs_sameContents [OF sc ix(2)] by blast
next
  case (OpTrim io lk names)
  have rem: "cacheStep c sha256 op d (fileName c i k) \<in> {None, d (fileName c i k)}" if "length i = HashSize" "k \<in> {''a'', ''d''}" for i k
  proof -
    have "i \<noteq> []" "slash \<notin> set k" using that by (auto simp: HashSize_def slash_def)
    then have "fileName c i k \<noteq> trimFile c" using trimFile_neq ok(1) by (simp add: cacheOk_def)
    then show ?thesis using Trim_removes [of "fileName c i k" c io lk names d] OpTrim by auto
  qed
  have "plainOutputs c (cacheStep c sha256 op d)"
    unfolding plainOutputs_def
  proof (intro allI impI)
    fix out :: digest and es t assume "length out = HashSize"
    then show "cacheStep c sha256 op d (fileName c out ''d'') \<noteq> Some (DirNode es t)"
      using rem [of out "''d''"] ix(2) by (auto simp: plainOutputs_def)
  qed
  moreover have "indexFrom c sha256 (insert op ops) (cacheStep c sha256 op d)"
  proof (rule indexFrom_mono [OF ix(1)])
    fix i s t assume i: "length i = HashSize" and s: "cacheStep c sha256 op d (fileName c i ''a'') = Some (FileNode s t)"
    have "cacheStep c sha256 op d (fileName c i ''a'') = d (fileName c i ''a'')" using rem [OF i, of "''a''"] s by auto
    then have "d (fileName c i ''a'') = Some (FileNode s t)" using s by simp
    then show "\<exists>t. d (fileName c i ''a'') = Some (FileNode s t)" by blast
  qed auto
  ultimately show ?thesis by blast
next
  case (OpDamage out s)
  have c: "FilepathIsAbs (cacheDir c)" "length out = HashSize" using ok OpDamage by (simp_all add: cacheOk_def)
  then have "plainOutputs c (cacheStep c sha256 op d)" using ix(2) OpDamage by (simp add: plainOutputs_def)
  moreover have "indexFrom c sha256 (insert op ops) (cacheStep c sha256 op d)"
    using OpDamage fileName_neq(3) [OF c(1) _ c(2)] by (intro indexFrom_mono [OF ix(1)]) auto
  ultimately show ?thesis by blast
qed

lemma history_invariant:
  assumes "cacheOk c sha256" "list_all (cacheOpOk c) ops"
  shows "indexFrom c sha256 (set ops) (fold (cacheStep c sha256) ops Map.empty) \<and> plainOutputs c (fold (cacheStep c sha256) ops Map.empty)"
  using assms(2)
proof (induction ops rule: rev_induct)
  case Nil
  then show ?case by (simp add: indexFrom_def plainOutputs_def)
next
  case (snoc op ops)
  then show ?case using cacheStep_invariant [OF assms(1), of op "set ops"] by simp
qed

lemma answers_were_stored:
  assumes "cacheOk c sha256" "list_all (cacheOpOk c) ops"
    and "fst (GetBytes c sha256 io i (fold (cacheStep c sha256) ops Map.empty)) = Inr (s, e)"
  shows "\<exists>s0 io0. OpPut i s0 io0 \<in> set ops \<and> sha256 s0 = sha256 s"
proof -
  let ?d = "fold (cacheStep c sha256) ops Map.empty"
  have v: "\<not> verifyMode c" "\<And>s. length (sha256 s) = HashSize" using assms(1) by (simp_all add: cacheOk_def)
  note inv = history_invariant [OF assms(1,2)]
  have "cached c sha256 ?d i = Some s" using GetBytes_cached(1) [OF v(1) _ assms(3)] inv by blast
  then obtain e x t where e: "indexEntry c ?d i = Some e" "sha256 s = OutputID e"
    and x: "?d (fileName c i ''a'') = Some (FileNode x t)" "length x = entrySize" "parseEntry i x = Inr e"
    by (auto simp: cached_iff indexEntry_iff)
  have "x \<noteq> []" using x(2) by (auto simp: entrySize_def)
  then obtain s0 io0 n t0 where p: "OpPut i s0 io0 \<in> set ops" "int63 n" "int63 t0" "x = formatEntry i (sha256 s0) n t0"
    using inv x(1) indexEntry_length(1) [OF e(1)] unfolding indexFrom_def by metis
  then have "OutputID e = sha256 s0"
    using x(3) parseEntry_formatEntry(1) [OF indexEntry_length(1) [OF e(1)] v(2)] by (auto simp: int63_def)
  then show ?thesis using p(1) e(2) by auto
qed

section \<open>Trimming keeps what was used\<close>

lemma same_depth_no_prefix:
  assumes "list_all plain es" "list_all plain fs" "length es = length fs"
  shows "\<not> HasPrefix (slash # Join es ''/'') ((slash # Join fs ''/'') @ ''/'')"
proof
  assume "HasPrefix (slash # Join es ''/'') ((slash # Join fs ''/'') @ ''/'')"
  then obtain r where r: "slash # Join es ''/'' = (slash # Join fs ''/'') @ [slash] @ r"
    unfolding HasPrefix_iff_prefix prefix_def by (auto simp: slash_def)
  have len: "length (Split (slash # Join gs ''/'') slash) = Suc (max 1 (length gs))" if "list_all plain gs" for gs
  proof (cases "gs = []")
    case False
    have "slash \<notin> set e" if "e \<in> set gs" for e using \<open>list_all plain gs\<close> that by (simp add: list_all_iff plain_def)
    then have "Split (Join gs ''/'') slash = gs" using Split_Join_slash [OF False] by blast
    then show ?thesis using False by (simp add: max_def Suc_le_eq)
  qed simp
  have "Split r slash \<noteq> []" by (cases r) (auto split: list.splits)
  then have "length (Split (slash # Join es ''/'') slash) > length (Split (slash # Join fs ''/'') slash)"
    unfolding r Split_append_sep by simp
  then show False using len [OF assms(1)] len [OF assms(2)] assms(3) by simp
qed

lemma suffix_plain:
  assumes "HasSuffix name ''-a'' \<or> HasSuffix name ''-d''" "slash \<notin> set name"
  shows "plain name"
proof -
  have "drop (length name - 2) name \<in> {''-a'', ''-d''}" using assms(1) by (auto simp: HasSuffix_def numeral_2_eq_2)
  then have "CHR ''-'' \<in> set (drop (length name - 2) name)" by auto
  then have "CHR ''-'' \<in> set name" by (rule in_set_dropD)
  then show ?thesis using dash_not_dots assms(2) by (auto simp: plain_def)
qed

lemma trimNames_keeps:
  assumes sub: "FilepathIsAbs sub" and p: "p = slash # Join es ''/''" "list_all plain es" "length es = Suc (length (pathElems sub))"
  shows "d p = Some n \<Longrightarrow> cutoff \<le> modTime n \<Longrightarrow> \<forall>name \<in> set names. slash \<notin> set name \<Longrightarrow>
    trimNames io sub cutoff names d p = Some n"
proof (induction names arbitrary: d)
  case (Cons name names)
  show ?case
  proof (cases "HasSuffix name ''-a'' \<or> HasSuffix name ''-d''")
    case True
    then have pl: "plain name" using suffix_plain Cons.prems(3) by simp
    let ?fs = "pathElems sub @ [name]" and ?q = "FilepathJoin [sub, name]"
    have q: "?q = slash # Join ?fs ''/''" "list_all plain ?fs"
      using FilepathJoin_plain [OF sub, of "[name]"] pl pathElems_plain [OF sub] by simp_all
    have "\<not> HasPrefix p (?q @ ''/'')" using same_depth_no_prefix [OF p(2) q(2)] p(1,3) q(1) by simp
    then have keep: "p \<noteq> ?q \<Longrightarrow> osRemove io ?q d p = Some n \<and> osRemoveAll io ?q d p = Some n"
      using Cons.prems(1) by (simp add: osRemove_def osRemoveAll_def split: option.splits)
    have old: "osStat io ?q d = Inr info \<Longrightarrow> modTime info < cutoff \<Longrightarrow> p \<noteq> ?q" for info
      using Cons.prems(1,2) by (auto simp: osStat_def split: option.splits)
    show ?thesis
      using True Cons.IH [of d] Cons.IH [of "osRemove io ?q d"] Cons.IH [of "osRemoveAll io ?q d"] Cons.prems keep old
      by (auto simp: Let_def split: sum.splits)
  qed (use Cons in simp)
qed simp

lemma markUsed_fresh:
  assumes "statErr io p = None" "chtimesErr io p = None" "d p = Some n"
  shows "\<exists>n'. snd (markUsed io p d) p = Some n' \<and> clock io - mtimeInterval < modTime n'"
proof -
  have "modTime (setModTime t n) = t" for t by (cases n) simp_all
  moreover have "0 < mtimeInterval" by (simp add: mtimeInterval_def hour_def)
  ultimately show ?thesis using assms by (auto simp: markUsed_def osStat_def osChtimes_def)
qed

lemma markUsed_frame: "q \<noteq> p \<Longrightarrow> snd (markUsed io p d) q = d q"
  by (simp add: markUsed_def split: sum.splits)

text \<open>Looking up an entry refreshes its index file and its output file.\<close>

definition fresh :: "DiskCache \<Rightarrow> IO \<Rightarrow> string \<Rightarrow> disk \<Rightarrow> bool" where
  "fresh c io p d \<longleftrightarrow> (\<exists>n. d p = Some n \<and> clock io - mtimeInterval < modTime n)"

lemma GetBytes_fresh:
  assumes ok: "FilepathIsAbs (cacheDir c)" "\<not> verifyMode c" "plainOutputs c d"
    and io: "\<And>p. statErr io p = None \<and> chtimesErr io p = None"
    and g: "GetBytes c sha256 io i d = (Inr (s, e), d1)"
  shows "fresh c io (fileName c i ''a'') d1 \<and> fresh c io (fileName c (OutputID e) ''d'') d1"
proof -
  obtain d0 where get: "DiskCache_get c io i d = (Inr e, d0)" and o1: "d1 = snd (OutputFile c io (OutputID e) d0)"
    and rd: "osReadFile io (fst (OutputFile c io (OutputID e) d0)) d1 = Inr s"
    using g ok(2) by (auto simp: GetBytes_def DiskCache_Get_def Let_def split: prod.splits sum.splits if_splits)
  have ix: "indexEntry c d i = Some e" using DiskCache_get_entry(1) [of c io i d e] get by simp
  note len = indexEntry_length [OF ix]
  have d0: "d0 = snd (markUsed io (fileName c i ''a'') d)"
    using get by (auto simp: DiskCache_get_def Let_def split: sum.splits if_splits)
  have pl: "plainOutputs c d0" using plainOutputs_sameContents [OF markUsed_contents ok(3)] d0 by simp
  let ?p = "fileName c (OutputID e) ''d''"
  have o2: "d1 = snd (markUsed io ?p d0)"
    using OutputFile_plain [OF pl len(2), of io] o1
    by (auto simp: OutputFile_def Let_def split: prod.splits option.splits node.splits list.splits)
  have "\<exists>n. d1 ?p = Some n" using osReadFile_content [OF rd] OutputFile_plain [OF pl len(2), of io] by auto
  then obtain n where "d0 ?p = Some n"
    using sameContents_trans markUsed_contents [of d0 io ?p] o2 by (auto simp: sameContents_def) (metis map_option_eq_Some)
  then have "fresh c io ?p d1" using markUsed_fresh io o2 unfolding fresh_def by blast
  moreover have "\<exists>n. d (fileName c i ''a'') = Some n" using ix by (auto simp: indexEntry_iff)
  then have "fresh c io (fileName c i ''a'') d0" using markUsed_fresh io d0 unfolding fresh_def by blast
  then have "fresh c io (fileName c i ''a'') d1"
    using o2 markUsed_frame fileName_neq(3) [OF ok(1) len] by (simp add: fresh_def)
  ultimately show ?thesis by blast
qed

text \<open>A file of the cache that is not older than the limit stays.\<close>

lemma byteDirs_path:
  assumes "FilepathIsAbs (cacheDir c)" "sub \<in> set (byteDirs c)"
  shows "FilepathIsAbs sub \<and> length (pathElems sub) = Suc (length (pathElems (cacheDir c)))"
proof -
  obtain x where x: "sub = FilepathJoin [cacheDir c, hexByte x]" using assms(2) by (auto simp: byteDirs_def)
  have h: "hexByte x \<noteq> []" "slash \<notin> set (hexByte x)" "CHR ''.'' \<notin> set (hexByte x)"
    using hexOf_chars [of "[x]"] by (auto simp: hexByte_def)
  then have "plain (hexByte x)" by (auto simp: plain_def)
  then show ?thesis
    using FilepathJoin_plain [OF assms(1), of "[hexByte x]"] pathElems_rooted [of "pathElems (cacheDir c) @ [hexByte x]"]
      pathElems_plain [OF assms(1)] x by simp
qed

lemma Trim_keeps:
  assumes c: "FilepathIsAbs (cacheDir c)" "length i = HashSize" "slash \<notin> set k"
    and n: "d (fileName c i k) = Some n" "clock io - trimLimit - mtimeInterval \<le> modTime n"
    and names: "\<And>sub. \<forall>name \<in> set (names sub). slash \<notin> set name"
  shows "snd (DiskCache_Trim c io lk names d) (fileName c i k) = Some n"
proof -
  let ?p = "fileName c i k" and ?t = "clock io - trimLimit - mtimeInterval"
  have i: "i \<noteq> []" using c(2) by (auto simp: HashSize_def)
  note p = fileName_elems [OF c(1,3) i]
  have sub: "trimSubdir io names sub ?t dd ?p = Some n" if "sub \<in> set (byteDirs c)" "dd ?p = Some n" for sub dd
    using trimNames_keeps [of sub ?p _ dd n ?t "names sub" io, OF _ p(1,2)] byteDirs_path [OF c(1) that(1)] that(2) n(2) names
    by (auto simp: trimSubdir_def split: sum.splits)
  have "fold (\<lambda>sub d. trimSubdir io names sub ?t d) subs dd ?p = Some n"
    if "dd ?p = Some n" "set subs \<subseteq> set (byteDirs c)" for subs dd
    using that sub by (induction subs arbitrary: dd) auto
  moreover have "?p \<noteq> trimFile c" using trimFile_neq [OF c(1) i c(3)] .
  ultimately show ?thesis using n(1) by (simp add: DiskCache_Trim_def Let_def split: option.splits prod.splits)
qed

lemma used_survive_trim:
  assumes ok: "cacheOk c sha256" "plainOutputs c d"
    and io: "\<And>p. statErr io p = None \<and> chtimesErr io p = None"
    and get: "GetBytes c sha256 io i d = (Inr (s, e), d1)"
    and time: "clock io' \<le> clock io + trimLimit" and names: "\<And>sub. \<forall>name \<in> set (names sub). slash \<notin> set name"
  shows "cached c sha256 (snd (DiskCache_Trim c io' lk names d1)) i = Some s"
proof -
  have c: "FilepathIsAbs (cacheDir c)" "\<not> verifyMode c" using ok(1) by (simp_all add: cacheOk_def)
  have "cached c sha256 d i = Some s" using GetBytes_cached(1) [OF c(2) ok(2)] get by (metis fst_conv)
  then have "cached c sha256 d1 i = Some s"
    using sameContents_views(3) [OF GetBytes_contents [of d c sha256 io i]] get by simp
  then obtain e' where e': "indexEntry c d1 i = Some e'" "outputBytes c d1 (OutputID e') = Some s" "sha256 s = OutputID e'"
    by (auto simp: cached_iff)
  note len = indexEntry_length [OF e'(1)]
  have "e' = e"
  proof -
    have "indexEntry c d i = Some e"
      using get c(2) DiskCache_get_entry(1) [of c io i d e]
      by (auto simp: GetBytes_def DiskCache_Get_def Let_def split: prod.splits sum.splits if_splits)
    then show ?thesis using e'(1) sameContents_views(1) [OF GetBytes_contents [of d c sha256 io i]] get by simp
  qed
  have keep: "snd (DiskCache_Trim c io' lk names d1) (fileName c j k) = d1 (fileName c j k)"
    if "fresh c io (fileName c j k) d1" "length j = HashSize" "k \<in> {''a'', ''d''}" for j k
    using that Trim_keeps [OF c(1) that(2), of k d1 _ io' names lk] names time by (auto simp: fresh_def slash_def)
  have "fresh c io (fileName c i ''a'') d1 \<and> fresh c io (fileName c (OutputID e) ''d'') d1"
    by (rule GetBytes_fresh [OF c ok(2) io get])
  then show ?thesis
    using keep [OF _ len(1), of "''a''"] keep [OF _ len(2), of "''d''"] e' \<open>e' = e\<close>
    by (simp add: cached_iff indexEntry_def outputBytes_def)
qed

section \<open>The interface of a cache\<close>

text \<open>What the clients of \<open>cache.Cache\<close> rely on: looking up answers exactly what is stored and changes nothing that is
  stored, every error of it is a miss, storing adds one entry and keeps the others.\<close>

locale byte_cache =
  fixes stored :: "'d \<Rightarrow> digest \<Rightarrow> string option"
    and getBytes :: "digest \<Rightarrow> 'd \<Rightarrow> (cache_error + string) \<times> 'd"
    and putBytes :: "digest \<Rightarrow> string \<Rightarrow> 'd \<Rightarrow> cache_error option \<times> 'd"
    and ok :: "'d \<Rightarrow> bool"
    and sane :: "string \<Rightarrow> 'd \<Rightarrow> bool"
  assumes get_exact: "ok d \<Longrightarrow> fst (getBytes i d) = Inr s \<longleftrightarrow> stored d i = Some s"
    and get_missing: "ok d \<Longrightarrow> fst (getBytes i d) = Inl err \<Longrightarrow> IsErrMissing err"
    and get_keeps: "ok d \<Longrightarrow> ok (snd (getBytes i d)) \<and> stored (snd (getBytes i d)) = stored d"
    and put_stores: "ok d \<Longrightarrow> length i = HashSize \<Longrightarrow> sane s d \<Longrightarrow> putBytes i s d = (None, d') \<Longrightarrow> stored d' i = Some s"
    and put_keeps: "ok d \<Longrightarrow> length i = HashSize \<Longrightarrow> sane s d \<Longrightarrow> putBytes i s d = (None, d') \<Longrightarrow> j \<noteq> i \<Longrightarrow>
      stored d j = Some s' \<Longrightarrow> stored d' j = Some s'"
    and put_ok: "ok d \<Longrightarrow> length i = HashSize \<Longrightarrow> ok (snd (putBytes i s d))"
begin

lemma get_after_put:
  assumes "ok d" "length i = HashSize" "sane s d" "putBytes i s d = (None, d')"
  shows "fst (getBytes i d') = Inr s"
  using get_exact [of d' i s] put_ok [OF assms(1,2), of s] put_stores [OF assms] assms(4) by simp

lemma get_after_other_put:
  assumes "ok d" "length i = HashSize" "sane s d" "putBytes i s d = (None, d')" "j \<noteq> i" "fst (getBytes j d) = Inr s'"
  shows "fst (getBytes j d') = Inr s'"
  using get_exact [of d' j s'] get_exact [OF assms(1), of j s'] put_ok [OF assms(1,2), of s] put_keeps [OF assms(1-5)] assms(4,6)
  by simp

lemma get_missing_iff: "ok d \<Longrightarrow> (\<exists>err. fst (getBytes i d) = Inl err) \<longleftrightarrow> stored d i = None"
  using get_exact [of d i] by (cases "fst (getBytes i d)") auto

end

definition diskGet :: "DiskCache \<Rightarrow> (string \<Rightarrow> digest) \<Rightarrow> IO \<Rightarrow> digest \<Rightarrow> disk \<Rightarrow> (cache_error + string) \<times> disk" where
  "diskGet c sha256 io i d = map_prod (map_sum id fst) id (GetBytes c sha256 io i d)"

definition diskOk :: "DiskCache \<Rightarrow> (string \<Rightarrow> digest) \<Rightarrow> IO \<Rightarrow> disk \<Rightarrow> bool" where
  "diskOk c sha256 io d \<longleftrightarrow> cacheOk c sha256 \<and> readable io \<and> plainOutputs c d"

interpretation disk: byte_cache "cached c sha256" "diskGet c sha256 io'" "PutBytes c sha256 io" "diskOk c sha256 io'" "sanePut c sha256 io"
  for c sha256 io io'
proof (unfold_locales, goal_cases)
  case (1 d i s)
  then have v: "\<not> verifyMode c" "plainOutputs c d" "readable io'" by (simp_all add: diskOk_def cacheOk_def)
  have "fst (diskGet c sha256 io' i d) = Inr s \<longleftrightarrow> (\<exists>e. fst (GetBytes c sha256 io' i d) = Inr (s, e))"
    by (cases "fst (GetBytes c sha256 io' i d)") (auto simp: diskGet_def)
  then show ?case using GetBytes_cached(1,2) [OF v(1,2)] v(3) by metis
next
  case (2 d i err)
  then show ?case using GetBytes_cached(3) [of c d sha256 io' i err]
    by (cases "fst (GetBytes c sha256 io' i d)") (auto simp: diskGet_def diskOk_def cacheOk_def)
next
  case (3 d i)
  have "sameContents d (snd (diskGet c sha256 io' i d))" using GetBytes_contents by (simp add: diskGet_def)
  then show ?case using 3 sameContents_views(3) plainOutputs_sameContents by (auto simp: diskOk_def)
next
  case (4 d i s d')
  then show ?case using PutBytes_stores(1) by (auto simp: diskOk_def)
next
  case (5 d i s d' j s')
  then show ?case using PutBytes_stores(2) by (metis diskOk_def)
next
  case (6 d i s)
  then show ?case using PutBytes_plain by (auto simp: diskOk_def)
qed

section \<open>Properties\<close>

text \<open>A disk without failures and a digest that keeps the first bytes, used by concrete instances.\<close>

definition quietIO :: "int \<Rightarrow> IO" where
  "quietIO now = \<lparr>clock = now, statErr = (\<lambda>_. None), openErr = (\<lambda>_. None), readErr = (\<lambda>_. None), createErr = (\<lambda>_. None),
     writeErr = (\<lambda>_. None), commitErr = (\<lambda>_. None), truncateErr = (\<lambda>_. None), closeErr = (\<lambda>_. None), chtimesErr = (\<lambda>_. None),
     removeErr = (\<lambda>_. None), mkdirErr = (\<lambda>_. None), readdirErr = (\<lambda>_. None), dirSize = (\<lambda>_. 4096)\<rparr>"

definition exampleCache :: DiskCache where
  "exampleCache = \<lparr>cacheDir = ''/cache'', verifyMode = False\<rparr>"

definition firstBytes :: "string \<Rightarrow> digest" where
  "firstBytes s = take HashSize (s @ replicate HashSize (CHR ''0''))"

definition exampleDisk :: disk where
  "exampleDisk = snd (PutBytes exampleCache firstBytes (quietIO 7) (firstBytes ''key'') ''data'' Map.empty)"

lemma example_ok: "cacheOk exampleCache firstBytes"
  by (simp add: cacheOk_def exampleCache_def firstBytes_def FilepathIsAbs_def HasPrefix_def slash_def min_def)

lemma example_put: "fst (PutBytes exampleCache firstBytes (quietIO 7) (firstBytes ''key'') ''data'' Map.empty) = None"
  by (simp add: DiskCache_put_bytes copyFile_def presentOutput_def osStat_def osOpenFile_def writeOutput_def bytesReader_def
      putIndexEntry_def fileTruncate_def osChtimes_def setContent_def exampleCache_def quietIO_def Let_def)

lemma example_sane: "length (firstBytes s) = HashSize" "readable (quietIO n)" "plainOutputs c Map.empty"
  "sanePut c firstBytes (quietIO 7) ''data'' Map.empty"
  by (simp_all add: firstBytes_def min_def readable_def quietIO_def plainOutputs_def sanePut_def notBusy_def noCollision_def
      outputBytes_def int63_def)

lemma example_disk:
  "PutBytes exampleCache firstBytes (quietIO 7) (firstBytes ''key'') ''data'' Map.empty = (None, exampleDisk)"
  "plainOutputs exampleCache exampleDisk"
  using example_put PutBytes_plain [OF example_ok example_sane(1,3)] by (simp_all add: exampleDisk_def prod_eq_iff)

lemma example_get:
  "\<exists>e. GetBytes exampleCache firstBytes (quietIO 9) (firstBytes ''key'') exampleDisk =
     (Inr (''data'', e), snd (GetBytes exampleCache firstBytes (quietIO 9) (firstBytes ''key'') exampleDisk))"
proof -
  have "cached exampleCache firstBytes exampleDisk (firstBytes ''key'') = Some ''data''"
    by (rule PutBytes_stores(1) [OF example_ok example_sane(1,3) example_disk(1) example_sane(4)])
  moreover have "\<not> verifyMode exampleCache" using example_ok by (simp add: cacheOk_def)
  ultimately show ?thesis
    using GetBytes_cached(2) [OF _ example_disk(2) example_sane(2)] by (simp add: prod_eq_iff)
qed

text \<open>C23: What was stored is found. When \<open>PutBytes\<close> reports no error, whatever failed on the way, \<open>GetBytes\<close> returns the
  stored bytes for the same action and still returns for every other action what it returned before. This
  assumes that the output file can be inspected, is not busy and is no other content with the same digest.\<close>

theorem put_then_get_bytes:
  assumes "cacheOk c sha256" "length i = HashSize" "plainOutputs c d" "sanePut c sha256 io s d"
    and "PutBytes c sha256 io i s d = (None, d')" "readable io'"
  shows "(\<exists>e. fst (GetBytes c sha256 io' i d') = Inr (s, e)) \<and>
    (\<forall>j s' e. j \<noteq> i \<and> fst (GetBytes c sha256 io' j d) = Inr (s', e) \<longrightarrow> (\<exists>e. fst (GetBytes c sha256 io' j d') = Inr (s', e)))"
proof -
  have d: "\<not> verifyMode c" "plainOutputs c d'"
    using assms(1) PutBytes_plain [OF assms(1,2,3), of io s] assms(5) by (simp_all add: cacheOk_def)
  note stores = PutBytes_stores [OF assms(1,2,3,5,4)]
  show ?thesis
    using GetBytes_cached(2) [OF d assms(6)] GetBytes_cached(1) [OF d(1) assms(3)] stores by blast
qed

theorem put_then_get_bytes_witness:
  "\<exists>e. fst (GetBytes exampleCache firstBytes (quietIO 9) (firstBytes ''key'') exampleDisk) = Inr (''data'', e)"
  using put_then_get_bytes [OF example_ok example_sane(1,3,4) example_disk(1) example_sane(2)] by blast

text \<open>C24: The cache never answers with something that was not stored for the action. After any sequence of stores, look-ups and
  trims from an empty disk, with any failures and any damage to output files, bytes that \<open>GetBytes\<close> returns have the
  digest of bytes that an earlier \<open>PutBytes\<close> was given for the same action. Only a torn write of an index entry is excluded.\<close>

theorem cache_answers_were_stored:
  assumes "cacheOk c sha256" "list_all (cacheOpOk c) ops"
    and "fst (GetBytes c sha256 io i (fold (cacheStep c sha256) ops Map.empty)) = Inr (s, e)"
  shows "\<exists>s0 io0. OpPut i s0 io0 \<in> set ops \<and> sha256 s0 = sha256 s"
  by (rule answers_were_stored) (fact assms)+

theorem cache_answers_were_stored_witness:
  "\<exists>s0 io0. OpPut (firstBytes ''key'') s0 io0 \<in> {OpPut (firstBytes ''key'') ''data'' (quietIO 7)} \<and> firstBytes s0 = firstBytes ''data''"
proof -
  let ?ops = "[OpPut (firstBytes ''key'') ''data'' (quietIO 7)]"
  have "list_all (cacheOpOk exampleCache) ?ops" by (simp add: example_sane(1) quietIO_def int63_def)
  moreover have "fold (cacheStep exampleCache firstBytes) ?ops Map.empty = exampleDisk" by (simp add: exampleDisk_def)
  moreover obtain e where "fst (GetBytes exampleCache firstBytes (quietIO 9) (firstBytes ''key'') exampleDisk) = Inr (''data'', e)"
    using example_get by (metis fst_conv)
  ultimately show ?thesis
    using cache_answers_were_stored [OF example_ok, of ?ops "quietIO 9" "firstBytes ''key''" "''data''" e] by simp
qed

text \<open>C25: What was used survives trimming. An entry that a look-up returned at some time, with its times of modification
  updated without failure, is still held after a trim up to five days later, whatever order or part
  of the directories the trim sees and whatever it fails to do.\<close>

theorem used_entries_survive_trim:
  assumes "cacheOk c sha256" "plainOutputs c d" "\<forall>p. statErr io p = None \<and> chtimesErr io p = None"
    and "GetBytes c sha256 io i d = (Inr (s, e), d1)" "clock io' \<le> clock io + 5 * 24 * hour"
    and "\<forall>sub. \<forall>name \<in> set (names sub). slash \<notin> set name"
  shows "cached c sha256 (snd (DiskCache_Trim c io' lk names d1)) i = Some s"
  by (rule used_survive_trim [OF assms(1,2) _ assms(4)]) (use assms(3,5,6) in \<open>auto simp: trimLimit_def\<close>)

theorem used_entries_survive_trim_witness:
  "cached exampleCache firstBytes
     (snd (DiskCache_Trim exampleCache (quietIO (9 + 5 * 24 * hour)) \<lparr>lockReadErr = None, lockWriteErr = None\<rparr> (\<lambda>_. [''x-a''])
       (snd (GetBytes exampleCache firstBytes (quietIO 9) (firstBytes ''key'') exampleDisk)))) (firstBytes ''key'') = Some ''data''"
proof -
  obtain e where g: "GetBytes exampleCache firstBytes (quietIO 9) (firstBytes ''key'') exampleDisk =
      (Inr (''data'', e), snd (GetBytes exampleCache firstBytes (quietIO 9) (firstBytes ''key'') exampleDisk))"
    using example_get by blast
  show ?thesis
    by (rule used_entries_survive_trim [OF example_ok example_disk(2) _ g]) (simp_all add: quietIO_def slash_def)
qed

end
