(* ===== verification/Pkg_Cache.thy ===== *)
theory Pkg_Cache
  imports Packages Disk_Cache
begin

text \<open>
  The cache of data per package (\<open>internal/cache/cache.go\<close>, \<open>position.go\<close>): the hash of a package covers its sources and
  those of its dependencies, data are stored under a key made of that hash.

  Packages are addresses in a graph; the imports of a package, a map in the code, are a list in some order. Hashes of
  packages are remembered by the cache, hashes of files by the process. The recursion over imports has fuel,
  which is enough when it exceeds the depth of the graph; \<open>None\<close> is the answer without enough fuel. The
  semaphore and the stopwatch around system calls have no effect on results.
\<close>

section \<open>Positions\<close>

record Module =
  modPath :: string
  modDir :: string
  modVersion :: string

definition isCurrentModule :: "Module option \<Rightarrow> bool" where
  "isCurrentModule m = (case m of None \<Rightarrow> False | Some m \<Rightarrow> modDir m \<noteq> [] \<and> modVersion m = [])"

definition toRelativePath :: "Module option \<Rightarrow> string \<Rightarrow> string \<times> bool" where
  "toRelativePath m filename =
     (if filename = [] \<or> \<not> isCurrentModule m then (filename, False)
      else (case FilepathRel (modDir (the m)) filename of
              Inl _ \<Rightarrow> (filename, False)
            | Inr rel \<Rightarrow> if rel = ''..'' \<or> HasPrefix rel ''../'' then (filename, False) else (rel, True)))"

definition toAbsolutePath :: "Module option \<Rightarrow> string \<Rightarrow> string" where
  "toAbsolutePath m filename =
     (if filename = [] \<or> \<not> isCurrentModule m \<or> FilepathIsAbs filename then filename
      else FilepathJoin [modDir (the m), filename])"

definition RelativePosition :: "Module option \<Rightarrow> Position \<Rightarrow> Position" where
  "RelativePosition m pos = pos\<lparr>Filename := fst (toRelativePath m (Filename pos))\<rparr>"

definition AbsolutionPosition :: "Module option \<Rightarrow> Position \<Rightarrow> Position" where
  "AbsolutionPosition m pos = pos\<lparr>Filename := toAbsolutePath m (Filename pos)\<rparr>"

section \<open>Hashes of packages\<close>

record HashedPackage = Package +
  BuildID :: string
  pkgModule :: "Module option"

datatype HashMode = HashModeNeedOnlySelf | HashModeNeedDirectDeps | HashModeNeedAllDeps

type_synonym hashResults = "HashMode \<rightharpoonup> string"

text \<open>What the hashes depend on: the digest, the salt, the files and the graph; and what is remembered.\<close>

record HashEnv =
  sha :: "string \<Rightarrow> digest"
  hashSalt :: string
  readSource :: "string \<Rightarrow> string + string"
  graph :: "nat \<Rightarrow> HashedPackage"

record HashState =
  pkgHashes :: "nat \<rightharpoonup> hashResults"
  fileHashes :: "string \<rightharpoonup> digest"

datatype hash_error =
    FileHashErr string string
  | NoModeInResult HashMode
  | InvalidMode HashMode
  | DependencyErr string HashMode hash_error

definition fileHash :: "HashEnv \<Rightarrow> string \<Rightarrow> HashState \<Rightarrow> (string + digest) \<times> HashState" where
  "fileHash E f st = (let (r, m) = FileHash (sha E) (readSource E) f (fileHashes st) in (r, st\<lparr>fileHashes := m\<rparr>))"

definition lineOf :: "string \<Rightarrow> string \<Rightarrow> string" where
  "lineOf word s = word @ '' '' @ s @ [newline]"

text \<open>The name of a file in the hash: relative to its module, with the path of the module before it.\<close>

definition hashedName :: "Module option \<Rightarrow> string \<Rightarrow> string" where
  "hashedName m f = (let (rel, ok) = toRelativePath m f in if ok then modPath (the m) @ ''/'' @ rel else f)"

fun hashFiles :: "HashEnv \<Rightarrow> Module option \<Rightarrow> string list \<Rightarrow> string \<Rightarrow> HashState \<Rightarrow> (hash_error + string) \<times> HashState" where
  "hashFiles E m [] key st = (Inr key, st)"
| "hashFiles E m (f # fs) key st = (case fileHash E f st of
       (Inl e, st) \<Rightarrow> (Inl (FileHashErr f e), st)
     | (Inr h, st) \<Rightarrow> hashFiles E m fs (Hash_Write (lineOf ''file'' (hashedName m f @ '' '' @ hexOf h)) key) st)"

definition hashSources :: "HashEnv \<Rightarrow> string \<Rightarrow> HashedPackage \<Rightarrow> HashState \<Rightarrow> (hash_error + string) \<times> HashState" where
  "hashSources E key p st =
     (if BuildID p \<noteq> [] \<and> \<not> isCurrentModule (pkgModule p) then (Inr (Hash_Write (lineOf ''buildid'' (BuildID p)) key), st)
      else hashFiles E (pkgModule p) (CompiledGoFiles p @ IgnoredFiles p) key st)"

definition sortedImports :: "HashEnv \<Rightarrow> nat \<Rightarrow> nat list" where
  "sortedImports E p =
     stable_sort (\<lambda>a b. cmp_string (PkgPath (graph E a)) (PkgPath (graph E b)) < 0) (Imports (graph E p))"

definition importLine :: "HashEnv \<Rightarrow> nat \<Rightarrow> string \<Rightarrow> string" where
  "importLine E dep h = lineOf ''import'' (PkgPath (graph E dep) @ '' '' @ h)"

fun packageHash :: "nat \<Rightarrow> HashEnv \<Rightarrow> nat \<Rightarrow> HashMode \<Rightarrow> HashState \<Rightarrow> ((hash_error + string) \<times> HashState) option"
  and computeDepsHash :: "nat \<Rightarrow> HashEnv \<Rightarrow> HashMode \<Rightarrow> nat list \<Rightarrow> string \<Rightarrow> HashState \<Rightarrow> ((hash_error + string) \<times> HashState) option"
  and computePkgHash :: "nat \<Rightarrow> HashEnv \<Rightarrow> nat \<Rightarrow> HashState \<Rightarrow> ((hash_error + hashResults) \<times> HashState) option" where
  "packageHash 0 E p mode st = None"
| "packageHash (Suc n) E p mode st = (case pkgHashes st p of
       Some hashRes \<Rightarrow> Some (case hashRes mode of Some h \<Rightarrow> Inr h | None \<Rightarrow> Inl (NoModeInResult mode), st)
     | None \<Rightarrow> thenR (computePkgHash n E p st) (\<lambda>hashRes st.
         case hashRes mode of
           None \<Rightarrow> Some (Inl (InvalidMode mode), st)
         | Some h \<Rightarrow> Some (Inr h, st\<lparr>pkgHashes := (pkgHashes st)(p \<mapsto> hashRes)\<rparr>)))"
| "computeDepsHash n E depMode [] key st = Some (Inr key, st)"
| "computeDepsHash n E depMode (dep # imps) key st =
     (if PkgPath (graph E dep) = ''unsafe'' then computeDepsHash n E depMode imps key st
      else thenR (mapErr (DependencyErr (pkgName (graph E dep)) depMode) (packageHash n E dep depMode st)) (\<lambda>depHash st.
        computeDepsHash n E depMode imps (Hash_Write (importLine E dep depHash) key) st))"
| "computePkgHash n E p st =
     thenR (Some (hashSources E (Hash_Write (lineOf ''pkgpath'' (PkgPath (graph E p))) (NewHash (hashSalt E))) (graph E p) st))
       (\<lambda>key0 st. thenR (computeDepsHash n E HashModeNeedOnlySelf (sortedImports E p) key0 st)
       (\<lambda>key1 st. thenR (computeDepsHash n E HashModeNeedAllDeps (sortedImports E p) key1 st)
       (\<lambda>key2 st. Some (Inr [HashModeNeedOnlySelf \<mapsto> hexOf (Hash_Sum (sha E) key0),
          HashModeNeedDirectDeps \<mapsto> hexOf (Hash_Sum (sha E) key1), HashModeNeedAllDeps \<mapsto> hexOf (Hash_Sum (sha E) key2)], st))))"

section \<open>Storing and looking up\<close>

definition pkgActionID :: "nat \<Rightarrow> HashEnv \<Rightarrow> nat \<Rightarrow> HashMode \<Rightarrow> HashState \<Rightarrow> ((hash_error + digest) \<times> HashState) option" where
  "pkgActionID n E p mode st = thenR (packageHash n E p mode st) (\<lambda>hash st.
     Some (Inr (Hash_Sum (sha E) (Hash_Write (lineOf ''pkghash'' hash)
       (Hash_Write (lineOf ''pkgpath'' (PkgPath (graph E p))) (NewHash (hashSalt E))))), st))"

definition buildKey :: "nat \<Rightarrow> HashEnv \<Rightarrow> nat \<Rightarrow> HashMode \<Rightarrow> string \<Rightarrow> HashState \<Rightarrow> ((hash_error + digest) \<times> HashState) option" where
  "buildKey n E p mode key st = thenR (pkgActionID n E p mode st) (\<lambda>actionID st. Some (Inr (Subkey (sha E) actionID key), st))"

text \<open>The encoding of the data (\<open>encoding/gob\<close>) and the cache below are parameters.\<close>

datatype pkg_cache_error =
    GobEncode string
  | GobDecode string
  | ActionIDErr string hash_error
  | LowLevelErr string string cache_error
  | ErrMissing

definition Cache_Put ::
  "('v \<Rightarrow> string + string) \<Rightarrow> (digest \<Rightarrow> string \<Rightarrow> 'd \<Rightarrow> cache_error option \<times> 'd) \<Rightarrow> nat \<Rightarrow> HashEnv \<Rightarrow> nat \<Rightarrow> HashMode \<Rightarrow>
   string \<Rightarrow> 'v \<Rightarrow> HashState \<times> 'd \<Rightarrow> (pkg_cache_error option \<times> HashState \<times> 'd) option" where
  "Cache_Put enc putBytes n E p mode key data s =
     (let (st, d) = s in
      case enc data of
        Inl e \<Rightarrow> Some (Some (GobEncode e), st, d)
      | Inr buf \<Rightarrow> (case buildKey n E p mode key st of
            None \<Rightarrow> None
          | Some (Inl e, st) \<Rightarrow> Some (Some (ActionIDErr (pkgName (graph E p)) e), st, d)
          | Some (Inr actionID, st) \<Rightarrow> (case putBytes actionID buf d of
                (Some e, d) \<Rightarrow> Some (Some (LowLevelErr key (pkgName (graph E p)) e), st, d)
              | (None, d) \<Rightarrow> Some (None, st, d))))"

definition Cache_Get ::
  "(string \<Rightarrow> string + 'v) \<Rightarrow> (digest \<Rightarrow> 'd \<Rightarrow> (cache_error + string) \<times> 'd) \<Rightarrow> nat \<Rightarrow> HashEnv \<Rightarrow> nat \<Rightarrow> HashMode \<Rightarrow>
   string \<Rightarrow> HashState \<times> 'd \<Rightarrow> ((pkg_cache_error + 'v) \<times> HashState \<times> 'd) option" where
  "Cache_Get dec getBytes n E p mode key s =
     (let (st, d) = s in
      case buildKey n E p mode key st of
        None \<Rightarrow> None
      | Some (Inl e, st) \<Rightarrow> Some (Inl (ActionIDErr (pkgName (graph E p)) e), st, d)
      | Some (Inr actionID, st) \<Rightarrow> (case getBytes actionID d of
            (Inl e, d) \<Rightarrow> Some (if IsErrMissing e then Inl ErrMissing else Inl (LowLevelErr key (pkgName (graph E p)) e), st, d)
          | (Inr buf, d) \<Rightarrow> (case dec buf of
                Inl e \<Rightarrow> Some (Inl (GobDecode e), st, d)
              | Inr v \<Rightarrow> Some (Inr v, st, d))))"

section \<open>The hash without memory\<close>

text \<open>The texts that are hashed for a package in the three modes, computed without remembering anything.\<close>

fun pureFiles :: "HashEnv \<Rightarrow> Module option \<Rightarrow> string list \<Rightarrow> hash_error + string" where
  "pureFiles E m [] = Inr []"
| "pureFiles E m (f # fs) = (case readSource E f of
       Inl e \<Rightarrow> Inl (FileHashErr f e)
     | Inr c \<Rightarrow> map_sum id ((@) (lineOf ''file'' (hashedName m f @ '' '' @ hexOf (sha E c)))) (pureFiles E m fs))"

definition pureSources :: "HashEnv \<Rightarrow> HashedPackage \<Rightarrow> hash_error + string" where
  "pureSources E p =
     (if BuildID p \<noteq> [] \<and> \<not> isCurrentModule (pkgModule p) then Inr (lineOf ''buildid'' (BuildID p))
      else pureFiles E (pkgModule p) (CompiledGoFiles p @ IgnoredFiles p))"

type_synonym keyTexts = "string \<times> string \<times> string"

definition modeText :: "HashMode \<Rightarrow> keyTexts \<Rightarrow> string" where
  "modeText mode ks = (case mode of
       HashModeNeedOnlySelf \<Rightarrow> fst ks | HashModeNeedDirectDeps \<Rightarrow> fst (snd ks) | HashModeNeedAllDeps \<Rightarrow> snd (snd ks))"

definition modeHash :: "HashEnv \<Rightarrow> HashMode \<Rightarrow> keyTexts \<Rightarrow> string" where
  "modeHash E mode ks = hexOf (sha E (modeText mode ks))"

definition headText :: "HashEnv \<Rightarrow> nat \<Rightarrow> string" where
  "headText E p = hashSalt E @ lineOf ''pkgpath'' (PkgPath (graph E p))"

definition pthen :: "('e + 'a) option \<Rightarrow> ('a \<Rightarrow> ('e + 'b) option) \<Rightarrow> ('e + 'b) option" where
  "pthen r k = (case r of None \<Rightarrow> None | Some (Inl e) \<Rightarrow> Some (Inl e) | Some (Inr a) \<Rightarrow> k a)"

lemma pthen_cong [fundef_cong]: "r = r' \<Longrightarrow> (\<And>a. r' = Some (Inr a) \<Longrightarrow> k a = k' a) \<Longrightarrow> pthen r k = pthen r' k'"
  by (auto simp: pthen_def split: option.splits sum.splits)

lemma pthen_simps [simp]: "pthen None k = None" "pthen (Some (Inl e)) k = Some (Inl e)" "pthen (Some (Inr a)) k = k a"
  by (simp_all add: pthen_def)

fun pureKeys :: "nat \<Rightarrow> HashEnv \<Rightarrow> nat \<Rightarrow> (hash_error + keyTexts) option"
  and pureDeps :: "nat \<Rightarrow> HashEnv \<Rightarrow> HashMode \<Rightarrow> nat list \<Rightarrow> (hash_error + string) option" where
  "pureKeys 0 E p = None"
| "pureKeys (Suc n) E p =
     pthen (Some (pureSources E (graph E p))) (\<lambda>src.
     pthen (pureDeps n E HashModeNeedOnlySelf (sortedImports E p)) (\<lambda>direct.
     pthen (pureDeps n E HashModeNeedAllDeps (sortedImports E p)) (\<lambda>alls.
     Some (Inr (headText E p @ src, headText E p @ src @ direct, headText E p @ src @ direct @ alls)))))"
| "pureDeps n E mode [] = Some (Inr [])"
| "pureDeps n E mode (dep # imps) =
     (if PkgPath (graph E dep) = ''unsafe'' then pureDeps n E mode imps
      else pthen (map_option (map_sum (DependencyErr (pkgName (graph E dep)) mode) id) (pureKeys n E dep)) (\<lambda>ks.
        pthen (pureDeps n E mode imps) (\<lambda>t. Some (Inr (importLine E dep (modeHash E mode ks) @ t)))))"

definition resultsOf :: "HashEnv \<Rightarrow> keyTexts \<Rightarrow> hashResults" where
  "resultsOf E ks mode = Some (modeHash E mode ks)"

definition memoOk :: "HashEnv \<Rightarrow> HashState \<Rightarrow> bool" where
  "memoOk E st \<longleftrightarrow>
     (\<forall>p res. pkgHashes st p = Some res \<longrightarrow> (\<exists>n ks. pureKeys n E p = Some (Inr ks) \<and> res = resultsOf E ks)) \<and>
     (\<forall>f h. fileHashes st f = Some h \<longrightarrow> (\<exists>c. readSource E f = Inr c \<and> h = sha E c))"

text \<open>More fuel does not change an answer.\<close>

lemma pthen_le:
  assumes "pthen r k = Some x" "\<And>y. r = Some y \<Longrightarrow> r' = Some y" "\<And>a y. k a = Some y \<Longrightarrow> k' a = Some y"
  shows "pthen r' k' = Some x"
proof (cases r)
  case (Some y)
  then show ?thesis using assms by (cases y) simp_all
qed (use assms in simp)

lemma pureDeps_le:
  assumes "\<And>p r. pureKeys n E p = Some r \<Longrightarrow> pureKeys m E p = Some r"
  shows "pureDeps n E mode imps = Some t \<Longrightarrow> pureDeps m E mode imps = Some t"
proof (induction imps arbitrary: t)
  case (Cons dep imps)
  show ?case
  proof (cases "PkgPath (graph E dep) = ''unsafe''")
    case False
    let ?K = "\<lambda>n. map_option (map_sum (DependencyErr (pkgName (graph E dep)) mode) id) (pureKeys n E dep)"
    have "?K n = Some y \<Longrightarrow> ?K m = Some y" for y using assms by auto
    moreover have "pthen (?K n) (\<lambda>ks. pthen (pureDeps n E mode imps) (\<lambda>t. Some (Inr (importLine E dep (modeHash E mode ks) @ t)))) = Some t"
      using Cons.prems False by simp
    ultimately have "pthen (?K m) (\<lambda>ks. pthen (pureDeps m E mode imps) (\<lambda>t. Some (Inr (importLine E dep (modeHash E mode ks) @ t)))) = Some t"
      by (elim pthen_le [where r = "?K n"] pthen_le) (use Cons.IH in blast)+
    then show ?thesis using False by simp
  qed (use Cons in simp)
qed simp

lemma pureKeys_step: "pureKeys n E p = Some r \<Longrightarrow> pureKeys (Suc n) E p = Some r"
proof (induction n arbitrary: p r)
  case (Suc n)
  have deps: "pureDeps n E mode imps = Some t \<Longrightarrow> pureDeps (Suc n) E mode imps = Some t" for mode imps t
    by (rule pureDeps_le [OF Suc.IH])
  show ?case
    unfolding pureKeys.simps(2) [of "Suc n"]
    by (rule pthen_le [OF Suc.prems [unfolded pureKeys.simps]]) (blast | erule pthen_le | erule deps)+
qed simp

lemma pureKeys_le: "n \<le> m \<Longrightarrow> pureKeys n E p = Some r \<Longrightarrow> pureKeys m E p = Some r"
  by (induction m rule: dec_induct) (auto dest: pureKeys_step simp del: pureKeys.simps)

text \<open>With correct memory the hash is the one without memory, and memory stays correct.\<close>

lemma fileHash_pure:
  assumes "fileHash E f st = (r, st')" "memoOk E st"
  shows "r = map_sum id (sha E) (readSource E f)" "memoOk E st'"
proof -
  have "r = map_sum id (sha E) (readSource E f) \<and> memoOk E st'"
  proof (cases "fileHashes st f")
    case None
    show ?thesis
    proof (cases "readSource E f")
      case (Inl e)
      then have "r = Inl e" "st' = st" using assms(1) None by (simp_all add: fileHash_def FileHash_def)
      then show ?thesis using Inl assms(2) by simp
    next
      case (Inr c)
      then have "r = Inr (sha E c)" "st' = st\<lparr>fileHashes := (fileHashes st)(f \<mapsto> sha E c)\<rparr>"
        using assms(1) None by (simp_all add: fileHash_def FileHash_def SetFileHash_def)
      then show ?thesis using Inr assms(2) by (auto simp: memoOk_def)
    qed
  next
    case (Some h)
    then obtain c where "readSource E f = Inr c" "h = sha E c" using assms(2) unfolding memoOk_def by blast
    then show ?thesis using assms Some by (auto simp: fileHash_def FileHash_def)
  qed
  then show "r = map_sum id (sha E) (readSource E f)" "memoOk E st'" by blast+
qed

lemma hashFiles_pure:
  "hashFiles E m fs key st = (r, st') \<Longrightarrow> memoOk E st \<Longrightarrow> r = map_sum id ((@) key) (pureFiles E m fs) \<and> memoOk E st'"
proof (induction fs arbitrary: key st)
  case (Cons f fs)
  obtain x st1 where x: "fileHash E f st = (x, st1)" by fastforce
  note f = fileHash_pure [OF x Cons.prems(2)]
  show ?case
  proof (cases "readSource E f")
    case (Inl e)
    then show ?thesis using Cons.prems x f by auto
  next
    case (Inr c)
    let ?l = "lineOf ''file'' (hashedName m f @ '' '' @ hexOf (sha E c))"
    have "hashFiles E m fs (key @ ?l) st1 = (r, st')" using Cons.prems(1) x f(1) Inr by (simp add: Hash_Write_def)
    then have "r = map_sum id ((@) (key @ ?l)) (pureFiles E m fs) \<and> memoOk E st'" using Cons.IH f(2) by blast
    then show ?thesis using Inr by (cases "pureFiles E m fs") simp_all
  qed
qed simp

lemma hashSources_pure:
  "hashSources E key p st = (r, st') \<Longrightarrow> memoOk E st \<Longrightarrow> r = map_sum id ((@) key) (pureSources E p) \<and> memoOk E st'"
  using hashFiles_pure by (auto simp: hashSources_def pureSources_def Hash_Write_def split: if_splits)

lemma resultsOf_modes:
  "resultsOf E (k0, k1, k2) = [HashModeNeedOnlySelf \<mapsto> hexOf (sha E k0), HashModeNeedDirectDeps \<mapsto> hexOf (sha E k1),
     HashModeNeedAllDeps \<mapsto> hexOf (sha E k2)]"
proof
  fix mode
  show "resultsOf E (k0, k1, k2) mode = ([HashModeNeedOnlySelf \<mapsto> hexOf (sha E k0), HashModeNeedDirectDeps \<mapsto> hexOf (sha E k1),
     HashModeNeedAllDeps \<mapsto> hexOf (sha E k2)]) mode"
    by (cases mode) (simp_all add: resultsOf_def modeHash_def modeText_def)
qed

lemma memoOk_store:
  assumes "memoOk E st" "pureKeys n E p = Some (Inr ks)"
  shows "memoOk E (st\<lparr>pkgHashes := (pkgHashes st)(p \<mapsto> resultsOf E ks)\<rparr>)"
  using assms unfolding memoOk_def by (auto simp del: pureKeys.simps split_paired_Ex)

text \<open>A computation with correct memory agrees with a memory-free one at some fuel.\<close>

definition agrees :: "HashEnv \<Rightarrow> (('e + 'a) \<times> HashState) option \<Rightarrow> (nat \<Rightarrow> ('e + 'a) option) \<Rightarrow> bool" where
  "agrees E c P \<longleftrightarrow> (\<forall>r st. c = Some (r, st) \<longrightarrow> memoOk E st \<and> (\<exists>m. \<forall>n \<ge> m. P n = Some r))"

lemma agreesI: "(\<And>r st. c = Some (r, st) \<Longrightarrow> memoOk E st \<and> (\<exists>m. \<forall>n \<ge> m. P n = Some r)) \<Longrightarrow> agrees E c P"
  by (simp add: agrees_def)

lemma agreesD: "agrees E c P \<Longrightarrow> c = Some (r, st) \<Longrightarrow> memoOk E st \<and> (\<exists>m. \<forall>n \<ge> m. P n = Some r)"
  by (simp add: agrees_def)

lemma agrees_pure: "memoOk E st \<Longrightarrow> agrees E (Some (r, st)) (\<lambda>n. Some r)"
  by (simp add: agrees_def)

lemma agrees_then:
  assumes "agrees E c P" "\<And>a st. memoOk E st \<Longrightarrow> agrees E (k a st) (Q a)"
  shows "agrees E (thenR c k) (\<lambda>n. pthen (P n) (\<lambda>a. Q a n))"
proof (rule agreesI)
  fix r st assume r: "thenR c k = Some (r, st)"
  then obtain x st1 where x: "c = Some (x, st1)" by (cases c) auto
  then obtain m where m: "memoOk E st1" "\<forall>n \<ge> m. P n = Some x" using agreesD [OF assms(1)] by blast
  show "memoOk E st \<and> (\<exists>m. \<forall>n \<ge> m. pthen (P n) (\<lambda>a. Q a n) = Some r)"
  proof (cases x)
    case (Inr a)
    then have "k a st1 = Some (r, st)" using r x by simp
    then obtain m' where m': "memoOk E st" "\<forall>n \<ge> m'. Q a n = Some r" using agreesD [OF assms(2)] m(1) by blast
    then show ?thesis using m(2) Inr by (intro conjI exI [of _ "max m m'"]) simp_all
  next
    case (Inl e)
    then have "r = Inl e" "st = st1" using r x by simp_all
    then show ?thesis using m Inl by (intro conjI exI [of _ m]) simp_all
  qed
qed

lemma agrees_map:
  assumes "agrees E c P" "\<And>n. Q n = map_option (map_sum f g) (P n)" "c' = map_option (map_prod (map_sum f g) id) c"
  shows "agrees E c' Q"
  unfolding assms(2,3)
proof (rule agreesI)
  fix r st assume "map_option (map_prod (map_sum f g) id) c = Some (r, st)"
  then obtain x where "c = Some (x, st)" "r = map_sum f g x" by auto
  then show "memoOk E st \<and> (\<exists>m. \<forall>n \<ge> m. map_option (map_sum f g) (P n) = Some r)"
    using agreesD [OF assms(1)] by fastforce
qed

lemma hashSources_agrees:
  assumes "memoOk E st"
  shows "agrees E (Some (hashSources E key p st)) (\<lambda>n. Some (map_sum id ((@) key) (pureSources E p)))"
  using hashSources_pure [of E key p st] assms by (auto intro!: agreesI)

lemma computeDepsHash_agrees:
  assumes IH: "\<And>p mode st. memoOk E st \<Longrightarrow> agrees E (packageHash n E p mode st) (\<lambda>m. map_option (map_sum id (modeHash E mode)) (pureKeys m E p))"
  shows "memoOk E st \<Longrightarrow> agrees E (computeDepsHash n E depMode imps key st) (\<lambda>m. map_option (map_sum id ((@) key)) (pureDeps m E depMode imps))"
proof (induction imps arbitrary: key st)
  case Nil
  then show ?case using agrees_pure by fastforce
next
  case (Cons dep imps)
  show ?case
  proof (cases "PkgPath (graph E dep) = ''unsafe''")
    case False
    let ?w = "DependencyErr (pkgName (graph E dep)) depMode"
    have dep: "agrees E (mapErr ?w (packageHash n E dep depMode st)) (\<lambda>m. map_option (map_sum ?w (modeHash E depMode)) (pureKeys m E dep))"
      by (rule agrees_map [OF IH [OF Cons.prems, of dep depMode], of _ ?w id])
        (simp_all add: mapErr_def option.map_comp sum.map_comp comp_def cong: option.map_cong)
    have rest: "agrees E (computeDepsHash n E depMode imps (Hash_Write (importLine E dep h) key) st)
        (\<lambda>m. map_option (map_sum id ((@) (Hash_Write (importLine E dep h) key))) (pureDeps m E depMode imps))" if "memoOk E st" for h st
      by (rule Cons.IH [OF that])
    have "agrees E (computeDepsHash n E depMode (dep # imps) key st) (\<lambda>m. pthen (map_option (map_sum ?w (modeHash E depMode)) (pureKeys m E dep))
        (\<lambda>h. map_option (map_sum id ((@) (Hash_Write (importLine E dep h) key))) (pureDeps m E depMode imps)))"
      using False by (simp only: computeDepsHash.simps if_False) (rule agrees_then [OF dep rest])
    moreover have "pthen (map_option (map_sum ?w (modeHash E depMode)) (pureKeys m E dep))
        (\<lambda>h. map_option (map_sum id ((@) (Hash_Write (importLine E dep h) key))) (pureDeps m E depMode imps))
      = map_option (map_sum id ((@) key)) (pureDeps m E depMode (dep # imps))" for m
    proof (cases "pureKeys m E dep")
      case (Some k)
      then show ?thesis using False
        by (cases k; cases "pureDeps m E depMode imps") (auto simp: pthen_def Hash_Write_def split: sum.splits)
    qed (use False in simp)
    ultimately show ?thesis by (simp only:)
  qed (use Cons in simp)
qed

lemma computePkgHash_agrees:
  assumes IH: "\<And>p mode st. memoOk E st \<Longrightarrow> agrees E (packageHash n E p mode st) (\<lambda>m. map_option (map_sum id (modeHash E mode)) (pureKeys m E p))"
    and st: "memoOk E st"
  shows "agrees E (computePkgHash n E p st) (\<lambda>m. map_option (map_sum id (resultsOf E)) (pureKeys (Suc m) E p))"
proof -
  let ?imps = "sortedImports E p" and ?h = "headText E p"
  note deps = computeDepsHash_agrees [OF IH]
  let ?Q = "\<lambda>m. pthen (Some (map_sum id ((@) ?h) (pureSources E (graph E p)))) (\<lambda>k0.
      pthen (map_option (map_sum id ((@) k0)) (pureDeps m E HashModeNeedOnlySelf ?imps)) (\<lambda>k1.
      pthen (map_option (map_sum id ((@) k1)) (pureDeps m E HashModeNeedAllDeps ?imps)) (\<lambda>k2.
      Some (Inr (resultsOf E (k0, k1, k2))))))"
  have "agrees E (computePkgHash n E p st) ?Q"
    unfolding computePkgHash.simps resultsOf_modes Hash_Sum_def
    using hashSources_agrees [OF st, of ?h "graph E p"]
    by (intro agrees_then deps agrees_pure) (simp_all add: Hash_Write_def NewHash_def headText_def)
  moreover have "?Q m = map_option (map_sum id (resultsOf E)) (pureKeys (Suc m) E p)" for m
    by (cases "pureSources E (graph E p)"; cases "pureDeps m E HashModeNeedOnlySelf ?imps";
        cases "pureDeps m E HashModeNeedAllDeps ?imps") (auto simp: pthen_def split: sum.splits)
  ultimately show ?thesis by simp
qed

lemma packageHash_agrees:
  "memoOk E st \<Longrightarrow> agrees E (packageHash n E p mode st) (\<lambda>m. map_option (map_sum id (modeHash E mode)) (pureKeys m E p))"
proof (induction n arbitrary: p mode st)
  case (Suc n)
  show ?case
  proof (cases "pkgHashes st p")
    case (Some res)
    then obtain m ks where ks: "pureKeys m E p = Some (Inr ks)" "res = resultsOf E ks"
      using Suc.prems unfolding memoOk_def by blast
    then have "\<forall>n \<ge> m. map_option (map_sum id (modeHash E mode)) (pureKeys n E p) = Some (Inr (modeHash E mode ks))"
      using pureKeys_le by fastforce
    moreover have "packageHash (Suc n) E p mode st = Some (Inr (modeHash E mode ks), st)"
      using Some ks(2) by (simp add: resultsOf_def)
    ultimately show ?thesis using Suc.prems by (intro agreesI conjI exI [of _ m]) (simp_all add: id_def del: packageHash.simps pureKeys.simps)
  next
    case None
    show ?thesis
    proof (rule agreesI)
      fix r st' assume r: "packageHash (Suc n) E p mode st = Some (r, st')"
      then obtain x st1 where x: "computePkgHash n E p st = Some (x, st1)" using None by (cases "computePkgHash n E p st") auto
      then obtain m where m: "memoOk E st1" "\<forall>n \<ge> m. map_option (map_sum id (resultsOf E)) (pureKeys (Suc n) E p) = Some x"
        using agreesD [OF computePkgHash_agrees [OF Suc.IH Suc.prems]] by blast
      then obtain k where k: "pureKeys (Suc m) E p = Some k" "x = map_sum id (resultsOf E) k" by (auto simp del: pureKeys.simps)
      have all: "\<forall>n \<ge> Suc m. pureKeys n E p = Some k" using pureKeys_le [OF _ k(1)] by blast
      show "memoOk E st' \<and> (\<exists>m. \<forall>n \<ge> m. map_option (map_sum id (modeHash E mode)) (pureKeys n E p) = Some r)"
      proof (cases k)
        case (Inl e)
        then have "r = Inl e" "st' = st1" using r x k(2) None by (simp_all del: computePkgHash.simps)
        then show ?thesis using m(1) all Inl by (intro conjI exI [of _ "Suc m"]) (simp_all del: pureKeys.simps)
      next
        case (Inr ks)
        then have rs: "r = Inr (modeHash E mode ks)" "st' = st1\<lparr>pkgHashes := (pkgHashes st1)(p \<mapsto> resultsOf E ks)\<rparr>"
          using r x k(2) None by (simp_all add: resultsOf_def [of E ks mode] del: computePkgHash.simps)
        then have "memoOk E st'" using memoOk_store [OF m(1), of "Suc m" p ks] k(1) Inr by simp
        then show ?thesis using all Inr rs(1) by (intro conjI exI [of _ "Suc m"]) (simp_all del: pureKeys.simps)
      qed
    qed
  qed
qed (simp add: agrees_def)

text \<open>On an acyclic graph fuel above the depth of a package is enough.\<close>

definition ranked :: "HashEnv \<Rightarrow> (nat \<Rightarrow> nat) \<Rightarrow> bool" where
  "ranked E rank \<longleftrightarrow> (\<forall>p. \<forall>dep \<in> set (Imports (graph E p)). rank dep < rank p)"

lemma set_sortedImports [simp]: "set (sortedImports E p) = set (Imports (graph E p))"
  by (simp add: sortedImports_def)

text \<open>\<open>slices.SortedFunc\<close> is not stable, and the order in which it gets the values of the map is not fixed. Nothing is lost with a stable sort
  of a list in some order: whatever sorted list it returns is the one of the model for the imports in another order, and when no
  two imports have the same path, as with the packages that one package imports, there is only one.\<close>

interpretation byPkgPath: less_preorder "\<lambda>a b. cmp_string (PkgPath (graph E a)) (PkgPath (graph E b)) < 0" for E
proof
  fix a b c
  let ?k = "\<lambda>p. PkgPath (graph E p)"
  show "cmp_string (?k a) (?k b) < 0 \<Longrightarrow> \<not> cmp_string (?k b) (?k a) < 0"
    using string_cmp.flip_less [of "?k a" "?k b"] by simp
  show "\<not> cmp_string (?k b) (?k a) < 0 \<Longrightarrow> \<not> cmp_string (?k c) (?k b) < 0 \<Longrightarrow> \<not> cmp_string (?k c) (?k a) < 0"
    using string_cmp.le_trans [of "?k a" "?k b" "?k c"] string_cmp.flip_le by (simp add: not_less)
qed

lemma sorted_permutation_unique:
  assumes "\<And>a b. a \<in> set xs \<Longrightarrow> b \<in> set xs \<Longrightarrow> R a b \<Longrightarrow> R b a \<Longrightarrow> a = b"
  shows "sorted_wrt R xs \<Longrightarrow> sorted_wrt R ys \<Longrightarrow> mset xs = mset ys \<Longrightarrow> xs = ys"
  using assms
proof (induction xs arbitrary: ys)
  case (Cons x xs)
  then obtain y zs where ys: "ys = y # zs" by (cases ys) auto
  have s: "set (x # xs) = set ys" using Cons.prems(3) by (metis set_mset_mset)
  have "x = y"
  proof (rule ccontr)
    assume "x \<noteq> y"
    then have "x \<in> set zs" "y \<in> set xs" using s ys by auto
    then have "R x y" "R y x" using Cons.prems(1,2) ys by auto
    then show False using Cons.prems(4) [of x y] \<open>y \<in> set xs\<close> \<open>x \<noteq> y\<close> by simp
  qed
  then show ?case using Cons ys by auto
qed simp

lemma sortedImports_any_order:
  assumes "sorted_wrt (\<lambda>a b. cmp_string (PkgPath (graph E a)) (PkgPath (graph E b)) \<le> 0) ys"
  shows "sortedImports (E\<lparr>graph := (graph E)(p := (graph E p)\<lparr>Imports := ys\<rparr>)\<rparr>) p = ys"
proof -
  let ?E = "E\<lparr>graph := (graph E)(p := (graph E p)\<lparr>Imports := ys\<rparr>)\<rparr>"
  have k: "PkgPath (graph ?E a) = PkgPath (graph E a)" for a by simp
  have "sorted_wrt (\<lambda>a b. \<not> cmp_string (PkgPath (graph E b)) (PkgPath (graph E a)) < 0) ys"
    using assms string_cmp.flip_le by (simp add: not_less)
  then have "stable_sort (\<lambda>a b. cmp_string (PkgPath (graph E a)) (PkgPath (graph E b)) < 0) ys = ys" by (rule byPkgPath.stable_sort_id)
  then show ?thesis unfolding sortedImports_def k by simp
qed

lemma sortedImports_unique:
  assumes "inj_on (\<lambda>a. PkgPath (graph E a)) (set (Imports (graph E p)))" "mset ys = mset (Imports (graph E p))"
    and "sorted_wrt (\<lambda>a b. cmp_string (PkgPath (graph E a)) (PkgPath (graph E b)) \<le> 0) ys"
  shows "ys = sortedImports E p"
proof (rule sorted_permutation_unique)
  let ?R = "\<lambda>a b. cmp_string (PkgPath (graph E a)) (PkgPath (graph E b)) \<le> 0"
  have s: "set ys = set (Imports (graph E p))" using assms(2) by (metis set_mset_mset)
  show "a = b" if "a \<in> set ys" "b \<in> set ys" "?R a b" "?R b a" for a b
  proof -
    have "cmp_string (PkgPath (graph E a)) (PkgPath (graph E b)) = 0"
      using that(3,4) string_cmp.flip_le [of "PkgPath (graph E b)" "PkgPath (graph E a)"] by simp
    then show ?thesis using inj_onD [OF assms(1)] that(1,2) s by (simp add: cmp_string_zero_iff)
  qed
  show "sorted_wrt ?R ys" by (rule assms(3))
  have "sorted_wrt (\<lambda>a b. \<not> cmp_string (PkgPath (graph E b)) (PkgPath (graph E a)) < 0) (sortedImports E p)"
    unfolding sortedImports_def by (rule byPkgPath.sorted_stable_sort)
  then show "sorted_wrt ?R (sortedImports E p)" using string_cmp.flip_le by (simp add: not_less)
  show "mset ys = mset (sortedImports E p)" using assms(2) by (simp add: sortedImports_def)
qed

lemma thenR_some: "thenR r k \<noteq> None" if "r \<noteq> None" "\<And>a s. k a s \<noteq> None"
  using that by (auto simp: thenR_def split: option.splits sum.splits)

lemma packageHash_total:
  assumes "ranked E rank"
  shows "rank p < n \<Longrightarrow> packageHash n E p mode st \<noteq> None"
proof (induction n arbitrary: p mode st)
  case (Suc n)
  have deps: "\<forall>dep \<in> set imps. rank dep < n \<Longrightarrow> computeDepsHash n E m imps key st \<noteq> None" for m imps key st
  proof (induction imps arbitrary: key st)
    case (Cons dep imps)
    have "mapErr f (packageHash n E dep m st) \<noteq> None" for f using Suc.IH [of dep m st] Cons.prems by (simp add: mapErr_def)
    then have "thenR (mapErr f (packageHash n E dep m st)) (\<lambda>h st. computeDepsHash n E m imps (Hash_Write (importLine E dep h) key) st) \<noteq> None" for f
      using Cons by (intro thenR_some) simp_all
    then show ?case using Cons by simp
  qed simp
  have "\<forall>dep \<in> set (sortedImports E p). rank dep < n" using assms Suc.prems by (fastforce simp: ranked_def)
  then have "computePkgHash n E p st \<noteq> None"
    unfolding computePkgHash.simps by (intro thenR_some deps) simp_all
  then obtain x st1 where "computePkgHash n E p st = Some (x, st1)" by (metis option.exhaust surj_pair)
  then show ?case by (cases x) (auto simp del: computePkgHash.simps split: option.splits)
qed simp

lemma packageHash_exact:
  assumes "ranked E rank" "rank p < n" "memoOk E st"
  obtains m k st' where "packageHash n E p mode st = Some (map_sum id (modeHash E mode) k, st')" "memoOk E st'"
    "pureKeys m E p = Some k"
proof -
  obtain r st' where r: "packageHash n E p mode st = Some (r, st')" using packageHash_total [OF assms(1,2)] by force
  then obtain m where m: "memoOk E st'" "\<forall>n \<ge> m. map_option (map_sum id (modeHash E mode)) (pureKeys n E p) = Some r"
    using agreesD [OF packageHash_agrees [OF assms(3)] r] by blast
  then obtain k where "pureKeys m E p = Some k" "r = map_sum id (modeHash E mode) k" by auto
  then show ?thesis using that r m(1) by blast
qed

text \<open>The hash that a package has, whatever is remembered.\<close>

definition theKeys :: "HashEnv \<Rightarrow> (nat \<Rightarrow> nat) \<Rightarrow> nat \<Rightarrow> hash_error + keyTexts" where
  "theKeys E rank p = the (pureKeys (Suc (rank p)) E p)"

lemma pureKeys_total:
  assumes "ranked E rank"
  shows "rank p < n \<Longrightarrow> pureKeys n E p = Some (theKeys E rank p)"
proof -
  have "pureKeys n E p \<noteq> None" if "rank p < n" for n p
    using that
  proof (induction n arbitrary: p)
    case (Suc n)
    have pt: "pthen r k \<noteq> None" if "r \<noteq> None" "\<And>a. k a \<noteq> None" for r :: "('e + 'a) option" and k :: "'a \<Rightarrow> ('e + 'b) option"
      using that by (auto simp: pthen_def split: option.splits sum.splits)
    have deps: "\<forall>dep \<in> set imps. rank dep < n \<Longrightarrow> pureDeps n E m imps \<noteq> None" for m imps
    proof (induction imps)
      case (Cons dep imps)
      then show ?case using Suc.IH [of dep] by (auto simp del: not_None_eq simp: pthen_def split: option.splits sum.splits)
    qed simp
    have "\<forall>dep \<in> set (sortedImports E p). rank dep < n" using assms Suc.prems by (fastforce simp: ranked_def)
    then show ?case unfolding pureKeys.simps by (intro pt deps) simp_all
  qed simp
  then obtain k where "pureKeys (Suc (rank p)) E p = Some k" by blast
  then show "rank p < n \<Longrightarrow> pureKeys n E p = Some (theKeys E rank p)"
    using pureKeys_le [of "Suc (rank p)" n] by (simp add: theKeys_def del: pureKeys.simps)
qed

lemma packageHash_theKeys:
  assumes "ranked E rank" "rank p < n" "memoOk E st"
  shows "\<exists>st'. packageHash n E p mode st = Some (map_sum id (modeHash E mode) (theKeys E rank p), st') \<and> memoOk E st'"
proof -
  obtain m k st' where k: "packageHash n E p mode st = Some (map_sum id (modeHash E mode) k, st')" "memoOk E st'" "pureKeys m E p = Some k"
    using packageHash_exact [OF assms] by blast
  have "pureKeys (max m n) E p = Some k" using pureKeys_le [OF _ k(3)] by simp
  then have "k = theKeys E rank p" using pureKeys_total [OF assms(1), of p "max m n"] assms(2) by simp
  then show ?thesis using k by blast
qed

lemma memoOk_empty: "memoOk E \<lparr>pkgHashes = Map.empty, fileHashes = Map.empty\<rparr>"
  by (simp add: memoOk_def)

section \<open>What a hash determines\<close>

text \<open>The hashed texts are lines; texts without line breaks in names determine their lines.\<close>

definition unlines :: "string list \<Rightarrow> string" where
  "unlines ls = concat (map (\<lambda>l. l @ [newline]) ls)"

lemma unlines_simps [simp]: "unlines [] = []" "unlines (l # ls) = l @ [newline] @ unlines ls" "unlines (ls @ ms) = unlines ls @ unlines ms"
  by (simp_all add: unlines_def)

lemma split_first: "a @ [x] @ s = b @ [x] @ t \<Longrightarrow> x \<notin> set a \<Longrightarrow> x \<notin> set b \<Longrightarrow> a = b \<and> s = t"
proof (induction a arbitrary: b)
  case Nil
  then show ?case by (cases b) auto
next
  case (Cons y a)
  then show ?case by (cases b) auto
qed

lemma split_last: "a @ [x] @ s = b @ [x] @ t \<Longrightarrow> x \<notin> set s \<Longrightarrow> x \<notin> set t \<Longrightarrow> a = b \<and> s = t"
  using split_first [of "rev s" x "rev a" "rev t" "rev b"] by (metis append_assoc rev_append rev_rev_ident rev_singleton_conv set_rev)

definition oneLine :: "string \<Rightarrow> bool" where
  "oneLine l \<longleftrightarrow> newline \<notin> set l"

lemma unlines_inject: "unlines ls = unlines ms \<Longrightarrow> list_all oneLine ls \<Longrightarrow> list_all oneLine ms \<Longrightarrow> ls = ms"
proof (induction ls arbitrary: ms)
  case Nil
  then show ?case by (cases ms) auto
next
  case (Cons l ls)
  then obtain m ms' where ms: "ms = m # ms'" by (cases ms) auto
  have "l @ [newline] @ unlines ls = m @ [newline] @ unlines ms'" using Cons.prems(1) ms by simp
  then have "l = m \<and> unlines ls = unlines ms'"
    using Cons.prems(2,3) ms by (intro split_first) (auto simp: oneLine_def)
  then show ?case using Cons ms by simp
qed

lemma hexOf_line: "CHR '' '' \<notin> set (hexOf s) \<and> newline \<notin> set (hexOf s)"
proof (induction s)
  case (Cons c s)
  have b: "byte c div 16 < 16" "byte c mod 16 < 16" using byte_bound [of c] by (simp_all add: div_less_iff_less_mult)
  have hex: "n < 16 \<Longrightarrow> lowerHex n \<notin> {CHR '' '', newline}" for n
    by (auto simp: lowerHex_def newline_def char_of_eq_iff take_bit_eq_mod)
  show ?case using Cons hex [OF b(1)] hex [OF b(2)] by (auto simp: hexByte_def)
qed simp

lemma oneLine_simps:
  "oneLine []" "oneLine (c # s) \<longleftrightarrow> c \<noteq> newline \<and> oneLine s" "oneLine (s @ t) \<longleftrightarrow> oneLine s \<and> oneLine t" "oneLine (hexOf s)"
  using hexOf_line by (auto simp: oneLine_def)

definition usesBuildID :: "HashedPackage \<Rightarrow> bool" where
  "usesBuildID p \<longleftrightarrow> BuildID p \<noteq> [] \<and> \<not> isCurrentModule (pkgModule p)"

definition sourceFiles :: "HashedPackage \<Rightarrow> string list" where
  "sourceFiles p = CompiledGoFiles p @ IgnoredFiles p"

text \<open>The sources of a package as they are hashed: its build identifier, or the names and contents of its files.\<close>

definition sourcesOf :: "HashEnv \<Rightarrow> nat \<Rightarrow> string + (string \<times> (string + string)) list" where
  "sourcesOf E p = (if usesBuildID (graph E p) then Inl (BuildID (graph E p))
     else Inr (map (\<lambda>f. (hashedName (pkgModule (graph E p)) f, readSource E f)) (sourceFiles (graph E p))))"

definition hashedLines :: "HashEnv \<Rightarrow> nat \<Rightarrow> string list" where
  "hashedLines E p = (case sourcesOf E p of
       Inl b \<Rightarrow> [''buildid '' @ b]
     | Inr fs \<Rightarrow> map (\<lambda>(name, r). ''file '' @ name @ '' '' @ hexOf (sha E (projr r))) fs)"

definition deps :: "HashEnv \<Rightarrow> nat \<Rightarrow> nat list" where
  "deps E p = filter (\<lambda>d. PkgPath (graph E d) \<noteq> ''unsafe'') (sortedImports E p)"

definition depLines :: "HashEnv \<Rightarrow> (nat \<Rightarrow> nat) \<Rightarrow> HashMode \<Rightarrow> nat list \<Rightarrow> string list" where
  "depLines E rank mode ds =
     map (\<lambda>d. ''import '' @ PkgPath (graph E d) @ '' '' @ modeHash E mode (projr (theKeys E rank d))) ds"

lemma pureFiles_lines:
  "pureFiles E m fs = Inr t \<Longrightarrow> t = unlines (map (\<lambda>f. ''file '' @ hashedName m f @ '' '' @ hexOf (sha E (projr (readSource E f)))) fs) \<and>
     (\<forall>f \<in> set fs. \<not> isl (readSource E f))"
proof (induction fs arbitrary: t)
  case (Cons f fs)
  then obtain c t' where "readSource E f = Inr c" "pureFiles E m fs = Inr t'"
    "t = lineOf ''file'' (hashedName m f @ '' '' @ hexOf (sha E c)) @ t'"
    by (cases "readSource E f"; cases "pureFiles E m fs") auto
  then show ?case using Cons.IH by (simp add: lineOf_def)
qed simp

lemma pureSources_lines:
  assumes "pureSources E (graph E p) = Inr t"
  shows "t = unlines (hashedLines E p)" "case sourcesOf E p of Inl _ \<Rightarrow> True | Inr fs \<Rightarrow> list_all (\<lambda>x. \<not> isl (snd x)) fs"
  using assms pureFiles_lines [of E "pkgModule (graph E p)" "sourceFiles (graph E p)" t]
  by (auto simp: pureSources_def hashedLines_def sourcesOf_def usesBuildID_def sourceFiles_def lineOf_def comp_def list_all_iff
      split: if_splits)

lemma pureDeps_lines:
  assumes "ranked E rank"
  shows "\<forall>d \<in> set imps. rank d < n \<Longrightarrow> pureDeps n E mode imps = Some (Inr t) \<Longrightarrow>
    t = unlines (depLines E rank mode (filter (\<lambda>d. PkgPath (graph E d) \<noteq> ''unsafe'') imps)) \<and>
    (\<forall>d \<in> set imps. PkgPath (graph E d) \<noteq> ''unsafe'' \<longrightarrow> \<not> isl (theKeys E rank d))"
proof (induction imps arbitrary: t)
  case (Cons dep imps)
  show ?case
  proof (cases "PkgPath (graph E dep) = ''unsafe''")
    case False
    have k: "pureKeys n E dep = Some (theKeys E rank dep)" using pureKeys_total [OF assms] Cons.prems(1) by simp
    obtain ks t' where "theKeys E rank dep = Inr ks" "pureDeps n E mode imps = Some (Inr t')"
      "t = importLine E dep (modeHash E mode ks) @ t'"
      using Cons.prems(2) False k
      by (cases "theKeys E rank dep"; cases "pureDeps n E mode imps") (auto simp: pthen_def split: sum.splits)
    then show ?thesis using Cons False by (simp add: depLines_def importLine_def lineOf_def)
  qed (use Cons in simp)
qed (simp add: depLines_def)

lemma theKeys_lines:
  assumes "ranked E rank" "theKeys E rank p = Inr ks"
  shows "modeText HashModeNeedAllDeps ks = hashSalt E @ unlines ((''pkgpath '' @ PkgPath (graph E p)) #
      hashedLines E p @ depLines E rank HashModeNeedOnlySelf (deps E p) @ depLines E rank HashModeNeedAllDeps (deps E p))"
    and "case sourcesOf E p of Inl _ \<Rightarrow> True | Inr fs \<Rightarrow> list_all (\<lambda>x. \<not> isl (snd x)) fs" "\<forall>d \<in> set (deps E p). \<not> isl (theKeys E rank d)"
proof -
  let ?n = "rank p" and ?imps = "sortedImports E p"
  have "pureKeys (Suc ?n) E p = Some (Inr ks)" using pureKeys_total [OF assms(1), of p "Suc ?n"] assms(2) by simp
  then obtain t0 t1 t2 where t: "pureSources E (graph E p) = Inr t0" "pureDeps ?n E HashModeNeedOnlySelf ?imps = Some (Inr t1)"
    "pureDeps ?n E HashModeNeedAllDeps ?imps = Some (Inr t2)" "snd (snd ks) = headText E p @ t0 @ t1 @ t2"
    by (auto simp: pthen_def split: option.splits sum.splits)
  have r: "\<forall>d \<in> set ?imps. rank d < ?n" using assms(1) by (simp add: ranked_def)
  show "modeText HashModeNeedAllDeps ks = hashSalt E @ unlines ((''pkgpath '' @ PkgPath (graph E p)) #
      hashedLines E p @ depLines E rank HashModeNeedOnlySelf (deps E p) @ depLines E rank HashModeNeedAllDeps (deps E p))"
    using pureSources_lines(1) [OF t(1)] pureDeps_lines [OF assms(1) r t(2)] pureDeps_lines [OF assms(1) r t(3)] t(4)
    by (simp add: modeText_def deps_def headText_def lineOf_def)
  show "case sourcesOf E p of Inl _ \<Rightarrow> True | Inr fs \<Rightarrow> list_all (\<lambda>x. \<not> isl (snd x)) fs" by (rule pureSources_lines(2) [OF t(1)])
  show "\<forall>d \<in> set (deps E p). \<not> isl (theKeys E rank d)" using pureDeps_lines [OF assms(1) r t(3)] by (auto simp: deps_def)
qed

text \<open>Names without line breaks, as the hashes of two runs need them; the texts that a run hashes.\<close>

definition plainNames :: "HashEnv \<Rightarrow> bool" where
  "plainNames E \<longleftrightarrow> (\<forall>p. oneLine (PkgPath (graph E p)) \<and> oneLine (BuildID (graph E p)) \<and>
     (\<forall>f \<in> set (sourceFiles (graph E p)). oneLine (hashedName (pkgModule (graph E p)) f)))"

definition hashedTexts :: "HashEnv \<Rightarrow> (nat \<Rightarrow> nat) \<Rightarrow> string set" where
  "hashedTexts E rank = {t. \<exists>p ks mode. theKeys E rank p = Inr ks \<and> t = modeText mode ks} \<union> {c. \<exists>f. readSource E f = Inr c}"

lemma hashedTexts_key: "theKeys E rank p = Inr ks \<Longrightarrow> modeText mode ks \<in> hashedTexts E rank"
  unfolding hashedTexts_def by blast

lemma lines_oneLine:
  assumes "plainNames E"
  shows "list_all oneLine (hashedLines E p)" "list_all oneLine (depLines E rank mode ds)" "oneLine (''pkgpath '' @ PkgPath (graph E p))"
  using assms
  by (auto simp: hashedLines_def sourcesOf_def depLines_def plainNames_def modeHash_def list_all_iff oneLine_simps newline_def)

lemma hashedLines_inject:
  assumes eq: "hashedLines E1 p = hashedLines E2 q" and sha: "sha E1 = sha E2"
    and inj: "inj_on (sha E1) ({c. \<exists>f. readSource E1 f = Inr c} \<union> {c. \<exists>f. readSource E2 f = Inr c})"
    and ok: "case sourcesOf E1 p of Inl _ \<Rightarrow> True | Inr fs \<Rightarrow> list_all (\<lambda>x. \<not> isl (snd x)) fs"
      "case sourcesOf E2 q of Inl _ \<Rightarrow> True | Inr fs \<Rightarrow> list_all (\<lambda>x. \<not> isl (snd x)) fs"
  shows "sourcesOf E1 p = sourcesOf E2 q"
proof -
  let ?l = "\<lambda>x :: string \<times> (string + string). ''file '' @ fst x @ '' '' @ hexOf (sha E1 (projr (snd x)))"
  have files: "fs = gs" if "map ?l fs = map ?l gs" "list_all (\<lambda>x. \<not> isl (snd x)) fs" "list_all (\<lambda>x. \<not> isl (snd x)) gs"
      "snd ` set fs \<subseteq> range (readSource E1)" "snd ` set gs \<subseteq> range (readSource E2)" for fs gs
    using that
  proof (induction fs arbitrary: gs)
    case (Cons x fs)
    then obtain y gs' where gs: "gs = y # gs'" "map ?l fs = map ?l gs'" "?l x = ?l y" by (cases gs) auto
    have "fst x @ [CHR '' ''] @ hexOf (sha E1 (projr (snd x))) = fst y @ [CHR '' ''] @ hexOf (sha E1 (projr (snd y)))"
      using gs(3) by simp
    then have xy: "fst x = fst y" "sha E1 (projr (snd x)) = sha E1 (projr (snd y))" using split_last hexOf_line by (metis hexOf_inject)+
    obtain c c' where c: "snd x = Inr c" "snd y = Inr c'" using Cons.prems(2,3) gs(1) by (cases "snd x"; cases "snd y") auto
    then have "c = c'" using inj_onD [OF inj, of c c'] xy(2) Cons.prems(4,5) gs(1) by (force simp: image_iff)
    then have "x = y" using xy c by (simp add: prod_eq_iff)
    then show ?case using Cons gs by simp
  qed simp
  show ?thesis
  proof (cases "usesBuildID (graph E1 p) \<or> usesBuildID (graph E2 q)")
    case True
    then show ?thesis using eq by (auto simp: hashedLines_def sourcesOf_def split: if_splits)
  next
    case False
    let ?fs = "map (\<lambda>f. (hashedName (pkgModule (graph E1 p)) f, readSource E1 f)) (sourceFiles (graph E1 p))"
    let ?gs = "map (\<lambda>f. (hashedName (pkgModule (graph E2 q)) f, readSource E2 f)) (sourceFiles (graph E2 q))"
    have s: "sourcesOf E1 p = Inr ?fs" "sourcesOf E2 q = Inr ?gs" using False by (simp_all add: sourcesOf_def)
    have "?fs = ?gs" by (rule files) (use eq ok s sha in \<open>auto simp: hashedLines_def split_beta comp_def\<close>)
    then show ?thesis using s by simp
  qed
qed

text \<open>What makes the hashes of two runs comparable: acyclic imports, plain names, the same salt and digest, and no two texts of the
  runs with the same digest.\<close>

definition comparable :: "HashEnv \<Rightarrow> (nat \<Rightarrow> nat) \<Rightarrow> HashEnv \<Rightarrow> (nat \<Rightarrow> nat) \<Rightarrow> bool" where
  "comparable E1 r1 E2 r2 \<longleftrightarrow> ranked E1 r1 \<and> ranked E2 r2 \<and> plainNames E1 \<and> plainNames E2 \<and>
     hashSalt E1 = hashSalt E2 \<and> sha E1 = sha E2 \<and> inj_on (sha E1) (hashedTexts E1 r1 \<union> hashedTexts E2 r2)"

definition sameText :: "HashEnv \<Rightarrow> (nat \<Rightarrow> nat) \<Rightarrow> nat \<Rightarrow> HashEnv \<Rightarrow> (nat \<Rightarrow> nat) \<Rightarrow> nat \<Rightarrow> bool" where
  "sameText E1 r1 p E2 r2 q \<longleftrightarrow> (\<exists>k k'. theKeys E1 r1 p = Inr k \<and> theKeys E2 r2 q = Inr k' \<and>
     modeText HashModeNeedAllDeps k = modeText HashModeNeedAllDeps k')"

lemma not_isl_Inr: "\<not> isl r \<Longrightarrow> \<exists>x. r = Inr x"
  by (cases r) auto

lemma sections_inject:
  assumes "s1 @ i1 @ a1 = s2 @ i2 @ a2" "length i1 = length a1" "length i2 = length a2"
    and "\<forall>l \<in> set s1 \<union> set s2. \<not> P l" "\<forall>l \<in> set i1 \<union> set i2 \<union> set a1 \<union> set a2. P l"
  shows "s1 = s2 \<and> i1 = i2 \<and> a1 = a2"
proof -
  have "filter (\<lambda>l. \<not> P l) (s @ i @ a) = s \<and> filter P (s @ i @ a) = i @ a"
    if "\<forall>l \<in> set s. \<not> P l" "\<forall>l \<in> set i \<union> set a. P l" for s i a using that by (auto simp: filter_id_conv filter_empty_conv)
  then have "s1 = s2" "i1 @ a1 = i2 @ a2" using assms by (metis UnI1 UnI2 UnE)+
  moreover from this(2) have "length i1 + length a1 = length i2 + length a2" by (metis length_append)
  ultimately show ?thesis using assms(2,3) by (simp add: append_eq_append_conv)
qed

lemma sameText_step:
  assumes cmp: "comparable E1 r1 E2 r2" and same: "sameText E1 r1 p E2 r2 q"
  shows "PkgPath (graph E1 p) = PkgPath (graph E2 q)" "sourcesOf E1 p = sourcesOf E2 q"
    "map (PkgPath \<circ> graph E1) (deps E1 p) = map (PkgPath \<circ> graph E2) (deps E2 q)"
    "i < length (deps E1 p) \<Longrightarrow> sameText E1 r1 (deps E1 p ! i) E2 r2 (deps E2 q ! i)"
proof -
  have c: "ranked E1 r1" "ranked E2 r2" "plainNames E1" "plainNames E2" "hashSalt E1 = hashSalt E2" "sha E1 = sha E2"
    and inj: "inj_on (sha E1) (hashedTexts E1 r1 \<union> hashedTexts E2 r2)" using cmp by (auto simp: comparable_def)
  obtain k k' where k: "theKeys E1 r1 p = Inr k" "theKeys E2 r2 q = Inr k'"
    "modeText HashModeNeedAllDeps k = modeText HashModeNeedAllDeps k'" using same by (auto simp: sameText_def)
  note l1 = theKeys_lines [OF c(1) k(1)] and l2 = theKeys_lines [OF c(2) k(2)]
  let ?all = HashModeNeedAllDeps and ?self = HashModeNeedOnlySelf
  have "(''pkgpath '' @ PkgPath (graph E1 p)) # hashedLines E1 p @ depLines E1 r1 ?self (deps E1 p) @ depLines E1 r1 ?all (deps E1 p) =
    (''pkgpath '' @ PkgPath (graph E2 q)) # hashedLines E2 q @ depLines E2 r2 ?self (deps E2 q) @ depLines E2 r2 ?all (deps E2 q)"
  proof (rule unlines_inject)
    show "unlines ((''pkgpath '' @ PkgPath (graph E1 p)) # hashedLines E1 p @ depLines E1 r1 ?self (deps E1 p) @ depLines E1 r1 ?all (deps E1 p)) =
      unlines ((''pkgpath '' @ PkgPath (graph E2 q)) # hashedLines E2 q @ depLines E2 r2 ?self (deps E2 q) @ depLines E2 r2 ?all (deps E2 q))"
      using k(3) unfolding l1(1) l2(1) c(5) by (simp only: same_append_eq)
  qed (simp_all add: lines_oneLine [OF c(3), simplified] lines_oneLine [OF c(4), simplified])
  then have path: "PkgPath (graph E1 p) = PkgPath (graph E2 q)"
    and rest: "hashedLines E1 p @ depLines E1 r1 ?self (deps E1 p) @ depLines E1 r1 ?all (deps E1 p) =
      hashedLines E2 q @ depLines E2 r2 ?self (deps E2 q) @ depLines E2 r2 ?all (deps E2 q)" by simp_all
  show "PkgPath (graph E1 p) = PkgPath (graph E2 q)" by (rule path)
  have "hashedLines E1 p = hashedLines E2 q \<and> depLines E1 r1 ?self (deps E1 p) = depLines E2 r2 ?self (deps E2 q) \<and>
    depLines E1 r1 ?all (deps E1 p) = depLines E2 r2 ?all (deps E2 q)"
    by (rule sections_inject [OF rest, of "\<lambda>l. hd l = CHR ''i''"])
      (auto simp: depLines_def hashedLines_def split: sum.splits)
  then have src: "hashedLines E1 p = hashedLines E2 q" and dl: "depLines E1 r1 ?all (deps E1 p) = depLines E2 r2 ?all (deps E2 q)"
    by blast+
  show "sourcesOf E1 p = sourcesOf E2 q"
    by (rule hashedLines_inject [OF src c(6) inj_on_subset [OF inj] l1(2) l2(2)]) (auto simp: hashedTexts_def)
  have len: "length (deps E1 p) = length (deps E2 q)" using arg_cong [OF dl, of length] by (simp add: depLines_def)
  have each: "PkgPath (graph E1 (deps E1 p ! i)) = PkgPath (graph E2 (deps E2 q ! i)) \<and>
      modeHash E1 ?all (projr (theKeys E1 r1 (deps E1 p ! i))) = modeHash E2 ?all (projr (theKeys E2 r2 (deps E2 q ! i)))"
    if "i < length (deps E1 p)" for i
  proof -
    have "depLines E1 r1 ?all (deps E1 p) ! i = depLines E2 r2 ?all (deps E2 q) ! i" using dl by simp
    then have "PkgPath (graph E1 (deps E1 p ! i)) @ [CHR '' ''] @ modeHash E1 ?all (projr (theKeys E1 r1 (deps E1 p ! i))) =
        PkgPath (graph E2 (deps E2 q ! i)) @ [CHR '' ''] @ modeHash E2 ?all (projr (theKeys E2 r2 (deps E2 q ! i)))"
      using that len by (simp add: depLines_def)
    then show ?thesis by (rule split_last) (simp_all add: modeHash_def hexOf_line)
  qed
  show "map (PkgPath \<circ> graph E1) (deps E1 p) = map (PkgPath \<circ> graph E2) (deps E2 q)"
    using len each by (intro nth_equalityI) simp_all
  show "sameText E1 r1 (deps E1 p ! i) E2 r2 (deps E2 q ! i)" if i: "i < length (deps E1 p)"
  proof -
    have "\<not> isl (theKeys E1 r1 (deps E1 p ! i))" "\<not> isl (theKeys E2 r2 (deps E2 q ! i))"
      using l1(3) l2(3) i len by simp_all
    then obtain x y where x: "theKeys E1 r1 (deps E1 p ! i) = Inr x" "theKeys E2 r2 (deps E2 q ! i) = Inr y"
      using not_isl_Inr by meson
    then have "sha E1 (modeText ?all x) = sha E1 (modeText ?all y)" using each [OF i] c(6) by (simp add: modeHash_def)
    then have "modeText ?all x = modeText ?all y"
      using inj_onD [OF inj] hashedTexts_key [OF x(1), of ?all] hashedTexts_key [OF x(2), of ?all] by blast
    then show ?thesis unfolding sameText_def using x by blast
  qed
qed

text \<open>Packages at the same place below two packages, over imports in their order.\<close>

inductive samePlace :: "HashEnv \<Rightarrow> HashEnv \<Rightarrow> nat \<Rightarrow> nat \<Rightarrow> nat \<Rightarrow> nat \<Rightarrow> bool" for E1 E2 p q where
  here: "samePlace E1 E2 p q p q"
| below: "samePlace E1 E2 p q x y \<Longrightarrow> i < length (deps E1 x) \<Longrightarrow> samePlace E1 E2 p q (deps E1 x ! i) (deps E2 y ! i)"

lemma samePlace_text:
  assumes "comparable E1 r1 E2 r2" "sameText E1 r1 p E2 r2 q" "samePlace E1 E2 p q x y"
  shows "sameText E1 r1 x E2 r2 y"
  using assms(3)
proof induction
  case here
  show ?case by (rule assms(2))
next
  case (below x y i)
  then show ?case using sameText_step(4) [OF assms(1)] by blast
qed

section \<open>Keys and data\<close>

definition keyOf :: "HashEnv \<Rightarrow> (nat \<Rightarrow> nat) \<Rightarrow> nat \<Rightarrow> HashMode \<Rightarrow> string \<Rightarrow> hash_error + digest" where
  "keyOf E rank p mode key = map_sum id (\<lambda>ks. Subkey (sha E) (sha E (headText E p @ lineOf ''pkghash'' (modeHash E mode ks))) key)
     (theKeys E rank p)"

lemma buildKey_exact:
  assumes "ranked E rank" "rank p < n" "memoOk E st"
  shows "\<exists>st'. buildKey n E p mode key st = Some (keyOf E rank p mode key, st') \<and> memoOk E st'"
proof -
  obtain st' where st': "packageHash n E p mode st = Some (map_sum id (modeHash E mode) (theKeys E rank p), st')" "memoOk E st'"
    using packageHash_theKeys [OF assms] by blast
  then show ?thesis
    by (cases "theKeys E rank p") (auto simp: buildKey_def pkgActionID_def keyOf_def Hash_Sum_def Hash_Write_def NewHash_def headText_def)
qed

lemma keyOf_length: "keyOf E rank p mode key = Inr i \<Longrightarrow> \<forall>s. length (sha E s) = HashSize \<Longrightarrow> length i = HashSize"
  by (cases "theKeys E rank p") (auto simp: keyOf_def Subkey_def)

text \<open>Over any cache that keeps its contract, what was put for a package is got back as long as its hash is the same.\<close>

context byte_cache
begin

lemma Cache_Put_stores:
  assumes r: "ranked E rank" "rank p < n" "memoOk E st" and len: "\<forall>s. length (sha E s) = HashSize"
    and put: "Cache_Put enc putBytes n E p mode key v (st, d) = Some (None, st1, d1)"
    and d: "ok d" "\<And>buf. enc v = Inr buf \<Longrightarrow> sane buf d"
  obtains i buf where "keyOf E rank p mode key = Inr i" "enc v = Inr buf" "length i = HashSize" "memoOk E st1" "ok d1"
    "stored d1 i = Some buf" "\<And>j s. j \<noteq> i \<Longrightarrow> stored d j = Some s \<Longrightarrow> stored d1 j = Some s"
proof -
  obtain st' where st': "buildKey n E p mode key st = Some (keyOf E rank p mode key, st')" "memoOk E st'"
    using buildKey_exact [OF r] by blast
  obtain buf where buf: "enc v = Inr buf" using put by (cases "enc v") (auto simp: Cache_Put_def)
  obtain i where i: "keyOf E rank p mode key = Inr i" using put buf st' by (cases "keyOf E rank p mode key") (auto simp: Cache_Put_def)
  have pb: "putBytes i buf d = (None, d1)" "st1 = st'"
    using put buf st' i by (auto simp: Cache_Put_def split: prod.splits option.splits)
  note l = keyOf_length [OF i len]
  have "ok d1" using put_ok [OF d(1) l, of buf] pb by simp
  then show ?thesis
    using that i buf l st'(2) pb put_stores [OF d(1) l d(2) [OF buf] pb(1)] put_keeps [OF d(1) l d(2) [OF buf] pb(1)] by blast
qed

lemma Cache_Get_exact:
  assumes r: "ranked E rank" "rank p < n" "memoOk E st" and d: "ok d" and i: "keyOf E rank p mode key = Inr i"
  shows "\<exists>st' d'. Cache_Get dec getBytes n E p mode key (st, d) =
      Some (case stored d i of None \<Rightarrow> Inl ErrMissing | Some buf \<Rightarrow> (case dec buf of Inl e \<Rightarrow> Inl (GobDecode e) | Inr v \<Rightarrow> Inr v), st', d') \<and>
      memoOk E st' \<and> ok d' \<and> stored d' = stored d"
proof -
  obtain st' where st': "buildKey n E p mode key st = Some (Inr i, st')" "memoOk E st'" using buildKey_exact [OF r, of mode key] i by auto
  obtain x d' where x: "getBytes i d = (x, d')" by fastforce
  have d': "ok d'" "stored d' = stored d" using get_keeps [OF d, of i] x by simp_all
  show ?thesis
  proof (cases x)
    case (Inl e)
    then have "IsErrMissing e" "stored d i = None" using get_missing [OF d, of i e] get_missing_iff [OF d, of i] x by simp_all
    then show ?thesis using st' x Inl d' by (simp add: Cache_Get_def)
  next
    case (Inr buf)
    then have "stored d i = Some buf" using get_exact [OF d] x by fastforce
    then show ?thesis using st' x Inr d' by (cases "dec buf") (simp_all add: Cache_Get_def)
  qed
qed

lemma Cache_Get_after_Put:
  assumes r: "ranked E rank" "rank p < n" "memoOk E st" "memoOk E st2" and len: "\<forall>s. length (sha E s) = HashSize"
    and put: "Cache_Put enc putBytes n E p mode key v (st, d) = Some (None, st1, d1)"
    and d: "ok d" "\<And>buf. enc v = Inr buf \<Longrightarrow> sane buf d" and gob: "\<And>buf. enc v = Inr buf \<Longrightarrow> dec buf = Inr v"
  shows "\<exists>st' d'. Cache_Get dec getBytes n E p mode key (st2, d1) = Some (Inr v, st', d')"
proof (rule Cache_Put_stores [OF r(1-3) len put d])
  fix i buf assume i: "keyOf E rank p mode key = Inr i" "enc v = Inr buf" "ok d1" "stored d1 i = Some buf"
  then show ?thesis using Cache_Get_exact [OF r(1,2,4) i(3,1), of dec] gob [OF i(2)] by auto
qed

end

section \<open>Positions in the cache\<close>

lemma Rel_shape:
  assumes "FilepathIsAbs base" "FilepathIsAbs targ" "FilepathRel base targ = Inr r"
  shows "r \<noteq> [] \<and> \<not> FilepathIsAbs r"
proof (cases "Clean targ = Clean base")
  case True
  then show ?thesis using assms by (auto simp: FilepathRel_def FilepathIsAbs_def HasPrefix_def slash_def)
next
  case False
  obtain bs ts where st: "stripCommon (pathElems base) (pathElems targ) = (bs, ts)" by fastforce
  obtain pre where pre: "pathElems base = pre @ bs" "pathElems targ = pre @ ts" using stripCommon_split [OF st] by blast
  let ?es = "replicate (length bs) ''..'' @ ts"
  have r: "r = Join ?es ''/''" using assms False st by (auto simp: FilepathRel_def split: if_splits)
  have "?es \<noteq> []" using False pre assms by (auto simp: Clean_abs)
  then obtain e es where es: "?es = e # es" by (cases ?es) auto
  have "e \<in> set ?es" using es by simp
  then have "e = ''..'' \<or> plain e" using pathElems_plain [OF assms(2)] pre(2) by (auto simp: list_all_iff)
  then have "e \<noteq> []" "slash \<notin> set e" by (auto simp: plain_def) (simp add: slash_def)
  moreover have "r = e @ (if es = [] then [] else ''/'' @ Join es ''/'')" using r es by (cases es) auto
  ultimately show ?thesis by (cases e) (auto simp: FilepathIsAbs_iff)
qed

lemma path_survives:
  assumes "case m of None \<Rightarrow> True | Some m \<Rightarrow> modDir m = [] \<or> FilepathIsAbs (modDir m)"
    and "f = [] \<or> FilepathIsAbs f \<and> Clean f = f"
  shows "toAbsolutePath m (fst (toRelativePath m f)) = f"
proof (cases "f = [] \<or> \<not> isCurrentModule m")
  case False
  then obtain md where md: "m = Some md" "FilepathIsAbs (modDir md)" using assms(1) by (auto simp: isCurrentModule_def split: option.splits)
  have f: "FilepathIsAbs f" "Clean f = f" using assms(2) False by auto
  obtain r where r: "FilepathRel (modDir md) f = Inr r" using Rel_total [OF md(2) f(1)] by blast
  show ?thesis
    using False md r f Rel_shape [OF md(2) f(1) r] Rel_Join [OF md(2) f(1) r] by (auto simp: toRelativePath_def toAbsolutePath_def)
qed (auto simp: toRelativePath_def toAbsolutePath_def)

lemma position_survives:
  assumes "case m of None \<Rightarrow> True | Some m \<Rightarrow> modDir m = [] \<or> FilepathIsAbs (modDir m)"
    and "Filename pos = [] \<or> FilepathIsAbs (Filename pos) \<and> Clean (Filename pos) = Filename pos"
  shows "AbsolutionPosition m (RelativePosition m pos) = pos"
  using path_survives [OF assms] by (simp add: AbsolutionPosition_def RelativePosition_def)

section \<open>Properties\<close>

text \<open>Two checkouts of a module with two packages, used by concrete instances.\<close>

definition examplePackage :: "string \<Rightarrow> string \<Rightarrow> nat list \<Rightarrow> string \<Rightarrow> HashedPackage" where
  "examplePackage dir path imps name =
     \<lparr>ID = path, pkgName = name, PkgPath = path, pkgErrors = [], Imports = imps, GoFiles = [], CompiledGoFiles = [dir @ name],
      OtherFiles = [], IgnoredFiles = [], EmbedFiles = [], BuildID = [],
      pkgModule = Some \<lparr>modPath = ''m'', modDir = dir, modVersion = []\<rparr>\<rparr>"

definition exampleEnv :: "(string \<Rightarrow> digest) \<Rightarrow> string \<Rightarrow> HashEnv" where
  "exampleEnv h dir = \<lparr>sha = h, hashSalt = ''v2'', readSource = (\<lambda>f. Inr (drop (length dir) f)),
     graph = (\<lambda>p. if p = 0 then examplePackage dir ''a'' [Suc 0] ''/1.go'' else examplePackage dir ''b'' [] ''/2.go'')\<rparr>"

definition exampleRank :: "nat \<Rightarrow> nat" where
  "exampleRank p = (if p = 0 then 1 else 0)"

definition emptyState :: HashState where
  "emptyState = \<lparr>pkgHashes = Map.empty, fileHashes = Map.empty\<rparr>"

lemma example_ranked: "ranked (exampleEnv h dir) exampleRank"
  by (simp add: ranked_def exampleEnv_def examplePackage_def exampleRank_def)

lemma emptyState_ok: "memoOk E emptyState"
  by (simp add: emptyState_def memoOk_empty)

text \<open>C26: Remembering hashes changes nothing. On acyclic imports, with fuel above the depth of the package and memory
  that holds only correct hashes, the hash of a package in every mode, or the error, is the one computed
  without any memory, and memory stays correct. So a hash depends on the sources only, not on what was asked before.\<close>

theorem package_hash_memory_exact:
  assumes "ranked E rank" "rank p < n" "memoOk E st"
  shows "\<exists>st'. packageHash n E p mode st = Some (map_sum id (modeHash E mode) (theKeys E rank p), st') \<and> memoOk E st'"
  by (rule packageHash_theKeys) (fact assms)+

theorem package_hash_memory_exact_witness:
  "\<exists>st'. packageHash 2 (exampleEnv firstBytes ''/x'') 0 HashModeNeedAllDeps emptyState =
     Some (map_sum id (modeHash (exampleEnv firstBytes ''/x'') HashModeNeedAllDeps) (theKeys (exampleEnv firstBytes ''/x'') exampleRank 0), st') \<and>
     memoOk (exampleEnv firstBytes ''/x'') st'"
  by (rule package_hash_memory_exact [OF example_ranked _ emptyState_ok]) (simp add: exampleRank_def)

lemma example_names:
  "hashedName (Some \<lparr>modPath = ''m'', modDir = ''/x'', modVersion = []\<rparr>) ''/x/1.go'' = ''m/1.go''"
  "hashedName (Some \<lparr>modPath = ''m'', modDir = ''/yy'', modVersion = []\<rparr>) ''/yy/1.go'' = ''m/1.go''"
  "hashedName (Some \<lparr>modPath = ''m'', modDir = ''/x'', modVersion = []\<rparr>) ''/x/2.go'' = ''m/2.go''"
  "hashedName (Some \<lparr>modPath = ''m'', modDir = ''/yy'', modVersion = []\<rparr>) ''/yy/2.go'' = ''m/2.go''"
  by code_simp+

lemma example_graph:
  "graph (exampleEnv h dir) 0 = examplePackage dir ''a'' [Suc 0] ''/1.go''"
  "p \<noteq> 0 \<Longrightarrow> graph (exampleEnv h dir) p = examplePackage dir ''b'' [] ''/2.go''"
  by (simp_all add: exampleEnv_def)

lemma example_env:
  "sha (exampleEnv h dir) = h" "hashSalt (exampleEnv h dir) = ''v2''" "PkgPath (examplePackage dir path imps name) = path"
  by (simp_all add: exampleEnv_def examplePackage_def)

lemma example_sources:
  assumes "dir \<in> {''/x'', ''/yy''}"
  shows "pureSources (exampleEnv h dir) (examplePackage dir ''a'' [Suc 0] ''/1.go'') = Inr (lineOf ''file'' (''m/1.go'' @ '' '' @ hexOf (h ''/1.go'')))"
    "pureSources (exampleEnv h dir) (examplePackage dir ''b'' [] ''/2.go'') = Inr (lineOf ''file'' (''m/2.go'' @ '' '' @ hexOf (h ''/2.go'')))"
  using assms example_names by (auto simp: pureSources_def examplePackage_def exampleEnv_def isCurrentModule_def)

lemma example_imports: "sortedImports (exampleEnv h dir) 0 = [1]" "p \<noteq> 0 \<Longrightarrow> sortedImports (exampleEnv h dir) p = []"
  by (simp_all add: sortedImports_def example_graph examplePackage_def stable_sort_def)

lemma example_keys: "theKeys (exampleEnv h ''/x'') exampleRank 0 = theKeys (exampleEnv h ''/yy'') exampleRank 0"
  by (simp add: theKeys_def exampleRank_def example_graph example_env example_sources example_imports headText_def importLine_def modeHash_def)

lemma example_comparable: "comparable (exampleEnv id ''/x'') exampleRank (exampleEnv id ''/yy'') exampleRank"
proof -
  have "plainNames (exampleEnv id dir)" if "dir \<in> {''/x'', ''/yy''}" for dir
    unfolding plainNames_def
  proof
    fix p
    show "oneLine (PkgPath (graph (exampleEnv id dir) p)) \<and> oneLine (BuildID (graph (exampleEnv id dir) p)) \<and>
      (\<forall>f \<in> set (sourceFiles (graph (exampleEnv id dir) p)). oneLine (hashedName (pkgModule (graph (exampleEnv id dir) p)) f))"
      using that example_names
      by (cases "p = 0") (auto simp: example_graph examplePackage_def sourceFiles_def oneLine_simps newline_def)
  qed
  then show ?thesis using example_ranked by (simp add: comparable_def example_env)
qed

text \<open>C27: A package is hashed with everything below it. When two packages, in two runs with the same salt and digest, have the
  same hash over all dependencies, then at every place below them, over imports in their order, the packages
  have the same names and contents of files (or the same build identifier) and import the same paths. So
  data stored under this hash is never found again after a source file anywhere below changed. This
  assumes names without line breaks and no two hashed texts with the same digest.\<close>

theorem package_hash_covers_dependencies:
  assumes "comparable E1 r1 E2 r2" "r1 p < n1" "r2 q < n2" "memoOk E1 st1" "memoOk E2 st2"
    and "packageHash n1 E1 p HashModeNeedAllDeps st1 = Some (Inr h, st1')"
    and "packageHash n2 E2 q HashModeNeedAllDeps st2 = Some (Inr h, st2')"
    and "samePlace E1 E2 p q x y"
  shows "sourcesOf E1 x = sourcesOf E2 y \<and> PkgPath (graph E1 x) = PkgPath (graph E2 y) \<and>
    map (PkgPath \<circ> graph E1) (deps E1 x) = map (PkgPath \<circ> graph E2) (deps E2 y)"
proof -
  have c: "ranked E1 r1" "ranked E2 r2" "sha E1 = sha E2" "inj_on (sha E1) (hashedTexts E1 r1 \<union> hashedTexts E2 r2)"
    using assms(1) by (auto simp: comparable_def)
  have "map_sum id (modeHash E1 HashModeNeedAllDeps) (theKeys E1 r1 p) = Inr h"
    "map_sum id (modeHash E2 HashModeNeedAllDeps) (theKeys E2 r2 q) = Inr h"
    using packageHash_theKeys [OF c(1) assms(2,4), of HashModeNeedAllDeps]
      packageHash_theKeys [OF c(2) assms(3,5), of HashModeNeedAllDeps] assms(6,7) by simp_all
  then obtain k k' where k: "theKeys E1 r1 p = Inr k" "theKeys E2 r2 q = Inr k'"
    and eq: "modeHash E1 HashModeNeedAllDeps k = modeHash E2 HashModeNeedAllDeps k'"
    by (cases "theKeys E1 r1 p"; cases "theKeys E2 r2 q") simp_all
  have "modeText HashModeNeedAllDeps k = modeText HashModeNeedAllDeps k'"
    using inj_onD [OF c(4) _ UnI1 UnI2] hashedTexts_key [OF k(1)] hashedTexts_key [OF k(2)] eq c(3) by (simp add: modeHash_def)
  then have "sameText E1 r1 p E2 r2 q" unfolding sameText_def using k by blast
  then have "sameText E1 r1 x E2 r2 y" by (rule samePlace_text [OF assms(1) _ assms(8)])
  then show ?thesis using sameText_step(1-3) [OF assms(1)] by blast
qed

theorem package_hash_covers_dependencies_witness:
  "sourcesOf (exampleEnv id ''/x'') 1 = sourcesOf (exampleEnv id ''/yy'') 1"
proof -
  let ?E1 = "exampleEnv id ''/x''" and ?E2 = "exampleEnv id ''/yy''" and ?all = HashModeNeedAllDeps
  have r: "exampleRank 0 < 2" by (simp add: exampleRank_def)
  obtain s1 s2 where s: "packageHash 2 ?E1 0 ?all emptyState = Some (map_sum id (modeHash ?E1 ?all) (theKeys ?E1 exampleRank 0), s1)"
    "packageHash 2 ?E2 0 ?all emptyState = Some (map_sum id (modeHash ?E2 ?all) (theKeys ?E2 exampleRank 0), s2)"
    using packageHash_theKeys [OF example_ranked r emptyState_ok] by blast
  obtain ks where ks: "theKeys ?E1 exampleRank 0 = Inr ks"
    by (simp add: theKeys_def exampleRank_def example_graph example_env example_sources example_imports)
  have m: "modeHash ?E1 ?all ks = modeHash ?E2 ?all ks" by (simp add: modeHash_def exampleEnv_def)
  have "deps ?E1 0 = [1]" "deps ?E2 0 = [1]" by (simp_all add: deps_def example_imports example_graph examplePackage_def)
  then have "samePlace ?E1 ?E2 0 0 1 1" using samePlace.below [OF samePlace.here, of 0 ?E1 0 ?E2 0] by simp
  then show ?thesis
    using package_hash_covers_dependencies [OF example_comparable r r emptyState_ok emptyState_ok, of "modeHash ?E1 ?all ks" s1 s2 1 1]
      s ks example_keys [of id] m by simp
qed

end
