(* ===== verification/Lasting_Cache.thy ===== *)
theory Lasting_Cache
  imports Disk_Cache
begin

text \<open>
  The contract of the cache on disk over several runs (\<open>internal/go/cache/cache.go\<close>): what it may answer now or
  later, with stores that fail and with trimming when it is closed.
\<close>

section \<open>What the cache may answer\<close>

text \<open>Bytes may be answered for an action when the index names their digest, even if the output is missing at the moment: it comes
  back with the next store of the same bytes. Index files are whole or empty as long as no write of an entry is torn.\<close>

definition mayAnswer :: "DiskCache \<Rightarrow> (string \<Rightarrow> digest) \<Rightarrow> disk \<Rightarrow> digest \<Rightarrow> string \<Rightarrow> bool" where
  "mayAnswer c sha256 d i s \<longleftrightarrow> (\<exists>e. indexEntry c d i = Some e \<and> OutputID e = sha256 s)"

definition untorn :: "DiskCache \<Rightarrow> IO \<Rightarrow> bool" where
  "untorn c io \<longleftrightarrow> int63 (clock io) \<and> (\<forall>i. length i = HashSize \<longrightarrow>
     (case writeErr io (fileName c i ''a'') of None \<Rightarrow> True | Some (n, _) \<Rightarrow> n = 0 \<or> entrySize \<le> n))"

definition indexShape :: "DiskCache \<Rightarrow> disk \<Rightarrow> bool" where
  "indexShape c d \<longleftrightarrow> (\<forall>i s t. length i = HashSize \<longrightarrow> d (fileName c i ''a'') = Some (FileNode s t) \<longrightarrow> s = [] \<or> length s = entrySize)"

lemma PutBytes_index:
  assumes ok: "cacheOk c sha256" "length i = HashSize" "untorn c io" "int63 (int (length s))" "indexShape c d"
    and j: "length j = HashSize" and r: "snd (PutBytes c sha256 io i s d) (fileName c j ''a'') = Some (FileNode x t)"
  shows "(\<exists>t. d (fileName c j ''a'') = Some (FileNode x t)) \<or> x = [] \<or> j = i \<and> x = formatEntry i (sha256 s) (int (length s)) (clock io)"
proof -
  have c: "FilepathIsAbs (cacheDir c)" "\<not> verifyMode c" "\<And>s. length (sha256 s) = HashSize" "int63 (clock io)"
    using ok by (auto simp: cacheOk_def untorn_def)
  obtain y d1 where cp: "copyFile c sha256 io (bytesReader s) (sha256 s) (length s) d = (y, d1)" by fastforce
  have frame: "d1 (fileName c j ''a'') = d (fileName c j ''a'')" if "length j = HashSize" for j
    using copyFile_frame [of "fileName c j ''a''" c "sha256 s" sha256 io "bytesReader s" "length s" d]
      fileName_neq(3) [OF c(1) that c(3)] cp by simp
  show ?thesis
  proof (cases y)
    case None
    then have r1: "snd (putIndexEntry c io i (sha256 s) (int (length s)) True d1) (fileName c j ''a'') = Some (FileNode x t)"
      using r cp by (simp add: DiskCache_put_bytes)
    show ?thesis
    proof (cases "j = i")
      case True
      have "contentOf (fileName c i ''a'') d1 = [] \<or> length (contentOf (fileName c i ''a'') d1) = entrySize"
        using ok(2,5) frame [OF ok(2)] by (auto simp: indexShape_def contentOf_def split: option.splits node.splits)
      then show ?thesis
        using putIndexEntry_content [OF c(2) refl refl _ _ _ r1 [unfolded True]] formatEntry_length [OF ok(2) c(3) ok(4) c(4)]
          ok(2,3) frame [OF ok(2)] True by (auto simp: untorn_def)
    next
      case False
      then show ?thesis using r1 putIndexEntry_frame [OF _ c(2)] fileName_neq(1) [OF c(1) j ok(2)] frame [OF j] by simp
    qed
  qed (use r cp frame [OF j] in \<open>auto simp: DiskCache_put_bytes\<close>)
qed

lemma PutBytes_may:
  assumes ok: "cacheOk c sha256" "length i = HashSize" "untorn c io" "int63 (int (length s))" "indexShape c d"
  shows "indexShape c (snd (PutBytes c sha256 io i s d))"
    and "mayAnswer c sha256 (snd (PutBytes c sha256 io i s d)) j x \<Longrightarrow> mayAnswer c sha256 d j x \<or> j = i \<and> sha256 s = sha256 x"
proof -
  have c: "\<And>s. length (sha256 s) = HashSize" "int63 (clock io)" using ok by (auto simp: cacheOk_def untorn_def)
  show "indexShape c (snd (PutBytes c sha256 io i s d))"
    using PutBytes_index [OF ok] formatEntry_length [OF ok(2) c(1) ok(4) c(2)] ok(5) unfolding indexShape_def by metis
  assume "mayAnswer c sha256 (snd (PutBytes c sha256 io i s d)) j x"
  then obtain e y t where e: "snd (PutBytes c sha256 io i s d) (fileName c j ''a'') = Some (FileNode y t)" "length y = entrySize"
    "parseEntry j y = Inr e" "OutputID e = sha256 x" and j: "length j = HashSize"
    unfolding mayAnswer_def using indexEntry_length(1) by (metis indexEntry_iff)
  then have "(\<exists>t. d (fileName c j ''a'') = Some (FileNode y t)) \<or> j = i \<and> y = formatEntry i (sha256 s) (int (length s)) (clock io)"
    using PutBytes_index [OF ok j e(1)] by (auto simp: entrySize_def)
  then show "mayAnswer c sha256 d j x \<or> j = i \<and> sha256 s = sha256 x"
    using e parseEntry_formatEntry(1) [OF ok(2) c(1), of "int (length s)" "clock io" s] ok(4) c(2)
    by (auto simp: mayAnswer_def indexEntry_iff int63_def)
qed

lemma Trim_index:
  assumes ok: "cacheOk c sha256" and i: "length i = HashSize" and k: "k \<in> {''a'', ''d''}"
  shows "snd (DiskCache_Trim c io lk names d) (fileName c i k) \<in> {None, d (fileName c i k)}"
proof -
  have "i \<noteq> []" "slash \<notin> set k" using i k by (auto simp: HashSize_def slash_def)
  then have "fileName c i k \<noteq> trimFile c" using trimFile_neq ok by (simp add: cacheOk_def)
  then show ?thesis using Trim_removes [of "fileName c i k" c io lk names d] by auto
qed

lemma Trim_may:
  assumes "cacheOk c sha256"
  shows "plainOutputs c d \<Longrightarrow> plainOutputs c (snd (DiskCache_Trim c io lk names d))"
    and "indexShape c d \<Longrightarrow> indexShape c (snd (DiskCache_Trim c io lk names d))"
    and "mayAnswer c sha256 (snd (DiskCache_Trim c io lk names d)) j x \<Longrightarrow> mayAnswer c sha256 d j x"
proof -
  let ?d = "snd (DiskCache_Trim c io lk names d)"
  have old: "d (fileName c i k) = Some n" if "length i = HashSize" "?d (fileName c i k) = Some n" "k \<in> {''a'', ''d''}" for i k n
    using Trim_index [OF assms that(1,3), of io lk names d] that(2) by auto
  show "plainOutputs c d \<Longrightarrow> plainOutputs c ?d" unfolding plainOutputs_def using old [of _ "''d''"] by blast
  show "indexShape c d \<Longrightarrow> indexShape c ?d" unfolding indexShape_def using old [of _ "''a''"] by blast
  assume "mayAnswer c sha256 ?d j x"
  then obtain e where e: "indexEntry c ?d j = Some e" "OutputID e = sha256 x" by (auto simp: mayAnswer_def)
  then have "indexEntry c d j = Some e"
    using old [of j "''a''"] indexEntry_length(1) [OF e(1)] unfolding indexEntry_iff by blast
  then show "mayAnswer c sha256 d j x" using e(2) by (auto simp: mayAnswer_def)
qed

text \<open>The contract of a cache over several runs: what it may answer grows only by what is stored, whatever fails, and
  closing it only forgets.\<close>

locale lasting_cache = byte_cache stored getBytes putBytes ok sane
  for stored :: "'d \<Rightarrow> digest \<Rightarrow> string option" and getBytes putBytes ok sane +
  fixes may :: "'d \<Rightarrow> digest \<Rightarrow> string \<Rightarrow> bool"
    and same :: "string \<Rightarrow> string \<Rightarrow> bool"
    and small :: "string \<Rightarrow> bool"
    and shaped :: "'d \<Rightarrow> bool"
    and closeCache :: "'d \<Rightarrow> 'd"
  assumes may_stored: "stored d i = Some s \<Longrightarrow> may d i s"
    and may_get: "ok d \<Longrightarrow> may (snd (getBytes i d)) = may d"
    and shaped_get: "ok d \<Longrightarrow> shaped d \<Longrightarrow> shaped (snd (getBytes i d))"
    and may_put: "ok d \<Longrightarrow> shaped d \<Longrightarrow> length i = HashSize \<Longrightarrow> small s \<Longrightarrow> may (snd (putBytes i s d)) j s' \<Longrightarrow>
      may d j s' \<or> j = i \<and> same s s'"
    and shaped_put: "ok d \<Longrightarrow> shaped d \<Longrightarrow> length i = HashSize \<Longrightarrow> small s \<Longrightarrow> shaped (snd (putBytes i s d))"
    and close_keeps: "ok d \<Longrightarrow> ok (closeCache d)" "ok d \<Longrightarrow> shaped d \<Longrightarrow> shaped (closeCache d)"
    and may_close: "ok d \<Longrightarrow> may (closeCache d) j s' \<Longrightarrow> may d j s'"

definition diskShaped :: "DiskCache \<Rightarrow> IO \<Rightarrow> disk \<Rightarrow> bool" where
  "diskShaped c io d \<longleftrightarrow> untorn c io \<and> indexShape c d"

definition diskClose :: "DiskCache \<Rightarrow> IO \<Rightarrow> Locked \<Rightarrow> (string \<Rightarrow> string list) \<Rightarrow> disk \<Rightarrow> disk" where
  "diskClose c io lk names d = snd (DiskCache_Close c io lk names d)"

lemma indexShape_sameContents: "sameContents d d' \<Longrightarrow> indexShape c d \<Longrightarrow> indexShape c d'"
  unfolding indexShape_def using sameContents_FileNode by blast

interpretation lasting_disk: lasting_cache "cached c sha256" "diskGet c sha256 io'" "PutBytes c sha256 io" "diskOk c sha256 io'"
  "sanePut c sha256 io" "mayAnswer c sha256" "\<lambda>s s'. sha256 s = sha256 s'" "\<lambda>s. int63 (int (length s))" "diskShaped c io"
  "diskClose c io lk names" for c sha256 io io' lk names
proof (unfold_locales, goal_cases)
  case (1 d i s)
  then show ?case by (auto simp: cached_iff mayAnswer_def)
next
  case (2 d i)
  have "sameContents d (snd (diskGet c sha256 io' i d))" using GetBytes_contents by (simp add: diskGet_def)
  then show ?case using sameContents_views(1) by (auto simp: mayAnswer_def fun_eq_iff)
next
  case (3 d i)
  have "sameContents d (snd (diskGet c sha256 io' i d))" using GetBytes_contents by (simp add: diskGet_def)
  then show ?case using 3 indexShape_sameContents by (auto simp: diskShaped_def)
next
  case (4 d i s j s')
  then show ?case using PutBytes_may(2) [of c sha256 i io s d j s'] unfolding diskOk_def diskShaped_def by blast
next
  case (5 d i s)
  then show ?case using PutBytes_may(1) by (auto simp: diskOk_def diskShaped_def)
next
  case (6 d)
  then show ?case using Trim_may(1) by (auto simp: diskOk_def diskClose_def DiskCache_Close_def)
next
  case (7 d)
  then show ?case using Trim_may(2) by (auto simp: diskOk_def diskShaped_def diskClose_def DiskCache_Close_def)
next
  case (8 d j s')
  then show ?case using Trim_may(3) by (auto simp: diskOk_def diskClose_def DiskCache_Close_def)
qed

end
