(* ===== verification/Issues_Cache.thy ===== *)
theory Issues_Cache
  imports Pkg_Cache Lasting_Cache Lifecycle
begin

text \<open>
  The run of all analyzers as one linter (\<open>pkg/goanalysis/runners.go\<close>) and the cache of issues around it
  (\<open>runners_cache.go\<close>): issues of packages with an unchanged hash come from the cache, the other packages are
  analyzed, and their issues are saved.

  Workers take packages from a queue in some order, and the results of loading are collected from a map in some order:
  both orders are arguments. The analysis itself, the errors of ill-typed packages, the reported issues of linters
  that collect them, and the encoding of data are parameters.
\<close>

section \<open>Issues in the cache\<close>

record EncodingIssue =
  eiFromLinter :: string
  eiText :: string
  eiSeverity :: string
  eiPos :: Position
  eiLineRange :: "Range option"
  eiSuggestedFixes :: "SuggestedFix list"
  eiExpectNoLint :: bool
  eiExpectedNoLintLinter :: string

definition encodeIssue :: "Module option \<Rightarrow> Issue \<Rightarrow> EncodingIssue" where
  "encodeIssue m issue =
     \<lparr>eiFromLinter = FromLinter issue, eiText = Text issue, eiSeverity = Severity issue, eiPos = RelativePosition m (Pos issue),
      eiLineRange = LineRange issue, eiSuggestedFixes = SuggestedFixes issue, eiExpectNoLint = ExpectNoLint issue,
      eiExpectedNoLintLinter = ExpectedNoLintLinter issue\<rparr>"

definition decodeIssue :: "nat \<Rightarrow> Module option \<Rightarrow> EncodingIssue \<Rightarrow> Issue" where
  "decodeIssue p m issue =
     \<lparr>FromLinter = eiFromLinter issue, Text = eiText issue, Severity = eiSeverity issue, SourceLines = [], Pkg = Some p,
      Pos = AbsolutionPosition m (eiPos issue), LineRange = eiLineRange issue, HunkPos = 0,
      SuggestedFixes = eiSuggestedFixes issue, ExpectNoLint = eiExpectNoLint issue,
      ExpectedNoLintLinter = eiExpectedNoLintLinter issue, WorkingDirectoryRelativePath = [], RelativePath = []\<rparr>"

definition analyzersHashID :: "string list \<Rightarrow> string" where
  "analyzersHashID analyzers = Join (stable_sort (\<lambda>a b. cmp_string a b < 0) analyzers) '',''"

definition getIssuesCacheKey :: "string list \<Rightarrow> string" where
  "getIssuesCacheKey analyzers = ''lint/result:'' @ analyzersHashID analyzers"

text \<open>What the two functions work with: the cache below, the encoding and the hashes.\<close>

record 'd IssueCache =
  icGet :: "digest \<Rightarrow> 'd \<Rightarrow> (cache_error + string) \<times> 'd"
  icPut :: "digest \<Rightarrow> string \<Rightarrow> 'd \<Rightarrow> cache_error option \<times> 'd"
  icClose :: "'d \<Rightarrow> 'd"
  gobEncode :: "EncodingIssue list \<Rightarrow> string + string"
  gobDecode :: "string \<Rightarrow> string + EncodingIssue list"
  hashEnv :: HashEnv
  hashFuel :: nat

definition pkgIssues :: "'d IssueCache \<Rightarrow> Issue list \<Rightarrow> nat \<Rightarrow> EncodingIssue list" where
  "pkgIssues C issues p =
     map (encodeIssue (pkgModule (graph (hashEnv C) p))) (filter (\<lambda>i. Pkg i = Some p) issues)"

definition savePkg :: "'d IssueCache \<Rightarrow> string \<Rightarrow> Issue list \<Rightarrow> nat \<Rightarrow> HashState \<times> 'd \<Rightarrow> (pkg_cache_error option \<times> HashState \<times> 'd) option" where
  "savePkg C key issues p s =
     Cache_Put (gobEncode C) (icPut C) (hashFuel C) (hashEnv C) p HashModeNeedAllDeps key (pkgIssues C issues p) s"

text \<open>A package that cannot be saved is logged and the next one is taken.\<close>

fun savePkgs :: "'d IssueCache \<Rightarrow> string \<Rightarrow> Issue list \<Rightarrow> nat list \<Rightarrow> HashState \<times> 'd \<Rightarrow> ((nat \<times> pkg_cache_error) list \<times> HashState \<times> 'd) option" where
  "savePkgs C key issues [] s = Some ([], s)"
| "savePkgs C key issues (p # ps) s = (case savePkg C key issues p s of
       None \<Rightarrow> None
     | Some (err, s) \<Rightarrow> (case savePkgs C key issues ps s of
           None \<Rightarrow> None
         | Some (log, s) \<Rightarrow> Some ((case err of None \<Rightarrow> log | Some e \<Rightarrow> (p, e) # log), s)))"

definition saveIssuesToCache ::
  "'d IssueCache \<Rightarrow> (nat list \<Rightarrow> nat list) \<Rightarrow> nat list \<Rightarrow> nat set \<Rightarrow> Issue list \<Rightarrow> string list \<Rightarrow> HashState \<times> 'd \<Rightarrow>
   ((nat \<times> pkg_cache_error) list \<times> HashState \<times> 'd) option" where
  "saveIssuesToCache C schedule allPkgs pkgsFromCache issues analyzers s =
     map_option (\<lambda>(log, st, d). (log, st, icClose C d))
       (savePkgs C (getIssuesCacheKey analyzers) issues (schedule (filter (\<lambda>p. p \<notin> pkgsFromCache) allPkgs)) s)"

fun loadPkgs ::
  "'d IssueCache \<Rightarrow> string \<Rightarrow> nat list \<Rightarrow> (nat \<rightharpoonup> pkg_cache_error + Issue list) \<Rightarrow> HashState \<times> 'd \<Rightarrow>
   ((nat \<rightharpoonup> pkg_cache_error + Issue list) \<times> HashState \<times> 'd) option" where
  "loadPkgs C key [] m s = Some (m, s)"
| "loadPkgs C key (p # ps) m s =
     (case Cache_Get (gobDecode C) (icGet C) (hashFuel C) (hashEnv C) p HashModeNeedAllDeps key s of
        None \<Rightarrow> None
      | Some (Inl err, s) \<Rightarrow> loadPkgs C key ps (m(p \<mapsto> Inl err)) s
      | Some (Inr issues, s) \<Rightarrow>
          loadPkgs C key ps (m(p \<mapsto> Inr (map (decodeIssue p (pkgModule (graph (hashEnv C) p))) issues))) s)"

definition loadedIssues :: "(nat \<rightharpoonup> pkg_cache_error + Issue list) \<Rightarrow> nat \<Rightarrow> Issue list" where
  "loadedIssues m p = (case m p of Some (Inr issues) \<Rightarrow> issues | _ \<Rightarrow> [])"

definition fromCache :: "(nat \<rightharpoonup> pkg_cache_error + Issue list) \<Rightarrow> nat list \<Rightarrow> nat set" where
  "fromCache m ps = set (filter (\<lambda>p. case m p of Some (Inr _) \<Rightarrow> True | _ \<Rightarrow> False) ps)"

text \<open>\<open>order\<close> is the order in which the map of results is visited, over its distinct keys.\<close>

definition loadIssuesFromCache ::
  "'d IssueCache \<Rightarrow> (nat list \<Rightarrow> nat list) \<Rightarrow> (nat list \<Rightarrow> nat list) \<Rightarrow> nat list \<Rightarrow> string list \<Rightarrow> HashState \<times> 'd \<Rightarrow>
   (Issue list \<times> nat set \<times> HashState \<times> 'd) option" where
  "loadIssuesFromCache C schedule order pkgs analyzers s =
     map_option (\<lambda>(m, s). (concat (map (loadedIssues m) (order (remdups pkgs))), fromCache m pkgs, s))
       (loadPkgs C (getIssuesCacheKey analyzers) (schedule pkgs) Map.empty s)"

section \<open>Issues of diagnostics\<close>

record TokenFile =
  fileNameOf :: string
  fileBase :: int
  fileSize :: int

record DiagEdit =
  dePos :: int
  deEnd :: int
  deNewText :: string

record Diagnostic =
  dgAnalyzer :: string
  dgMessage :: string
  dgPosition :: Position
  dgPkg :: nat
  dgFile :: TokenFile
  dgFixes :: "(string \<times> DiagEdit list) list"
  dgRelated :: "(int \<times> string) list"

definition isOutsideFile :: "TokenFile \<Rightarrow> int \<Rightarrow> bool" where
  "isOutsideFile f p \<longleftrightarrow> p < fileBase f \<or> p > fileBase f + fileSize f"

text \<open>A position is valid when it is not zero; the offset of a position inside the file is its distance from the base.\<close>

definition buildEdit :: "TokenFile \<Rightarrow> DiagEdit \<Rightarrow> TextEdit option" where
  "buildEdit f edit =
     (if isOutsideFile f (dePos edit) then None
      else if deEnd edit \<noteq> 0 \<and> isOutsideFile f (deEnd edit) then None
      else (let end' = (if deEnd edit = 0 then dePos edit else deEnd edit) in
            Some \<lparr>EditPos = dePos edit - fileBase f, EditEnd = end' - fileBase f, NewText = deNewText edit\<rparr>))"

definition buildFixes :: "Diagnostic \<Rightarrow> SuggestedFix list" where
  "buildFixes diag =
     (if \<not> HasSuffix (fileNameOf (dgFile diag)) ''.go'' then []
      else map (\<lambda>(msg, edits). \<lparr>Message = msg, TextEdits = List.map_filter (buildEdit (dgFile diag)) edits\<rparr>) (dgFixes diag))"

definition newIssue :: "string \<Rightarrow> string \<Rightarrow> Position \<Rightarrow> nat \<Rightarrow> SuggestedFix list \<Rightarrow> Issue" where
  "newIssue linter msg pos p fixes =
     \<lparr>FromLinter = linter, Text = msg, Severity = [], SourceLines = [], Pkg = Some p, Pos = pos, LineRange = None, HunkPos = 0,
      SuggestedFixes = fixes, ExpectNoLint = False, ExpectedNoLintLinter = [], WorkingDirectoryRelativePath = [], RelativePath = []\<rparr>"

definition diagnosticIssues :: "(nat \<Rightarrow> int \<Rightarrow> Position) \<Rightarrow> (Diagnostic \<Rightarrow> string) \<Rightarrow> Diagnostic \<Rightarrow> Issue list" where
  "diagnosticIssues fsetPosition linterNameBuilder diag =
     (let linterName = linterNameBuilder diag;
          txt = (if dgAnalyzer diag = linterName then dgMessage diag else dgAnalyzer diag @ '': '' @ dgMessage diag)
      in newIssue linterName txt (dgPosition diag) (dgPkg diag) (buildFixes diag) #
         map (\<lambda>(pos, msg).
           let relatedPos = fsetPosition (dgPkg diag) pos;
               relatedPos = (if Filename relatedPos \<noteq> Filename (dgPosition diag) then dgPosition diag else relatedPos)
           in newIssue linterName (dgAnalyzer diag @ ''(related information): '' @ msg) relatedPos (dgPkg diag) [])
           (dgRelated diag))"

definition buildIssues :: "(nat \<Rightarrow> int \<Rightarrow> Position) \<Rightarrow> Diagnostic list \<Rightarrow> (Diagnostic \<Rightarrow> string) \<Rightarrow> Issue list" where
  "buildIssues fsetPosition diags linterNameBuilder = concat (map (diagnosticIssues fsetPosition linterNameBuilder) diags)"

section \<open>The run\<close>

text \<open>The configuration of a run: how it picks packages, how it names linters, and what linters that collect their issues
  report after the analysis of some packages, each with the package of its pass.\<close>

record 'e AnalysisCfg =
  cfgName :: string
  cfgAnalyzers :: "string list"
  cfgUseOriginal :: bool
  cfgLinterOfDiag :: "Diagnostic \<Rightarrow> string"
  cfgReported :: "nat list \<Rightarrow> (Issue \<times> nat option) list"
  runAnalysis :: "nat list \<Rightarrow> Diagnostic list \<times> 'e list"
  illTyped :: "'e list \<Rightarrow> 'e + Issue list"
  fsetPositionOf :: "nat \<Rightarrow> int \<Rightarrow> Position"

definition reportedIssue :: "Issue \<times> nat option \<Rightarrow> Issue" where
  "reportedIssue r = (let (i, passPkg) = r in if Pkg i = None then i\<lparr>Pkg := passPkg\<rparr> else i)"

definition buildAllIssues :: "'e AnalysisCfg \<Rightarrow> nat list \<Rightarrow> Diagnostic list \<Rightarrow> Issue list" where
  "buildAllIssues cfg analyzed diags =
     map reportedIssue (cfgReported cfg analyzed) @ buildIssues (fsetPositionOf cfg) diags (cfgLinterOfDiag cfg)"

definition runAnalyzers ::
  "'d IssueCache \<Rightarrow> 'e AnalysisCfg \<Rightarrow> (nat list \<Rightarrow> nat list) \<Rightarrow> (nat list \<Rightarrow> nat list) \<Rightarrow> nat list \<Rightarrow> nat list \<Rightarrow> HashState \<times> 'd \<Rightarrow>
   (('e + Issue list) \<times> nat list \<times> HashState \<times> 'd) option" where
  "runAnalyzers C cfg schedule order packages originalPackages s =
     (let pkgs = (if cfgUseOriginal cfg then originalPackages else packages) in
      case loadIssuesFromCache C schedule order pkgs (cfgAnalyzers cfg) s of
        None \<Rightarrow> None
      | Some (issues, pkgsFromCache, s) \<Rightarrow>
          (let pkgsToAnalyze = filter (\<lambda>p. p \<notin> pkgsFromCache) pkgs;
               (diags, errs) = runAnalysis cfg pkgsToAnalyze;
               (ret, issues) = (case illTyped cfg errs of
                   Inl e \<Rightarrow> (Inl e, issues)
                 | Inr errIssues \<Rightarrow> (let issues = issues @ errIssues @ buildAllIssues cfg pkgsToAnalyze diags in (Inr issues, issues)))
           in if errs = [] then
                map_option (\<lambda>(log, s). (ret, pkgsToAnalyze, s))
                  (saveIssuesToCache C schedule pkgs pkgsFromCache issues (cfgAnalyzers cfg) s)
              else Some (ret, pkgsToAnalyze, s)))"

section \<open>Issues read back\<close>

definition moduleOf :: "'d IssueCache \<Rightarrow> nat \<Rightarrow> Module option" where
  "moduleOf C p = pkgModule (graph (hashEnv C) p)"

text \<open>An issue as linters report it: the fields that processors fill later are empty, and its path is clean and absolute.\<close>

definition cacheable :: "nat \<Rightarrow> Issue \<Rightarrow> bool" where
  "cacheable p i \<longleftrightarrow> Pkg i = Some p \<and> SourceLines i = [] \<and> HunkPos i = 0 \<and> WorkingDirectoryRelativePath i = [] \<and> RelativePath i = [] \<and>
     (Filename (Pos i) = [] \<or> FilepathIsAbs (Filename (Pos i)) \<and> Clean (Filename (Pos i)) = Filename (Pos i))"

definition rootedModule :: "Module option \<Rightarrow> bool" where
  "rootedModule m \<longleftrightarrow> (case m of None \<Rightarrow> True | Some m \<Rightarrow> modDir m = [] \<or> FilepathIsAbs (modDir m))"

lemma decode_encode: "rootedModule m \<Longrightarrow> cacheable p i \<Longrightarrow> decodeIssue p m (encodeIssue m i) = i"
  using position_survives [of m "Pos i"] by (cases i) (auto simp: decodeIssue_def encodeIssue_def cacheable_def rootedModule_def)

lemma map_decode_encode: "rootedModule m \<Longrightarrow> list_all (cacheable p) xs \<Longrightarrow> map (decodeIssue p m) (map (encodeIssue m) xs) = xs"
  by (induction xs) (simp_all add: decode_encode)

section \<open>Loading and saving\<close>

text \<open>What the two loops rely on: hashes can be computed, and what the encoder accepts is decoded again.\<close>

definition hashesSound :: "'d IssueCache \<Rightarrow> (nat \<Rightarrow> nat) \<Rightarrow> bool" where
  "hashesSound C rank \<longleftrightarrow> ranked (hashEnv C) rank \<and> (\<forall>p. rank p < hashFuel C) \<and> (\<forall>s. length (sha (hashEnv C) s) = HashSize)"

definition gobSound :: "'d IssueCache \<Rightarrow> (string \<Rightarrow> bool) \<Rightarrow> bool" where
  "gobSound C small \<longleftrightarrow> (\<forall>v buf. gobEncode C v = Inr buf \<longrightarrow> gobDecode C buf = Inr v \<and> small buf)"

definition issueKey :: "'d IssueCache \<Rightarrow> (nat \<Rightarrow> nat) \<Rightarrow> string \<Rightarrow> nat \<Rightarrow> hash_error + digest" where
  "issueKey C rank key p = keyOf (hashEnv C) rank p HashModeNeedAllDeps key"

definition loadResult ::
  "'d IssueCache \<Rightarrow> (nat \<Rightarrow> nat) \<Rightarrow> string \<Rightarrow> (digest \<Rightarrow> string option) \<Rightarrow> nat \<Rightarrow> pkg_cache_error + Issue list" where
  "loadResult C rank key held p = (case issueKey C rank key p of
       Inl e \<Rightarrow> Inl (ActionIDErr (pkgName (graph (hashEnv C) p)) e)
     | Inr i \<Rightarrow> (case held i of
           None \<Rightarrow> Inl ErrMissing
         | Some buf \<Rightarrow> (case gobDecode C buf of
               Inl e \<Rightarrow> Inl (GobDecode e)
             | Inr v \<Rightarrow> Inr (map (decodeIssue p (moduleOf C p)) v))))"

lemma issueKey_cases:
  assumes "hashesSound C rank" "memoOk (hashEnv C) st"
  obtains st' where "buildKey (hashFuel C) (hashEnv C) p HashModeNeedAllDeps key st = Some (issueKey C rank key p, st')" "memoOk (hashEnv C) st'"
  using assms buildKey_exact unfolding hashesSound_def issueKey_def by blast

lemma issueKey_length: "hashesSound C rank \<Longrightarrow> issueKey C rank key p = Inr i \<Longrightarrow> length i = HashSize"
  using keyOf_length unfolding hashesSound_def issueKey_def by blast

text \<open>What a look-up and a store keep of the cache.\<close>

context lasting_cache
begin

definition usable :: "HashEnv \<Rightarrow> HashState \<times> 'd \<Rightarrow> bool" where
  "usable E s \<longleftrightarrow> memoOk E (fst s) \<and> ok (snd s) \<and> shaped (snd s)"

lemma load_one:
  assumes C: "icGet C = getBytes" "hashesSound C rank" and u: "usable (hashEnv C) (st, d)"
  shows "\<exists>v st' d'. Cache_Get (gobDecode C) (icGet C) (hashFuel C) (hashEnv C) p HashModeNeedAllDeps key (st, d) = Some (v, st', d') \<and>
    map_sum id (map (decodeIssue p (moduleOf C p))) v = loadResult C rank key (stored d) p \<and>
    usable (hashEnv C) (st', d') \<and> stored d' = stored d \<and> may d' = may d"
proof -
  have m: "memoOk (hashEnv C) st" "ok d" "shaped d" using u by (simp_all add: usable_def)
  obtain st' where st': "buildKey (hashFuel C) (hashEnv C) p HashModeNeedAllDeps key st = Some (issueKey C rank key p, st')"
    "memoOk (hashEnv C) st'" using issueKey_cases [OF C(2) m(1)] .
  show ?thesis
  proof (cases "issueKey C rank key p")
    case (Inl e)
    then show ?thesis using st' m by (auto simp: Cache_Get_def loadResult_def usable_def)
  next
    case (Inr i)
    obtain x d' where x: "getBytes i d = (x, d')" by fastforce
    have d': "ok d'" "stored d' = stored d" "may d' = may d" "shaped d'"
      using get_keeps [OF m(2), of i] may_get [OF m(2), of i] shaped_get [OF m(2,3), of i] x by simp_all
    show ?thesis
    proof (cases x)
      case (Inl e)
      then have "IsErrMissing e" "stored d i = None" using get_missing [OF m(2), of i e] get_missing_iff [OF m(2), of i] x by simp_all
      then show ?thesis using st' x Inl d' C(1) \<open>issueKey C rank key p = Inr i\<close> by (simp add: Cache_Get_def loadResult_def usable_def)
    next
      case (Inr buf)
      then have "stored d i = Some buf" using get_exact [OF m(2)] x by fastforce
      then show ?thesis using st' x Inr d' C(1) \<open>issueKey C rank key p = Inr i\<close>
        by (cases "gobDecode C buf") (simp_all add: Cache_Get_def loadResult_def usable_def)
    qed
  qed
qed

lemma load_exact:
  assumes C: "icGet C = getBytes" "hashesSound C rank"
  shows "usable (hashEnv C) (st, d) \<Longrightarrow> \<exists>st' d'. loadPkgs C key ps m (st, d) =
      Some (\<lambda>p. if p \<in> set ps then Some (loadResult C rank key (stored d) p) else m p, st', d') \<and>
    usable (hashEnv C) (st', d') \<and> stored d' = stored d \<and> may d' = may d"
proof (induction ps arbitrary: m st d)
  case (Cons p ps)
  obtain v st1 d1 where g: "Cache_Get (gobDecode C) (icGet C) (hashFuel C) (hashEnv C) p HashModeNeedAllDeps key (st, d) = Some (v, st1, d1)"
    and v: "map_sum id (map (decodeIssue p (moduleOf C p))) v = loadResult C rank key (stored d) p"
    and u: "usable (hashEnv C) (st1, d1)" "stored d1 = stored d" "may d1 = may d"
    using load_one [OF C Cons.prems] by blast
  have "loadPkgs C key (p # ps) m (st, d) = loadPkgs C key ps (m(p \<mapsto> loadResult C rank key (stored d) p)) (st1, d1)"
    using g v by (cases v) (auto simp: moduleOf_def)
  moreover have "(\<lambda>q. if q \<in> set ps then Some (loadResult C rank key (stored d) q) else (m(p \<mapsto> loadResult C rank key (stored d) p)) q) =
      (\<lambda>q. if q \<in> set (p # ps) then Some (loadResult C rank key (stored d) q) else m q)"
    by auto
  ultimately show ?case
    using Cons.IH [OF u(1), of "m(p \<mapsto> loadResult C rank key (stored d) p)"] unfolding u(2,3) by (simp only:)
qed simp

end

text \<open>\<open>truth\<close> gives for the key of a package the bytes that encode its issues. A cache is truthful when
  whatever it may answer has the digest of these bytes.\<close>

definition trueResults ::
  "'d IssueCache \<Rightarrow> (nat \<Rightarrow> nat) \<Rightarrow> string \<Rightarrow> (digest \<rightharpoonup> string) \<Rightarrow> (nat \<Rightarrow> Issue list) \<Rightarrow> nat list \<Rightarrow> bool" where
  "trueResults C rank key truth analyze ps \<longleftrightarrow> (\<forall>p \<in> set ps. rootedModule (moduleOf C p) \<and> list_all (cacheable p) (analyze p) \<and>
     (\<forall>i. issueKey C rank key p = Inr i \<longrightarrow>
        (\<exists>buf. gobEncode C (map (encodeIssue (moduleOf C p)) (analyze p)) = Inr buf \<and> truth i = Some buf)))"

definition truthful :: "('d \<Rightarrow> digest \<Rightarrow> string \<Rightarrow> bool) \<Rightarrow> (string \<Rightarrow> string \<Rightarrow> bool) \<Rightarrow> (digest \<rightharpoonup> string) \<Rightarrow> 'd \<Rightarrow> bool" where
  "truthful may same truth d \<longleftrightarrow> (\<forall>i s buf. may d i s \<longrightarrow> truth i = Some buf \<longrightarrow> same buf s)"

definition noClash :: "('d \<Rightarrow> digest \<Rightarrow> string option) \<Rightarrow> (string \<Rightarrow> string \<Rightarrow> bool) \<Rightarrow> (digest \<rightharpoonup> string) \<Rightarrow> 'd \<Rightarrow> bool" where
  "noClash stored same truth d \<longleftrightarrow> (\<forall>i s buf. stored d i = Some s \<longrightarrow> truth i = Some buf \<longrightarrow> same buf s \<longrightarrow> s = buf)"

text \<open>Every save of a run succeeds and finds the disk as it should be.\<close>

fun saneSaves :: "(string \<Rightarrow> 'd \<Rightarrow> bool) \<Rightarrow> 'd IssueCache \<Rightarrow> string \<Rightarrow> Issue list \<Rightarrow> nat list \<Rightarrow> HashState \<times> 'd \<Rightarrow> bool" where
  "saneSaves sane C key issues [] s \<longleftrightarrow> True"
| "saneSaves sane C key issues (p # ps) s \<longleftrightarrow>
     (\<forall>buf. gobEncode C (pkgIssues C issues p) = Inr buf \<longrightarrow> sane buf (snd s)) \<and>
     (case savePkg C key issues p s of
        None \<Rightarrow> False
      | Some (err, s) \<Rightarrow> err = None \<and> saneSaves sane C key issues ps s)"

context lasting_cache
begin

lemma save_one:
  assumes C: "icPut C = putBytes" "hashesSound C rank" "gobSound C small" and u: "usable (hashEnv C) (st, d)"
    and t: "trueResults C rank key truth analyze [p]" "pkgIssues C issues p = map (encodeIssue (moduleOf C p)) (analyze p)"
    and tr: "truthful may same truth d"
  shows "\<exists>err st' d'. savePkg C key issues p (st, d) = Some (err, st', d') \<and> usable (hashEnv C) (st', d') \<and> truthful may same truth d'"
    and "savePkg C key issues p (st, d) = Some (None, st', d') \<Longrightarrow>
      (\<And>buf. gobEncode C (pkgIssues C issues p) = Inr buf \<Longrightarrow> sane buf d) \<Longrightarrow>
      \<exists>i. issueKey C rank key p = Inr i \<and> stored d' i = truth i \<and> truth i \<noteq> None \<and>
        (\<forall>j s. stored d j = Some s \<and> truth j = Some s \<longrightarrow> stored d' j = Some s)"
proof -
  have m: "memoOk (hashEnv C) st" "ok d" "shaped d" using u by (simp_all add: usable_def)
  obtain st1 where st1: "buildKey (hashFuel C) (hashEnv C) p HashModeNeedAllDeps key st = Some (issueKey C rank key p, st1)"
    "memoOk (hashEnv C) st1" using issueKey_cases [OF C(2) m(1)] .
  have save: "savePkg C key issues p (st, d) = Some (case gobEncode C (pkgIssues C issues p) of
      Inl e \<Rightarrow> (Some (GobEncode e), st, d)
    | Inr buf \<Rightarrow> (case issueKey C rank key p of
          Inl e \<Rightarrow> (Some (ActionIDErr (pkgName (graph (hashEnv C) p)) e), st1, d)
        | Inr i \<Rightarrow> (map_option (LowLevelErr key (pkgName (graph (hashEnv C) p))) (fst (putBytes i buf d)), st1, snd (putBytes i buf d))))"
    using st1 C(1) by (auto simp: savePkg_def Cache_Put_def split: sum.splits prod.splits option.splits)
  have put: "usable (hashEnv C) (st1, snd (putBytes i buf d)) \<and> truthful may same truth (snd (putBytes i buf d)) \<and> truth i = Some buf"
    if i: "issueKey C rank key p = Inr i" and buf: "gobEncode C (pkgIssues C issues p) = Inr buf" for i buf
  proof -
    note l = issueKey_length [OF C(2) i]
    have b: "small buf" "truth i = Some buf" using C(3) t i buf by (auto simp: gobSound_def trueResults_def)
    have "truthful may same truth (snd (putBytes i buf d))"
      unfolding truthful_def using may_put [OF m(2,3) l b(1)] tr b(2) unfolding truthful_def by fastforce
    then show ?thesis using put_ok [OF m(2) l] shaped_put [OF m(2,3) l b(1)] st1(2) b(2) by (simp add: usable_def)
  qed
  show "\<exists>err st' d'. savePkg C key issues p (st, d) = Some (err, st', d') \<and> usable (hashEnv C) (st', d') \<and> truthful may same truth d'"
    unfolding save using put u tr st1(2) m by (cases "gobEncode C (pkgIssues C issues p)"; cases "issueKey C rank key p") (auto simp: usable_def)
  assume none: "savePkg C key issues p (st, d) = Some (None, st', d')"
    and sn: "\<And>buf. gobEncode C (pkgIssues C issues p) = Inr buf \<Longrightarrow> sane buf d"
  obtain i buf where i: "issueKey C rank key p = Inr i" "gobEncode C (pkgIssues C issues p) = Inr buf" "putBytes i buf d = (None, d')"
    using none unfolding save by (auto split: sum.splits simp: prod_eq_iff)
  note l = issueKey_length [OF C(2) i(1)]
  have "stored d' i = Some buf" by (rule put_stores [OF m(2) l sn [OF i(2)] i(3)])
  then show "\<exists>i. issueKey C rank key p = Inr i \<and> stored d' i = truth i \<and> truth i \<noteq> None \<and>
      (\<forall>j s. stored d j = Some s \<and> truth j = Some s \<longrightarrow> stored d' j = Some s)"
    using i(1) put [OF i(1,2)] put_keeps [OF m(2) l sn [OF i(2)] i(3)] by (metis option.distinct(1) option.inject)
qed

lemma save_all:
  assumes C: "icPut C = putBytes" "hashesSound C rank" "gobSound C small"
  shows "usable (hashEnv C) (st, d) \<Longrightarrow> trueResults C rank key truth analyze ps \<Longrightarrow>
    \<forall>p \<in> set ps. pkgIssues C issues p = map (encodeIssue (moduleOf C p)) (analyze p) \<Longrightarrow> truthful may same truth d \<Longrightarrow>
    \<exists>log st' d'. savePkgs C key issues ps (st, d) = Some (log, st', d') \<and> usable (hashEnv C) (st', d') \<and> truthful may same truth d' \<and>
      (saneSaves sane C key issues ps (st, d) \<longrightarrow>
        (\<forall>p \<in> set ps. \<exists>i. issueKey C rank key p = Inr i \<and> stored d' i = truth i \<and> truth i \<noteq> None) \<and>
        (\<forall>j s. stored d j = Some s \<and> truth j = Some s \<longrightarrow> stored d' j = Some s))"
proof (induction ps arbitrary: st d)
  case (Cons p ps)
  have t: "trueResults C rank key truth analyze [p]" "trueResults C rank key truth analyze ps"
    "pkgIssues C issues p = map (encodeIssue (moduleOf C p)) (analyze p)" using Cons.prems by (auto simp: trueResults_def)
  obtain err st1 d1 where one: "savePkg C key issues p (st, d) = Some (err, st1, d1)" "usable (hashEnv C) (st1, d1)" "truthful may same truth d1"
    using save_one(1) [OF C Cons.prems(1) t(1,3) Cons.prems(4)] by blast
  obtain log st' d' where rest: "savePkgs C key issues ps (st1, d1) = Some (log, st', d')" "usable (hashEnv C) (st', d')" "truthful may same truth d'"
    and sv: "saneSaves sane C key issues ps (st1, d1) \<Longrightarrow>
        (\<forall>p \<in> set ps. \<exists>i. issueKey C rank key p = Inr i \<and> stored d' i = truth i \<and> truth i \<noteq> None) \<and>
        (\<forall>j s. stored d1 j = Some s \<and> truth j = Some s \<longrightarrow> stored d' j = Some s)"
    using Cons.IH [OF one(2) t(2) _ one(3)] Cons.prems(3) by auto
  have "(\<forall>p \<in> set (p # ps). \<exists>i. issueKey C rank key p = Inr i \<and> stored d' i = truth i \<and> truth i \<noteq> None) \<and>
        (\<forall>j s. stored d j = Some s \<and> truth j = Some s \<longrightarrow> stored d' j = Some s)"
    if sane: "saneSaves sane C key issues (p # ps) (st, d)"
  proof -
    obtain i where i: "issueKey C rank key p = Inr i" "stored d1 i = truth i" "truth i \<noteq> None"
      "\<forall>j s. stored d j = Some s \<and> truth j = Some s \<longrightarrow> stored d1 j = Some s"
      using save_one(2) [OF C Cons.prems(1) t(1,3) Cons.prems(4), of st1 d1] sane one(1) by auto
    have "saneSaves sane C key issues ps (st1, d1)" using sane one(1) by simp
    note sv = sv [OF this]
    have "stored d' i = truth i" using sv i(2,3) by (metis not_None_eq)
    then show ?thesis using sv i by auto
  qed
  then show ?case using one(1) rest by auto
qed simp

end

section \<open>Runs with the cache\<close>

definition issuesOf :: "nat \<Rightarrow> Issue list \<Rightarrow> Issue list" where
  "issuesOf p issues = filter (\<lambda>i. Pkg i = Some p) issues"

lemma issuesOf_append: "issuesOf p (xs @ ys) = issuesOf p xs @ issuesOf p ys"
  by (simp add: issuesOf_def)

lemma issuesOf_concat:
  assumes "distinct qs" "\<And>q i. q \<in> set qs \<Longrightarrow> i \<in> set (f q) \<Longrightarrow> Pkg i = Some q"
  shows "issuesOf p (concat (map f qs)) = (if p \<in> set qs then f p else [])"
  using assms
proof (induction qs)
  case (Cons q qs)
  have "issuesOf p (f q) = (if p = q then f q else [])" using Cons.prems(2) [of q] by (auto simp: issuesOf_def filter_empty_conv)
  moreover have "issuesOf p (concat (map f qs)) = (if p \<in> set qs then f p else [])"
    by (rule Cons.IH) (use Cons.prems in auto)
  ultimately show ?case using Cons.prems(1) by (auto simp: issuesOf_append)
qed (simp add: issuesOf_def)

text \<open>The analysis of a package does not depend on which other packages are analyzed with it. The run of the analyzers is a parameter here,
  since its actions are executed by analyzers that are not part of the program; that the collecting of their diagnostics keeps packages
  apart, although its removal of duplicates spans them, is \<open>extracted_per_package\<close> in \<open>Analysis_Results\<close>.\<close>

definition perPackage :: "'e AnalysisCfg \<Rightarrow> (nat \<Rightarrow> Issue list) \<Rightarrow> bool" where
  "perPackage cfg analyze \<longleftrightarrow> (\<forall>ps. distinct ps \<longrightarrow> snd (runAnalysis cfg ps) = [] \<longrightarrow> illTyped cfg [] = Inr [] \<and>
     (\<forall>p. issuesOf p (buildAllIssues cfg ps (fst (runAnalysis cfg ps))) = (if p \<in> set ps then analyze p else [])))"

definition held :: "'d IssueCache \<Rightarrow> (nat \<Rightarrow> nat) \<Rightarrow> string \<Rightarrow> (digest \<Rightarrow> string option) \<Rightarrow> nat \<Rightarrow> bool" where
  "held C rank key hs p \<longleftrightarrow> (\<exists>i buf. issueKey C rank key p = Inr i \<and> hs i = Some buf)"

definition chosenPackages :: "'e AnalysisCfg \<Rightarrow> nat list \<Rightarrow> nat list \<Rightarrow> nat list" where
  "chosenPackages cfg packages originalPackages = (if cfgUseOriginal cfg then originalPackages else packages)"

text \<open>A run without errors whose saves all succeed, and whose closing of the cache drops nothing.\<close>

definition runSaved ::
  "('d \<Rightarrow> digest \<Rightarrow> string option) \<Rightarrow> (string \<Rightarrow> 'd \<Rightarrow> bool) \<Rightarrow> 'd IssueCache \<Rightarrow> 'e AnalysisCfg \<Rightarrow> (nat list \<Rightarrow> nat list) \<Rightarrow>
   (nat list \<Rightarrow> nat list) \<Rightarrow> nat list \<Rightarrow> HashState \<times> 'd \<Rightarrow> bool" where
  "runSaved stored sane C cfg schedule order pkgs s =
     (case loadIssuesFromCache C schedule order pkgs (cfgAnalyzers cfg) s of
        None \<Rightarrow> False
      | Some (issues, pkgsFromCache, s) \<Rightarrow>
          (let todo = filter (\<lambda>p. p \<notin> pkgsFromCache) pkgs; (diags, errs) = runAnalysis cfg todo;
               issues = issues @ buildAllIssues cfg todo diags; key = getIssuesCacheKey (cfgAnalyzers cfg)
           in errs = [] \<and> saneSaves sane C key issues (schedule todo) s \<and>
              (case savePkgs C key issues (schedule todo) s of
                 None \<Rightarrow> False
               | Some (log, st, d) \<Rightarrow> stored (icClose C d) = stored d)))"

definition reorders :: "(nat list \<Rightarrow> nat list) \<Rightarrow> bool" where
  "reorders f \<longleftrightarrow> (\<forall>ps. mset (f ps) = mset ps)"

lemma reorders_simps: "reorders f \<Longrightarrow> set (f ps) = set ps" "reorders f \<Longrightarrow> distinct (f ps) \<longleftrightarrow> distinct ps"
  by (metis reorders_def mset_eq_setD) (metis reorders_def mset_eq_imp_distinct_iff)

context lasting_cache
begin

lemma loadResult_true:
  assumes "gobSound C small" "trueResults C rank key truth analyze ps" "p \<in> set ps" "truthful may same truth d" "noClash stored same truth d"
  shows "held C rank key (stored d) p \<Longrightarrow> loadResult C rank key (stored d) p = Inr (analyze p)"
    and "\<not> held C rank key (stored d) p \<Longrightarrow> \<exists>e. loadResult C rank key (stored d) p = Inl e"
proof -
  show "\<not> held C rank key (stored d) p \<Longrightarrow> \<exists>e. loadResult C rank key (stored d) p = Inl e"
    by (auto simp: held_def loadResult_def split: sum.splits option.splits)
  assume "held C rank key (stored d) p"
  then obtain i s where i: "issueKey C rank key p = Inr i" "stored d i = Some s" by (auto simp: held_def)
  obtain buf where buf: "gobEncode C (map (encodeIssue (moduleOf C p)) (analyze p)) = Inr buf" "truth i = Some buf"
    and m: "rootedModule (moduleOf C p)" "list_all (cacheable p) (analyze p)"
    using assms(2,3) i(1) unfolding trueResults_def by blast
  have "same buf s" using assms(4) may_stored [OF i(2)] buf(2) unfolding truthful_def by blast
  then have "s = buf" using assms(5) i(2) buf(2) unfolding noClash_def by blast
  moreover have "gobDecode C buf = Inr (map (encodeIssue (moduleOf C p)) (analyze p))"
    using assms(1) buf(1) by (auto simp: gobSound_def)
  ultimately show "loadResult C rank key (stored d) p = Inr (analyze p)"
    using i map_decode_encode [OF m] by (simp add: loadResult_def)
qed

lemma loadIssues_true:
  assumes C: "icGet C = getBytes" "hashesSound C rank" "gobSound C small" and o: "reorders schedule" "reorders order" "distinct ps"
    and key: "key = getIssuesCacheKey analyzers"
    and t: "trueResults C rank key truth analyze ps" "truthful may same truth d" "noClash stored same truth d"
    and u: "usable (hashEnv C) (st, d)"
  shows "\<exists>issues st' d'. loadIssuesFromCache C schedule order ps analyzers (st, d) =
      Some (issues, {p \<in> set ps. held C rank key (stored d) p}, st', d') \<and>
    usable (hashEnv C) (st', d') \<and> stored d' = stored d \<and> may d' = may d \<and>
    (\<forall>p. issuesOf p issues = (if p \<in> set ps \<and> held C rank key (stored d) p then analyze p else []))"
proof -
  let ?m = "\<lambda>p. if p \<in> set (schedule ps) then Some (loadResult C rank key (stored d) p) else Map.empty p"
  obtain st' d' where l: "loadPkgs C key (schedule ps) Map.empty (st, d) = Some (?m, st', d')"
    "usable (hashEnv C) (st', d')" "stored d' = stored d" "may d' = may d"
    using load_exact [OF C(1,2) u, of key "schedule ps" Map.empty] by blast
  note lr = loadResult_true [OF C(3) t(1) _ t(2,3)]
  have m: "loadedIssues ?m p = (if held C rank key (stored d) p then analyze p else [])"
    "(case ?m p of Some (Inr _) \<Rightarrow> True | _ \<Rightarrow> False) \<longleftrightarrow> held C rank key (stored d) p" if "p \<in> set ps" for p
    using lr [OF that] that reorders_simps(1) [OF o(1)] by (cases "held C rank key (stored d) p"; auto simp: loadedIssues_def)+
  have fc: "fromCache ?m ps = {p \<in> set ps. held C rank key (stored d) p}" unfolding fromCache_def set_filter using m(2) by blast
  let ?qs = "order (remdups ps)"
  have qs: "set ?qs = set ps" "distinct ?qs" using reorders_simps [OF o(2)] o(3) by simp_all
  have an: "i \<in> set (analyze q) \<Longrightarrow> q \<in> set ps \<Longrightarrow> Pkg i = Some q" for q i
    using t(1) by (auto simp: trueResults_def list_all_iff cacheable_def)
  have "issuesOf p (concat (map (loadedIssues ?m) ?qs)) = (if p \<in> set ?qs then loadedIssues ?m p else [])" for p
    using m(1) qs(1) an by (intro issuesOf_concat [OF qs(2)]) (auto split: if_splits)
  then have "issuesOf p (concat (map (loadedIssues ?m) ?qs)) = (if p \<in> set ps \<and> held C rank key (stored d) p then analyze p else [])" for p
    using m(1) qs(1) by simp
  then show ?thesis using l fc unfolding loadIssuesFromCache_def key by auto
qed

end

text \<open>What a run needs, in one predicate: hashes and encoding are sound, packages are distinct and analyzed one by one, and the
  key of a package determines its issues.\<close>

definition runSetup ::
  "'d IssueCache \<Rightarrow> (string \<Rightarrow> bool) \<Rightarrow> (nat \<Rightarrow> nat) \<Rightarrow> (digest \<rightharpoonup> string) \<Rightarrow> (nat \<Rightarrow> Issue list) \<Rightarrow> 'e AnalysisCfg \<Rightarrow>
   (nat list \<Rightarrow> nat list) \<Rightarrow> (nat list \<Rightarrow> nat list) \<Rightarrow> nat list \<Rightarrow> bool" where
  "runSetup C small rank truth analyze cfg schedule order pkgs \<longleftrightarrow>
     hashesSound C rank \<and> gobSound C small \<and> reorders schedule \<and> reorders order \<and> distinct pkgs \<and> perPackage cfg analyze \<and>
     trueResults C rank (getIssuesCacheKey (cfgAnalyzers cfg)) truth analyze pkgs"

context lasting_cache
begin

definition soundRun ::
  "'d IssueCache \<Rightarrow> (nat \<Rightarrow> nat) \<Rightarrow> (digest \<rightharpoonup> string) \<Rightarrow> (nat \<Rightarrow> Issue list) \<Rightarrow> 'e AnalysisCfg \<Rightarrow> (nat list \<Rightarrow> nat list) \<Rightarrow>
   (nat list \<Rightarrow> nat list) \<Rightarrow> nat list \<Rightarrow> bool" where
  "soundRun C rank truth analyze cfg schedule order pkgs \<longleftrightarrow>
     icGet C = getBytes \<and> icPut C = putBytes \<and> icClose C = closeCache \<and>
     runSetup C small rank truth analyze cfg schedule order pkgs"

definition soundCache :: "HashEnv \<Rightarrow> (digest \<rightharpoonup> string) \<Rightarrow> HashState \<times> 'd \<Rightarrow> bool" where
  "soundCache E truth s \<longleftrightarrow> usable E s \<and> truthful may same truth (snd s)"

lemma saveIssues_true:
  assumes r: "soundRun C rank truth analyze cfg schedule order pkgs" and s: "soundCache (hashEnv C) truth (st, d)"
    and key: "key = getIssuesCacheKey (cfgAnalyzers cfg)" and todo: "todo = filter (\<lambda>p. p \<notin> fc) pkgs"
    and iss: "\<forall>p \<in> set todo. issuesOf p issues = analyze p"
  shows "\<exists>log st' d1. savePkgs C key issues (schedule todo) (st, d) = Some (log, st', d1) \<and>
    saveIssuesToCache C schedule pkgs fc issues (cfgAnalyzers cfg) (st, d) = Some (log, st', closeCache d1) \<and>
    soundCache (hashEnv C) truth (st', closeCache d1) \<and>
    (saneSaves sane C key issues (schedule todo) (st, d) \<longrightarrow>
      (\<forall>p \<in> set todo. held C rank key (stored d1) p) \<and> (\<forall>j s. stored d j = Some s \<and> truth j = Some s \<longrightarrow> stored d1 j = Some s))"
proof -
  have C: "icPut C = putBytes" "hashesSound C rank" "gobSound C small" "icClose C = closeCache" "reorders schedule"
    and t: "trueResults C rank key truth analyze pkgs" using r key by (simp_all add: soundRun_def runSetup_def)
  have st: "set (schedule todo) \<subseteq> set pkgs" "set (schedule todo) = set todo" using reorders_simps(1) [OF C(5)] todo by auto
  have t': "trueResults C rank key truth analyze (schedule todo)" using t st(1) by (auto simp: trueResults_def)
  have is': "\<forall>p \<in> set (schedule todo). pkgIssues C issues p = map (encodeIssue (moduleOf C p)) (analyze p)"
    using iss st(2) by (simp add: pkgIssues_def issuesOf_def moduleOf_def)
  have u: "usable (hashEnv C) (st, d)" "truthful may same truth d" using s by (simp_all add: soundCache_def)
  obtain log st' d1 where sv: "savePkgs C key issues (schedule todo) (st, d) = Some (log, st', d1)"
      "usable (hashEnv C) (st', d1)" "truthful may same truth d1"
    and h: "saneSaves sane C key issues (schedule todo) (st, d) \<longrightarrow>
        (\<forall>p \<in> set (schedule todo). \<exists>i. issueKey C rank key p = Inr i \<and> stored d1 i = truth i \<and> truth i \<noteq> None) \<and>
        (\<forall>j s. stored d j = Some s \<and> truth j = Some s \<longrightarrow> stored d1 j = Some s)"
    using save_all [OF C(1-3) u(1) t' is' u(2)] by blast
  have "soundCache (hashEnv C) truth (st', closeCache d1)"
    using sv(2,3) close_keeps may_close unfolding soundCache_def usable_def truthful_def fst_conv snd_conv by metis
  moreover have "saveIssuesToCache C schedule pkgs fc issues (cfgAnalyzers cfg) (st, d) = Some (log, st', closeCache d1)"
    using sv(1) C(4) key todo by (simp add: saveIssuesToCache_def)
  moreover have "held C rank key (stored d1) p" if "saneSaves sane C key issues (schedule todo) (st, d)" "p \<in> set todo" for p
    using h that st(2) by (auto simp: held_def)
  ultimately show ?thesis using sv(1) h by blast
qed

lemma run_true:
  assumes r: "soundRun C rank truth analyze cfg schedule order pkgs" and p: "pkgs = chosenPackages cfg packages originalPackages"
    and s: "soundCache (hashEnv C) truth (st, d)" and n: "noClash stored same truth d"
    and key: "key = getIssuesCacheKey (cfgAnalyzers cfg)" and todo: "todo = filter (\<lambda>p. \<not> held C rank key (stored d) p) pkgs"
  shows "\<exists>ret st' d'. runAnalyzers C cfg schedule order packages originalPackages (st, d) = Some (ret, todo, st', d') \<and>
    soundCache (hashEnv C) truth (st', d') \<and>
    (snd (runAnalysis cfg todo) = [] \<longrightarrow> (\<exists>issues. ret = Inr issues \<and> (\<forall>p \<in> set pkgs. issuesOf p issues = analyze p))) \<and>
    (snd (runAnalysis cfg todo) \<noteq> [] \<longrightarrow> stored d' = stored d) \<and>
    (runSaved stored sane C cfg schedule order pkgs (st, d) \<longrightarrow> (\<forall>p \<in> set pkgs. held C rank key (stored d') p))"
proof -
  have C: "icGet C = getBytes" "hashesSound C rank" "gobSound C small" and o: "reorders schedule" "reorders order" "distinct pkgs"
    and t: "trueResults C rank key truth analyze pkgs" "perPackage cfg analyze" using r key by (simp_all add: soundRun_def runSetup_def)
  have u: "usable (hashEnv C) (st, d)" "truthful may same truth d" using s by (simp_all add: soundCache_def)
  let ?fc = "{p \<in> set pkgs. held C rank key (stored d) p}"
  obtain cachedIssues st1 d1 where l: "loadIssuesFromCache C schedule order pkgs (cfgAnalyzers cfg) (st, d) = Some (cachedIssues, ?fc, st1, d1)"
    and d1: "usable (hashEnv C) (st1, d1)" "stored d1 = stored d" "may d1 = may d"
    and ci: "\<And>p. issuesOf p cachedIssues = (if p \<in> set pkgs \<and> held C rank key (stored d) p then analyze p else [])"
    using loadIssues_true [OF C o key t(1) u(2) n u(1)] by blast
  have td: "filter (\<lambda>p. p \<notin> ?fc) pkgs = todo" using todo by (auto intro: filter_cong)
  obtain diags errs where a: "runAnalysis cfg todo = (diags, errs)" by fastforce
  have sc: "soundCache (hashEnv C) truth (st1, d1)" using d1 u(2) by (simp add: soundCache_def truthful_def)
  show ?thesis
  proof (cases "errs = []")
    case False
    then obtain ret where "runAnalyzers C cfg schedule order packages originalPackages (st, d) = Some (ret, todo, st1, d1)"
      unfolding runAnalyzers_def Let_def using l td a p
      by (cases "illTyped cfg errs") (auto simp: chosenPackages_def Let_def split: if_splits)
    moreover have "\<not> runSaved stored sane C cfg schedule order pkgs (st, d)" using l td a False by (simp add: runSaved_def)
    ultimately show ?thesis using sc d1 a False by auto
  next
    case True
    let ?new = "buildAllIssues cfg todo diags"
    have pp: "illTyped cfg [] = Inr []" "\<And>p. issuesOf p ?new = (if p \<in> set todo then analyze p else [])"
      using t(2) a True o(3) todo unfolding perPackage_def by (metis distinct_filter fst_conv snd_conv)+
    have iss: "\<forall>p \<in> set pkgs. issuesOf p (cachedIssues @ ?new) = analyze p" using ci pp(2) todo by (auto simp: issuesOf_append)
    then have iss': "\<forall>p \<in> set todo. issuesOf p (cachedIssues @ ?new) = analyze p" using todo by simp
    obtain log st' d2 where sv: "savePkgs C key (cachedIssues @ ?new) (schedule todo) (st1, d1) = Some (log, st', d2)"
      "saveIssuesToCache C schedule pkgs ?fc (cachedIssues @ ?new) (cfgAnalyzers cfg) (st1, d1) = Some (log, st', closeCache d2)"
      "soundCache (hashEnv C) truth (st', closeCache d2)"
      and h: "saneSaves sane C key (cachedIssues @ ?new) (schedule todo) (st1, d1) \<longrightarrow>
        (\<forall>p \<in> set todo. held C rank key (stored d2) p) \<and> (\<forall>j s. stored d1 j = Some s \<and> truth j = Some s \<longrightarrow> stored d2 j = Some s)"
      using saveIssues_true [OF r sc key td [symmetric] iss'] by blast
    have run: "runAnalyzers C cfg schedule order packages originalPackages (st, d) = Some (Inr (cachedIssues @ ?new), todo, st', closeCache d2)"
      unfolding runAnalyzers_def Let_def using l td a p pp(1) sv(2) True by (auto simp: chosenPackages_def Let_def split: if_splits)
    have "held C rank key (stored (closeCache d2)) q" if saved: "runSaved stored sane C cfg schedule order pkgs (st, d)" and q: "q \<in> set pkgs" for q
    proof -
      have ss: "saneSaves sane C key (cachedIssues @ ?new) (schedule todo) (st1, d1)" "stored (closeCache d2) = stored d2"
        using saved l td a key sv(1) r by (simp_all add: runSaved_def Let_def soundRun_def runSetup_def)
      show ?thesis
      proof (cases "held C rank key (stored d) q")
        case True
        then obtain i buf where i: "issueKey C rank key q = Inr i" "stored d i = Some buf" by (auto simp: held_def)
        then obtain b where "truth i = Some b" using t(1) q unfolding trueResults_def by blast
        then have "truth i = Some buf"
          using u(2) n may_stored [OF i(2)] i(2) unfolding truthful_def noClash_def by (metis option.inject)
        then show ?thesis using h ss i d1(2) by (auto simp: held_def)
      next
        case False
        then show ?thesis using h ss q todo by simp
      qed
    qed
    then show ?thesis using run sv(3) iss a True by auto
  qed
qed

end

section \<open>The cache of issues on disk\<close>

definition diskIssues ::
  "DiskCache \<Rightarrow> (string \<Rightarrow> digest) \<Rightarrow> IO \<Rightarrow> IO \<Rightarrow> Locked \<Rightarrow> (string \<Rightarrow> string list) \<Rightarrow> HashEnv \<Rightarrow> nat \<Rightarrow>
   (EncodingIssue list \<Rightarrow> string + string) \<Rightarrow> (string \<Rightarrow> string + EncodingIssue list) \<Rightarrow> disk IssueCache" where
  "diskIssues c sha256 io io' lk names E n enc dec =
     \<lparr>icGet = diskGet c sha256 io', icPut = PutBytes c sha256 io, icClose = diskClose c io lk names,
      gobEncode = enc, gobDecode = dec, hashEnv = E, hashFuel = n\<rparr>"

abbreviation sameDigest :: "(string \<Rightarrow> digest) \<Rightarrow> string \<Rightarrow> string \<Rightarrow> bool" where
  "sameDigest sha256 s s' \<equiv> sha256 s = sha256 s'"

abbreviation shortBytes :: "string \<Rightarrow> bool" where
  "shortBytes s \<equiv> int63 (int (length s))"

text \<open>Between two runs: remembered hashes are correct, the files of the cache are in shape, no write of an index entry is torn, and
  every index entry of the key of a package names the digest of the true issues.\<close>

definition soundDisk :: "DiskCache \<Rightarrow> (string \<Rightarrow> digest) \<Rightarrow> IO \<Rightarrow> IO \<Rightarrow> HashEnv \<Rightarrow> (digest \<rightharpoonup> string) \<Rightarrow> HashState \<times> disk \<Rightarrow> bool" where
  "soundDisk c sha256 io io' E truth s \<longleftrightarrow> memoOk E (fst s) \<and> diskOk c sha256 io' (snd s) \<and> diskShaped c io (snd s) \<and>
     truthful (mayAnswer c sha256) (sameDigest sha256) truth (snd s)"

lemma soundDisk_lasting:
  "soundDisk c sha256 io io' E truth s \<longleftrightarrow> lasting_disk.soundCache c sha256 io' io E truth s"
  by (simp add: soundDisk_def lasting_disk.soundCache_def lasting_disk.usable_def)

lemma diskIssues_run:
  "runSetup (diskIssues c sha256 io io' lk names E n enc dec) shortBytes rank truth analyze cfg schedule order pkgs \<Longrightarrow>
   lasting_disk.soundRun c sha256 io' io lk names (diskIssues c sha256 io io' lk names E n enc dec) rank truth analyze cfg schedule order pkgs"
  by (simp add: lasting_disk.soundRun_def diskIssues_def)

lemma diskIssues_hashEnv [simp]: "hashEnv (diskIssues c sha256 io io' lk names E n enc dec) = E"
  by (simp add: diskIssues_def)

lemma issueKey_diskIssues:
  "held (diskIssues c sha256 io io' lk names E n enc dec) rank = held (diskIssues c sha256 io2 io2' lk2 names2 E n enc dec) rank"
  by (simp add: held_def issueKey_def fun_eq_iff)

lemma disk_run:
  assumes "C = diskIssues c sha256 io io' lk names E n enc dec" "pkgs = chosenPackages cfg packages originalPackages"
    and "runSetup C shortBytes rank truth analyze cfg schedule order pkgs"
    and "soundDisk c sha256 io io' E truth (st, d)" "noClash (cached c sha256) (sameDigest sha256) truth d"
    and "todo = filter (\<lambda>p. \<not> held C rank (getIssuesCacheKey (cfgAnalyzers cfg)) (cached c sha256 d) p) pkgs"
  shows "\<exists>ret st' d'. runAnalyzers C cfg schedule order packages originalPackages (st, d) = Some (ret, todo, st', d') \<and>
    soundDisk c sha256 io io' E truth (st', d') \<and>
    (snd (runAnalysis cfg todo) = [] \<longrightarrow> (\<exists>issues. ret = Inr issues \<and> (\<forall>p \<in> set pkgs. issuesOf p issues = analyze p))) \<and>
    (snd (runAnalysis cfg todo) \<noteq> [] \<longrightarrow> cached c sha256 d' = cached c sha256 d) \<and>
    (runSaved (cached c sha256) (sanePut c sha256 io) C cfg schedule order pkgs (st, d) \<longrightarrow>
      (\<forall>p \<in> set pkgs. held C rank (getIssuesCacheKey (cfgAnalyzers cfg)) (cached c sha256 d') p))"
proof -
  have s: "lasting_disk.soundCache c sha256 io' io (hashEnv C) truth (st, d)" using assms(1,4) by (simp add: soundDisk_lasting)
  show ?thesis
    using lasting_disk.run_true [OF diskIssues_run [OF assms(3) [unfolded assms(1)]] assms(2) s [unfolded assms(1)] assms(5) refl
        assms(6) [unfolded assms(1)]]
    unfolding assms(1) soundDisk_lasting diskIssues_hashEnv .
qed

section \<open>Properties\<close>

text \<open>An analyzer that reports one diagnostic per package, and an encoder that knows the issues it leads to.\<close>

definition exampleDiag :: "nat \<Rightarrow> Diagnostic" where
  "exampleDiag p = \<lparr>dgAnalyzer = ''a'', dgMessage = ''m'', dgPosition = \<lparr>Filename = ''/x/2.go'', Offset = 0, Line = 1, Column = 1\<rparr>, dgPkg = p,
     dgFile = \<lparr>fileNameOf = ''/x/2.go'', fileBase = 1, fileSize = 9\<rparr>, dgFixes = [], dgRelated = []\<rparr>"

definition exampleRunCfg :: "string AnalysisCfg" where
  "exampleRunCfg = \<lparr>cfgName = ''goanalysis'', cfgAnalyzers = [''a''], cfgUseOriginal = False, cfgLinterOfDiag = (\<lambda>_. ''a''),
     cfgReported = (\<lambda>_. []), runAnalysis = (\<lambda>ps. (map exampleDiag ps, [])), illTyped = (\<lambda>_. Inr []),
     fsetPositionOf = (\<lambda>_ _. \<lparr>Filename = [], Offset = 0, Line = 0, Column = 0\<rparr>)\<rparr>"

definition exampleIssues :: "nat \<Rightarrow> Issue list" where
  "exampleIssues p = diagnosticIssues (fsetPositionOf exampleRunCfg) (\<lambda>_. ''a'') (exampleDiag p)"

definition exampleEncoded :: "EncodingIssue list" where
  "exampleEncoded = map (encodeIssue (pkgModule (graph (exampleEnv firstBytes ''/x'') 1))) (exampleIssues 1)"

definition exampleEnc :: "EncodingIssue list \<Rightarrow> string + string" where
  "exampleEnc v = (if v = exampleEncoded then Inr ''x'' else Inl ''unknown type'')"

definition exampleDec :: "string \<Rightarrow> string + EncodingIssue list" where
  "exampleDec s = (if s = ''x'' then Inr exampleEncoded else Inl ''EOF'')"

definition exampleIssueStore :: "int \<Rightarrow> disk IssueCache" where
  "exampleIssueStore now = diskIssues exampleCache firstBytes (quietIO now) (quietIO now) \<lparr>lockReadErr = None, lockWriteErr = Some (True, ''unsupported'')\<rparr>
     (\<lambda>_. []) (exampleEnv firstBytes ''/x'') 2 exampleEnc exampleDec"

lemma example_perPackage: "perPackage exampleRunCfg exampleIssues"
proof -
  have pk: "Pkg i = Some q" if "i \<in> set (exampleIssues q)" for q i
    using that by (auto simp: exampleIssues_def diagnosticIssues_def exampleDiag_def newIssue_def Let_def)
  have "issuesOf p (buildAllIssues exampleRunCfg ps (map exampleDiag ps)) = (if p \<in> set ps then exampleIssues p else [])" if "distinct ps" for p ps
  proof -
    have "buildAllIssues exampleRunCfg ps (map exampleDiag ps) = concat (map exampleIssues ps)"
      by (simp add: buildAllIssues_def buildIssues_def exampleRunCfg_def exampleIssues_def [abs_def] comp_def)
    then show ?thesis using issuesOf_concat [OF that, of exampleIssues p] pk by simp
  qed
  then show ?thesis by (simp add: perPackage_def exampleRunCfg_def)
qed

lemma example_setup:
  "runSetup (exampleIssueStore now) shortBytes exampleRank (\<lambda>_. Some ''x'') exampleIssues exampleRunCfg id rev [1]"
proof -
  have "Clean ''/x/2.go'' = ''/x/2.go''" by code_simp
  then have "list_all (cacheable 1) (exampleIssues 1)"
    by (simp add: exampleIssues_def diagnosticIssues_def exampleDiag_def newIssue_def cacheable_def Let_def FilepathIsAbs_def HasPrefix_def slash_def)
  moreover have "rootedModule (moduleOf (exampleIssueStore now) 1)"
    by (simp add: rootedModule_def moduleOf_def exampleIssueStore_def exampleEnv_def examplePackage_def FilepathIsAbs_def HasPrefix_def slash_def)
  moreover have "map (encodeIssue (moduleOf (exampleIssueStore now) 1)) (exampleIssues 1) = exampleEncoded"
    by (simp add: exampleEncoded_def moduleOf_def exampleIssueStore_def)
  moreover have "hashesSound (exampleIssueStore now) exampleRank"
    using example_ranked example_sane(1)
    by (simp add: hashesSound_def exampleIssueStore_def diskIssues_def exampleRank_def example_env)
  moreover have "gobSound (exampleIssueStore now) shortBytes"
    by (auto simp: gobSound_def exampleIssueStore_def diskIssues_def exampleEnc_def exampleDec_def int63_def split: if_splits)
  ultimately show ?thesis
    using example_perPackage
    by (simp add: runSetup_def trueResults_def reorders_def exampleIssueStore_def diskIssues_def exampleEnc_def)
qed

lemma example_empty:
  "soundDisk exampleCache firstBytes (quietIO 7) (quietIO 7) (exampleEnv firstBytes ''/x'') truth (emptyState, Map.empty)"
  "noClash (cached exampleCache firstBytes) (sameDigest firstBytes) truth Map.empty"
  using emptyState_ok example_ok example_sane
  by (auto simp: soundDisk_def diskOk_def diskShaped_def untorn_def quietIO_def int63_def indexShape_def truthful_def mayAnswer_def
      noClash_def cached_def indexEntry_def)

lemma example_key: "\<exists>i. issueKey (exampleIssueStore now) exampleRank key 1 = Inr i"
proof -
  obtain ks where "theKeys (exampleEnv firstBytes ''/x'') exampleRank 1 = Inr ks"
    by (simp add: theKeys_def exampleRank_def example_graph example_env example_sources example_imports)
  then show ?thesis by (simp add: issueKey_def keyOf_def exampleIssueStore_def)
qed

lemma example_put_empty: "\<exists>d1. PutBytes exampleCache firstBytes (quietIO 7) i ''x'' Map.empty = (None, d1)"
  by (simp add: DiskCache_put_bytes copyFile_def presentOutput_def osStat_def osOpenFile_def writeOutput_def bytesReader_def
      putIndexEntry_def fileTruncate_def osChtimes_def setContent_def exampleCache_def quietIO_def Let_def)

lemma example_get_empty: "diskGet exampleCache firstBytes (quietIO n) i Map.empty = (Inl (EntryNotFound (OsReason notExist)), Map.empty)"
  by (simp add: diskGet_def GetBytes_def DiskCache_Get_def DiskCache_get_def osOpen_def quietIO_def exampleCache_def Let_def)

lemma example_store:
  "icGet (exampleIssueStore now) = diskGet exampleCache firstBytes (quietIO now)" "icPut (exampleIssueStore now) = PutBytes exampleCache firstBytes (quietIO now)"
  "icClose (exampleIssueStore now) d = d" "hashEnv (exampleIssueStore now) = exampleEnv firstBytes ''/x''" "hashFuel (exampleIssueStore now) = 2"
  "gobEncode (exampleIssueStore now) = exampleEnc" "gobDecode (exampleIssueStore now) = exampleDec"
  by (simp_all add: exampleIssueStore_def diskIssues_def diskClose_def DiskCache_Close_def DiskCache_Trim_def trimFile_def contentOf_def Let_def
      split: option.splits)

lemma example_first_run:
  assumes i: "issueKey (exampleIssueStore 7) exampleRank (getIssuesCacheKey [''a'']) 1 = Inr i"
    and d1: "PutBytes exampleCache firstBytes (quietIO 7) i ''x'' Map.empty = (None, d1)"
  shows "runSaved (cached exampleCache firstBytes) (sanePut exampleCache firstBytes (quietIO 7)) (exampleIssueStore 7) exampleRunCfg id rev [1]
      (emptyState, Map.empty)"
    and "\<exists>ret st. runAnalyzers (exampleIssueStore 7) exampleRunCfg id rev [1] [] (emptyState, Map.empty) = Some (ret, [1], st, d1)"
proof -
  let ?C = "exampleIssueStore 7" and ?key = "getIssuesCacheKey [''a'']"
  have hs: "hashesSound ?C exampleRank" using example_setup by (simp add: runSetup_def)
  obtain st1 where st1: "buildKey 2 (exampleEnv firstBytes ''/x'') 1 HashModeNeedAllDeps ?key emptyState = Some (Inr i, st1)"
    "memoOk (exampleEnv firstBytes ''/x'') st1"
    using issueKey_cases [OF hs, of emptyState 1 ?key] emptyState_ok i unfolding example_store by metis
  obtain st2 where st2: "buildKey 2 (exampleEnv firstBytes ''/x'') 1 HashModeNeedAllDeps ?key st1 = Some (Inr i, st2)"
    using issueKey_cases [OF hs, of st1 1 ?key] st1(2) i unfolding example_store by metis
  have load: "loadIssuesFromCache ?C id rev [1] [''a''] (emptyState, Map.empty) = Some ([], {}, st1, Map.empty)"
    using st1(1) example_get_empty
    by (simp add: loadIssuesFromCache_def Cache_Get_def example_store loadedIssues_def fromCache_def IsErrMissing_def)
  have new: "buildAllIssues exampleRunCfg [1] [exampleDiag 1] = exampleIssues 1"
    by (simp add: buildAllIssues_def buildIssues_def exampleRunCfg_def exampleIssues_def)
  have "filter (\<lambda>i. Pkg i = Some 1) (exampleIssues 1) = exampleIssues 1"
    by (simp add: exampleIssues_def diagnosticIssues_def exampleDiag_def newIssue_def Let_def)
  then have enc: "exampleEnc (pkgIssues ?C (exampleIssues 1) 1) = Inr ''x''"
    by (simp add: pkgIssues_def exampleEnc_def exampleEncoded_def example_store)
  then have save: "savePkg ?C ?key (exampleIssues 1) 1 (st1, Map.empty) = Some (None, st2, d1)"
    using st2 d1 by (simp add: savePkg_def Cache_Put_def example_store)
  have sp: "sanePut exampleCache firstBytes (quietIO 7) ''x'' Map.empty"
    by (simp add: quietIO_def sanePut_def notBusy_def noCollision_def outputBytes_def int63_def)
  have cfg: "cfgAnalyzers exampleRunCfg = [''a'']" "runAnalysis exampleRunCfg ps = (map exampleDiag ps, [])" "illTyped exampleRunCfg e = Inr []"
    "cfgUseOriginal exampleRunCfg = False" for ps e by (simp_all add: exampleRunCfg_def)
  show "runSaved (cached exampleCache firstBytes) (sanePut exampleCache firstBytes (quietIO 7)) ?C exampleRunCfg id rev [1] (emptyState, Map.empty)"
    using load new save enc sp by (simp add: runSaved_def cfg example_store)
  show "\<exists>ret st. runAnalyzers ?C exampleRunCfg id rev [1] [] (emptyState, Map.empty) = Some (ret, [1], st, d1)"
    using load new save by (simp add: runAnalyzers_def saveIssuesToCache_def cfg example_store Let_def)
qed

text \<open>C28: The cache of issues cannot be noticed in the report. In every run, with whatever the cache on disk holds of earlier
  runs, exactly the packages without an entry are analyzed, and if their analysis has no errors then the report has for every
  package exactly the issues of its analysis, in order. With errors nothing is stored. In both cases, whatever
  stores fail and whatever trimming removes, the cache stays sound for the next run, so this holds run after run.\<close>

theorem cached_run_reports_analysis:
  assumes "C = diskIssues c sha256 io io' lk names E n enc dec" "pkgs = chosenPackages cfg packages originalPackages"
    and "runSetup C shortBytes rank truth analyze cfg schedule order pkgs"
    and "soundDisk c sha256 io io' E truth (st, d)" "noClash (cached c sha256) (sameDigest sha256) truth d"
    and "todo = filter (\<lambda>p. \<not> held C rank (getIssuesCacheKey (cfgAnalyzers cfg)) (cached c sha256 d) p) pkgs"
  shows "\<exists>ret st' d'. runAnalyzers C cfg schedule order packages originalPackages (st, d) = Some (ret, todo, st', d') \<and>
    soundDisk c sha256 io io' E truth (st', d') \<and>
    (snd (runAnalysis cfg todo) = [] \<longrightarrow> (\<exists>issues. ret = Inr issues \<and> (\<forall>p \<in> set pkgs. issuesOf p issues = analyze p))) \<and>
    (snd (runAnalysis cfg todo) \<noteq> [] \<longrightarrow> cached c sha256 d' = cached c sha256 d)"
  using disk_run [OF assms] by blast

theorem cached_run_reports_analysis_witness:
  "\<exists>ret todo st' d'. runAnalyzers (exampleIssueStore 7) exampleRunCfg id rev [1] [] (emptyState, Map.empty) = Some (ret, todo, st', d') \<and>
     (\<exists>issues. ret = Inr issues \<and> issuesOf 1 issues = exampleIssues 1)"
  using cached_run_reports_analysis [OF exampleIssueStore_def _ example_setup example_empty refl, of "[1]" "[]"]
  by (auto simp: chosenPackages_def exampleRunCfg_def)

text \<open>C29: After a run that saved its issues, the next run over unchanged sources analyzes nothing: when no store failed and closing the
  cache dropped nothing, then a second run, at another time and in other orders, takes every package from the cache
  and reports for every package the issues of the first run.\<close>

theorem second_run_analyzes_nothing:
  assumes "C = diskIssues c sha256 io io' lk names E n enc dec" "C2 = diskIssues c sha256 io2 io2' lk2 names2 E n enc dec"
    and "pkgs = chosenPackages cfg packages originalPackages" "snd (runAnalysis cfg []) = []"
    and "runSetup C shortBytes rank truth analyze cfg schedule order pkgs" "reorders schedule2" "reorders order2"
    and "soundDisk c sha256 io io' E truth (st, d)" "noClash (cached c sha256) (sameDigest sha256) truth d"
    and "runSaved (cached c sha256) (sanePut c sha256 io) C cfg schedule order pkgs (st, d)"
    and "runAnalyzers C cfg schedule order packages originalPackages (st, d) = Some (ret, todo, st1, d1)"
    and "soundDisk c sha256 io2 io2' E truth (st2, d1)" "noClash (cached c sha256) (sameDigest sha256) truth d1"
  shows "\<exists>issues issues2 st2' d2. ret = Inr issues \<and>
    runAnalyzers C2 cfg schedule2 order2 packages originalPackages (st2, d1) = Some (Inr issues2, [], st2', d2) \<and>
    (\<forall>p \<in> set pkgs. issuesOf p issues2 = issuesOf p issues)"
proof -
  let ?key = "getIssuesCacheKey (cfgAnalyzers cfg)"
  let ?todo = "filter (\<lambda>p. \<not> held C rank ?key (cached c sha256 d) p) pkgs"

  have run1: "ret = Inr issues \<Longrightarrow> \<forall>p \<in> set pkgs. issuesOf p issues = analyze p" "\<exists>issues. ret = Inr issues"
    "\<forall>p \<in> set pkgs. held C rank ?key (cached c sha256 d1) p" for issues
  proof -
    have "runSaved (cached c sha256) (sanePut c sha256 io) C cfg schedule order pkgs (st, d) \<Longrightarrow> snd (runAnalysis cfg todo) = []"
      using assms(10,11) by (auto simp: runSaved_def runAnalyzers_def chosenPackages_def assms(3) Let_def split: option.splits prod.splits if_splits sum.splits)
    note e = this [OF assms(10)]
    note r = disk_run [OF assms(1,3,5,8,9) refl]
    show "ret = Inr issues \<Longrightarrow> \<forall>p \<in> set pkgs. issuesOf p issues = analyze p" "\<exists>issues. ret = Inr issues"
      "\<forall>p \<in> set pkgs. held C rank ?key (cached c sha256 d1) p"
      using r assms(10,11) e by auto
  qed
  have setup2: "runSetup C2 shortBytes rank truth analyze cfg schedule2 order2 pkgs"
    using assms(5,6,7) unfolding assms(1,2)
    by (simp add: runSetup_def hashesSound_def gobSound_def trueResults_def issueKey_def moduleOf_def diskIssues_def)
  have none: "filter (\<lambda>p. \<not> held C2 rank ?key (cached c sha256 d1) p) pkgs = []"
    using run1(3) issueKey_diskIssues unfolding assms(1,2) by (metis (no_types, lifting) filter_False)
  show ?thesis
    using disk_run [OF assms(2,3) setup2 assms(12,13) none [symmetric]] run1(1,2) assms(4) by auto
qed

theorem second_run_analyzes_nothing_witness:
  "\<exists>issues issues2 st1 d1 st2 d2.
     runAnalyzers (exampleIssueStore 7) exampleRunCfg id rev [1] [] (emptyState, Map.empty) = Some (Inr issues, [1], st1, d1) \<and>
     runAnalyzers (exampleIssueStore 9) exampleRunCfg rev id [1] [] (emptyState, d1) = Some (Inr issues2, [], st2, d2) \<and>
     issuesOf 1 issues2 = issuesOf 1 issues"
proof -
  obtain i where i: "issueKey (exampleIssueStore 7) exampleRank (getIssuesCacheKey [''a'']) 1 = Inr i" using example_key by blast
  obtain d1 where d1: "PutBytes exampleCache firstBytes (quietIO 7) i ''x'' Map.empty = (None, d1)" using example_put_empty by blast
  obtain ret st where run: "runAnalyzers (exampleIssueStore 7) exampleRunCfg id rev [1] [] (emptyState, Map.empty) = Some (ret, [1], st, d1)"
    using example_first_run(2) [OF i d1] by blast
  let ?truth = "[i \<mapsto> ''x'']"
  have su: "runSetup (exampleIssueStore 7) shortBytes exampleRank ?truth exampleIssues exampleRunCfg id rev [1]"
    using example_setup [of 7] i by (auto simp: runSetup_def trueResults_def exampleRunCfg_def)
  have li: "length i = HashSize" using issueKey_length [OF _ i] su by (simp add: runSetup_def)
  have sp: "sanePut exampleCache firstBytes (quietIO 7) ''x'' Map.empty"
    by (simp add: quietIO_def sanePut_def notBusy_def noCollision_def outputBytes_def int63_def)
  have nc: "noClash (cached exampleCache firstBytes) (sameDigest firstBytes) ?truth d1"
    using PutBytes_stores(1) [OF example_ok li example_sane(3) d1 sp] by (auto simp: noClash_def split: if_splits)
  have pk: "[1] = chosenPackages exampleRunCfg [1] []" by (simp add: chosenPackages_def exampleRunCfg_def)
  have "soundDisk exampleCache firstBytes (quietIO 7) (quietIO 7) (exampleEnv firstBytes ''/x'') ?truth (st, d1)"
    using disk_run [OF exampleIssueStore_def pk su example_empty refl] run by auto
  then have s2: "soundDisk exampleCache firstBytes (quietIO 9) (quietIO 9) (exampleEnv firstBytes ''/x'') ?truth (emptyState, d1)"
    using emptyState_ok by (auto simp: soundDisk_def diskOk_def diskShaped_def readable_def untorn_def quietIO_def int63_def)
  show ?thesis
    using second_run_analyzes_nothing [OF exampleIssueStore_def exampleIssueStore_def pk _ su _ _ example_empty
        example_first_run(1) [OF i d1] run s2 nc, of rev id]
    using run by (auto simp: exampleRunCfg_def reorders_def)
qed

end
