(* ===== verification/Analysis_Results.thy ===== *)
theory Analysis_Results
  imports Pkg_Release Scheduler_Metrics Issues_Cache
begin

text \<open>
  The end of an analysis (\<open>pkg/goanalysis/runner.go\<close>, \<open>runners.go\<close>): the diagnostics and errors of the actions that the roots
  depend on, the statistics per analyzer, and the report about the run for the lifecycle recorder.

  What an action ended with, its error, its diagnostics with their positions and its duration, is an argument. When
  the results are extracted, the executed actions have lost their dependencies (\<open>decUse\<close>), so that the visit goes
  on only below actions that were not executed. It has fuel, which is enough when it exceeds the depth of the graph.
\<close>

section \<open>Diagnostics\<close>

datatype act_error = PanicError string | AnalysisError string

record RawDiag =
  rdPosition :: Position
  rdMessage :: string
  rdFile :: TokenFile
  rdFixes :: "(string \<times> DiagEdit list) list"
  rdRelated :: "(int \<times> string) list"

record ActionResult =
  resErr :: "act_error option"
  resDiags :: "RawDiag list"
  resDuration :: int

type_synonym diagKey = "Position \<times> nat \<times> string"

record Extracted =
  seenKeys :: "diagKey set"
  retDiags :: "Diagnostic list"
  retErrors :: "(string \<times> string) list"

definition noneExtracted :: Extracted where
  "noneExtracted = \<lparr>seenKeys = {}, retDiags = [], retErrors = []\<rparr>"

definition diagKeyOf :: "action \<Rightarrow> RawDiag \<Rightarrow> diagKey" where
  "diagKeyOf act diag = (rdPosition diag, actAnalyzer act, rdMessage diag)"

definition newDiagnostic :: "GraphEnv \<Rightarrow> action \<Rightarrow> RawDiag \<Rightarrow> Diagnostic" where
  "newDiagnostic G act diag = \<lparr>dgAnalyzer = anName (analyzer G (actAnalyzer act)), dgMessage = rdMessage diag, dgPosition = rdPosition diag,
     dgPkg = actPackage act, dgFile = rdFile diag, dgFixes = rdFixes diag, dgRelated = rdRelated diag\<rparr>"

definition extractDiag :: "GraphEnv \<Rightarrow> action \<Rightarrow> RawDiag \<Rightarrow> Extracted \<Rightarrow> Extracted" where
  "extractDiag G act diag x =
     (let k = diagKeyOf act diag in
      if k \<in> seenKeys x then x
      else x\<lparr>seenKeys := insert k (seenKeys x), retDiags := retDiags x @ [newDiagnostic G act diag]\<rparr>)"

definition extractAct :: "GraphEnv \<Rightarrow> GraphState \<Rightarrow> (nat \<Rightarrow> ActionResult) \<Rightarrow> nat \<Rightarrow> Extracted \<Rightarrow> ((string + unit) \<times> Extracted)" where
  "extractAct G s results i x =
     (let act = allocatedActions s ! i in
      case resErr (results i) of
        Some (PanicError e) \<Rightarrow> (Inl e, x)
      | Some (AnalysisError e) \<Rightarrow> (Inr (), x\<lparr>retErrors := retErrors x @ [(anName (analyzer G (actAnalyzer act)), e)]\<rparr>)
      | None \<Rightarrow> (Inr (), if IsRoot act then fold (extractDiag G act) (resDiags (results i)) x else x))"

text \<open>The actions after the analysis: those with a pass have no dependencies left.\<close>

definition clearActions :: "nat set \<Rightarrow> GraphState \<Rightarrow> GraphState" where
  "clearActions executed s = s\<lparr>allocatedActions :=
     map (\<lambda>(i, act). if i \<in> executed then act\<lparr>actDeps := []\<rparr> else act) (enumerate 0 (allocatedActions s))\<rparr>"

text \<open>The dependencies of an action: pointers into the array of actions, which are always in range.\<close>

definition depsAt :: "GraphState \<Rightarrow> nat \<Rightarrow> nat list" where
  "depsAt s i = (if i < length (allocatedActions s) then actDeps (allocatedActions s ! i) else [])"

text \<open>The visit of an action and of those it depends on, each at most once; the state has the visited actions first.\<close>

primrec visitAct :: "nat \<Rightarrow> GraphEnv \<Rightarrow> GraphState \<Rightarrow> (nat \<Rightarrow> ActionResult) \<Rightarrow> nat \<Rightarrow> nat set \<times> Extracted \<Rightarrow>
    ((string + unit) \<times> nat set \<times> Extracted) option" where
  "visitAct 0 G s results i st = None"
| "visitAct (Suc n) G s results i st =
     (if i \<in> fst st then Some (Inr (), st)
      else thenR (eachR (visitAct n G s results) (depsAt s i) (insert i (fst st), snd st))
        (\<lambda>_ st. let (r, x) = extractAct G s results i (snd st) in Some (r, fst st, x)))"

definition extractDiagnostics :: "nat \<Rightarrow> GraphEnv \<Rightarrow> GraphState \<Rightarrow> (nat \<Rightarrow> ActionResult) \<Rightarrow> nat list \<Rightarrow>
    (string + Diagnostic list \<times> (string \<times> string) list) option" where
  "extractDiagnostics n G s results roots =
     (case eachR (visitAct n G s results) roots ({}, noneExtracted) of
        None \<Rightarrow> None
      | Some (Inl e, st) \<Rightarrow> Some (Inl e)
      | Some (Inr _, st) \<Rightarrow> Some (Inr (retDiags (snd st), retErrors (snd st))))"

section \<open>Statistics\<close>

record analyzerStats =
  asAnalyzer :: nat
  asElapsed :: int
  asActions :: int
  asExecuted :: int
  asDiagnostics :: int
  asErrors :: int

definition addStats :: "ActionResult \<Rightarrow> analyzerStats \<Rightarrow> analyzerStats" where
  "addStats r st = st\<lparr>asElapsed := asElapsed st + resDuration r, asActions := asActions st + 1,
     asExecuted := (if resDuration r > 0 then asExecuted st + 1 else asExecuted st),
     asDiagnostics := asDiagnostics st + int (length (resDiags r)),
     asErrors := (if resErr r \<noteq> None then asErrors st + 1 else asErrors st)\<rparr>"

definition countAction :: "GraphEnv \<Rightarrow> GraphState \<Rightarrow> (nat \<Rightarrow> ActionResult) \<Rightarrow> nat \<Rightarrow> (string \<rightharpoonup> analyzerStats) \<Rightarrow> (string \<rightharpoonup> analyzerStats)" where
  "countAction G s results i byName =
     (let a = actAnalyzer (allocatedActions s ! i); name = anName (analyzer G a);
          stats = (case byName name of
            None \<Rightarrow> \<lparr>asAnalyzer = a, asElapsed = 0, asActions = 0, asExecuted = 0, asDiagnostics = 0, asErrors = 0\<rparr>
          | Some stats \<Rightarrow> stats)
      in byName(name \<mapsto> addStats (results i) stats))"

definition actionName :: "GraphEnv \<Rightarrow> GraphState \<Rightarrow> nat \<Rightarrow> string" where
  "actionName G s i = anName (analyzer G (actAnalyzer (allocatedActions s ! i)))"

definition collectAnalyzerStats :: "GraphEnv \<Rightarrow> GraphState \<Rightarrow> (nat \<Rightarrow> ActionResult) \<Rightarrow> nat list \<Rightarrow> analyzerStats list" where
  "collectAnalyzerStats G s results acts =
     (let byName = fold (countAction G s results) acts Map.empty
      in map (\<lambda>name. the (byName name)) (stable_sort (\<lambda>a b. cmp_string a b < 0) (remdups (map (actionName G s) acts))))"

section \<open>The report about the run\<close>

record analysisStats =
  initialPackages :: int
  totalPackages :: int
  statActions :: int
  statParallelism :: int
  statAnalyzers :: "analyzerStats list"
  statScheduler :: schedulerStats

record analysisLifecycle =
  alStarted :: int
  alReport :: AnalysisRun
  linterIndexes :: "string \<rightharpoonup> nat"

definition addLinter :: "string \<Rightarrow> analysisLifecycle \<Rightarrow> analysisLifecycle" where
  "addLinter name m = m\<lparr>linterIndexes := (linterIndexes m)(name \<mapsto> length (ConfiguredLinters (alReport m))),
     alReport := (alReport m)\<lparr>ConfiguredLinters := ConfiguredLinters (alReport m) @
       [\<lparr>clName = name, clElapsedNS = 0, clActions = 0, clIssues = 0, clErrors = 0\<rparr>]\<rparr>\<rparr>"

text \<open>Without a recorder there is nothing to fill.\<close>

definition newAnalysisLifecycle :: "int \<Rightarrow> string \<Rightarrow> string list \<Rightarrow> Recorder option \<Rightarrow> int \<Rightarrow> int \<Rightarrow> analysisLifecycle option" where
  "newAnalysisLifecycle now name linterNames recorder requestedPackages analyzedPackages =
     (case recorder of
        None \<Rightarrow> None
      | Some _ \<Rightarrow> Some (fold addLinter (stable_sort (\<lambda>a b. cmp_string a b < 0) linterNames)
          \<lparr>alStarted = now, alReport = \<lparr>arName = name, arElapsedNS = 0, RequestedPkgs = requestedPackages,
             CachedPkgs = requestedPackages - analyzedPackages, AnalyzedPkgs = analyzedPackages, InitialPkgs = 0, TotalPkgs = 0,
             arActions = 0, Parallelism = 0, arScheduler = None, ConfiguredLinters = [], Analyzers = [], arError = []\<rparr>,
           linterIndexes = Map.empty\<rparr>))"

definition updateLinter :: "string \<Rightarrow> (ConfiguredLinterRun \<Rightarrow> ConfiguredLinterRun) \<Rightarrow> analysisLifecycle \<Rightarrow> analysisLifecycle" where
  "updateLinter name f m = (case linterIndexes m name of
       None \<Rightarrow> m
     | Some index \<Rightarrow> m\<lparr>alReport := (alReport m)\<lparr>ConfiguredLinters :=
         (ConfiguredLinters (alReport m))[index := f (ConfiguredLinters (alReport m) ! index)]\<rparr>\<rparr>)"

definition recordAnalyzer :: "(nat \<Rightarrow> string) \<Rightarrow> (nat \<Rightarrow> string) \<Rightarrow> analyzerStats \<Rightarrow> analysisLifecycle \<Rightarrow> analysisLifecycle" where
  "recordAnalyzer analyzerName linterOf an m =
     (let linterName = linterOf (asAnalyzer an);
          m = m\<lparr>alReport := (alReport m)\<lparr>Analyzers := Analyzers (alReport m) @
            [\<lparr>azName = analyzerName (asAnalyzer an), azLinter = linterName, azElapsedNS = asElapsed an, azActions = asActions an,
              ExecutedActions = asExecuted an, Diagnostics = asDiagnostics an, azErrors = asErrors an\<rparr>]\<rparr>\<rparr>
      in updateLinter linterName (\<lambda>l. l\<lparr>clElapsedNS := clElapsedNS l + asElapsed an, clActions := clActions l + asActions an,
           clErrors := clErrors l + asErrors an\<rparr>) m)"

definition recordStats :: "(nat \<Rightarrow> string) \<Rightarrow> (nat \<Rightarrow> string) \<Rightarrow> analysisStats \<Rightarrow> analysisLifecycle option \<Rightarrow> analysisLifecycle option" where
  "recordStats analyzerName linterOf stats m = map_option (\<lambda>m.
     fold (recordAnalyzer analyzerName linterOf) (statAnalyzers stats)
       (m\<lparr>alReport := (alReport m)\<lparr>InitialPkgs := initialPackages stats, TotalPkgs := totalPackages stats, arActions := statActions stats,
          Parallelism := statParallelism stats,
          arScheduler := (let sc = statScheduler stats in Some \<lparr>RootActions = rootActions sc, HorizontalEdges = horizontalEdges sc,
            VerticalEdges = verticalEdges sc, SourceActions = sourceActions sc, SourceLoads = statSourceLoads sc,
            ExportLoads = statExportLoads sc, PeakPackageWorkers = statPeakPackageWorkers sc,
            PeakActionGoroutines = statPeakActionGoroutines sc, PeakExecutingActions = statPeakExecutingActions sc,
            PackageDependencyWaitNS = packageDependencyWait sc, AnalyzerDependencyWaitNS = analyzerDependencyWait sc\<rparr>)\<rparr>\<rparr>)) m"

definition finishLifecycle :: "int \<Rightarrow> Issue list \<Rightarrow> string option \<Rightarrow> analysisLifecycle \<Rightarrow> Recorder option \<Rightarrow> Recorder option" where
  "finishLifecycle now issues err m recorder =
     (let m = m\<lparr>alReport := (alReport m)\<lparr>arElapsedNS := now - alStarted m\<rparr>\<rparr>;
          m = (case err of None \<Rightarrow> m | Some e \<Rightarrow> m\<lparr>alReport := (alReport m)\<lparr>arError := e\<rparr>\<rparr>);
          m = fold (\<lambda>issue. updateLinter (FromLinter issue) (\<lambda>l. l\<lparr>clIssues := clIssues l + 1\<rparr>)) issues m
      in RecordAnalysis (Some (alReport m)) recorder)"

text \<open>A panic is recorded as the error of the run and goes on; its value is an error or something that is printed.\<close>

datatype panic_value = ErrorValue string | OtherValue string

definition finishRecovered ::
  "int \<Rightarrow> Issue list \<Rightarrow> string option \<Rightarrow> panic_value option \<Rightarrow> analysisLifecycle \<Rightarrow> Recorder option \<Rightarrow> Recorder option \<times> panic_value option" where
  "finishRecovered now issues runErr panicValue m recorder = (case panicValue of
       None \<Rightarrow> (finishLifecycle now issues runErr m recorder, None)
     | Some v \<Rightarrow> (finishLifecycle now issues (Some (case v of ErrorValue e \<Rightarrow> e | OtherValue p \<Rightarrow> ''panic: '' @ p)) m recorder, Some v))"

section \<open>The order of the visit\<close>

interpretation acts: digraph "depsAt s" for s .

text \<open>Extraction over a list of actions, and lists in which every action comes after those it depends on.\<close>

definition extractAll :: "GraphEnv \<Rightarrow> GraphState \<Rightarrow> (nat \<Rightarrow> ActionResult) \<Rightarrow> nat list \<Rightarrow> Extracted \<Rightarrow> ((string + unit list) \<times> Extracted) option" where
  "extractAll G s results order x = eachR (\<lambda>i x. Some (extractAct G s results i x)) order x"

fun depsFirst :: "GraphState \<Rightarrow> nat set \<Rightarrow> nat list \<Rightarrow> bool" where
  "depsFirst s V [] \<longleftrightarrow> True"
| "depsFirst s V (i # is') \<longleftrightarrow> set (depsAt s i) \<subseteq> V \<and> depsFirst s (insert i V) is'"

lemma depsFirst_append: "depsFirst s V (xs @ ys) \<longleftrightarrow> depsFirst s V xs \<and> depsFirst s (V \<union> set xs) ys"
  by (induction xs arbitrary: V) auto

lemma depsFirst_mono: "depsFirst s V xs \<Longrightarrow> V \<subseteq> W \<Longrightarrow> depsFirst s W xs"
  by (induction xs arbitrary: V W) (simp, metis depsFirst.simps(2) insert_mono order_trans)

lemma eachR_append:
  "eachR f (xs @ ys) s = thenR (eachR f xs s) (\<lambda>a s. thenR (eachR f ys s) (\<lambda>b s. Some (Inr (a @ b), s)))"
  by (induction xs arbitrary: s) (auto simp: thenR_def split: option.splits sum.splits prod.splits)

text \<open>What a visit from \<open>D\<close>, with the actions \<open>P\<close> above it still open, has done: it extracted an order of what is new.\<close>

definition visits :: "GraphEnv \<Rightarrow> GraphState \<Rightarrow> (nat \<Rightarrow> ActionResult) \<Rightarrow> nat set \<Rightarrow> nat set \<Rightarrow> nat set \<Rightarrow> Extracted \<Rightarrow>
    ((string + 'r) \<times> nat set \<times> Extracted) option \<Rightarrow> nat list \<Rightarrow> bool" where
  "visits G s results D P K x r order \<longleftrightarrow> distinct order \<and> set order \<subseteq> K - D \<and> depsFirst s D order \<and>
     (case extractAll G s results order x of
        None \<Rightarrow> False
      | Some (Inl e, x') \<Rightarrow> (\<exists>st. r = Some (Inl e, st))
      | Some (Inr _, x') \<Rightarrow> set order = K - D \<and> (\<exists>y. r = Some (Inr y, D \<union> P \<union> K, x')))"

lemma extractAll_total: "\<exists>r x'. extractAll G s results order x = Some (r, x')"
  unfolding extractAll_def
proof (induction order arbitrary: x)
  case (Cons i order)
  obtain r x1 where r: "extractAct G s results i x = (r, x1)" by fastforce
  obtain r' x2 where "eachR (\<lambda>i x. Some (extractAct G s results i x)) order x1 = Some (r', x2)" using Cons by blast
  then show ?case using r by (cases r; cases r') auto
qed simp

lemma extractAll_append:
  "extractAll G s results (xs @ ys) x = thenR (extractAll G s results xs x) (\<lambda>a x. thenR (extractAll G s results ys x) (\<lambda>b x. Some (Inr (a @ b), x)))"
  by (simp add: extractAll_def eachR_append)

lemma visits_cases:
  assumes "visits G s results D P K x r order"
  obtains (panic) e x' st where "extractAll G s results order x = Some (Inl e, x')" "r = Some (Inl e, st)"
  | (fin) us x' y where "extractAll G s results order x = Some (Inr us, x')" "set order = K - D" "r = Some (Inr y, D \<union> P \<union> K, x')"
proof -
  obtain v x' where v: "extractAll G s results order x = Some (v, x')" using extractAll_total by blast
  then show thesis using assms that by (cases v) (auto simp: visits_def)
qed

lemma eachR_visits:
  assumes f: "\<And>k D x. k \<in> set ks \<Longrightarrow> acts.closedSet s D \<Longrightarrow> D \<inter> P = {} \<Longrightarrow> \<exists>order. visits G s results D P (acts.reach s k) x (f k (D \<union> P, x)) order"
    and P: "\<And>k. k \<in> set ks \<Longrightarrow> acts.reach s k \<inter> P = {}"
  shows "acts.closedSet s D \<Longrightarrow> D \<inter> P = {} \<Longrightarrow> \<exists>order. visits G s results D P (\<Union>k \<in> set ks. acts.reach s k) x (eachR f ks (D \<union> P, x)) order"
  using f P
proof (induction ks arbitrary: D x)
  case Nil
  have "visits G s results D P {} x (Some (Inr [], D \<union> P, x)) []" by (simp add: visits_def extractAll_def)
  then show ?case by auto
next
  case (Cons k ks)
  let ?K = "acts.reach s k" and ?L = "\<Union>k \<in> set ks. acts.reach s k"
  obtain o1 where o1: "visits G s results D P ?K x (f k (D \<union> P, x)) o1" using Cons.prems(3) [of k D x] Cons.prems(1,2) by auto
  have o1': "distinct o1" "set o1 \<subseteq> ?K - D" "depsFirst s D o1" using o1 by (auto simp: visits_def)
  from o1 show ?case
  proof (cases rule: visits_cases)
    case (panic e x' st)
    then have "visits G s results D P (\<Union>k \<in> set (k # ks). acts.reach s k) x (eachR f (k # ks) (D \<union> P, x)) o1"
      using o1' by (auto simp: visits_def)
    then show ?thesis by blast
  next
    case (fin us x' y)
    have cl: "acts.closedSet s (D \<union> ?K)" using acts.closedSet_Union [OF Cons.prems(1), of "{k}"] by simp
    have dj: "(D \<union> ?K) \<inter> P = {}" using Cons.prems(2) Cons.prems(4) [of k] by auto
    have "\<exists>order. visits G s results (D \<union> ?K) P ?L x' (eachR f ks (D \<union> ?K \<union> P, x')) order"
      by (rule Cons.IH [OF cl dj]) (use Cons.prems(3,4) in auto)
    then obtain o2 where o2: "visits G s results (D \<union> ?K) P ?L x' (eachR f ks (D \<union> ?K \<union> P, x')) o2" by blast
    have eq: "D \<union> P \<union> ?K = D \<union> ?K \<union> P" by auto
    have run: "eachR f (k # ks) (D \<union> P, x) = thenR (eachR f ks (D \<union> ?K \<union> P, x')) (\<lambda>ys s. Some (Inr (y # ys), s))"
      using fin(3) by (simp add: eq)
    have ds: "distinct o2" "set o2 \<subseteq> ?L - (D \<union> ?K)" "depsFirst s (D \<union> ?K) o2" using o2 by (auto simp: visits_def)
    have all: "distinct (o1 @ o2)" "set (o1 @ o2) \<subseteq> (?K \<union> ?L) - D" "depsFirst s D (o1 @ o2)"
      using o1' ds fin(2) by (auto simp: depsFirst_append intro: depsFirst_mono)
    have "visits G s results D P (?K \<union> ?L) x (eachR f (k # ks) (D \<union> P, x)) (o1 @ o2)"
      using o2
    proof (cases rule: visits_cases)
      case (panic e x'' st)
      then show ?thesis using all run fin(1) unfolding visits_def extractAll_append by simp
    next
      case d: (fin us' x'' y')
      have "set (o1 @ o2) = (?K \<union> ?L) - D" using fin(2) d(2) by auto
      moreover have "D \<union> ?K \<union> P \<union> ?L = D \<union> P \<union> (?K \<union> ?L)" by auto
      ultimately show ?thesis using all run fin(1) d unfolding visits_def extractAll_append by simp
    qed
    then show ?thesis by auto
  qed
qed

lemma visitAct_visits:
  assumes dec: "acts.decreasing s rank"
  shows "rank i < n \<Longrightarrow> acts.closedSet s D \<Longrightarrow> D \<inter> P = {} \<Longrightarrow> acts.reach s i \<inter> P = {} \<Longrightarrow>
    \<exists>order. visits G s results D P (acts.reach s i) x (visitAct n G s results i (D \<union> P, x)) order"
proof (induction n arbitrary: i D P x)
  case (Suc n)
  let ?ds = "depsAt s i" and ?K = "\<Union>k \<in> set (depsAt s i). acts.reach s k"
  have iP: "i \<notin> P" using Suc.prems(4) acts.reach_self [of i s] by blast
  show ?case
  proof (cases "i \<in> D")
    case True
    then have "acts.reach s i \<subseteq> D" using acts.closedSet_contains [OF Suc.prems(2)] by blast
    then have "visits G s results D P (acts.reach s i) x (visitAct (Suc n) G s results i (D \<union> P, x)) []"
      using True by (auto simp: visits_def extractAll_def)
    then show ?thesis by blast
  next
    case False
    have sub: "\<exists>order. visits G s results D (insert i P) (acts.reach s k) x (visitAct n G s results k (D \<union> insert i P, x)) order"
      if "k \<in> set ?ds" "acts.closedSet s D" "D \<inter> insert i P = {}" for k D x
    proof (rule Suc.IH [OF _ that(2,3)])
      show "rank k < n" using acts.decreasingD [OF dec that(1)] Suc.prems(1) by simp
      show "acts.reach s k \<inter> insert i P = {}"
        using acts.not_below_self [OF dec, of i] that(1) Suc.prems(4) acts.reach_unfold [of s i] by blast
    qed
    have "\<exists>order. visits G s results D (insert i P) ?K x (eachR (visitAct n G s results) ?ds (D \<union> insert i P, x)) order"
      using Suc.prems(2,3,4) False acts.not_below_self [OF dec, of i] acts.reach_unfold [of s i] by (intro eachR_visits sub) auto
    then obtain o1 where o1: "visits G s results D (insert i P) ?K x (eachR (visitAct n G s results) ?ds (D \<union> insert i P, x)) o1" by blast
    have o1': "distinct o1" "set o1 \<subseteq> ?K - D" "depsFirst s D o1" using o1 by (auto simp: visits_def)
    have i: "i \<notin> ?K" "acts.reach s i = insert i ?K" using acts.not_below_self [OF dec, of i] acts.reach_unfold [of s i] by auto
    let ?run = "visitAct (Suc n) G s results i (D \<union> P, x)"
    have run: "?run = thenR (eachR (visitAct n G s results) ?ds (D \<union> insert i P, x))
        (\<lambda>_ st. let (r, x) = extractAct G s results i (snd st) in Some (r, fst st, x))"
      using False iP by simp
    from o1 show ?thesis
    proof (cases rule: visits_cases)
      case (panic e x' st)
      then have "visits G s results D P (acts.reach s i) x ?run o1" using o1' i run by (auto simp: visits_def)
      then show ?thesis by blast
    next
      case (fin us x' y)
      have "set ?ds \<subseteq> D \<union> set o1" using fin(2) acts.reach_self by fastforce
      then have all: "distinct (o1 @ [i])" "set (o1 @ [i]) = acts.reach s i - D" "depsFirst s D (o1 @ [i])"
        using o1' i False fin(2) by (auto simp: depsFirst_append)
      obtain r x2 where r: "extractAct G s results i x' = (r, x2)" by fastforce
      have "D \<union> insert i P \<union> ?K = D \<union> P \<union> acts.reach s i" using i(2) by auto
      then have "visits G s results D P (acts.reach s i) x ?run (o1 @ [i])"
        using all run fin(1,3) r unfolding visits_def extractAll_append by (cases r) (simp_all add: extractAll_def)
      then show ?thesis by blast
    qed
  qed
qed simp

section \<open>What is extracted\<close>

text \<open>The first element for every key.\<close>

fun firsts :: "('a \<Rightarrow> 'k) \<Rightarrow> 'k set \<Rightarrow> 'a list \<Rightarrow> 'a list" where
  "firsts f S [] = []"
| "firsts f S (x # xs) = (if f x \<in> S then firsts f S xs else x # firsts f (insert (f x) S) xs)"

lemma firsts_append: "firsts f S (xs @ ys) = firsts f S xs @ firsts f (S \<union> f ` set xs) ys"
  by (induction xs arbitrary: S) (auto simp: insert_absorb)

lemma firsts_seen: "\<forall>x \<in> set xs. f x \<in> S \<longleftrightarrow> f x \<in> T \<Longrightarrow> firsts f S xs = firsts f T xs"
proof (induction xs arbitrary: S T)
  case (Cons x xs)
  have "firsts f S xs = firsts f T xs" "firsts f (insert (f x) S) xs = firsts f (insert (f x) T) xs"
    by (rule Cons.IH, use Cons.prems in simp)+
  then show ?case using Cons.prems by simp
qed simp

lemma firsts_keys: "f ` set (firsts f S xs) = f ` set xs - S" "distinct (map f (firsts f S xs))" "set (firsts f S xs) \<subseteq> set xs"
proof -
  show keys: "f ` set (firsts f S xs) = f ` set xs - S" for S xs by (induction xs arbitrary: S) auto
  show "distinct (map f (firsts f S xs))"
  proof (induction xs arbitrary: S)
    case (Cons x xs)
    have "f x \<notin> f ` set (firsts f (insert (f x) S) xs)" unfolding keys by blast
    then show ?case using Cons by simp
  qed simp
  show "set (firsts f S xs) \<subseteq> set xs" by (induction xs arbitrary: S) auto
qed

definition reportable :: "GraphState \<Rightarrow> (nat \<Rightarrow> ActionResult) \<Rightarrow> nat \<Rightarrow> (action \<times> RawDiag) list" where
  "reportable s results i =
     (if resErr (results i) = None \<and> IsRoot (allocatedActions s ! i) then map (Pair (allocatedActions s ! i)) (resDiags (results i)) else [])"

definition actErrors :: "GraphEnv \<Rightarrow> GraphState \<Rightarrow> (nat \<Rightarrow> ActionResult) \<Rightarrow> nat \<Rightarrow> (string \<times> string) list" where
  "actErrors G s results i = (case resErr (results i) of Some (AnalysisError e) \<Rightarrow> [(actionName G s i, e)] | _ \<Rightarrow> [])"

definition panics :: "(nat \<Rightarrow> ActionResult) \<Rightarrow> nat \<Rightarrow> bool" where
  "panics results i \<longleftrightarrow> (\<exists>e. resErr (results i) = Some (PanicError e))"

abbreviation pairKey :: "action \<times> RawDiag \<Rightarrow> diagKey" where
  "pairKey ad \<equiv> diagKeyOf (fst ad) (snd ad)"

definition extractedBy :: "GraphEnv \<Rightarrow> (action \<times> RawDiag) list \<Rightarrow> (string \<times> string) list \<Rightarrow> Extracted \<Rightarrow> Extracted" where
  "extractedBy G ads errs x = \<lparr>seenKeys = seenKeys x \<union> pairKey ` set ads,
     retDiags = retDiags x @ map (\<lambda>(act, diag). newDiagnostic G act diag) (firsts pairKey (seenKeys x) ads), retErrors = retErrors x @ errs\<rparr>"

text \<open>The removal of duplicates spans all packages, but a package loses nothing to another one as long as their diagnostics have
  different positions: the diagnostics of a package are then those that its own roots give, in the order of their
  visit, whatever else is analyzed. This is what \<open>perPackage\<close> of the cache of issues rests on: after the loading of
  packages a file belongs to one package, test variants taking the place of the packages they extend.\<close>

lemma firsts_filter:
  assumes "\<forall>x \<in> set xs. \<forall>y \<in> set xs. f x = f y \<longrightarrow> P x = P y"
  shows "filter P (firsts f S xs) = firsts f (S - f ` {x \<in> set xs. \<not> P x}) (filter P xs)"
  using assms
proof (induction xs arbitrary: S)
  case (Cons x xs)
  have pr: "\<forall>y \<in> insert x (set xs). \<forall>z \<in> insert x (set xs). f y = f z \<longrightarrow> P y = P z" using Cons.prems unfolding list.set .
  let ?B = "f ` {y \<in> set xs. \<not> P y}"
  have IH: "filter P (firsts f T xs) = firsts f (T - ?B) (filter P xs)" for T by (rule Cons.IH) (use pr in blast)
  show ?case
  proof (cases "P x")
    case True
    have b: "{y \<in> set (x # xs). \<not> P y} = {y \<in> set xs. \<not> P y}" using True by auto
    have n: "f x \<notin> ?B" using True pr by blast
    have "insert (f x) S - ?B = insert (f x) (S - ?B)" by (rule insert_Diff_if [THEN trans]) (simp only: n if_False)
    then show ?thesis unfolding b using True IH [of S] IH [of "insert (f x) S"] n by simp
  next
    case False
    then have b: "f ` {y \<in> set (x # xs). \<not> P y} = insert (f x) ?B" by auto
    have ne: "\<forall>y \<in> set (filter P xs). f y \<noteq> f x" using pr False unfolding set_filter by blast
    have e: "firsts f (S - ?B) (filter P xs) = firsts f (S - insert (f x) ?B) (filter P xs)"
      "firsts f (insert (f x) S - ?B) (filter P xs) = firsts f (S - insert (f x) ?B) (filter P xs)"
      by (rule firsts_seen, use ne in blast)+
    have "filter P (firsts f S (x # xs)) = (if f x \<in> S then filter P (firsts f S xs) else filter P (firsts f (insert (f x) S) xs))"
      using False by simp
    then show ?thesis unfolding b IH e using False by simp
  qed
qed simp

lemma reportable_package:
  "filter (\<lambda>x. actPackage (fst x) = p) (concat (map (reportable s results) order)) =
     concat (map (reportable s results) (filter (\<lambda>i. actPackage (allocatedActions s ! i) = p) order))"
proof (induction order)
  case (Cons i order)
  have "filter (\<lambda>x. actPackage (fst x) = p) (reportable s results i) =
      (if actPackage (allocatedActions s ! i) = p then reportable s results i else [])"
    by (simp add: reportable_def filter_map comp_def)
  then show ?case using Cons.IH by (simp del: filter_concat)
qed simp

lemma newDiagnostics_package:
  "filter (\<lambda>d. dgPkg d = p) (map (\<lambda>(act, diag). newDiagnostic G act diag) ads) =
     map (\<lambda>(act, diag). newDiagnostic G act diag) (filter (\<lambda>x. actPackage (fst x) = p) ads)"
  by (induction ads) (simp_all add: newDiagnostic_def case_prod_beta')

lemma extracted_per_package:
  assumes "\<forall>x \<in> set (concat (map (reportable s results) order)). \<forall>y \<in> set (concat (map (reportable s results) order)).
      pairKey x = pairKey y \<longrightarrow> (actPackage (fst x) = p) = (actPackage (fst y) = p)"
  shows "filter (\<lambda>d. dgPkg d = p)
      (map (\<lambda>(act, diag). newDiagnostic G act diag) (firsts pairKey {} (concat (map (reportable s results) order)))) =
    map (\<lambda>(act, diag). newDiagnostic G act diag)
      (firsts pairKey {} (concat (map (reportable s results) (filter (\<lambda>i. actPackage (allocatedActions s ! i) = p) order))))"
  unfolding newDiagnostics_package firsts_filter [OF assms, of "{}"] empty_Diff reportable_package ..

lemma extractedBy_trans: "extractedBy G bs fs (extractedBy G us es x) = extractedBy G (us @ bs) (es @ fs) x"
  by (simp add: extractedBy_def firsts_append Un_assoc image_Un)

lemma extractedBy_empty: "extractedBy G [] [] x = x"
  by (simp add: extractedBy_def)

lemma fold_extractDiag: "fold (extractDiag G act) ds x = extractedBy G (map (Pair act) ds) [] x"
proof (induction ds arbitrary: x)
  case (Cons d ds)
  have "extractDiag G act d x = extractedBy G [(act, d)] [] x"
    by (auto simp: extractDiag_def extractedBy_def Let_def insert_absorb)
  then show ?case using Cons by (simp add: extractedBy_trans)
qed (simp add: extractedBy_empty)

lemma extractAct_result:
  "\<not> panics results i \<Longrightarrow> extractAct G s results i x = (Inr (), extractedBy G (reportable s results i) (actErrors G s results i) x)"
  "panics results i \<Longrightarrow> \<exists>e. extractAct G s results i x = (Inl e, x) \<and> resErr (results i) = Some (PanicError e)"
  by (auto simp: extractAct_def panics_def reportable_def actErrors_def fold_extractDiag extractedBy_empty actionName_def Let_def
      extractedBy_def split: option.splits act_error.splits)

lemma extractAll_result:
  "\<forall>i \<in> set order. \<not> panics results i \<Longrightarrow> \<exists>us. extractAll G s results order x =
     Some (Inr us, extractedBy G (concat (map (reportable s results) order)) (concat (map (actErrors G s results) order)) x)"
  unfolding extractAll_def
proof (induction order arbitrary: x)
  case (Cons i order)
  then show ?case
    using Cons.IH [of "extractedBy G (reportable s results i) (actErrors G s results i) x"]
    by (auto simp: extractAct_result(1) extractedBy_trans)
qed (simp add: extractedBy_empty)

lemma extractAll_panic:
  "\<exists>i \<in> set order. panics results i \<Longrightarrow> \<exists>e x'. extractAll G s results order x = Some (Inl e, x') \<and>
     (\<exists>i \<in> set order. resErr (results i) = Some (PanicError e))"
  unfolding extractAll_def
proof (induction order arbitrary: x)
  case (Cons i order)
  show ?case
  proof (cases "panics results i")
    case True
    then show ?thesis using extractAct_result(2) [OF True, of G s x] by auto
  next
    case False
    then show ?thesis
      using Cons.IH [of "extractedBy G (reportable s results i) (actErrors G s results i) x"] Cons.prems
      by (auto simp: extractAct_result(1))
  qed
qed simp

definition visitedFrom :: "GraphState \<Rightarrow> nat list \<Rightarrow> nat set" where
  "visitedFrom s roots = (\<Union>i \<in> set roots. acts.reach s i)"

definition extraction :: "GraphEnv \<Rightarrow> GraphState \<Rightarrow> (nat \<Rightarrow> ActionResult) \<Rightarrow> nat list \<Rightarrow> Diagnostic list \<times> (string \<times> string) list" where
  "extraction G s results order =
     (map (\<lambda>(act, diag). newDiagnostic G act diag) (firsts pairKey {} (concat (map (reportable s results) order))),
      concat (map (actErrors G s results) order))"

lemma extractDiagnostics_visits:
  assumes dec: "acts.decreasing s rank" and n: "\<forall>i \<in> set roots. rank i < n"
  shows "\<exists>order. visits G s results {} {} (visitedFrom s roots) noneExtracted (eachR (visitAct n G s results) roots ({}, noneExtracted)) order"
proof -
  have "\<exists>order. visits G s results {} {} (\<Union>k \<in> set roots. acts.reach s k) noneExtracted
      (eachR (visitAct n G s results) roots ({} \<union> {}, noneExtracted)) order"
  proof (rule eachR_visits)
    show "\<exists>order. visits G s results D {} (acts.reach s k) x (visitAct n G s results k (D \<union> {}, x)) order"
      if "k \<in> set roots" "acts.closedSet s D" for k D x
      by (rule visitAct_visits [OF dec _ that(2)]) (use n that(1) in auto)
  qed (simp_all add: acts.closedSet_def)
  then show ?thesis by (simp add: visitedFrom_def)
qed

lemma extractDiagnostics_result:
  assumes dec: "acts.decreasing s rank" and n: "\<forall>i \<in> set roots. rank i < n"
  shows "\<exists>order. distinct order \<and> set order \<subseteq> visitedFrom s roots \<and> depsFirst s {} order \<and>
    (if \<exists>i \<in> visitedFrom s roots. panics results i
     then \<exists>e. extractDiagnostics n G s results roots = Some (Inl e) \<and> (\<exists>i \<in> visitedFrom s roots. resErr (results i) = Some (PanicError e))
     else set order = visitedFrom s roots \<and> extractDiagnostics n G s results roots = Some (Inr (extraction G s results order)))"
proof -
  let ?R = "visitedFrom s roots"
  obtain order where o: "visits G s results {} {} ?R noneExtracted (eachR (visitAct n G s results) roots ({}, noneExtracted)) order"
    using extractDiagnostics_visits [OF assms] by blast
  have ord: "distinct order" "set order \<subseteq> ?R" "depsFirst s {} order" using o by (simp_all add: visits_def)
  from o show ?thesis
  proof (cases rule: visits_cases)
    case (panic e x' st)
    then have p: "\<exists>i \<in> set order. panics results i" using extractAll_result [of order results G s noneExtracted] by auto
    then obtain i where "i \<in> set order" "resErr (results i) = Some (PanicError e)"
      using extractAll_panic [OF p, of G s noneExtracted] panic(1) by auto
    moreover have "extractDiagnostics n G s results roots = Some (Inl e)" using panic(2) by (simp add: extractDiagnostics_def)
    ultimately show ?thesis using ord p by (intro exI [of _ order]) auto
  next
    case (fin us x' y)
    have np: "\<forall>i \<in> ?R. \<not> panics results i" using extractAll_panic [of order results G s noneExtracted] fin(1,2) by auto
    then have "x' = extractedBy G (concat (map (reportable s results) order)) (concat (map (actErrors G s results) order)) noneExtracted"
      using extractAll_result [of order results G s noneExtracted] fin(1,2) by auto
    then have "extractDiagnostics n G s results roots = Some (Inr (extraction G s results order))"
      using fin(3) by (simp add: extractDiagnostics_def extraction_def extractedBy_def noneExtracted_def)
    then show ?thesis using ord np fin(2) by auto
  qed
qed

section \<open>Exact statistics\<close>

text \<open>What is counted for a list of results.\<close>

definition totals :: "nat \<Rightarrow> ActionResult list \<Rightarrow> analyzerStats" where
  "totals a rs = \<lparr>asAnalyzer = a, asElapsed = sum_list (map resDuration rs), asActions = int (length rs),
     asExecuted = int (length (filter (\<lambda>r. resDuration r > 0) rs)), asDiagnostics = int (\<Sum>r \<leftarrow> rs. length (resDiags r)),
     asErrors = int (length (filter (\<lambda>r. resErr r \<noteq> None) rs))\<rparr>"

lemma totals_snoc: "addStats r (totals a rs) = totals a (rs @ [r])"
  by (simp add: totals_def addStats_def)

text \<open>The actions of one name; the first of them gives the analyzer.\<close>

definition named :: "GraphEnv \<Rightarrow> GraphState \<Rightarrow> string \<Rightarrow> nat list \<Rightarrow> nat list" where
  "named G s name acts = filter (\<lambda>i. actionName G s i = name) acts"

definition statsOf :: "GraphEnv \<Rightarrow> GraphState \<Rightarrow> (nat \<Rightarrow> ActionResult) \<Rightarrow> nat list \<Rightarrow> string \<Rightarrow> analyzerStats" where
  "statsOf G s results acts name =
     totals (actAnalyzer (allocatedActions s ! hd (named G s name acts))) (map results (named G s name acts))"

lemma countActions_exact:
  "fold (countAction G s results) acts Map.empty name = (if named G s name acts = [] then None else Some (statsOf G s results acts name))"
proof (induction acts arbitrary: name rule: rev_induct)
  case Nil
  then show ?case by (simp add: named_def)
next
  case (snoc i acts)
  let ?m = "fold (countAction G s results) acts Map.empty"
  show ?case
  proof (cases "name = actionName G s i")
    case True
    have n: "named G s name (acts @ [i]) = named G s name acts @ [i]" using True by (simp add: named_def)
    have z: "\<lparr>asAnalyzer = a, asElapsed = 0, asActions = 0, asExecuted = 0, asDiagnostics = 0, asErrors = 0\<rparr> = totals a []" for a
      by (simp add: totals_def)
    have "countAction G s results i ?m name = Some (addStats (results i) (case ?m name of None \<Rightarrow>
        totals (actAnalyzer (allocatedActions s ! i)) [] | Some stats \<Rightarrow> stats))"
      unfolding z [symmetric] using True by (simp add: countAction_def actionName_def Let_def)
    then show ?thesis using snoc [of name] n by (simp add: statsOf_def totals_snoc hd_append)
  next
    case False
    then have "named G s name (acts @ [i]) = named G s name acts" by (simp add: named_def)
    moreover have "countAction G s results i ?m name = ?m name" using False by (simp add: countAction_def actionName_def Let_def)
    ultimately show ?thesis using snoc [of name] by (simp add: statsOf_def)
  qed
qed

lemma collectAnalyzerStats_exact:
  "collectAnalyzerStats G s results acts =
     map (statsOf G s results acts) (stable_sort (\<lambda>a b. cmp_string a b < 0) (remdups (map (actionName G s) acts)))"
proof -
  have "named G s name acts \<noteq> []" if "name \<in> actionName G s ` set acts" for name
    using that by (auto simp: named_def filter_empty_conv)
  then show ?thesis by (auto simp: collectAnalyzerStats_def countActions_exact Let_def)
qed

text \<open>Every action is counted once.\<close>

lemma length_named: "distinct names \<Longrightarrow> set (map (actionName G s) acts) \<subseteq> set names \<Longrightarrow>
    (\<Sum>name \<leftarrow> names. int (length (named G s name acts))) = int (length acts)"
proof (induction acts)
  case Nil
  then show ?case by (induction names) (simp_all add: named_def)
next
  case (Cons i acts)
  have "(\<Sum>name \<leftarrow> names. int (length (named G s name (i # acts)))) =
      (\<Sum>name \<leftarrow> names. int (length (named G s name acts)) + (if name = actionName G s i then 1 else 0))"
    by (rule arg_cong [where f = sum_list]) (auto simp: named_def)
  also have "\<dots> = int (length acts) + (\<Sum>name \<leftarrow> names. if name = actionName G s i then 1 else 0)"
    using Cons by (simp add: sum_list_addf)
  also have "(\<Sum>name \<leftarrow> names. if name = actionName G s i then (1::int) else 0) = 1"
    using Cons.prems by (simp add: sum_list_distinct_conv_sum_set)
  finally show ?case by simp
qed

section \<open>The report per linter\<close>

text \<open>The entries of the configured linters \<open>ns\<close>, as a function of the name.\<close>

definition tracks :: "string list \<Rightarrow> (string \<Rightarrow> ConfiguredLinterRun) \<Rightarrow> analysisLifecycle \<Rightarrow> bool" where
  "tracks ns f m \<longleftrightarrow> ConfiguredLinters (alReport m) = map f ns \<and> (\<forall>n. n \<notin> set ns \<longrightarrow> linterIndexes m n = None) \<and>
     (\<forall>n \<in> set ns. \<exists>i. linterIndexes m n = Some i \<and> i < length ns \<and> ns ! i = n)"

definition zeroRun :: "string \<Rightarrow> ConfiguredLinterRun" where
  "zeroRun name = \<lparr>clName = name, clElapsedNS = 0, clActions = 0, clIssues = 0, clErrors = 0\<rparr>"

lemma addLinters_tracks:
  "distinct ns \<Longrightarrow> tracks [] zeroRun m \<Longrightarrow> tracks ns zeroRun (fold addLinter ns m)"
proof (induction ns rule: rev_induct)
  case (snoc n ns)
  let ?m = "fold addLinter ns m"
  have IH: "tracks ns zeroRun ?m" using snoc by simp
  have "tracks (ns @ [n]) zeroRun (addLinter n ?m)"
    unfolding tracks_def
  proof (intro conjI allI impI ballI)
    show "ConfiguredLinters (alReport (addLinter n ?m)) = map zeroRun (ns @ [n])" using IH by (simp add: tracks_def addLinter_def zeroRun_def)
    show "linterIndexes (addLinter n ?m) x = None" if "x \<notin> set (ns @ [n])" for x using IH that by (simp add: tracks_def addLinter_def)
    show "\<exists>i. linterIndexes (addLinter n ?m) x = Some i \<and> i < length (ns @ [n]) \<and> (ns @ [n]) ! i = x" if "x \<in> set (ns @ [n])" for x
    proof (cases "x = n")
      case True
      then show ?thesis using IH by (simp add: tracks_def addLinter_def)
    next
      case False
      then obtain i where "linterIndexes ?m x = Some i" "i < length ns" "ns ! i = x" using IH \<open>x \<in> _\<close> by (auto simp: tracks_def)
      then show ?thesis using False by (simp add: addLinter_def nth_append)
    qed
  qed
  then show ?case by simp
qed simp

lemma addLinters_frame:
  "alStarted (fold addLinter ns m) = alStarted m \<and> Analyzers (alReport (fold addLinter ns m)) = Analyzers (alReport m) \<and>
   RequestedPkgs (alReport (fold addLinter ns m)) = RequestedPkgs (alReport m) \<and>
   CachedPkgs (alReport (fold addLinter ns m)) = CachedPkgs (alReport m) \<and>
   AnalyzedPkgs (alReport (fold addLinter ns m)) = AnalyzedPkgs (alReport m) \<and> arError (alReport (fold addLinter ns m)) = arError (alReport m)"
  by (induction ns arbitrary: m) (simp_all add: addLinter_def)

lemma tracks_cong: "tracks ns f m \<Longrightarrow> (\<And>n. f n = g n) \<Longrightarrow> tracks ns g m"
  by (metis ext)

lemma updateLinter_tracks:
  assumes "distinct ns" "tracks ns f m"
  shows "tracks ns (\<lambda>n. if n = name then g (f n) else f n) (updateLinter name g m)"
proof (cases "name \<in> set ns")
  case True
  then obtain i where i: "linterIndexes m name = Some i" "i < length ns" "ns ! i = name" using assms(2) by (auto simp: tracks_def)
  have "(map f ns)[i := g (f name)] = map (\<lambda>n. if n = name then g (f n) else f n) ns"
    using i assms(1) by (intro nth_equalityI) (auto simp: nth_list_update nth_eq_iff_index_eq)
  then show ?thesis using assms(2) i by (simp add: tracks_def updateLinter_def)
next
  case False
  then have "map (\<lambda>n. if n = name then g (f n) else f n) ns = map f ns" "linterIndexes m name = None" using assms(2) by (auto simp: tracks_def)
  then show ?thesis using assms(2) by (simp add: tracks_def updateLinter_def)
qed

lemma updateLinter_frame [simp]:
  "alStarted (updateLinter name g m) = alStarted m" "Analyzers (alReport (updateLinter name g m)) = Analyzers (alReport m)"
  "RequestedPkgs (alReport (updateLinter name g m)) = RequestedPkgs (alReport m)" "CachedPkgs (alReport (updateLinter name g m)) = CachedPkgs (alReport m)"
  "AnalyzedPkgs (alReport (updateLinter name g m)) = AnalyzedPkgs (alReport m)" "arError (alReport (updateLinter name g m)) = arError (alReport m)"
  "arElapsedNS (alReport (updateLinter name g m)) = arElapsedNS (alReport m)"
  by (simp_all add: updateLinter_def split: option.splits)

lemma tracks_report: "ConfiguredLinters r' = ConfiguredLinters (alReport m) \<Longrightarrow> tracks ns f (m\<lparr>alReport := r'\<rparr>) \<longleftrightarrow> tracks ns f m"
  by (simp add: tracks_def)

definition linterStats :: "(nat \<Rightarrow> string) \<Rightarrow> analyzerStats list \<Rightarrow> string \<Rightarrow> analyzerStats list" where
  "linterStats linterOf ans name = filter (\<lambda>an. linterOf (asAnalyzer an) = name) ans"

lemma recordAnalyzers_tracks:
  assumes "distinct ns"
  shows "tracks ns f m \<Longrightarrow> tracks ns (\<lambda>n. (f n)\<lparr>clElapsedNS := clElapsedNS (f n) + sum_list (map asElapsed (linterStats linterOf ans n)),
      clActions := clActions (f n) + sum_list (map asActions (linterStats linterOf ans n)),
      clErrors := clErrors (f n) + sum_list (map asErrors (linterStats linterOf ans n))\<rparr>) (fold (recordAnalyzer nameOf linterOf) ans m)"
proof (induction ans arbitrary: f m)
  case (Cons an ans)
  let ?l = "linterOf (asAnalyzer an)"
  let ?g = "\<lambda>l. l\<lparr>clElapsedNS := clElapsedNS l + asElapsed an, clActions := clActions l + asActions an, clErrors := clErrors l + asErrors an\<rparr>"
  have "tracks ns (\<lambda>n. if n = ?l then ?g (f n) else f n) (recordAnalyzer nameOf linterOf an m)"
    unfolding recordAnalyzer_def Let_def by (rule updateLinter_tracks [OF assms]) (simp add: tracks_report Cons.prems)
  from tracks_cong [OF Cons.IH [OF this]] show ?case by (simp add: linterStats_def)
qed (simp add: linterStats_def)

lemma recordAnalyzers_frame:
  "alStarted (fold (recordAnalyzer nameOf linterOf) ans m) = alStarted m \<and>
   RequestedPkgs (alReport (fold (recordAnalyzer nameOf linterOf) ans m)) = RequestedPkgs (alReport m) \<and>
   CachedPkgs (alReport (fold (recordAnalyzer nameOf linterOf) ans m)) = CachedPkgs (alReport m) \<and>
   AnalyzedPkgs (alReport (fold (recordAnalyzer nameOf linterOf) ans m)) = AnalyzedPkgs (alReport m) \<and>
   arError (alReport (fold (recordAnalyzer nameOf linterOf) ans m)) = arError (alReport m) \<and>
   map azActions (Analyzers (alReport (fold (recordAnalyzer nameOf linterOf) ans m))) = map azActions (Analyzers (alReport m)) @ map asActions ans"
  by (induction ans arbitrary: m) (simp_all add: recordAnalyzer_def Let_def)

lemma countIssues_tracks:
  assumes "distinct ns"
  shows "tracks ns f m \<Longrightarrow> tracks ns (\<lambda>n. (f n)\<lparr>clIssues := clIssues (f n) + int (length (filter (\<lambda>i. FromLinter i = n) issues))\<rparr>)
      (fold (\<lambda>issue. updateLinter (FromLinter issue) (\<lambda>l. l\<lparr>clIssues := clIssues l + 1\<rparr>)) issues m)"
proof (induction issues arbitrary: f m)
  case (Cons issue issues)
  have "tracks ns (\<lambda>n. if n = FromLinter issue then (f n)\<lparr>clIssues := clIssues (f n) + 1\<rparr> else f n)
      (updateLinter (FromLinter issue) (\<lambda>l. l\<lparr>clIssues := clIssues l + 1\<rparr>) m)" by (rule updateLinter_tracks [OF assms Cons.prems])
  from tracks_cong [OF Cons.IH [OF this]] show ?case by simp
qed simp

lemma countIssues_frame:
  "Analyzers (alReport (fold (\<lambda>issue. updateLinter (FromLinter issue) (\<lambda>l. l\<lparr>clIssues := clIssues l + 1\<rparr>)) issues m)) = Analyzers (alReport m)"
  "RequestedPkgs (alReport (fold (\<lambda>issue. updateLinter (FromLinter issue) (\<lambda>l. l\<lparr>clIssues := clIssues l + 1\<rparr>)) issues m)) = RequestedPkgs (alReport m)"
  "CachedPkgs (alReport (fold (\<lambda>issue. updateLinter (FromLinter issue) (\<lambda>l. l\<lparr>clIssues := clIssues l + 1\<rparr>)) issues m)) = CachedPkgs (alReport m)"
  "AnalyzedPkgs (alReport (fold (\<lambda>issue. updateLinter (FromLinter issue) (\<lambda>l. l\<lparr>clIssues := clIssues l + 1\<rparr>)) issues m)) = AnalyzedPkgs (alReport m)"
  "arError (alReport (fold (\<lambda>issue. updateLinter (FromLinter issue) (\<lambda>l. l\<lparr>clIssues := clIssues l + 1\<rparr>)) issues m)) = arError (alReport m)"
  by (induction issues arbitrary: m; simp)+

section \<open>The actions that were made\<close>

text \<open>The array that \<open>prepareAnalysis\<close> filled, as a graph: it has the shape of the graph of keys.\<close>

lemma acts_reach_image:
  assumes closed: "keys.closedSet G K" and deps: "\<And>k. k \<in> K \<Longrightarrow> depsAt s (f k) = map f (depKeys G k)"
    and k: "k \<in> K" and k': "k' \<in> keys.reach G k"
  shows "f k' \<in> acts.reach s (f k)"
proof -
  have "(k, k') \<in> (keys.edges G)\<^sup>*" using k' by (simp add: keys.reach_def)
  then have "k' \<in> K \<and> f k' \<in> acts.reach s (f k)"
  proof (induction rule: rtrancl_induct)
    case (step y z)
    then have z: "z \<in> set (depKeys G y)" by (simp add: keys.edges_def)
    then have "f z \<in> set (depsAt s (f y))" using deps step.IH by auto
    then show ?case using z step.IH closed acts.reach_trans [OF _ acts.reach_succ] by (auto simp: keys.closedSet_def)
  qed (use k in simp)
  then show ?thesis by simp
qed

lemma prepared_graph:
  assumes "wellNamed G" and dec: "keys.decreasing G rank" and n: "\<forall>k \<in> set analyzers \<times> set pkgs. rank k < n"
    and prep: "prepareAnalysis n G pkgs analyzers = Some (Inr roots, s)"
  obtains rk where "acts.decreasing s rk" "\<forall>i \<in> set roots. rk i < n" "visitedFrom s roots = {..<length (allocatedActions s)}"
proof -
  let ?K = "neededKeys G pkgs analyzers" and ?at = "\<lambda>k. the (actionAt s k)" and ?R = "set analyzers \<times> set pkgs"
  have s: "roots = map ?at (rootKeys pkgs analyzers)" "bij_betw ?at ?K {..<length (allocatedActions s)}"
    and a: "\<And>k. k \<in> ?K \<Longrightarrow> allocatedActions s ! ?at k = (actOf G (set pkgs) (actionAt s) k)\<lparr>IsRoot := k \<in> ?R\<rparr>"
    using prepareAnalysis_exact [OF assms(1-3)] prep by auto
  have closed: "keys.closedSet G ?K"
    unfolding neededKeys_def using keys.closedSet_Union [of G "{}" ?R] by (simp add: keys.closedSet_def)
  have R: "?R \<subseteq> ?K" unfolding neededKeys_def using keys.reach_self by fastforce
  have rt: "set roots = ?at ` ?R" using s(1) by (simp add: rootKeys_def)
  let ?key = "inv_into ?K ?at"
  have key: "?key (?at k) = k" if "k \<in> ?K" for k using s(2) inv_into_f_f [of ?at ?K k] that by (simp add: bij_betw_def)
  have range: "?at k < length (allocatedActions s)" if "k \<in> ?K" for k using s(2) that by (auto simp: bij_betw_def)
  have deps: "depsAt s (?at k) = map ?at (depKeys G k)" if "k \<in> ?K" for k using a [OF that] range [OF that] by (simp add: depsAt_def actOf_def)
  have ofK: "\<exists>k \<in> ?K. i = ?at k" if "i < length (allocatedActions s)" for i using s(2) that by (auto simp: bij_betw_def)
  have "acts.decreasing s (rank \<circ> ?key)"
    unfolding acts.decreasing_def
  proof (intro allI ballI)
    fix i d assume d: "d \<in> set (depsAt s i)"
    then have "i < length (allocatedActions s)" by (simp add: depsAt_def split: if_splits)
    then obtain k where k: "k \<in> ?K" "i = ?at k" using ofK by blast
    then obtain k' where k': "k' \<in> set (depKeys G k)" "d = ?at k'" using d deps [OF k(1)] by auto
    then have "k' \<in> ?K" using closed k(1) by (auto simp: keys.closedSet_def)
    then show "(rank \<circ> ?key) d < (rank \<circ> ?key) i" using key k k' keys.decreasingD [OF dec k'(1)] by simp
  qed
  moreover have "\<forall>i \<in> set roots. (rank \<circ> ?key) i < n"
    unfolding rt using n R key by (auto simp del: mem_Times_iff)
  moreover have "visitedFrom s roots = {..<length (allocatedActions s)}"
  proof
    have "acts.closedSet s {..<length (allocatedActions s)}"
      unfolding acts.closedSet_def
    proof
      fix i assume "i \<in> {..<length (allocatedActions s)}"
      then obtain k where k: "k \<in> ?K" "i = ?at k" using ofK by blast
      then show "set (depsAt s i) \<subseteq> {..<length (allocatedActions s)}"
        using deps [OF k(1)] closed range by (auto simp: keys.closedSet_def)
    qed
    from acts.closedSet_contains [OF this] show "visitedFrom s roots \<subseteq> {..<length (allocatedActions s)}"
      unfolding visitedFrom_def rt using R range by blast
    show "{..<length (allocatedActions s)} \<subseteq> visitedFrom s roots"
    proof
      fix i assume "i \<in> {..<length (allocatedActions s)}"
      then obtain k where k: "k \<in> ?K" "i = ?at k" using ofK by blast
      then obtain k0 where k0: "k0 \<in> ?R" "k \<in> keys.reach G k0" unfolding neededKeys_def by blast
      then have "i \<in> acts.reach s (?at k0)" using acts_reach_image [OF closed deps] R k(2) by blast
      then show "i \<in> visitedFrom s roots" unfolding visitedFrom_def rt using k0(1) by blast
    qed
  qed
  ultimately show thesis by (rule that)
qed

text \<open>After the analysis: what is reached from the roots without passing through an executed action.\<close>

lemma depsAt_clearActions: "depsAt (clearActions C s) i = (if i \<in> C then [] else depsAt s i)"
  by (simp add: depsAt_def clearActions_def nth_enumerate_eq)

lemma cleared_decreasing: "acts.decreasing s rk \<Longrightarrow> acts.decreasing (clearActions C s) rk"
  by (simp add: acts.decreasing_def depsAt_clearActions)

lemma failures_visited:
  assumes below: "\<forall>i \<in> C. \<forall>d \<in> acts.reach s i - {i}. resErr (results d) = None"
    and i: "i \<in> visitedFrom s roots" "resErr (results i) \<noteq> None"
  shows "i \<in> visitedFrom (clearActions C s) roots"
proof -
  obtain r where r: "r \<in> set roots" "(r, i) \<in> (acts.edges s)\<^sup>*" using i(1) by (auto simp: visitedFrom_def acts.reach_def)
  from r(2) have "i \<in> acts.reach (clearActions C s) r"
  proof (induction rule: converse_rtrancl_induct)
    case (step x y)
    have xi: "i \<in> acts.reach s x" using step.hyps by (auto simp: acts.reach_def)
    show ?case
    proof (cases "x = i")
      case False
      then have "x \<notin> C" using below xi i(2) by fastforce
      then have "y \<in> acts.reach (clearActions C s) x"
        using step.hyps(1) by (intro acts.reach_succ) (simp add: acts.edges_def depsAt_clearActions)
      then show ?thesis using step.IH acts.reach_trans by blast
    qed simp
  qed simp
  then show ?thesis using r(1) by (auto simp: visitedFrom_def)
qed

section \<open>The report of a run\<close>

lemma newAnalysisLifecycle_tracks:
  assumes "newAnalysisLifecycle now name linterNames recorder requested analyzed = Some m" "distinct linterNames"
  shows "tracks (stable_sort (\<lambda>a b. cmp_string a b < 0) linterNames) zeroRun m \<and> RequestedPkgs (alReport m) = requested \<and>
    CachedPkgs (alReport m) = requested - analyzed \<and> AnalyzedPkgs (alReport m) = analyzed \<and> Analyzers (alReport m) = [] \<and>
    arError (alReport m) = []"
proof -
  let ?ns = "stable_sort (\<lambda>a b. cmp_string a b < 0) linterNames"
  let ?m = "\<lparr>alStarted = now, alReport = \<lparr>arName = name, arElapsedNS = 0, RequestedPkgs = requested,
     CachedPkgs = requested - analyzed, AnalyzedPkgs = analyzed, InitialPkgs = 0, TotalPkgs = 0, arActions = 0, Parallelism = 0,
     arScheduler = None, ConfiguredLinters = [], Analyzers = [], arError = []\<rparr>, linterIndexes = Map.empty\<rparr>"
  have m: "m = fold addLinter ?ns ?m" using assms(1) by (simp add: newAnalysisLifecycle_def split: option.splits)
  have "tracks [] zeroRun ?m" by (simp add: tracks_def)
  then have "tracks ?ns zeroRun m" unfolding m using assms(2) by (intro addLinters_tracks) simp_all
  then show ?thesis unfolding m by (simp add: addLinters_frame)
qed

lemma finishLifecycle_tracks:
  assumes "distinct ns" and m: "tracks ns f m"
  shows "\<exists>run. finishLifecycle now issues err m recorder = RecordAnalysis (Some run) recorder \<and>
    ConfiguredLinters run = map (\<lambda>n. (f n)\<lparr>clIssues := clIssues (f n) + int (length (filter (\<lambda>i. FromLinter i = n) issues))\<rparr>) ns \<and>
    Analyzers run = Analyzers (alReport m) \<and> RequestedPkgs run = RequestedPkgs (alReport m) \<and> CachedPkgs run = CachedPkgs (alReport m) \<and>
    AnalyzedPkgs run = AnalyzedPkgs (alReport m) \<and> arError run = (case err of None \<Rightarrow> arError (alReport m) | Some e \<Rightarrow> e)"
proof -
  let ?m = "m\<lparr>alReport := (alReport m)\<lparr>arElapsedNS := now - alStarted m\<rparr>\<rparr>"
  let ?m = "case err of None \<Rightarrow> ?m | Some e \<Rightarrow> ?m\<lparr>alReport := (alReport ?m)\<lparr>arError := e\<rparr>\<rparr>"
  have "tracks ns f ?m" using m by (simp add: tracks_report split: option.splits)
  from countIssues_tracks [OF assms(1) this, of issues] show ?thesis
    by (auto simp: finishLifecycle_def Let_def tracks_def countIssues_frame split: option.splits)
qed

lemma collected_actions:
  "(\<Sum>st \<leftarrow> collectAnalyzerStats G s results acts. asActions st) = int (length acts)"
  using length_named [of "stable_sort (\<lambda>a b. cmp_string a b < 0) (remdups (map (actionName G s) acts))" G s acts]
  by (simp add: collectAnalyzerStats_exact statsOf_def totals_def comp_def)

section \<open>Properties\<close>

text \<open>C37: The extraction of the results of an analysis is complete and has no duplicates. On the actions that the construction made,
  of which the executed ones have lost their dependencies, the visit always ends; it reaches every root, and every failed
  action provided that none of the executed actions depended on a failed one; an action comes after those it depends
  on. It panics exactly when a visited action ended in a panic, with that panic; and otherwise it returns the
  errors of all visited actions that failed, one for each, and of the diagnostics of the roots the first one for every
  position, analyzer and message.\<close>

theorem diagnostics_extracted:
  assumes "wellNamed G" "keys.decreasing G rank" "\<forall>k \<in> set analyzers \<times> set pkgs. rank k < n"
    and "prepareAnalysis n G pkgs analyzers = Some (Inr roots, s)" "s' = clearActions executed s" "V = visitedFrom s' roots"
  shows "set roots \<subseteq> V \<and>
    ((\<forall>i \<in> executed. \<forall>d \<in> acts.reach s i - {i}. resErr (results d) = None) \<longrightarrow>
      (\<forall>i < length (allocatedActions s). resErr (results i) \<noteq> None \<longrightarrow> i \<in> V)) \<and>
    (if \<exists>i \<in> V. panics results i
     then \<exists>e. extractDiagnostics n G s' results roots = Some (Inl e) \<and> (\<exists>i \<in> V. resErr (results i) = Some (PanicError e))
     else \<exists>order. distinct order \<and> set order = V \<and> depsFirst s' {} order \<and>
       extractDiagnostics n G s' results roots = Some (Inr
         (map (\<lambda>(act, diag). newDiagnostic G act diag) (firsts pairKey {} (concat (map (reportable s' results) order))),
          concat (map (actErrors G s' results) order))))"
proof (intro conjI)
  obtain rk where rk: "acts.decreasing s rk" "\<forall>i \<in> set roots. rk i < n" "visitedFrom s roots = {..<length (allocatedActions s)}"
    using prepared_graph [OF assms(1-4)] by blast
  show "set roots \<subseteq> V" unfolding assms(6) visitedFrom_def using acts.reach_self by fast
  show "(\<forall>i \<in> executed. \<forall>d \<in> acts.reach s i - {i}. resErr (results d) = None) \<longrightarrow>
      (\<forall>i < length (allocatedActions s). resErr (results i) \<noteq> None \<longrightarrow> i \<in> V)"
    using failures_visited [of executed s results _ roots] rk(3) unfolding assms(5,6) by blast
  show "if \<exists>i \<in> V. panics results i
     then \<exists>e. extractDiagnostics n G s' results roots = Some (Inl e) \<and> (\<exists>i \<in> V. resErr (results i) = Some (PanicError e))
     else \<exists>order. distinct order \<and> set order = V \<and> depsFirst s' {} order \<and>
       extractDiagnostics n G s' results roots = Some (Inr
         (map (\<lambda>(act, diag). newDiagnostic G act diag) (firsts pairKey {} (concat (map (reportable s' results) order))),
          concat (map (actErrors G s' results) order)))"
    using extractDiagnostics_result [OF cleared_decreasing [OF rk(1)] rk(2), of executed results G]
    unfolding assms(5,6) extraction_def by (auto split: if_splits)
qed

definition exampleResults :: "nat \<Rightarrow> ActionResult" where
  "exampleResults i = \<lparr>resErr = Some (AnalysisError ''bad''), resDiags = [], resDuration = 1\<rparr>"

theorem diagnostics_extracted_witness:
  "\<exists>roots s ds. prepareAnalysis 3 exampleGraphEnv [0] [0] = Some (Inr roots, s) \<and>
     (\<exists>errs. extractDiagnostics 3 exampleGraphEnv (clearActions {} s) exampleResults roots = Some (Inr (ds, errs)) \<and>
        length errs \<ge> length (allocatedActions s))"
proof -
  obtain s where s: "prepareAnalysis 3 exampleGraphEnv [0] [0] = Some (Inr (map (\<lambda>k. the (actionAt s k)) (rootKeys [0] [0])), s)"
    using prepareAnalysis_exact [OF exampleGraphEnv_ok] by blast
  let ?roots = "map (\<lambda>k. the (actionAt s k)) (rootKeys [0] [0])" and ?s = "clearActions {} s"
  have p: "\<not> panics exampleResults i" "resErr (exampleResults i) \<noteq> None" for i by (simp_all add: panics_def exampleResults_def)
  note ex = diagnostics_extracted [OF exampleGraphEnv_ok s refl refl, of "{}" exampleResults]
  have V: "{..<length (allocatedActions s)} \<subseteq> visitedFrom ?s ?roots" using ex p(2) by blast
  have np: "\<not> (\<exists>i \<in> visitedFrom ?s ?roots. panics exampleResults i)" using p(1) by blast
  obtain order where order: "distinct order" "set order = visitedFrom ?s ?roots"
    "\<exists>ds. extractDiagnostics 3 exampleGraphEnv ?s exampleResults ?roots =
       Some (Inr (ds, concat (map (actErrors exampleGraphEnv ?s exampleResults) order)))"
    using ex [THEN conjunct2, THEN conjunct2, unfolded if_not_P [OF np]] by blast
  have "length (concat (map (actErrors exampleGraphEnv ?s exampleResults) order)) = length order"
    by (simp add: length_concat comp_def actErrors_def exampleResults_def sum_list_triv)
  also have "\<dots> \<ge> length (allocatedActions s)" using distinct_card [OF order(1)] card_mono [OF _ V [folded order(2)]] by simp
  finally show ?thesis using s order(3) by blast
qed

text \<open>The report about an analysis adds up. One report is recorded; the packages asked for are those from the cache and those
  analyzed; there is one entry for every configured linter, in the order of their names, whose actions, errors and time
  are the sums over the analyzers of the linter and whose issues are the issues reported from it; and over all the
  analyzers every executed action is counted exactly once.\<close>

theorem analysis_report_adds_up:
  assumes "newAnalysisLifecycle now name linterNames (Some rec) requested analyzed = Some m" "distinct linterNames"
    and "statAnalyzers stats = collectAnalyzerStats G s results acts"
    and "recordStats nameOf linterOf stats (Some m) = Some m'"
  shows "\<exists>run. finishLifecycle now' issues err m' (Some rec) = RecordAnalysis (Some run) (Some rec) \<and>
    RequestedPkgs run = requested \<and> RequestedPkgs run = CachedPkgs run + AnalyzedPkgs run \<and>
    arError run = (case err of None \<Rightarrow> [] | Some e \<Rightarrow> e) \<and>
    (\<Sum>a \<leftarrow> Analyzers run. azActions a) = int (length acts) \<and>
    ConfiguredLinters run = map (\<lambda>l. let mine = filter (\<lambda>st. linterOf (asAnalyzer st) = l) (collectAnalyzerStats G s results acts) in
      \<lparr>clName = l, clElapsedNS = sum_list (map asElapsed mine), clActions = sum_list (map asActions mine),
       clIssues = int (length (filter (\<lambda>i. FromLinter i = l) issues)), clErrors = sum_list (map asErrors mine)\<rparr>)
      (stable_sort (\<lambda>a b. cmp_string a b < 0) linterNames)"
proof -
  let ?ns = "stable_sort (\<lambda>a b. cmp_string a b < 0) linterNames" and ?st = "collectAnalyzerStats G s results acts"
  note new = newAnalysisLifecycle_tracks [OF assms(1,2)]
  have ns: "distinct ?ns" using assms(2) by simp
  obtain r0 where m': "m' = fold (recordAnalyzer nameOf linterOf) ?st (m\<lparr>alReport := r0\<rparr>)"
    and r0: "ConfiguredLinters r0 = ConfiguredLinters (alReport m)" "Analyzers r0 = Analyzers (alReport m)"
      "RequestedPkgs r0 = RequestedPkgs (alReport m)" "CachedPkgs r0 = CachedPkgs (alReport m)"
      "AnalyzedPkgs r0 = AnalyzedPkgs (alReport m)" "arError r0 = arError (alReport m)"
    using assms(3,4) unfolding recordStats_def Let_def by fastforce
  have t: "tracks ?ns zeroRun (m\<lparr>alReport := r0\<rparr>)" using new r0(1) by (simp add: tracks_report)
  note fr = recordAnalyzers_frame [of nameOf linterOf ?st "m\<lparr>alReport := r0\<rparr>"]
  have "map azActions (Analyzers (alReport m')) = map asActions ?st" using fr new r0(2) by (simp add: m')
  then have "(\<Sum>a \<leftarrow> Analyzers (alReport m'). azActions a) = int (length acts)" using collected_actions [of G s results acts] by simp
  moreover obtain run where run: "finishLifecycle now' issues err m' (Some rec) = RecordAnalysis (Some run) (Some rec)"
      "ConfiguredLinters run = map (\<lambda>l. let mine = filter (\<lambda>st. linterOf (asAnalyzer st) = l) ?st in
        \<lparr>clName = l, clElapsedNS = sum_list (map asElapsed mine), clActions = sum_list (map asActions mine),
         clIssues = int (length (filter (\<lambda>i. FromLinter i = l) issues)), clErrors = sum_list (map asErrors mine)\<rparr>) ?ns"
      "Analyzers run = Analyzers (alReport m')" "RequestedPkgs run = RequestedPkgs (alReport m')" "CachedPkgs run = CachedPkgs (alReport m')"
      "AnalyzedPkgs run = AnalyzedPkgs (alReport m')" "arError run = (case err of None \<Rightarrow> arError (alReport m') | Some e \<Rightarrow> e)"
    using finishLifecycle_tracks [OF ns recordAnalyzers_tracks [OF ns t, of linterOf ?st nameOf, folded m'], of now' issues err "Some rec"]
    by (auto simp: zeroRun_def linterStats_def Let_def)
  moreover have "RequestedPkgs (alReport m') = requested" "CachedPkgs (alReport m') = requested - analyzed"
      "AnalyzedPkgs (alReport m') = analyzed" "arError (alReport m') = []"
    using fr new r0 by (simp_all add: m')
  ultimately show ?thesis by (intro exI [of _ run]) (simp split: option.splits)
qed

definition exampleAnalysisStats :: analysisStats where
  "exampleAnalysisStats = \<lparr>initialPackages = 1, totalPackages = 2, statActions = 0, statParallelism = 4,
     statAnalyzers = collectAnalyzerStats exampleGraphEnv (newActionAllocator 2) exampleResults [0, 1], statScheduler = zeroStats\<rparr>"

theorem analysis_report_adds_up_witness:
  "\<exists>m m' run. newAnalysisLifecycle 0 ''run'' [''b'', ''a''] (Some (NewRecorder 0)) 3 1 = Some m \<and>
     recordStats (\<lambda>_. ''x'') (\<lambda>_. ''a'') exampleAnalysisStats (Some m) = Some m' \<and>
     finishLifecycle 9 [] None m' (Some (NewRecorder 0)) = RecordAnalysis (Some run) (Some (NewRecorder 0)) \<and>
     (\<Sum>a \<leftarrow> Analyzers run. azActions a) = 2 \<and> RequestedPkgs run = 3"
proof -
  obtain m m' where m: "newAnalysisLifecycle 0 ''run'' [''b'', ''a''] (Some (NewRecorder 0)) 3 1 = Some m"
      "recordStats (\<lambda>_. ''x'') (\<lambda>_. ''a'') exampleAnalysisStats (Some m) = Some m'"
    by (simp add: newAnalysisLifecycle_def recordStats_def)
  have d: "distinct [''b'', ''a'']" by simp
  have st: "statAnalyzers exampleAnalysisStats = collectAnalyzerStats exampleGraphEnv (newActionAllocator 2) exampleResults [0, 1]"
    by (simp add: exampleAnalysisStats_def)
  from analysis_report_adds_up [OF m(1) d st m(2), of 9 "[]" None] m show ?thesis by auto
qed

end
