(* ===== verification/Action_Facts.thy ===== *)
theory Action_Facts
  imports Action_Graph Disk_Cache
begin

text \<open>
  The execution of an action and the facts of analyzers (\<open>pkg/goanalysis/runner_checker.go\<close>, \<open>runner_action.go\<close>,
  \<open>runner_action_cache.go\<close>, \<open>runner_loadingpackage.go\<close>): facts about objects and packages are inherited from
  the actions on imported packages, exported by the analyzer, written to the cache as a bundle for each package, and
  restored from it.

  An object and a package of \<open>go/types\<close> are identified by what they declare: pointers differ from one run to the
  next, the declaration does not; the types of a package are addressed by the package. What an object is, its path
  (\<open>objectpath\<close>), what an analyzer does, and the loading of type information are parameters. An analyzer is a function
  from its inputs and the facts it inherits to what it exports, reports and returns. Time is left out.
\<close>

section \<open>Objects, facts and errors\<close>

datatype ObjKind = FuncObj bool | VarObj bool | TypeNameObj | ConstObj | OtherObj

text \<open>Functions say whether they have a receiver, variables whether they are fields; universe objects have no package.\<close>

record ObjInfo =
  objKind :: ObjKind
  objExported :: bool
  objPkg :: "nat option"

record FactValue =
  typOf :: string
  isPointer :: bool
  factText :: string

record Fact =
  fPath :: string
  fFact :: FactValue

type_synonym objectFactKey = "nat \<times> string"
type_synonym packageFactKey = "nat \<times> string"

text \<open>Errors as far as \<open>errors.Unwrap\<close> tells them apart: an error that wraps another, one that joins several, and the rest.\<close>

datatype go_err =
    PlainErr string
  | WrapErr string go_err
  | JoinErr "go_err list"
  | IllTypedErr nat
  | PanicErr nat nat bool bool string

fun errUnwrap :: "go_err \<Rightarrow> go_err option" where
  "errUnwrap (WrapErr s e) = Some e"
| "errUnwrap _ = None"

definition errJoin :: "go_err option list \<Rightarrow> go_err option" where
  "errJoin es = (let es' = List.map_filter id es in if es' = [] then None else Some (JoinErr es'))"

text \<open>How an execution can stop: a panic, which is recovered, or the end of the process.\<close>

datatype fact_stop = Panicked string | Fatal string

text \<open>An action with the fields that its execution fills.\<close>

record exec_action = action +
  actResult :: "(string \<times> string) option"
  actErr :: "go_err option"
  actDiags :: "(string \<times> string) list"
  hasPass :: bool
  exportOpen :: bool
  objectFacts :: "objectFactKey \<rightharpoonup> FactValue"
  packageFacts :: "packageFactKey \<rightharpoonup> FactValue"
  loadCachedFactsDone :: bool
  loadCachedFactsOk :: bool
  cachedFactsApplied :: bool
  cachedFacts :: "Fact list option"

type_synonym store = "nat \<Rightarrow> exec_action"

datatype RunEvent = ExportObject nat FactValue | ExportPackage FactValue | Report string

datatype RunEnd = RunResult "(string \<times> string) option" | RunError go_err | RunPanic string

record RunOutcome =
  roEvents :: "RunEvent list"
  roEnd :: RunEnd

type_synonym inputs = "nat \<rightharpoonup> (string \<times> string) option"

record FactEnv =
  graphEnv :: GraphEnv
  objInfo :: "nat \<Rightarrow> ObjInfo"
  pathFor :: "nat \<Rightarrow> string option"
  objectAt :: "nat \<Rightarrow> string \<Rightarrow> nat option"
  IllTyped :: "nat \<Rightarrow> bool"
  ResultType :: "nat \<Rightarrow> string option"
  ResolveURL :: "nat \<Rightarrow> string \<Rightarrow> go_err + string"
  analyzerRun :: "nat \<Rightarrow> nat \<Rightarrow> inputs \<Rightarrow> (objectFactKey \<rightharpoonup> FactValue) \<Rightarrow> (packageFactKey \<rightharpoonup> FactValue) \<Rightarrow> RunOutcome"

definition usesFacts :: "FactEnv \<Rightarrow> nat \<Rightarrow> bool" where
  "usesFacts E a \<longleftrightarrow> FactTypes (analyzer (graphEnv E) a) \<noteq> []"

section \<open>Facts of an action\<close>

definition exportedFrom :: "ObjInfo \<Rightarrow> nat \<Rightarrow> bool" where
  "exportedFrom obj pkg = (case objKind obj of
       FuncObj recv \<Rightarrow> objExported obj \<and> objPkg obj = Some pkg \<or> recv
     | VarObj field \<Rightarrow> field \<or> objPkg obj = Some pkg
     | TypeNameObj \<Rightarrow> True
     | ConstObj \<Rightarrow> True
     | OtherObj \<Rightarrow> False)"

definition inheritFacts :: "FactEnv \<Rightarrow> exec_action \<Rightarrow> exec_action \<Rightarrow> exec_action" where
  "inheritFacts E act dep = act\<lparr>
     objectFacts := (\<lambda>k. case objectFacts dep k of
         None \<Rightarrow> objectFacts act k
       | Some fv \<Rightarrow> if \<not> exportedFrom (objInfo E (fst k)) (actPackage dep) then objectFacts act k else Some fv),
     packageFacts := packageFacts act ++ packageFacts dep\<rparr>"

definition factType :: "FactValue \<Rightarrow> fact_stop + string" where
  "factType fv = (if \<not> isPointer fv then Inl (Fatal (''invalid Fact type: got '' @ typOf fv @ '', want pointer'')) else Inr (typOf fv))"

definition ObjectFact :: "exec_action \<Rightarrow> nat \<Rightarrow> FactValue \<Rightarrow> fact_stop + FactValue option" where
  "ObjectFact act obj ptr = (case factType ptr of Inl e \<Rightarrow> Inl e | Inr t \<Rightarrow> Inr (objectFacts act (obj, t)))"

definition PackageFact :: "exec_action \<Rightarrow> nat \<Rightarrow> FactValue \<Rightarrow> fact_stop + FactValue option" where
  "PackageFact act pkg ptr = (case factType ptr of Inl e \<Rightarrow> Inl e | Inr t \<Rightarrow> Inr (packageFacts act (pkg, t)))"

definition exportObjectFact :: "FactEnv \<Rightarrow> nat \<Rightarrow> FactValue \<Rightarrow> exec_action \<Rightarrow> fact_stop + exec_action" where
  "exportObjectFact E obj fv act =
     (if \<not> exportOpen act then Inl (Panicked ''Pass.ExportObjectFact called after Run'')
      else if objPkg (objInfo E obj) \<noteq> Some (actPackage act) then Inl (Panicked ''facts on objects of another package'')
      else case factType fv of
        Inl e \<Rightarrow> Inl e
      | Inr t \<Rightarrow> Inr (act\<lparr>objectFacts := (objectFacts act)((obj, t) \<mapsto> fv)\<rparr>))"

definition exportPackageFact :: "FactValue \<Rightarrow> exec_action \<Rightarrow> fact_stop + exec_action" where
  "exportPackageFact fv act =
     (if \<not> exportOpen act then Inl (Panicked ''Pass.ExportPackageFact called after Run'')
      else case factType fv of
        Inl e \<Rightarrow> Inl e
      | Inr t \<Rightarrow> Inr (act\<lparr>packageFacts := (packageFacts act)((actPackage act, t) \<mapsto> fv)\<rparr>))"

definition doEvent :: "FactEnv \<Rightarrow> RunEvent \<Rightarrow> exec_action \<Rightarrow> fact_stop + exec_action" where
  "doEvent E x act = (case x of
       ExportObject obj fv \<Rightarrow> exportObjectFact E obj fv act
     | ExportPackage fv \<Rightarrow> exportPackageFact fv act
     | Report d \<Rightarrow> Inr (act\<lparr>actDiags := actDiags act @ [(d, [])]\<rparr>))"

text \<open>A loop that ends with the first failure; the state at the failure is kept.\<close>

fun whileOk :: "('a \<Rightarrow> 's \<Rightarrow> 'e + 's) \<Rightarrow> 'a list \<Rightarrow> 's \<Rightarrow> 'e option \<times> 's" where
  "whileOk f [] s = (None, s)"
| "whileOk f (x # xs) s = (case f x s of Inl e \<Rightarrow> (Some e, s) | Inr s \<Rightarrow> whileOk f xs s)"

section \<open>Execution of an action\<close>

text \<open>The results of actions on the same package are inputs, the facts of the same analyzer on imported packages are inherited.\<close>

definition plumb :: "FactEnv \<Rightarrow> store \<Rightarrow> nat \<Rightarrow> inputs \<times> exec_action \<Rightarrow> inputs \<times> exec_action" where
  "plumb E st d x = (let (inputs, act) = x; dep = st d in
     if actPackage dep = actPackage act then (inputs(actAnalyzer dep \<mapsto> actResult dep), act)
     else if actAnalyzer dep = actAnalyzer act then (inputs, inheritFacts E act dep)
     else x)"

fun resolveURLs :: "(string \<Rightarrow> go_err + string) \<Rightarrow> (string \<times> string) list \<Rightarrow> go_err option \<times> (string \<times> string) list" where
  "resolveURLs resolve [] = (None, [])"
| "resolveURLs resolve (d # ds) = (case resolve (fst d) of
     Inl e \<Rightarrow> (Some e, d # ds)
   | Inr url \<Rightarrow> (let (e, ds) = resolveURLs resolve ds in (e, (fst d, url) # ds)))"

text \<open>The end of a run that did not stop.\<close>

definition endRun :: "FactEnv \<Rightarrow> RunEnd \<Rightarrow> exec_action \<Rightarrow> fact_stop option \<times> exec_action" where
  "endRun E fin act = (case fin of
       RunPanic s \<Rightarrow> (Some (Panicked s), act)
     | RunError e \<Rightarrow> (None, act\<lparr>actResult := None, actErr := Some e, exportOpen := False\<rparr>)
     | RunResult r \<Rightarrow>
         (if map_option fst r \<noteq> ResultType E (actAnalyzer act) then
            (None, act\<lparr>actResult := None, actErr := Some (PlainErr ''internal error: result type''), exportOpen := False\<rparr>)
          else case resolveURLs (ResolveURL E (actAnalyzer act)) (actDiags act) of
            (Some e, ds) \<Rightarrow> (None, act\<lparr>actDiags := ds, actResult := None, actErr := Some e, exportOpen := False\<rparr>)
          | (None, ds) \<Rightarrow> (None, act\<lparr>actDiags := ds, actResult := r, actErr := None, exportOpen := False\<rparr>)))"

definition runAnalyzer :: "FactEnv \<Rightarrow> inputs \<Rightarrow> exec_action \<Rightarrow> fact_stop option \<times> exec_action" where
  "runAnalyzer E inputs act =
     (if IllTyped E (actPackage act) then
        (None, act\<lparr>actResult := None, actErr := Some (WrapErr ''analysis skipped: '' (IllTypedErr (actPackage act))), exportOpen := False\<rparr>)
      else
        (let out = analyzerRun E (actAnalyzer act) (actPackage act) inputs (objectFacts act) (packageFacts act) in
         case whileOk (doEvent E) (roEvents out) act of
           (Some stop, act) \<Rightarrow> (Some stop, act)
         | (None, act) \<Rightarrow> endRun E (roEnd out) act))"

definition depErrors :: "store \<Rightarrow> exec_action \<Rightarrow> go_err option" where
  "depErrors st act = fold (\<lambda>d errs. case actErr (st d) of None \<Rightarrow> errs | Some e \<Rightarrow> errJoin [errs, errUnwrap e]) (actDeps act) None"

definition analyzeAction :: "FactEnv \<Rightarrow> nat \<Rightarrow> store \<Rightarrow> fact_stop option \<times> store" where
  "analyzeAction E i st =
     (let act = st i in
      if \<not> needAnalyzeSource act then (None, st)
      else case depErrors st act of
        Some e \<Rightarrow> (None, st(i := act\<lparr>actErr := Some (WrapErr ''failed prerequisites: '' e)\<rparr>))
      | None \<Rightarrow>
          (let (inputs, act) = fold (plumb E st) (actDeps act) (Map.empty, act\<lparr>objectFacts := Map.empty, packageFacts := Map.empty\<rparr>);
               (stop, act) = runAnalyzer E inputs (act\<lparr>hasPass := True, exportOpen := True\<rparr>)
           in (stop, st(i := act))))"

definition analyzeSafe :: "FactEnv \<Rightarrow> nat \<Rightarrow> store \<Rightarrow> fact_stop option \<times> store" where
  "analyzeSafe E i st = (case analyzeAction E i st of
       (Some (Panicked s), st) \<Rightarrow> (None, st(i := (st i)\<lparr>actErr :=
          Some (PanicErr (actAnalyzer (st i)) (actPackage (st i)) (isInitialPkg (st i)) (needAnalyzeSource (st i)) s)\<rparr>))
     | r \<Rightarrow> r)"

section \<open>The cache of facts\<close>

text \<open>Maps are visited in the given orders of their keys.\<close>

definition persistedFacts :: "FactEnv \<Rightarrow> packageFactKey list \<Rightarrow> objectFactKey list \<Rightarrow> exec_action \<Rightarrow> Fact list" where
  "persistedFacts E pkgOrder objOrder act =
     (if \<not> usesFacts E (actAnalyzer act) then []
      else List.map_filter (\<lambda>key. case packageFacts act key of
             None \<Rightarrow> None
           | Some fv \<Rightarrow> if fst key \<noteq> actPackage act then None else Some \<lparr>fPath = [], fFact = fv\<rparr>) pkgOrder @
           List.map_filter (\<lambda>key. case objectFacts act key of
             None \<Rightarrow> None
           | Some fv \<Rightarrow> if objPkg (objInfo E (fst key)) \<noteq> Some (actPackage act) then None
               else case pathFor E (fst key) of None \<Rightarrow> None | Some path \<Rightarrow> Some \<lparr>fPath = path, fFact = fv\<rparr>) objOrder)"

definition applyFact :: "FactEnv \<Rightarrow> Fact \<Rightarrow> exec_action \<Rightarrow> fact_stop + exec_action" where
  "applyFact E f act =
     (if fPath f = [] then (case factType (fFact f) of
          Inl e \<Rightarrow> Inl e
        | Inr t \<Rightarrow> Inr (act\<lparr>packageFacts := (packageFacts act)((actPackage act, t) \<mapsto> fFact f)\<rparr>))
      else case objectAt E (actPackage act) (fPath f) of
        None \<Rightarrow> Inr act
      | Some obj \<Rightarrow> (case factType (fFact f) of
          Inl e \<Rightarrow> Inl e
        | Inr t \<Rightarrow> Inr (act\<lparr>objectFacts := (objectFacts act)((obj, t) \<mapsto> fFact f)\<rparr>)))"

definition applyPersistedFacts :: "FactEnv \<Rightarrow> Fact list \<Rightarrow> exec_action \<Rightarrow> fact_stop option \<times> exec_action" where
  "applyPersistedFacts E facts act = whileOk (applyFact E) facts act"

definition inheritFactsFromDeps :: "FactEnv \<Rightarrow> store \<Rightarrow> exec_action \<Rightarrow> exec_action" where
  "inheritFactsFromDeps E st act = fold (\<lambda>d act. let dep = st d in
     if actPackage dep = actPackage act \<or> actAnalyzer dep \<noteq> actAnalyzer act then act else inheritFacts E act dep) (actDeps act) act"

definition applyCachedFacts :: "FactEnv \<Rightarrow> nat \<Rightarrow> store \<Rightarrow> fact_stop option \<times> store" where
  "applyCachedFacts E i st =
     (let act = st i in
      if cachedFactsApplied act \<or> \<not> loadCachedFactsOk act \<or> isInitialPkg act \<or> \<not> usesFacts E (actAnalyzer act) then (None, st)
      else case applyPersistedFacts E (case cachedFacts act of None \<Rightarrow> [] | Some facts \<Rightarrow> facts) act of
        (Some stop, act) \<Rightarrow> (Some stop, st(i := act))
      | (None, act) \<Rightarrow> (None, st(i := inheritFactsFromDeps E st (act\<lparr>cachedFacts := None, cachedFactsApplied := True\<rparr>))))"

definition readCachedFacts :: "FactEnv \<Rightarrow> exec_action \<Rightarrow> bool \<times> exec_action" where
  "readCachedFacts E act =
     (if loadCachedFactsDone act then (loadCachedFactsOk act, act)
      else (let ok = (if isInitialPkg act then True else if \<not> usesFacts E (actAnalyzer act) then True else cachedFacts act \<noteq> None)
            in (ok, act\<lparr>loadCachedFactsDone := True, loadCachedFactsOk := ok\<rparr>)))"

definition loadCachedFacts :: "FactEnv \<Rightarrow> nat \<Rightarrow> store \<Rightarrow> fact_stop option \<times> bool \<times> store" where
  "loadCachedFacts E i st =
     (let (ok, act) = readCachedFacts E (st i); st = st(i := act) in
      if \<not> ok then (None, False, st) else (let (stop, st) = applyCachedFacts E i st in (stop, True, st)))"

text \<open>Marking of the actions on the same package that an action depends on.\<close>

primrec markDeps :: "nat \<Rightarrow> nat \<Rightarrow> store \<Rightarrow> store option" where
  "markDeps 0 i st = None"
| "markDeps (Suc n) i st = eachO (\<lambda>d st.
     if actPackage (st d) = actPackage (st i) \<and> \<not> needAnalyzeSource (st d)
     then markDeps n d (st(d := (st d)\<lparr>needAnalyzeSource := True\<rparr>)) else Some st) (actDeps (st i)) st"

definition factCacheKey :: "(string \<Rightarrow> string) \<Rightarrow> FactEnv \<Rightarrow> string \<Rightarrow> exec_action list \<Rightarrow> string" where
  "factCacheKey sha256 E pre acts =
     (let names = stable_sort (\<lambda>a b. cmp_string a b < 0)
            (map (\<lambda>act. anName (analyzer (graphEnv E) (actAnalyzer act))) (filter (\<lambda>act. usesFacts E (actAnalyzer act)) acts));
          hash = sha256 (concat (map (\<lambda>name. formatInt (int (length name)) @ '':'' @ name @ [newline]) names))
      in pre @ ''/facts-v2/'' @ hexOf hash)"

section \<open>The facts of a package\<close>

type_synonym factBundle = "string \<rightharpoonup> Fact list"

datatype get_error = CacheMissing | CacheEOF | CacheErr string

record LoadState =
  lsStore :: store
  lpCachedFacts :: "factBundle option"
  lsPkgErrors :: "string list"
  lsLog :: "string list"

definition nameOf :: "FactEnv \<Rightarrow> exec_action \<Rightarrow> string" where
  "nameOf E act = anName (analyzer (graphEnv E) (actAnalyzer act))"

definition markLoaded :: "FactEnv \<Rightarrow> factBundle \<Rightarrow> nat \<Rightarrow> store \<Rightarrow> store" where
  "markLoaded E b i st =
     (let act = (st i)\<lparr>loadCachedFactsDone := True\<rparr> in
      if \<not> usesFacts E (actAnalyzer act) then st(i := act\<lparr>loadCachedFactsOk := True\<rparr>)
      else case b (nameOf E act) of
        None \<Rightarrow> st(i := act\<lparr>loadCachedFactsOk := False\<rparr>)
      | Some facts \<Rightarrow> st(i := act\<lparr>loadCachedFactsOk := True, cachedFacts := Some facts\<rparr>))"

text \<open>\<open>lookup\<close> answers for a key of the cache of the package.\<close>

definition readPackageFacts ::
  "(string \<Rightarrow> string) \<Rightarrow> FactEnv \<Rightarrow> string \<Rightarrow> (string \<Rightarrow> get_error + factBundle) \<Rightarrow> bool \<Rightarrow> nat list \<Rightarrow> LoadState \<Rightarrow> LoadState" where
  "readPackageFacts sha256 E pre lookup isInitial acts ls =
     (let st = lsStore ls in
      if isInitial then ls
      else case find (\<lambda>i. usesFacts E (actAnalyzer (st i)) \<and> \<not> loadCachedFactsDone (st i)) acts of
        None \<Rightarrow> ls
      | Some _ \<Rightarrow>
          (let (b, warn) = (case lookup (factCacheKey sha256 E pre (map st acts)) of
                 Inl e \<Rightarrow> (None, if e = CacheMissing \<or> e = CacheEOF then [] else [''Failed to get persisted facts''])
               | Inr b \<Rightarrow> (Some b, []))
           in ls\<lparr>lpCachedFacts := b, lsLog := lsLog ls @ warn,
                lsStore := fold (markLoaded E (case b of None \<Rightarrow> Map.empty | Some b \<Rightarrow> b)) acts st\<rparr>))"

text \<open>The bundle to write: the one that was read, with the facts of every action that was to be analyzed replaced or removed.\<close>

definition bundleStep :: "FactEnv \<Rightarrow> (nat \<Rightarrow> packageFactKey list \<times> objectFactKey list) \<Rightarrow> store \<Rightarrow> nat \<Rightarrow> factBundle \<times> bool \<Rightarrow> factBundle \<times> bool" where
  "bundleStep E orders st i bc = (let act = st i in
     if \<not> usesFacts E (actAnalyzer act) \<or> \<not> needAnalyzeSource act then bc
     else ((fst bc)(nameOf E act := (if hasPass act then Some (persistedFacts E (fst (orders i)) (snd (orders i)) act) else None)), True))"

definition persistFactsToCache ::
  "(string \<Rightarrow> string) \<Rightarrow> FactEnv \<Rightarrow> string \<Rightarrow> (nat \<Rightarrow> packageFactKey list \<times> objectFactKey list) \<Rightarrow> nat list \<Rightarrow> LoadState \<Rightarrow>
   (string \<times> factBundle) option \<times> LoadState" where
  "persistFactsToCache sha256 E pre orders acts ls =
     (let st = lsStore ls; (b, changed) = fold (bundleStep E orders st) acts (case lpCachedFacts ls of None \<Rightarrow> Map.empty | Some b \<Rightarrow> b, False)
      in (if \<not> changed then None else Some (factCacheKey sha256 E pre (map st acts), b), ls\<lparr>lpCachedFacts := None\<rparr>))"

text \<open>Actions without cached facts, and what they need from the same package, are to be analyzed from source.\<close>

definition needSource :: "nat \<Rightarrow> FactEnv \<Rightarrow> nat \<Rightarrow> bool \<times> store \<Rightarrow> (bool \<times> store) option" where
  "needSource n E i x =
     (let (need, st) = x; (ok, act) = readCachedFacts E (st i); st = st(i := act) in
      if ok then Some (need, st)
      else map_option (Pair True) (markDeps n i (st(i := (st i)\<lparr>needAnalyzeSource := True\<rparr>))))"

definition applyOrDrop :: "FactEnv \<Rightarrow> nat \<Rightarrow> store \<Rightarrow> fact_stop + store" where
  "applyOrDrop E i st =
     (if needAnalyzeSource (st i) then Inr (st(i := (st i)\<lparr>cachedFacts := None\<rparr>))
      else case applyCachedFacts E i st of (Some stop, st) \<Rightarrow> Inl stop | (None, st) \<Rightarrow> Inr st)"

text \<open>How the loading of a package goes: from source, from export data. The result is a stop of the process, or an error or none.\<close>

record Loading =
  typesNeeded :: bool
  fromSource :: "string option"
  fromExportData :: "string option"

definition loadImportedPackageWithFacts ::
  "nat \<Rightarrow> (string \<Rightarrow> string) \<Rightarrow> FactEnv \<Rightarrow> string \<Rightarrow> (string \<Rightarrow> get_error + factBundle) \<Rightarrow> Loading \<Rightarrow> nat list \<Rightarrow> LoadState \<Rightarrow>
   ((fact_stop + string option) \<times> LoadState) option" where
  "loadImportedPackageWithFacts n sha256 E pre lookup ld acts ls =
     (let ls = readPackageFacts sha256 E pre lookup False acts ls in
      case eachO (needSource n E) acts (False, lsStore ls) of
        None \<Rightarrow> None
      | Some (need, st) \<Rightarrow>
          (let ls = ls\<lparr>lsStore := st\<rparr>;
               finish = (case whileOk (applyOrDrop E) acts st of
                   (Some stop, st) \<Rightarrow> (Inl stop, ls\<lparr>lsStore := st\<rparr>)
                 | (None, st) \<Rightarrow> (Inr None, ls\<lparr>lsStore := st, lpCachedFacts := (if need then lpCachedFacts ls else None)\<rparr>))
           in Some (
             if need then (case fromSource ld of Some e \<Rightarrow> (Inr (Some e), ls) | None \<Rightarrow> finish)
             else if typesNeeded ld then (case fromExportData ld of
                 Some e \<Rightarrow> (case fromSource ld of
                     Some srcErr \<Rightarrow> (Inr (Some srcErr), ls)
                   | None \<Rightarrow> (Inr None, ls\<lparr>lsPkgErrors := lsPkgErrors ls @ [''could not load export data: '' @ e]\<rparr>))
               | None \<Rightarrow> finish)
             else finish)))"

text \<open>A package whose types are there already: the facts are applied at once.\<close>

definition loadOrMark :: "nat \<Rightarrow> FactEnv \<Rightarrow> nat \<Rightarrow> fact_stop option \<times> bool \<times> store \<Rightarrow> (fact_stop option \<times> bool \<times> store) option" where
  "loadOrMark n E i x = (let (stop, need, st) = x in
     if stop \<noteq> None then Some x
     else (let (stop, ok, st) = loadCachedFacts E i st in
       if stop \<noteq> None then Some (stop, need, st)
       else if ok then Some (None, need, st)
       else map_option (\<lambda>st. (None, True, st)) (markDeps n i (st(i := (st i)\<lparr>needAnalyzeSource := True\<rparr>)))))"

definition loadWithFacts ::
  "nat \<Rightarrow> (string \<Rightarrow> string) \<Rightarrow> FactEnv \<Rightarrow> string \<Rightarrow> (string \<Rightarrow> get_error + factBundle) \<Rightarrow> Loading \<Rightarrow> bool \<Rightarrow> bool \<Rightarrow> bool \<Rightarrow> nat list \<Rightarrow> LoadState \<Rightarrow>
   ((fact_stop + string option) \<times> LoadState) option" where
  "loadWithFacts n sha256 E pre lookup ld isUnsafe isLoaded isInitial acts ls =
     (if isUnsafe then Some (Inr None, ls)
      else if isLoaded then
        (let ls = readPackageFacts sha256 E pre lookup isInitial acts ls in
         case eachO (loadOrMark n E) acts (None, False, lsStore ls) of
           None \<Rightarrow> None
         | Some (Some stop, need, st) \<Rightarrow> Some (Inl stop, ls\<lparr>lsStore := st\<rparr>)
         | Some (None, need, st) \<Rightarrow> Some (Inr None, ls\<lparr>lsStore := st, lpCachedFacts := (if need then lpCachedFacts ls else None)\<rparr>))
      else if isInitial then Some (Inr (fromSource ld), ls)
      else loadImportedPackageWithFacts n sha256 E pre lookup ld acts ls)"

text \<open>The analysis of a package: \<open>order\<close> are the actions that the scheduler executed, in the order in which they did, and
  \<open>failed\<close> says whether its result is an error. The result has the bundle to write and whether everything is cancelled.\<close>

definition analyzePackage ::
  "nat \<Rightarrow> (string \<Rightarrow> string) \<Rightarrow> FactEnv \<Rightarrow> string \<Rightarrow> (string \<Rightarrow> get_error + factBundle) \<Rightarrow> (nat \<Rightarrow> packageFactKey list \<times> objectFactKey list) \<Rightarrow>
   Loading \<Rightarrow> bool \<Rightarrow> bool \<Rightarrow> bool \<Rightarrow> nat list \<Rightarrow> nat list \<Rightarrow> bool \<Rightarrow> LoadState \<Rightarrow>
   ((fact_stop + (string \<times> factBundle) option \<times> bool) \<times> LoadState) option" where
  "analyzePackage n sha256 E pre lookup orders ld isUnsafe isLoaded isInitial acts order failed ls =
     (case loadWithFacts n sha256 E pre lookup ld isUnsafe isLoaded isInitial acts ls of
        None \<Rightarrow> None
      | Some (Inl stop, ls) \<Rightarrow> Some (Inl stop, ls)
      | Some (Inr (Some e), ls) \<Rightarrow>
          Some (Inr (None, False), ls\<lparr>
            lsStore := fold (\<lambda>i st. st(i := (st i)\<lparr>actErr := Some (WrapErr ''failed to load package: '' (PlainErr e))\<rparr>)) acts (lsStore ls),
            lsLog := (if acts = [] then lsLog ls @ [''no action but there is an error: '' @ e] else lsLog ls)\<rparr>)
      | Some (Inr None, ls) \<Rightarrow>
          (case whileOk (\<lambda>i st. case analyzeSafe E i st of (Some stop, st) \<Rightarrow> Inl stop | (None, st) \<Rightarrow> Inr st) order (lsStore ls) of
             (Some stop, st) \<Rightarrow> Some (Inl stop, ls\<lparr>lsStore := st\<rparr>)
           | (None, st) \<Rightarrow>
               (let (b, ls) = persistFactsToCache sha256 E pre orders acts (ls\<lparr>lsStore := st\<rparr>) in Some (Inr (b, failed), ls))))"

section \<open>What a package can see of facts\<close>

text \<open>An object is visible to importing packages when its path leads back to it.\<close>

definition visible :: "FactEnv \<Rightarrow> nat \<Rightarrow> bool" where
  "visible E obj \<longleftrightarrow> (case (objPkg (objInfo E obj), pathFor E obj) of
     (Some p, Some path) \<Rightarrow> objectAt E p path = Some obj | _ \<Rightarrow> False)"

text \<open>Actions that differ at most in facts about objects that are not visible.\<close>

definition sameSeen :: "FactEnv \<Rightarrow> exec_action \<Rightarrow> exec_action \<Rightarrow> bool" where
  "sameSeen E x y \<longleftrightarrow> (\<forall>obj t. visible E obj \<longrightarrow> objectFacts y (obj, t) = objectFacts x (obj, t)) \<and> packageFacts y = packageFacts x \<and>
     actAnalyzer y = actAnalyzer x \<and> actPackage y = actPackage x \<and> actDeps y = actDeps x \<and> isInitialPkg y = isInitialPkg x \<and>
     needAnalyzeSource y = needAnalyzeSource x \<and> actResult y = actResult x \<and> actErr y = actErr x \<and> actDiags y = actDiags x \<and>
     hasPass y = hasPass x \<and> exportOpen y = exportOpen x"

lemma sameSeen_refl [simp]: "sameSeen E x x"
  by (simp add: sameSeen_def)

text \<open>What the code asks of its parameters: paths are not empty and lead to their object or nowhere, and an analyzer depends on
  inherited facts only as far as their objects are visible.\<close>

definition lawful :: "FactEnv \<Rightarrow> bool" where
  "lawful E \<longleftrightarrow>
     (\<forall>obj path. pathFor E obj = Some path \<longrightarrow> path \<noteq> []) \<and>
     (\<forall>obj p path obj'. objPkg (objInfo E obj) = Some p \<longrightarrow> pathFor E obj = Some path \<longrightarrow> objectAt E p path = Some obj' \<longrightarrow> obj' = obj) \<and>
     (\<forall>a p inputs m m' pf. (\<forall>obj t. visible E obj \<longrightarrow> m (obj, t) = m' (obj, t)) \<longrightarrow> analyzerRun E a p inputs m pf = analyzerRun E a p inputs m' pf)"

lemma lawfulD:
  assumes "lawful E"
  shows "pathFor E obj = Some path \<Longrightarrow> path \<noteq> []"
    and "objPkg (objInfo E obj) = Some p \<Longrightarrow> pathFor E obj = Some path \<Longrightarrow> objectAt E p path = Some obj' \<Longrightarrow> obj' = obj"
    and "(\<And>obj t. visible E obj \<Longrightarrow> m (obj, t) = m' (obj, t)) \<Longrightarrow> analyzerRun E a p inputs m pf = analyzerRun E a p inputs m' pf"
  using assms unfolding lawful_def by blast+

lemma whileOk_rel:
  assumes "\<And>z x y. z \<in> set zs \<Longrightarrow> R x y \<Longrightarrow> rel_sum (=) R (f z x) (g z y)"
  shows "R x y \<Longrightarrow> rel_prod (=) R (whileOk f zs x) (whileOk g zs y)"
  using assms
proof (induction zs arbitrary: x y)
  case (Cons z zs)
  have "rel_sum (=) R (f z x) (g z y)" using Cons.prems by simp
  then show ?case
  proof cases
    case (1 a c)
    then show ?thesis using Cons.prems(1) by simp
  next
    case (2 b d)
    then show ?thesis using Cons.IH [of b d] Cons.prems(2) by simp
  qed
qed simp

lemma doEvent_sameSeen: "sameSeen E x y \<Longrightarrow> rel_sum (=) (sameSeen E) (doEvent E ev x) (doEvent E ev y)"
  by (cases ev) (auto simp: sameSeen_def doEvent_def exportObjectFact_def exportPackageFact_def split: sum.splits)

lemma endRun_sameSeen: "sameSeen E x y \<Longrightarrow> rel_prod (=) (sameSeen E) (endRun E fin x) (endRun E fin y)"
  by (auto simp: sameSeen_def endRun_def split: RunEnd.splits option.splits prod.splits)

lemma runAnalyzer_sameSeen:
  assumes "lawful E" "sameSeen E x y"
  shows "rel_prod (=) (sameSeen E) (runAnalyzer E inputs x) (runAnalyzer E inputs y)"
proof (cases "IllTyped E (actPackage x)")
  case True
  then show ?thesis using assms(2) by (simp add: runAnalyzer_def sameSeen_def)
next
  case False
  let ?out = "analyzerRun E (actAnalyzer x) (actPackage x) inputs (objectFacts x) (packageFacts x)"
  have eq: "actAnalyzer y = actAnalyzer x" "actPackage y = actPackage x" "packageFacts y = packageFacts x"
    "\<And>obj t. visible E obj \<Longrightarrow> objectFacts y (obj, t) = objectFacts x (obj, t)" using assms(2) by (simp_all add: sameSeen_def)
  have out: "analyzerRun E (actAnalyzer y) (actPackage y) inputs (objectFacts y) (packageFacts y) = ?out"
    unfolding eq(1-3) by (rule lawfulD(3) [OF assms(1)]) (rule eq(4))
  have "rel_prod (=) (sameSeen E) (whileOk (doEvent E) (roEvents ?out) x) (whileOk (doEvent E) (roEvents ?out) y)"
    by (rule whileOk_rel) (simp_all add: doEvent_sameSeen assms(2))
  then obtain s x' y' where "whileOk (doEvent E) (roEvents ?out) x = (s, x')" "whileOk (doEvent E) (roEvents ?out) y = (s, y')" "sameSeen E x' y'"
    by (auto elim: rel_prod.cases)
  then show ?thesis using False endRun_sameSeen [of E x' y' "roEnd ?out"] eq(2) unfolding runAnalyzer_def out by (simp split: option.splits)
qed

text \<open>The dependencies of an action in two stores, as the action can tell them apart.\<close>

definition sameDep :: "FactEnv \<Rightarrow> nat \<Rightarrow> exec_action \<Rightarrow> exec_action \<Rightarrow> bool" where
  "sameDep E p x y \<longleftrightarrow> actAnalyzer y = actAnalyzer x \<and> actPackage y = actPackage x \<and> actErr y = actErr x \<and>
     (if actPackage x = p then actResult y = actResult x
      else packageFacts y = packageFacts x \<and> (\<forall>obj t. visible E obj \<longrightarrow> objectFacts y (obj, t) = objectFacts x (obj, t)))"

lemma inheritFacts_sameSeen:
  "sameSeen E x y \<Longrightarrow> sameDep E p dx dy \<Longrightarrow> actPackage dx \<noteq> p \<Longrightarrow> sameSeen E (inheritFacts E x dx) (inheritFacts E y dy)"
  by (simp add: sameSeen_def sameDep_def inheritFacts_def split: option.splits)

lemma plumb_sameSeen:
  assumes "rel_prod (=) (sameSeen E) x y" "sameDep E (actPackage (snd x)) (st d) (st' d)"
  shows "rel_prod (=) (sameSeen E) (plumb E st d x) (plumb E st' d y)"
proof -
  obtain i u v where xy: "x = (i, u)" "y = (i, v)" "sameSeen E u v" using assms(1) by (auto elim: rel_prod.cases)
  have uv: "actPackage v = actPackage u" "actAnalyzer v = actAnalyzer u" using xy(3) by (simp_all add: sameSeen_def)
  have d: "actPackage (st' d) = actPackage (st d)" "actAnalyzer (st' d) = actAnalyzer (st d)" using assms(2) by (simp_all add: sameDep_def)
  consider "actPackage (st d) = actPackage u" | "actPackage (st d) \<noteq> actPackage u" "actAnalyzer (st d) = actAnalyzer u"
    | "actPackage (st d) \<noteq> actPackage u" "actAnalyzer (st d) \<noteq> actAnalyzer u" by blast
  then show ?thesis
  proof cases
    case 1
    then have "actResult (st' d) = actResult (st d)" using assms(2) xy(1) by (simp add: sameDep_def)
    then show ?thesis using 1 xy d uv by (simp add: plumb_def Let_def)
  next
    case 2
    then show ?thesis using xy uv d inheritFacts_sameSeen [OF xy(3) assms(2)] by (simp add: plumb_def Let_def)
  next
    case 3
    then show ?thesis using xy uv d by (simp add: plumb_def Let_def)
  qed
qed

lemma plumb_package [simp]: "actPackage (snd (plumb E st d x)) = actPackage (snd x)" "actAnalyzer (snd (plumb E st d x)) = actAnalyzer (snd x)"
  by (simp_all add: plumb_def inheritFacts_def Let_def split: prod.splits)

lemma plumbs_sameSeen:
  "rel_prod (=) (sameSeen E) x y \<Longrightarrow> (\<And>d. d \<in> set ds \<Longrightarrow> sameDep E (actPackage (snd x)) (st d) (st' d)) \<Longrightarrow>
     rel_prod (=) (sameSeen E) (fold (plumb E st) ds x) (fold (plumb E st') ds y)"
proof (induction ds arbitrary: x y)
  case (Cons d ds)
  have "rel_prod (=) (sameSeen E) (plumb E st d x) (plumb E st' d y)" using Cons.prems by (intro plumb_sameSeen) simp_all
  then show ?case using Cons.IH [of "plumb E st d x" "plumb E st' d y"] Cons.prems(2) by simp
qed simp

lemma depErrors_same:
  assumes "actDeps y = actDeps x" "\<And>d. d \<in> set (actDeps x) \<Longrightarrow> actErr (st' d) = actErr (st d)"
  shows "depErrors st' y = depErrors st x"
  unfolding depErrors_def using assms by (intro fold_cong) simp_all

text \<open>An analyzed action cannot tell such stores apart.\<close>

lemma analyzeSafe_same:
  assumes "lawful E" "st' i = st i" "\<And>d. d \<in> set (actDeps (st i)) \<Longrightarrow> sameDep E (actPackage (st i)) (st d) (st' d)"
  shows "\<exists>stop x y. analyzeSafe E i st = (stop, st(i := x)) \<and> analyzeSafe E i st' = (stop, st'(i := y)) \<and> sameSeen E x y"
proof (cases "needAnalyzeSource (st i)")
  case need: True
  have de: "depErrors st' (st i) = depErrors st (st i)" using assms(3) by (intro depErrors_same) (simp_all add: sameDep_def)
  show ?thesis
  proof (cases "depErrors st (st i)")
    case None
    let ?x0 = "(Map.empty, (st i)\<lparr>objectFacts := Map.empty, packageFacts := Map.empty\<rparr>)"
    have "rel_prod (=) (sameSeen E) (fold (plumb E st) (actDeps (st i)) ?x0) (fold (plumb E st') (actDeps (st i)) ?x0)"
      using assms(3) by (intro plumbs_sameSeen) simp_all
    then obtain inputs x y where xy: "fold (plumb E st) (actDeps (st i)) ?x0 = (inputs, x)" "fold (plumb E st') (actDeps (st i)) ?x0 = (inputs, y)"
        "sameSeen E x y" by (auto elim: rel_prod.cases)
    have "sameSeen E (x\<lparr>hasPass := True, exportOpen := True\<rparr>) (y\<lparr>hasPass := True, exportOpen := True\<rparr>)" using xy(3) by (simp add: sameSeen_def)
    from runAnalyzer_sameSeen [OF assms(1) this, of inputs] obtain stop x' y' where
        r: "runAnalyzer E inputs (x\<lparr>hasPass := True, exportOpen := True\<rparr>) = (stop, x')"
        "runAnalyzer E inputs (y\<lparr>hasPass := True, exportOpen := True\<rparr>) = (stop, y')" "sameSeen E x' y'"
      by (auto elim: rel_prod.cases)
    have a: "analyzeAction E i st = (stop, st(i := x'))" "analyzeAction E i st' = (stop, st'(i := y'))"
      using need None de xy r assms(2) by (simp_all add: analyzeAction_def)
    show ?thesis
    proof (cases "\<exists>s. stop = Some (Panicked s)")
      case True
      then obtain s where s: "stop = Some (Panicked s)" by blast
      let ?e = "\<lambda>x. Some (PanicErr (actAnalyzer x) (actPackage x) (isInitialPkg x) (needAnalyzeSource x) s)"
      have "sameSeen E (x'\<lparr>actErr := ?e x'\<rparr>) (y'\<lparr>actErr := ?e y'\<rparr>)" using r(3) by (simp add: sameSeen_def)
      then show ?thesis using a s by (auto simp: analyzeSafe_def)
    next
      case False
      then have "analyzeSafe E i st = (stop, st(i := x'))" "analyzeSafe E i st' = (stop, st'(i := y'))"
        using a by (auto simp: analyzeSafe_def split: option.splits fact_stop.splits)
      then show ?thesis using r(3) by blast
    qed
  next
    case (Some e)
    let ?x = "(st i)\<lparr>actErr := Some (WrapErr ''failed prerequisites: '' e)\<rparr>"
    have "analyzeSafe E i st = (None, st(i := ?x))" "analyzeSafe E i st' = (None, st'(i := ?x))"
      using need de assms(2) Some by (simp_all add: analyzeSafe_def analyzeAction_def)
    then show ?thesis using sameSeen_refl by blast
  qed
next
  case False
  have "analyzeSafe E i st = (None, st(i := st i))" "analyzeSafe E i st' = (None, st'(i := st i))"
    using False assms(2) by (auto simp: analyzeSafe_def analyzeAction_def fun_eq_iff)
  then show ?thesis using sameSeen_refl by blast
qed

section \<open>Whose facts an action has\<close>

text \<open>Facts are pointers under their own type, and are about the package of the action or packages of a lower rank.\<close>

definition atOrBelow :: "(nat \<Rightarrow> nat) \<Rightarrow> nat \<Rightarrow> nat \<Rightarrow> nat option \<Rightarrow> bool" where
  "atOrBelow rank r p q \<longleftrightarrow> (case q of None \<Rightarrow> False | Some q \<Rightarrow> q = p \<or> rank q < r)"

definition goodFact :: "FactValue \<Rightarrow> string \<Rightarrow> bool" where
  "goodFact f t \<longleftrightarrow> isPointer f \<and> typOf f = t"

definition soundFacts :: "FactEnv \<Rightarrow> (nat \<Rightarrow> nat) \<Rightarrow> nat \<Rightarrow> exec_action \<Rightarrow> bool" where
  "soundFacts E rank r x \<longleftrightarrow>
     (\<forall>obj t f. objectFacts x (obj, t) = Some f \<longrightarrow> goodFact f t \<and> atOrBelow rank r (actPackage x) (objPkg (objInfo E obj))) \<and>
     (\<forall>q t f. packageFacts x (q, t) = Some f \<longrightarrow> goodFact f t \<and> atOrBelow rank r (actPackage x) (Some q))"

lemma atOrBelow_own [simp]: "atOrBelow rank r p (Some p)"
  by (simp add: atOrBelow_def)

text \<open>What a run does to foreign facts: nothing.\<close>

definition foreignSame :: "FactEnv \<Rightarrow> exec_action \<Rightarrow> exec_action \<Rightarrow> bool" where
  "foreignSame E x y \<longleftrightarrow> actPackage y = actPackage x \<and> actAnalyzer y = actAnalyzer x \<and>
     (\<forall>obj t. objPkg (objInfo E obj) \<noteq> Some (actPackage x) \<longrightarrow> objectFacts y (obj, t) = objectFacts x (obj, t)) \<and>
     (\<forall>q t. q \<noteq> actPackage x \<longrightarrow> packageFacts y (q, t) = packageFacts x (q, t))"

lemma whileOk_invariant:
  assumes "\<And>z x x'. z \<in> set zs \<Longrightarrow> P x \<Longrightarrow> f z x = Inr x' \<Longrightarrow> P x'"
  shows "P x \<Longrightarrow> P (snd (whileOk f zs x))"
  using assms by (induction zs arbitrary: x) (auto split: sum.splits)

lemma doEvent_own:
  assumes "doEvent E ev x = Inr x'"
  shows "foreignSame E y x \<Longrightarrow> foreignSame E y x'" and "soundFacts E rank r x \<Longrightarrow> soundFacts E rank r x'"
  using assms
  by (auto simp: doEvent_def foreignSame_def soundFacts_def exportObjectFact_def exportPackageFact_def factType_def goodFact_def
      split: RunEvent.splits if_splits)

lemma endRun_own:
  shows "foreignSame E y x \<Longrightarrow> foreignSame E y (snd (endRun E fin x))" and "soundFacts E rank r x \<Longrightarrow> soundFacts E rank r (snd (endRun E fin x))"
  by (simp_all add: endRun_def foreignSame_def soundFacts_def split: RunEnd.splits option.splits prod.splits)

lemma runAnalyzer_invariant:
  assumes "\<And>r e. P x \<Longrightarrow> P (x\<lparr>actResult := r, actErr := e, exportOpen := False\<rparr>)" "\<And>ev x x'. P x \<Longrightarrow> doEvent E ev x = Inr x' \<Longrightarrow> P x'"
    "\<And>fin x. P x \<Longrightarrow> P (snd (endRun E fin x))" "P x"
  shows "P (snd (runAnalyzer E inputs x))"
proof -
  let ?out = "analyzerRun E (actAnalyzer x) (actPackage x) inputs (objectFacts x) (packageFacts x)"
  have w: "P (snd (whileOk (doEvent E) (roEvents ?out) x))" by (rule whileOk_invariant [where P = P]) (use assms(2,4) in blast)+
  then have "P (snd (endRun E (roEnd ?out) (snd (whileOk (doEvent E) (roEvents ?out) x))))" by (rule assms(3))
  then show ?thesis using w assms(1) [OF assms(4)] by (auto simp: runAnalyzer_def Let_def split: option.split prod.split)
qed

lemma runAnalyzer_own:
  shows "foreignSame E x (snd (runAnalyzer E inputs x))" and "soundFacts E rank r x \<Longrightarrow> soundFacts E rank r (snd (runAnalyzer E inputs x))"
proof -
  show "foreignSame E x (snd (runAnalyzer E inputs x))"
    by (rule runAnalyzer_invariant) (simp_all add: doEvent_own(1) endRun_own(1), simp_all add: foreignSame_def)
  show "soundFacts E rank r (snd (runAnalyzer E inputs x))" if "soundFacts E rank r x"
    using that by (intro runAnalyzer_invariant [where P = "soundFacts E rank r"]) (simp_all add: doEvent_own(2) endRun_own(2), simp_all add: soundFacts_def)
qed

section \<open>Inherited facts\<close>

definition exportedOf :: "FactEnv \<Rightarrow> exec_action \<Rightarrow> objectFactKey \<rightharpoonup> FactValue" where
  "exportedOf E dep k = (if exportedFrom (objInfo E (fst k)) (actPackage dep) then objectFacts dep k else None)"

definition inheritedObjects :: "FactEnv \<Rightarrow> store \<Rightarrow> nat list \<Rightarrow> objectFactKey \<rightharpoonup> FactValue" where
  "inheritedObjects E st ds = fold (\<lambda>d m. m ++ exportedOf E (st d)) ds Map.empty"

definition inheritedPackages :: "store \<Rightarrow> nat list \<Rightarrow> packageFactKey \<rightharpoonup> FactValue" where
  "inheritedPackages st ds = fold (\<lambda>d m. m ++ packageFacts (st d)) ds Map.empty"

text \<open>The dependencies on other packages.\<close>

definition verticals :: "store \<Rightarrow> exec_action \<Rightarrow> nat list" where
  "verticals st act = filter (\<lambda>d. actPackage (st d) \<noteq> actPackage act \<and> actAnalyzer (st d) = actAnalyzer act) (actDeps act)"

lemma fold_map_add: "fold (\<lambda>d m. m ++ g d) ds m0 = m0 ++ fold (\<lambda>d m. m ++ g d) ds Map.empty"
proof (induction ds arbitrary: m0)
  case (Cons d ds)
  show ?case using Cons [of "m0 ++ g d"] Cons [of "Map.empty ++ g d"] by (simp add: map_add_assoc)
qed simp

lemma inheritFacts_add: "inheritFacts E act dep = act\<lparr>objectFacts := objectFacts act ++ exportedOf E dep, packageFacts := packageFacts act ++ packageFacts dep\<rparr>"
proof -
  have "(\<lambda>k. case objectFacts dep k of None \<Rightarrow> objectFacts act k
      | Some f \<Rightarrow> if \<not> exportedFrom (objInfo E (fst k)) (actPackage dep) then objectFacts act k else Some f) = objectFacts act ++ exportedOf E dep"
    by (auto simp: fun_eq_iff map_add_def exportedOf_def split: option.splits)
  then show ?thesis by (simp add: inheritFacts_def)
qed

lemma plumbs_facts:
  "snd (fold (plumb E st) ds (inp, act)) =
     act\<lparr>objectFacts := fold (\<lambda>d m. m ++ exportedOf E (st d)) (filter (\<lambda>d. actPackage (st d) \<noteq> actPackage act \<and> actAnalyzer (st d) = actAnalyzer act) ds) (objectFacts act),
         packageFacts := fold (\<lambda>d m. m ++ packageFacts (st d)) (filter (\<lambda>d. actPackage (st d) \<noteq> actPackage act \<and> actAnalyzer (st d) = actAnalyzer act) ds) (packageFacts act)\<rparr>"
proof (induction ds arbitrary: inp act)
  case (Cons d ds)
  consider "actPackage (st d) = actPackage act" | "actPackage (st d) \<noteq> actPackage act" "actAnalyzer (st d) = actAnalyzer act"
    | "actPackage (st d) \<noteq> actPackage act" "actAnalyzer (st d) \<noteq> actAnalyzer act" by blast
  then show ?case
  proof cases
    case 2
    have "plumb E st d (inp, act) = (inp, inheritFacts E act (st d))" using 2 by (simp add: plumb_def)
    then show ?thesis using 2 Cons [of inp "inheritFacts E act (st d)"] by (simp add: inheritFacts_add)
  qed (use Cons in \<open>simp_all add: plumb_def Let_def\<close>)
qed simp

lemma plumbs_inherited:
  "snd (fold (plumb E st) (actDeps act) (inp, act\<lparr>objectFacts := Map.empty, packageFacts := Map.empty\<rparr>)) =
     act\<lparr>objectFacts := inheritedObjects E st (verticals st act), packageFacts := inheritedPackages st (verticals st act)\<rparr>"
  by (simp add: plumbs_facts inheritedObjects_def inheritedPackages_def verticals_def)

lemma inheritFactsFromDeps_inherited:
  "inheritFactsFromDeps E st act = act\<lparr>objectFacts := objectFacts act ++ inheritedObjects E st (verticals st act),
     packageFacts := packageFacts act ++ inheritedPackages st (verticals st act)\<rparr>"
proof -
  have "fold (\<lambda>d act. let dep = st d in if actPackage dep = actPackage act \<or> actAnalyzer dep \<noteq> actAnalyzer act then act else inheritFacts E act dep) ds act =
      act\<lparr>objectFacts := fold (\<lambda>d m. m ++ exportedOf E (st d)) (filter (\<lambda>d. actPackage (st d) \<noteq> actPackage act \<and> actAnalyzer (st d) = actAnalyzer act) ds) (objectFacts act),
          packageFacts := fold (\<lambda>d m. m ++ packageFacts (st d)) (filter (\<lambda>d. actPackage (st d) \<noteq> actPackage act \<and> actAnalyzer (st d) = actAnalyzer act) ds) (packageFacts act)\<rparr>" for ds
    by (induction ds arbitrary: act) (simp_all add: inheritFacts_add Let_def)
  then show ?thesis unfolding inheritFactsFromDeps_def inheritedObjects_def inheritedPackages_def verticals_def
    by (simp add: fold_map_add [symmetric])
qed

lemma fold_map_add_SomeD: "fold (\<lambda>d m. m ++ g d) ds Map.empty k = Some f \<Longrightarrow> \<exists>d \<in> set ds. g d k = Some f"
proof (induction ds rule: rev_induct)
  case (snoc d ds)
  then show ?case by (auto simp: map_add_Some_iff)
qed simp

lemma fold_map_add_same: "(\<And>d. d \<in> set ds \<Longrightarrow> g d k = h d k) \<Longrightarrow> fold (\<lambda>d m. m ++ g d) ds Map.empty k = fold (\<lambda>d m. m ++ h d) ds Map.empty k"
  by (induction ds rule: rev_induct) (simp_all add: map_add_def split: option.splits)

text \<open>Facts inherited from packages of lower ranks are about such packages.\<close>

lemma inherited_below:
  assumes "\<And>d. d \<in> set ds \<Longrightarrow> soundFacts E rank (rank (actPackage (st d))) (st d) \<and> rank (actPackage (st d)) < r"
  shows "inheritedObjects E st ds (obj, t) = Some f \<Longrightarrow> goodFact f t \<and> (\<exists>q. objPkg (objInfo E obj) = Some q \<and> rank q < r)"
    and "inheritedPackages st ds (q, t) = Some f \<Longrightarrow> goodFact f t \<and> rank q < r"
proof -
  assume "inheritedObjects E st ds (obj, t) = Some f"
  then obtain d where d: "d \<in> set ds" "objectFacts (st d) (obj, t) = Some f"
    using fold_map_add_SomeD [of "\<lambda>d. exportedOf E (st d)" ds "(obj, t)" f] by (auto simp: inheritedObjects_def exportedOf_def split: if_splits)
  then show "goodFact f t \<and> (\<exists>q. objPkg (objInfo E obj) = Some q \<and> rank q < r)"
    using assms [OF d(1)] by (fastforce simp: soundFacts_def atOrBelow_def split: option.splits)
next
  assume "inheritedPackages st ds (q, t) = Some f"
  then obtain d where d: "d \<in> set ds" "packageFacts (st d) (q, t) = Some f"
    using fold_map_add_SomeD [of "\<lambda>d. packageFacts (st d)" ds "(q, t)" f] by (auto simp: inheritedPackages_def)
  then show "goodFact f t \<and> rank q < r"
    using assms [OF d(1)] by (fastforce simp: soundFacts_def atOrBelow_def)
qed

section \<open>Restored facts\<close>

text \<open>A stored fact that stems from the facts of \<open>x\<close>.\<close>

definition stemsFrom :: "FactEnv \<Rightarrow> exec_action \<Rightarrow> Fact \<Rightarrow> bool" where
  "stemsFrom E x f \<longleftrightarrow> isPointer (fFact f) \<and>
     (if fPath f = [] then packageFacts x (actPackage x, typOf (fFact f)) = Some (fFact f)
      else \<exists>obj. objPkg (objInfo E obj) = Some (actPackage x) \<and> pathFor E obj = Some (fPath f) \<and> objectFacts x (obj, typOf (fFact f)) = Some (fFact f))"

definition storedObject :: "FactEnv \<Rightarrow> Fact list \<Rightarrow> nat \<Rightarrow> nat \<Rightarrow> string \<Rightarrow> bool" where
  "storedObject E fs p obj t \<longleftrightarrow> objPkg (objInfo E obj) = Some p \<and> visible E obj \<and> (\<exists>f \<in> set fs. pathFor E obj = Some (fPath f) \<and> typOf (fFact f) = t)"

definition storedPackage :: "Fact list \<Rightarrow> string \<Rightarrow> bool" where
  "storedPackage fs t \<longleftrightarrow> (\<exists>f \<in> set fs. fPath f = [] \<and> typOf (fFact f) = t)"

lemma applyFact_stems:
  assumes "lawful E" "stemsFrom E x f" "actPackage y = actPackage x"
  shows "\<exists>mo mp. applyFact E f y = Inr (y\<lparr>objectFacts := mo, packageFacts := mp\<rparr>) \<and>
    (\<forall>obj t. mo (obj, t) = (if storedObject E [f] (actPackage x) obj t then objectFacts x (obj, t) else objectFacts y (obj, t))) \<and>
    (\<forall>q t. mp (q, t) = (if q = actPackage x \<and> storedPackage [f] t then packageFacts x (q, t) else packageFacts y (q, t)))"
proof (cases "fPath f = []")
  case True
  have "\<not> storedObject E [f] (actPackage x) obj t" for obj t using True lawfulD(1) [OF assms(1), of obj] by (auto simp: storedObject_def)
  then show ?thesis using True assms(2,3)
    by (intro exI [of _ "objectFacts y"] exI [of _ "(packageFacts y)((actPackage y, typOf (fFact f)) \<mapsto> fFact f)"])
      (auto simp: applyFact_def stemsFrom_def factType_def storedPackage_def)
next
  case False
  then obtain obj where obj: "objPkg (objInfo E obj) = Some (actPackage x)" "pathFor E obj = Some (fPath f)"
      "objectFacts x (obj, typOf (fFact f)) = Some (fFact f)" "isPointer (fFact f)"
    using assms(2) by (auto simp: stemsFrom_def)
  have np: "\<not> storedPackage [f] t" for t using False by (simp add: storedPackage_def)
  show ?thesis
  proof (cases "objectAt E (actPackage x) (fPath f)")
    case None
    then have "\<not> storedObject E [f] (actPackage x) o' t" for o' t by (auto simp: storedObject_def visible_def)
    then show ?thesis using None False np assms(3)
      by (intro exI [of _ "objectFacts y"] exI [of _ "packageFacts y"]) (simp add: applyFact_def)
  next
    case (Some o1)
    then have o1: "o1 = obj" using lawfulD(2) [OF assms(1) obj(1,2)] by simp
    have "storedObject E [f] (actPackage x) o' t \<longleftrightarrow> o' = obj \<and> t = typOf (fFact f)" for o' t
      using lawfulD(2) [OF assms(1), of o' "actPackage x" "fPath f" o1] Some o1 obj by (auto simp: storedObject_def visible_def)
    then show ?thesis using Some False np obj assms(3) o1
      by (intro exI [of _ "(objectFacts y)((obj, typOf (fFact f)) \<mapsto> fFact f)"] exI [of _ "packageFacts y"])
        (auto simp: applyFact_def factType_def)
  qed
qed

lemma storedObject_Cons: "storedObject E (f # fs) p obj t \<longleftrightarrow> storedObject E [f] p obj t \<or> storedObject E fs p obj t"
  by (auto simp: storedObject_def)

lemma storedPackage_Cons: "storedPackage (f # fs) t \<longleftrightarrow> storedPackage [f] t \<or> storedPackage fs t"
  by (auto simp: storedPackage_def)

lemma applyPersistedFacts_stems:
  assumes "lawful E"
  shows "\<forall>f \<in> set fs. stemsFrom E x f \<Longrightarrow> actPackage y = actPackage x \<Longrightarrow> \<exists>mo mp. applyPersistedFacts E fs y = (None, y\<lparr>objectFacts := mo, packageFacts := mp\<rparr>) \<and>
    (\<forall>obj t. mo (obj, t) = (if storedObject E fs (actPackage x) obj t then objectFacts x (obj, t) else objectFacts y (obj, t))) \<and>
    (\<forall>q t. mp (q, t) = (if q = actPackage x \<and> storedPackage fs t then packageFacts x (q, t) else packageFacts y (q, t)))"
  unfolding applyPersistedFacts_def
proof (induction fs arbitrary: y)
  case Nil
  have "y = y\<lparr>objectFacts := objectFacts y, packageFacts := packageFacts y\<rparr>" by simp
  then show ?case by (intro exI [of _ "objectFacts y"] exI [of _ "packageFacts y"]) (simp add: storedObject_def storedPackage_def)
next
  case (Cons f fs)
  obtain mo mp where m: "applyFact E f y = Inr (y\<lparr>objectFacts := mo, packageFacts := mp\<rparr>)"
    "\<And>obj t. mo (obj, t) = (if storedObject E [f] (actPackage x) obj t then objectFacts x (obj, t) else objectFacts y (obj, t))"
    "\<And>q t. mp (q, t) = (if q = actPackage x \<and> storedPackage [f] t then packageFacts x (q, t) else packageFacts y (q, t))"
    using applyFact_stems [OF assms _ Cons.prems(2), of f] Cons.prems(1) by auto
  obtain mo' mp' where m': "whileOk (applyFact E) fs (y\<lparr>objectFacts := mo, packageFacts := mp\<rparr>) = (None, y\<lparr>objectFacts := mo', packageFacts := mp'\<rparr>)"
    "\<And>obj t. mo' (obj, t) = (if storedObject E fs (actPackage x) obj t then objectFacts x (obj, t) else mo (obj, t))"
    "\<And>q t. mp' (q, t) = (if q = actPackage x \<and> storedPackage fs t then packageFacts x (q, t) else mp (q, t))"
    using Cons.IH [of "y\<lparr>objectFacts := mo, packageFacts := mp\<rparr>"] Cons.prems by auto
  show ?case
    using m(1) m'(1) by (intro exI [of _ mo'] exI [of _ mp']) (auto simp: m(2,3) m'(2,3) storedObject_Cons [of E f fs] storedPackage_Cons [of f fs])
qed

lemma set_map_filter: "set (List.map_filter f xs) = {y. \<exists>x \<in> set xs. f x = Some y}"
  by (induction xs) (auto simp: List.map_filter_def split: option.splits)

lemma persistedFacts_iff:
  assumes "usesFacts E (actAnalyzer x)" "dom (packageFacts x) \<subseteq> set po" "dom (objectFacts x) \<subseteq> set oo"
  shows "f \<in> set (persistedFacts E po oo x) \<longleftrightarrow>
    (\<exists>t v. packageFacts x (actPackage x, t) = Some v \<and> f = \<lparr>fPath = [], fFact = v\<rparr>) \<or>
    (\<exists>obj t v path. objectFacts x (obj, t) = Some v \<and> objPkg (objInfo E obj) = Some (actPackage x) \<and> pathFor E obj = Some path \<and> f = \<lparr>fPath = path, fFact = v\<rparr>)"
proof -
  have "(\<exists>key \<in> set po. (case packageFacts x key of None \<Rightarrow> None | Some v \<Rightarrow> if fst key \<noteq> actPackage x then None else Some \<lparr>fPath = [], fFact = v\<rparr>) = Some f) \<longleftrightarrow>
      (\<exists>t v. packageFacts x (actPackage x, t) = Some v \<and> f = \<lparr>fPath = [], fFact = v\<rparr>)"
    using assms(2) by (fastforce split: option.splits if_splits)
  moreover have "(\<exists>key \<in> set oo. (case objectFacts x key of None \<Rightarrow> None | Some v \<Rightarrow> if objPkg (objInfo E (fst key)) \<noteq> Some (actPackage x) then None
        else case pathFor E (fst key) of None \<Rightarrow> None | Some path \<Rightarrow> Some \<lparr>fPath = path, fFact = v\<rparr>) = Some f) \<longleftrightarrow>
      (\<exists>obj t v path. objectFacts x (obj, t) = Some v \<and> objPkg (objInfo E obj) = Some (actPackage x) \<and> pathFor E obj = Some path \<and> f = \<lparr>fPath = path, fFact = v\<rparr>)"
    using assms(3) by (fastforce split: option.splits if_splits)
  ultimately show ?thesis using assms(1) by (simp add: persistedFacts_def set_map_filter)
qed

lemma persistedFacts_stored:
  assumes "lawful E" "soundFacts E rank r x"
    and "usesFacts E (actAnalyzer x)" "dom (packageFacts x) \<subseteq> set po" "dom (objectFacts x) \<subseteq> set oo"
  shows "\<forall>f \<in> set (persistedFacts E po oo x). stemsFrom E x f"
    and "storedPackage (persistedFacts E po oo x) t \<longleftrightarrow> packageFacts x (actPackage x, t) \<noteq> None"
    and "storedObject E (persistedFacts E po oo x) (actPackage x) obj t \<longleftrightarrow>
      objPkg (objInfo E obj) = Some (actPackage x) \<and> visible E obj \<and> objectFacts x (obj, t) \<noteq> None"
proof -
  note iff = persistedFacts_iff [OF assms(3-5)]
  have po: "isPointer v \<and> typOf v = t" if "packageFacts x (q, t) = Some v" for q t v
    using assms(2) that by (auto simp: soundFacts_def goodFact_def)
  have oo: "isPointer v \<and> typOf v = t" if "objectFacts x (obj, t) = Some v" for obj t v
    using assms(2) that by (auto simp: soundFacts_def goodFact_def)
  have path: "path \<noteq> []" if "pathFor E obj = Some path" for obj path using lawfulD(1) [OF assms(1) that] .
  show "\<forall>f \<in> set (persistedFacts E po oo x). stemsFrom E x f"
    using po oo path unfolding iff Ball_def stemsFrom_def by fastforce
  show "storedPackage (persistedFacts E po oo x) t \<longleftrightarrow> packageFacts x (actPackage x, t) \<noteq> None"
    using po path unfolding storedPackage_def Bex_def iff by fastforce
  have same: "obj' = obj" if "visible E obj" "objPkg (objInfo E obj) = Some p" "objPkg (objInfo E obj') = Some p" "pathFor E obj = Some path" "pathFor E obj' = Some path" for obj' p path
    using lawfulD(2) [OF assms(1) that(3,5)] that(1,2,4) by (auto simp: visible_def)
  show "storedObject E (persistedFacts E po oo x) (actPackage x) obj t \<longleftrightarrow>
      objPkg (objInfo E obj) = Some (actPackage x) \<and> visible E obj \<and> objectFacts x (obj, t) \<noteq> None" (is "?l \<longleftrightarrow> ?r")
  proof
    assume ?l
    then obtain f where f: "objPkg (objInfo E obj) = Some (actPackage x)" "visible E obj" "f \<in> set (persistedFacts E po oo x)"
      "pathFor E obj = Some (fPath f)" "typOf (fFact f) = t" by (auto simp: storedObject_def)
    then obtain obj' t' v where "objectFacts x (obj', t') = Some v" "objPkg (objInfo E obj') = Some (actPackage x)" "pathFor E obj' = Some (fPath f)" "fFact f = v"
      using path [OF f(4)] by (auto simp: iff)
    then show ?r using same [OF f(2,1) _ f(4)] oo f by auto
  next
    assume r: ?r
    then obtain v path where "objectFacts x (obj, t) = Some v" "pathFor E obj = Some path" by (auto simp: visible_def split: option.splits)
    then have "\<lparr>fPath = path, fFact = v\<rparr> \<in> set (persistedFacts E po oo x)" "typOf v = t" using r oo iff by auto
    then show ?l using r \<open>pathFor E obj = Some path\<close> unfolding storedObject_def by (metis Fact.select_convs(1,2))
  qed
qed

text \<open>An analyzed action of the first store, and the same action restored from its stored facts in the second.\<close>

lemma applyCachedFacts_same:
  assumes law: "lawful E" and x: "soundFacts E rank (rank p) x" "actPackage x = p" "usesFacts E (actAnalyzer x)"
    and xf: "\<And>obj t. objPkg (objInfo E obj) \<noteq> Some p \<Longrightarrow> objectFacts x (obj, t) = inheritedObjects E st ds (obj, t)"
      "\<And>q t. q \<noteq> p \<Longrightarrow> packageFacts x (q, t) = inheritedPackages st ds (q, t)"
    and below: "\<And>d. d \<in> set ds \<Longrightarrow> soundFacts E rank (rank (actPackage (st d))) (st d) \<and> rank (actPackage (st d)) < rank p"
    and deps: "\<And>d. d \<in> set ds \<Longrightarrow> actPackage (st d) \<noteq> p \<and> sameDep E p (st d) (st' d)" "verticals st' (st' i) = ds"
    and y: "actPackage (st' i) = p" "actAnalyzer (st' i) = actAnalyzer x" "\<not> cachedFactsApplied (st' i)" "loadCachedFactsOk (st' i)" "\<not> isInitialPkg (st' i)"
      "objectFacts (st' i) = Map.empty" "packageFacts (st' i) = Map.empty" "cachedFacts (st' i) = Some (persistedFacts E po oo x)"
    and dom: "dom (packageFacts x) \<subseteq> set po" "dom (objectFacts x) \<subseteq> set oo"
  shows "\<exists>y. applyCachedFacts E i st' = (None, st'(i := y)) \<and> packageFacts y = packageFacts x \<and>
    (\<forall>obj t. visible E obj \<longrightarrow> objectFacts y (obj, t) = objectFacts x (obj, t)) \<and>
    actPackage y = p \<and> actAnalyzer y = actAnalyzer x \<and> actErr y = actErr (st' i)"
proof -
  note st = persistedFacts_stored [OF law x(1,3) dom]
  have py: "actPackage (st' i) = actPackage x" using y(1) x(2) by simp
  obtain mo mp where m0: "applyPersistedFacts E (persistedFacts E po oo x) (st' i) = (None, (st' i)\<lparr>objectFacts := mo, packageFacts := mp\<rparr>)"
    "\<And>obj t. mo (obj, t) = (if storedObject E (persistedFacts E po oo x) (actPackage x) obj t then objectFacts x (obj, t) else objectFacts (st' i) (obj, t))"
    "\<And>q t. mp (q, t) = (if q = actPackage x \<and> storedPackage (persistedFacts E po oo x) t then packageFacts x (q, t) else packageFacts (st' i) (q, t))"
    using applyPersistedFacts_stems [OF law st(1) py] by blast
  have m: "applyPersistedFacts E (persistedFacts E po oo x) (st' i) = (None, (st' i)\<lparr>objectFacts := mo, packageFacts := mp\<rparr>)"
    "\<And>obj t. mo (obj, t) = (if objPkg (objInfo E obj) = Some p \<and> visible E obj then objectFacts x (obj, t) else None)"
    "\<And>q t. mp (q, t) = (if q = p then packageFacts x (q, t) else None)"
    using m0 y(6,7) by (auto simp: st(2,3) [unfolded x(2)] x(2))
  let ?y1 = "(st' i)\<lparr>objectFacts := mo, packageFacts := mp, cachedFacts := None, cachedFactsApplied := True\<rparr>"
  let ?y = "?y1\<lparr>objectFacts := mo ++ inheritedObjects E st' ds, packageFacts := mp ++ inheritedPackages st' ds\<rparr>"
  have v: "verticals st' ?y1 = ds" using deps(2) by (simp add: verticals_def)
  have run: "applyCachedFacts E i st' = (None, st'(i := ?y))"
    using y(2-5,8) x(3) m(1) v by (simp add: applyCachedFacts_def inheritFactsFromDeps_inherited)
  have io: "inheritedObjects E st' ds (obj, t) = inheritedObjects E st ds (obj, t)" if "visible E obj" for obj t
    unfolding inheritedObjects_def using deps(1) that by (intro fold_map_add_same) (auto simp: exportedOf_def sameDep_def)
  have ip: "inheritedPackages st' ds (q, t) = inheritedPackages st ds (q, t)" for q t
    unfolding inheritedPackages_def using deps(1) by (intro fold_map_add_same) (auto simp: sameDep_def)
  have own: "inheritedObjects E st ds (obj, t) = None" if "objPkg (objInfo E obj) = Some p" for obj t
    using inherited_below(1) [of ds E rank st "rank p" obj t] below that by (cases "inheritedObjects E st ds (obj, t)") fastforce+
  have ownp: "inheritedPackages st ds (p, t) = None" for t
    using inherited_below(2) [of ds E rank st "rank p" p t] below by (cases "inheritedPackages st ds (p, t)") fastforce+
  have "(mp ++ inheritedPackages st' ds) (q, t) = packageFacts x (q, t)" for q t
    using m(3) [of q t] ip [of q t] ownp [of t] xf(2) [of q t] by (cases "q = p") (simp_all add: map_add_def split: option.splits)
  then have pk: "mp ++ inheritedPackages st' ds = packageFacts x" by auto
  have ob: "(mo ++ inheritedObjects E st' ds) (obj, t) = objectFacts x (obj, t)" if "visible E obj" for obj t
    using m(2) [of obj t] io [OF that, of t] own [of obj t] xf(1) [of obj t] that
    by (cases "objPkg (objInfo E obj) = Some p") (simp_all add: map_add_def split: option.splits)
  show ?thesis using run pk ob y(1,2) by (intro exI [of _ ?y]) simp
qed

section \<open>Whole analyses\<close>

text \<open>An action is analyzed or gets its facts from the cache; the actions of an analysis, in an order with dependencies first.\<close>

definition stepAct :: "FactEnv \<Rightarrow> nat \<Rightarrow> store \<Rightarrow> fact_stop option \<times> store" where
  "stepAct E i st = (if needAnalyzeSource (st i) then analyzeSafe E i st else applyCachedFacts E i st)"

fun execAll :: "FactEnv \<Rightarrow> nat list \<Rightarrow> store \<Rightarrow> fact_stop option \<times> store" where
  "execAll E [] st = (None, st)"
| "execAll E (i # is') st = (case stepAct E i st of (Some stop, st) \<Rightarrow> (Some stop, st) | (None, st) \<Rightarrow> execAll E is' st)"

fun inOrder :: "store \<Rightarrow> nat set \<Rightarrow> nat list \<Rightarrow> bool" where
  "inOrder st V [] \<longleftrightarrow> True"
| "inOrder st V (i # is') \<longleftrightarrow> i \<notin> V \<and> set (actDeps (st i)) \<subseteq> V \<and> inOrder st (insert i V) is'"

definition freshAct :: "exec_action \<Rightarrow> bool" where
  "freshAct x \<longleftrightarrow> needAnalyzeSource x \<and> objectFacts x = Map.empty \<and> packageFacts x = Map.empty \<and> actErr x = None \<and> \<not> cachedFactsApplied x"

definition linked :: "FactEnv \<Rightarrow> (nat \<Rightarrow> nat) \<Rightarrow> store \<Rightarrow> nat \<Rightarrow> bool" where
  "linked E rank st i \<longleftrightarrow> (\<forall>d \<in> set (actDeps (st i)). actPackage (st d) = actPackage (st i) \<or>
     actAnalyzer (st d) = actAnalyzer (st i) \<and> usesFacts E (actAnalyzer (st i)) \<and> rank (actPackage (st d)) < rank (actPackage (st i)))"

text \<open>The actions after their facts were read: those outside \<open>S\<close> have the facts that an earlier analysis, ending in \<open>ref\<close>, stored.\<close>

definition withCache :: "FactEnv \<Rightarrow> (nat \<Rightarrow> packageFactKey list \<times> objectFactKey list) \<Rightarrow> nat set \<Rightarrow> store \<Rightarrow> store \<Rightarrow> store" where
  "withCache E orders S ref st i = (if i \<in> S then st i
     else (st i)\<lparr>needAnalyzeSource := False, loadCachedFactsDone := True, loadCachedFactsOk := True,
       cachedFacts := Some (persistedFacts E (fst (orders i)) (snd (orders i)) (ref i))\<rparr>)"

lemma analyzeSafe_frame: "\<exists>stop x. analyzeSafe E i st = (stop, st(i := x))"
proof -
  have "\<exists>stop x. analyzeAction E i st = (stop, st(i := x))"
  proof (cases "needAnalyzeSource (st i)")
    case True
    then show ?thesis by (fastforce simp: analyzeAction_def Let_def split: option.split prod.split)
  next
    case False
    then have "analyzeAction E i st = (None, st(i := st i))" by (simp add: analyzeAction_def)
    then show ?thesis by blast
  qed
  then obtain stop x where a: "analyzeAction E i st = (stop, st(i := x))" by blast
  show ?thesis
  proof (cases "\<exists>s. stop = Some (Panicked s)")
    case True
    then show ?thesis using a by (auto simp: analyzeSafe_def)
  next
    case False
    then have "analyzeSafe E i st = (stop, st(i := x))" using a by (auto simp: analyzeSafe_def split: option.splits fact_stop.splits)
    then show ?thesis by blast
  qed
qed

lemma execAll_frame: "(\<forall>i \<in> set order. needAnalyzeSource (st i)) \<Longrightarrow> distinct order \<Longrightarrow> execAll E order st = (None, st') \<Longrightarrow> j \<notin> set order \<Longrightarrow> st' j = st j"
proof (induction order arbitrary: st)
  case (Cons i order)
  obtain stop x where s: "stepAct E i st = (stop, st(i := x))" using analyzeSafe_frame [of E i st] Cons.prems(1) by (auto simp: stepAct_def)
  then have "execAll E order (st(i := x)) = (None, st')" using Cons.prems(3) by (auto split: option.splits)
  moreover have "\<forall>k \<in> set order. needAnalyzeSource ((st(i := x)) k)" using Cons.prems(1,2) by auto
  ultimately have "st' j = (st(i := x)) j" using Cons.IH [of "st(i := x)"] Cons.prems(2,4) by (simp del: fun_upd_apply)
  then show ?case using Cons.prems(4) by simp
qed simp

lemma inOrder_distinct: "inOrder st V order \<Longrightarrow> distinct order \<and> set order \<inter> V = {}"
  by (induction order arbitrary: V) auto

text \<open>What the analysis of an action in the first store leaves.\<close>

lemma analyzeSafe_facts:
  assumes "freshAct (st i)" "linked E rank st i" "analyzeSafe E i st = (None, st(i := x))"
    and below: "\<forall>d \<in> set (verticals st (st i)). soundFacts E rank (rank (actPackage (st d))) (st d)"
  shows "soundFacts E rank (rank (actPackage (st i))) x" and "actPackage x = actPackage (st i)" and "actAnalyzer x = actAnalyzer (st i)"
    and "actErr x = None \<Longrightarrow> objPkg (objInfo E obj) \<noteq> Some (actPackage (st i)) \<Longrightarrow> objectFacts x (obj, t) = inheritedObjects E st (verticals st (st i)) (obj, t)"
    and "actErr x = None \<Longrightarrow> q \<noteq> actPackage (st i) \<Longrightarrow> packageFacts x (q, t) = inheritedPackages st (verticals st (st i)) (q, t)"
proof -
  let ?p = "actPackage (st i)" and ?ds = "verticals st (st i)"
  have up: "(f(i := a) = f(i := b)) = (a = b)" for f :: store and a b by (metis fun_upd_same)
  have rk: "soundFacts E rank (rank (actPackage (st d))) (st d) \<and> rank (actPackage (st d)) < rank ?p" if "d \<in> set ?ds" for d
    using below that assms(2) by (auto simp: verticals_def linked_def)
  have nb: "needAnalyzeSource (st i)" using assms(1) by (simp add: freshAct_def)
  have main: "soundFacts E rank (rank ?p) x \<and> actPackage x = ?p \<and> actAnalyzer x = actAnalyzer (st i) \<and>
    (actErr x = None \<longrightarrow> (\<forall>obj t. objPkg (objInfo E obj) \<noteq> Some ?p \<longrightarrow> objectFacts x (obj, t) = inheritedObjects E st ?ds (obj, t)) \<and>
       (\<forall>q t. q \<noteq> ?p \<longrightarrow> packageFacts x (q, t) = inheritedPackages st ?ds (q, t)))"
  proof (cases "depErrors st (st i)")
    case (Some e)
    then have x: "x = (st i)\<lparr>actErr := Some (WrapErr ''failed prerequisites: '' e)\<rparr>"
      using assms(3) nb by (simp add: analyzeSafe_def analyzeAction_def up)
    then show ?thesis using assms(1) by (simp add: freshAct_def soundFacts_def)
  next
    case None
    obtain inp x0 where x0: "fold (plumb E st) (actDeps (st i)) (Map.empty, (st i)\<lparr>objectFacts := Map.empty, packageFacts := Map.empty\<rparr>) = (inp, x0)"
      by fastforce
    have x0': "x0 = (st i)\<lparr>objectFacts := inheritedObjects E st ?ds, packageFacts := inheritedPackages st ?ds\<rparr>"
      using plumbs_inherited [of E st "st i" Map.empty] x0 by simp
    let ?x1 = "x0\<lparr>hasPass := True, exportOpen := True\<rparr>"
    obtain stop x2 where x2: "runAnalyzer E inp ?x1 = (stop, x2)" by fastforce
    have "atOrBelow rank (rank ?p) ?p (Some q)" if "rank q < rank ?p" for q using that by (simp add: atOrBelow_def)
    then have s1: "soundFacts E rank (rank ?p) ?x1"
      unfolding soundFacts_def x0' using inherited_below [of ?ds E rank st "rank ?p"] rk by fastforce
    have f: "foreignSame E ?x1 x2" "soundFacts E rank (rank ?p) x2"
      using runAnalyzer_own(1) [of E ?x1 inp] runAnalyzer_own(2) [OF s1, of inp] x2 by simp_all
    have an: "analyzeAction E i st = (stop, st(i := x2))" using nb None x0 x2 by (simp add: analyzeAction_def)
    then have "x = x2 \<or> (\<exists>e. x = x2\<lparr>actErr := Some e\<rparr>)"
      using assms(3) by (auto simp: analyzeSafe_def up split: option.splits fact_stop.splits)
    then show ?thesis using f by (auto simp: foreignSame_def soundFacts_def x0')
  qed
  then show "soundFacts E rank (rank ?p) x" "actPackage x = ?p" "actAnalyzer x = actAnalyzer (st i)"
    "actErr x = None \<Longrightarrow> objPkg (objInfo E obj) \<noteq> Some ?p \<Longrightarrow> objectFacts x (obj, t) = inheritedObjects E st ?ds (obj, t)"
    "actErr x = None \<Longrightarrow> q \<noteq> ?p \<Longrightarrow> packageFacts x (q, t) = inheritedPackages st ?ds (q, t)" by auto
qed

text \<open>The two analyses of an action agree.\<close>

definition agree :: "FactEnv \<Rightarrow> (nat \<Rightarrow> nat) \<Rightarrow> nat set \<Rightarrow> exec_action \<Rightarrow> nat \<Rightarrow> exec_action \<Rightarrow> exec_action \<Rightarrow> bool" where
  "agree E rank S x0 i x y \<longleftrightarrow> soundFacts E rank (rank (actPackage x0)) x \<and> actPackage x = actPackage x0 \<and> actAnalyzer x = actAnalyzer x0 \<and>
     actPackage y = actPackage x0 \<and> actAnalyzer y = actAnalyzer x0 \<and>
     (i \<in> S \<longrightarrow> actResult y = actResult x \<and> actDiags y = actDiags x) \<and>
     (i \<in> S \<or> usesFacts E (actAnalyzer x0) \<longrightarrow> actErr y = actErr x \<and> packageFacts y = packageFacts x \<and>
        (\<forall>obj t. visible E obj \<longrightarrow> objectFacts y (obj, t) = objectFacts x (obj, t)))"

lemma stepAct_agree:
  assumes law: "lawful E" and i: "freshAct (st i)" "linked E rank st i" "actDeps (st i) = ds" "set ds \<subseteq> V"
    and V: "\<And>d. d \<in> V \<Longrightarrow> agree E rank S (st0 d) d (st d) (st' d)"
    and closed: "\<And>d. i \<in> S \<Longrightarrow> d \<in> set ds \<Longrightarrow> actPackage (st d) = actPackage (st i) \<Longrightarrow> d \<in> S"
    and x: "analyzeSafe E i st = (None, st(i := x))" and y: "st' i = withCache E orders S ref st i" and ref: "ref i = x"
    and restored: "i \<notin> S \<Longrightarrow> \<not> isInitialPkg (st i) \<and> (usesFacts E (actAnalyzer (st i)) \<longrightarrow> actErr x = None)"
    and orders: "dom (packageFacts x) \<subseteq> set (fst (orders i))" "dom (objectFacts x) \<subseteq> set (snd (orders i))"
  shows "\<exists>y. stepAct E i st' = (None, st'(i := y)) \<and> agree E rank S (st i) i x y"
proof -
  let ?p = "actPackage (st i)" and ?a = "actAnalyzer (st i)"
  have D: "agree E rank S (st0 d) d (st d) (st' d)" if "d \<in> set ds" for d using V i(4) that by blast
  have link: "actPackage (st d) = ?p \<or> actAnalyzer (st d) = ?a \<and> usesFacts E ?a \<and> rank (actPackage (st d)) < rank ?p" if "d \<in> set ds" for d
    using i(2,3) that by (auto simp: linked_def)
  have below: "\<forall>d \<in> set (verticals st (st i)). soundFacts E rank (rank (actPackage (st d))) (st d)"
    using D i(3) by (auto simp: agree_def verticals_def)
  note facts = analyzeSafe_facts [OF i(1,2) x below]
  have dep: "sameDep E ?p (st d) (st' d)" if "d \<in> set ds" "actPackage (st d) \<noteq> ?p \<or> i \<in> S" for d
    using D [OF that(1)] link [OF that(1)] closed [OF _ that(1)] that(2) by (auto simp: agree_def sameDep_def)
  show ?thesis
  proof (cases "i \<in> S")
    case True
    then have e: "st' i = st i" using y by (simp add: withCache_def)
    obtain stop x' y' where xy: "analyzeSafe E i st = (stop, st(i := x'))" "analyzeSafe E i st' = (stop, st'(i := y'))" "sameSeen E x' y'"
      using analyzeSafe_same [of E st' i st, OF law e] dep True i(3) by blast
    then have "stop = None" "x' = x" using x by (simp_all, metis fun_upd_same)
    then have "stepAct E i st' = (None, st'(i := y'))" "sameSeen E x y'" using xy e i(1) by (simp_all add: stepAct_def freshAct_def)
    then show ?thesis using facts(1-3) by (auto simp: agree_def sameSeen_def)
  next
    case False
    have vy: "verticals st' (st' i) = verticals st (st i)"
      using D by (auto simp: verticals_def y withCache_def False i(3) agree_def intro!: filter_cong)
    have nn: "\<not> needAnalyzeSource (st' i)" using y False by (simp add: withCache_def)
    show ?thesis
    proof (cases "usesFacts E ?a")
      case uses: True
      have err: "actErr x = None" using restored False uses by blast
      have rk: "soundFacts E rank (rank (actPackage (st d))) (st d) \<and> rank (actPackage (st d)) < rank ?p" if "d \<in> set (verticals st (st i))" for d
        using below link [of d] that i(3) by (auto simp: verticals_def)
      have dv: "actPackage (st d) \<noteq> ?p \<and> sameDep E ?p (st d) (st' d)" if "d \<in> set (verticals st (st i))" for d
        using dep [of d] that i(3) by (auto simp: verticals_def)
      have fr: "st' i = (st i)\<lparr>needAnalyzeSource := False, loadCachedFactsDone := True, loadCachedFactsOk := True,
          cachedFacts := Some (persistedFacts E (fst (orders i)) (snd (orders i)) x)\<rparr>" using y False ref by (simp add: withCache_def)
      have "\<exists>y. applyCachedFacts E i st' = (None, st'(i := y)) \<and> packageFacts y = packageFacts x \<and>
          (\<forall>obj t. visible E obj \<longrightarrow> objectFacts y (obj, t) = objectFacts x (obj, t)) \<and> actPackage y = ?p \<and> actAnalyzer y = actAnalyzer x \<and> actErr y = actErr (st' i)"
        by (rule applyCachedFacts_same [OF law facts(1,2) _ facts(4) [OF err] facts(5) [OF err] rk dv vy])
          (use fr i(1) restored False uses facts(3) orders in \<open>simp_all add: freshAct_def\<close>)
      then obtain y' where y': "applyCachedFacts E i st' = (None, st'(i := y'))" "packageFacts y' = packageFacts x"
        "\<forall>obj t. visible E obj \<longrightarrow> objectFacts y' (obj, t) = objectFacts x (obj, t)" "actPackage y' = ?p" "actAnalyzer y' = actAnalyzer x" "actErr y' = actErr (st' i)" by blast
      have "actErr y' = actErr x" using y'(6) fr i(1) err by (simp add: freshAct_def)
      then show ?thesis using y' nn facts(1-3) False by (auto simp: agree_def stepAct_def)
    next
      case nu: False
      have "actAnalyzer (st' i) = ?a" "actPackage (st' i) = ?p" using y False by (simp_all add: withCache_def)
      then have "stepAct E i st' = (None, st'(i := st' i))" "agree E rank S (st i) i x (st' i)"
        using nn nu facts(1-3) False by (simp_all add: stepAct_def applyCachedFacts_def agree_def)
      then show ?thesis by blast
    qed
  qed
qed

lemma execAll_agree:
  assumes law: "lawful E"
    and H: "\<And>i. i \<in> set order \<Longrightarrow> freshAct (st0 i) \<and> linked E rank st0 i \<and> dom (packageFacts (ref i)) \<subseteq> set (fst (orders i)) \<and> dom (objectFacts (ref i)) \<subseteq> set (snd (orders i))"
    and closed: "\<And>i d. i \<in> set order \<Longrightarrow> i \<in> S \<Longrightarrow> d \<in> set (actDeps (st0 i)) \<Longrightarrow> actPackage (st0 d) = actPackage (st0 i) \<Longrightarrow> d \<in> S"
    and restored: "\<And>i. i \<in> set order \<Longrightarrow> i \<notin> S \<Longrightarrow> \<not> isInitialPkg (st0 i) \<and> (usesFacts E (actAnalyzer (st0 i)) \<longrightarrow> actErr (ref i) = None)"
  shows "inOrder st0 V order \<Longrightarrow> execAll E order st = (None, ref) \<Longrightarrow> (\<forall>i \<in> set order. st i = st0 i \<and> st' i = withCache E orders S ref st0 i) \<Longrightarrow>
    (\<forall>d \<in> V. agree E rank S (st0 d) d (st d) (st' d)) \<Longrightarrow>
    \<exists>mix. execAll E order st' = (None, mix) \<and> (\<forall>i \<in> V \<union> set order. agree E rank S (st0 i) i (ref i) (mix i))"
  using H closed restored
proof (induction order arbitrary: V st st')
  case (Cons i order)
  have i0: "st i = st0 i" "st' i = withCache E orders S ref st0 i" using Cons.prems(3) by simp_all
  have hi: "freshAct (st0 i)" "linked E rank st0 i" "dom (packageFacts (ref i)) \<subseteq> set (fst (orders i))" "dom (objectFacts (ref i)) \<subseteq> set (snd (orders i))"
    using Cons.prems(5) [of i] by simp_all
  have ord: "i \<notin> V" "set (actDeps (st0 i)) \<subseteq> V" "inOrder st0 (insert i V) order" "i \<notin> set order" "distinct order"
    using Cons.prems(1) inOrder_distinct [of st0 V "i # order"] by auto
  have stat: "actPackage (st d) = actPackage (st0 d) \<and> actAnalyzer (st d) = actAnalyzer (st0 d)" if "d \<in> V" for d
    using Cons.prems(4) that by (auto simp: agree_def)
  obtain stop x where a: "analyzeSafe E i st = (stop, st(i := x))" using analyzeSafe_frame by blast
  have step: "stepAct E i st = (stop, st(i := x))" using a hi(1) i0 by (simp add: stepAct_def freshAct_def)
  then have rest: "stop = None" "execAll E order (st(i := x)) = (None, ref)" using Cons.prems(2) by (auto split: option.splits)
  have need: "\<forall>k \<in> set order. needAnalyzeSource ((st(i := x)) k)" using Cons.prems(3,5) ord(4) by (auto simp: freshAct_def)
  have ref: "ref i = x" using execAll_frame [OF need ord(5) rest(2) ord(4)] by simp
  have "\<exists>y. stepAct E i st' = (None, st'(i := y)) \<and> agree E rank S (st i) i x y"
  proof (rule stepAct_agree [where ?st0.0 = st0, OF law])
    show "freshAct (st i)" "set (actDeps (st0 i)) \<subseteq> V" "actDeps (st i) = actDeps (st0 i)" using hi(1) i0 ord(2) by simp_all
    have "actPackage (st d) = actPackage (st0 d) \<and> actAnalyzer (st d) = actAnalyzer (st0 d)" if "d \<in> set (actDeps (st0 i))" for d
      using stat ord(2) that by blast
    then show "linked E rank st i" using hi(2) i0 unfolding linked_def by simp
    show "analyzeSafe E i st = (None, st(i := x))" using a rest(1) by simp
    show "st' i = withCache E orders S ref st i" using i0 by (simp add: withCache_def)
    show "d \<in> S" if "i \<in> S" "d \<in> set (actDeps (st0 i))" "actPackage (st d) = actPackage (st i)" for d
      using Cons.prems(6) [of i d] that stat ord(2) i0 by auto
    show "\<not> isInitialPkg (st i) \<and> (usesFacts E (actAnalyzer (st i)) \<longrightarrow> actErr x = None)" if "i \<notin> S"
      using Cons.prems(7) [of i] that i0 ref by simp
  qed (use Cons.prems(4) ref hi in simp_all)
  then obtain y where y: "stepAct E i st' = (None, st'(i := y))" "agree E rank S (st i) i x y" by blast
  have "\<exists>mix. execAll E order (st'(i := y)) = (None, mix) \<and> (\<forall>k \<in> insert i V \<union> set order. agree E rank S (st0 k) k (ref k) (mix k))"
  proof (rule Cons.IH [OF ord(3) rest(2)])
    show "\<forall>k \<in> set order. (st(i := x)) k = st0 k \<and> (st'(i := y)) k = withCache E orders S ref st0 k" using Cons.prems(3) ord(4) by auto
    show "\<forall>d \<in> insert i V. agree E rank S (st0 d) d ((st(i := x)) d) ((st'(i := y)) d)" using Cons.prems(4) y(2) i0(1) by simp
    show "d \<in> S" if "k \<in> set order" "k \<in> S" "d \<in> set (actDeps (st0 k))" "actPackage (st0 d) = actPackage (st0 k)" for k d
      by (rule Cons.prems(6) [OF _ that(2-4)]) (use that(1) in simp)
  qed (use Cons.prems(5,7) in simp_all)
  then show ?case using y(1) by auto
qed simp

section \<open>Failed dependencies\<close>

lemma errJoin_None: "errJoin es = None \<longleftrightarrow> (\<forall>e \<in> set es. e = None)"
  by (auto simp: errJoin_def List.map_filter_def filter_empty_conv Let_def)

lemma depErrors_None:
  "depErrors st act = None \<longleftrightarrow> (\<forall>d \<in> set (actDeps act). \<forall>e. actErr (st d) = Some e \<longrightarrow> errUnwrap e = None)"
proof -
  have "fold (\<lambda>d errs. case actErr (st d) of None \<Rightarrow> errs | Some e \<Rightarrow> errJoin [errs, errUnwrap e]) ds errs = None \<longleftrightarrow>
      errs = None \<and> (\<forall>d \<in> set ds. \<forall>e. actErr (st d) = Some e \<longrightarrow> errUnwrap e = None)" for ds errs
    by (induction ds arbitrary: errs) (auto simp: errJoin_None split: option.splits)
  then show ?thesis by (simp add: depErrors_def)
qed

text \<open>What an analyzer gets: for each required analyzer the result of the last dependency on the same package, and the inherited facts.\<close>

definition depResults :: "store \<Rightarrow> exec_action \<Rightarrow> nat list \<Rightarrow> inputs" where
  "depResults st act ds a = map_option (\<lambda>d. actResult (st d)) (find (\<lambda>d. actPackage (st d) = actPackage act \<and> actAnalyzer (st d) = a) (rev ds))"

definition startedAct :: "FactEnv \<Rightarrow> store \<Rightarrow> exec_action \<Rightarrow> exec_action" where
  "startedAct E st act = act\<lparr>objectFacts := inheritedObjects E st (verticals st act), packageFacts := inheritedPackages st (verticals st act),
     hasPass := True, exportOpen := True\<rparr>"

lemma plumbs_package: "actPackage (snd (fold (plumb E st) ds x)) = actPackage (snd x)"
  by (induction ds arbitrary: x) simp_all

lemma plumbs_inputs: "fst (fold (plumb E st) ds (Map.empty, act)) = depResults st act ds"
proof (induction ds rule: rev_induct)
  case (snoc d ds)
  obtain inp x where x: "fold (plumb E st) ds (Map.empty, act) = (inp, x)" by fastforce
  have "actPackage x = actPackage act" using plumbs_package [of E st ds "(Map.empty, act)"] x by simp
  moreover have "fold (plumb E st) (ds @ [d]) (Map.empty, act) = plumb E st d (inp, x)" using x by simp
  moreover have "inp = depResults st act ds" using snoc x by simp
  ultimately have "fst (fold (plumb E st) (ds @ [d]) (Map.empty, act)) =
      (if actPackage (st d) = actPackage act then (depResults st act ds)(actAnalyzer (st d) \<mapsto> actResult (st d)) else depResults st act ds)"
    by (simp only: plumb_def Let_def prod.case fst_conv split: if_split) simp
  also have "\<dots> = depResults st act (ds @ [d])" by (simp add: depResults_def fun_eq_iff)
  finally show ?case .
qed (simp add: depResults_def fun_eq_iff)

lemma analyzeAction_started:
  assumes "needAnalyzeSource (st i)" "depErrors st (st i) = None"
  shows "analyzeAction E i st =
    (let (stop, x) = runAnalyzer E (depResults st (st i) (actDeps (st i))) (startedAct E st (st i)) in (stop, st(i := x)))"
proof -
  let ?x = "(st i)\<lparr>objectFacts := Map.empty, packageFacts := Map.empty\<rparr>"
  have "depResults st ?x ds = depResults st (st i) ds" for ds by (simp add: depResults_def fun_eq_iff)
  then have "fold (plumb E st) (actDeps (st i)) (Map.empty, ?x) = (depResults st (st i) (actDeps (st i)),
      (st i)\<lparr>objectFacts := inheritedObjects E st (verticals st (st i)), packageFacts := inheritedPackages st (verticals st (st i))\<rparr>)"
    using plumbs_inputs [of E st "actDeps (st i)" ?x] plumbs_inherited [of E st "st i" Map.empty] by (simp add: prod_eq_iff)
  then show ?thesis using assms by (simp add: analyzeAction_def startedAct_def Let_def)
qed

text \<open>What the calls of an analyzer leave alone.\<close>

definition sameAct :: "exec_action \<Rightarrow> exec_action \<Rightarrow> bool" where
  "sameAct x y \<longleftrightarrow> actAnalyzer y = actAnalyzer x \<and> actPackage y = actPackage x \<and> isInitialPkg y = isInitialPkg x \<and>
     needAnalyzeSource y = needAnalyzeSource x \<and> hasPass y = hasPass x"

lemma doEvents_sameAct: "sameAct x (snd (whileOk (doEvent E) evs x))"
proof (rule whileOk_invariant [where P = "sameAct x"])
  show "sameAct x y'" if "sameAct x y" "doEvent E ev y = Inr y'" for ev y y'
    using that
    by (auto simp: sameAct_def doEvent_def exportObjectFact_def exportPackageFact_def split: RunEvent.splits if_splits sum.splits)
qed (simp add: sameAct_def)

lemma resolveURLs_spec:
  "(fst (resolveURLs resolve ds) = None \<longleftrightarrow> (\<forall>d \<in> set ds. \<not> isl (resolve (fst d)))) \<and> map fst (snd (resolveURLs resolve ds)) = map fst ds"
proof (induction ds)
  case (Cons d ds)
  then show ?case by (cases "resolve (fst d)"; cases "resolveURLs resolve ds") auto
qed simp

text \<open>How the analysis of an action ends when its analyzer was run and its calls were made: the facts and messages are those of
  the calls, and the error and the result are those of the analyzer.\<close>

definition endsAs :: "FactEnv \<Rightarrow> exec_action \<Rightarrow> fact_stop option \<Rightarrow> RunEnd \<Rightarrow> exec_action \<Rightarrow> fact_stop option \<Rightarrow> exec_action \<Rightarrow> bool" where
  "endsAs E act halted fin called stop x \<longleftrightarrow>
     (let panics = (\<lambda>s. stop = None \<and> actErr x = Some (PanicErr (actAnalyzer act) (actPackage act) (isInitialPkg act) (needAnalyzeSource act) s))
      in hasPass x \<and> objectFacts x = objectFacts called \<and> packageFacts x = packageFacts called \<and>
         map fst (actDiags x) = map fst (actDiags called) \<and>
         (case halted of
            Some (Fatal s) \<Rightarrow> stop = Some (Fatal s)
          | Some (Panicked s) \<Rightarrow> panics s
          | None \<Rightarrow> (case fin of
              RunPanic s \<Rightarrow> panics s
            | RunError e \<Rightarrow> stop = None \<and> actErr x = Some e \<and> actResult x = None
            | RunResult r \<Rightarrow> stop = None \<and>
                (if map_option fst r = ResultType E (actAnalyzer act) \<and> (\<forall>d \<in> set (actDiags called). \<not> isl (ResolveURL E (actAnalyzer act) (fst d)))
                 then actErr x = None \<and> actResult x = r else actErr x \<noteq> None \<and> actResult x = None))))"

lemma analyzeSafe_ends:
  assumes "needAnalyzeSource (st i)" "depErrors st (st i) = None" "\<not> IllTyped E (actPackage (st i))"
    and "out = analyzerRun E (actAnalyzer (st i)) (actPackage (st i)) (depResults st (st i) (actDeps (st i)))
           (inheritedObjects E st (verticals st (st i))) (inheritedPackages st (verticals st (st i)))"
    and "whileOk (doEvent E) (roEvents out) (startedAct E st (st i)) = (halted, called)"
  shows "\<exists>stop x. analyzeSafe E i st = (stop, st(i := x)) \<and> endsAs E (st i) halted (roEnd out) called stop x"
proof -
  let ?a = "st i"
  have "sameAct (startedAct E st ?a) called" using doEvents_sameAct [of "startedAct E st ?a" E "roEvents out"] assms(5) by simp
  then have c: "actAnalyzer called = actAnalyzer ?a" "actPackage called = actPackage ?a" "isInitialPkg called = isInitialPkg ?a"
    "needAnalyzeSource called = needAnalyzeSource ?a" "hasPass called" by (simp_all add: sameAct_def startedAct_def)
  have "runAnalyzer E (depResults st ?a (actDeps ?a)) (startedAct E st ?a) =
      (case halted of Some s \<Rightarrow> (Some s, called) | None \<Rightarrow> endRun E (roEnd out) called)"
    using assms(3,4,5) by (simp add: runAnalyzer_def startedAct_def split: option.split)
  then have an: "analyzeAction E i st =
      (case halted of Some s \<Rightarrow> (Some s, st(i := called)) | None \<Rightarrow> (let (stop, x) = endRun E (roEnd out) called in (stop, st(i := x))))"
    using analyzeAction_started [OF assms(1,2), of E] by (simp split: option.split)
  show ?thesis
  proof (cases halted)
    case (Some s)
    then show ?thesis using an c by (cases s) (auto simp: analyzeSafe_def endsAs_def)
  next
    case None
    note r = resolveURLs_spec [of "ResolveURL E (actAnalyzer ?a)" "actDiags called"]
    obtain e ds where u: "resolveURLs (ResolveURL E (actAnalyzer ?a)) (actDiags called) = (e, ds)" by fastforce
    show ?thesis
    proof (cases "roEnd out")
      case (RunResult res)
      then show ?thesis using an c None r u by (cases e) (auto simp: analyzeSafe_def endRun_def endsAs_def)
    qed (use an c None in \<open>auto simp: analyzeSafe_def endRun_def endsAs_def\<close>)
  qed
qed

section \<open>Bundles\<close>

definition factActs :: "FactEnv \<Rightarrow> store \<Rightarrow> nat list \<Rightarrow> nat list" where
  "factActs E st acts = filter (\<lambda>i. usesFacts E (actAnalyzer (st i))) acts"

definition bundleEntry :: "FactEnv \<Rightarrow> (nat \<Rightarrow> packageFactKey list \<times> objectFactKey list) \<Rightarrow> factBundle \<Rightarrow> exec_action \<Rightarrow> nat \<Rightarrow> Fact list option" where
  "bundleEntry E orders b act i = (if \<not> needAnalyzeSource act then b (nameOf E act)
     else if hasPass act then Some (persistedFacts E (fst (orders i)) (snd (orders i)) act) else None)"

lemma bundleSteps_other:
  "nameOf E (st i) \<notin> (\<lambda>j. nameOf E (st j)) ` set (factActs E st acts) \<Longrightarrow> fst (fold (bundleStep E orders st) acts bc) (nameOf E (st i)) = fst bc (nameOf E (st i))"
proof (induction acts arbitrary: bc)
  case (Cons a acts)
  have "nameOf E (st i) \<notin> (\<lambda>j. nameOf E (st j)) ` set (factActs E st acts)" using Cons.prems by (auto simp: factActs_def split: if_splits)
  then have "fst (fold (bundleStep E orders st) acts (bundleStep E orders st a bc)) (nameOf E (st i)) = fst (bundleStep E orders st a bc) (nameOf E (st i))"
    by (rule Cons.IH)
  also have "\<dots> = fst bc (nameOf E (st i))" using Cons.prems by (auto simp: bundleStep_def factActs_def Let_def)
  finally show ?case by simp
qed simp

lemma bundleSteps_entry:
  assumes "distinct (map (\<lambda>i. nameOf E (st i)) (factActs E st acts))" "i \<in> set (factActs E st acts)"
  shows "fst (fold (bundleStep E orders st) acts bc) (nameOf E (st i)) = bundleEntry E orders (fst bc) (st i) i"
  using assms
proof (induction acts arbitrary: bc)
  case (Cons j acts)
  show ?case
  proof (cases "usesFacts E (actAnalyzer (st j))")
    case uses: True
    then have d: "distinct (map (\<lambda>i. nameOf E (st i)) (factActs E st acts))" "nameOf E (st j) \<notin> (\<lambda>j. nameOf E (st j)) ` set (factActs E st acts)"
      using Cons.prems(1) by (simp_all add: factActs_def)
    show ?thesis
    proof (cases "i = j")
      case True
      then show ?thesis using uses d(2) by (simp add: bundleSteps_other) (simp add: bundleStep_def bundleEntry_def Let_def)
    next
      case False
      then have i: "i \<in> set (factActs E st acts)" using Cons.prems(2) by (auto simp: factActs_def split: if_splits)
      then have "nameOf E (st i) \<noteq> nameOf E (st j)" using d(2) imageI [OF i, of "\<lambda>j. nameOf E (st j)"] by metis
      then have "fst (bundleStep E orders st j bc) (nameOf E (st i)) = fst bc (nameOf E (st i))" by (simp add: bundleStep_def Let_def)
      then show ?thesis using Cons.IH [OF d(1) i] by (simp add: bundleEntry_def)
    qed
  next
    case False
    then show ?thesis using Cons by (auto simp: bundleStep_def factActs_def Let_def)
  qed
qed (simp add: factActs_def)

lemma markLoaded_frame: "j \<noteq> i \<Longrightarrow> markLoaded E b i st j = st j"
  by (simp add: markLoaded_def Let_def split: option.splits)

lemma markLoadeds_entry:
  "distinct acts \<Longrightarrow> i \<in> set acts \<Longrightarrow> fold (markLoaded E b) acts st i = markLoaded E b i st i"
proof (induction acts arbitrary: st)
  case (Cons j acts)
  have out: "i \<notin> set acts \<Longrightarrow> fold (markLoaded E b) acts st' i = st' i" for st' acts
    by (induction acts arbitrary: st') (auto simp: markLoaded_frame)
  show ?case
  proof (cases "i = j")
    case True
    then show ?thesis using Cons.prems(1) out by simp
  next
    case False
    then have "markLoaded E b i (markLoaded E b j st) i = markLoaded E b i st i"
      using markLoaded_frame [of i j E b st] by (simp add: markLoaded_def Let_def split: option.splits)
    then show ?thesis using Cons False by simp
  qed
qed simp

lemma factCacheKey_same:
  "(\<And>i. i \<in> set acts \<Longrightarrow> actAnalyzer (st' i) = actAnalyzer (st i)) \<Longrightarrow> factCacheKey sha256 E pre (map st' acts) = factCacheKey sha256 E pre (map st acts)"
proof -
  assume a: "\<And>i. i \<in> set acts \<Longrightarrow> actAnalyzer (st' i) = actAnalyzer (st i)"
  have "map (\<lambda>act. anName (analyzer (graphEnv E) (actAnalyzer act))) (filter (\<lambda>act. usesFacts E (actAnalyzer act)) (map st' acts)) =
      map (\<lambda>act. anName (analyzer (graphEnv E) (actAnalyzer act))) (filter (\<lambda>act. usesFacts E (actAnalyzer act)) (map st acts))"
    using a by (induction acts) simp_all
  then show ?thesis by (simp add: factCacheKey_def)
qed

section \<open>Properties\<close>

text \<open>C30: Facts from the cache are as good as facts from an analysis. Take a complete analysis from source, and another one in which the
  actions outside \<open>S\<close> are not analyzed but get the facts that the first one stored; only facts about objects of the package
  itself are stored, the others are rebuilt from the imported packages. Then the second analysis ends too, every action of \<open>S\<close> has
  the same result, error and diagnostics, and all actions with facts have the same facts about packages and about all
  objects that a path leads to. This holds for lawful paths, for analyzers that look at no other facts, when \<open>S\<close> has
  with an action those on the same package that it depends on, and when the restored actions had not failed.\<close>

theorem cached_facts_transparent:
  assumes "lawful E" "inOrder st {} order" "execAll E order st = (None, ref)"
    and "\<forall>i \<in> set order. freshAct (st i) \<and> linked E rank st i"
    and "\<forall>i \<in> S. \<forall>d \<in> set (actDeps (st i)). actPackage (st d) = actPackage (st i) \<longrightarrow> d \<in> S"
    and "\<forall>i \<in> set order - S. \<not> isInitialPkg (st i) \<and> (usesFacts E (actAnalyzer (st i)) \<longrightarrow> actErr (ref i) = None)"
    and "\<forall>i \<in> set order. dom (packageFacts (ref i)) \<subseteq> set (fst (orders i)) \<and> dom (objectFacts (ref i)) \<subseteq> set (snd (orders i))"
  shows "\<exists>mix. execAll E order (withCache E orders S ref st) = (None, mix) \<and>
    (\<forall>i \<in> set order \<inter> S. actResult (mix i) = actResult (ref i) \<and> actErr (mix i) = actErr (ref i) \<and> actDiags (mix i) = actDiags (ref i)) \<and>
    (\<forall>i \<in> set order. i \<in> S \<or> usesFacts E (actAnalyzer (st i)) \<longrightarrow> packageFacts (mix i) = packageFacts (ref i) \<and>
       (\<forall>obj t. visible E obj \<longrightarrow> objectFacts (mix i) (obj, t) = objectFacts (ref i) (obj, t)))"
proof -
  have "\<exists>mix. execAll E order (withCache E orders S ref st) = (None, mix) \<and> (\<forall>i \<in> {} \<union> set order. agree E rank S (st i) i (ref i) (mix i))"
  proof (rule execAll_agree [OF assms(1) _ _ _ assms(2,3)])
    show "freshAct (st i) \<and> linked E rank st i \<and> dom (packageFacts (ref i)) \<subseteq> set (fst (orders i)) \<and> dom (objectFacts (ref i)) \<subseteq> set (snd (orders i))"
      if "i \<in> set order" for i using assms(4,7) that by blast
  qed (use assms(5,6) in auto)
  then show ?thesis by (auto simp: agree_def)
qed

text \<open>Package 0 imports package 1, in which an object gets a fact; with that fact the analysis of package 0 reports something.\<close>

definition exampleFact :: FactValue where
  "exampleFact = \<lparr>typOf = ''F'', isPointer = True, factText = ''v''\<rparr>"

definition exampleFacts :: FactEnv where
  "exampleFacts = \<lparr>graphEnv = exampleGraphEnv,
     objInfo = (\<lambda>_. \<lparr>objKind = TypeNameObj, objExported = True, objPkg = Some 1\<rparr>),
     pathFor = (\<lambda>obj. if obj = 7 then Some ''T'' else None), objectAt = (\<lambda>p path. if p = 1 \<and> path = ''T'' then Some 7 else None),
     IllTyped = (\<lambda>_. False), ResultType = (\<lambda>_. None), ResolveURL = (\<lambda>_ _. Inr []),
     analyzerRun = (\<lambda>a p inputs m pf. \<lparr>roEvents = (if p = 1 then [ExportObject 7 exampleFact]
       else if m (7, ''F'') \<noteq> None then [Report ''seen''] else []), roEnd = RunResult None\<rparr>)\<rparr>"

definition exampleStore :: store where
  "exampleStore i = \<lparr>actAnalyzer = 0, actPackage = i, IsRoot = (i = 0), actDeps = (if i = 0 then [1] else []), isInitialPkg = (i = 0),
     needAnalyzeSource = True, factMaps = True, actResult = None, actErr = None, actDiags = [], hasPass = False, exportOpen = False,
     objectFacts = Map.empty, packageFacts = Map.empty, loadCachedFactsDone = False, loadCachedFactsOk = False,
     cachedFactsApplied = False, cachedFacts = None\<rparr>"

lemmas example_simps = exampleFacts_def exampleStore_def exampleFact_def stepAct_def analyzeSafe_def analyzeAction_def depErrors_def runAnalyzer_def
  plumb_def inheritFacts_def doEvent_def exportObjectFact_def endRun_def factType_def exportedFrom_def

lemma example_lawful: "lawful exampleFacts"
  by (auto simp: lawful_def visible_def exampleFacts_def split: option.splits if_splits)

abbreviation exampleRun :: "fact_stop option \<times> store" where
  "exampleRun \<equiv> execAll exampleFacts [1, 0] exampleStore"

lemma example_run:
  "fst exampleRun = None" "actErr (snd exampleRun 1) = None" "actDiags (snd exampleRun 0) = [(''seen'', [])]"
  "packageFacts (snd exampleRun 1) = Map.empty" "packageFacts (snd exampleRun 0) = Map.empty"
  "objectFacts (snd exampleRun 1) = [(7, ''F'') \<mapsto> exampleFact]" "objectFacts (snd exampleRun 0) = [(7, ''F'') \<mapsto> exampleFact]"
  by (simp_all add: example_simps fun_eq_iff Let_def)

theorem cached_facts_transparent_witness:
  "\<exists>ref mix. execAll exampleFacts [1, 0] exampleStore = (None, ref) \<and>
     execAll exampleFacts [1, 0] (withCache exampleFacts (\<lambda>_. ([], [(7, ''F'')])) {0} ref exampleStore) = (None, mix) \<and>
     actDiags (mix 0) = [(''seen'', [])] \<and> objectFacts (mix 1) (7, ''F'') = Some exampleFact"
proof -
  define ref where "ref = snd exampleRun"
  note ex = example_run [folded ref_def]
  have run: "execAll exampleFacts [1, 0] exampleStore = (None, ref)" using ex(1) by (metis ref_def prod.collapse)
  have ord: "inOrder exampleStore {} [1, 0]" by (simp add: exampleStore_def)
  have u: "usesFacts exampleFacts 0" by (simp add: usesFacts_def exampleFacts_def exampleGraphEnv_def)
  have fresh: "\<forall>i \<in> set [1, 0]. freshAct (exampleStore i) \<and> linked exampleFacts (\<lambda>p. if p = 0 then 1 else 0) exampleStore i"
    using u by (simp add: freshAct_def linked_def exampleStore_def)
  have closed: "\<forall>i \<in> {0}. \<forall>d \<in> set (actDeps (exampleStore i)). actPackage (exampleStore d) = actPackage (exampleStore i) \<longrightarrow> d \<in> {0}"
    by (simp add: exampleStore_def)
  have rest: "\<forall>i \<in> set [1, 0] - {0}. \<not> isInitialPkg (exampleStore i) \<and> (usesFacts exampleFacts (actAnalyzer (exampleStore i)) \<longrightarrow> actErr (ref i) = None)"
    using ex(2) by (auto simp: exampleStore_def)
  have doms: "\<forall>i \<in> set [1, 0]. dom (packageFacts (ref i)) \<subseteq> set (fst ([], [(7, ''F'')])) \<and> dom (objectFacts (ref i)) \<subseteq> set (snd ([], [(7, ''F'')]))"
    using ex(4-7) by simp
  have an: "actAnalyzer (exampleStore i) = 0" for i by (simp add: exampleStore_def)
  have vis: "visible exampleFacts 7" by (simp add: visible_def exampleFacts_def)
  obtain mix where "execAll exampleFacts [1, 0] (withCache exampleFacts (\<lambda>_. ([], [(7, ''F'')])) {0} ref exampleStore) = (None, mix)"
      "actDiags (mix 0) = actDiags (ref 0)" "objectFacts (mix 1) (7, ''F'') = objectFacts (ref 1) (7, ''F'')"
    using cached_facts_transparent [OF example_lawful ord run fresh closed rest doms] vis u by (auto simp: an simp del: execAll.simps)
  then show ?thesis using run ex(3,6) by (intro exI [of _ ref] exI [of _ mix]) (simp del: execAll.simps)
qed

text \<open>C33: When an action is executed, the failure of a dependency is noticed exactly when the error of the dependency wraps another
  error. Then the action fails in turn and its analyzer is not run. Otherwise, also when a dependency failed with a plain
  error or a panic, an action on an ill-typed package is skipped with an error, and any other runs its analyzer, on the
  results of the dependencies on the same package and the facts of those on imported packages: its facts, its messages, its
  result and its error are those of the run, a panic becoming an error.\<close>

theorem failed_dependencies_noticed:
  fixes E :: FactEnv and st :: store and i :: nat
  assumes "needAnalyzeSource (st i)"
  defines "a \<equiv> actAnalyzer (st i)" and "p \<equiv> actPackage (st i)"
  defines "out \<equiv> analyzerRun E a p (depResults st (st i) (actDeps (st i)))
    (inheritedObjects E st (verticals st (st i))) (inheritedPackages st (verticals st (st i)))"
  shows "if \<exists>d \<in> set (actDeps (st i)). \<exists>e. actErr (st d) = Some e \<and> errUnwrap e \<noteq> None
    then \<exists>e. analyzeSafe E i st = (None, st(i := (st i)\<lparr>actErr := Some (WrapErr ''failed prerequisites: '' e)\<rparr>))
    else if IllTyped E p
    then analyzeSafe E i st = (None, st(i := (startedAct E st (st i))\<lparr>actResult := None,
      actErr := Some (WrapErr ''analysis skipped: '' (IllTypedErr p)), exportOpen := False\<rparr>))
    else \<exists>halted called stop x. whileOk (doEvent E) (roEvents out) (startedAct E st (st i)) = (halted, called) \<and>
      analyzeSafe E i st = (stop, st(i := x)) \<and> endsAs E (st i) halted (roEnd out) called stop x"
proof (cases "depErrors st (st i)")
  case None
  then have n: "\<not> (\<exists>d \<in> set (actDeps (st i)). \<exists>e. actErr (st d) = Some e \<and> errUnwrap e \<noteq> None)" by (simp add: depErrors_None)
  show ?thesis
  proof (cases "IllTyped E p")
    case True
    then have "analyzeAction E i st = (None, st(i := (startedAct E st (st i))\<lparr>actResult := None,
        actErr := Some (WrapErr ''analysis skipped: '' (IllTypedErr p)), exportOpen := False\<rparr>))"
      using analyzeAction_started [OF assms(1) None, of E] by (simp add: runAnalyzer_def startedAct_def p_def)
    then have "analyzeSafe E i st = (None, st(i := (startedAct E st (st i))\<lparr>actResult := None,
        actErr := Some (WrapErr ''analysis skipped: '' (IllTypedErr p)), exportOpen := False\<rparr>))"
      by (simp add: analyzeSafe_def)
    then show ?thesis using n True by (simp only: if_True if_False)
  next
    case False
    obtain halted called where w: "whileOk (doEvent E) (roEvents out) (startedAct E st (st i)) = (halted, called)" by fastforce
    have "\<exists>stop x. analyzeSafe E i st = (stop, st(i := x)) \<and> endsAs E (st i) halted (roEnd out) called stop x"
      by (rule analyzeSafe_ends [OF assms(1) None False [unfolded p_def] out_def [unfolded a_def p_def, THEN meta_eq_to_obj_eq] w])
    then show ?thesis using n False w by (simp only: if_False) blast
  qed
next
  case (Some e)
  then have "\<exists>d \<in> set (actDeps (st i)). \<exists>e. actErr (st d) = Some e \<and> errUnwrap e \<noteq> None" using depErrors_None [of st "st i"] by auto
  moreover have "analyzeSafe E i st = (None, st(i := (st i)\<lparr>actErr := Some (WrapErr ''failed prerequisites: '' e)\<rparr>))"
    using assms(1) Some by (simp add: analyzeSafe_def analyzeAction_def)
  ultimately show ?thesis by (simp only: if_True) blast
qed

text \<open>A dependency that panicked: the analyzer of package 0 runs all the same and sees the facts of the dependency.\<close>

theorem failed_dependencies_noticed_witness:
  "let st = exampleStore(1 := (exampleStore 1)\<lparr>actErr := Some (PanicErr 0 1 False True ''nil''), objectFacts := [(7, ''F'') \<mapsto> exampleFact]\<rparr>)
   in \<exists>x. analyzeSafe exampleFacts 0 st = (None, st(0 := x)) \<and> actErr x = None \<and> map fst (actDiags x) = [''seen'']"
proof -
  define st where "st = exampleStore(1 := (exampleStore 1)\<lparr>actErr := Some (PanicErr 0 1 False True ''nil''), objectFacts := [(7, ''F'') \<mapsto> exampleFact]\<rparr>)"
  have n: "needAnalyzeSource (st 0)" "\<not> (\<exists>d \<in> set (actDeps (st 0)). \<exists>e. actErr (st d) = Some e \<and> errUnwrap e \<noteq> None)"
      "\<not> IllTyped exampleFacts 0" "actPackage (st 0) = 0" "verticals st (st 0) = [1]"
    by (simp_all add: st_def exampleStore_def exampleFacts_def verticals_def)
  have seen: "inheritedObjects exampleFacts st [1] (7, ''F'') \<noteq> None"
    by (simp add: st_def inheritedObjects_def exportedOf_def exampleFacts_def exportedFrom_def)
  have out: "analyzerRun exampleFacts aa 0 inp (inheritedObjects exampleFacts st [1]) pf = \<lparr>roEvents = [Report ''seen''], roEnd = RunResult None\<rparr>" for aa inp pf
    using seen by (simp add: exampleFacts_def)
  let ?called = "(startedAct exampleFacts st (st 0))\<lparr>actDiags := [(''seen'', [])]\<rparr>"
  have ev: "whileOk (doEvent exampleFacts) (roEvents \<lparr>roEvents = [Report ''seen''], roEnd = RunResult None\<rparr>) (startedAct exampleFacts st (st 0)) = (None, ?called)"
    by (simp add: doEvent_def startedAct_def st_def exampleStore_def)
  have env: "ResultType exampleFacts b = None" "ResolveURL exampleFacts b d = Inr []" for b d by (simp_all add: exampleFacts_def)
  have fin: "roEnd \<lparr>roEvents = [Report ''seen''], roEnd = RunResult None\<rparr> = RunResult None" by simp
  obtain stop x where x: "analyzeSafe exampleFacts 0 st = (stop, st(0 := x))"
      "endsAs exampleFacts (st 0) None (RunResult None) ?called stop x"
    using failed_dependencies_noticed [where E = exampleFacts and st = st and i = 0, OF n(1), unfolded if_not_P [OF n(2)] n(4,5) if_not_P [OF n(3)] out ev fin]
    by blast
  have r: "stop = None" "actErr x = None" "map fst (actDiags x) = [''seen'']"
    using x(2) unfolding endsAs_def Let_def env by simp_all
  show ?thesis unfolding Let_def st_def [symmetric]
    by (rule exI [of _ x]) (intro conjI r(2,3) x(1) [unfolded r(1)])
qed

text \<open>C32: What the bundle of a package keeps from one run to the next. For analyzers with different names, an action that was to be
  analyzed and was started gets in the next run exactly the facts that it had at its end, whether it failed or not; one that was not
  started has no facts in the cache; and one that was not to be analyzed keeps the facts it had been given.\<close>

theorem fact_bundle_round_trip:
  assumes "persistFactsToCache sha256 E pre orders acts ls = (Some (key, b), ls')" "lookup key = Inr b"
    and "distinct acts" "distinct (map (\<lambda>i. nameOf E (lsStore ls i)) (factActs E (lsStore ls) acts))"
    and "\<forall>j \<in> set acts. actAnalyzer (lsStore ls2 j) = actAnalyzer (lsStore ls j) \<and> \<not> loadCachedFactsDone (lsStore ls2 j)"
    and "i \<in> set (factActs E (lsStore ls) acts)"
  shows "let act = lsStore (readPackageFacts sha256 E pre lookup False acts ls2) i;
           old = (case lpCachedFacts ls of None \<Rightarrow> Map.empty | Some b \<Rightarrow> b); was = lsStore ls i;
           facts = (if \<not> needAnalyzeSource was then old (nameOf E was)
             else if hasPass was then Some (persistedFacts E (fst (orders i)) (snd (orders i)) was) else None)
         in loadCachedFactsDone act \<and> loadCachedFactsOk act = (facts \<noteq> None) \<and> (facts \<noteq> None \<longrightarrow> cachedFacts act = facts)"
proof -
  let ?st = "lsStore ls" and ?st2 = "lsStore ls2" and ?old = "case lpCachedFacts ls of None \<Rightarrow> Map.empty | Some b \<Rightarrow> b"
  have key: "key = factCacheKey sha256 E pre (map ?st acts)" and b: "b = fst (fold (bundleStep E orders ?st) acts (?old, False))"
    using assms(1) by (auto simp: persistFactsToCache_def Let_def split: prod.splits if_splits)
  have i: "i \<in> set acts" "usesFacts E (actAnalyzer (?st i))" using assms(6) by (auto simp: factActs_def)
  have an: "actAnalyzer (?st2 i) = actAnalyzer (?st i)" using assms(5) i(1) by blast
  have key2: "factCacheKey sha256 E pre (map ?st2 acts) = key" unfolding key using assms(5) by (intro factCacheKey_same) blast
  have "find (\<lambda>i. usesFacts E (actAnalyzer (?st2 i)) \<and> \<not> loadCachedFactsDone (?st2 i)) acts \<noteq> None"
    using i an assms(5) by (auto simp: find_None_iff intro!: exI [of _ i])
  then have "lsStore (readPackageFacts sha256 E pre lookup False acts ls2) i = markLoaded E b i ?st2 i"
    using key2 assms(2) markLoadeds_entry [OF assms(3) i(1), of E b ?st2] by (auto simp: readPackageFacts_def Let_def)
  moreover have "b (nameOf E (?st2 i)) = bundleEntry E orders ?old (?st i) i"
    using bundleSteps_entry [OF assms(4,6), of orders "(?old, False)"] an b by (simp add: nameOf_def)
  ultimately show ?thesis
    using an i(2) by (auto simp: markLoaded_def bundleEntry_def Let_def nameOf_def split: option.splits)
qed

text \<open>A failed action on package 1.\<close>

definition exampleLoad :: LoadState where
  "exampleLoad = \<lparr>lsStore = exampleStore(1 := (exampleStore 1)\<lparr>hasPass := True, actErr := Some (PlainErr ''bad'')\<rparr>),
     lpCachedFacts = None, lsPkgErrors = [], lsLog = []\<rparr>"

theorem fact_bundle_round_trip_witness:
  "\<exists>key b ls'. persistFactsToCache (\<lambda>s. s) exampleFacts ''p'' (\<lambda>_. ([], [])) [1] exampleLoad = (Some (key, b), ls') \<and>
     actErr (lsStore exampleLoad 1) \<noteq> None \<and>
     loadCachedFactsOk (lsStore (readPackageFacts (\<lambda>s. s) exampleFacts ''p'' (\<lambda>_. Inr b) False [1] (exampleLoad\<lparr>lsStore := exampleStore\<rparr>)) 1)"
proof -
  have u: "usesFacts exampleFacts 0" by (simp add: usesFacts_def exampleFacts_def exampleGraphEnv_def)
  have a: "lsStore exampleLoad 1 = (exampleStore 1)\<lparr>hasPass := True, actErr := Some (PlainErr ''bad'')\<rparr>" "actAnalyzer (exampleStore 1) = 0"
    "needAnalyzeSource (exampleStore 1)" "\<not> loadCachedFactsDone (exampleStore 1)" "lpCachedFacts exampleLoad = None"
    by (simp_all add: exampleLoad_def exampleStore_def)
  obtain key b ls' where p: "persistFactsToCache (\<lambda>s. s) exampleFacts ''p'' (\<lambda>_. ([], [])) [1] exampleLoad = (Some (key, b), ls')"
    using u a by (simp add: persistFactsToCache_def bundleStep_def Let_def)
  have f: "factActs exampleFacts (lsStore exampleLoad) [1] = [1]" using u a by (simp add: factActs_def)
  have d: "distinct [1::nat]" "distinct (map (\<lambda>i. nameOf exampleFacts (lsStore exampleLoad i)) (factActs exampleFacts (lsStore exampleLoad) [1]))"
    unfolding f by simp_all
  have s: "\<forall>j \<in> set [1]. actAnalyzer (lsStore (exampleLoad\<lparr>lsStore := exampleStore\<rparr>) j) = actAnalyzer (lsStore exampleLoad j) \<and>
      \<not> loadCachedFactsDone (lsStore (exampleLoad\<lparr>lsStore := exampleStore\<rparr>) j)" using a by simp
  have i: "1 \<in> set (factActs exampleFacts (lsStore exampleLoad) [1])" unfolding f by simp
  have "loadCachedFactsOk (lsStore (readPackageFacts (\<lambda>s. s) exampleFacts ''p'' (\<lambda>_. Inr b) False [1] (exampleLoad\<lparr>lsStore := exampleStore\<rparr>)) 1)"
    using fact_bundle_round_trip [OF p refl d s i] a by (simp add: Let_def)
  then show ?thesis using p a(1) by (intro exI [of _ key] exI [of _ b] exI [of _ ls']) simp
qed

end
