(* ===== verification/Source_Marks.thy ===== *)
theory Source_Marks
  imports Action_Facts
begin

text \<open>
  Which actions of an imported package are analyzed from source (\<open>pkg/goanalysis/runner_action.go\<close>, \<open>runner_loadingpackage.go\<close>):
  those without facts in the cache, and all that they need from the same package. The marking stops at an action that is
  marked already; that this misses nothing rests on the order of the visits. The definitions are in \<open>Action_Facts\<close>.
\<close>

definition sameDepsOf :: "store \<Rightarrow> nat \<Rightarrow> nat list" where
  "sameDepsOf st i = filter (\<lambda>d. actPackage (st d) = actPackage (st i)) (actDeps (st i))"

interpretation same: digraph "sameDepsOf st" for st .

text \<open>A store in which exactly the actions of a set are marked.\<close>

definition marked :: "nat set \<Rightarrow> store \<Rightarrow> store" where
  "marked M st i = (st i)\<lparr>needAnalyzeSource := (i \<in> M)\<rparr>"

lemma marked_simps [simp]:
  "actPackage (marked M st i) = actPackage (st i)" "actDeps (marked M st i) = actDeps (st i)" "needAnalyzeSource (marked M st i) = (i \<in> M)"
  "(marked M st)(i := (marked M st i)\<lparr>needAnalyzeSource := True\<rparr>) = marked (insert i M) st"
  by (auto simp: marked_def fun_eq_iff)

lemma marked_self: "marked {i. needAnalyzeSource (st i)} st = st"
  by (simp add: marked_def fun_eq_iff)

definition closedBut :: "store \<Rightarrow> nat set \<Rightarrow> nat set \<Rightarrow> bool" where
  "closedBut st P M \<longleftrightarrow> (\<forall>x \<in> M - P. set (sameDepsOf st x) \<subseteq> M)"

lemma closedBut_reach:
  assumes "same.decreasing st rank" "closedBut st P M" "\<forall>x \<in> P. rank d < rank x" "d \<in> M"
  shows "same.reach st d \<subseteq> M"
proof
  fix z assume "z \<in> same.reach st d"
  then have "(d, z) \<in> (same.edges st)\<^sup>*" by (simp add: same.reach_def)
  then show "z \<in> M"
  proof (induction rule: rtrancl_induct)
    case (step y z)
    have "rank y \<le> rank d" using same.reach_rank [OF assms(1), of y d] step.hyps(1) by (auto simp: same.reach_def)
    then have "y \<notin> P" using assms(3) by auto
    then show ?case using step assms(2) by (auto simp: closedBut_def same.edges_def)
  qed (use assms(4) in simp)
qed

lemma markDeps_exact:
  assumes dec: "same.decreasing st rank"
  shows "rank i < n \<Longrightarrow> closedBut st P M \<Longrightarrow> \<forall>x \<in> P. rank i \<le> rank x \<Longrightarrow>
    markDeps n i (marked M st) = Some (marked (M \<union> (\<Union>d \<in> set (sameDepsOf st i). same.reach st d)) st)"
proof (induction n arbitrary: i P M)
  case (Suc n)
  have loop: "eachO (\<lambda>d s. if actPackage (s d) = actPackage (s i) \<and> \<not> needAnalyzeSource (s d)
        then markDeps n d (s(d := (s d)\<lparr>needAnalyzeSource := True\<rparr>)) else Some s) ds (marked M st) =
      Some (marked (M \<union> (\<Union>d \<in> {d \<in> set ds. actPackage (st d) = actPackage (st i)}. same.reach st d)) st)"
    if "set ds \<subseteq> set (actDeps (st i))" "closedBut st P M" for ds M
    using that
  proof (induction ds arbitrary: M)
    case (Cons d ds)
    show ?case
    proof (cases "actPackage (st d) = actPackage (st i)")
      case True
      then have d: "d \<in> set (sameDepsOf st i)" using Cons.prems(1) by (simp add: sameDepsOf_def)
      have lt: "rank d < rank i" by (rule same.decreasingD [OF dec d])
      have P: "\<forall>x \<in> P. rank d < rank x" using lt Suc.prems(3) by auto
      show ?thesis
      proof (cases "d \<in> M")
        case in_M: True
        have "same.reach st d \<subseteq> M" by (rule closedBut_reach [OF dec Cons.prems(2) P in_M])
        then have "M \<union> (\<Union>e \<in> {e \<in> set (d # ds). actPackage (st e) = actPackage (st i)}. same.reach st e) =
            M \<union> (\<Union>e \<in> {e \<in> set ds. actPackage (st e) = actPackage (st i)}. same.reach st e)" using True by auto
        then show ?thesis using Cons.IH [of M] Cons.prems True in_M by simp
      next
        case False
        have "closedBut st (insert d P) (insert d M)" using Cons.prems(2) by (auto simp: closedBut_def)
        moreover have "\<forall>x \<in> insert d P. rank d \<le> rank x" using P by auto
        ultimately have "markDeps n d (marked (insert d M) st) = Some (marked (insert d M \<union> (\<Union>e \<in> set (sameDepsOf st d). same.reach st e)) st)"
          using lt Suc.prems(1) by (intro Suc.IH [of d "insert d P" "insert d M"]) simp_all
        moreover have eq: "insert d M \<union> (\<Union>e \<in> set (sameDepsOf st d). same.reach st e) = M \<union> same.reach st d"
          using same.reach_unfold [of st d] by auto
        moreover have "closedBut st P (M \<union> same.reach st d)"
          using Cons.prems(2) same.closedSet_reach [of st d] unfolding closedBut_def same.closedSet_def by blast
        moreover have "M \<union> same.reach st d \<union> (\<Union>e \<in> {e \<in> set ds. actPackage (st e) = actPackage (st i)}. same.reach st e) =
            M \<union> (\<Union>e \<in> {e \<in> set (d # ds). actPackage (st e) = actPackage (st i)}. same.reach st e)" using True by auto
        ultimately show ?thesis using Cons.IH [of "M \<union> same.reach st d"] Cons.prems(1) True False by simp
      qed
    next
      case False
      then have "{e \<in> set (d # ds). actPackage (st e) = actPackage (st i)} = {e \<in> set ds. actPackage (st e) = actPackage (st i)}" by auto
      then show ?thesis using Cons False by simp
    qed
  qed simp
  have "set (sameDepsOf st i) = {d \<in> set (actDeps (st i)). actPackage (st d) = actPackage (st i)}" by (auto simp: sameDepsOf_def)
  then show ?case using loop [of "actDeps (st i)" M] Suc.prems(2) by simp
qed simp

section \<open>The actions of a package\<close>

text \<open>The store in which it is noted for the actions of a set whether they have facts.\<close>

definition factsRead :: "FactEnv \<Rightarrow> nat set \<Rightarrow> store \<Rightarrow> store" where
  "factsRead E A st i = (if i \<in> A then snd (readCachedFacts E (st i)) else st i)"

lemma readCachedFacts_frame [simp]:
  "actPackage (snd (readCachedFacts E x)) = actPackage x" "actDeps (snd (readCachedFacts E x)) = actDeps x"
  "needAnalyzeSource (snd (readCachedFacts E x)) = needAnalyzeSource x"
  by (simp_all add: readCachedFacts_def Let_def)

lemma readCachedFacts_marked:
  "readCachedFacts E (x\<lparr>needAnalyzeSource := b\<rparr>) = (fst (readCachedFacts E x), (snd (readCachedFacts E x))\<lparr>needAnalyzeSource := b\<rparr>)"
  by (cases x) (simp add: readCachedFacts_def Let_def)

lemma sameDepsOf_factsRead [simp]: "sameDepsOf (factsRead E A st) = sameDepsOf st"
  by (simp add: fun_eq_iff sameDepsOf_def factsRead_def)

lemma needSource_exact:
  assumes dec: "same.decreasing st rank" and i: "rank i < n" "i \<notin> A" and M: "same.closedSet st M"
  shows "needSource n E i (b, marked M (factsRead E A st)) =
    (if fst (readCachedFacts E (st i)) then Some (b, marked M (factsRead E (insert i A) st))
     else Some (True, marked (M \<union> same.reach st i) (factsRead E (insert i A) st)))"
proof -
  let ?s = "factsRead E (insert i A) st"
  have r: "readCachedFacts E (marked M (factsRead E A st) i) = (fst (readCachedFacts E (st i)), marked M ?s i)"
    using i(2) by (simp add: marked_def factsRead_def readCachedFacts_marked)
  have u: "(marked M (factsRead E A st))(i := marked M ?s i) = marked M ?s"
    by (auto simp: fun_eq_iff marked_def factsRead_def)
  have c: "closedBut ?s {i} (insert i M)" using M by (auto simp: closedBut_def same.closedSet_def)
  have "same.decreasing ?s rank" using dec by (simp add: same.decreasing_def)
  from markDeps_exact [OF this i(1) c] have "markDeps n i (marked (insert i M) ?s) =
      Some (marked (insert i M \<union> (\<Union>d \<in> set (sameDepsOf ?s i). same.reach ?s d)) ?s)" by simp
  moreover have "same.reach ?s = same.reach st" by (simp add: fun_eq_iff same.reach_def same.edges_def)
  moreover have "insert i M \<union> (\<Union>d \<in> set (sameDepsOf st i). same.reach st d) = M \<union> same.reach st i" using same.reach_unfold [of st i] by auto
  ultimately show ?thesis using r u by (simp add: needSource_def)
qed

lemma needSources_exact:
  assumes dec: "same.decreasing st rank"
  shows "\<forall>i \<in> set acts. rank i < n \<Longrightarrow> distinct acts \<Longrightarrow> set acts \<inter> A = {} \<Longrightarrow> same.closedSet st M \<Longrightarrow>
    eachO (needSource n E) acts (b, marked M (factsRead E A st)) =
      Some (b \<or> (\<exists>i \<in> set acts. \<not> fst (readCachedFacts E (st i))),
        marked (M \<union> (\<Union>i \<in> {i \<in> set acts. \<not> fst (readCachedFacts E (st i))}. same.reach st i)) (factsRead E (A \<union> set acts) st))"
proof (induction acts arbitrary: A M b)
  case (Cons i acts)
  have i: "rank i < n" "i \<notin> A" using Cons.prems by auto
  note step = needSource_exact [OF dec i Cons.prems(4), of E b]
  have A: "set acts \<inter> insert i A = {}" using Cons.prems(2,3) by auto
  have un: "insert i A \<union> set acts = A \<union> set (i # acts)" by auto
  show ?case
  proof (cases "fst (readCachedFacts E (st i))")
    case True
    then have "{k \<in> set (i # acts). \<not> fst (readCachedFacts E (st k))} = {k \<in> set acts. \<not> fst (readCachedFacts E (st k))}" by auto
    then show ?thesis using True step Cons.IH [of "insert i A" M b] Cons.prems A un by simp
  next
    case False
    have c: "same.closedSet st (M \<union> same.reach st i)" using same.closedSet_Union [OF Cons.prems(4), of "{i}"] by simp
    have "M \<union> same.reach st i \<union> (\<Union>k \<in> {k \<in> set acts. \<not> fst (readCachedFacts E (st k))}. same.reach st k) =
        M \<union> (\<Union>k \<in> {k \<in> set (i # acts). \<not> fst (readCachedFacts E (st k))}. same.reach st k)" using False by auto
    then show ?thesis using False step Cons.IH [of "insert i A" "M \<union> same.reach st i" True] Cons.prems(1,2) A un c by simp
  qed
qed simp

section \<open>Properties\<close>

text \<open>C31: The actions of an imported package that are analyzed from source are exactly those without facts in the cache, those marked
  before, and everything that one of them needs from the same package, directly or not; the marking ends. In particular no
  action is analyzed on inputs from an action that is not. The package is loaded from source exactly when an
  action has no facts.\<close>

theorem source_marks_exact:
  assumes "same.decreasing st rank" "\<forall>i \<in> set acts. rank i < n" "distinct acts" "same.closedSet st {i. needAnalyzeSource (st i)}"
  shows "\<exists>st'. eachO (needSource n E) acts (False, st) = Some (\<exists>i \<in> set acts. \<not> fst (readCachedFacts E (st i)), st') \<and>
    {i. needAnalyzeSource (st' i)} = {i. needAnalyzeSource (st i)} \<union> (\<Union>i \<in> {i \<in> set acts. \<not> fst (readCachedFacts E (st i))}. same.reach st i) \<and>
    same.closedSet st {i. needAnalyzeSource (st' i)}"
proof -
  let ?M = "{i. needAnalyzeSource (st i)}" and ?F = "{i \<in> set acts. \<not> fst (readCachedFacts E (st i))}"
  have "marked ?M (factsRead E {} st) = st" by (simp add: factsRead_def marked_def fun_eq_iff)
  then have "eachO (needSource n E) acts (False, st) = Some (\<exists>i \<in> set acts. \<not> fst (readCachedFacts E (st i)),
      marked (?M \<union> (\<Union>i \<in> ?F. same.reach st i)) (factsRead E (set acts) st))"
    using needSources_exact [OF assms(1-3) _ assms(4), of "{}" E False] by simp
  moreover have "{i. needAnalyzeSource (marked (?M \<union> (\<Union>i \<in> ?F. same.reach st i)) (factsRead E (set acts) st) i)} = ?M \<union> (\<Union>i \<in> ?F. same.reach st i)"
    by (simp only: marked_simps(3) Collect_mem_eq)
  moreover have "same.closedSet st (?M \<union> (\<Union>i \<in> ?F. same.reach st i))" by (rule same.closedSet_Union [OF assms(4)])
  ultimately show ?thesis by (intro exI [of _ "marked (?M \<union> (\<Union>i \<in> ?F. same.reach st i)) (factsRead E (set acts) st)"]) (simp only:)
qed

text \<open>An action with facts that are missing, and one without facts that it needs.\<close>

definition exampleMarks :: store where
  "exampleMarks i = (exampleStore i)\<lparr>actAnalyzer := i, actPackage := 1, actDeps := (if i = 0 then [1] else []), isInitialPkg := False, needAnalyzeSource := False\<rparr>"

theorem source_marks_exact_witness:
  "\<exists>st'. eachO (needSource 2 exampleFacts) [0, 1] (False, exampleMarks) = Some (True, st') \<and> needAnalyzeSource (st' 0) \<and> needAnalyzeSource (st' 1)"
proof -
  have d: "same.decreasing exampleMarks (\<lambda>i. if i = 0 then 1 else 0)"
    by (simp add: same.decreasing_def sameDepsOf_def exampleMarks_def)
  have f: "\<not> fst (readCachedFacts exampleFacts (exampleMarks 0))"
    by (simp add: readCachedFacts_def exampleMarks_def exampleStore_def usesFacts_def exampleFacts_def exampleGraphEnv_def)
  have r: "0 \<in> same.reach exampleMarks 0" "1 \<in> same.reach exampleMarks 0"
    using same.reach_succ [of 1 exampleMarks 0] by (simp_all add: sameDepsOf_def exampleMarks_def)
  have c: "same.closedSet exampleMarks {i. needAnalyzeSource (exampleMarks i)}" by (simp add: same.closedSet_def exampleMarks_def)
  obtain st' where st': "eachO (needSource 2 exampleFacts) [0, 1] (False, exampleMarks) = Some (\<exists>i \<in> set [0, 1]. \<not> fst (readCachedFacts exampleFacts (exampleMarks i)), st')"
      "{i. needAnalyzeSource (st' i)} = {i. needAnalyzeSource (exampleMarks i)} \<union> (\<Union>i \<in> {i \<in> set [0, 1]. \<not> fst (readCachedFacts exampleFacts (exampleMarks i))}. same.reach exampleMarks i)"
    using source_marks_exact [OF d, of "[0, 1]" 2 exampleFacts] c by auto
  have "{0, 1} \<subseteq> {i. needAnalyzeSource (st' i)}" unfolding st'(2) using r f by auto
  then show ?thesis using st'(1) f by auto
qed

end
