(* ===== verification/Spec2Isabelle.thy ===== *)
theory Spec2Isabelle
  imports Runner Scheduler_Metrics Packages Quoted Printers Worker_Process Analysis_Results Source_Marks
begin

text \<open>
  A verification library of golangci-lint, a runner of Go linters.

  \<^bold>\<open>The program.\<close> A run reads the configuration, builds the database of linters and selects the enabled
  ones (\<open>pkg/lint/lintersdb\<close>), loads the packages and narrows them to those that a change can affect
  (\<open>pkg/lint/package.go\<close>, \<open>narrow.go\<close>, \<open>context.go\<close>), runs the linters, most of them as one graph of analysis
  actions (\<open>pkg/goanalysis\<close>), sends the issues through a chain of processors (\<open>pkg/lint/runner.go\<close>,
  \<open>pkg/result/processors\<close>) that filter, rewrite, fix and sort them, and prints what is left (\<open>pkg/printers\<close>).

  \<^bold>\<open>The theories.\<close> Each follows the order of the code and keeps its names; a name that the library already has
  carries the receiver or a prefix.

  \<^item> \<open>Go_Prelude\<close>, \<open>Filepath\<close>: the parts of Go's standard library that the code uses, executable on byte strings;
    the laws of comparators (locale \<open>three_way\<close>) and of stable sorting (locale \<open>less_preorder\<close>).
  \<^item> \<open>Result_Issue\<close>: issues (\<open>pkg/result/issue.go\<close>) and the helpers all processors are built from
    (\<open>pkg/result/processors/issues.go\<close>); the contracts of a processor as locales: \<open>shrinking_processor\<close>,
    \<open>filter_processor\<close>, \<open>typecheck_safe\<close>. They are interpreted on the processors in the theories below.
  \<^item> \<open>Fs_Cache\<close>: file and line caches (\<open>pkg/fsutils\<close>): the answer is that of the first snapshot of a file.
  \<^item> \<open>Limits\<close>: the processors that limit the number of issues (locale \<open>keyed_limiter\<close>).
  \<^item> \<open>Rules\<close>: rules, exclusions, severity and their validation (\<open>pkg/config\<close>, \<open>pkg/result/processors\<close>).
  \<^item> \<open>Nolint\<close>: directives in the source, with the memory of what each directive suppressed.
  \<^item> \<open>Sort_Results\<close>, \<open>Path_Processors\<close>, \<open>Source_Processors\<close>: order, paths, generated files, source lines, new code. The order of the issues
    is stated field by field (\<open>inConfiguredOrder\<close>) and the comparators are shown to mean it.
  \<^item> \<open>Text_Edits\<close>, \<open>Fixer\<close>: edits of texts (\<open>internal/x/tools/diff\<close>), the formatters, and the processor that applies
    the fixes of linters: conflicts, exclusion of linters, writing of files.
  \<^item> \<open>Linters_DB\<close>: descriptions of linters, the manager and the validator.
  \<^item> \<open>Runner\<close>: the chain of processors as \<open>NewRunner\<close> builds it, and the run over all linters with recovery
    from panics.
  \<^item> \<open>Action_Scheduler\<close>, \<open>Scheduler_Metrics\<close>: the scheduler of analysis actions as a step relation that interleaves
    the executor, the workers and cancellation; the lock-free recording of peaks. The relation is that of one package; the pool that
    all packages share is \<open>shared_step\<close>, and \<open>shared_pool_runs\<close> shows that each executor of it stays in states of a pool of its own.
  \<^item> \<open>Packages\<close>: the loader, the search for load errors over imports, narrowing to changed packages, the context.
  \<^item> \<open>Printers\<close>: the choice and creation of outputs, the texts and documents of the printers; what a run does to its outputs is a list of
    events, so that files emptied before a failure and partial texts of a failing printer are part of the result.
  \<^item> \<open>Quoted\<close>: quoted argument lists (\<open>internal/go/quoted\<close>).
  \<^item> \<open>Utf8\<close>: the characters of a byte string, for the TeamCity printer and for JSON.
  \<^item> \<open>Json\<close>: what \<open>encoding/json\<close> does for the protocol: the scanner of values, the writer.
  \<^item> \<open>Worker_Protocol\<close>: the line protocol between controller and worker (\<open>pkg/lint/workerprotocol/protocol.go\<close>):
    strict decoding, validation, routing, encoding.
  \<^item> \<open>Lifecycle\<close>: the recorder of lifecycle phases and the atomic replacement of its file (\<open>pkg/lint/lifecycle\<close>).
  \<^item> \<open>Worker\<close>: the session of a worker as a program over its input and output, with a small logic of triples
    (\<open>pkg/commands/worker.go\<close>).
  \<^item> \<open>Worker_Process\<close>: the process state around one run, the run itself, the race of the result, the shutdown and the
    end of input as a step relation, and the entry point of the command.
  \<^item> \<open>Disk_Cache\<close>: the cache on disk (\<open>internal/go/cache\<close>): entries, look-up, store, trimming, hashes of keys and files;
    its contract for clients is the locale \<open>byte_cache\<close>, interpreted on the disk.
  \<^item> \<open>Lasting_Cache\<close>: which answers a history of stores and trims can leave behind; extends the contract of \<open>Disk_Cache\<close> to the
    locale \<open>lasting_cache\<close>, interpreted on the disk.
  \<^item> \<open>Pkg_Cache\<close>: the hash of a package with its dependencies and the data stored under it (\<open>internal/cache\<close>).
  \<^item> \<open>Issues_Cache\<close>: the run of all analyzers with the cache of their issues (\<open>pkg/goanalysis/runners.go\<close>,
    \<open>runners_cache.go\<close>), on a cache that keeps the contract of \<open>Lasting_Cache\<close>.
  \<^item> \<open>Action_Graph\<close>: the construction of the graph of actions (\<open>pkg/goanalysis/runner.go\<close>, \<open>runner_action.go\<close>); reachability
    in graphs is the locale \<open>digraph\<close>, interpreted on keys of actions, on actions and on packages.
  \<^item> \<open>Pkg_Release\<close>: the packages of an analysis with their users, and the release of what is no longer used
    (\<open>runner_loadingpackage.go\<close>), with the recursions of packages one after the other (\<open>decUse\<close>) and interleaved (\<open>interleaved\<close>).
  \<^item> \<open>Analysis_Results\<close>: the diagnostics and errors of a finished analysis, the statistics per analyzer and the report for the
    recorder (\<open>runner.go\<close>, \<open>runners.go\<close>).
  \<^item> \<open>Action_Facts\<close>: the execution of an action, the facts of analyzers, their bundle in the cache and the analysis of a package
    (\<open>runner_checker.go\<close>, \<open>runner_action.go\<close>, \<open>runner_action_cache.go\<close>, \<open>runner_loadingpackage.go\<close>).
  \<^item> \<open>Source_Marks\<close>: which actions of an imported package are analyzed from source.

  \<^bold>\<open>State and effects.\<close> Structures are records, pointers are numbers where identity matters, errors are values of a sum.
  A method that changes its receiver returns the changed record. Maps whose iteration order is not defined are
  maps together with an order, over which the theorems quantify. Files are a map from paths to contents, or the
  answers of the file system are a parameter, with what a failed write leaves behind. Counters of issues and lines are integers: they stay far below 64 bits.

  \<^bold>\<open>Parameters.\<close> What is not in the repository is an argument: the linters themselves, the Go parser, \<open>go/packages\<close>,
  \<open>revgrep\<close>, regular expressions, formatters, digests, encoders, colours, the environment. Hypotheses on them are part of
  the statements.

  \<^bold>\<open>Fuel.\<close> Loops are structural recursions or functions with a proof of termination. These have fuel. The search
  for load errors has one more than the number of loaded packages; \<open>Packages.error_search_terminates\<close> shows that this is
  enough on every finite graph. The scanner of JSON values has twice the number of bytes plus one;
  \<open>Json.scan_fuel\<close> shows that more fuel never changes its answer. The hash of a package needs more fuel than the
  depth of the package in the graph of imports; \<open>Pkg_Cache.package_hash_memory_exact\<close> shows that this is enough. Marking and making
  actions, visiting packages, marking actions for source and extracting results need more fuel than the depth of their graphs; \<open>Action_Graph.action_graph_exact\<close>,
  \<open>Pkg_Release.packages_released_when_unused\<close>, \<open>Analysis_Results.diagnostics_extracted\<close> and \<open>Source_Marks.source_marks_exact\<close> show that they then return. The scheduler is a relation; its runs are bounded by \<open>Action_Scheduler.scheduler_terminates\<close>.

  \<^bold>\<open>What is shown.\<close> For the processors: which issues pass, in which order, with which changes, and that type-checking
  errors survive (locale \<open>typecheck_safe\<close>, \<open>Runner.typecheck_errors_survive_filters\<close>). For edits and fixes: applying
  refines splicing, edits kept never conflict. For linters: the selection is exact, the optimised list runs the
  same linters. For the run: the failure of a linter leaves the issues of all others as they are. For the scheduler: order, exactness of the result,
  termination without deadlock. For packages: narrowing is exact and the search terminates. For the printers:
  nothing is printed unless every output could be created, documents are grouped exactly, values read back.
  For the worker: what is encoded is decoded again, what is decoded is well formed, a session answers every request
  in the order and with the routing the protocol asks for, the process state is restored after a run, and exactly
  one of the racing outcomes is reported. For the caches: what is stored is found, only what was stored is answered, used entries
  survive trimming, a hash covers all sources below a package, and a run with the cache of issues reports what the
  analysis reports. For the analysis: the graph of actions is exact, all actions of a package are executed, packages
  are released exactly when nothing uses them, results are extracted completely, the report of the run adds up, and an
  analysis with facts from the cache has the same results as one from source.

  \<^bold>\<open>Not modelled.\<close> The linters (\<open>pkg/golinters\<close>), which wrap packages of third parties; the reading of configuration
  files and settings (\<open>pkg/config/loader.go\<close>, \<open>linters_settings.go\<close>); the commands other than the worker (\<open>pkg/commands\<close>), with
  the migration of old configurations; the loading of types from source and export data (\<open>pkg/goanalysis/runner_loadingpackage.go\<close>); executables,
  mapped files and external programs in the cache on disk; logging, timing and progress output; Windows paths; benchmarks and scripts.
\<close>

end
